(* ===== verification/Prelude.thy ===== *)
theory Prelude
  imports Main "HOL-Library.Word" "HOL-Library.Multiset"
begin

text \<open>
  Shared vocabulary of the development: the machine types of the source, the fragments of the
  Rust standard library the components use (saturating arithmetic on durations, joining and
  quoting of strings), and the generic lemmas on lists, sums and maps that the component
  theories rewrite with.

  A \<^verbatim>\<open>Duration\<close> is a number of nanoseconds, a \<^verbatim>\<open>usize\<close> is a \<open>nat\<close>, a \<^verbatim>\<open>String\<close> is the list of its
  UTF-8 bytes, and \<^verbatim>\<open>Result<T, E>\<close> is the sum \<open>'e + 't\<close> with the error on the left.
\<close>

named_theorems step_simps \<open>unfolding equations of state transitions\<close>
named_theorems inv_intros \<open>preservation of component invariants by single operations\<close>

type_synonym u64 = "64 word"
type_synonym duration = nat

abbreviation millisecond :: duration where
  "millisecond \<equiv> 1000000"
type_synonym usize = nat
type_synonym bytes = "8 word list"

section \<open>Arithmetic of the Rust standard library\<close>

text \<open>\<^verbatim>\<open>Duration::MAX\<close>: \<^verbatim>\<open>u64::MAX\<close> seconds and 999999999 nanoseconds.\<close>

definition duration_max :: duration where
  "duration_max = (2 ^ 64 - 1) * 10 ^ 9 + 999999999"

definition dur_saturating_mul :: "duration \<Rightarrow> nat \<Rightarrow> duration" where
  "dur_saturating_mul d k = min (d * k) duration_max"

definition u32_saturating_pow :: "nat \<Rightarrow> nat \<Rightarrow> nat" where
  "u32_saturating_pow b k = min (b ^ k) (2 ^ 32 - 1)"

text \<open>Two's-complement wrap-around of \<^verbatim>\<open>i64\<close> arithmetic.\<close>

definition i64_max :: int where
  "i64_max = 2 ^ 63 - 1"

definition i64_wrap :: "int \<Rightarrow> int" where
  "i64_wrap x = (x + 2 ^ 63) mod 2 ^ 64 - 2 ^ 63"

lemma i64_wrap_id [simp]: "- (2 ^ 63) \<le> x \<Longrightarrow> x \<le> i64_max \<Longrightarrow> i64_wrap x = x"
  by (simp add: i64_wrap_def i64_max_def)

lemma i64_wrap_overflow: "i64_wrap (i64_max + 1) = - (2 ^ 63)"
  by (simp add: i64_wrap_def i64_max_def)

lemma i64_wrap_le: "- (2 ^ 63) \<le> x \<Longrightarrow> i64_wrap x \<le> x"
proof -
  assume "- (2 ^ 63) \<le> x"
  then have "(x + 2 ^ 63) mod 2 ^ 64 \<le> x + 2 ^ 63"
    by (intro zmod_le_nonneg_dividend) simp
  then show ?thesis by (simp add: i64_wrap_def)
qed

section \<open>Strings\<close>

text \<open>\<^verbatim>\<open>[String]::join\<close>.\<close>

fun join :: "string \<Rightarrow> string list \<Rightarrow> string" where
  "join sep [] = []"
| "join sep [x] = x"
| "join sep (x # y # xs) = x @ sep @ join sep (y # xs)"

lemma join_Cons: "join sep (x # xs) = x @ concat (map (\<lambda>y. sep @ y) xs)"
  by (induction xs arbitrary: x) simp_all

text \<open>Lower-case hexadecimal digits, as in the escape \<^verbatim>\<open>\u{7f}\<close>.\<close>

definition hex_digit :: "nat \<Rightarrow> char" where
  "hex_digit n = (if n < 10 then char_of (48 + n) else char_of (87 + n))"

definition hex_byte :: "nat \<Rightarrow> string" where
  "hex_byte n = (if n < 16 then [hex_digit n] else [hex_digit (n div 16), hex_digit (n mod 16)])"

text \<open>
  One byte of the \<^verbatim>\<open>Debug\<close> form of a \<^verbatim>\<open>str\<close>. ASCII follows \<^verbatim>\<open>char::escape_debug\<close>; the bytes of
  printable non-ASCII characters are written unchanged.
\<close>

definition escape_debug :: "char \<Rightarrow> string" where
  "escape_debug c =
     (let n = of_char c :: nat in
      if n = 0 then [CHR 0x5C, CHR ''0'']
      else if n = 9 then [CHR 0x5C, CHR ''t'']
      else if n = 10 then [CHR 0x5C, CHR ''n'']
      else if n = 13 then [CHR 0x5C, CHR ''r'']
      else if n = 34 then [CHR 0x5C, CHR 0x22]
      else if n = 92 then [CHR 0x5C, CHR 0x5C]
      else if n < 32 \<or> n = 127 then [CHR 0x5C] @ ''u{'' @ hex_byte n @ ''}''
      else [c])"

text \<open>\<^verbatim>\<open>format!("{s:?}")\<close> of a string.\<close>

definition debug_str :: "string \<Rightarrow> string" where
  "debug_str s = [CHR 0x22] @ concat (map escape_debug s) @ [CHR 0x22]"

section \<open>Lists and sums\<close>

text \<open>\<^verbatim>\<open>Iterator::collect\<close> into a \<^verbatim>\<open>Result\<close>: the first error wins.\<close>

fun collect_results :: "('e + 'a) list \<Rightarrow> 'e + 'a list" where
  "collect_results [] = Inr []"
| "collect_results (Inl e # _) = Inl e"
| "collect_results (Inr x # rs) =
     (case collect_results rs of Inl e \<Rightarrow> Inl e | Inr xs \<Rightarrow> Inr (x # xs))"

lemma collect_results_map_Inr [simp]: "collect_results (map Inr xs) = Inr xs"
  by (induction xs) simp_all

lemma collect_results_InrD: "collect_results rs = Inr xs \<Longrightarrow> rs = map Inr xs"
  by (induction rs arbitrary: xs rule: collect_results.induct) (auto split: sum.splits)

lemma collect_results_Inr: "collect_results rs = Inr xs \<longleftrightarrow> rs = map Inr xs"
  by (auto dest: collect_results_InrD)

lemma collect_results_Inl:
  "collect_results rs = Inl e \<Longrightarrow> \<exists>xs rest. rs = map Inr xs @ Inl e # rest"
proof (induction rs rule: collect_results.induct)
  case (3 x rs)
  then obtain xs rest where "rs = map Inr xs @ Inl e # rest"
    by (auto split: sum.splits)
  then have "Inr x # rs = map Inr (x # xs) @ Inl e # rest" by simp
  then show ?case by blast
qed auto

text \<open>\<^verbatim>\<open>Vec::remove\<close>: the list without its element at an index in range.\<close>

definition remove_nth :: "nat \<Rightarrow> 'a list \<Rightarrow> 'a list" where
  "remove_nth i xs = take i xs @ drop (Suc i) xs"

lemma remove_nth_0 [simp]: "remove_nth 0 (x # xs) = xs"
  by (simp add: remove_nth_def)

lemma remove_nth_split: "i < length xs \<Longrightarrow> xs = take i xs @ xs ! i # drop (Suc i) xs"
  by (rule id_take_nth_drop)

lemma mset_remove_nth:
  "i < length xs \<Longrightarrow> mset xs = add_mset (xs ! i) (mset (remove_nth i xs))"
  by (subst remove_nth_split [of i xs]) (simp_all add: remove_nth_def)

lemma remove_nth_taken:
  assumes "i < length xs"
  shows "set xs = insert (xs ! i) (set (remove_nth i xs))"
    "distinct (map f xs) \<longleftrightarrow> distinct (map f (xs ! i # remove_nth i xs))"
proof -
  have "mset xs = mset (xs ! i # remove_nth i xs)" using mset_remove_nth [OF assms] by simp
  then have "mset (map f xs) = mset (map f (xs ! i # remove_nth i xs))" "set xs = set (xs ! i # remove_nth i xs)"
    by (metis mset_map, metis set_mset_mset)
  then show "set xs = insert (xs ! i) (set (remove_nth i xs))"
    "distinct (map f xs) \<longleftrightarrow> distinct (map f (xs ! i # remove_nth i xs))"
    by (simp, metis mset_eq_imp_distinct_iff)
qed

lemma sum_list_remove_nth:
  "i < length xs \<Longrightarrow> (\<Sum>x\<leftarrow>xs. f x :: nat) = f (xs ! i) + (\<Sum>x\<leftarrow>remove_nth i xs. f x)"
  by (subst remove_nth_split [of i xs]) (simp_all add: remove_nth_def)

lemma set_remove_nth: "set (remove_nth i xs) \<subseteq> set xs"
  using set_take_subset [of i xs] set_drop_subset [of "Suc i" xs] by (auto simp: remove_nth_def)

lemma filter_remove_nth:
  "i < length xs \<Longrightarrow> \<not> P (xs ! i) \<Longrightarrow> filter P (remove_nth i xs) = filter P xs"
  by (subst (2) remove_nth_split [of i xs]) (simp_all add: remove_nth_def)

lemma filter_remove_nth_single:
  assumes "i < length xs" "P (xs ! i)" "length (filter P xs) \<le> 1"
  shows "filter P (remove_nth i xs) = [] \<and> filter P xs = [xs ! i]"
proof -
  have split: "filter P xs = filter P (take i xs) @ xs ! i # filter P (drop (Suc i) xs)"
    by (subst remove_nth_split [OF assms(1)]) (simp add: assms(2))
  with assms(3) have "filter P (take i xs) = [] \<and> filter P (drop (Suc i) xs) = []" by simp
  then show ?thesis using split by (simp add: remove_nth_def)
qed

section \<open>Sums over finite maps of lists\<close>

definition wsum :: "('k \<rightharpoonup> 'a list) \<Rightarrow> ('a \<Rightarrow> nat) \<Rightarrow> nat" where
  "wsum w f = (\<Sum>k\<in>dom w. \<Sum>x\<leftarrow>the (w k). f x)"

lemma wsum_empty [simp]: "wsum Map.empty f = 0"
  by (simp add: wsum_def)

lemma wsum_remove:
  assumes "finite (dom w)" "w k = Some q"
  shows "wsum w f = (\<Sum>x\<leftarrow>q. f x) + wsum (w(k := None)) f"
proof -
  have "dom (w(k := None)) = dom w - {k}" by auto
  moreover have "(\<Sum>j\<in>dom w - {k}. \<Sum>x\<leftarrow>the ((w(k := None)) j). f x)
      = (\<Sum>j\<in>dom w - {k}. \<Sum>x\<leftarrow>the (w j). f x)"
    by (rule sum.cong) auto
  moreover have "k \<in> dom w" using assms(2) by blast
  ultimately show ?thesis
    using assms by (simp add: wsum_def sum.remove [of "dom w" k])
qed

lemma wsum_insert:
  "finite (dom w) \<Longrightarrow> wsum (w(k \<mapsto> q)) f = (\<Sum>x\<leftarrow>q. f x) + wsum (w(k := None)) f"
  using wsum_remove [of "w(k \<mapsto> q)" k q f] by (simp add: finite_dom_map_of)

lemma wsum_absent: "w k = None \<Longrightarrow> w(k := None) = w"
  by auto

lemma wsum_order:
  assumes "distinct order" "set order = dom w"
  shows "wsum w f = (\<Sum>x\<leftarrow>concat (map (\<lambda>k. case w k of None \<Rightarrow> [] | Some q \<Rightarrow> q) order). f x)"
proof -
  have "wsum w f = (\<Sum>k\<leftarrow>order. \<Sum>x\<leftarrow>the (w k). f x)"
    unfolding wsum_def assms(2) [symmetric] by (rule sum.distinct_set_conv_list [OF assms(1)])
  also have "\<dots> = (\<Sum>k\<leftarrow>order. \<Sum>x\<leftarrow>(case w k of None \<Rightarrow> [] | Some q \<Rightarrow> q). f x)"
    by (rule arg_cong [of _ _ sum_list], rule map_cong) (use assms(2) in \<open>auto split: option.splits\<close>)
  also have "\<dots> = (\<Sum>x\<leftarrow>concat (map (\<lambda>k. case w k of None \<Rightarrow> [] | Some q \<Rightarrow> q) order). f x)"
    by (induction order) (simp_all)
  finally show ?thesis .
qed

section \<open>Transition systems\<close>

text \<open>
  A component that is called in many orders is a partial step function over its calls; \<open>None\<close> is a
  call the client may not make in that state. Reachability and runs are the same for all of them,
  and so is the passage from a preserved predicate to all reachable states.
\<close>

inductive reach :: "('s \<Rightarrow> bool) \<Rightarrow> ('s \<Rightarrow> 'e \<Rightarrow> 's option) \<Rightarrow> 's \<Rightarrow> bool"
  for init :: "'s \<Rightarrow> bool" and step :: "'s \<Rightarrow> 'e \<Rightarrow> 's option" where
  reach_init: "init s \<Longrightarrow> reach init step s"
| reach_step: "reach init step s \<Longrightarrow> step s e = Some s' \<Longrightarrow> reach init step s'"

fun run :: "('s \<Rightarrow> 'e \<Rightarrow> 's option) \<Rightarrow> 's \<Rightarrow> 'e list \<Rightarrow> 's option" where
  "run step s [] = Some s"
| "run step s (e # es) = (case step s e of None \<Rightarrow> None | Some s' \<Rightarrow> run step s' es)"

lemma reach_run: "reach init step s \<Longrightarrow> run step s es = Some s' \<Longrightarrow> reach init step s'"
  by (induction step s es rule: run.induct) (auto split: option.splits intro: reach_step)

lemma run_reach: "init s \<Longrightarrow> run step s es = Some s' \<Longrightarrow> reach init step s'"
  by (blast intro: reach_run reach_init)

lemma run_append:
  "run step s (es @ fs) = (case run step s es of None \<Rightarrow> None | Some s' \<Rightarrow> run step s' fs)"
  by (induction step s es rule: run.induct) (auto split: option.splits)

text \<open>A run seen from its end: what relates its events to the state it reaches.\<close>

lemma run_history:
  assumes "run step s0 es = Some s" "P [] s0"
    "\<And>es s e s'. run step s0 es = Some s \<Longrightarrow> P es s \<Longrightarrow> step s e = Some s' \<Longrightarrow> P (es @ [e]) s'"
  shows "P es s"
  using assms(1)
proof (induction es arbitrary: s rule: rev_induct)
  case Nil
  then show ?case using assms(2) by simp
next
  case (snoc e es)
  then show ?case by (auto simp: run_append split: option.splits intro: assms(3))
qed

text \<open>A closed run that ends in a state with a property; evaluating it gives a reachable state.\<close>

fun run_ok :: "('s \<Rightarrow> bool) \<Rightarrow> 's option \<Rightarrow> bool" where
  "run_ok P None = False"
| "run_ok P (Some s) = P s"

lemma run_ok_reach:
  assumes "init s" "run_ok P (run step s es)"
  obtains s' where "run step s es = Some s'" "reach init step s'" "P s'"
  using assms by (cases "run step s es") (auto intro: run_reach)

lemma run_ok_obtain:
  assumes "run_ok P (run step s es)" "init s"
  obtains s' where "reach init step s'" "P s'"
  using run_ok_reach [of init s P step es] assms by metis

locale invariant_system =
  fixes init :: "'s \<Rightarrow> bool" and step :: "'s \<Rightarrow> 'e \<Rightarrow> 's option" and inv :: "'s \<Rightarrow> bool"
  assumes inv_init: "init s \<Longrightarrow> inv s"
    and inv_step: "inv s \<Longrightarrow> step s e = Some s' \<Longrightarrow> inv s'"
begin

lemma reach_inv: "reach init step s \<Longrightarrow> inv s"
  by (induction rule: reach.induct) (auto intro: inv_init inv_step)

lemma run_inv: "inv s \<Longrightarrow> run step s es = Some s' \<Longrightarrow> inv s'"
  by (induction es arbitrary: s) (auto split: option.splits intro: inv_step)

end

end
