(* ===== verification/Errors.thy ===== *)
theory Errors
  imports Prelude
begin

text \<open>
  The error values of \<^verbatim>\<open>src/error.rs\<close> and the rejection marker of \<^verbatim>\<open>src/sink.rs\<close>. A \<^verbatim>\<open>BoxError\<close> is
  a crate \<^verbatim>\<open>Error\<close>, a \<^verbatim>\<open>PublishRejected\<close> marker, or a foreign \<^verbatim>\<open>std::error::Error\<close>, of which
  the crate sees the \<^verbatim>\<open>Display\<close> text and the \<^verbatim>\<open>source\<close>.
\<close>

datatype error =
    Config string
  | InvalidRecord string
  | Closed string
  | Timeout string
  | Failed string "box_error option"
  | SubscriptionError string box_error
and box_error =
    Crate error
  | PublishRejected box_error
  | Foreign string "box_error option"

type_synonym 'a outcome = "box_error + 'a"

definition error_config :: "string \<Rightarrow> error" where
  "error_config m = Config m"

definition error_msg :: "string \<Rightarrow> error" where
  "error_msg m = Failed m None"

definition error_wrap :: "string \<Rightarrow> box_error \<Rightarrow> error" where
  "error_wrap m e = Failed m (Some e)"

text \<open>\<^verbatim>\<open>Error::unbox\<close>: a boxed crate error is recovered, any other error is wrapped.\<close>

fun error_unbox :: "box_error \<Rightarrow> string \<Rightarrow> error" where
  "error_unbox (Crate e) m = e"
| "error_unbox e m = error_wrap m e"

text \<open>\<^verbatim>\<open>StdError::source\<close> of a crate error and of any boxed error.\<close>

fun error_source :: "error \<Rightarrow> box_error option" where
  "error_source (Failed m (Some s)) = Some s"
| "error_source (SubscriptionError n s) = Some s"
| "error_source _ = None"

fun box_source :: "box_error \<Rightarrow> box_error option" where
  "box_source (Crate e) = error_source e"
| "box_source (PublishRejected s) = Some s"
| "box_source (Foreign m s) = s"

text \<open>\<^verbatim>\<open>Display\<close>: one level only.\<close>

fun error_display :: "error \<Rightarrow> string" where
  "error_display (Config m) = ''invalid configuration: '' @ m"
| "error_display (InvalidRecord m) = m"
| "error_display (Closed m) = m"
| "error_display (Timeout m) = m"
| "error_display (Failed m s) = m"
| "error_display (SubscriptionError n s) = ''subscription '' @ debug_str n @ '' failed''"

fun box_display :: "box_error \<Rightarrow> string" where
  "box_display (Crate e) = error_display e"
| "box_display (PublishRejected s) = ''output rejected by its destination''"
| "box_display (Foreign m s) = m"

lemma box_source_smaller [termination_simp]: "box_source e = Some s \<Longrightarrow> size s < size e"
proof (cases e)
  case (Crate c)
  assume "box_source e = Some s"
  with Crate show ?thesis by (cases c rule: error_source.cases) auto
qed auto

text \<open>\<^verbatim>\<open>causes\<close>: the error followed by each of its causes.\<close>

function causes :: "box_error \<Rightarrow> box_error list" where
  "causes e = e # (case box_source e of None \<Rightarrow> [] | Some s \<Rightarrow> causes s)"
  by pat_completeness auto
termination
  by (relation "measure size") (auto simp: box_source_smaller)

declare causes.simps [simp del]

lemma causes_Crate: "causes (Crate e) = Crate e # (case error_source e of None \<Rightarrow> [] | Some s \<Rightarrow> causes s)"
  by (simp add: causes.simps [of "Crate e"])

lemma causes_PublishRejected: "causes (PublishRejected s) = PublishRejected s # causes s"
  by (simp add: causes.simps [of "PublishRejected s"])

lemma causes_Foreign: "causes (Foreign m s) = Foreign m s # (case s of None \<Rightarrow> [] | Some t \<Rightarrow> causes t)"
  by (simp add: causes.simps [of "Foreign m s"])

lemmas causes_unfold = causes_Crate causes_PublishRejected causes_Foreign

definition chain :: "box_error \<Rightarrow> string" where
  "chain e = join '': '' (map box_display (causes e))"

text \<open>
  The loop \<^verbatim>\<open>while let Some(cause) = source\<close> of the alternate \<^verbatim>\<open>Display\<close> and of \<^verbatim>\<open>Debug\<close>, which
  writes \<open>pre\<close> and the plain form of every cause.
\<close>

function write_causes :: "string \<Rightarrow> box_error option \<Rightarrow> string" where
  "write_causes pre None = []"
| "write_causes pre (Some c) = pre @ box_display c @ write_causes pre (box_source c)"
  by pat_completeness auto
termination
  by (relation "measure (\<lambda>(pre, s). case s of None \<Rightarrow> 0 | Some c \<Rightarrow> Suc (size c))")
    (auto split: option.splits dest: box_source_smaller)

definition error_display_alternate :: "error \<Rightarrow> string" where
  "error_display_alternate e = error_display e @ write_causes '': '' (error_source e)"

definition error_debug :: "error \<Rightarrow> string" where
  "error_debug e =
     error_display e
     @ (if error_source e \<noteq> None then [CHR 0x0A, CHR 0x0A] @ ''Caused by:'' else [])
     @ write_causes ([CHR 0x0A] @ ''    '') (error_source e)"

text \<open>\<^verbatim>\<open>BoxContext::context\<close>, \<^verbatim>\<open>Context::context\<close> on a result and on an option.\<close>

definition box_context :: "string \<Rightarrow> box_error \<Rightarrow> box_error" where
  "box_context m e = Crate (error_wrap m e)"

fun result_context :: "string \<Rightarrow> 'a outcome \<Rightarrow> 'a outcome" where
  "result_context m (Inl e) = Inl (Crate (error_wrap m e))"
| "result_context m (Inr x) = Inr x"

fun option_context :: "string \<Rightarrow> 'a option \<Rightarrow> 'a outcome" where
  "option_context m None = Inl (Crate (error_msg m))"
| "option_context m (Some x) = Inr x"

text \<open>\<^verbatim>\<open>PublishRejected::is\<close>: the error or one of its causes is the marker.\<close>

fun is_publish_rejected :: "box_error \<Rightarrow> bool" where
  "is_publish_rejected (PublishRejected _) = True"
| "is_publish_rejected _ = False"

definition rejected :: "box_error \<Rightarrow> bool" where
  "rejected e = list_ex is_publish_rejected (causes e)"

definition publish_rejected_wrap :: "box_error \<Rightarrow> box_error" where
  "publish_rejected_wrap e = PublishRejected e"

section \<open>Facts\<close>

lemma causes_not_Nil [simp]: "causes e \<noteq> []"
  by (simp add: causes.simps)

lemma write_causes_causes:
  "write_causes pre s =
     concat (map (\<lambda>c. pre @ box_display c) (case s of None \<Rightarrow> [] | Some c \<Rightarrow> causes c))"
proof (induction pre s rule: write_causes.induct)
  case (2 pre c)
  then show ?case by (simp add: causes.simps [of c] split: option.splits)
qed simp

lemma chain_unfold:
  "chain e = box_display e @ write_causes '': '' (box_source e)"
  by (simp add: chain_def causes.simps [of e] join_Cons write_causes_causes comp_def
      split: option.splits)

lemma rejected_context [simp]: "rejected (box_context m e) = rejected e"
  by (simp add: rejected_def box_context_def error_wrap_def causes_Crate)

lemma rejected_wrap [simp]: "rejected (publish_rejected_wrap e)"
  by (simp add: rejected_def publish_rejected_wrap_def causes_PublishRejected)

lemma rejected_error_msg [simp]: "\<not> rejected (Crate (error_msg m))"
  by (simp add: rejected_def error_msg_def causes_Crate)

text \<open>
  \<open>chain\<close>, used in logs and dead letters, and the alternate form \<open>{:#}\<close> of a crate error
  print the same text: the error and every cause, separated by a colon and a space.
\<close>

theorem chain_is_alternate_display: "chain (Crate e) = error_display_alternate e"
  by (simp add: chain_unfold error_display_alternate_def)

text \<open>
  Wrapping a publication error in any number of context messages, as every layer of the
  runtime does, neither hides a rejection marker nor forges one, and the wrapped text is the
  context messages followed by the text of the error.
\<close>

theorem context_preserves_rejection:
  "rejected (foldr box_context ms e) = rejected e \<and>
   chain (foldr box_context ms e) = concat (map (\<lambda>m. m @ '': '') ms) @ chain e"
proof (induction ms)
  case (Cons m ms)
  have "chain (box_context m e') = m @ '': '' @ chain e'" for e'
    by (simp add: box_context_def error_wrap_def chain_unfold)
  with Cons show ?case by simp
qed simp

end
