(* ===== verification/Retry.thy ===== *)
theory Retry
  imports Errors
begin

text \<open>
  The retry policy of \<^verbatim>\<open>src/retry.rs\<close>: a bounded number of attempts separated by a capped
  exponential delay with optional jitter. The random 64-bit value that
  \<^verbatim>\<open>RandomState::new().build_hasher().finish()\<close> yields is the argument \<open>r\<close> of the functions that
  draw one.
\<close>

datatype jitter = JitterNone | JitterFull | JitterEqual

record retry_policy =
  max_attempts :: usize
  initial_delay :: duration
  max_delay :: duration
  policy_jitter :: jitter

definition default_retry_policy :: retry_policy where
  "default_retry_policy =
     \<lparr>max_attempts = 3, initial_delay = 100 * 10 ^ 6, max_delay = 5 * 10 ^ 9,
      policy_jitter = JitterNone\<rparr>"

text \<open>\<^verbatim>\<open>random_up_to\<close>: a 64-bit random value scaled to \<open>[0, max]\<close>.\<close>

definition random_up_to :: "u64 \<Rightarrow> duration \<Rightarrow> duration" where
  "random_up_to r m =
     (let nanos = min m (2 ^ 64 - 1) in
      if nanos = 0 then 0 else (unat r * (nanos + 1)) div 2 ^ 64)"

text \<open>The capped exponential delay, before jitter.\<close>

definition backoff :: "retry_policy \<Rightarrow> usize \<Rightarrow> duration" where
  "backoff p failures =
     min (dur_saturating_mul (initial_delay p) (u32_saturating_pow 2 (min (failures - 1) 31)))
       (max_delay p)"

text \<open>\<^verbatim>\<open>RetryPolicy::delay\<close>.\<close>

definition delay :: "u64 \<Rightarrow> retry_policy \<Rightarrow> usize \<Rightarrow> duration" where
  "delay r p failures =
     (let d = backoff p failures in
      case policy_jitter p of
        JitterNone \<Rightarrow> d
      | JitterFull \<Rightarrow> random_up_to r d
      | JitterEqual \<Rightarrow> d div 2 + random_up_to r (d - d div 2))"

text \<open>\<^verbatim>\<open>RetryPolicy::validate\<close>.\<close>

definition retry_validate :: "retry_policy \<Rightarrow> error + unit" where
  "retry_validate p =
     (if max_attempts p > 0 then Inr () else Inl (error_config ''max_attempts must be positive''))"

section \<open>Facts\<close>

lemma random_up_to_le: "random_up_to r m \<le> m"
proof -
  define n where "n = min m (2 ^ 64 - 1)"
  have r: "unat r < 2 ^ 64"
    using unsigned_less [of r] by simp
  have "unat r * (n + 1) \<le> (2 ^ 64 - 1) * (n + 1)"
    using r by (intro mult_le_mono1) linarith
  also have "\<dots> < 2 ^ 64 * (n + 1)" by simp
  finally have "unat r * (n + 1) div 2 ^ 64 < n + 1"
    by (simp only: less_mult_imp_div_less mult.commute)
  then have "unat r * (n + 1) div 2 ^ 64 \<le> n" by simp
  moreover have "n \<le> m" by (simp add: n_def)
  ultimately have "unat r * (n + 1) div 2 ^ 64 \<le> m" by linarith
  then show ?thesis
    unfolding random_up_to_def n_def Let_def by (cases "min m (2 ^ 64 - 1) = 0") (simp_all only: if_True if_False le0 refl)
qed

lemma pow_31_bound: "(2 :: nat) ^ min k 31 \<le> 2 ^ 31"
  by (rule power_increasing) simp_all

lemma u32_pow_2 [simp]: "u32_saturating_pow 2 (min k 31) = 2 ^ min k 31"
proof -
  have "(2 :: nat) ^ min k 31 \<le> 2 ^ 32 - 1"
    using pow_31_bound [of k] by simp
  then show ?thesis by (simp add: u32_saturating_pow_def)
qed

lemma backoff_eq:
  "backoff p f = min (min (initial_delay p * 2 ^ min (f - 1) 31) duration_max) (max_delay p)"
  by (simp add: backoff_def dur_saturating_mul_def)

lemma backoff_mono: "f \<le> g \<Longrightarrow> backoff p f \<le> backoff p g"
proof -
  assume "f \<le> g"
  then have "(2 :: nat) ^ min (f - 1) 31 \<le> 2 ^ min (g - 1) 31"
    by (intro power_increasing min.mono diff_le_mono) simp_all
  then show ?thesis
    unfolding backoff_eq by (intro min.mono mult_le_mono2) simp_all
qed

lemma delay_le_backoff: "delay r p f \<le> backoff p f"
  using random_up_to_le [of r "backoff p f"]
    random_up_to_le [of r "backoff p f - backoff p f div 2"]
  by (auto simp: delay_def Let_def split: jitter.splits)

text \<open>
  The delay after any number of failures stays within \<open>[0, max_delay]\<close> whatever the jitter and
  the random value, is at least half of the exponential delay under equal jitter, and is exactly
  the exponential delay without jitter.
\<close>

theorem delay_bounds:
  "delay r p f \<le> max_delay p \<and>
   delay r p f \<le> initial_delay p * 2 ^ (f - 1) \<and>
   (policy_jitter p = JitterEqual \<longrightarrow> backoff p f div 2 \<le> delay r p f) \<and>
   (policy_jitter p = JitterNone \<longrightarrow> delay r p f = backoff p f)"
proof -
  have "backoff p f \<le> max_delay p" by (simp add: backoff_eq)
  moreover have "initial_delay p * 2 ^ min (f - 1) 31 \<le> initial_delay p * 2 ^ (f - 1)"
    by (simp add: power_increasing)
  then have "backoff p f \<le> initial_delay p * 2 ^ (f - 1)"
    unfolding backoff_eq by linarith
  ultimately have "delay r p f \<le> max_delay p \<and> delay r p f \<le> initial_delay p * 2 ^ (f - 1)"
    using delay_le_backoff [of r p f] by linarith
  then show ?thesis
    by (simp add: delay_def Let_def)
qed

theorem delay_bounds_witness:
  "policy_jitter (default_retry_policy\<lparr>policy_jitter := JitterEqual\<rparr>) = JitterEqual \<and>
   100 * 10 ^ 6 \<le> delay 7 (default_retry_policy\<lparr>policy_jitter := JitterEqual\<rparr>) 2"
  using delay_bounds [of 7 "default_retry_policy\<lparr>policy_jitter := JitterEqual\<rparr>" 2]
  by (simp add: default_retry_policy_def backoff_eq duration_max_def)

text \<open>
  Up to the thirty-second failure the undisturbed delay is the documented
  \<open>initial_delay * 2^(n-1)\<close> capped at \<open>max_delay\<close> (and at the largest duration); from then on it
  no longer grows, even where \<open>max_delay\<close> has not been reached.
\<close>

theorem backoff_doubles_then_saturates:
  "(1 \<le> n \<longrightarrow> n \<le> 32 \<longrightarrow>
     backoff p n = min (min (initial_delay p * 2 ^ (n - 1)) duration_max) (max_delay p)) \<and>
   (32 \<le> n \<longrightarrow> backoff p n = backoff p 32)"
proof -
  have "n \<le> 32 \<Longrightarrow> min (n - 1) 31 = n - 1" and "32 \<le> n \<Longrightarrow> min (n - 1) 31 = min (32 - 1) 31"
    by linarith+
  then show ?thesis by (simp add: backoff_eq)
qed

theorem backoff_doubles_then_saturates_witness:
  "backoff (default_retry_policy\<lparr>initial_delay := 1\<rparr>) 40 = 2 ^ 31 \<and>
   backoff default_retry_policy 3 = 400 * 10 ^ 6"
  using backoff_doubles_then_saturates [of 40 "default_retry_policy\<lparr>initial_delay := 1\<rparr>"]
    backoff_doubles_then_saturates [of 3 default_retry_policy]
  by (simp add: default_retry_policy_def backoff_eq duration_max_def)

end
