(* ===== verification/Error_Policy.thy ===== *)
theory Error_Policy
  imports Errors
begin

text \<open>
  Failure routing of \<^verbatim>\<open>src/error_policy.rs\<close>: the routable failure kinds with their names, the
  action a subscription takes after each kind, and the validation of a policy against the presence
  of a dead-letter sink.
\<close>

datatype failure_kind = FkDecode | FkRejected | FkRetryExhausted | FkEncode | FkPublishRejected

fun kind_as_str :: "failure_kind \<Rightarrow> string" where
  "kind_as_str FkDecode = ''decode''"
| "kind_as_str FkRejected = ''rejected''"
| "kind_as_str FkRetryExhausted = ''retry_exhausted''"
| "kind_as_str FkEncode = ''encode''"
| "kind_as_str FkPublishRejected = ''publish_rejected''"

definition kind_from_str :: "string \<Rightarrow> error + failure_kind" where
  "kind_from_str name =
     (case find (\<lambda>k. kind_as_str k = name)
             [FkDecode, FkRejected, FkRetryExhausted, FkEncode, FkPublishRejected] of
        Some k \<Rightarrow> Inr k
      | None \<Rightarrow> Inl (InvalidRecord (''unknown failure kind '' @ debug_str name)))"

fun kind_display :: "failure_kind \<Rightarrow> string" where
  "kind_display FkDecode = ''decode failed''"
| "kind_display FkRejected = ''handler rejected input''"
| "kind_display FkRetryExhausted = ''handler retry exhausted''"
| "kind_display FkEncode = ''prepare output failed''"
| "kind_display FkPublishRejected = ''sink rejected output''"

datatype failure_action = Stop | DeadLetterAction | Discard

record error_policy =
  on_decode :: failure_action
  on_rejected :: failure_action
  on_retry_exhausted :: failure_action
  on_encode :: failure_action
  on_publish_rejected :: failure_action

definition default_error_policy :: error_policy where
  "default_error_policy =
     \<lparr>on_decode = Stop, on_rejected = DeadLetterAction, on_retry_exhausted = DeadLetterAction,
      on_encode = Stop, on_publish_rejected = DeadLetterAction\<rparr>"

definition dead_letter_all :: error_policy where
  "dead_letter_all =
     \<lparr>on_decode = DeadLetterAction, on_rejected = DeadLetterAction,
      on_retry_exhausted = DeadLetterAction, on_encode = DeadLetterAction,
      on_publish_rejected = DeadLetterAction\<rparr>"

fun policy_action :: "error_policy \<Rightarrow> failure_kind \<Rightarrow> failure_action" where
  "policy_action p FkDecode = on_decode p"
| "policy_action p FkRejected = on_rejected p"
| "policy_action p FkRetryExhausted = on_retry_exhausted p"
| "policy_action p FkEncode = on_encode p"
| "policy_action p FkPublishRejected = on_publish_rejected p"

text \<open>The \<^verbatim>\<open>Debug\<close> name of a kind, as it appears in validation messages.\<close>

fun kind_debug :: "failure_kind \<Rightarrow> string" where
  "kind_debug FkDecode = ''Decode''"
| "kind_debug FkRejected = ''Rejected''"
| "kind_debug FkRetryExhausted = ''RetryExhausted''"
| "kind_debug FkEncode = ''Encode''"
| "kind_debug FkPublishRejected = ''PublishRejected''"

fun policy_validate_kinds :: "error_policy \<Rightarrow> failure_kind list \<Rightarrow> error + unit" where
  "policy_validate_kinds p [] = Inr ()"
| "policy_validate_kinds p (k # ks) =
     (if policy_action p k \<noteq> DeadLetterAction then policy_validate_kinds p ks
      else Inl (error_config (''error policy dead-letters '' @ kind_debug k
             @ '' failures but no dead-letter sink is configured'')))"

definition policy_validate :: "error_policy \<Rightarrow> bool \<Rightarrow> error + unit" where
  "policy_validate p has_dead_letter_sink =
     (if has_dead_letter_sink then Inr () else policy_validate_kinds p [FkDecode, FkEncode])"

section \<open>Facts\<close>

text \<open>Every kind name is distinct from every other, so the first match of \<^verbatim>\<open>from_str\<close> is the only one.\<close>

lemma kind_as_str_inject [simp]: "kind_as_str k = kind_as_str l \<longleftrightarrow> k = l"
  by (cases k; cases l) simp_all

lemma kind_from_str_as_str [simp]: "kind_from_str (kind_as_str k) = Inr k"
  by (cases k) (simp_all add: kind_from_str_def)

lemma kind_from_strD: "kind_from_str s = Inr k \<Longrightarrow> s = kind_as_str k"
  by (auto simp: kind_from_str_def split: option.splits if_splits)

text \<open>
  \<open>FailureKind\<close> names round-trip: parsing the name of a kind gives the kind back, and a text
  that parses is exactly the name of the kind it parses to.
\<close>

theorem kind_name_roundtrip:
  "kind_from_str name = Inr k \<longleftrightarrow> name = kind_as_str k"
  by (auto dest: kind_from_strD)

text \<open>
  Validation accepts a policy exactly when every decode or encode failure it dead-letters has
  a dead-letter sink to go to; the default policy is accepted with or without one and never
  discards a delivery.
\<close>

theorem policy_validate_iff:
  "(policy_validate p dlq = Inr () \<longleftrightarrow>
     dlq \<or> policy_action p FkDecode \<noteq> DeadLetterAction \<and> policy_action p FkEncode \<noteq> DeadLetterAction) \<and>
   policy_validate default_error_policy dlq = Inr () \<and>
   policy_action default_error_policy k \<noteq> Discard"
  by (cases k) (simp_all add: policy_validate_def default_error_policy_def)

end
