(* ===== verification/Dead_Letters.thy ===== *)
theory Dead_Letters
  imports Error_Policy
begin

text \<open>
  The dead-letter envelope and the failure details of \<^verbatim>\<open>src/dead_letter.rs\<close>, which broker adapters
  write as text headers next to the original payload and read back. Decimal printing and parsing
  follow the standard library's \<^verbatim>\<open>to_string\<close> and \<^verbatim>\<open>FromStr\<close> for unsigned integers.
\<close>

section \<open>Decimal text of unsigned integers\<close>

definition digit_char :: "nat \<Rightarrow> char" where
  "digit_char d = char_of (48 + d)"

definition char_digit :: "char \<Rightarrow> nat option" where
  "char_digit c = (let n = of_char c in if 48 \<le> n \<and> n < 58 then Some (n - 48) else None)"

fun show_nat :: "nat \<Rightarrow> string" where
  "show_nat n = (if n < 10 then [digit_char n] else show_nat (n div 10) @ [digit_char (n mod 10)])"

declare show_nat.simps [simp del]

datatype parse_int_error = PieEmpty | PieInvalidDigit | PiePosOverflow | PieNegOverflow

fun parse_int_error_display :: "parse_int_error \<Rightarrow> string" where
  "parse_int_error_display PieEmpty = ''cannot parse integer from empty string''"
| "parse_int_error_display PieInvalidDigit = ''invalid digit found in string''"
| "parse_int_error_display PiePosOverflow = ''number too large to fit in target type''"
| "parse_int_error_display PieNegOverflow = ''number too small to fit in target type''"

fun parse_digits :: "nat \<Rightarrow> nat \<Rightarrow> string \<Rightarrow> parse_int_error + nat" where
  "parse_digits m acc [] = Inr acc"
| "parse_digits m acc (c # cs) =
     (case char_digit c of
        None \<Rightarrow> Inl PieInvalidDigit
      | Some d \<Rightarrow> if acc * 10 + d > m then Inl PiePosOverflow else parse_digits m (acc * 10 + d) cs)"

text \<open>\<^verbatim>\<open>FromStr\<close> of an unsigned type with maximum \<open>m\<close>: one leading plus sign is accepted.\<close>

definition parse_unsigned :: "nat \<Rightarrow> string \<Rightarrow> parse_int_error + nat" where
  "parse_unsigned m s =
     (case s of
        [] \<Rightarrow> Inl PieEmpty
      | c # cs \<Rightarrow>
          if cs = [] \<and> (c = CHR ''+'' \<or> c = CHR ''-'') then Inl PieInvalidDigit
          else parse_digits m 0 (if c = CHR ''+'' then cs else s))"

definition usize_max :: nat where
  "usize_max = 2 ^ 64 - 1"

definition u32_max :: nat where
  "u32_max = 2 ^ 32 - 1"

section \<open>Dead letters\<close>

record ('i, 'r) dead_letter =
  dl_subscription :: string
  dl_failure :: failure_kind
  dl_error :: string
  dl_attempts :: usize
  dl_input :: "'i option"
  dl_raw :: 'r

definition dead_letter_new ::
  "string \<Rightarrow> failure_kind \<Rightarrow> box_error \<Rightarrow> usize \<Rightarrow> 'i option \<Rightarrow> 'r \<Rightarrow> ('i, 'r) dead_letter" where
  "dead_letter_new sub k e n i r =
     \<lparr>dl_subscription = sub, dl_failure = k, dl_error = chain e, dl_attempts = n, dl_input = i,
      dl_raw = r\<rparr>"

definition try_map_raw ::
  "('r \<Rightarrow> 'e + 't) \<Rightarrow> ('i, 'r) dead_letter \<Rightarrow> 'e + ('i, 't) dead_letter" where
  "try_map_raw f d =
     (case f (dl_raw d) of
        Inl e \<Rightarrow> Inl e
      | Inr t \<Rightarrow> Inr \<lparr>dl_subscription = dl_subscription d, dl_failure = dl_failure d,
                    dl_error = dl_error d, dl_attempts = dl_attempts d, dl_input = dl_input d,
                    dl_raw = t\<rparr>)"

record dead_letter_details =
  dd_subscription :: string
  dd_failure :: failure_kind
  dd_error :: string
  dd_attempts :: usize
  dd_count :: "32 word"

definition hdr_subscription :: string where "hdr_subscription = ''beavers-dlq-subscription''"
definition hdr_failure :: string where "hdr_failure = ''beavers-dlq-failure''"
definition hdr_error :: string where "hdr_error = ''beavers-dlq-error''"
definition hdr_attempts :: string where "hdr_attempts = ''beavers-dlq-attempts''"
definition hdr_count :: string where "hdr_count = ''beavers-dlq-count''"

lemmas hdr_defs =
  hdr_subscription_def hdr_failure_def hdr_error_def hdr_attempts_def hdr_count_def

definition u32_saturating_add :: "32 word \<Rightarrow> 32 word \<Rightarrow> 32 word" where
  "u32_saturating_add a b = (if unat a + unat b > u32_max then - 1 else a + b)"

definition details_of ::
  "('i, 'r) dead_letter \<Rightarrow> dead_letter_details option \<Rightarrow> dead_letter_details" where
  "details_of d previous =
     \<lparr>dd_subscription = dl_subscription d, dd_failure = dl_failure d, dd_error = dl_error d,
      dd_attempts = dl_attempts d,
      dd_count = (case previous of None \<Rightarrow> 1 | Some p \<Rightarrow> u32_saturating_add (dd_count p) 1)\<rparr>"

definition details_fields :: "dead_letter_details \<Rightarrow> (string \<times> string) list" where
  "details_fields d =
     [(hdr_subscription, dd_subscription d),
      (hdr_failure, kind_as_str (dd_failure d)),
      (hdr_error, dd_error d),
      (hdr_attempts, show_nat (dd_attempts d)),
      (hdr_count, show_nat (unat (dd_count d)))]"

definition parse_number :: "nat \<Rightarrow> string \<Rightarrow> string \<Rightarrow> error + nat" where
  "parse_number m name v =
     (case parse_unsigned m v of
        Inr n \<Rightarrow> Inr n
      | Inl e \<Rightarrow> Inl (InvalidRecord (''dead-letter header '' @ name @ '' is not a number: ''
             @ debug_str v @ '': '' @ parse_int_error_display e)))"

definition required_field :: "(string \<Rightarrow> error + string option) \<Rightarrow> string \<Rightarrow> error + string" where
  "required_field field name =
     (case field name of
        Inl e \<Rightarrow> Inl e
      | Inr None \<Rightarrow> Inl (InvalidRecord (''dead-letter header '' @ name @ '' is missing''))
      | Inr (Some v) \<Rightarrow> Inr v)"

definition bind_result :: "'e + 'a \<Rightarrow> ('a \<Rightarrow> 'e + 'b) \<Rightarrow> 'e + 'b" where
  "bind_result r f = (case r of Inl e \<Rightarrow> Inl e | Inr x \<Rightarrow> f x)"

lemma bind_result_simps [simp]:
  "bind_result (Inl e) f = Inl e" "bind_result (Inr x) f = f x"
  by (simp_all add: bind_result_def)

definition details_parse ::
  "(string \<Rightarrow> error + string option) \<Rightarrow> error + dead_letter_details option" where
  "details_parse field =
     bind_result (field hdr_failure) (\<lambda>failure.
       case failure of
         None \<Rightarrow> Inr None
       | Some failure \<Rightarrow>
           bind_result (required_field field hdr_subscription) (\<lambda>subscription.
           bind_result (kind_from_str failure) (\<lambda>kind.
           bind_result (required_field field hdr_error) (\<lambda>err.
           bind_result (bind_result (required_field field hdr_attempts)
                          (parse_number usize_max hdr_attempts)) (\<lambda>attempts.
           bind_result (bind_result (required_field field hdr_count)
                          (parse_number u32_max hdr_count)) (\<lambda>count.
             Inr (Some \<lparr>dd_subscription = subscription, dd_failure = kind, dd_error = err,
                        dd_attempts = attempts, dd_count = of_nat count\<rparr>)))))))"

section \<open>Facts\<close>

lemma char_digit_digit_char [simp]: "d < 10 \<Longrightarrow> char_digit (digit_char d) = Some d"
  by (simp add: char_digit_def digit_char_def)

lemma digit_char_not_sign [simp]:
  "d < 10 \<Longrightarrow> digit_char d \<noteq> CHR ''+''" "d < 10 \<Longrightarrow> digit_char d \<noteq> CHR ''-''"
proof -
  assume d: "d < 10"
  have code: "of_char (digit_char d) = 48 + d"
    using d by (simp add: digit_char_def)
  show "digit_char d \<noteq> CHR ''+''"
  proof
    assume "digit_char d = CHR ''+''"
    then have "of_char (digit_char d) = (43 :: nat)" by simp
    with code show False by simp
  qed
  show "digit_char d \<noteq> CHR ''-''"
  proof
    assume "digit_char d = CHR ''-''"
    then have "of_char (digit_char d) = (45 :: nat)" by simp
    with code show False by simp
  qed
qed

lemma parse_digits_append:
  "parse_digits m acc xs = Inr v \<Longrightarrow> parse_digits m acc (xs @ ys) = parse_digits m v ys"
  by (induction m acc xs rule: parse_digits.induct) (auto split: option.splits if_splits)

lemma parse_digits_show_nat: "n \<le> m \<Longrightarrow> parse_digits m 0 (show_nat n) = Inr n"
proof (induction n rule: show_nat.induct)
  case (1 n)
  show ?case
  proof (cases "n < 10")
    case True
    with 1 show ?thesis by (simp add: show_nat.simps [of n])
  next
    case False
    with 1 have "parse_digits m 0 (show_nat (n div 10)) = Inr (n div 10)" by simp
    then have "parse_digits m 0 (show_nat n) = parse_digits m (n div 10) [digit_char (n mod 10)]"
      using False by (simp add: show_nat.simps [of n] parse_digits_append)
    moreover have "n div 10 * 10 + n mod 10 = n" by simp
    ultimately show ?thesis using 1 by simp
  qed
qed

lemma show_nat_Cons: "\<exists>d cs. show_nat n = digit_char d # cs \<and> d < 10"
proof (induction n rule: show_nat.induct)
  case (1 n)
  then show ?case by (cases "n < 10") (auto simp: show_nat.simps [of n])
qed

text \<open>Printing then parsing a number that fits its type gives the number back.\<close>

lemma parse_unsigned_show_nat [simp]: "n \<le> m \<Longrightarrow> parse_unsigned m (show_nat n) = Inr n"
  using show_nat_Cons [of n] parse_digits_show_nat [of n m]
  by (auto simp: parse_unsigned_def)

lemma unat_u32_le [simp]: "unat (c :: 32 word) \<le> u32_max"
proof -
  have "unat c < 2 ^ LENGTH(32)" by (rule unsigned_less)
  then show ?thesis by (simp add: u32_max_def)
qed

text \<open>
  Details written as headers are read back unchanged: \<open>parse\<close> over the fields of any details
  whose attempt count is a \<open>usize\<close> returns the same details.
\<close>

theorem details_roundtrip:
  assumes "dd_attempts d \<le> usize_max"
  shows "details_parse (\<lambda>name. Inr (map_of (details_fields d) name)) = Inr (Some d)"
  using assms
  by (simp add: details_parse_def details_fields_def required_field_def parse_number_def hdr_defs)

definition example_details :: dead_letter_details where
  "example_details =
     \<lparr>dd_subscription = ''orders'', dd_failure = FkRetryExhausted, dd_error = ''boom'',
      dd_attempts = 120, dd_count = 7\<rparr>"

theorem details_roundtrip_witness:
  "dd_attempts example_details \<le> usize_max \<and>
   details_parse (\<lambda>name. Inr (map_of (details_fields example_details) name))
     = Inr (Some example_details)"
proof -
  have h: "dd_attempts example_details \<le> usize_max"
    by (simp add: example_details_def usize_max_def)
  show ?thesis using h details_roundtrip [OF h] by simp
qed

lemma parse_number_Inr [simp]: "parse_number m name v = Inr n \<longleftrightarrow> parse_unsigned m v = Inr n"
  by (simp add: parse_number_def split: sum.splits)

lemma required_field_Inr [simp]: "required_field field name = Inr v \<longleftrightarrow> field name = Inr (Some v)"
  by (simp add: required_field_def split: sum.splits option.splits)

lemma bind_result_Inr [simp]: "bind_result r f = Inr y \<longleftrightarrow> (\<exists>x. r = Inr x \<and> f x = Inr y)"
  by (cases r) simp_all

text \<open>
  Reading details distinguishes absent from malformed. There are no details exactly when the
  failure header is absent, and details are returned exactly when every header is present, the
  failure name is known and both numbers parse within their width; everything else is an error,
  never a silent default.
\<close>

theorem details_parse_exact:
  "(details_parse field = Inr None \<longleftrightarrow> field hdr_failure = Inr None) \<and>
   (details_parse field = Inr (Some d) \<longleftrightarrow>
      field hdr_failure = Inr (Some (kind_as_str (dd_failure d))) \<and>
      field hdr_subscription = Inr (Some (dd_subscription d)) \<and>
      field hdr_error = Inr (Some (dd_error d)) \<and>
      (\<exists>a. field hdr_attempts = Inr (Some a) \<and> parse_unsigned usize_max a = Inr (dd_attempts d)) \<and>
      (\<exists>c n. field hdr_count = Inr (Some c) \<and> parse_unsigned u32_max c = Inr n \<and>
             dd_count d = of_nat n))"
  by (cases d) (auto simp: details_parse_def dest: kind_from_strD split: option.splits)

end
