(* ===== verification/Messages.thy ===== *)
theory Messages
  imports Errors
begin

text \<open>
  Ordering keys and positions of \<^verbatim>\<open>src/message.rs\<close>, the distributions of \<^verbatim>\<open>src/distribution.rs\<close>, and
  the lane assignment of \<^verbatim>\<open>Distributor\<close> in \<^verbatim>\<open>src/subscription/scheduler.rs\<close>. A lane is the 64-bit
  hash of a distribution key under the randomly keyed hasher of the subscription, which is the
  parameter \<open>hash\<close>.
\<close>

record ordering_key =
  ok_scope :: string
  ok_index :: int
  ok_key :: "bytes option"

definition ordering_key_new :: "string \<Rightarrow> int \<Rightarrow> ordering_key" where
  "ordering_key_new scope index = \<lparr>ok_scope = scope, ok_index = index, ok_key = None\<rparr>"

definition with_key :: "bytes \<Rightarrow> ordering_key \<Rightarrow> ordering_key" where
  "with_key k o' = o'\<lparr>ok_key := Some k\<rparr>"

record position =
  pos_scope :: string
  pos_index :: int
  pos_offset :: int

definition position_new :: "string \<Rightarrow> int \<Rightarrow> int \<Rightarrow> position" where
  "position_new scope index off = \<lparr>pos_scope = scope, pos_index = index, pos_offset = off\<rparr>"

definition is_covered_by :: "position \<Rightarrow> position \<Rightarrow> bool" where
  "is_covered_by p q \<longleftrightarrow>
     pos_scope p = pos_scope q \<and> pos_index p = pos_index q \<and> pos_offset p \<le> pos_offset q"

text \<open>\<open>is_covered_by\<close> is a partial order: coverage composes across redeliveries.\<close>

lemma is_covered_by_refl [simp]: "is_covered_by p p"
  by (simp add: is_covered_by_def)

lemma is_covered_by_trans: "is_covered_by p q \<Longrightarrow> is_covered_by q r \<Longrightarrow> is_covered_by p r"
  by (auto simp: is_covered_by_def)

lemma is_covered_by_antisym: "is_covered_by p q \<Longrightarrow> is_covered_by q p \<Longrightarrow> p = q"
  by (cases p; cases q) (auto simp: is_covered_by_def)

section \<open>Distributions and lanes\<close>

type_synonym lane = u64

record ('m, 'v, 'k) distribution =
  dist_key :: "'m \<Rightarrow> 'v \<Rightarrow> 'k option"
  dist_keeps_source_order :: bool

text \<open>\<^verbatim>\<open>SourceOrder\<close>: the message's own ordering key.\<close>

definition source_order ::
  "('m \<Rightarrow> ordering_key option) \<Rightarrow> ('m, 'v, ordering_key) distribution" where
  "source_order okey =
     \<lparr>dist_key = (\<lambda>m v. okey m), dist_keeps_source_order = True\<rparr>"

text \<open>\<^verbatim>\<open>Parallel\<close>: no delivery is ordered behind another.\<close>

definition parallel :: "('m, 'v, unit) distribution" where
  "parallel = \<lparr>dist_key = (\<lambda>m v. None), dist_keeps_source_order = False\<rparr>"

text \<open>A closure over the decoded value.\<close>

definition by_value :: "('v \<Rightarrow> 'k) \<Rightarrow> ('m, 'v, 'k) distribution" where
  "by_value f = \<lparr>dist_key = (\<lambda>m v. Some (f v)), dist_keeps_source_order = False\<rparr>"

record ('m, 'v) distributor =
  dr_lane :: "'m \<Rightarrow> 'v \<Rightarrow> lane option"
  dr_keeps_source_order :: bool

definition distributor_new ::
  "('k \<Rightarrow> lane) \<Rightarrow> ('m, 'v, 'k) distribution \<Rightarrow> ('m, 'v) distributor" where
  "distributor_new hash d =
     \<lparr>dr_lane = (\<lambda>m v. map_option hash (dist_key d m v)),
      dr_keeps_source_order = dist_keeps_source_order d\<rparr>"

definition distributor_by_key ::
  "('k \<Rightarrow> lane) \<Rightarrow> ('m \<Rightarrow> 'v \<Rightarrow> 'k option) \<Rightarrow> ('m, 'v) distributor" where
  "distributor_by_key hash key =
     \<lparr>dr_lane = (\<lambda>m v. map_option hash (key m v)), dr_keeps_source_order = False\<rparr>"

text \<open>Deliveries with the same distribution key always share a lane, whatever the hasher.\<close>

lemma same_key_same_lane:
  "dist_key d m v = dist_key d m' v' \<Longrightarrow>
   dr_lane (distributor_new hash d) m v = dr_lane (distributor_new hash d) m' v'"
  by (simp add: distributor_new_def)

lemma no_key_no_lane:
  "dr_lane (distributor_new hash d) m v = None \<longleftrightarrow> dist_key d m v = None"
  by (simp add: distributor_new_def)

end
