(* ===== verification/Scheduler.thy ===== *)
theory Scheduler
  imports Messages "HOL-Library.Sublist"
begin

text \<open>
  The scheduler of \<^verbatim>\<open>src/subscription/scheduler.rs\<close>: it counts every received but unfinished
  delivery, queues deliveries with equal lanes behind one another, and asks the source to pause and
  resume single ordering keys.

  The first part translates the data and every operation. The second part runs the operations in
  the order a client may call them (\<open>sched_step\<close>), with the admissions, running deliveries and
  histories the client holds as ghost state, and proves the scheduler's contract over every
  reachable state: exact accounting, one running delivery per lane in push order, progress, and
  flow control. \<^verbatim>\<open>HashMap::drain\<close> visits lanes in an unspecified order, which is the argument
  \<open>order\<close> of \<open>discard_pending\<close>.
\<close>

section \<open>Flow control\<close>

datatype flow_change = Pause ordering_key | Resume ordering_key

record flow_control =
  fc_limit :: usize
  fc_unfinished :: "ordering_key \<rightharpoonup> usize"
  fc_paused :: "ordering_key set"
  fc_changes :: "flow_change list"

definition flow_count :: "flow_control \<Rightarrow> ordering_key \<Rightarrow> usize" where
  "flow_count fc k = (case fc_unfinished fc k of None \<Rightarrow> 0 | Some n \<Rightarrow> n)"

definition flow_add :: "flow_control \<Rightarrow> ordering_key \<Rightarrow> flow_control" where
  "flow_add fc k =
     (let count = flow_count fc k + 1;
          fc = fc\<lparr>fc_unfinished := (fc_unfinished fc)(k \<mapsto> count)\<rparr>
      in if count \<ge> fc_limit fc \<and> k \<notin> fc_paused fc
         then fc\<lparr>fc_paused := insert k (fc_paused fc), fc_changes := fc_changes fc @ [Pause k]\<rparr>
         else fc)"

definition flow_remove :: "flow_control \<Rightarrow> ordering_key \<Rightarrow> flow_control" where
  "flow_remove fc k =
     (case fc_unfinished fc k of
        None \<Rightarrow> fc
      | Some n \<Rightarrow>
          (let count = n - 1;
               fc = fc\<lparr>fc_unfinished := (fc_unfinished fc)
                         (k := (if count = 0 then None else Some count))\<rparr>
           in if count \<le> fc_limit fc div 2 \<and> k \<in> fc_paused fc
              then fc\<lparr>fc_paused := fc_paused fc - {k}, fc_changes := fc_changes fc @ [Resume k]\<rparr>
              else fc))"

section \<open>Scheduler\<close>

record admission =
  adm_flow :: "ordering_key option"

record ticket =
  tk_lane :: "lane option"
  tk_flow :: "ordering_key option"

type_synonym 'e item = "ticket \<times> 'e"

record 'e scheduler =
  ready :: "'e item list"
  waiting :: "lane \<rightharpoonup> 'e item list"
  outstanding :: usize
  flow :: "flow_control option"

definition scheduler_new :: "usize option \<Rightarrow> 'e scheduler" where
  "scheduler_new per_key_limit =
     \<lparr>ready = [], waiting = Map.empty, outstanding = 0,
      flow = map_option (\<lambda>limit. \<lparr>fc_limit = limit, fc_unfinished = Map.empty, fc_paused = {},
                                  fc_changes = []\<rparr>) per_key_limit\<rparr>"

definition release :: "ordering_key option \<Rightarrow> 'e scheduler \<Rightarrow> 'e scheduler" where
  "release key s =
     (case (flow s, key) of
        (Some fc, Some k) \<Rightarrow> s\<lparr>flow := Some (flow_remove fc k)\<rparr>
      | _ \<Rightarrow> s)"

definition admit :: "ordering_key option \<Rightarrow> 'e scheduler \<Rightarrow> admission \<times> 'e scheduler" where
  "admit scope s =
     (let s = s\<lparr>outstanding := outstanding s + 1\<rparr> in
      case (flow s, scope) of
        (Some fc, Some k) \<Rightarrow> (\<lparr>adm_flow = Some k\<rparr>, s\<lparr>flow := Some (flow_add fc k)\<rparr>)
      | _ \<Rightarrow> (\<lparr>adm_flow = None\<rparr>, s))"

definition push :: "admission \<Rightarrow> lane option \<Rightarrow> 'e \<Rightarrow> 'e scheduler \<Rightarrow> 'e scheduler" where
  "push a l e s =
     (let ticket = \<lparr>tk_lane = l, tk_flow = adm_flow a\<rparr> in
      case l of
        Some lane \<Rightarrow>
          (case waiting s lane of
             Some queue \<Rightarrow> s\<lparr>waiting := (waiting s)(lane \<mapsto> queue @ [(ticket, e)])\<rparr>
           | None \<Rightarrow> s\<lparr>waiting := (waiting s)(lane \<mapsto> []), ready := ready s @ [(ticket, e)]\<rparr>)
      | None \<Rightarrow> s\<lparr>ready := ready s @ [(ticket, e)]\<rparr>)"

definition withdraw :: "admission \<Rightarrow> 'e scheduler \<Rightarrow> 'e scheduler" where
  "withdraw a s = release (adm_flow a) (s\<lparr>outstanding := outstanding s - 1\<rparr>)"

definition next_ready :: "'e scheduler \<Rightarrow> ('e item \<times> 'e scheduler) option" where
  "next_ready s = (case ready s of [] \<Rightarrow> None | x # xs \<Rightarrow> Some (x, s\<lparr>ready := xs\<rparr>))"

definition complete :: "ticket \<Rightarrow> 'e scheduler \<Rightarrow> 'e scheduler" where
  "complete t s =
     (let s = release (tk_flow t) (s\<lparr>outstanding := outstanding s - 1\<rparr>) in
      case tk_lane t of
        None \<Rightarrow> s
      | Some lane \<Rightarrow>
          (case waiting s lane of
             None \<Rightarrow> s
           | Some [] \<Rightarrow> s\<lparr>waiting := (waiting s)(lane := None)\<rparr>
           | Some (x # queue) \<Rightarrow>
               s\<lparr>waiting := (waiting s)(lane \<mapsto> queue), ready := ready s @ [x]\<rparr>))"

definition take_flow_changes :: "'e scheduler \<Rightarrow> flow_change list \<times> 'e scheduler" where
  "take_flow_changes s =
     (case flow s of
        None \<Rightarrow> ([], s)
      | Some fc \<Rightarrow> (fc_changes fc, s\<lparr>flow := Some (fc\<lparr>fc_changes := []\<rparr>)\<rparr>))"

definition disable_flow_control :: "'e scheduler \<Rightarrow> 'e scheduler" where
  "disable_flow_control s = s\<lparr>flow := None\<rparr>"

definition drain_pending :: "lane list \<Rightarrow> 'e scheduler \<Rightarrow> 'e item list" where
  "drain_pending order s =
     ready s @ concat (map (\<lambda>l. case waiting s l of None \<Rightarrow> [] | Some q \<Rightarrow> q) order)"

definition discard_pending :: "lane list \<Rightarrow> 'e scheduler \<Rightarrow> 'e scheduler" where
  "discard_pending order s =
     (let pending = drain_pending order s;
          s = s\<lparr>ready := [], waiting := Map.empty, outstanding := outstanding s - length pending\<rparr>
      in fold (\<lambda>item. release (tk_flow (fst item))) pending s)"

section \<open>Clients of the scheduler\<close>

text \<open>
  What a client holds between calls: the admissions it has not pushed or withdrawn, the deliveries
  it has started and not completed, and, as history, every pushed and every completed delivery and
  every flow change it has taken. \<open>closed\<close> is set by the first discard: the runtime stops receiving
  before it discards and never admits again.
\<close>

record 'e sched_sys =
  sched :: "'e scheduler"
  admitted :: "admission list"
  running :: "'e item list"
  pushed :: "'e item list"
  completed :: "'e item list"
  requests :: "flow_change list"
  closed :: bool

datatype 'e sched_event =
    EvAdmit "ordering_key option"
  | EvPush nat "lane option" 'e
  | EvWithdraw nat
  | EvStart
  | EvComplete nat
  | EvTakeFlow
  | EvDisableFlow
  | EvDiscard "lane list"

fun sched_step :: "'e sched_sys \<Rightarrow> 'e sched_event \<Rightarrow> 'e sched_sys option" where
  "sched_step S (EvAdmit scope) =
     (if closed S then None
      else let (a, s) = admit scope (sched S) in
        Some (S\<lparr>sched := s, admitted := admitted S @ [a]\<rparr>))"
| "sched_step S (EvPush i l e) =
     (if closed S \<or> i \<ge> length (admitted S) then None
      else let a = admitted S ! i in
        Some (S\<lparr>sched := push a l e (sched S), admitted := remove_nth i (admitted S),
                pushed := pushed S @ [(\<lparr>tk_lane = l, tk_flow = adm_flow a\<rparr>, e)]\<rparr>))"
| "sched_step S (EvWithdraw i) =
     (if i \<ge> length (admitted S) then None
      else Some (S\<lparr>sched := withdraw (admitted S ! i) (sched S),
                   admitted := remove_nth i (admitted S)\<rparr>))"
| "sched_step S EvStart =
     (case next_ready (sched S) of
        None \<Rightarrow> None
      | Some (x, s) \<Rightarrow> Some (S\<lparr>sched := s, running := running S @ [x]\<rparr>))"
| "sched_step S (EvComplete j) =
     (if j \<ge> length (running S) then None
      else let x = running S ! j in
        Some (S\<lparr>sched := complete (fst x) (sched S), running := remove_nth j (running S),
                completed := completed S @ [x]\<rparr>))"
| "sched_step S EvTakeFlow =
     (let (cs, s) = take_flow_changes (sched S) in
      Some (S\<lparr>sched := s, requests := requests S @ cs\<rparr>))"
| "sched_step S EvDisableFlow = Some (S\<lparr>sched := disable_flow_control (sched S)\<rparr>)"
| "sched_step S (EvDiscard order) =
     (if distinct order \<and> set order = dom (waiting (sched S))
      then Some (S\<lparr>sched := discard_pending order (sched S), closed := True\<rparr>)
      else None)"

definition sys_new :: "usize option \<Rightarrow> 'e sched_sys" where
  "sys_new limit =
     \<lparr>sched = scheduler_new limit, admitted = [], running = [], pushed = [], completed = [],
      requests = [], closed = False\<rparr>"

text \<open>A validated configuration has no limit or a positive one.\<close>

definition sched_init :: "'e sched_sys \<Rightarrow> bool" where
  "sched_init S \<longleftrightarrow> (\<exists>limit. limit \<noteq> Some 0 \<and> S = sys_new limit)"

abbreviation sched_reach :: "'e sched_sys \<Rightarrow> bool" where
  "sched_reach \<equiv> reach sched_init sched_step"

section \<open>Accounting\<close>

abbreviation item_flow :: "'e item \<Rightarrow> ordering_key option" where
  "item_flow x \<equiv> tk_flow (fst x)"

text \<open>
  The total weight of all live deliveries, wherever they are: admitted, ready, waiting or running.
  With weight one it is their number, with an indicator it is their number for one key.
\<close>

definition weight :: "(ordering_key option \<Rightarrow> nat) \<Rightarrow> 'e sched_sys \<Rightarrow> nat" where
  "weight g S =
     (\<Sum>a\<leftarrow>admitted S. g (adm_flow a)) + (\<Sum>x\<leftarrow>ready (sched S). g (item_flow x))
     + wsum (waiting (sched S)) (\<lambda>x. g (item_flow x)) + (\<Sum>x\<leftarrow>running S. g (item_flow x))"

definition live :: "'e sched_sys \<Rightarrow> nat" where
  "live S = weight (\<lambda>_. 1) S"

definition key_live :: "'e sched_sys \<Rightarrow> ordering_key \<Rightarrow> nat" where
  "key_live S k = weight (\<lambda>f. of_bool (f = Some k)) S"

lemma release_fields [simp]:
  "ready (release k s) = ready s" "waiting (release k s) = waiting s"
  "outstanding (release k s) = outstanding s"
  by (simp_all add: release_def split: option.splits)

lemma fold_release_fields [simp]:
  "ready (fold (\<lambda>i. release (tk_flow (fst i))) xs s) = ready s"
  "waiting (fold (\<lambda>i. release (tk_flow (fst i))) xs s) = waiting s"
  "outstanding (fold (\<lambda>i. release (tk_flow (fst i))) xs s) = outstanding s"
  by (induction xs arbitrary: s) simp_all

lemma admit_fields [simp]:
  "ready (snd (admit k s)) = ready s" "waiting (snd (admit k s)) = waiting s"
  "outstanding (snd (admit k s)) = Suc (outstanding s)"
  by (simp_all add: admit_def Let_def split: option.splits)

lemma push_fields [simp]:
  "outstanding (push a l e s) = outstanding s" "flow (push a l e s) = flow s"
  by (simp_all add: push_def Let_def split: option.splits)

lemma withdraw_fields [simp]:
  "ready (withdraw a s) = ready s" "waiting (withdraw a s) = waiting s"
  "outstanding (withdraw a s) = outstanding s - 1"
  by (simp_all add: withdraw_def)

lemma complete_fields [simp]:
  "outstanding (complete t s) = outstanding s - 1"
  "flow (complete t s) = flow (release (tk_flow t) (s\<lparr>outstanding := outstanding s - 1\<rparr>))"
  by (simp_all add: complete_def Let_def split: option.splits list.splits)

lemma take_flow_fields [simp]:
  "ready (snd (take_flow_changes s)) = ready s" "waiting (snd (take_flow_changes s)) = waiting s"
  "outstanding (snd (take_flow_changes s)) = outstanding s"
  by (simp_all add: take_flow_changes_def split: option.splits)

lemma disable_flow_fields [simp]:
  "ready (disable_flow_control s) = ready s" "waiting (disable_flow_control s) = waiting s"
  "outstanding (disable_flow_control s) = outstanding s" "flow (disable_flow_control s) = None"
  by (simp_all add: disable_flow_control_def)

lemma discard_fields [simp]:
  "ready (discard_pending order s) = []" "waiting (discard_pending order s) = Map.empty"
  "outstanding (discard_pending order s) = outstanding s - length (drain_pending order s)"
  by (simp_all add: discard_pending_def Let_def)

text \<open>A sum over the deliveries in the scheduler's own queues, and their weight.\<close>

definition queued_sum :: "('e item \<Rightarrow> nat) \<Rightarrow> 'e scheduler \<Rightarrow> nat" where
  "queued_sum f s = (\<Sum>x\<leftarrow>ready s. f x) + wsum (waiting s) f"

abbreviation queued_weight :: "(ordering_key option \<Rightarrow> nat) \<Rightarrow> 'e scheduler \<Rightarrow> nat" where
  "queued_weight g \<equiv> queued_sum (\<lambda>x. g (item_flow x))"

lemma weight_queued:
  "weight g S = (\<Sum>a\<leftarrow>admitted S. g (adm_flow a)) + queued_weight g (sched S)
     + (\<Sum>x\<leftarrow>running S. g (item_flow x))"
  by (simp add: weight_def queued_sum_def)

lemma queued_sum_push:
  assumes "finite (dom (waiting s))"
  shows "queued_sum f (push a l e s) = queued_sum f s + f (\<lparr>tk_lane = l, tk_flow = adm_flow a\<rparr>, e)"
proof (cases l)
  case (Some lane)
  then show ?thesis
    using assms wsum_remove [of "waiting s" lane] wsum_absent [of "waiting s" lane]
    by (cases "waiting s lane") (simp_all add: push_def Let_def queued_sum_def wsum_insert)
qed (simp add: push_def queued_sum_def)

lemma queued_sum_complete:
  assumes "finite (dom (waiting s))"
  shows "queued_sum f (complete t s) = queued_sum f s"
proof (cases "tk_lane t")
  case (Some lane)
  then show ?thesis
    using assms wsum_remove [of "waiting s" lane]
    by (cases "waiting s lane")
      (auto simp: complete_def Let_def queued_sum_def wsum_insert split: list.splits)
qed (simp add: complete_def Let_def queued_sum_def)

lemma queued_sum_drain:
  assumes "distinct order" "set order = dom (waiting s)"
  shows "queued_sum f s = (\<Sum>x\<leftarrow>drain_pending order s. f x)"
  using wsum_order [OF assms, of f] by (simp add: queued_sum_def drain_pending_def)

lemma queued_sum_next:
  "next_ready s = Some (x, s') \<Longrightarrow> queued_sum f s = f x + queued_sum f s'"
  by (auto simp: next_ready_def queued_sum_def split: list.splits)

definition finite_lanes :: "'e sched_sys \<Rightarrow> bool" where
  "finite_lanes S \<longleftrightarrow> finite (dom (waiting (sched S)))"

lemma finite_lanes_step [inv_intros]:
  "sched_step S ev = Some S' \<Longrightarrow> finite_lanes S \<Longrightarrow> finite_lanes S'"
  by (cases ev)
    (auto simp: finite_lanes_def next_ready_def push_def complete_def Let_def case_prod_beta
      split: if_splits option.splits list.splits)

text \<open>How every operation changes the weight of the live deliveries.\<close>

lemma weight_admit:
  "sched_step S (EvAdmit k) = Some S' \<Longrightarrow>
   weight g S' = weight g S + g (adm_flow (fst (admit k (sched S))))"
  by (auto simp: weight_queued queued_sum_def case_prod_beta Let_def split: if_splits)

lemma weight_push:
  "sched_step S (EvPush i l e) = Some S' \<Longrightarrow> finite_lanes S \<Longrightarrow> weight g S' = weight g S"
  using sum_list_remove_nth [of i "admitted S" "\<lambda>a. g (adm_flow a)"]
  by (auto simp: weight_queued queued_sum_push finite_lanes_def Let_def split: if_splits)

lemma weight_withdraw:
  "sched_step S (EvWithdraw i) = Some S' \<Longrightarrow>
   weight g S = g (adm_flow (admitted S ! i)) + weight g S'"
  using sum_list_remove_nth [of i "admitted S" "\<lambda>a. g (adm_flow a)"]
  by (auto simp: weight_queued queued_sum_def split: if_splits)

lemma weight_start: "sched_step S EvStart = Some S' \<Longrightarrow> weight g S' = weight g S"
  by (auto simp: weight_def next_ready_def split: list.splits)

lemma weight_complete:
  "sched_step S (EvComplete j) = Some S' \<Longrightarrow> finite_lanes S \<Longrightarrow>
   weight g S = g (item_flow (running S ! j)) + weight g S'"
  using sum_list_remove_nth [of j "running S" "\<lambda>x. g (item_flow x)"]
  by (auto simp: weight_queued queued_sum_complete finite_lanes_def Let_def split: if_splits)

lemma weight_flow_events:
  "sched_step S EvTakeFlow = Some S' \<Longrightarrow> weight g S' = weight g S"
  "sched_step S EvDisableFlow = Some S' \<Longrightarrow> weight g S' = weight g S"
  by (auto simp: weight_queued queued_sum_def case_prod_beta)

lemma weight_discard:
  "sched_step S (EvDiscard order) = Some S' \<Longrightarrow>
   weight g S = (\<Sum>x\<leftarrow>drain_pending order (sched S). g (item_flow x)) + weight g S'"
  using queued_sum_drain [of order "sched S" "\<lambda>x. g (item_flow x)"]
  by (auto simp: weight_queued queued_sum_def split: if_splits)

lemmas weight_steps =
  weight_admit weight_push weight_withdraw weight_start weight_complete weight_flow_events
  weight_discard

definition counted :: "'e sched_sys \<Rightarrow> bool" where
  "counted S \<longleftrightarrow> outstanding (sched S) = live S"

lemma counted_step [inv_intros]:
  assumes "sched_step S ev = Some S'" "finite_lanes S" "counted S"
  shows "counted S'"
proof (cases ev)
  case (EvAdmit k)
  with assms show ?thesis
    using weight_admit [of S k S' "\<lambda>_. 1"]
    by (auto simp: counted_def live_def Let_def case_prod_beta split: if_splits)
next
  case (EvPush i l e)
  with assms show ?thesis
    using weight_push [of S i l e S' "\<lambda>_. 1"]
    by (auto simp: counted_def live_def Let_def split: if_splits)
next
  case (EvWithdraw i)
  with assms show ?thesis
    using weight_withdraw [of S i S' "\<lambda>_. 1"]
    by (auto simp: counted_def live_def split: if_splits)
next
  case EvStart
  with assms show ?thesis
    using weight_start [of S S' "\<lambda>_. 1"]
    by (auto simp: counted_def live_def next_ready_def split: list.splits)
next
  case (EvComplete j)
  with assms show ?thesis
    using weight_complete [of S j S' "\<lambda>_. 1"]
    by (auto simp: counted_def live_def Let_def split: if_splits)
next
  case (EvDiscard order)
  with assms show ?thesis
    using weight_discard [of S order S' "\<lambda>_. 1"]
    by (auto simp: counted_def live_def sum_list_triv split: if_splits)
qed (use assms weight_flow_events [of S S' "\<lambda>_. 1"] in
    \<open>auto simp: counted_def live_def Let_def case_prod_beta\<close>)


section \<open>Flow control per ordering key\<close>

text \<open>
  Replays the requests for one key: \<open>None\<close> once a key is paused twice or resumed while not paused,
  otherwise whether the key ends paused.
\<close>

fun replay :: "ordering_key \<Rightarrow> bool \<Rightarrow> flow_change list \<Rightarrow> bool option" where
  "replay k p [] = Some p"
| "replay k p (Pause j # cs) =
     (if j = k then (if p then None else replay k True cs) else replay k p cs)"
| "replay k p (Resume j # cs) =
     (if j = k then (if p then replay k False cs else None) else replay k p cs)"

lemma replay_append:
  "replay k p (cs @ ds) = (case replay k p cs of None \<Rightarrow> None | Some q \<Rightarrow> replay k q ds)"
  by (induction k p cs rule: replay.induct) auto

lemma replay_snoc:
  "replay k False (H @ cs) = Some q \<Longrightarrow>
   replay k False (H @ cs @ [c]) = replay k q [c]"
  using replay_append [of k False "H @ cs" "[c]"] by simp

text \<open>
  Flow control is exact for the live counts \<open>W\<close>: no key has a zero entry, an unpaused key is below
  the limit, a paused key is above half of it, and the requests made so far alternate.
\<close>

definition flow_ok :: "flow_change list \<Rightarrow> flow_control \<Rightarrow> (ordering_key \<Rightarrow> nat) \<Rightarrow> bool" where
  "flow_ok H fc W \<longleftrightarrow>
     0 < fc_limit fc \<and>
     (\<forall>k. flow_count fc k = W k \<and> fc_unfinished fc k \<noteq> Some 0) \<and>
     (\<forall>k. k \<in> fc_paused fc \<longrightarrow> fc_limit fc div 2 < W k) \<and>
     (\<forall>k. k \<notin> fc_paused fc \<longrightarrow> W k < fc_limit fc) \<and>
     (\<forall>k. replay k False (H @ fc_changes fc) = Some (k \<in> fc_paused fc))"

lemma flow_okD:
  assumes "flow_ok H fc W"
  shows "0 < fc_limit fc" "flow_count fc k = W k" "fc_unfinished fc k \<noteq> Some 0"
    "k \<in> fc_paused fc \<Longrightarrow> fc_limit fc div 2 < W k"
    "k \<notin> fc_paused fc \<Longrightarrow> W k < fc_limit fc"
    "replay k False (H @ fc_changes fc) = Some (k \<in> fc_paused fc)"
  using assms by (simp_all add: flow_ok_def)

lemma flow_ok_unfinished:
  "flow_ok H fc W \<Longrightarrow> fc_unfinished fc k = (if W k = 0 then None else Some (W k))"
  using flow_okD(2,3) [of H fc W k] by (auto simp: flow_count_def split: option.splits)

lemma flow_add_ok:
  assumes ok: "flow_ok H fc W"
  shows "flow_ok H (flow_add fc k) (W(k := W k + 1))"
proof -
  note D = flow_okD [OF ok] and U = flow_ok_unfinished [OF ok]
  have "flow_count (flow_add fc k) j = (W(k := W k + 1)) j \<and> fc_unfinished (flow_add fc k) j \<noteq> Some 0"
    for j
    by (simp add: flow_add_def flow_count_def Let_def U)
  moreover have "j \<in> fc_paused (flow_add fc k) \<Longrightarrow> fc_limit fc div 2 < (W(k := W k + 1)) j" for j
    using D(1) D(4) [of j] D(4) [of k] D(2) [of k]
    by (auto simp: flow_add_def Let_def split: if_splits)
  moreover have "j \<notin> fc_paused (flow_add fc k) \<Longrightarrow> (W(k := W k + 1)) j < fc_limit fc" for j
    using D(5) [of j] D(2) [of k] by (auto simp: flow_add_def Let_def split: if_splits)
  moreover have "replay j False (H @ fc_changes (flow_add fc k)) = Some (j \<in> fc_paused (flow_add fc k))"
    for j
    using D(6) [of j] replay_snoc [OF D(6) [of j], of "Pause k"] by (simp add: flow_add_def Let_def)
  moreover have "fc_limit (flow_add fc k) = fc_limit fc" by (simp add: flow_add_def Let_def)
  ultimately show ?thesis using D(1) by (simp add: flow_ok_def)
qed

lemma flow_remove_ok:
  assumes ok: "flow_ok H fc W" and pos: "0 < W k"
  shows "flow_ok H (flow_remove fc k) (W(k := W k - 1))"
proof -
  note D = flow_okD [OF ok] and U = flow_ok_unfinished [OF ok]
  have "flow_count (flow_remove fc k) j = (W(k := W k - 1)) j \<and>
      fc_unfinished (flow_remove fc k) j \<noteq> Some 0" for j
    using pos by (simp add: flow_remove_def flow_count_def Let_def U)
  moreover have "j \<in> fc_paused (flow_remove fc k) \<Longrightarrow> fc_limit fc div 2 < (W(k := W k - 1)) j" for j
    using D(4) [of j] pos by (auto simp: flow_remove_def Let_def U split: if_splits)
  moreover have "j \<notin> fc_paused (flow_remove fc k) \<Longrightarrow> (W(k := W k - 1)) j < fc_limit fc" for j
  proof (cases "j = k \<and> k \<in> fc_paused fc")
    case True
    moreover have half: "fc_limit fc div 2 < fc_limit fc" using D(1) by simp
    moreover assume "j \<notin> fc_paused (flow_remove fc k)"
    ultimately have "W k - 1 \<le> fc_limit fc div 2"
      using pos by (auto simp: flow_remove_def Let_def U split: if_splits)
    with True half show ?thesis by simp
  next
    case False
    moreover assume "j \<notin> fc_paused (flow_remove fc k)"
    ultimately have "j \<notin> fc_paused fc"
      using pos by (auto simp: flow_remove_def Let_def U split: if_splits)
    with D(5) [of j] show ?thesis by auto
  qed
  moreover have "replay j False (H @ fc_changes (flow_remove fc k))
      = Some (j \<in> fc_paused (flow_remove fc k))" for j
    using pos D(6) [of j] replay_snoc [OF D(6) [of j], of "Resume k"]
    by (simp add: flow_remove_def Let_def U)
  moreover have "fc_limit (flow_remove fc k) = fc_limit fc"
    using pos by (simp add: flow_remove_def Let_def U)
  ultimately show ?thesis using D(1) by (simp add: flow_ok_def)
qed

fun flow_opt_ok ::
  "flow_change list \<Rightarrow> flow_control option \<Rightarrow> (ordering_key \<Rightarrow> nat) \<Rightarrow> bool" where
  "flow_opt_ok H None W = True"
| "flow_opt_ok H (Some fc) W = flow_ok H fc W"

definition flow_inv :: "'e sched_sys \<Rightarrow> bool" where
  "flow_inv S \<longleftrightarrow> flow_opt_ok (requests S) (flow (sched S)) (key_live S)"

lemma release_ok:
  assumes "flow_opt_ok H (flow s) W" "\<And>k. W k = of_bool (key = Some k) + W' k"
  shows "flow_opt_ok H (flow (release key s)) W'"
proof (cases "flow s")
  case (Some fc)
  show ?thesis
  proof (cases key)
    case None
    with assms Some have "W = W'" by auto
    with assms Some None show ?thesis by (simp add: release_def)
  next
    case (Some k)
    with assms(2) have "0 < W k" "W(k := W k - 1) = W'" by (auto simp: fun_eq_iff)
    with flow_remove_ok [of H fc W k] assms(1) \<open>flow s = Some fc\<close> Some show ?thesis
      by (simp add: release_def)
  qed
qed (simp add: release_def)

lemma fold_release_ok:
  assumes "flow_opt_ok H (flow s) W"
    and "\<And>k. W k = (\<Sum>x\<leftarrow>xs. of_bool (item_flow x = Some k)) + W' k"
  shows "flow_opt_ok H (flow (fold (\<lambda>i. release (tk_flow (fst i))) xs s)) W'"
  using assms
proof (induction xs arbitrary: s W)
  case Nil
  then have "W = W'" by auto
  with Nil.prems(1) show ?case by (simp only: fold_Nil id_apply)
next
  case (Cons x xs)
  define V where "V k = (\<Sum>x\<leftarrow>xs. of_bool (item_flow x = Some k)) + W' k" for k
  have "flow_opt_ok H (flow (release (item_flow x) s)) V"
    by (rule release_ok [OF Cons.prems(1)]) (simp add: Cons.prems(2) V_def)
  then have "flow_opt_ok H (flow (fold (\<lambda>i. release (tk_flow (fst i))) xs
      (release (item_flow x) s))) W'"
    by (rule Cons.IH) (simp add: V_def)
  then show ?case by simp
qed

lemma admit_ok:
  assumes "flow_opt_ok H (flow s) W"
    and "\<And>k. W' k = W k + of_bool (adm_flow (fst (admit scope s)) = Some k)"
  shows "flow_opt_ok H (flow (snd (admit scope s))) W'"
proof (cases "flow s")
  case (Some fc)
  show ?thesis
  proof (cases scope)
    case None
    with assms Some have "W' = W" by (auto simp: admit_def Let_def)
    with assms Some None show ?thesis by (simp add: admit_def Let_def)
  next
    case (Some k)
    with assms(2) \<open>flow s = Some fc\<close> have "W' = W(k := W k + 1)"
      by (auto simp: admit_def Let_def fun_eq_iff)
    with flow_add_ok [of H fc W k] assms(1) \<open>flow s = Some fc\<close> Some show ?thesis
      by (simp add: admit_def Let_def)
  qed
qed (simp add: admit_def Let_def split: option.splits)

lemma take_flow_ok:
  "flow_opt_ok H (flow s) W \<Longrightarrow>
   flow_opt_ok (H @ fst (take_flow_changes s)) (flow (snd (take_flow_changes s))) W"
  by (cases "flow s") (simp_all add: take_flow_changes_def flow_ok_def flow_count_def)

lemma flow_inv_step [inv_intros]:
  assumes step: "sched_step S ev = Some S'" and fin: "finite_lanes S" and inv: "flow_inv S"
  shows "flow_inv S'"
proof (cases ev)
  case (EvAdmit k)
  with step have S': "S' = S\<lparr>sched := snd (admit k (sched S)),
      admitted := admitted S @ [fst (admit k (sched S))]\<rparr>"
    by (auto simp: Let_def case_prod_beta split: if_splits)
  have "flow_opt_ok (requests S) (flow (snd (admit k (sched S)))) (key_live S')"
    using inv step EvAdmit unfolding flow_inv_def
    by (intro admit_ok [where W = "key_live S"]) (simp_all add: key_live_def weight_admit)
  then show ?thesis by (simp add: flow_inv_def S')
next
  case (EvPush i l e)
  with step fin have "key_live S' = key_live S"
    by (simp add: key_live_def weight_push fun_eq_iff del: sched_step.simps)
  with EvPush step inv show ?thesis
    unfolding flow_inv_def by (auto simp: Let_def split: if_splits)
next
  case (EvWithdraw i)
  have "flow_opt_ok (requests S) (flow (withdraw (admitted S ! i) (sched S))) (key_live S')"
    unfolding withdraw_def using inv step EvWithdraw weight_withdraw [of S i S']
    by (intro release_ok [where W = "key_live S"]) (simp_all add: key_live_def flow_inv_def)
  with step EvWithdraw show ?thesis by (auto simp: flow_inv_def split: if_splits)
next
  case EvStart
  with step have "key_live S' = key_live S"
    by (simp add: key_live_def weight_start fun_eq_iff del: sched_step.simps)
  with EvStart step inv show ?thesis
    unfolding flow_inv_def by (auto simp: next_ready_def split: list.splits)
next
  case (EvComplete j)
  have "flow_opt_ok (requests S) (flow (complete (fst (running S ! j)) (sched S))) (key_live S')"
    unfolding complete_fields using inv step fin EvComplete weight_complete [of S j S']
    by (intro release_ok [where W = "key_live S"]) (simp_all add: key_live_def flow_inv_def)
  with step EvComplete show ?thesis by (auto simp: flow_inv_def Let_def split: if_splits)
next
  case EvTakeFlow
  with step have "key_live S' = key_live S"
    by (simp add: key_live_def weight_flow_events(1) fun_eq_iff del: sched_step.simps)
  with EvTakeFlow step inv take_flow_ok [of "requests S" "sched S" "key_live S"] show ?thesis
    unfolding flow_inv_def by (auto simp: Let_def case_prod_beta)
next
  case EvDisableFlow
  with step show ?thesis by (auto simp: flow_inv_def)
next
  case (EvDiscard order)
  have "flow_opt_ok (requests S) (flow (discard_pending order (sched S))) (key_live S')"
    unfolding discard_pending_def Let_def
    using inv step EvDiscard weight_discard [of S order S']
    by (intro fold_release_ok [where W = "key_live S"]) (simp_all add: key_live_def flow_inv_def)
  with step EvDiscard show ?thesis by (auto simp: flow_inv_def split: if_splits)
qed

text \<open>
  How one event moves the paused keys: a key is paused at the limit, and resumed at half of it.
  Releasing deliveries only lowers counts, so that holds for any number of them.
\<close>

definition hysteresis :: "flow_control \<Rightarrow> flow_control \<Rightarrow> bool" where
  "hysteresis fc fc' \<longleftrightarrow>
     fc_limit fc' = fc_limit fc
     \<and> (\<forall>k. k \<in> fc_paused fc \<longrightarrow> k \<notin> fc_paused fc' \<longrightarrow> flow_count fc' k \<le> fc_limit fc div 2)
     \<and> (\<forall>k. k \<notin> fc_paused fc \<longrightarrow> k \<in> fc_paused fc' \<longrightarrow> fc_limit fc \<le> flow_count fc' k)"

definition falling :: "flow_control \<Rightarrow> flow_control \<Rightarrow> bool" where
  "falling fc fc' \<longleftrightarrow>
     hysteresis fc fc' \<and> fc_paused fc' \<subseteq> fc_paused fc \<and> (\<forall>k. flow_count fc' k \<le> flow_count fc k)"

lemma hysteresis_same:
  "fc_limit fc' = fc_limit fc \<Longrightarrow> fc_paused fc' = fc_paused fc \<Longrightarrow> hysteresis fc fc'"
  by (simp add: hysteresis_def)

lemma falling_refl: "falling fc fc"
  by (simp add: falling_def hysteresis_def)

lemma falling_trans:
  assumes "falling a b" "falling b c"
  shows "falling a c"
proof -
  have ab: "fc_limit b = fc_limit a" "fc_paused b \<subseteq> fc_paused a" "\<And>k. flow_count b k \<le> flow_count a k"
    "\<And>k. k \<in> fc_paused a \<Longrightarrow> k \<notin> fc_paused b \<Longrightarrow> flow_count b k \<le> fc_limit a div 2"
    using assms(1) by (auto simp: falling_def hysteresis_def)
  have bc: "fc_limit c = fc_limit b" "fc_paused c \<subseteq> fc_paused b" "\<And>k. flow_count c k \<le> flow_count b k"
    "\<And>k. k \<in> fc_paused b \<Longrightarrow> k \<notin> fc_paused c \<Longrightarrow> flow_count c k \<le> fc_limit b div 2"
    using assms(2) by (auto simp: falling_def hysteresis_def)
  have "flow_count c k \<le> fc_limit a div 2" if "k \<in> fc_paused a" "k \<notin> fc_paused c" for k
    using that ab(1) ab(4) [of k] bc(3) [of k] bc(4) [of k] by (cases "k \<in> fc_paused b") simp_all
  moreover have "flow_count c k \<le> flow_count a k" for k using ab(3) [of k] bc(3) [of k] by simp
  moreover have "fc_paused c \<subseteq> fc_paused a" using ab(2) bc(2) by blast
  ultimately show ?thesis unfolding falling_def hysteresis_def using ab(1) bc(1) by auto
qed

lemma flow_add_hysteresis: "hysteresis fc (flow_add fc k)"
  by (auto simp: hysteresis_def flow_add_def flow_count_def Let_def)

lemma flow_remove_falling: "falling fc (flow_remove fc k)"
  by (auto simp: falling_def hysteresis_def flow_remove_def flow_count_def Let_def split: option.splits if_splits)

lemma release_falling:
  "flow s = Some fc \<Longrightarrow> \<exists>fc'. flow (release key s) = Some fc' \<and> falling fc fc'"
  by (cases key) (simp_all add: release_def falling_refl flow_remove_falling)

lemma fold_release_falling:
  "flow s = Some fc \<Longrightarrow>
   \<exists>fc'. flow (fold (\<lambda>i. release (tk_flow (fst i))) xs s) = Some fc' \<and> falling fc fc'"
proof (induction xs arbitrary: s fc)
  case (Cons x xs)
  obtain f where f: "flow (release (tk_flow (fst x)) s) = Some f" "falling fc f"
    using release_falling [OF Cons.prems] by blast
  from Cons.IH [OF f(1)] f(2) falling_trans show ?case by auto
qed (simp add: falling_refl)

lemma flow_stepped:
  assumes step: "sched_step S ev = Some S'" and fc: "flow (sched S) = Some fc" "flow (sched S') = Some fc'"
  shows "hysteresis fc fc'"
proof -
  have released: "hysteresis fc f" if "flow (release key (sched S\<lparr>outstanding := n\<rparr>)) = Some f" for key n f
    using release_falling [of "sched S\<lparr>outstanding := n\<rparr>" fc key] fc(1) that by (auto simp: falling_def)
  show ?thesis
  proof (cases ev)
    case (EvAdmit k)
    with step fc show ?thesis
      by (cases k) (auto simp: admit_def Let_def flow_add_hysteresis hysteresis_same split: if_splits)
  next
    case (EvWithdraw i)
    with step fc(2) show ?thesis by (auto simp: withdraw_def split: if_splits intro: released)
  next
    case (EvComplete j)
    with step fc(2) show ?thesis by (auto simp: Let_def split: if_splits intro: released)
  next
    case (EvDiscard order)
    with step fc(2) have "flow (discard_pending order (sched S)) = Some fc'" by (auto split: if_splits)
    moreover obtain f where "flow (discard_pending order (sched S)) = Some f" "falling fc f"
      using fold_release_falling [of "sched S\<lparr>ready := [], waiting := Map.empty,
          outstanding := outstanding (sched S) - length (drain_pending order (sched S))\<rparr>" fc] fc(1)
      unfolding discard_pending_def Let_def by auto
    ultimately show ?thesis by (simp add: falling_def)
  qed (use step fc in \<open>auto simp: Let_def next_ready_def take_flow_changes_def case_prod_beta
        split: if_splits list.splits option.splits intro!: hysteresis_same\<close>)
qed

section \<open>Lanes\<close>

definition on_lane :: "lane \<Rightarrow> 'e item \<Rightarrow> bool" where
  "on_lane l x \<longleftrightarrow> tk_lane (fst x) = Some l"

abbreviation lane_of :: "lane \<Rightarrow> 'e item list \<Rightarrow> 'e item list" where
  "lane_of l xs \<equiv> filter (on_lane l) xs"

definition waiting_of :: "'e scheduler \<Rightarrow> lane \<Rightarrow> 'e item list" where
  "waiting_of s l = (case waiting s l of None \<Rightarrow> [] | Some q \<Rightarrow> q)"

text \<open>The unfinished deliveries of a lane, oldest first.\<close>

definition lane_queue :: "'e sched_sys \<Rightarrow> lane \<Rightarrow> 'e item list" where
  "lane_queue S l = lane_of l (running S @ ready (sched S)) @ waiting_of (sched S) l"

definition lane_inv :: "'e sched_sys \<Rightarrow> bool" where
  "lane_inv S \<longleftrightarrow>
     (\<forall>l. length (lane_of l (running S @ ready (sched S))) \<le> 1) \<and>
     (\<forall>l q. waiting (sched S) l = Some q \<longrightarrow> list_all (on_lane l) q) \<and>
     (\<forall>l. waiting (sched S) l \<noteq> None \<longrightarrow> lane_of l (running S @ ready (sched S)) \<noteq> []) \<and>
     (\<not> closed S \<longrightarrow>
        (\<forall>l. waiting (sched S) l = None \<longrightarrow> lane_of l (running S @ ready (sched S)) = [])) \<and>
     (closed S \<longrightarrow>
        ready (sched S) = [] \<and> waiting (sched S) = Map.empty)"

text \<open>What has been pushed into a lane is what has completed, what is unfinished, and what was discarded.\<close>

definition order_inv :: "'e sched_sys \<Rightarrow> bool" where
  "order_inv S \<longleftrightarrow>
     (\<forall>l. \<exists>d. lane_of l (pushed S) = lane_of l (completed S) @ lane_queue S l @ d \<and>
            (\<not> closed S \<longrightarrow> d = []))"


text \<open>The started or ready deliveries of a lane: at most one.\<close>

abbreviation lane_head :: "'e sched_sys \<Rightarrow> lane \<Rightarrow> 'e item list" where
  "lane_head S l \<equiv> lane_of l (running S @ ready (sched S))"

lemma lane_invD:
  assumes "lane_inv S"
  shows "length (lane_head S l) \<le> 1" 
    "waiting (sched S) l = Some q \<Longrightarrow> list_all (on_lane l) q"
    "waiting (sched S) l \<noteq> None \<Longrightarrow> lane_head S l \<noteq> []"
    "\<not> closed S \<Longrightarrow> waiting (sched S) l = None \<Longrightarrow> lane_head S l = []"
    "closed S \<Longrightarrow> ready (sched S) = [] \<and> waiting (sched S) = Map.empty"
  using assms unfolding lane_inv_def by blast+

text \<open>A push appends to its own lane's queue and leaves every other lane alone.\<close>

lemma push_lane:
  assumes inv: "lane_inv S" and opn: "\<not> closed S"
    and S': "S' = S\<lparr>sched := push a (Some l) e (sched S), admitted := as, pushed := ps\<rparr>"
  shows "lane_queue S' k =
           lane_queue S k @ (if k = l then [(\<lparr>tk_lane = Some l, tk_flow = adm_flow a\<rparr>, e)] else [])"
    and "lane_inv S'"
proof -
  let ?x = "(\<lparr>tk_lane = Some l, tk_flow = adm_flow a\<rparr>, e)"
  show "lane_queue S' k = lane_queue S k @ (if k = l then [?x] else [])"
    using lane_invD(4) [OF inv opn, of l]
    by (auto simp: S' lane_queue_def push_def waiting_of_def on_lane_def Let_def split: option.splits)
  show "lane_inv S'"
    using inv opn lane_invD(4) [OF inv opn, of l]
    by (auto simp: S' lane_inv_def push_def waiting_of_def on_lane_def Let_def split: option.splits)
qed

lemma push_independent:
  assumes inv: "lane_inv S" and opn: "\<not> closed S"
    and S': "S' = S\<lparr>sched := push a None e (sched S), admitted := as, pushed := ps\<rparr>"
  shows "lane_queue S' k = lane_queue S k" and "lane_inv S'"
  using inv opn
  by (auto simp: S' lane_queue_def lane_inv_def push_def waiting_of_def on_lane_def Let_def)

text \<open>Starting a delivery moves it within the head of its lane.\<close>

lemma start_lane:
  assumes "sched_step S EvStart = Some S'"
  shows "running S' @ ready (sched S') = running S @ ready (sched S)"
    and "waiting (sched S') = waiting (sched S)" "closed S' = closed S" "admitted S' = admitted S"
    and "closed S \<Longrightarrow> ready (sched S) = [] \<Longrightarrow> ready (sched S') = []"
  using assms by (auto simp: next_ready_def split: list.splits)

text \<open>Completing a delivery of a lane removes the head of the lane's queue; other lanes keep theirs.\<close>

lemma complete_lane:
  assumes inv: "lane_inv S" and j: "j < length (running S)"
    and l: "tk_lane (fst (running S ! j)) = Some l"
    and S': "S' = S\<lparr>sched := complete (fst (running S ! j)) (sched S),
               running := remove_nth j (running S), completed := cs\<rparr>"
  shows "lane_queue S l = running S ! j # lane_queue S' l"
    and "k \<noteq> l \<Longrightarrow> lane_queue S' k = lane_queue S k"
    and "lane_inv S'"
proof -
  let ?x = "running S ! j"
  have on: "on_lane l ?x" "k \<noteq> l \<Longrightarrow> \<not> on_lane k ?x" for k
    using l by (auto simp: on_lane_def)
  have "length (lane_of l (running S)) \<le> 1"
    using lane_invD(1) [OF inv, of l] by simp
  then have gone: "lane_of l (remove_nth j (running S)) = []" "lane_of l (running S) = [?x]"
    using filter_remove_nth_single [OF j, of "on_lane l"] on by blast+
  have noready: "lane_of l (ready (sched S)) = []"
    using lane_invD(1) [OF inv, of l] gone by simp
  have other: "k \<noteq> l \<Longrightarrow> lane_of k (remove_nth j (running S)) = lane_of k (running S)" for k
    using filter_remove_nth [OF j, of "on_lane k"] on by blast
  have waiting_on: "waiting (sched S) l = Some (y # q) \<Longrightarrow> on_lane l y \<and> list_all (on_lane l) q"
    for y q
    using lane_invD(2) [OF inv, of l] by auto
  have head: "lane_head S' l = (case waiting (sched S) l of Some (y # q) \<Rightarrow> [y] | _ \<Rightarrow> [])"
    using waiting_on
    by (auto simp: S' complete_def Let_def l gone noready split: option.splits list.splits)
  have wait: "waiting (sched S') l =
      (case waiting (sched S) l of Some (y # q) \<Rightarrow> Some q | _ \<Rightarrow> None)"
    by (auto simp: S' complete_def Let_def l split: option.splits list.splits)
  have head_other: "k \<noteq> l \<Longrightarrow> lane_head S' k = lane_head S k" for k
    using waiting_on
    by (auto simp: S' complete_def Let_def l other on_lane_def split: option.splits list.splits)
  have wait_other: "k \<noteq> l \<Longrightarrow> waiting (sched S') k = waiting (sched S) k" for k
    by (auto simp: S' complete_def Let_def l split: option.splits list.splits)
  show "lane_queue S l = ?x # lane_queue S' l"
    unfolding lane_queue_def head using wait gone noready
    by (auto simp: waiting_of_def split: option.splits list.splits)
  show "k \<noteq> l \<Longrightarrow> lane_queue S' k = lane_queue S k"
    unfolding lane_queue_def using head_other wait_other by (simp add: waiting_of_def)
  have shut: "closed S' \<Longrightarrow> ready (sched S') = [] \<and> waiting (sched S') = Map.empty"
    using lane_invD(5) [OF inv] by (auto simp: S' complete_def Let_def l)
  have "length (lane_head S' k) \<le> 1 \<and>
      (\<forall>q. waiting (sched S') k = Some q \<longrightarrow> list_all (on_lane k) q) \<and>
      (waiting (sched S') k \<noteq> None \<longrightarrow> lane_head S' k \<noteq> []) \<and>
      (\<not> closed S' \<longrightarrow> waiting (sched S') k = None \<longrightarrow> lane_head S' k = [])" for k
  proof (cases "k = l")
    case True
    show ?thesis
      unfolding True head wait using waiting_on by (auto split: option.splits list.splits)
  next
    case False
    then show ?thesis
      unfolding head_other [OF False] wait_other [OF False]
      using lane_invD(1-4) [OF inv, of k] by (simp add: S')
  qed
  with shut show "lane_inv S'" unfolding lane_inv_def by blast
qed

lemma complete_independent:
  assumes inv: "lane_inv S" and j: "j < length (running S)"
    and l: "tk_lane (fst (running S ! j)) = None"
    and S': "S' = S\<lparr>sched := complete (fst (running S ! j)) (sched S),
               running := remove_nth j (running S), completed := cs\<rparr>"
  shows "lane_queue S' k = lane_queue S k" and "lane_inv S'"
proof -
  have same: "lane_of k (remove_nth j (running S)) = lane_of k (running S)" for k
    using filter_remove_nth [OF j, of "on_lane k"] l by (simp add: on_lane_def)
  show "lane_queue S' k = lane_queue S k"
    by (simp add: S' lane_queue_def complete_def Let_def l same waiting_of_def)
  show "lane_inv S'"
    using inv by (simp add: S' lane_inv_def complete_def Let_def l same)
qed

text \<open>One step: the queue of every lane loses its head to \<open>completed\<close> or gains what is pushed.\<close>

definition lanes_ok :: "'e sched_sys \<Rightarrow> bool" where
  "lanes_ok S \<longleftrightarrow> lane_inv S \<and> order_inv S"

lemma order_inv_same:
  assumes "order_inv S" "\<And>l. lane_queue S' l = lane_queue S l" "pushed S' = pushed S"
    "completed S' = completed S" "closed S' = closed S"
  shows "order_inv S'"
  using assms by (simp add: order_inv_def)

lemma lanes_ok_push:
  assumes "sched_step S (EvPush i l e) = Some S'" "lanes_ok S"
  shows "lanes_ok S'"
proof -
  let ?a = "admitted S ! i"
  from assms(1) have opn: "\<not> closed S" and
    S': "S' = S\<lparr>sched := push ?a l e (sched S), admitted := remove_nth i (admitted S),
          pushed := pushed S @ [(\<lparr>tk_lane = l, tk_flow = adm_flow ?a\<rparr>, e)]\<rparr>"
    by (auto simp: Let_def split: if_splits)
  from assms(2) have inv: "lane_inv S" and ord: "order_inv S" by (auto simp: lanes_ok_def)
  show ?thesis
  proof (cases l)
    case None
    note push = push_independent [OF inv opn S' [unfolded None]]
    have "pushed S' = pushed S @ [(\<lparr>tk_lane = None, tk_flow = adm_flow ?a\<rparr>, e)]"
      "completed S' = completed S" "closed S' = closed S"
      by (simp_all add: S' None)
    then show ?thesis
      using ord push by (simp add: lanes_ok_def order_inv_def on_lane_def)
  next
    case (Some lane)
    note push = push_lane [OF inv opn S' [unfolded Some]]
    have "pushed S' = pushed S @ [(\<lparr>tk_lane = Some lane, tk_flow = adm_flow ?a\<rparr>, e)]"
      "completed S' = completed S" "closed S' = closed S"
      by (simp_all add: S' Some)
    then show ?thesis
      using ord opn push by (simp add: lanes_ok_def order_inv_def on_lane_def)
  qed
qed

lemma lanes_ok_complete:
  assumes "sched_step S (EvComplete j) = Some S'" "lanes_ok S"
  shows "lanes_ok S'"
proof -
  let ?x = "running S ! j"
  from assms(1) have j: "j < length (running S)" and
    S': "S' = S\<lparr>sched := complete (fst ?x) (sched S), running := remove_nth j (running S),
           completed := completed S @ [?x]\<rparr>"
    by (auto simp: Let_def split: if_splits)
  from assms(2) have inv: "lane_inv S" and ord: "order_inv S" by (auto simp: lanes_ok_def)
  have hist: "pushed S' = pushed S" "completed S' = completed S @ [?x]" "closed S' = closed S"
    by (simp_all add: S')
  show ?thesis
  proof (cases "tk_lane (fst ?x)")
    case None
    with ord complete_independent [OF inv j None S'] hist show ?thesis
      by (simp add: lanes_ok_def order_inv_def on_lane_def)
  next
    case (Some l)
    note fin = complete_lane [OF inv j Some S']
    have "lane_of k (completed S') @ lane_queue S' k = lane_of k (completed S) @ lane_queue S k" for k
      using fin(1) fin(2) [of k] Some by (cases "k = l") (auto simp: hist on_lane_def)
    with ord hist fin(3) show ?thesis
      by (simp add: lanes_ok_def order_inv_def flip: append_assoc)
  qed
qed

lemma lanes_ok_discard:
  assumes "sched_step S (EvDiscard order) = Some S'" "lanes_ok S"
  shows "lanes_ok S'"
proof -
  from assms(1) have S': "S' = S\<lparr>sched := discard_pending order (sched S), closed := True\<rparr>"
    by (auto split: if_splits)
  from assms(2) have inv: "lane_inv S" and ord: "order_inv S" by (auto simp: lanes_ok_def)
  have "lane_queue S l = lane_queue S' l @ lane_of l (ready (sched S)) @ waiting_of (sched S) l" for l
    by (simp add: S' lane_queue_def waiting_of_def)
  moreover have "lane_inv S'"
    unfolding lane_inv_def S' by (auto intro: add_leD1 lane_invD(1) [OF inv, simplified])
  ultimately show ?thesis
    using ord by (auto simp: lanes_ok_def order_inv_def S')
qed

lemma lanes_ok_step [inv_intros]:
  assumes step: "sched_step S ev = Some S'" and ok: "lanes_ok S"
  shows "lanes_ok S'"
proof (cases ev)
  case (EvAdmit k)
  with step ok show ?thesis
    by (auto simp: lanes_ok_def lane_inv_def order_inv_def lane_queue_def waiting_of_def Let_def
        case_prod_beta split: if_splits)
next
  case (EvWithdraw i)
  with step ok show ?thesis
    by (auto simp: lanes_ok_def lane_inv_def order_inv_def lane_queue_def waiting_of_def
        split: if_splits)
next
  case EvStart
  with step have "sched_step S EvStart = Some S'" by simp
  note start = start_lane [OF this]
  have "lane_queue S' l = lane_queue S l" for l
    unfolding lane_queue_def waiting_of_def start(1,2) ..
  moreover have "pushed S' = pushed S" "completed S' = completed S"
    using EvStart step by (auto simp: next_ready_def split: list.splits)
  moreover have "lane_inv S'"
    using ok start(5) unfolding lanes_ok_def lane_inv_def start(1-4) by blast
  ultimately show ?thesis
    using ok order_inv_same [of S S'] start(3) by (simp add: lanes_ok_def)
next
  case EvTakeFlow
  with step ok show ?thesis
    by (auto simp: lanes_ok_def lane_inv_def order_inv_def lane_queue_def waiting_of_def Let_def
        case_prod_beta)
next
  case EvDisableFlow
  with step ok show ?thesis
    by (auto simp: lanes_ok_def lane_inv_def order_inv_def lane_queue_def waiting_of_def)
qed (use step ok in \<open>blast intro: lanes_ok_push lanes_ok_complete lanes_ok_discard\<close>)+


section \<open>Conservation\<close>

text \<open>
  Until something is discarded, every pushed delivery is completed, running or queued, and each of
  these is a pushed delivery: the sums over both sides agree for every weight.
\<close>

definition conserved :: "'e sched_sys \<Rightarrow> bool" where
  "conserved S \<longleftrightarrow>
     (\<not> closed S \<longrightarrow>
        (\<forall>f. (\<Sum>x\<leftarrow>pushed S. f x) =
             (\<Sum>x\<leftarrow>completed S. f x) + (\<Sum>x\<leftarrow>running S. f x) + queued_sum f (sched S)))"

lemma conserved_step [inv_intros]:
  assumes "sched_step S ev = Some S'" "finite_lanes S" "conserved S"
  shows "conserved S'"
proof (cases ev)
  case (EvPush i l e)
  with assms show ?thesis
    by (auto simp: conserved_def finite_lanes_def queued_sum_push Let_def split: if_splits)
next
  case EvStart
  with assms show ?thesis
    by (auto simp: conserved_def queued_sum_next split: option.splits)
next
  case (EvComplete j)
  with assms show ?thesis
    by (auto simp: conserved_def finite_lanes_def queued_sum_complete Let_def
        sum_list_remove_nth [of j "running S"] split: if_splits)
qed (use assms in \<open>auto simp: conserved_def queued_sum_def Let_def case_prod_beta split: if_splits\<close>)


text \<open>Whatever is queued, running or completed was pushed, also after a discard.\<close>

definition queued_item :: "'e scheduler \<Rightarrow> 'e item \<Rightarrow> bool" where
  "queued_item s x \<longleftrightarrow> x \<in> set (ready s) \<or> (\<exists>l. x \<in> set (waiting_of s l))"

lemma queued_item_same [simp]:
  "queued_item (snd (admit k s)) = queued_item s" "queued_item (withdraw a s) = queued_item s"
  "queued_item (snd (take_flow_changes s)) = queued_item s"
  "queued_item (disable_flow_control s) = queued_item s"
  "\<not> queued_item (discard_pending order s) x"
  by (simp_all add: queued_item_def waiting_of_def fun_eq_iff)

lemma queued_item_next:
  assumes "next_ready s = Some (y, s')"
  shows "queued_item s' x \<Longrightarrow> queued_item s x" "queued_item s y"
  using assms by (auto simp: next_ready_def queued_item_def waiting_of_def split: list.splits)

lemma waiting_of_push:
  "set (waiting_of (push a l e s) k) \<subseteq>
     insert (\<lparr>tk_lane = l, tk_flow = adm_flow a\<rparr>, e) (set (waiting_of s k))"
  by (auto simp: push_def waiting_of_def Let_def split: option.splits if_splits)

lemma ready_push:
  "set (ready (push a l e s)) \<subseteq> insert (\<lparr>tk_lane = l, tk_flow = adm_flow a\<rparr>, e) (set (ready s))"
  by (auto simp: push_def Let_def split: option.splits)

lemma queued_item_push:
  "queued_item (push a l e s) x \<Longrightarrow>
   queued_item s x \<or> x = (\<lparr>tk_lane = l, tk_flow = adm_flow a\<rparr>, e)"
  using waiting_of_push [of a l e s] ready_push [of a l e s] unfolding queued_item_def by blast

lemma waiting_of_complete:
  "set (waiting_of (complete t s) k) \<subseteq> set (waiting_of s k)"
  by (auto simp: complete_def waiting_of_def Let_def split: option.splits list.splits if_splits)

lemma ready_complete:
  "set (ready (complete t s)) \<subseteq> set (ready s) \<union> set (waiting_of s (the (tk_lane t)))"
  by (auto simp: complete_def waiting_of_def Let_def split: option.splits list.splits)

lemma queued_item_complete: "queued_item (complete t s) x \<Longrightarrow> queued_item s x"
  using waiting_of_complete [of t s] ready_complete [of t s] unfolding queued_item_def by blast

definition from_pushed :: "'e sched_sys \<Rightarrow> bool" where
  "from_pushed S \<longleftrightarrow>
     (\<forall>x. x \<in> set (completed S) \<or> x \<in> set (running S) \<or> queued_item (sched S) x \<longrightarrow> x \<in> set (pushed S))"

lemma from_pushed_frame:
  assumes "from_pushed S"
    "\<And>x. x \<in> set (completed S') \<or> x \<in> set (running S') \<or> queued_item (sched S') x \<Longrightarrow>
       x \<in> set (completed S) \<or> x \<in> set (running S) \<or> queued_item (sched S) x \<or> x \<in> set (pushed S')"
    "set (pushed S) \<subseteq> set (pushed S')"
  shows "from_pushed S'"
  using assms unfolding from_pushed_def by blast

lemma from_pushed_step [inv_intros]:
  assumes "sched_step S ev = Some S'" "from_pushed S"
  shows "from_pushed S'"
proof (rule from_pushed_frame [OF assms(2)])
  show "set (pushed S) \<subseteq> set (pushed S')"
    using assms(1) by (cases ev) (auto simp: Let_def case_prod_beta split: if_splits option.splits)
  fix x
  assume x: "x \<in> set (completed S') \<or> x \<in> set (running S') \<or> queued_item (sched S') x"
  show "x \<in> set (completed S) \<or> x \<in> set (running S) \<or> queued_item (sched S) x \<or> x \<in> set (pushed S')"
  proof (cases ev)
    case (EvPush i l e)
    with assms(1) x show ?thesis by (auto simp: Let_def split: if_splits dest!: queued_item_push)
  next
    case EvStart
    with assms(1) x show ?thesis
      by (auto split: option.splits dest: queued_item_next)
  next
    case (EvComplete j)
    with assms(1) x set_remove_nth [of j "running S"] show ?thesis
      by (auto simp: Let_def split: if_splits dest!: queued_item_complete)
  qed (use assms(1) x in \<open>auto simp: Let_def case_prod_beta split: if_splits\<close>)
qed

section \<open>The scheduler's contract\<close>

definition sched_inv :: "'e sched_sys \<Rightarrow> bool" where
  "sched_inv S \<longleftrightarrow> finite_lanes S \<and> counted S \<and> flow_inv S \<and> lanes_ok S \<and> conserved S \<and> from_pushed S"

interpretation sched: invariant_system sched_init sched_step sched_inv
proof unfold_locales
  fix S :: "'e sched_sys"
  assume "sched_init S"
  then obtain limit where "limit \<noteq> Some 0" "S = sys_new limit" by (auto simp: sched_init_def)
  then show "sched_inv S"
    by (cases limit) (auto simp: sched_inv_def sys_new_def scheduler_new_def finite_lanes_def
        counted_def live_def weight_def flow_inv_def flow_ok_def flow_count_def key_live_def
        lanes_ok_def lane_inv_def order_inv_def lane_queue_def waiting_of_def conserved_def
        queued_sum_def from_pushed_def queued_item_def)
next
  fix S S' :: "'e sched_sys" and ev
  assume "sched_inv S" "sched_step S ev = Some S'"
  then show "sched_inv S'"
    unfolding sched_inv_def by (blast intro: inv_intros)
qed

lemma sched_reachD:
  assumes "sched_reach S"
  shows "finite_lanes S" "counted S" "flow_inv S" "lane_inv S" "order_inv S" "conserved S"
    "from_pushed S"
  using sched.reach_inv [OF assms] by (simp_all add: sched_inv_def lanes_ok_def)

text \<open>A run used by the witnesses: two deliveries share lane 7, and the first has completed.\<close>

definition example_key :: ordering_key where
  "example_key = ordering_key_new ''orders'' 0"

definition example_run :: "nat sched_event list" where
  "example_run =
     [EvAdmit (Some example_key), EvAdmit (Some example_key), EvPush 0 (Some 7) 1,
      EvPush 0 (Some 7) 2, EvStart, EvTakeFlow, EvComplete 0, EvStart]"

lemma example_run_reach: "sched_reach (the (run sched_step (sys_new (Some 2)) example_run))"
proof (rule run_reach)
  show "sched_init (sys_new (Some 2))"
    unfolding sched_init_def by (rule exI [of _ "Some 2"]) simp
  show "run sched_step (sys_new (Some 2)) example_run
      = Some (the (run sched_step (sys_new (Some 2)) example_run))"
    by (simp add: example_run_def sys_new_def scheduler_new_def admit_def push_def next_ready_def
        complete_def release_def take_flow_changes_def flow_add_def flow_remove_def flow_count_def
        remove_nth_def Let_def)
qed

lemma example_run_state:
  "the (run sched_step (sys_new (Some 2)) example_run) =
     \<lparr>sched = \<lparr>ready = [], waiting = [7 \<mapsto> []], outstanding = 1,
        flow = Some \<lparr>fc_limit = 2, fc_unfinished = [example_key \<mapsto> 1], fc_paused = {},
                     fc_changes = [Resume example_key]\<rparr>\<rparr>,
      admitted = [], running = [(\<lparr>tk_lane = Some 7, tk_flow = Some example_key\<rparr>, 2)],
      pushed = [(\<lparr>tk_lane = Some 7, tk_flow = Some example_key\<rparr>, 1),
                (\<lparr>tk_lane = Some 7, tk_flow = Some example_key\<rparr>, 2)],
      completed = [(\<lparr>tk_lane = Some 7, tk_flow = Some example_key\<rparr>, 1)],
      requests = [Pause example_key], closed = False\<rparr>"
  by (simp add: example_run_def sys_new_def scheduler_new_def admit_def push_def next_ready_def
      complete_def release_def take_flow_changes_def flow_add_def flow_remove_def flow_count_def
      remove_nth_def Let_def)

text \<open>
  Deliveries of one lane run one at a time and in the order they were pushed: whatever calls
  the client has made, what has completed in the lane followed by what is running in it is a prefix
  of what was pushed into it, and at most one delivery of the lane is running.
\<close>

theorem lane_order:
  assumes "sched_reach S"
  shows "prefix (lane_of l (completed S) @ lane_of l (running S)) (lane_of l (pushed S))
     \<and> length (lane_of l (running S)) \<le> 1"
proof -
  obtain d where "lane_of l (pushed S) = lane_of l (completed S) @ lane_queue S l @ d"
    using sched_reachD(5) [OF assms] by (auto simp: order_inv_def)
  then have "lane_of l (pushed S) = (lane_of l (completed S) @ lane_of l (running S))
      @ lane_of l (ready (sched S)) @ waiting_of (sched S) l @ d"
    by (simp add: lane_queue_def)
  moreover have "length (lane_of l (running S)) \<le> 1"
    using lane_invD(1) [OF sched_reachD(4) [OF assms], of l] by simp
  ultimately show ?thesis by (metis prefixI)
qed

theorem lane_order_witness:
  "\<exists>S :: nat sched_sys. sched_reach S \<and> map snd (lane_of 7 (completed S)) = [1]
     \<and> map snd (lane_of 7 (running S)) = [2]
     \<and> prefix (lane_of 7 (completed S) @ lane_of 7 (running S)) (lane_of 7 (pushed S))
     \<and> length (lane_of 7 (running S)) \<le> 1"
  using lane_order [OF example_run_reach, of 7] example_run_reach
  by (intro exI [of _ "the (run sched_step (sys_new (Some 2)) example_run)"])
    (simp add: example_run_state on_lane_def)

text \<open>
  The outstanding count is exact: it is the number of deliveries that were admitted and have
  neither completed, been withdrawn nor been discarded, so none of the decrements underflows.
\<close>

theorem outstanding_exact:
  assumes "sched_reach S"
  shows "outstanding (sched S) =
      length (admitted S) + length (ready (sched S))
      + wsum (waiting (sched S)) (\<lambda>_. 1) + length (running S)"
  using sched_reachD(2) [OF assms] by (simp add: counted_def live_def weight_def sum_list_triv)

theorem outstanding_exact_witness:
  "\<exists>S :: nat sched_sys. sched_reach S \<and> length (running S) = 1 \<and>
     outstanding (sched S) = length (admitted S) + length (ready (sched S))
       + wsum (waiting (sched S)) (\<lambda>_. 1) + length (running S)"
  using outstanding_exact [OF example_run_reach] example_run_reach
  by (intro exI [of _ "the (run sched_step (sys_new (Some 2)) example_run)"])
    (simp add: example_run_state)

text \<open>
  C18. Per-key flow control is exact while it is enabled: the count of a key is the number of its
  unfinished deliveries, a key that is not paused is below the limit, a paused key is above half of
  the limit, and the pause and resume requests of every key alternate. A key changes only at its
  bounds: one that is not paused becomes so exactly when its count reaches the limit, and a paused
  one stays so exactly while its count is above half of the limit.
\<close>

theorem flow_control_exact:
  assumes "sched_reach S" "flow (sched S) = Some fc"
  shows "(\<forall>ev S' fc'. sched_step S ev = Some S' \<longrightarrow> flow (sched S') = Some fc' \<longrightarrow>
       (k \<in> fc_paused fc' \<longleftrightarrow>
          (if k \<in> fc_paused fc then fc_limit fc div 2 < key_live S' k else fc_limit fc \<le> key_live S' k)))
     \<and> flow_count fc k = key_live S k
     \<and> (k \<notin> fc_paused fc \<longrightarrow> key_live S k < fc_limit fc)
     \<and> (k \<in> fc_paused fc \<longrightarrow> fc_limit fc div 2 < key_live S k)
     \<and> replay k False (requests S @ fc_changes fc) = Some (k \<in> fc_paused fc)"
proof -
  have ok: "flow_ok (requests T) f (key_live T)" if "sched_reach T" "flow (sched T) = Some f" for T f
    using sched_reachD(3) [OF that(1)] that(2) by (simp add: flow_inv_def)
  have "k \<in> fc_paused fc' \<longleftrightarrow>
      (if k \<in> fc_paused fc then fc_limit fc div 2 < key_live S' k else fc_limit fc \<le> key_live S' k)"
    if step: "sched_step S ev = Some S'" "flow (sched S') = Some fc'" for ev S' fc'
  proof -
    have "sched_reach S'" by (rule reach_step [OF assms(1) step(1)])
    note ok' = flow_okD(2-) [OF ok [OF this step(2)], of k]
    have limit: "fc_limit fc' = fc_limit fc"
      and resumed: "k \<in> fc_paused fc \<Longrightarrow> k \<notin> fc_paused fc' \<Longrightarrow> key_live S' k \<le> fc_limit fc div 2"
      and paused: "k \<notin> fc_paused fc \<Longrightarrow> k \<in> fc_paused fc' \<Longrightarrow> fc_limit fc \<le> key_live S' k"
      using flow_stepped [OF step(1) assms(2) step(2)] ok'(1) by (auto simp: hysteresis_def)
    show ?thesis using ok'(3,4) resumed paused limit
      by (cases "k \<in> fc_paused fc'"; cases "k \<in> fc_paused fc") (simp_all add: not_less not_le)
  qed
  with flow_okD(2-) [OF ok [OF assms], of k] show ?thesis by blast
qed

theorem flow_control_exact_witness:
  "\<exists>(S :: nat sched_sys) fc. sched_reach S \<and> flow (sched S) = Some fc
     \<and> flow_count fc example_key = key_live S example_key \<and> key_live S example_key < fc_limit fc
     \<and> replay example_key False (requests S @ fc_changes fc) = Some (example_key \<in> fc_paused fc)
     \<and> (\<exists>S' fc'. sched_step S (EvAdmit (Some example_key)) = Some S' \<and> flow (sched S') = Some fc'
          \<and> (example_key \<in> fc_paused fc' \<longleftrightarrow> fc_limit fc \<le> key_live S' example_key))"
proof -
  let ?S = "the (run sched_step (sys_new (Some 2)) example_run)"
  define fc where "fc = \<lparr>fc_limit = 2, fc_unfinished = [example_key \<mapsto> 1], fc_paused = {},
    fc_changes = [Resume example_key]\<rparr>"
  have fc: "flow (sched ?S) = Some fc" "example_key \<notin> fc_paused fc"
    by (simp_all add: example_run_state fc_def)
  obtain S' fc' where step: "sched_step ?S (EvAdmit (Some example_key)) = Some S'" "flow (sched S') = Some fc'"
    by (simp add: example_run_state admit_def Let_def)
  note exact = flow_control_exact [OF example_run_reach fc(1), of example_key]
  then have "\<forall>ev S' fc'. sched_step ?S ev = Some S' \<longrightarrow> flow (sched S') = Some fc' \<longrightarrow>
      (example_key \<in> fc_paused fc' \<longleftrightarrow> fc_limit fc \<le> key_live S' example_key)" using fc(2) by presburger
  with step have "example_key \<in> fc_paused fc' \<longleftrightarrow> fc_limit fc \<le> key_live S' example_key" by blast
  with exact step fc example_run_reach show ?thesis by blast
qed

text \<open>
  The scheduler never strands a delivery: while it is open and has unfinished deliveries that
  are not still decoding, one of them is running or ready to start, and every waiting delivery
  waits behind a running or ready delivery of its own lane.
\<close>

theorem scheduler_progress:
  assumes "sched_reach S" "admitted S = []" "0 < outstanding (sched S)"
  shows "(running S \<noteq> [] \<or> next_ready (sched S) \<noteq> None) \<and>
    (\<forall>l. waiting (sched S) l \<noteq> None \<longrightarrow>
       (\<exists>x \<in> set (running S) \<union> set (ready (sched S)). on_lane l x))"
proof -
  note inv = sched_reachD(4) [OF assms(1)]
  have head: "\<exists>x \<in> set (running S) \<union> set (ready (sched S)). on_lane l x"
    if "waiting (sched S) l \<noteq> None" for l
    using lane_invD(3) [OF inv that] by (auto simp: filter_empty_conv)
  have "running S \<noteq> [] \<or> next_ready (sched S) \<noteq> None"
  proof (rule ccontr)
    assume "\<not> ?thesis"
    then have none: "running S = []" "ready (sched S) = []"
      by (auto simp: next_ready_def split: list.splits)
    with head have "waiting (sched S) = Map.empty" by fastforce
    with sched_reachD(2) [OF assms(1)] none assms(2,3) show False
      by (simp add: counted_def live_def weight_def)
  qed
  with head show ?thesis by blast
qed

theorem scheduler_progress_witness:
  "\<exists>S :: nat sched_sys. sched_reach S \<and> admitted S = [] \<and> 0 < outstanding (sched S) \<and>
     (running S \<noteq> [] \<or> next_ready (sched S) \<noteq> None)"
  using scheduler_progress [OF example_run_reach] example_run_reach
  by (intro exI [of _ "the (run sched_step (sys_new (Some 2)) example_run)"])
    (simp add: example_run_state)

end
