(* ===== verification/Tokens.thy ===== *)
theory Tokens
  imports Prelude
begin

text \<open>
  Cancellation tokens of \<^verbatim>\<open>src/shutdown.rs\<close>. Clones of a token share one cell, so a token is the
  index of its cell in a store; \<open>tok_next\<close> is the first unused cell.
\<close>

type_synonym token = nat

record tokens =
  tok_next :: nat
  tok_cancelled :: "nat set"

definition tokens_empty :: tokens where
  "tokens_empty = \<lparr>tok_next = 0, tok_cancelled = {}\<rparr>"

definition token_new :: "tokens \<Rightarrow> token \<times> tokens" where
  "token_new ts = (tok_next ts, ts\<lparr>tok_next := Suc (tok_next ts)\<rparr>)"

definition token_cancel :: "token \<Rightarrow> tokens \<Rightarrow> tokens" where
  "token_cancel t ts = ts\<lparr>tok_cancelled := insert t (tok_cancelled ts)\<rparr>"

definition token_is_cancelled :: "tokens \<Rightarrow> token \<Rightarrow> bool" where
  "token_is_cancelled ts t \<longleftrightarrow> t \<in> tok_cancelled ts"

text \<open>Every token handed out so far is below \<open>tok_next\<close>, so a new token is never born cancelled.\<close>

definition tokens_ok :: "tokens \<Rightarrow> bool" where
  "tokens_ok ts \<longleftrightarrow> (\<forall>t \<in> tok_cancelled ts. t < tok_next ts)"

lemma token_cancel_simps [simp]:
  "tok_next (token_cancel t ts) = tok_next ts"
  "token_is_cancelled (token_cancel t ts) u \<longleftrightarrow> u = t \<or> token_is_cancelled ts u"
  by (simp_all add: token_cancel_def token_is_cancelled_def)

lemma token_new_simps [simp]:
  "fst (token_new ts) = tok_next ts"
  "tok_next (snd (token_new ts)) = Suc (tok_next ts)"
  "token_is_cancelled (snd (token_new ts)) u \<longleftrightarrow> token_is_cancelled ts u"
  by (simp_all add: token_new_def token_is_cancelled_def)

lemma tokens_ok_new [simp]: "tokens_ok ts \<Longrightarrow> tokens_ok (snd (token_new ts))"
  by (auto simp: tokens_ok_def token_new_def less_Suc_eq)

lemma tokens_ok_cancel [simp]: "tokens_ok ts \<Longrightarrow> t < tok_next ts \<Longrightarrow> tokens_ok (token_cancel t ts)"
  by (auto simp: tokens_ok_def token_cancel_def)

lemma token_new_fresh: "tokens_ok ts \<Longrightarrow> \<not> token_is_cancelled ts (tok_next ts)"
  by (auto simp: tokens_ok_def token_is_cancelled_def)

end
