(* ===== verification/Ordered_Map.thy ===== *)
theory Ordered_Map
  imports Prelude
begin

text \<open>
  The part of \<^verbatim>\<open>BTreeMap\<close> the crate uses: entries visited in key order, \<^verbatim>\<open>entry().or_insert\<close>,
  in-place update, \<^verbatim>\<open>retain\<close>. The interface \<open>ordered_map\<close> states what iteration in key order
  gives a client; sorted association lists implement it.
\<close>

locale ordered_map =
  fixes invar :: "'m \<Rightarrow> bool"
    and lookup :: "'m \<Rightarrow> 'k::linorder \<Rightarrow> 'v option"
    and entries :: "'m \<Rightarrow> ('k \<times> 'v) list"
  assumes entries_sorted: "invar m \<Longrightarrow> sorted_wrt (<) (map fst (entries m))"
    and lookup_entries: "invar m \<Longrightarrow> lookup m k = map_of (entries m) k"
begin

lemma entries_distinct: "invar m \<Longrightarrow> distinct (map fst (entries m))"
  using entries_sorted strict_sorted_iff by blast

lemma lookup_iff: "invar m \<Longrightarrow> lookup m k = Some v \<longleftrightarrow> (k, v) \<in> set (entries m)"
  by (simp add: lookup_entries entries_distinct)

text \<open>Finding the first entry in key order finds the least key with the property.\<close>

lemma find_least:
  assumes inv: "invar m" and find: "find P (entries m) = Some (k, v)"
  shows "lookup m k = Some v \<and> P (k, v) \<and> (\<forall>j w. lookup m j = Some w \<longrightarrow> j < k \<longrightarrow> \<not> P (j, w))"
proof -
  from find obtain i where i: "i < length (entries m)" "entries m ! i = (k, v)" "P (k, v)"
    "\<forall>j < i. \<not> P (entries m ! j)"
    by (auto simp: find_Some_iff)
  have "\<not> P (j, w)" if "lookup m j = Some w" "j < k" for j w
  proof -
    from that inv obtain n where n: "n < length (entries m)" "entries m ! n = (j, w)"
      by (auto simp: lookup_iff in_set_conv_nth)
    have "n < i"
    proof (rule ccontr)
      assume "\<not> n < i"
      then consider "n = i" | "i < n" by linarith
      then show False
      proof cases
        case 1
        with n i that show False by simp
      next
        case 2
        with sorted_wrt_nth_less [OF entries_sorted [OF inv], of i n] n i have "k < j" by simp
        with that show False by simp
      qed
    qed
    with i(4) n(2) show ?thesis by auto
  qed
  with i inv show ?thesis by (auto simp: lookup_iff in_set_conv_nth)
qed

lemma find_none: "invar m \<Longrightarrow> find P (entries m) = None \<Longrightarrow> lookup m k = Some v \<Longrightarrow> \<not> P (k, v)"
  by (auto simp: lookup_iff find_None_iff)

lemma last_greatest:
  assumes "invar m" "lookup m k = Some v"
  shows "entries m \<noteq> [] \<and> k \<le> fst (last (entries m)) \<and> fst (last (entries m)) \<in> dom (lookup m)"
proof -
  from assms obtain n where n: "n < length (entries m)" "entries m ! n = (k, v)"
    by (auto simp: lookup_iff in_set_conv_nth)
  then have ne: "entries m \<noteq> []" by auto
  have "k \<le> fst (last (entries m))"
  proof (cases "n = length (entries m) - 1")
    case True
    with n ne show ?thesis by (simp add: last_conv_nth)
  next
    case False
    with n have "n < length (entries m) - 1" by simp
    with sorted_wrt_nth_less [OF entries_sorted [OF assms(1)], of n "length (entries m) - 1"] n ne
    show ?thesis by (simp add: last_conv_nth)
  qed
  moreover have "last (entries m) \<in> set (entries m)" using ne by simp
  then have "fst (last (entries m)) \<in> dom (lookup m)"
    using assms(1) by (auto simp: lookup_iff dom_def intro!: exI [of _ "snd (last (entries m))"])
  ultimately show ?thesis using ne by blast
qed

end

section \<open>Sorted association lists\<close>

definition om_ok :: "('k::linorder \<times> 'v) list \<Rightarrow> bool" where
  "om_ok m \<longleftrightarrow> sorted_wrt (<) (map fst m)"

fun om_or_insert :: "'k::linorder \<Rightarrow> 'v \<Rightarrow> ('k \<times> 'v) list \<Rightarrow> ('k \<times> 'v) list" where
  "om_or_insert k v [] = [(k, v)]"
| "om_or_insert k v ((j, w) # m) =
     (if k < j then (k, v) # (j, w) # m
      else if k = j then (j, w) # m
      else (j, w) # om_or_insert k v m)"

definition om_set :: "'k::linorder \<Rightarrow> 'v \<Rightarrow> ('k \<times> 'v) list \<Rightarrow> ('k \<times> 'v) list" where
  "om_set k v m = map (\<lambda>(j, w). (j, if j = k then v else w)) m"

definition om_retain :: "('k \<Rightarrow> bool) \<Rightarrow> ('k \<times> 'v) list \<Rightarrow> ('k \<times> 'v) list" where
  "om_retain P m = filter (\<lambda>(j, w). P j) m"

lemma keys_om_or_insert: "fst ` set (om_or_insert k v m) = insert k (fst ` set m)"
  by (induction k v m rule: om_or_insert.induct) auto

lemma om_ok_or_insert [simp, intro]: "om_ok m \<Longrightarrow> om_ok (om_or_insert k v m)"
proof (induction k v m rule: om_or_insert.induct)
  case (2 k v j w m)
  then show ?case
    using keys_om_or_insert [of k v m] by (auto simp: om_ok_def)
qed (simp add: om_ok_def)

lemma om_ok_set [simp, intro]: "om_ok m \<Longrightarrow> om_ok (om_set k v m)"
proof -
  have "map fst (om_set k v m) = map fst m" by (auto simp: om_set_def)
  then show "om_ok m \<Longrightarrow> om_ok (om_set k v m)" by (simp add: om_ok_def)
qed

lemma om_ok_retain [simp, intro]: "om_ok m \<Longrightarrow> om_ok (om_retain P m)"
proof (induction m)
  case (Cons x m)
  then show ?case by (auto simp: om_ok_def om_retain_def)
qed (simp add: om_retain_def)

lemma om_lookup_above: "om_ok ((j, w) # m) \<Longrightarrow> k \<le> j \<Longrightarrow> map_of m k = None"
  by (force simp: om_ok_def map_of_eq_None_iff)

lemma map_of_om_or_insert:
  "om_ok m \<Longrightarrow> map_of (om_or_insert k v m) =
     (map_of m)(k \<mapsto> (case map_of m k of None \<Rightarrow> v | Some w \<Rightarrow> w))"
proof (induction k v m rule: om_or_insert.induct)
  case (2 k v j w m)
  have "om_ok m" using 2(2) by (simp add: om_ok_def)
  with 2 om_lookup_above [of j w m k] show ?case by (auto simp: fun_eq_iff)
qed simp

lemma map_of_om_set:
  "map_of (om_set k v m) = (if map_of m k = None then map_of m else (map_of m)(k \<mapsto> v))"
  by (induction m) (auto simp: om_set_def fun_eq_iff)

lemma map_of_om_retain: "map_of (om_retain P m) = (\<lambda>k. if P k then map_of m k else None)"
  by (induction m) (auto simp: om_retain_def fun_eq_iff)

lemmas om_lookups = map_of_om_or_insert map_of_om_set map_of_om_retain

interpretation om: ordered_map om_ok "map_of :: ('k::linorder \<times> 'v) list \<Rightarrow> 'k \<Rightarrow> 'v option" "\<lambda>m. m"
  by unfold_locales (simp_all add: om_ok_def)

end
