(* ===== verification/Kafka_Progress.thy ===== *)
theory Kafka_Progress
  imports Errors Tokens Ordered_Map
begin

text \<open>
  Offset progress of the Kafka source, \<^verbatim>\<open>src/adapters/kafka/progress.rs\<close>, with the acknowledgement
  protocol of \<^verbatim>\<open>src/adapters/kafka/source.rs\<close> that drives it.

  The first part translates \<^verbatim>\<open>Progress\<close> and \<^verbatim>\<open>PartitionProgress\<close> operation by operation. Offsets
  are \<^verbatim>\<open>i64\<close> values, generations wrap at 64 bits, and tokens live in the store of \<open>Tokens\<close>. The
  second part interleaves polling, acknowledging, dropping, rebalancing, handing off and committing
  in any order and proves that no offset is committed past a delivery that was not acknowledged.
\<close>

type_synonym partition = "string \<times> int"

datatype status = Pending | Done | Released

record partition_progress =
  pp_generation :: u64
  pp_revoked :: token
  pp_handoff :: token
  pp_next :: "int option"
  pp_received :: "(int \<times> status) list"

record kafka_progress =
  kp_active :: "partition \<rightharpoonup> partition_progress"
  kp_generations :: "partition \<rightharpoonup> u64"
  kp_paused :: "partition set"
  kp_tokens :: tokens

record registered =
  reg_generation :: u64
  reg_revoked :: token
  reg_handoff :: token

definition kp_default :: kafka_progress where
  "kp_default =
     \<lparr>kp_active = Map.empty, kp_generations = Map.empty, kp_paused = {}, kp_tokens = tokens_empty\<rparr>"

text \<open>\<^verbatim>\<open>generations.entry(key).or_default()\<close>.\<close>

definition kp_gen :: "kafka_progress \<Rightarrow> partition \<Rightarrow> u64" where
  "kp_gen p k = (case kp_generations p k of None \<Rightarrow> 0 | Some g \<Rightarrow> g)"

definition kp_activate :: "partition \<Rightarrow> kafka_progress \<Rightarrow> kafka_progress" where
  "kp_activate k p =
     (if kp_active p k \<noteq> None then p
      else let g = kp_gen p k + 1;
               (r, ts) = token_new (kp_tokens p);
               (h, ts) = token_new ts
           in p\<lparr>kp_generations := (kp_generations p)(k \<mapsto> g), kp_tokens := ts,
                kp_active := (kp_active p)(k \<mapsto>
                  \<lparr>pp_generation = g, pp_revoked = r, pp_handoff = h, pp_next = None,
                   pp_received = []\<rparr>)\<rparr>)"

definition kp_revoke :: "partition \<Rightarrow> kafka_progress \<Rightarrow> kafka_progress" where
  "kp_revoke k p =
     (let p = (case kp_active p k of
                 None \<Rightarrow> p
               | Some pp \<Rightarrow> p\<lparr>kp_active := (kp_active p)(k := None),
                             kp_tokens := token_cancel (pp_revoked pp)
                                            (token_cancel (pp_handoff pp) (kp_tokens p))\<rparr>)
      in p\<lparr>kp_generations := (kp_generations p)(k \<mapsto> kp_gen p k + 1)\<rparr>)"

text \<open>\<^verbatim>\<open>revoke_all\<close>; \<open>keys\<close> is the order in which the hash map yields the assigned partitions.\<close>

definition kp_revoke_all :: "partition list \<Rightarrow> kafka_progress \<Rightarrow> kafka_progress" where
  "kp_revoke_all keys p = fold kp_revoke keys p"

definition kp_generation :: "kafka_progress \<Rightarrow> partition \<Rightarrow> u64 option" where
  "kp_generation p k = map_option pp_generation (kp_active p k)"

definition pp_register :: "int \<Rightarrow> partition_progress \<Rightarrow> partition_progress" where
  "pp_register off pp =
     (case pp_next pp of
        Some n \<Rightarrow> if off < n then pp
                 else pp\<lparr>pp_received := om_or_insert off Pending (pp_received pp)\<rparr>
      | None \<Rightarrow> pp\<lparr>pp_next := Some off,
                  pp_received := om_or_insert off Pending (pp_received pp)\<rparr>)"

definition kp_register ::
  "partition \<Rightarrow> u64 \<Rightarrow> int \<Rightarrow> kafka_progress \<Rightarrow> (registered \<times> kafka_progress) option" where
  "kp_register k g off p =
     (case kp_active p k of
        None \<Rightarrow> None
      | Some pp \<Rightarrow>
          if pp_generation pp \<noteq> g \<or> token_is_cancelled (kp_tokens p) (pp_handoff pp) then None
          else Some (\<lparr>reg_generation = g, reg_revoked = pp_revoked pp, reg_handoff = pp_handoff pp\<rparr>,
                     p\<lparr>kp_active := (kp_active p)(k \<mapsto> pp_register off pp)\<rparr>))"

text \<open>
  \<^verbatim>\<open>PartitionProgress::commit_position\<close>: the first registered offset that is not acknowledged, or the
  offset after the last registered one.
\<close>

definition pp_commit_position :: "partition_progress \<Rightarrow> int option" where
  "pp_commit_position pp =
     (case pp_next pp of
        None \<Rightarrow> None
      | Some n \<Rightarrow>
          let candidate =
            (case find (\<lambda>(off, st). st \<noteq> Done) (pp_received pp) of
               Some (off, _) \<Rightarrow> off
             | None \<Rightarrow>
                 (case pp_received pp of
                    [] \<Rightarrow> n
                  | _ \<Rightarrow> i64_wrap (fst (last (pp_received pp)) + 1)))
          in if candidate > n then Some candidate else None)"

definition kp_complete ::
  "u64 \<Rightarrow> partition \<Rightarrow> int \<Rightarrow> kafka_progress \<Rightarrow> (int option outcome) \<times> kafka_progress" where
  "kp_complete g k off p =
     (case kp_active p k of
        None \<Rightarrow> (Inl (Crate (error_msg ''Kafka delivery belongs to a revoked assignment'')), p)
      | Some pp \<Rightarrow>
          if pp_generation pp \<noteq> g
          then (Inl (Crate (error_msg ''Kafka delivery belongs to an expired assignment'')), p)
          else (case pp_next pp of
                  None \<Rightarrow> (Inl (Crate (error_msg ''Kafka partition has no registered delivery'')), p)
                | Some n \<Rightarrow>
                    if off < n then (Inr None, p)
                    else if map_of (pp_received pp) off = None
                    then (Inl (Crate (error_msg ''Kafka offset was never registered'')), p)
                    else let pp = pp\<lparr>pp_received := om_set off Done (pp_received pp)\<rparr>
                         in (Inr (pp_commit_position pp),
                             p\<lparr>kp_active := (kp_active p)(k \<mapsto> pp)\<rparr>)))"

definition kp_release :: "u64 \<Rightarrow> partition \<Rightarrow> int \<Rightarrow> kafka_progress \<Rightarrow> kafka_progress" where
  "kp_release g k off p =
     (case kp_active p k of
        None \<Rightarrow> p
      | Some pp \<Rightarrow>
          if pp_generation pp \<noteq> g then p
          else if map_of (pp_received pp) off = Some Pending
          then p\<lparr>kp_active := (kp_active p)
                   (k \<mapsto> pp\<lparr>pp_received := om_set off Released (pp_received pp)\<rparr>)\<rparr>
          else p)"

definition kp_is_current :: "kafka_progress \<Rightarrow> u64 \<Rightarrow> partition \<Rightarrow> bool" where
  "kp_is_current p g k =
     (case kp_active p k of None \<Rightarrow> False | Some pp \<Rightarrow> pp_generation pp = g)"

definition kp_committed :: "u64 \<Rightarrow> partition \<Rightarrow> int \<Rightarrow> kafka_progress \<Rightarrow> kafka_progress" where
  "kp_committed g k n p =
     (case kp_active p k of
        None \<Rightarrow> p
      | Some pp \<Rightarrow>
          if pp_generation pp \<noteq> g \<or> (case pp_next pp of None \<Rightarrow> True | Some c \<Rightarrow> n \<le> c) then p
          else p\<lparr>kp_active := (kp_active p)
                   (k \<mapsto> pp\<lparr>pp_received := om_retain (\<lambda>off. off \<ge> n) (pp_received pp),
                           pp_next := Some n\<rparr>)\<rparr>)"

fun kp_begin_handoff ::
  "partition list \<Rightarrow> kafka_progress \<Rightarrow> partition list \<times> kafka_progress" where
  "kp_begin_handoff [] p = ([], p)"
| "kp_begin_handoff (k # ks) p =
     (case kp_active p k of
        None \<Rightarrow> kp_begin_handoff ks p
      | Some pp \<Rightarrow>
          (let (handed, p') =
             kp_begin_handoff ks (p\<lparr>kp_tokens := token_cancel (pp_handoff pp) (kp_tokens p)\<rparr>)
           in (k # handed, p')))"

definition kp_settled :: "partition list \<Rightarrow> kafka_progress \<Rightarrow> bool" where
  "kp_settled keys p =
     list_all (\<lambda>k. case kp_active p k of
                     None \<Rightarrow> True
                   | Some pp \<Rightarrow> \<not> list_ex (\<lambda>(off, st). st = Pending) (pp_received pp)) keys"

definition kp_commit_position :: "kafka_progress \<Rightarrow> partition \<Rightarrow> (u64 \<times> int) option" where
  "kp_commit_position p k =
     (case kp_active p k of
        None \<Rightarrow> None
      | Some pp \<Rightarrow> map_option (\<lambda>n. (pp_generation pp, n)) (pp_commit_position pp))"

definition kp_pause :: "partition \<Rightarrow> kafka_progress \<Rightarrow> bool \<times> kafka_progress" where
  "kp_pause k p = (kp_active p k \<noteq> None, p\<lparr>kp_paused := insert k (kp_paused p)\<rparr>)"

definition kp_resume :: "partition \<Rightarrow> kafka_progress \<Rightarrow> bool \<times> kafka_progress" where
  "kp_resume k p = (k \<in> kp_paused p \<and> kp_active p k \<noteq> None, p\<lparr>kp_paused := kp_paused p - {k}\<rparr>)"

text \<open>
  \<^verbatim>\<open>ConsumerContext::post_rebalance\<close> on an assignment: activates every partition and returns the
  ones the consumer must pause again.
\<close>

fun post_rebalance_assign ::
  "partition list \<Rightarrow> kafka_progress \<Rightarrow> partition list \<times> kafka_progress" where
  "post_rebalance_assign [] p = ([], p)"
| "post_rebalance_assign (k # ks) p =
     (let (paused, p') = post_rebalance_assign ks (kp_activate k p)
      in (if k \<in> kp_paused p then k # paused else paused, p'))"

text \<open>The revocation of \<^verbatim>\<open>ConsumerContext::pre_rebalance\<close>, after any handoff.\<close>

definition pre_rebalance_revoke :: "partition list \<Rightarrow> kafka_progress \<Rightarrow> kafka_progress" where
  "pre_rebalance_revoke ks p = fold kp_revoke ks p"

text \<open>The positions \<^verbatim>\<open>hand_off\<close> commits for the handed-off partitions.\<close>

definition hand_off_positions ::
  "partition list \<Rightarrow> kafka_progress \<Rightarrow> (u64 \<times> partition \<times> int) list" where
  "hand_off_positions ks p =
     concat (map (\<lambda>k. case kp_commit_position p k of
                        None \<Rightarrow> [] | Some (g, n) \<Rightarrow> [(g, k, n)]) ks)"

definition committed_all :: "(u64 \<times> partition \<times> int) list \<Rightarrow> kafka_progress \<Rightarrow> kafka_progress" where
  "committed_all cs p = fold (\<lambda>(g, k, n). kp_committed g k n) cs p"

section \<open>Facts about single operations\<close>

text \<open>Kafka offsets count from 0; the successor of the greatest one must still be an \<^verbatim>\<open>i64\<close>.\<close>

definition offset_ok :: "int \<Rightarrow> bool" where
  "offset_ok x \<longleftrightarrow> 0 \<le> x \<and> x < i64_max"

lemma commit_position_Some:
  assumes ok: "om_ok (pp_received pp)" and nxt: "pp_next pp = Some n"
    and range: "\<forall>off st. map_of (pp_received pp) off = Some st \<longrightarrow> n \<le> off \<and> offset_ok off"
    and pos: "pp_commit_position pp = Some c"
  shows "n < c" "map_of (pp_received pp) off = Some st \<Longrightarrow> off < c \<Longrightarrow> st = Done"
    "(\<exists>st. map_of (pp_received pp) c = Some st \<and> st \<noteq> Done) \<or>
     (\<exists>st. map_of (pp_received pp) (c - 1) = Some st) \<and>
     (\<forall>off st. map_of (pp_received pp) off = Some st \<longrightarrow> off < c)"
proof -
  let ?m = "pp_received pp" and ?P = "\<lambda>(off, st). st \<noteq> Done"
  from pos nxt show "n < c" by (auto simp: pp_commit_position_def Let_def split: if_splits)
  have "(map_of ?m off = Some st \<longrightarrow> off < c \<longrightarrow> st = Done) \<and>
    ((\<exists>st. map_of ?m c = Some st \<and> st \<noteq> Done) \<or>
     (\<exists>st. map_of ?m (c - 1) = Some st) \<and> (\<forall>off st. map_of ?m off = Some st \<longrightarrow> off < c))" for off st
  proof (cases "find ?P ?m")
    case (Some a)
    obtain k v where a: "a = (k, v)" by fastforce
    with Some pos nxt have "c = k"
      by (auto simp: pp_commit_position_def Let_def split: if_splits)
    with om.find_least [OF ok Some [unfolded a]] show ?thesis by auto
  next
    case None
    then have ne: "?m \<noteq> []" and cand: "i64_wrap (fst (last ?m) + 1) = c" "n < c"
      using pos nxt by (auto simp: pp_commit_position_def Let_def split: if_splits list.splits)
    from ne have "last ?m \<in> set ?m" by simp
    then obtain w where last: "map_of ?m (fst (last ?m)) = Some w"
      using om.lookup_iff [OF ok, of "fst (last ?m)"] by (metis prod.collapse)
    then have "n \<le> fst (last ?m)" "offset_ok (fst (last ?m))" using range by blast+
    with cand have "c = fst (last ?m) + 1"
      by (auto simp: offset_ok_def)
    with last om.last_greatest [OF ok] om.find_none [OF ok None] show ?thesis
      by force
  qed
  then show "map_of ?m off = Some st \<Longrightarrow> off < c \<Longrightarrow> st = Done"
    "(\<exists>st. map_of ?m c = Some st \<and> st \<noteq> Done) \<or>
     (\<exists>st. map_of ?m (c - 1) = Some st) \<and> (\<forall>off st. map_of ?m off = Some st \<longrightarrow> off < c)"
    by blast+
qed

lemma commit_position_None:
  assumes ok: "om_ok (pp_received pp)" and nxt: "pp_next pp = Some n"
    and range: "\<forall>off st. map_of (pp_received pp) off = Some st \<longrightarrow> n \<le> off \<and> offset_ok off"
    and pos: "pp_commit_position pp = None"
  shows "(\<exists>st. map_of (pp_received pp) n = Some st \<and> st \<noteq> Done) \<or> pp_received pp = []"
proof (cases "find (\<lambda>(off, st). st \<noteq> Done) (pp_received pp)")
  case (Some a)
  obtain k v where a: "a = (k, v)" by fastforce
  with Some pos nxt have "k \<le> n"
    by (auto simp: pp_commit_position_def Let_def split: if_splits)
  moreover note om.find_least [OF ok Some [unfolded a]]
  ultimately show ?thesis using range by fastforce
next
  case None
  show ?thesis
  proof (rule disjI2, rule ccontr)
    assume ne: "pp_received pp \<noteq> []"
    then have "last (pp_received pp) \<in> set (pp_received pp)" by simp
    then obtain w where "map_of (pp_received pp) (fst (last (pp_received pp))) = Some w"
      using om.lookup_iff [OF ok, of "fst (last (pp_received pp))"] by (metis prod.collapse)
    with range have "n \<le> fst (last (pp_received pp)) \<and> offset_ok (fst (last (pp_received pp)))"
      by blast
    then have "n < i64_wrap (fst (last (pp_received pp)) + 1)"
      by (auto simp: offset_ok_def)
    with None nxt pos ne show False
      by (auto simp: pp_commit_position_def Let_def split: if_splits list.splits)
  qed
qed

section \<open>The acknowledgement protocol\<close>

text \<open>
  Deliveries, acknowledgements and commits as the broker sees them: a delivery is a partition, the
  generation it was registered in and its offset. \<open>ks_gate\<close> is the commit in flight under the commit
  gate, \<open>ks_attempts\<close> the positions sent to the broker and \<open>ks_commits\<close> the ones it accepted, both
  in order.
\<close>

type_synonym delivery_id = "partition \<times> u64 \<times> int"

record kafka_sys =
  ks_progress :: kafka_progress
  ks_gate :: "(u64 \<times> partition \<times> int) list option"
  ks_delivered :: "delivery_id list"
  ks_acked :: "delivery_id list"
  ks_attempts :: "delivery_id list"
  ks_commits :: "delivery_id list"

datatype kafka_event =
    KAssign "partition list"
  | KRevoke "partition list"
  | KRegister partition u64 int
  | KAck u64 partition int
  | KCommitted
  | KCommitFailed
  | KDrop u64 partition int
  | KBeginHandoff "partition list"
  | KHandoffCommit "partition list"
  | KPause partition
  | KResume partition

definition commit_ids :: "(u64 \<times> partition \<times> int) list \<Rightarrow> delivery_id list" where
  "commit_ids cs = map (\<lambda>(g, k, c). (k, g, c)) cs"

text \<open>
  A generation bump must not wrap, that is, a partition is rebalanced fewer than \<open>2 ^ 64\<close> times.
\<close>

definition bumpable :: "partition list \<Rightarrow> kafka_progress \<Rightarrow> bool" where
  "bumpable ks p \<longleftrightarrow> distinct ks \<and> list_all (\<lambda>k. kp_gen p k \<noteq> - 1) ks"

text \<open>
  Kafka delivers the records of a partition in offset order: a new delivery is past every earlier
  one of its assignment, and any other is the same record again.
\<close>

definition in_order :: "delivery_id list \<Rightarrow> partition \<Rightarrow> u64 \<Rightarrow> int \<Rightarrow> bool" where
  "in_order D k g off \<longleftrightarrow>
     offset_ok off \<and>
     ((k, g, off) \<in> set D \<or> list_all (\<lambda>(k', g', o'). k' = k \<and> g' = g \<longrightarrow> o' < off) D)"

text \<open>
  Every critical section of the progress mutex is one event. \<open>KAck\<close> is \<^verbatim>\<open>KafkaMessage::ack\<close> up to the
  start of the synchronous commit, which holds the commit gate until \<open>KCommitted\<close> or
  \<open>KCommitFailed\<close>; \<open>KHandoffCommit\<close> takes the same gate. A lost assignment revokes all partitions,
  so it is \<open>KRevoke\<close> of the assigned ones.
\<close>

fun kafka_step :: "kafka_sys \<Rightarrow> kafka_event \<Rightarrow> kafka_sys option" where
  "kafka_step s (KAssign ks) =
     (if bumpable ks (ks_progress s)
      then Some (s\<lparr>ks_progress := snd (post_rebalance_assign ks (ks_progress s))\<rparr>) else None)"
| "kafka_step s (KRevoke ks) =
     (if bumpable ks (ks_progress s)
      then Some (s\<lparr>ks_progress := pre_rebalance_revoke ks (ks_progress s)\<rparr>) else None)"
| "kafka_step s (KRegister k g off) =
     (if in_order (ks_delivered s) k g off
      then (case kp_register k g off (ks_progress s) of
              None \<Rightarrow> Some s
            | Some (r, p) \<Rightarrow>
                Some (s\<lparr>ks_progress := p, ks_delivered := (k, g, off) # ks_delivered s\<rparr>))
      else None)"
| "kafka_step s (KAck g k off) =
     (if ks_gate s = None \<and> (k, g, off) \<in> set (ks_delivered s)
      then (case kp_complete g k off (ks_progress s) of
              (Inl e, p) \<Rightarrow> Some (s\<lparr>ks_progress := p\<rparr>)
            | (Inr None, p) \<Rightarrow>
                Some (s\<lparr>ks_progress := p, ks_acked := (k, g, off) # ks_acked s\<rparr>)
            | (Inr (Some c), p) \<Rightarrow>
                Some (s\<lparr>ks_progress := p, ks_acked := (k, g, off) # ks_acked s,
                        ks_gate := Some [(g, k, c)],
                        ks_attempts := ks_attempts s @ commit_ids [(g, k, c)]\<rparr>))
      else None)"
| "kafka_step s KCommitted =
     (case ks_gate s of
        None \<Rightarrow> None
      | Some cs \<Rightarrow> Some (s\<lparr>ks_progress := committed_all cs (ks_progress s), ks_gate := None,
                         ks_commits := ks_commits s @ commit_ids cs\<rparr>))"
| "kafka_step s KCommitFailed =
     (if ks_gate s = None then None else Some (s\<lparr>ks_gate := None\<rparr>))"
| "kafka_step s (KDrop g k off) =
     (if (k, g, off) \<in> set (ks_delivered s)
      then Some (s\<lparr>ks_progress := kp_release g k off (ks_progress s)\<rparr>) else None)"
| "kafka_step s (KBeginHandoff ks) =
     Some (s\<lparr>ks_progress := snd (kp_begin_handoff ks (ks_progress s))\<rparr>)"
| "kafka_step s (KHandoffCommit ks) =
     (if ks_gate s = None \<and> distinct ks
      then (let cs = hand_off_positions ks (ks_progress s)
            in Some (s\<lparr>ks_gate := Some cs, ks_attempts := ks_attempts s @ commit_ids cs\<rparr>))
      else None)"
| "kafka_step s (KPause k) = Some (s\<lparr>ks_progress := snd (kp_pause k (ks_progress s))\<rparr>)"
| "kafka_step s (KResume k) = Some (s\<lparr>ks_progress := snd (kp_resume k (ks_progress s))\<rparr>)"

definition kafka_new :: kafka_sys where
  "kafka_new = \<lparr>ks_progress = kp_default, ks_gate = None, ks_delivered = [], ks_acked = [],
                ks_attempts = [], ks_commits = []\<rparr>"

definition kafka_init :: "kafka_sys \<Rightarrow> bool" where
  "kafka_init s \<longleftrightarrow> s = kafka_new"

abbreviation kafka_reach :: "kafka_sys \<Rightarrow> bool" where
  "kafka_reach \<equiv> reach kafka_init kafka_step"

section \<open>Invariant\<close>

text \<open>
  One assigned partition, against the deliveries \<open>D\<close> made and the ones acknowledged \<open>A\<close>: the tracked
  offsets are the deliveries at or after the committed position, everything before it is
  acknowledged, and a tracked offset is \<open>Done\<close> exactly when its delivery is acknowledged.
\<close>

definition part_ok ::
  "delivery_id list \<Rightarrow> delivery_id list \<Rightarrow> partition \<Rightarrow> partition_progress \<Rightarrow> bool" where
  "part_ok D A k pp \<longleftrightarrow>
     (let g = pp_generation pp in
      om_ok (pp_received pp) \<and>
      (pp_next pp = None \<longrightarrow> pp_received pp = [] \<and> (\<forall>off. (k, g, off) \<notin> set D)) \<and>
      (\<forall>n. pp_next pp = Some n \<longrightarrow>
         (\<forall>off. map_of (pp_received pp) off \<noteq> None \<longleftrightarrow> (k, g, off) \<in> set D \<and> n \<le> off) \<and>
         (\<forall>off. (k, g, off) \<in> set D \<longrightarrow> off < n \<longrightarrow> (k, g, off) \<in> set A) \<and>
         (\<exists>off. (k, g, off) \<in> set D \<and> n \<le> off + 1)) \<and>
      (\<forall>off st. map_of (pp_received pp) off = Some st \<longrightarrow> (st = Done \<longleftrightarrow> (k, g, off) \<in> set A)))"

text \<open>A position that may be committed: everything delivered before it is acknowledged.\<close>

definition safe_position ::
  "delivery_id list \<Rightarrow> delivery_id list \<Rightarrow> partition \<Rightarrow> u64 \<Rightarrow> int \<Rightarrow> bool" where
  "safe_position D A k g c \<longleftrightarrow>
     (\<forall>off. (k, g, off) \<in> set D \<longrightarrow> off < c \<longrightarrow> (k, g, off) \<in> set A) \<and>
     (\<exists>off. (k, g, off) \<in> set D \<and> c \<le> off + 1)"

definition deliveries_ok ::
  "kafka_progress \<Rightarrow> delivery_id list \<Rightarrow> delivery_id list \<Rightarrow> bool" where
  "deliveries_ok p D A \<longleftrightarrow>
     (\<forall>k pp. kp_active p k = Some pp \<longrightarrow> part_ok D A k pp \<and> pp_generation pp = kp_gen p k) \<and>
     (\<forall>k g off. (k, g, off) \<in> set D \<longrightarrow> g \<le> kp_gen p k \<and> offset_ok off) \<and>
     set A \<subseteq> set D"

definition progress_inv :: "kafka_sys \<Rightarrow> bool" where
  "progress_inv s \<longleftrightarrow>
     deliveries_ok (ks_progress s) (ks_delivered s) (ks_acked s) \<and>
     (\<forall>k g c. (k, g, c) \<in> set (ks_attempts s) \<longrightarrow>
        safe_position (ks_delivered s) (ks_acked s) k g c) \<and>
     (\<forall>cs. ks_gate s = Some cs \<longrightarrow> set (commit_ids cs) \<subseteq> set (ks_attempts s))"

lemma word_bump: "x \<noteq> - 1 \<Longrightarrow> (g::u64) \<le> x \<Longrightarrow> g < x + 1"
proof -
  assume x: "x \<noteq> - 1" and le: "g \<le> x"
  from x have "1 + x \<noteq> 0" by (metis add.commute add_eq_0_iff2)
  then have "unat (x + 1) = Suc (unat x)" by (metis add.commute unatSuc)
  with le show "g < x + 1" by (simp add: word_less_nat_alt word_le_nat_alt)
qed

lemma part_ok_received:
  "part_ok D A k pp \<Longrightarrow> pp_next pp = Some n \<Longrightarrow> map_of (pp_received pp) off = Some st \<Longrightarrow>
     (k, pp_generation pp, off) \<in> set D \<and> n \<le> off"
  by (auto simp: part_ok_def Let_def)

lemma part_ok_tracked:
  "part_ok D A k pp \<Longrightarrow> pp_next pp = Some n \<Longrightarrow>
     map_of (pp_received pp) off \<noteq> None \<longleftrightarrow> (k, pp_generation pp, off) \<in> set D \<and> n \<le> off"
  by (simp add: part_ok_def Let_def)

lemma part_ok_other:
  assumes "part_ok D A k pp" "(k', g') \<noteq> (k, pp_generation pp)"
  shows "part_ok ((k', g', off) # D) A k pp" "part_ok D ((k', g', off) # A) k pp"
  using assms by (auto simp: part_ok_def Let_def)

lemma part_ok_register:
  assumes pp: "part_ok D A k pp" and g: "g = pp_generation pp" and ord: "in_order D k g off"
    and sub: "set A \<subseteq> set D"
  shows "part_ok ((k, g, off) # D) A k (pp_register off pp)"
proof (cases "pp_next pp")
  case None
  with assms show ?thesis
    by (auto simp: part_ok_def pp_register_def Let_def om_ok_def)
next
  case (Some n)
  show ?thesis
  proof (cases "off < n")
    case True
    from pp Some obtain o' where "(k, g, o') \<in> set D" "n \<le> o' + 1"
      by (auto simp: part_ok_def Let_def g)
    with ord True have "(k, g, off) \<in> set D" by (fastforce simp: in_order_def list_all_iff)
    then show ?thesis using pp Some True g
      by (auto simp: part_ok_def pp_register_def Let_def)
  next
    case False
    from pp have "om_ok (pp_received pp)" by (simp add: part_ok_def Let_def)
    moreover have "(k, g, off) \<notin> set A" if "map_of (pp_received pp) off = None"
      using part_ok_tracked [OF pp Some, of off] False g sub that by auto
    ultimately show ?thesis using pp Some False g
      by (auto simp: part_ok_def pp_register_def Let_def map_of_om_or_insert split: option.splits if_splits)
  qed
qed

lemma part_ok_set_done:
  assumes "part_ok D A k pp" "g = pp_generation pp" "map_of (pp_received pp) off \<noteq> None"
  shows "part_ok D ((k, g, off) # A) k (pp\<lparr>pp_received := om_set off Done (pp_received pp)\<rparr>)"
  using assms by (auto simp: part_ok_def Let_def map_of_om_set split: if_splits)

lemma part_ok_release:
  assumes "part_ok D A k pp" "map_of (pp_received pp) off = Some Pending"
  shows "part_ok D A k (pp\<lparr>pp_received := om_set off Released (pp_received pp)\<rparr>)"
  using assms by (auto simp: part_ok_def Let_def map_of_om_set split: if_splits)

lemma part_ok_committed:
  assumes "part_ok D A k pp" "pp_next pp = Some m" "m < n"
    "safe_position D A k (pp_generation pp) n"
  shows "part_ok D A k (pp\<lparr>pp_received := om_retain (\<lambda>off. off \<ge> n) (pp_received pp), pp_next := Some n\<rparr>)"
  using assms by (auto simp: part_ok_def safe_position_def Let_def map_of_om_retain split: if_splits)

lemma part_ok_position:
  assumes pp: "part_ok D A k pp" and D: "\<And>off. (k, pp_generation pp, off) \<in> set D \<Longrightarrow> offset_ok off"
    and c: "pp_commit_position pp = Some c"
  shows "safe_position D A k (pp_generation pp) c"
proof -
  from c obtain n where n: "pp_next pp = Some n"
    by (auto simp: pp_commit_position_def split: option.splits)
  have ok: "om_ok (pp_received pp)" using pp by (simp add: part_ok_def Let_def)
  have r: "\<forall>off st. map_of (pp_received pp) off = Some st \<longrightarrow> n \<le> off \<and> offset_ok off"
    using part_ok_received [OF pp n] D by blast
  note pos = commit_position_Some [OF ok n r c]
  have "(k, pp_generation pp, off) \<in> set A" if "(k, pp_generation pp, off) \<in> set D" "off < c" for off
  proof (cases "off < n")
    case True
    with pp n that show ?thesis by (auto simp: part_ok_def Let_def)
  next
    case False
    with pp n that obtain st where "map_of (pp_received pp) off = Some st"
      by (fastforce simp: part_ok_def Let_def)
    with pos(2) [OF this that(2)] pp show ?thesis by (auto simp: part_ok_def Let_def)
  qed
  moreover have "\<exists>off. (k, pp_generation pp, off) \<in> set D \<and> c \<le> off + 1"
  proof (cases "\<exists>st. map_of (pp_received pp) c = Some st")
    case True
    with part_ok_received [OF pp n] show ?thesis by (intro exI [of _ c]) auto
  next
    case False
    with pos(3) part_ok_received [OF pp n] show ?thesis by (intro exI [of _ "c - 1"]) auto
  qed
  ultimately show ?thesis by (simp add: safe_position_def)
qed

lemma kp_activate_simps [simp]:
  "kp_gen (kp_activate k p) j = (if j = k \<and> kp_active p k = None then kp_gen p k + 1 else kp_gen p j)"
  "kp_active p k \<noteq> None \<Longrightarrow> kp_activate k p = p"
  "j \<noteq> k \<Longrightarrow> kp_active (kp_activate k p) j = kp_active p j"
  "kp_paused (kp_activate k p) = kp_paused p"
  by (auto simp: kp_activate_def kp_gen_def token_new_def Let_def)

lemma kp_active_activate_new:
  "kp_active p k = None \<Longrightarrow> kp_active (kp_activate k p) k =
     Some \<lparr>pp_generation = kp_gen p k + 1, pp_revoked = tok_next (kp_tokens p),
           pp_handoff = Suc (tok_next (kp_tokens p)), pp_next = None, pp_received = []\<rparr>"
  by (simp add: kp_activate_def token_new_def Let_def)

lemma kp_revoke_simps [simp]:
  "kp_gen (kp_revoke k p) j = (if j = k then kp_gen p k + 1 else kp_gen p j)"
  "kp_active (kp_revoke k p) j = (if j = k then None else kp_active p j)"
  "kp_paused (kp_revoke k p) = kp_paused p"
  by (auto simp: kp_revoke_def kp_gen_def Let_def split: option.splits)

lemma deliveries_ok_gen:
  "deliveries_ok p D A \<Longrightarrow> (k, g, off) \<in> set D \<Longrightarrow> g \<le> kp_gen p k \<and> offset_ok off"
  unfolding deliveries_ok_def by blast

lemma deliveries_ok_part:
  "deliveries_ok p D A \<Longrightarrow> kp_active p k = Some pp \<Longrightarrow>
     part_ok D A k pp \<and> pp_generation pp = kp_gen p k"
  unfolding deliveries_ok_def by blast

lemma deliveries_ok_activate [inv_intros]:
  assumes ok: "deliveries_ok p D A" and bump: "kp_gen p k \<noteq> - 1"
  shows "deliveries_ok (kp_activate k p) D A"
proof (cases "kp_active p k")
  case None
  have fresh: "(k, kp_gen p k + 1, off) \<notin> set D" for off
    using deliveries_ok_gen [OF ok] word_bump [OF bump] by (metis less_irrefl)
  have mono: "g \<le> kp_gen (kp_activate k p) j" if "(j, g, off) \<in> set D" for j g off
    using deliveries_ok_gen [OF ok that] word_bump [OF bump, of g] None by auto
  have "part_ok D A j pp \<and> pp_generation pp = kp_gen (kp_activate k p) j"
    if "kp_active (kp_activate k p) j = Some pp" for j pp
  proof (cases "j = k")
    case True
    with that None fresh show ?thesis
      by (auto simp: kp_active_activate_new part_ok_def om_ok_def)
  next
    case False
    with that deliveries_ok_part [OF ok, of j pp] show ?thesis by simp
  qed
  with mono ok show ?thesis by (auto simp: deliveries_ok_def)
qed (use ok in simp)

lemma deliveries_ok_revoke [inv_intros]:
  assumes ok: "deliveries_ok p D A" and bump: "kp_gen p k \<noteq> - 1"
  shows "deliveries_ok (kp_revoke k p) D A"
  using ok word_bump [OF bump] by (fastforce simp: deliveries_ok_def intro: less_imp_le)

lemma bumpable_Cons:
  assumes "bumpable (k # ks) p"
  shows "kp_gen p k \<noteq> - 1" "bumpable ks (kp_activate k p)" "bumpable ks (kp_revoke k p)"
  using assms by (auto simp: bumpable_def list_all_iff)

lemma deliveries_ok_assign [inv_intros]:
  "deliveries_ok p D A \<Longrightarrow> bumpable ks p \<Longrightarrow> deliveries_ok (snd (post_rebalance_assign ks p)) D A"
proof (induction ks arbitrary: p)
  case (Cons k ks)
  from Cons.IH [OF deliveries_ok_activate] bumpable_Cons [OF Cons.prems(2)] Cons.prems(1)
  show ?case by (simp add: case_prod_beta)
qed simp

lemma deliveries_ok_revokes [inv_intros]:
  "deliveries_ok p D A \<Longrightarrow> bumpable ks p \<Longrightarrow> deliveries_ok (fold kp_revoke ks p) D A"
proof (induction ks arbitrary: p)
  case (Cons k ks)
  from Cons.IH [OF deliveries_ok_revoke] bumpable_Cons [OF Cons.prems(2)] Cons.prems(1)
  show ?case by simp
qed simp

text \<open>An operation that replaces the progress of one assigned partition.\<close>

lemma deliveries_ok_update:
  assumes ok: "deliveries_ok p D A"
    and gen: "kp_active p k = Some pp" "pp_generation pp' = pp_generation pp"
    and part: "part_ok D' A' k pp'"
    and D: "set D' \<subseteq> insert (k, pp_generation pp, off) (set D)" "offset_ok off"
    and other: "\<And>j qq. j \<noteq> k \<Longrightarrow> part_ok D A j qq \<Longrightarrow> part_ok D' A' j qq" and sub: "set A' \<subseteq> set D'"
  shows "deliveries_ok (p\<lparr>kp_active := (kp_active p)(k \<mapsto> pp')\<rparr>) D' A'"
proof -
  have [simp]: "kp_gen (p\<lparr>kp_active := m\<rparr>) j = kp_gen p j" for m j by (simp add: kp_gen_def)
  have "g \<le> kp_gen p j \<and> offset_ok i" if "(j, g, i) \<in> set D'" for j g i
    using that D deliveries_ok_gen [OF ok, of j g i] deliveries_ok_part [OF ok gen(1)] by auto
  then show ?thesis
    using deliveries_ok_part [OF ok] gen part other sub by (auto simp: deliveries_ok_def)
qed

lemma deliveries_ok_register [inv_intros]:
  assumes ok: "deliveries_ok p D A" and ord: "in_order D k g off"
    and reg: "kp_register k g off p = Some (r, p')"
  shows "deliveries_ok p' ((k, g, off) # D) A"
proof -
  from reg obtain pp where pp: "kp_active p k = Some pp" "g = pp_generation pp"
    and p': "p' = p\<lparr>kp_active := (kp_active p)(k \<mapsto> pp_register off pp)\<rparr>"
    by (auto simp: kp_register_def split: option.splits if_splits)
  have sub: "set A \<subseteq> set D" using ok by (simp add: deliveries_ok_def)
  have part: "part_ok ((k, g, off) # D) A k (pp_register off pp)"
    using part_ok_register [OF _ pp(2) ord sub] deliveries_ok_part [OF ok pp(1)] by blast
  show ?thesis unfolding p'
    by (rule deliveries_ok_update [OF ok pp(1) _ part, where off = off])
      (use pp ord sub in \<open>auto simp: pp_register_def in_order_def intro: part_ok_other split: option.splits\<close>)
qed

lemma deliveries_ok_release [inv_intros]:
  assumes ok: "deliveries_ok p D A"
  shows "deliveries_ok (kp_release g k off p) D A"
proof (cases "\<exists>pp. kp_active p k = Some pp \<and> pp_generation pp = g \<and>
    map_of (pp_received pp) off = Some Pending")
  case True
  then obtain pp where pp: "kp_active p k = Some pp" "pp_generation pp = g"
    "map_of (pp_received pp) off = Some Pending" by blast
  have part: "part_ok D A k (pp\<lparr>pp_received := om_set off Released (pp_received pp)\<rparr>)"
    using part_ok_release [OF _ pp(3)] deliveries_ok_part [OF ok pp(1)] by blast
  have "deliveries_ok (p\<lparr>kp_active := (kp_active p)
      (k \<mapsto> pp\<lparr>pp_received := om_set off Released (pp_received pp)\<rparr>)\<rparr>) D A"
    by (rule deliveries_ok_update [OF ok pp(1) _ part, where off = 0])
      (use ok in \<open>auto simp: deliveries_ok_def offset_ok_def i64_max_def\<close>)
  with pp show ?thesis by (simp add: kp_release_def)
next
  case False
  then have "kp_release g k off p = p" by (auto simp: kp_release_def split: option.splits)
  with ok show ?thesis by simp
qed

lemma deliveries_ok_committed [inv_intros]:
  assumes ok: "deliveries_ok p D A" and safe: "safe_position D A k g n"
  shows "deliveries_ok (kp_committed g k n p) D A"
proof (cases "\<exists>pp c. kp_active p k = Some pp \<and> pp_generation pp = g \<and> pp_next pp = Some c \<and> c < n")
  case True
  then obtain pp c where pp: "kp_active p k = Some pp" "pp_generation pp = g" "pp_next pp = Some c"
    "c < n" by blast
  let ?pp = "pp\<lparr>pp_received := om_retain (\<lambda>off. off \<ge> n) (pp_received pp), pp_next := Some n\<rparr>"
  have part: "part_ok D A k ?pp"
    using part_ok_committed [OF _ pp(3,4)] deliveries_ok_part [OF ok pp(1)] safe pp(2) by blast
  have "deliveries_ok (p\<lparr>kp_active := (kp_active p)(k \<mapsto> ?pp)\<rparr>) D A"
    by (rule deliveries_ok_update [OF ok pp(1) _ part, where off = 0])
      (use ok in \<open>auto simp: deliveries_ok_def offset_ok_def i64_max_def\<close>)
  with pp show ?thesis by (simp add: kp_committed_def)
next
  case False
  then have "kp_committed g k n p = p"
    by (auto simp: kp_committed_def split: option.splits)
  with ok show ?thesis by simp
qed

lemma deliveries_ok_committed_all [inv_intros]:
  "deliveries_ok p D A \<Longrightarrow> \<forall>(k, g, n) \<in> set (commit_ids cs). safe_position D A k g n \<Longrightarrow>
     deliveries_ok (committed_all cs p) D A"
  by (induction cs arbitrary: p)
    (auto simp: committed_all_def commit_ids_def intro: deliveries_ok_committed)

lemma deliveries_ok_cong:
  assumes "deliveries_ok p D A" "kp_active q = kp_active p" "kp_generations q = kp_generations p"
  shows "deliveries_ok q D A"
  using assms by (simp add: deliveries_ok_def kp_gen_def)

lemma begin_handoff_frame [simp]:
  "kp_active (snd (kp_begin_handoff ks p)) = kp_active p"
  "kp_generations (snd (kp_begin_handoff ks p)) = kp_generations p"
  "kp_paused (snd (kp_begin_handoff ks p)) = kp_paused p"
  by (induction ks p rule: kp_begin_handoff.induct) (auto simp: case_prod_beta split: option.splits)

lemma pause_resume_frame [simp]:
  "kp_active (snd (kp_pause k p)) = kp_active p" "kp_active (snd (kp_resume k p)) = kp_active p"
  "kp_generations (snd (kp_pause k p)) = kp_generations p"
  "kp_generations (snd (kp_resume k p)) = kp_generations p"
  by (simp_all add: kp_pause_def kp_resume_def)

lemma safe_position_register:
  "safe_position D A k g c \<Longrightarrow> in_order D k' g' off \<Longrightarrow> safe_position ((k', g', off) # D) A k g c"
  by (fastforce simp: safe_position_def in_order_def list_all_iff)

lemma safe_position_ack: "safe_position D A k g c \<Longrightarrow> safe_position D (a # A) k g c"
  by (auto simp: safe_position_def)

text \<open>What an acknowledgement does, on each of its outcomes.\<close>

lemma kp_complete_cases:
  assumes ok: "deliveries_ok p D A" and del: "(k, g, off) \<in> set D"
    and comp: "kp_complete g k off p = (r, p')"
  shows "(case r of
      Inl e \<Rightarrow> p' = p \<and> \<not> kp_is_current p g k
    | Inr pos \<Rightarrow> kp_is_current p g k \<and> deliveries_ok p' D ((k, g, off) # A) \<and>
        (\<forall>c. pos = Some c \<longrightarrow> kp_commit_position p' k = Some (g, c)))"
proof (cases "kp_active p k")
  case None
  with comp show ?thesis by (auto simp: kp_complete_def kp_is_current_def)
next
  case (Some pp)
  note part = deliveries_ok_part [OF ok Some]
  have sub: "set A \<subseteq> set D" using ok by (simp add: deliveries_ok_def)
  show ?thesis
  proof (cases "pp_generation pp = g")
    case False
    with Some comp show ?thesis by (auto simp: kp_complete_def kp_is_current_def)
  next
    case g: True
    with part del obtain n where n: "pp_next pp = Some n"
      by (cases "pp_next pp") (auto simp: part_ok_def Let_def)
    show ?thesis
    proof (cases "off < n")
      case True
      with part n del g have "(k, g, off) \<in> set A" by (auto simp: part_ok_def Let_def)
      then have A: "set ((k, g, off) # A) = set A" by auto
      have "deliveries_ok p D ((k, g, off) # A)"
        using ok unfolding deliveries_ok_def part_ok_def Let_def A by blast
      with Some g n True comp show ?thesis by (auto simp: kp_complete_def kp_is_current_def)
    next
      case False
      with part_ok_tracked [OF conjunct1 [OF part] n] del g
      have m: "map_of (pp_received pp) off \<noteq> None" by auto
      let ?pp = "pp\<lparr>pp_received := om_set off Done (pp_received pp)\<rparr>"
      have "deliveries_ok (p\<lparr>kp_active := (kp_active p)(k \<mapsto> ?pp)\<rparr>) D ((k, g, off) # A)"
        by (rule deliveries_ok_update [OF ok Some _ part_ok_set_done, where off = 0])
          (use part g m sub del in \<open>auto simp: offset_ok_def i64_max_def intro: part_ok_other\<close>)
      with Some g n False comp m show ?thesis
        by (auto simp: kp_complete_def kp_is_current_def kp_commit_position_def Let_def)
    qed
  qed
qed

lemma kp_commit_position_safe:
  assumes ok: "deliveries_ok p D A" and pos: "kp_commit_position p k = Some (g, c)"
  shows "safe_position D A k g c"
proof -
  from pos obtain pp where "kp_active p k = Some pp" "g = pp_generation pp" "pp_commit_position pp = Some c"
    by (auto simp: kp_commit_position_def split: option.splits)
  with part_ok_position deliveries_ok_part [OF ok] deliveries_ok_gen [OF ok] show ?thesis by blast
qed

lemma hand_off_positions_iff:
  "(g, k, c) \<in> set (hand_off_positions ks p) \<longleftrightarrow> k \<in> set ks \<and> kp_commit_position p k = Some (g, c)"
  by (force simp: hand_off_positions_def split: option.splits)

lemma commit_ids_iff: "(k, g, c) \<in> set (commit_ids cs) \<longleftrightarrow> (g, k, c) \<in> set cs"
  by (force simp: commit_ids_def)

lemma progress_inv_step:
  assumes inv: "progress_inv s" and step: "kafka_step s e = Some s'"
  shows "progress_inv s'"
proof -
  note ok = inv [unfolded progress_inv_def, THEN conjunct1]
  have att: "(k, g, c) \<in> set (ks_attempts s) \<Longrightarrow> safe_position (ks_delivered s) (ks_acked s) k g c" for k g c
    using inv unfolding progress_inv_def by blast
  show ?thesis
  proof (cases e)
    case (KAck g k off)
    with step have del: "(k, g, off) \<in> set (ks_delivered s)" and gate: "ks_gate s = None"
      by (auto split: if_splits)
    obtain r p' where comp: "kp_complete g k off (ks_progress s) = (r, p')" by fastforce
    note cs = kp_complete_cases [OF ok del comp] and att' = safe_position_ack [OF att, where a = "(k, g, off)"]
    show ?thesis
    proof (cases r)
      case (Inl err)
      with cs step KAck comp gate del inv show ?thesis by auto
    next
      case (Inr pos)
      with cs have ok': "deliveries_ok p' (ks_delivered s) ((k, g, off) # ks_acked s)" by simp
      show ?thesis
      proof (cases pos)
        case None
        with step KAck comp gate del Inr ok' att' show ?thesis
          by (auto simp: progress_inv_def)
      next
        case (Some c)
        with cs Inr have "kp_commit_position p' k = Some (g, c)" by simp
        from kp_commit_position_safe [OF ok' this] Some step KAck comp gate del Inr ok' att'
        show ?thesis by (auto simp: progress_inv_def commit_ids_def)
      qed
    qed
  next
    case (KRegister k g off)
    with step have ord: "in_order (ks_delivered s) k g off" by (auto split: if_splits)
    show ?thesis
    proof (cases "kp_register k g off (ks_progress s)")
      case None
      with step KRegister ord inv show ?thesis by simp
    next
      case (Some rp)
      with step KRegister ord deliveries_ok_register [OF ok ord] safe_position_register [OF att ord] inv
      show ?thesis by (cases rp) (auto simp: progress_inv_def)
    qed
  next
    case (KHandoffCommit ks)
    with step inv kp_commit_position_safe [OF ok] show ?thesis
      by (auto simp: progress_inv_def Let_def hand_off_positions_iff commit_ids_iff split: if_splits)
  next
    case KCommitted
    with step inv show ?thesis
      by (fastforce simp: progress_inv_def split: option.splits intro!: deliveries_ok_committed_all)
  qed (use step inv in \<open>auto simp: progress_inv_def pre_rebalance_revoke_def
        intro: inv_intros deliveries_ok_cong split: if_splits\<close>)
qed

text \<open>The generation and committed position of an assigned partition.\<close>

definition cursor :: "kafka_progress \<Rightarrow> partition \<Rightarrow> (u64 \<times> int option) option" where
  "cursor p k = map_option (\<lambda>pp. (pp_generation pp, pp_next pp)) (kp_active p k)"

definition cursor_below :: "kafka_progress \<Rightarrow> delivery_id \<Rightarrow> bool" where
  "cursor_below p = (\<lambda>(k, g, c). \<forall>n. cursor p k = Some (g, Some n) \<longrightarrow> n < c)"

definition cursor_reached :: "kafka_progress \<Rightarrow> delivery_id \<Rightarrow> bool" where
  "cursor_reached p = (\<lambda>(k, g, c). \<forall>x. cursor p k = Some (g, x) \<longrightarrow> (\<exists>n. x = Some n \<and> c \<le> n))"

definition later_commit :: "delivery_id \<Rightarrow> delivery_id \<Rightarrow> bool" where
  "later_commit = (\<lambda>(k, g, c) (k', g', c'). k = k' \<longrightarrow> g = g' \<longrightarrow> c < c')"

definition commit_order_inv :: "kafka_sys \<Rightarrow> bool" where
  "commit_order_inv s \<longleftrightarrow>
     set (ks_commits s) \<subseteq> set (ks_attempts s) \<and> sorted_wrt later_commit (ks_commits s) \<and>
     (\<forall>x \<in> set (ks_commits s). cursor_reached (ks_progress s) x) \<and>
     (\<forall>cs. ks_gate s = Some cs \<longrightarrow>
        sorted_wrt later_commit (commit_ids cs) \<and>
        (\<forall>y \<in> set (commit_ids cs). cursor_below (ks_progress s) y \<and>
           (\<forall>x \<in> set (ks_commits s). later_commit x y)))"

lemma cursor_frame:
  "cursor (kp_release g k off p) = cursor p"
  "cursor (snd (kp_complete g k off p)) = cursor p"
  "cursor (snd (kp_begin_handoff ks p)) = cursor p"
  "cursor (snd (kp_pause k p)) = cursor p" "cursor (snd (kp_resume k p)) = cursor p"
  by (auto simp: fun_eq_iff cursor_def kp_release_def kp_complete_def Let_def split: option.splits)

lemma cursor_revokes: "cursor (fold kp_revoke ks p) k = (if k \<in> set ks then None else cursor p k)"
  by (induction ks arbitrary: p) (auto simp: cursor_def)

lemma cursor_assign:
  "bumpable ks p \<Longrightarrow> cursor (snd (post_rebalance_assign ks p)) k =
     (if k \<in> set ks \<and> cursor p k = None then Some (kp_gen p k + 1, None) else cursor p k)"
proof (induction ks arbitrary: p)
  case (Cons j ks)
  note b = bumpable_Cons [OF Cons.prems]
  have "cursor (kp_activate j p) k =
    (if k = j \<and> cursor p k = None then Some (kp_gen p k + 1, None) else cursor p k)"
    by (cases "kp_active p j") (auto simp: cursor_def kp_active_activate_new)
  with Cons.IH [OF b(2)] Cons.prems show ?case
    by (auto simp: case_prod_beta bumpable_def cursor_def)
qed simp

lemma cursor_register:
  "kp_register k g off p = Some (r, p') \<Longrightarrow> cursor p' j =
     (if j = k \<and> cursor p k = Some (g, None) then Some (g, Some off) else cursor p j)"
  by (auto simp: cursor_def kp_register_def pp_register_def split: option.splits if_splits)

lemma cursor_committed:
  "cursor (kp_committed g k c p) j =
     (if j = k \<and> (\<exists>n. cursor p k = Some (g, Some n) \<and> n < c) then Some (g, Some c) else cursor p j)"
  by (auto simp: cursor_def kp_committed_def split: option.splits)

lemma cursor_delivered:
  assumes "deliveries_ok p D A" "(k, g, off) \<in> set D"
  shows "cursor p k \<noteq> Some (g, None)"
  using deliveries_ok_part [OF assms(1), of k] assms(2)
  by (auto simp: cursor_def part_ok_def Let_def)

lemma cursor_reached_committed_all:
  "cursor_reached p x \<Longrightarrow> cursor_reached (committed_all cs p) x"
proof (induction cs arbitrary: p)
  case (Cons y cs)
  obtain g k c where y: "y = (g, k, c)" by (rule prod_cases3)
  obtain j h d where x: "x = (j, h, d)" by (rule prod_cases3)
  have "cursor_reached (kp_committed g k c p) x"
    using Cons.prems by (auto simp: x cursor_reached_def cursor_committed split: if_splits)
  from Cons.IH [OF this] show ?case by (simp add: committed_all_def y)
qed (simp add: committed_all_def)

lemma cursor_reached_committed:
  "\<forall>(g, k, c) \<in> set cs. cursor p k \<noteq> Some (g, None) \<Longrightarrow> (h, j, d) \<in> set cs \<Longrightarrow>
     cursor_reached (committed_all cs p) (j, h, d)"
proof (induction cs arbitrary: p)
  case (Cons y cs)
  obtain g k c where y: "y = (g, k, c)" by (rule prod_cases3)
  show ?case
  proof (cases "(h, j, d) = y")
    case True
    have "cursor p k \<noteq> Some (g, None)" using Cons.prems(1) by (simp add: y)
    with True have "cursor_reached (kp_committed g k c p) (j, h, d)"
      by (auto simp: y cursor_reached_def cursor_committed)
    from cursor_reached_committed_all [OF this] show ?thesis by (simp add: committed_all_def y)
  next
    case False
    with Cons.prems(2) have "(h, j, d) \<in> set cs" by simp
    moreover have "\<forall>(g', k', c') \<in> set cs. cursor (kp_committed g k c p) k' \<noteq> Some (g', None)"
      using Cons.prems(1) by (auto simp: cursor_committed split: if_splits)
    ultimately show ?thesis using Cons.IH by (simp add: committed_all_def y)
  qed
qed simp

lemma commit_position_cursor:
  "kp_commit_position p k = Some (g, c) \<Longrightarrow> \<exists>n. cursor p k = Some (g, Some n) \<and> n < c"
  by (auto simp: kp_commit_position_def pp_commit_position_def cursor_def Let_def
      split: option.splits if_splits)

lemma hand_off_positions_sorted:
  assumes "distinct ks"
  shows "sorted_wrt later_commit (commit_ids (hand_off_positions ks p))"
  using assms
proof (induction ks)
  case (Cons k ks)
  have "later_commit (k, g, c) y" if "y \<in> set (commit_ids (hand_off_positions ks p))" for g c y
  proof -
    obtain j h d where y: "y = (j, h, d)" by (rule prod_cases3)
    with that have "j \<in> set ks" by (simp add: commit_ids_iff hand_off_positions_iff)
    with Cons.prems show ?thesis by (auto simp: later_commit_def y)
  qed
  with Cons show ?case
    by (auto simp: hand_off_positions_def commit_ids_def split: option.splits)
qed (simp add: hand_off_positions_def commit_ids_def)

lemma commit_order_inv_cursor:
  assumes "commit_order_inv s" "cursor (ks_progress s') = cursor (ks_progress s)"
    "ks_gate s' = ks_gate s" "ks_commits s' = ks_commits s" "set (ks_attempts s) \<subseteq> set (ks_attempts s')"
  shows "commit_order_inv s'"
  using assms by (auto simp: commit_order_inv_def cursor_reached_def cursor_below_def)

text \<open>Opening a commit under the gate, when the positions are commit positions of the progress.\<close>

lemma commit_order_inv_open:
  assumes ord: "commit_order_inv s" and cur: "cursor (ks_progress s') = cursor (ks_progress s)"
    and upd: "ks_gate s' = Some cs" "ks_commits s' = ks_commits s"
      "set (ks_attempts s) \<subseteq> set (ks_attempts s')"
    and pos: "\<And>g k c. (g, k, c) \<in> set cs \<Longrightarrow> kp_commit_position (ks_progress s') k = Some (g, c)"
    and sorted: "sorted_wrt later_commit (commit_ids cs)"
  shows "commit_order_inv s'"
proof -
  have *: "\<exists>n. cursor (ks_progress s) k = Some (g, Some n) \<and> n < c" if "(k, g, c) \<in> set (commit_ids cs)" for k g c
    using commit_position_cursor [OF pos, of g k c] that cur by (simp add: commit_ids_iff)
  have "cursor_below (ks_progress s') y \<and> (\<forall>x \<in> set (ks_commits s). later_commit x y)"
    if "y \<in> set (commit_ids cs)" for y
  proof -
    obtain k g c where y: "y = (k, g, c)" by (rule prod_cases3)
    with that * obtain n where n: "cursor (ks_progress s) k = Some (g, Some n)" "n < c" by blast
    have "later_commit x y" if x: "x \<in> set (ks_commits s)" for x
    proof -
      obtain j h d where xe: "x = (j, h, d)" by (rule prod_cases3)
      from ord x have "cursor_reached (ks_progress s) x" by (simp add: commit_order_inv_def)
      with n show ?thesis by (auto simp: xe y later_commit_def cursor_reached_def)
    qed
    with n cur show ?thesis by (auto simp: y cursor_below_def)
  qed
  with ord cur upd sorted show ?thesis
    by (auto simp: commit_order_inv_def cursor_reached_def)
qed

text \<open>
  Any other change of the cursors: a delivered assignment keeps its position, so recorded commits
  and the commit in flight stay where they were.
\<close>

lemma commit_order_inv_move:
  assumes ord: "commit_order_inv s" and upd: "ks_gate s' = ks_gate s" "ks_commits s' = ks_commits s"
      "ks_attempts s' = ks_attempts s"
    and gate: "\<And>cs. ks_gate s = Some cs \<Longrightarrow> set (commit_ids cs) \<subseteq> set (ks_attempts s)"
    and cur: "\<And>k g c. (k, g, c) \<in> set (ks_attempts s) \<Longrightarrow>
      cursor (ks_progress s') k = cursor (ks_progress s) k \<or> (\<forall>x. cursor (ks_progress s') k \<noteq> Some (g, x))"
  shows "commit_order_inv s'"
proof -
  have "cursor_reached (ks_progress s') x" if "x \<in> set (ks_commits s)" for x
  proof -
    obtain k g c where x: "x = (k, g, c)" by (rule prod_cases3)
    have "x \<in> set (ks_attempts s)" "cursor_reached (ks_progress s) x"
      using that ord by (auto simp: commit_order_inv_def)
    with cur [of k g c] show ?thesis by (auto simp: x cursor_reached_def)
  qed
  moreover have "cursor_below (ks_progress s') y"
    if "ks_gate s = Some cs" "y \<in> set (commit_ids cs)" for cs y
  proof -
    obtain k g c where y: "y = (k, g, c)" by (rule prod_cases3)
    have "y \<in> set (ks_attempts s)" "cursor_below (ks_progress s) y"
      using that ord gate by (auto simp: commit_order_inv_def)
    with cur [of k g c] show ?thesis by (auto simp: y cursor_below_def)
  qed
  ultimately show ?thesis using ord upd by (simp add: commit_order_inv_def)
qed

lemma commit_order_inv_commit:
  assumes ord: "commit_order_inv s" and gate: "ks_gate s = Some cs"
    and del: "\<And>k g c. (g, k, c) \<in> set cs \<Longrightarrow> cursor (ks_progress s) k \<noteq> Some (g, None)"
    and att: "set (commit_ids cs) \<subseteq> set (ks_attempts s)"
  shows "commit_order_inv (s\<lparr>ks_progress := committed_all cs (ks_progress s), ks_gate := None,
                       ks_commits := ks_commits s @ commit_ids cs\<rparr>)"
proof -
  have "cursor_reached (committed_all cs (ks_progress s)) x" if "x \<in> set (commit_ids cs)" for x
  proof -
    obtain k g c where x: "x = (k, g, c)" by (rule prod_cases3)
    have "\<forall>(g, k, c) \<in> set cs. cursor (ks_progress s) k \<noteq> Some (g, None)" using del by blast
    from cursor_reached_committed [OF this] that show ?thesis by (simp add: x commit_ids_iff)
  qed
  with ord gate att show ?thesis
    by (simp add: commit_order_inv_def sorted_wrt_append cursor_reached_committed_all ball_Un)
qed

lemma attempt_delivered:
  assumes inv: "progress_inv s" and att: "(k, g, c) \<in> set (ks_attempts s)"
  shows "cursor (ks_progress s) k \<noteq> Some (g, None)" "g \<le> kp_gen (ks_progress s) k"
proof -
  have ok: "deliveries_ok (ks_progress s) (ks_delivered s) (ks_acked s)"
    and "safe_position (ks_delivered s) (ks_acked s) k g c"
    using inv att unfolding progress_inv_def by blast+
  then obtain off where "(k, g, off) \<in> set (ks_delivered s)" by (auto simp: safe_position_def)
  with cursor_delivered [OF ok this] deliveries_ok_gen [OF ok this]
  show "cursor (ks_progress s) k \<noteq> Some (g, None)" "g \<le> kp_gen (ks_progress s) k" by auto
qed

lemma commit_order_inv_step:
  assumes inv: "progress_inv s" and ord: "commit_order_inv s" and step: "kafka_step s e = Some s'"
  shows "commit_order_inv s'"
proof -
  note ok = inv [unfolded progress_inv_def, THEN conjunct1]
  have gate: "ks_gate s = Some cs \<Longrightarrow> set (commit_ids cs) \<subseteq> set (ks_attempts s)" for cs
    using inv unfolding progress_inv_def by blast
  note att = attempt_delivered [OF inv]
  show ?thesis
  proof (cases e)
    case (KAssign ks)
    with step have b: "bumpable ks (ks_progress s)"
      and s': "s' = s\<lparr>ks_progress := snd (post_rebalance_assign ks (ks_progress s))\<rparr>"
      by (auto split: if_splits)
    show ?thesis
    proof (rule commit_order_inv_move [OF ord _ _ _ gate])
      fix k g c assume "(k, g, c) \<in> set (ks_attempts s)"
      then show "cursor (ks_progress s') k = cursor (ks_progress s) k \<or>
          (\<forall>x. cursor (ks_progress s') k \<noteq> Some (g, x))"
        using att(2) [of k g c] word_bump [of "kp_gen (ks_progress s) k" g] b
        by (auto simp: s' cursor_assign bumpable_def list_all_iff)
    qed (simp_all add: s')
  next
    case (KRevoke ks)
    with step show ?thesis
      by (intro commit_order_inv_move [OF ord _ _ _ gate])
        (auto simp: pre_rebalance_revoke_def cursor_revokes split: if_splits)
  next
    case (KRegister k g off)
    with step consider "s' = s"
      | r p' where "kp_register k g off (ks_progress s) = Some (r, p')"
          "s' = s\<lparr>ks_progress := p', ks_delivered := (k, g, off) # ks_delivered s\<rparr>"
      by (auto split: option.splits if_splits)
    then show ?thesis
    proof cases
      case 2
      then show ?thesis
        by (intro commit_order_inv_move [OF ord _ _ _ gate])
          (auto simp: cursor_register dest: att(1))
    qed (use ord in simp)
  next
    case (KAck g k off)
    with step have del: "(k, g, off) \<in> set (ks_delivered s)" by (auto split: if_splits)
    obtain r p' where comp: "kp_complete g k off (ks_progress s) = (r, p')" by fastforce
    note cs = kp_complete_cases [OF ok del comp] and cur = cursor_frame(2) [of g k off "ks_progress s"]
    show ?thesis
    proof (cases "\<exists>c. r = Inr (Some c)")
      case True
      then obtain c where "r = Inr (Some c)" by blast
      with cs step KAck comp cur show ?thesis
        by (intro commit_order_inv_open [OF ord, where cs = "[(g, k, c)]"])
          (auto simp: commit_ids_def split: if_splits)
    next
      case False
      with step KAck comp cur show ?thesis
        by (intro commit_order_inv_cursor [OF ord]) (auto split: if_splits sum.splits option.splits)
    qed
  next
    case (KHandoffCommit ks)
    with step show ?thesis
      by (intro commit_order_inv_open [OF ord, where cs = "hand_off_positions ks (ks_progress s)"])
        (auto simp: Let_def hand_off_positions_iff hand_off_positions_sorted split: if_splits)
  next
    case KCommitted
    with step obtain cs where cs: "ks_gate s = Some cs" and s':
      "s' = s\<lparr>ks_progress := committed_all cs (ks_progress s), ks_gate := None,
              ks_commits := ks_commits s @ commit_ids cs\<rparr>"
      by (auto split: option.splits)
    have "cursor (ks_progress s) k \<noteq> Some (g, None)" if "(g, k, c) \<in> set cs" for k g c
      using att(1) gate [OF cs] that commit_ids_iff by blast
    then show ?thesis unfolding s' by (rule commit_order_inv_commit [OF ord cs _ gate [OF cs]])
  next
    case KCommitFailed
    with step ord show ?thesis by (auto simp: commit_order_inv_def split: if_splits)
  qed (use step in \<open>auto simp: cursor_frame split: if_splits intro!: commit_order_inv_cursor [OF ord]\<close>)
qed

definition kafka_inv :: "kafka_sys \<Rightarrow> bool" where
  "kafka_inv s \<longleftrightarrow> progress_inv s \<and> commit_order_inv s"

interpretation kafka: invariant_system kafka_init kafka_step kafka_inv
proof unfold_locales
  show "kafka_inv s" if "kafka_init s" for s
    using that by (auto simp: kafka_init_def kafka_new_def kafka_inv_def progress_inv_def commit_order_inv_def
        deliveries_ok_def kp_default_def)
  show "kafka_inv s'" if "kafka_inv s" "kafka_step s e = Some s'" for s e s'
    using that by (auto simp: kafka_inv_def intro: progress_inv_step commit_order_inv_step)
qed

section \<open>Tokens\<close>

text \<open>
  The tokens of assigned partitions are live cells, no two partitions share one, and an assigned
  partition is not marked revoked.
\<close>

declare split_paired_All [simp del] split_paired_Ex [simp del]

definition own_tokens :: "partition_progress \<Rightarrow> token set" where
  "own_tokens pp = {pp_revoked pp, pp_handoff pp}"

definition tokens_inv :: "kafka_progress \<Rightarrow> bool" where
  "tokens_inv p \<longleftrightarrow> tokens_ok (kp_tokens p) \<and>
     (\<forall>k pp. kp_active p k = Some pp \<longrightarrow>
        pp_revoked pp \<noteq> pp_handoff pp \<and> (\<forall>t \<in> own_tokens pp. t < tok_next (kp_tokens p)) \<and>
        \<not> token_is_cancelled (kp_tokens p) (pp_revoked pp)) \<and>
     (\<forall>j k pp qq. kp_active p j = Some pp \<longrightarrow> kp_active p k = Some qq \<longrightarrow> j \<noteq> k \<longrightarrow>
        own_tokens pp \<inter> own_tokens qq = {})"

lemma tokens_inv_disjoint:
  "tokens_inv p \<Longrightarrow> kp_active p j = Some pp \<Longrightarrow> kp_active p k = Some qq \<Longrightarrow> j \<noteq> k \<Longrightarrow>
     own_tokens pp \<inter> own_tokens qq = {}"
  unfolding tokens_inv_def by blast

lemma tokens_inv_part:
  assumes "tokens_inv p" "kp_active p k = Some pp"
  shows "pp_revoked pp \<noteq> pp_handoff pp" "pp_revoked pp < tok_next (kp_tokens p)"
    "pp_handoff pp < tok_next (kp_tokens p)" "\<not> token_is_cancelled (kp_tokens p) (pp_revoked pp)"
  using assms unfolding tokens_inv_def own_tokens_def by blast+

lemma tokens_inv_activate:
  assumes inv: "tokens_inv p"
  shows "tokens_inv (kp_activate k p)"
proof (cases "kp_active p k")
  case None
  let ?t = "tok_next (kp_tokens p)"
  have ts: "kp_tokens (kp_activate k p) = snd (token_new (snd (token_new (kp_tokens p))))"
    using None by (simp add: kp_activate_def token_new_def Let_def)
  have act: "kp_active (kp_activate k p) j = Some pp \<Longrightarrow>
      j = k \<and> pp_revoked pp = ?t \<and> pp_handoff pp = Suc ?t \<or> j \<noteq> k \<and> kp_active p j = Some pp" for j pp
    using None by (cases "j = k") (auto simp: kp_active_activate_new)
  have old: "kp_active p j = Some pp \<Longrightarrow> pp_revoked pp < ?t \<and> pp_handoff pp < ?t" for j pp
    using tokens_inv_part [OF inv] by blast
  have "own_tokens pp \<inter> own_tokens qq = {}"
    if "kp_active (kp_activate k p) i = Some pp" "kp_active (kp_activate k p) j = Some qq" "i \<noteq> j" for i j pp qq
    using act [OF that(1)] act [OF that(2)] old [of i pp] old [of j qq] that(3)
      tokens_inv_disjoint [OF inv, of i pp j qq] by (auto simp: own_tokens_def)
  moreover have "pp_revoked pp \<noteq> pp_handoff pp \<and> (\<forall>t \<in> own_tokens pp. t < Suc (Suc ?t)) \<and>
      \<not> token_is_cancelled (kp_tokens p) (pp_revoked pp)"
    if "kp_active (kp_activate k p) j = Some pp" for j pp
    using act [OF that] tokens_inv_part [OF inv, of j pp] inv token_new_fresh [of "kp_tokens p"]
    by (auto simp: own_tokens_def tokens_inv_def intro: less_SucI)
  moreover have "tokens_ok (kp_tokens (kp_activate k p))"
    using inv by (simp add: ts tokens_inv_def)
  ultimately show ?thesis unfolding tokens_inv_def by (simp add: ts)
qed (use inv in simp)

lemma kp_revoke_tokens:
  "kp_tokens (kp_revoke k p) = (case kp_active p k of None \<Rightarrow> kp_tokens p
     | Some pp \<Rightarrow> token_cancel (pp_revoked pp) (token_cancel (pp_handoff pp) (kp_tokens p)))"
  by (simp add: kp_revoke_def Let_def split: option.splits)

lemma tokens_inv_revoke:
  assumes inv: "tokens_inv p"
  shows "tokens_inv (kp_revoke k p)"
proof (cases "kp_active p k")
  case None
  then have "kp_active (kp_revoke k p) = kp_active p" "kp_tokens (kp_revoke k p) = kp_tokens p"
    by (auto simp: fun_eq_iff kp_revoke_tokens)
  with inv show ?thesis by (simp add: tokens_inv_def)
next
  case (Some pp)
  have lt: "pp_revoked pp < tok_next (kp_tokens p)" "pp_handoff pp < tok_next (kp_tokens p)"
    using inv Some unfolding tokens_inv_def own_tokens_def by blast+
  have disj: "own_tokens pp \<inter> own_tokens qq = {}" if "kp_active p j = Some qq" "j \<noteq> k" for j qq
    using tokens_inv_disjoint [OF inv Some that(1)] that(2) by blast
  from inv lt show ?thesis unfolding tokens_inv_def
    using Some disj by (auto simp: kp_revoke_tokens own_tokens_def)
qed

lemma begin_handoff_cancels:
  "token_is_cancelled (kp_tokens (snd (kp_begin_handoff ks p))) t \<longleftrightarrow>
     token_is_cancelled (kp_tokens p) t \<or> (\<exists>k \<in> set ks. \<exists>pp. kp_active p k = Some pp \<and> t = pp_handoff pp)"
  "tok_next (kp_tokens (snd (kp_begin_handoff ks p))) = tok_next (kp_tokens p)"
  by (induction ks p rule: kp_begin_handoff.induct) (auto simp: case_prod_beta split: option.splits)

lemma tokens_inv_handoff:
  assumes inv: "tokens_inv p"
  shows "tokens_inv (snd (kp_begin_handoff ks p))"
proof -
  note lt = tokens_inv_part(3) [OF inv]
  have ne: "pp_revoked pp \<noteq> pp_handoff qq" if "kp_active p j = Some pp" "kp_active p k = Some qq" for j k pp qq
  proof (cases "j = k")
    case True
    with that tokens_inv_part(1) [OF inv that(1)] show ?thesis by simp
  next
    case False
    with tokens_inv_disjoint [OF inv that] show ?thesis by (auto simp: own_tokens_def)
  qed
  have "tokens_ok (kp_tokens (snd (kp_begin_handoff ks p)))"
    using inv lt begin_handoff_cancels [of ks p]
    unfolding tokens_inv_def tokens_ok_def token_is_cancelled_def by fastforce
  moreover have "\<not> token_is_cancelled (kp_tokens (snd (kp_begin_handoff ks p))) (pp_revoked pp)"
    if "kp_active p k = Some pp" for k pp
    using tokens_inv_part(4) [OF inv that] ne [OF that] by (auto simp: begin_handoff_cancels)
  ultimately show ?thesis
    using inv unfolding tokens_inv_def by (simp add: begin_handoff_cancels(2))
qed

text \<open>Operations that keep the assignment and the tokens.\<close>

definition same_tokens :: "kafka_progress \<Rightarrow> kafka_progress \<Rightarrow> bool" where
  "same_tokens p q \<longleftrightarrow> kp_tokens q = kp_tokens p \<and>
     (\<forall>k. map_option (\<lambda>pp. (pp_revoked pp, pp_handoff pp)) (kp_active q k) =
          map_option (\<lambda>pp. (pp_revoked pp, pp_handoff pp)) (kp_active p k))"

lemma same_tokens_frame:
  "same_tokens p (kp_release g k off p)" "same_tokens p (snd (kp_complete g k off p))"
  "same_tokens p (kp_committed g k c p)"
  "same_tokens p (snd (kp_pause k p))" "same_tokens p (snd (kp_resume k p))"
  "kp_register k g off p = Some (r, p') \<Longrightarrow> same_tokens p p'"
  by (auto simp: same_tokens_def kp_release_def kp_complete_def kp_committed_def kp_pause_def kp_resume_def
      kp_register_def pp_register_def Let_def split: option.splits if_splits)

lemma same_tokens_committed_all: "same_tokens p (committed_all cs p)"
proof (induction cs arbitrary: p)
  case (Cons x cs)
  obtain g k c where x: "x = (g, k, c)" by (rule prod_cases3)
  from Cons [of "kp_committed g k c p"] same_tokens_frame(3) [of p g k c] show ?case
    by (simp add: same_tokens_def committed_all_def x)
qed (simp add: committed_all_def same_tokens_def)

lemma tokens_inv_same:
  assumes inv: "tokens_inv p" and same: "same_tokens p q"
  shows "tokens_inv q"
proof -
  have q: "\<exists>qq. kp_active p k = Some qq \<and> pp_revoked qq = pp_revoked pp \<and> pp_handoff qq = pp_handoff pp"
    if "kp_active q k = Some pp" for k pp
    using same that unfolding same_tokens_def
    by (metis (mono_tags, lifting) map_option_eq_Some option.simps(9) prod.inject)
  have ts: "kp_tokens q = kp_tokens p" using same by (simp add: same_tokens_def)
  have "pp_revoked pp \<noteq> pp_handoff pp \<and> (\<forall>t \<in> own_tokens pp. t < tok_next (kp_tokens p)) \<and>
      \<not> token_is_cancelled (kp_tokens p) (pp_revoked pp)" if "kp_active q k = Some pp" for k pp
    using q [OF that] inv unfolding tokens_inv_def own_tokens_def by metis
  moreover have "own_tokens pp \<inter> own_tokens qq = {}"
    if "kp_active q i = Some pp" "kp_active q j = Some qq" "i \<noteq> j" for i j pp qq
    using q [OF that(1)] q [OF that(2)] that(3) inv unfolding tokens_inv_def own_tokens_def by metis
  ultimately show ?thesis using inv ts unfolding tokens_inv_def by simp
qed

lemma tokens_inv_assign: "tokens_inv p \<Longrightarrow> tokens_inv (snd (post_rebalance_assign ks p))"
  by (induction ks arbitrary: p) (simp_all add: case_prod_beta tokens_inv_activate)

lemma tokens_inv_revokes: "tokens_inv p \<Longrightarrow> tokens_inv (fold kp_revoke ks p)"
  by (induction ks arbitrary: p) (simp_all add: tokens_inv_revoke)

lemma tokens_inv_step:
  assumes inv: "tokens_inv (ks_progress s)" and step: "kafka_step s e = Some s'"
  shows "tokens_inv (ks_progress s')"
proof (cases e)
  case (KAck g k off)
  with step have "ks_progress s' = snd (kp_complete g k off (ks_progress s))"
    by (auto split: if_splits prod.splits sum.splits option.splits)
  with tokens_inv_same [OF inv same_tokens_frame(2)] show ?thesis by simp
next
  case (KRegister k g off)
  with step inv show ?thesis
    by (auto split: if_splits option.splits dest: tokens_inv_same [OF _ same_tokens_frame(6)])
qed (use step inv in \<open>auto simp: pre_rebalance_revoke_def Let_def tokens_inv_assign tokens_inv_revokes
      tokens_inv_handoff tokens_inv_same [OF inv same_tokens_frame(1)]
      tokens_inv_same [OF inv same_tokens_frame(4)] tokens_inv_same [OF inv same_tokens_frame(5)]
      tokens_inv_same [OF inv same_tokens_committed_all] split: if_splits option.splits\<close>)

interpretation kafka_tokens: invariant_system kafka_init kafka_step "\<lambda>s. tokens_inv (ks_progress s)"
proof unfold_locales
  show "tokens_inv (ks_progress s)" if "kafka_init s" for s
    using that by (simp add: kafka_init_def kafka_new_def tokens_inv_def kp_default_def tokens_ok_def
        tokens_empty_def)
qed (rule tokens_inv_step)

section \<open>Properties\<close>

lemma kafka_reach_ok:
  assumes "kafka_reach s"
  shows "progress_inv s" "commit_order_inv s"
    "deliveries_ok (ks_progress s) (ks_delivered s) (ks_acked s)" "tokens_inv (ks_progress s)"
  using kafka.reach_inv [OF assms] kafka_tokens.reach_inv [OF assms]
  by (simp_all add: kafka_inv_def progress_inv_def)

text \<open>
  A run used by the witnesses: partition 0 of a topic delivers offsets 4, 7 and 8, is acknowledged
  out of order, and is handed off.
\<close>

definition ex_key :: partition where
  "ex_key = (''orders'', 0)"

definition ex_events :: "kafka_event list" where
  "ex_events =
     [KAssign [ex_key], KRegister ex_key 1 4, KRegister ex_key 1 7, KRegister ex_key 1 8,
      KAck 1 ex_key 7, KAck 1 ex_key 4, KCommitted, KAck 1 ex_key 8, KCommitted]"

lemma ex_run_ok:
  "run_ok (\<lambda>s. ks_delivered s = [(ex_key, 1, 8), (ex_key, 1, 7), (ex_key, 1, 4)] \<and>
     ks_acked s = [(ex_key, 1, 8), (ex_key, 1, 4), (ex_key, 1, 7)] \<and>
     ks_commits s = [(ex_key, 1, 8), (ex_key, 1, 9)] \<and>
     ks_attempts s = [(ex_key, 1, 8), (ex_key, 1, 9)] \<and>
     map_option pp_generation (kp_active (ks_progress s) ex_key) = Some 1 \<and>
     map_option pp_handoff (kp_active (ks_progress s) ex_key) = Some 1) (run kafka_step kafka_new ex_events)"
  by code_simp

lemma ex_run:
  "\<exists>s. kafka_reach s \<and> ks_delivered s = [(ex_key, 1, 8), (ex_key, 1, 7), (ex_key, 1, 4)] \<and>
     ks_acked s = [(ex_key, 1, 8), (ex_key, 1, 4), (ex_key, 1, 7)] \<and>
     ks_commits s = [(ex_key, 1, 8), (ex_key, 1, 9)] \<and>
     ks_attempts s = [(ex_key, 1, 8), (ex_key, 1, 9)] \<and>
     map_option pp_generation (kp_active (ks_progress s) ex_key) = Some 1 \<and>
     map_option pp_handoff (kp_active (ks_progress s) ex_key) = Some 1"
  by (rule run_ok_reach [where init = kafka_init, OF _ ex_run_ok]) (auto simp: kafka_init_def)

text \<open>
  C2. A commit never passes an unacknowledged delivery: whatever the interleaving of polling,
  acknowledging, dropping, committing, rebalancing and handing off, every offset of an assignment
  delivered below a position sent to the broker for that assignment has been acknowledged.
\<close>

theorem commit_never_skips:
  assumes "kafka_reach s" "(k, g, c) \<in> set (ks_attempts s)" "(k, g, off) \<in> set (ks_delivered s)" "off < c"
  shows "(k, g, off) \<in> set (ks_acked s)"
proof -
  from kafka_reach_ok(1) [OF assms(1)] assms(2)
  have "safe_position (ks_delivered s) (ks_acked s) k g c" unfolding progress_inv_def by blast
  with assms(3,4) show ?thesis by (simp add: safe_position_def)
qed

theorem commit_never_skips_witness:
  "\<exists>s. kafka_reach s \<and> (ex_key, 1, 8) \<in> set (ks_attempts s) \<and> (ex_key, 1, 4) \<in> set (ks_acked s)"
proof -
  from ex_run obtain s where s: "kafka_reach s" "(ex_key, 1, 8) \<in> set (ks_attempts s)"
    "(ex_key, 1, 4) \<in> set (ks_delivered s)" by auto
  from commit_never_skips [OF s] s show ?thesis by auto
qed

text \<open>
  Committed positions of one assignment strictly increase: of two commits the broker accepted
  for the same partition and generation, the later one is greater.
\<close>

theorem commits_increase:
  assumes "kafka_reach s" "ks_commits s = xs @ (k, g, c) # ys @ (k, g, d) # zs"
  shows "c < d"
proof -
  from kafka_reach_ok(2) [OF assms(1)] have "sorted_wrt later_commit (ks_commits s)"
    by (simp add: commit_order_inv_def)
  then have "later_commit (k, g, c) (k, g, d)" by (auto simp: assms(2) sorted_wrt_append)
  then show ?thesis by (simp add: later_commit_def)
qed

theorem commits_increase_witness:
  "\<exists>s. kafka_reach s \<and> ks_commits s = [] @ (ex_key, 1, 8) # [] @ (ex_key, 1, 9) # [] \<and> (8::int) < 9"
proof -
  from ex_run obtain s where s: "kafka_reach s"
    "ks_commits s = [] @ (ex_key, 1, 8) # [] @ (ex_key, 1, 9) # []" by auto
  from commits_increase [OF s] s show ?thesis by blast
qed

text \<open>
  C38. Once everything an assignment delivered is acknowledged, the position after its greatest
  offset is either committed already or exactly what the next acknowledgement or handoff commits:
  gaps in the offsets never hold a commit back.
\<close>

theorem commit_catches_up:
  assumes reach: "kafka_reach s" and act: "kp_active (ks_progress s) k = Some pp"
    and max: "(k, pp_generation pp, m) \<in> set (ks_delivered s)"
      "\<forall>off. (k, pp_generation pp, off) \<in> set (ks_delivered s) \<longrightarrow>
         off \<le> m \<and> (k, pp_generation pp, off) \<in> set (ks_acked s)"
  shows "pp_next pp = Some (m + 1) \<or>
    kp_commit_position (ks_progress s) k = Some (pp_generation pp, m + 1)"
proof -
  note ok = kafka_reach_ok(3) [OF reach]
  have part: "part_ok (ks_delivered s) (ks_acked s) k pp" using deliveries_ok_part [OF ok act] by blast
  from part max(1) obtain n where n: "pp_next pp = Some n"
    by (cases "pp_next pp") (auto simp: part_ok_def Let_def)
  have om: "om_ok (pp_received pp)" using part by (simp add: part_ok_def Let_def)
  have range: "\<forall>off st. map_of (pp_received pp) off = Some st \<longrightarrow> n \<le> off \<and> offset_ok off"
    using part_ok_received [OF part n] deliveries_ok_gen [OF ok] by blast
  have all_done: "st = Done" if "map_of (pp_received pp) off = Some st" for off st
    using part_ok_received [OF part n that] max(2) part that by (auto simp: part_ok_def Let_def)
  show ?thesis
  proof (cases "pp_commit_position pp")
    case None
    from commit_position_None [OF om n range None] all_done have "pp_received pp = []" by blast
    with part_ok_tracked [OF part n, of m] max(1) have "m < n" by auto
    moreover have "n \<le> m + 1" using part n max(2) by (fastforce simp: part_ok_def Let_def)
    ultimately show ?thesis using n by simp
  next
    case (Some c)
    from commit_position_Some(1,3) [OF om n range Some] all_done
    obtain st where st: "n < c" "map_of (pp_received pp) (c - 1) = Some st"
      and top: "\<forall>off st. map_of (pp_received pp) off = Some st \<longrightarrow> off < c" by blast
    with part_ok_received [OF part n st(2)] max(2) have "c - 1 \<le> m" by blast
    moreover from this st(1) part_ok_tracked [OF part n, of m] max(1) top have "m < c" by auto
    ultimately have "c = m + 1" by simp
    with Some act show ?thesis by (simp add: kp_commit_position_def)
  qed
qed

theorem commit_catches_up_witness:
  "\<exists>s pp. kafka_reach s \<and> kp_active (ks_progress s) ex_key = Some pp \<and>
     (pp_next pp = Some (8 + 1) \<or> kp_commit_position (ks_progress s) ex_key = Some (pp_generation pp, 8 + 1))"
proof -
  from ex_run obtain s pp where s: "kafka_reach s" "kp_active (ks_progress s) ex_key = Some pp"
    and g: "pp_generation pp = 1"
    and sets: "ks_delivered s = [(ex_key, 1, 8), (ex_key, 1, 7), (ex_key, 1, 4)]"
      "ks_acked s = [(ex_key, 1, 8), (ex_key, 1, 4), (ex_key, 1, 7)]" by auto
  have "pp_next pp = Some (8 + 1) \<or> kp_commit_position (ks_progress s) ex_key = Some (pp_generation pp, 8 + 1)"
    by (rule commit_catches_up [OF s]) (auto simp: g sets)
  with s show ?thesis by blast
qed

text \<open>Generations only grow, and an unassigned partition comes back with a new one.\<close>

definition expired :: "kafka_progress \<Rightarrow> u64 \<Rightarrow> partition \<Rightarrow> bool" where
  "expired p g k \<longleftrightarrow> g \<le> kp_gen p k \<and> \<not> kp_is_current p g k"

lemma is_current_cursor: "kp_is_current p g k \<longleftrightarrow> (\<exists>x. cursor p k = Some (g, x))"
  by (auto simp: kp_is_current_def cursor_def split: option.splits)

lemma kp_gen_frame:
  "kp_gen (kp_release g k off p) j = kp_gen p j" "kp_gen (snd (kp_complete g k off p)) j = kp_gen p j"
  "kp_gen (kp_committed g k c p) j = kp_gen p j"
  "kp_gen (snd (kp_pause k p)) j = kp_gen p j" "kp_gen (snd (kp_resume k p)) j = kp_gen p j"
  "kp_gen (snd (kp_begin_handoff ks p)) j = kp_gen p j"
  "kp_register k g off p = Some (r, p') \<Longrightarrow> kp_gen p' j = kp_gen p j"
  by (auto simp: kp_gen_def kp_release_def kp_complete_def kp_committed_def kp_register_def Let_def
      split: option.splits if_splits)

lemma kp_gen_committed_all: "kp_gen (committed_all cs p) j = kp_gen p j"
  by (induction cs arbitrary: p) (auto simp: committed_all_def kp_gen_frame)

lemma committed_all_current: "kp_is_current (committed_all cs p) g k \<longleftrightarrow> kp_is_current p g k"
proof (induction cs arbitrary: p)
  case (Cons x cs)
  obtain h j c where x: "x = (h, j, c)" by (rule prod_cases3)
  have "kp_is_current (kp_committed h j c p) g k \<longleftrightarrow> kp_is_current p g k"
    by (auto simp: is_current_cursor cursor_committed)
  with Cons show ?case by (simp add: committed_all_def x)
qed (simp add: committed_all_def)

lemma kp_gen_revokes:
  "bumpable ks p \<Longrightarrow> kp_gen (fold kp_revoke ks p) k = (if k \<in> set ks then kp_gen p k + 1 else kp_gen p k)"
proof (induction ks arbitrary: p)
  case (Cons j ks)
  from Cons.IH [OF bumpable_Cons(3) [OF Cons.prems]] Cons.prems show ?case
    by (auto simp: bumpable_def)
qed simp

lemma kp_gen_assign:
  "bumpable ks p \<Longrightarrow> kp_gen (snd (post_rebalance_assign ks p)) k =
     (if k \<in> set ks \<and> kp_active p k = None then kp_gen p k + 1 else kp_gen p k)"
proof (induction ks arbitrary: p)
  case (Cons j ks)
  from Cons.IH [OF bumpable_Cons(2) [OF Cons.prems]] Cons.prems show ?case
    by (auto simp: bumpable_def case_prod_beta)
qed simp

lemma expired_step:
  assumes ex: "expired (ks_progress s) g k" and step: "kafka_step s e = Some s'"
  shows "expired (ks_progress s') g k"
proof (cases e)
  case (KAssign ks)
  with step have b: "bumpable ks (ks_progress s)" and
    s': "s' = s\<lparr>ks_progress := snd (post_rebalance_assign ks (ks_progress s))\<rparr>" by (auto split: if_splits)
  have "k \<in> set ks \<Longrightarrow> g < kp_gen (ks_progress s) k + 1"
    using b ex word_bump by (auto simp: bumpable_def list_all_iff expired_def)
  with ex b show ?thesis
    by (auto simp: expired_def s' is_current_cursor kp_gen_assign cursor_assign intro: less_imp_le)
next
  case (KRevoke ks)
  with step have b: "bumpable ks (ks_progress s)" and
    s': "s' = s\<lparr>ks_progress := fold kp_revoke ks (ks_progress s)\<rparr>"
    by (auto simp: pre_rebalance_revoke_def split: if_splits)
  have "k \<in> set ks \<Longrightarrow> g < kp_gen (ks_progress s) k + 1"
    using b ex word_bump by (auto simp: bumpable_def list_all_iff expired_def)
  with ex b show ?thesis
    by (auto simp: expired_def s' is_current_cursor kp_gen_revokes cursor_revokes intro: less_imp_le)
next
  case (KRegister j h off)
  with step ex show ?thesis
    by (auto simp: expired_def is_current_cursor kp_gen_frame cursor_register split: if_splits option.splits)
next
  case (KAck h j off)
  with step have "ks_progress s' = snd (kp_complete h j off (ks_progress s))"
    by (auto split: if_splits prod.splits sum.splits option.splits)
  with ex show ?thesis by (simp add: expired_def is_current_cursor kp_gen_frame cursor_frame)
next
  case KCommitted
  with step ex show ?thesis
    by (auto simp: expired_def kp_gen_committed_all committed_all_current split: option.splits)
qed (use step ex in \<open>auto simp: expired_def is_current_cursor kp_gen_frame cursor_frame Let_def split: if_splits\<close>)

lemma expired_run: "expired (ks_progress s) g k \<Longrightarrow> run kafka_step s es = Some s' \<Longrightarrow> expired (ks_progress s') g k"
  by (induction es arbitrary: s) (auto split: option.splits intro: expired_step)

text \<open>
  An assignment that ended never comes back: after a delivery's generation stops being current,
  in every later state its acknowledgement is refused, and registering, dropping or recording a
  commit for it changes nothing, also when the partition was assigned again meanwhile.
\<close>

theorem expired_assignment_inert:
  assumes "kafka_reach s" "(k, g, off) \<in> set (ks_delivered s)" "\<not> kp_is_current (ks_progress s) g k"
    "run kafka_step s es = Some s'"
  shows "(\<exists>e. kp_complete g k off (ks_progress s') = (Inl e, ks_progress s')) \<and>
    kp_register k g off (ks_progress s') = None \<and> kp_release g k off (ks_progress s') = ks_progress s' \<and>
    kp_committed g k c (ks_progress s') = ks_progress s'"
proof -
  have "expired (ks_progress s) g k"
    using assms(3) deliveries_ok_gen [OF kafka_reach_ok(3) [OF assms(1)] assms(2)] by (simp add: expired_def)
  from expired_run [OF this assms(4)] have "\<not> kp_is_current (ks_progress s') g k" by (simp add: expired_def)
  then consider "kp_active (ks_progress s') k = None"
    | pp where "kp_active (ks_progress s') k = Some pp" "pp_generation pp \<noteq> g"
    by (auto simp: kp_is_current_def split: option.splits)
  then show ?thesis
    by cases (simp_all add: kp_complete_def kp_register_def kp_release_def kp_committed_def)
qed

lemma ex_reassigned_ok:
  "run_ok (\<lambda>s. (ex_key, 1, 8) \<in> set (ks_delivered s) \<and> \<not> kp_is_current (ks_progress s) 1 ex_key \<and>
     kp_is_current (ks_progress s) 3 ex_key)
   (run kafka_step kafka_new (ex_events @ [KRevoke [ex_key], KAssign [ex_key]]))"
  by code_simp

theorem expired_assignment_inert_witness:
  "\<exists>s. kafka_reach s \<and> kp_is_current (ks_progress s) 3 ex_key \<and>
     (\<exists>e. kp_complete 1 ex_key 8 (ks_progress s) = (Inl e, ks_progress s))"
proof -
  obtain s where s: "kafka_reach s" "(ex_key, 1, 8) \<in> set (ks_delivered s)"
    "\<not> kp_is_current (ks_progress s) 1 ex_key" "kp_is_current (ks_progress s) 3 ex_key"
    by (rule run_ok_reach [where init = kafka_init, OF _ ex_reassigned_ok]) (auto simp: kafka_init_def)
  have "run kafka_step s [] = Some s" by simp
  from expired_assignment_inert [OF s(1-3) this] s show ?thesis by blast
qed

lemma revokes_cancel:
  assumes "tokens_inv p"
  shows "token_is_cancelled (kp_tokens (fold kp_revoke ks p)) t \<longleftrightarrow>
    token_is_cancelled (kp_tokens p) t \<or> (\<exists>j \<in> set ks. \<exists>pp. kp_active p j = Some pp \<and> t \<in> own_tokens pp)"
  using assms
proof (induction ks arbitrary: p)
  case (Cons j ks)
  have "token_is_cancelled (kp_tokens (kp_revoke j p)) t \<longleftrightarrow>
    token_is_cancelled (kp_tokens p) t \<or> (\<exists>pp. kp_active p j = Some pp \<and> t \<in> own_tokens pp)"
    by (auto simp: kp_revoke_tokens own_tokens_def split: option.splits)
  moreover have "(\<exists>i \<in> set ks. \<exists>pp. kp_active (kp_revoke j p) i = Some pp \<and> t \<in> own_tokens pp) \<longleftrightarrow>
    (\<exists>i \<in> set ks - {j}. \<exists>pp. kp_active p i = Some pp \<and> t \<in> own_tokens pp)"
    by auto
  moreover note Cons.IH [OF tokens_inv_revoke [OF Cons.prems]]
  ultimately show ?case by (simp only: fold_simps o_apply list.set) blast
qed simp

text \<open>
  A rebalance reaches exactly the partitions it names. Revoking cancels both tokens of every
  named assigned partition, and another assigned partition keeps its progress, is not marked revoked
  and hands off only if it already did.
\<close>

theorem revoke_isolated:
  assumes "kafka_reach s" "kp_active (ks_progress s) k = Some pp"
  shows "let p = ks_progress s; p' = pre_rebalance_revoke ks p in
    (if k \<in> set ks
     then kp_active p' k = None \<and> token_is_cancelled (kp_tokens p') (pp_revoked pp) \<and>
       token_is_cancelled (kp_tokens p') (pp_handoff pp)
     else kp_active p' k = Some pp \<and> \<not> token_is_cancelled (kp_tokens p') (pp_revoked pp) \<and>
       (token_is_cancelled (kp_tokens p') (pp_handoff pp) \<longleftrightarrow>
        token_is_cancelled (kp_tokens p) (pp_handoff pp)))"
proof -
  let ?p = "ks_progress s"
  note inv = kafka_reach_ok(4) [OF assms(1)]
  have act: "kp_active (fold kp_revoke ks p) j = (if j \<in> set ks then None else kp_active p j)" for p j
    by (induction ks arbitrary: p) auto
  have own: "pp_revoked pp \<in> own_tokens pp" "pp_handoff pp \<in> own_tokens pp" by (simp_all add: own_tokens_def)
  have other: "t \<notin> own_tokens qq"
    if "k \<notin> set ks" "j \<in> set ks" "kp_active ?p j = Some qq" "t \<in> own_tokens pp" for j qq t
    using tokens_inv_disjoint [OF inv assms(2) that(3)] that by blast
  show ?thesis
    using assms(2) own other tokens_inv_part(4) [OF inv assms(2)]
    by (auto simp: pre_rebalance_revoke_def Let_def act revokes_cancel [OF inv])
qed

theorem revoke_isolated_witness:
  "\<exists>s pp. kafka_reach s \<and> kp_active (ks_progress s) ex_key = Some pp \<and>
     \<not> token_is_cancelled (kp_tokens (pre_rebalance_revoke [(''orders'', 1)] (ks_progress s))) (pp_revoked pp)"
proof -
  from ex_run obtain s pp where s: "kafka_reach s" "kp_active (ks_progress s) ex_key = Some pp" by auto
  from revoke_isolated [OF s, of "[(''orders'', 1)]"] s show ?thesis by (auto simp: Let_def ex_key_def)
qed

text \<open>
  A handoff returns exactly the assigned partitions among those it is asked for and refuses
  every further record of them, while the tracked offsets of all partitions and the records of the
  other partitions are unaffected.
\<close>

theorem handoff_stops_registration:
  assumes "kafka_reach s"
  shows "let p = ks_progress s; (handed, p') = kp_begin_handoff ks p in
    handed = filter (\<lambda>k. kp_active p k \<noteq> None) ks \<and> kp_active p' = kp_active p \<and>
    (\<forall>k g off. k \<in> set ks \<longrightarrow> kp_register k g off p' = None) \<and>
    (\<forall>k g off. k \<notin> set ks \<longrightarrow>
       map_option fst (kp_register k g off p') = map_option fst (kp_register k g off p))"
proof -
  let ?p = "ks_progress s"
  note inv = kafka_reach_ok(4) [OF assms]
  obtain handed p' where h: "kp_begin_handoff ks ?p = (handed, p')" by fastforce
  have "fst (kp_begin_handoff ks q) = filter (\<lambda>k. kp_active q k \<noteq> None) ks" for q
    by (induction ks q rule: kp_begin_handoff.induct) (auto simp: case_prod_beta split: option.splits)
  from this [of ?p] h have handed: "handed = filter (\<lambda>k. kp_active ?p k \<noteq> None) ks" by simp
  have act: "kp_active p' = kp_active ?p"
    using begin_handoff_frame(1) [of ks ?p] h by simp
  have tok: "token_is_cancelled (kp_tokens p') t \<longleftrightarrow> token_is_cancelled (kp_tokens ?p) t \<or>
      (\<exists>k \<in> set ks. \<exists>pp. kp_active ?p k = Some pp \<and> t = pp_handoff pp)" for t
    using begin_handoff_cancels(1) [of ks ?p t] h by simp
  have "kp_register k g off p' = None" if "k \<in> set ks" for k g off
    using that act by (auto simp: kp_register_def tok split: option.splits)
  moreover have "map_option fst (kp_register k g off p') = map_option fst (kp_register k g off ?p)"
    if "k \<notin> set ks" for k g off
  proof (cases "kp_active ?p k")
    case (Some pp)
    have "pp_handoff pp \<noteq> pp_handoff qq" if "j \<in> set ks" "kp_active ?p j = Some qq" for j qq
    proof -
      have "k \<noteq> j" using that \<open>k \<notin> set ks\<close> by blast
      from tokens_inv_disjoint [OF inv Some that(2) this] show ?thesis by (auto simp: own_tokens_def)
    qed
    with Some act show ?thesis by (auto simp: kp_register_def tok)
  qed (simp add: kp_register_def act)
  ultimately show ?thesis using h handed act by (simp add: Let_def)
qed

theorem handoff_stops_registration_witness:
  "\<exists>s. kafka_reach s \<and> kp_register ex_key 1 9 (snd (kp_begin_handoff [ex_key] (ks_progress s))) = None"
proof -
  from ex_run obtain s where s: "kafka_reach s" by auto
  from handoff_stops_registration [OF s, of "[ex_key]"] s show ?thesis
    by (auto simp: Let_def case_prod_beta)
qed

end
