(* ===== verification/Effects.thy ===== *)
theory Effects
  imports Dead_Letters Retry
begin

text \<open>
  The effects of processing one delivery. Code outside the crate (handlers, middleware, brokers,
  state stores, the random generator) acts on a world of any type \<open>'w\<close>; an action of the crate
  returns a value, the events it caused in order, and the new world. Awaiting a future is running
  its action.

  The events are what an observer outside the process can see of a delivery: handler attempts,
  sleeps between attempts, submissions to the sink and waiting for their completion, state commits,
  dead letters, acknowledgements. Metrics, tracing spans and health marks are left out.
\<close>

text \<open>\<^verbatim>\<open>sink::Completion\<close> of \<^verbatim>\<open>src/sink.rs\<close>; a pending one is a handle \<open>'c\<close> of the sink.\<close>

datatype 'c completion = CompletionDone | CompletionPending 'c

fun completion_is_done :: "'c completion \<Rightarrow> bool" where
  "completion_is_done CompletionDone = True"
| "completion_is_done (CompletionPending _) = False"

datatype ('i, 'r, 'p, 'c) event =
    EvPre 'i
  | EvHandle 'i usize
  | EvSleep duration
  | EvPost
  | EvEncode bool
  | EvSubmit 'p "'c completion option"
  | EvWait 'c bool
  | EvCommitState bool
  | EvEnlist "'p list" "'c option"
  | EvFailure failure_kind
  | EvDeadLetter "('i, 'r) dead_letter" bool
  | EvAck bool

type_synonym ('w, 'a) ext = "'w \<Rightarrow> 'a \<times> 'w"
type_synonym ('w, 'e, 'a) act = "'w \<Rightarrow> 'a \<times> 'e list \<times> 'w"

definition act_return :: "'a \<Rightarrow> ('w, 'e, 'a) act" where
  "act_return a w = (a, [], w)"

definition act_bind :: "('w, 'e, 'a) act \<Rightarrow> ('a \<Rightarrow> ('w, 'e, 'b) act) \<Rightarrow> ('w, 'e, 'b) act" where
  "act_bind f g w =
     (case f w of (a, t, w1) \<Rightarrow> (case g a w1 of (b, t', w2) \<Rightarrow> (b, t @ t', w2)))"

text \<open>A call of outside code, with the event its result gives rise to.\<close>

definition act_call :: "('a \<Rightarrow> 'e) \<Rightarrow> ('w, 'a) ext \<Rightarrow> ('w, 'e, 'a) act" where
  "act_call ev f w = (case f w of (a, w1) \<Rightarrow> (a, [ev a], w1))"

definition act_log :: "'e \<Rightarrow> ('w, 'e, unit) act" where
  "act_log e w = ((), [e], w)"

text \<open>The \<^verbatim>\<open>?\<close> operator: an error returns at once.\<close>

definition act_try ::
  "('w, 'e, 'a outcome) act \<Rightarrow> ('a \<Rightarrow> ('w, 'e, 'b outcome) act) \<Rightarrow> ('w, 'e, 'b outcome) act" where
  "act_try f g = act_bind f (\<lambda>r. case r of Inl e \<Rightarrow> act_return (Inl e) | Inr a \<Rightarrow> g a)"

text \<open>\<^verbatim>\<open>map_err\<close> and \<^verbatim>\<open>context\<close> on the result of an action.\<close>

definition act_context :: "string \<Rightarrow> ('w, 'e, 'a outcome) act \<Rightarrow> ('w, 'e, 'a outcome) act" where
  "act_context m f = act_bind f (\<lambda>r. act_return (result_context m r))"

definition is_ok :: "'e + 'a \<Rightarrow> bool" where
  "is_ok r = (case r of Inl _ \<Rightarrow> False | Inr _ \<Rightarrow> True)"

fun ok_value :: "'e + 'a \<Rightarrow> 'a option" where
  "ok_value (Inl _) = None"
| "ok_value (Inr a) = Some a"

text \<open>\<^verbatim>\<open>tokio::time::sleep(policy.delay(attempt))\<close>, drawing a random word for the jitter.\<close>

definition sleep_delay ::
  "('w, u64) ext \<Rightarrow> retry_policy \<Rightarrow> usize \<Rightarrow> ('w, ('i, 'r, 'p, 'c) event, unit) act" where
  "sleep_delay rnd p n = (\<lambda>w. case rnd w of (r, w1) \<Rightarrow> ((), [EvSleep (delay r p n)], w1))"

lemma act_bindE:
  assumes "act_bind f g w = (b, t, w2)"
  obtains a t1 w1 t2 where "f w = (a, t1, w1)" "g a w1 = (b, t2, w2)" "t = t1 @ t2"
  using assms by (auto simp: act_bind_def split: prod.splits)

lemma act_tryE:
  assumes "act_try f g w = (b, t, w2)"
  obtains (err) e where "f w = (Inl e, t, w2)" "b = Inl e"
  | (ok) a t1 w1 t2 where "f w = (Inr a, t1, w1)" "g a w1 = (b, t2, w2)" "t = t1 @ t2"
  using assms by (auto simp: act_try_def act_return_def elim!: act_bindE split: sum.splits)

lemma act_contextE:
  assumes "act_context m f w = (r, t, w2)"
  obtains r' where "f w = (r', t, w2)" "result_context m r' = r"
  using assms by (auto simp: act_context_def act_return_def elim!: act_bindE)

lemma act_return_iff [simp]: "act_return a w = (b, t, w2) \<longleftrightarrow> b = a \<and> t = [] \<and> w2 = w"
  by (auto simp: act_return_def)

lemma act_log_iff [simp]: "act_log e w = (u, t, w2) \<longleftrightarrow> t = [e] \<and> w2 = w"
  by (auto simp: act_log_def)

lemma act_callE:
  assumes "act_call ev f w = (a, t, w2)"
  obtains "f w = (a, w2)" "t = [ev a]"
  using assms by (auto simp: act_call_def split: prod.splits)

lemma result_context_iff [simp]:
  "result_context m r = Inr x \<longleftrightarrow> r = Inr x"
  "result_context m r = Inl e \<longleftrightarrow> (\<exists>c. r = Inl c \<and> e = Crate (error_wrap m c))"
  by (cases r; auto)+

lemma sleep_delayE:
  assumes "sleep_delay rnd p n w = (u, t, w2)"
  obtains r where "rnd w = (r, w2)" "t = [EvSleep (delay r p n)]"
  using assms by (auto simp: sleep_delay_def split: prod.splits)

section \<open>Publishing with retries\<close>

text \<open>
  \<^verbatim>\<open>retry_publish\<close> of \<^verbatim>\<open>src/subscription/processing.rs\<close>, from attempt number \<open>attempt\<close> on.
\<close>

function retry_publish ::
  "('w, u64) ext \<Rightarrow> retry_policy \<Rightarrow> ('w, ('i, 'r, 'p, 'c) event, 'a outcome) act \<Rightarrow> usize \<Rightarrow>
   ('w, ('i, 'r, 'p, 'c) event, 'a outcome) act" where
  "retry_publish rnd policy publish attempt w =
     (case publish w of
        (Inr value, t, w1) \<Rightarrow> (Inr value, t, w1)
      | (Inl error, t, w1) \<Rightarrow>
          if rejected error then (Inl error, t, w1)
          else if attempt \<ge> max_attempts policy
          then (Inl (box_context ''publish retry exhausted'' error), t, w1)
          else (case sleep_delay rnd policy attempt w1 of
                  (_, ts, w2) \<Rightarrow>
                    (case retry_publish rnd policy publish (attempt + 1) w2 of
                       (res, t', w3) \<Rightarrow> (res, t @ ts @ t', w3))))"
  by pat_completeness auto
termination
  by (relation "measure (\<lambda>(rnd, policy, publish, attempt, w). max_attempts policy - attempt)") auto

declare retry_publish.simps [simp del]

text \<open>The attempts of a trace: everything but the sleeps between them.\<close>

fun is_sleep :: "('i, 'r, 'p, 'c) event \<Rightarrow> bool" where
  "is_sleep (EvSleep _) = True"
| "is_sleep _ = False"

definition attempts_of :: "('i, 'r, 'p, 'c) event list \<Rightarrow> ('i, 'r, 'p, 'c) event list" where
  "attempts_of t = filter (\<lambda>e. \<not> is_sleep e) t"

lemma attempts_of_simps [simp]:
  "attempts_of [] = []" "attempts_of (t @ t') = attempts_of t @ attempts_of t'"
  "attempts_of (e # t) = (if is_sleep e then attempts_of t else e # attempts_of t)"
  by (simp_all add: attempts_of_def)

text \<open>
  What a retried publication did: transient failures, then one decisive attempt. The result is the
  value of that attempt, its rejection, or, on the last permitted attempt only, its failure.
\<close>

definition retry_outcome ::
  "retry_policy \<Rightarrow> usize \<Rightarrow> 'a outcome list \<Rightarrow> 'a outcome \<Rightarrow> 'a outcome \<Rightarrow> bool" where
  "retry_outcome p attempt failed decisive res \<longleftrightarrow>
     list_all (\<lambda>r. \<exists>e. r = Inl e \<and> \<not> rejected e) failed \<and>
     (failed = [] \<or> attempt + length failed \<le> max_attempts p) \<and>
     (case decisive of
        Inr a \<Rightarrow> res = Inr a
      | Inl e \<Rightarrow>
          if rejected e then res = Inl e
          else res = Inl (box_context ''publish retry exhausted'' e) \<and>
               max_attempts p \<le> attempt + length failed)"

lemma retry_publish_outcome:
  fixes ev :: "'a outcome \<Rightarrow> ('i, 'r, 'p, 'c) event"
  assumes "\<And>e. \<not> is_sleep (ev e)"
    and "retry_publish rnd p (act_call ev f) attempt w = (res, t, w')"
  shows "\<exists>failed decisive. attempts_of t = map ev failed @ [ev decisive] \<and>
    retry_outcome p attempt failed decisive res"
  using assms(2)
proof (induction "max_attempts p - attempt" arbitrary: attempt w t rule: less_induct)
  case less
  obtain r t1 w1 where pub: "act_call ev f w = (r, t1, w1)" by (rule prod_cases3)
  then have t1: "t1 = [ev r]" by (auto elim: act_callE)
  show ?case
  proof (cases "\<exists>e. r = Inl e \<and> \<not> rejected e \<and> attempt < max_attempts p")
    case False
    with less.prems pub t1 assms(1) have "t = [ev r]" "retry_outcome p attempt [] r res"
      by (auto simp: retry_publish.simps [of rnd p _ attempt w] retry_outcome_def split: sum.splits if_splits)
    with assms(1) have "attempts_of t = map ev [] @ [ev r]" by simp
    with \<open>retry_outcome p attempt [] r res\<close> show ?thesis by blast
  next
    case True
    then obtain e where e: "r = Inl e" "\<not> rejected e" "attempt < max_attempts p" by blast
    obtain u w2 and ts :: "('i, 'r, 'p, 'c) event list"
      where sl: "sleep_delay rnd p attempt w1 = (u, ts, w2)" by (rule prod_cases3)
    obtain res' t' w3 where rec: "retry_publish rnd p (act_call ev f) (attempt + 1) w2 = (res', t', w3)"
      by (rule prod_cases3)
    from less.prems pub e sl rec have t: "t = t1 @ ts @ t'" "res = res'" "w' = w3"
      by (simp_all add: retry_publish.simps [of rnd p _ attempt w])
    with rec have rec': "retry_publish rnd p (act_call ev f) (attempt + 1) w2 = (res, t', w')" by simp
    have "max_attempts p - (attempt + 1) < max_attempts p - attempt" using e by simp
    from less.hyps [OF this rec'] obtain failed decisive
      where IH: "attempts_of t' = map ev failed @ [ev decisive]"
        "retry_outcome p (attempt + 1) failed decisive res" by blast
    from sl have "attempts_of ts = []" by (auto elim: sleep_delayE)
    with IH t t1 assms(1) have "attempts_of t = map ev (r # failed) @ [ev decisive]" by simp
    moreover have "retry_outcome p attempt (r # failed) decisive res"
      using IH(2) e by (auto simp: retry_outcome_def split: sum.splits)
    ultimately show ?thesis by blast
  qed
qed

end
