(* ===== verification/Completions.thy ===== *)
theory Completions
  imports Effects
begin

text \<open>
  The completion stage of \<^verbatim>\<open>src/subscription/completion.rs\<close>: prepare every output, submit them in
  order with retries, commit the state change and acknowledge, or hand the delivery to a
  transaction batch. The trait \<^verbatim>\<open>Complete\<close> is the interface \<open>completion_stage\<close>, which both
  \<^verbatim>\<open>Publish\<close> and \<^verbatim>\<open>Transact\<close> implement.
\<close>

section \<open>Data and operations\<close>

text \<open>A sink, as far as this stage calls it; the crate's sinks are implementations of it.\<close>

record ('w, 'm, 'o, 'p, 'c) sink_ops =
  sk_prepare_from :: "'o \<Rightarrow> 'm \<Rightarrow> 'p outcome"
  sk_submit :: "'p \<Rightarrow> ('w, 'c completion outcome) ext"
  sk_wait :: "'c \<Rightarrow> ('w, unit outcome) ext"

type_synonym 'w commit = "('w, unit outcome) ext"

text \<open>\<^verbatim>\<open>completion::Completion\<close>: how the stage ended.\<close>

datatype ('w, 'm, 'c) completed =
    CDone
  | CPending 'm "'c completion list" "'w commit option"
  | CCommitting "'c completion"
  | CEncode 'm box_error
  | CRejected 'm box_error

text \<open>\<^verbatim>\<open>sink::Completion::wait\<close>.\<close>

fun completion_wait ::
  "('c \<Rightarrow> ('w, unit outcome) ext) \<Rightarrow> 'c completion \<Rightarrow> ('w, ('i, 'r, 'p, 'c) event, unit outcome) act" where
  "completion_wait wait CompletionDone = act_return (Inr ())"
| "completion_wait wait (CompletionPending c) = act_call (\<lambda>r. EvWait c (is_ok r)) (wait c)"

primrec wait_all ::
  "('c \<Rightarrow> ('w, unit outcome) ext) \<Rightarrow> 'c completion list \<Rightarrow> ('w, ('i, 'r, 'p, 'c) event, unit outcome) act" where
  "wait_all wait [] = act_return (Inr ())"
| "wait_all wait (c # cs) = act_try (completion_wait wait c) (\<lambda>_. wait_all wait cs)"

text \<open>\<^verbatim>\<open>commit_state\<close> and \<^verbatim>\<open>acknowledge\<close>.\<close>

fun commit_state :: "'w commit option \<Rightarrow> ('w, ('i, 'r, 'p, 'c) event, unit outcome) act" where
  "commit_state None = act_return (Inr ())"
| "commit_state (Some commit) =
     act_context ''state commit failed'' (act_call (\<lambda>r. EvCommitState (is_ok r)) commit)"

definition ack_delivery ::
  "('m \<Rightarrow> ('w, unit outcome) ext) \<Rightarrow> 'm \<Rightarrow> ('w, ('i, 'r, 'p, 'c) event, unit outcome) act" where
  "ack_delivery ack delivery = act_call (\<lambda>r. EvAck (is_ok r)) (ack delivery)"

text \<open>\<^verbatim>\<open>prepare\<close>: nothing is recorded for a delivery without outputs.\<close>

definition prepare ::
  "('w, 'm, 'o, 'p, 'c) sink_ops \<Rightarrow> 'o list \<Rightarrow> 'm \<Rightarrow> ('w, ('i, 'r, 'p, 'c) event, 'p list outcome) act" where
  "prepare sink outputs delivery =
     (if outputs = [] then act_return (Inr [])
      else let prepared = collect_results (map (\<lambda>output. sk_prepare_from sink output delivery) outputs)
           in act_bind (act_log (EvEncode (is_ok prepared))) (\<lambda>_. act_return prepared))"

text \<open>
  The publish loop of \<^verbatim>\<open>Publish::complete\<close>: the completions of the submitted outputs and the
  rejection that ended the loop, if any.
\<close>

primrec submit_all ::
  "('w, u64) ext \<Rightarrow> ('w, 'm, 'o, 'p, 'c) sink_ops \<Rightarrow> retry_policy \<Rightarrow> 'p list \<Rightarrow> 'c completion list \<Rightarrow>
   ('w, ('i, 'r, 'p, 'c) event, ('c completion list \<times> box_error option) outcome) act" where
  "submit_all rnd sink policy [] completions = act_return (Inr (completions, None))"
| "submit_all rnd sink policy (output # outputs) completions =
     act_bind
       (retry_publish rnd policy
          (act_call (\<lambda>r. EvSubmit output (ok_value r)) (sk_submit sink output)) 1)
       (\<lambda>r. case r of
              Inr completion \<Rightarrow> submit_all rnd sink policy outputs (completions @ [completion])
            | Inl error \<Rightarrow>
                if rejected error then act_return (Inr (completions, Some error))
                else act_return (Inl error))"

text \<open>What \<^verbatim>\<open>Publish::complete\<close> does after the loop.\<close>

definition publish_settle ::
  "('m \<Rightarrow> ('w, unit outcome) ext) \<Rightarrow> ('w, 'm, 'o, 'p, 'c) sink_ops \<Rightarrow> 'm \<Rightarrow> 'w commit option \<Rightarrow>
   'c completion list \<times> box_error option \<Rightarrow>
   ('w, ('i, 'r, 'p, 'c) event, ('w, 'm, 'c) completed outcome) act" where
  "publish_settle ack sink delivery commit = (\<lambda>(completions, rejection).
     case rejection of
       Some error \<Rightarrow>
         act_try (act_context ''output completion failed'' (wait_all (sk_wait sink) completions))
           (\<lambda>_. act_return (Inr (CRejected delivery error)))
     | None \<Rightarrow>
         if \<not> list_all completion_is_done completions
         then act_return (Inr (CPending delivery completions commit))
         else act_try (commit_state commit) (\<lambda>_.
                act_try (ack_delivery ack delivery) (\<lambda>_. act_return (Inr CDone))))"

definition publish_complete ::
  "('w, u64) ext \<Rightarrow> ('m \<Rightarrow> ('w, unit outcome) ext) \<Rightarrow> ('w, 'm, 'o, 'p, 'c) sink_ops \<Rightarrow>
   'm \<Rightarrow> 'o list \<Rightarrow> 'w commit option \<Rightarrow> retry_policy \<Rightarrow>
   ('w, ('i, 'r, 'p, 'c) event, ('w, 'm, 'c) completed outcome) act" where
  "publish_complete rnd ack sink delivery outputs commit policy =
     act_bind (prepare sink outputs delivery) (\<lambda>prepared.
       case prepared of
         Inl error \<Rightarrow> act_return (Inr (CEncode delivery error))
       | Inr outputs \<Rightarrow>
           act_try (submit_all rnd sink policy outputs []) (publish_settle ack sink delivery commit))"

text \<open>
  \<^verbatim>\<open>Transact::complete\<close>; \<open>enlister\<close> is the running batcher's \<^verbatim>\<open>enlist\<close>, absent before \<^verbatim>\<open>start\<close> and
  after \<^verbatim>\<open>close\<close>. It gives the handle of the pending completion of the batch the delivery joined.
\<close>

definition transact_complete ::
  "('w, 'm, 'o, 'p, 'c) sink_ops \<Rightarrow> ('m \<Rightarrow> 'p list \<Rightarrow> ('w, 'c outcome) ext) option \<Rightarrow>
   'm \<Rightarrow> 'o list \<Rightarrow> 'w commit option \<Rightarrow> retry_policy \<Rightarrow>
   ('w, ('i, 'r, 'p, 'c) event, ('w, 'm, 'c) completed outcome) act" where
  "transact_complete sink enlister delivery outputs commit policy =
     (if commit \<noteq> None
      then act_return (Inl (Foreign ''a transactional subscription cannot commit state'' None))
      else act_bind (prepare sink outputs delivery) (\<lambda>prepared.
        case prepared of
          Inl error \<Rightarrow> act_return (Inr (CEncode delivery error))
        | Inr outputs \<Rightarrow>
            (case enlister of
               None \<Rightarrow> act_return (Inl (Crate (error_msg ''transaction batching has not started'')))
             | Some enlist \<Rightarrow>
                 act_try (act_call (\<lambda>r. EvEnlist outputs (ok_value r)) (enlist delivery outputs))
                   (\<lambda>committed. act_return (Inr (CCommitting (CompletionPending committed)))))))"

text \<open>\<^verbatim>\<open>Transact::verify\<close>: \<open>verify_source\<close> is the transactional sink's check of the first delivery.\<close>

definition transact_verify ::
  "('w, u64) ext \<Rightarrow> ('m \<Rightarrow> ('w, unit outcome) ext) \<Rightarrow> 'm \<Rightarrow> retry_policy \<Rightarrow>
   ('w, ('i, 'r, 'p, 'c) event, 'm outcome) act" where
  "transact_verify rnd verify_source delivery policy =
     act_try
       (act_context ''the source cannot join the sink's transactions''
          (retry_publish rnd policy (\<lambda>w. case verify_source delivery w of (r, w1) \<Rightarrow> (r, [], w1)) 1))
       (\<lambda>_. act_return (Inr delivery))"

section \<open>What a trace shows\<close>

primrec submitted :: "('i, 'r, 'p, 'c) event list \<Rightarrow> ('p \<times> 'c completion) list" where
  "submitted [] = []"
| "submitted (e # t) =
     (case e of EvSubmit p (Some c) \<Rightarrow> (p, c) # submitted t | _ \<Rightarrow> submitted t)"

definition unacked :: "('i, 'r, 'p, 'c) event list \<Rightarrow> bool" where
  "unacked t \<longleftrightarrow> EvAck True \<notin> set t"

definition reached :: "('i, 'r, 'p, 'c) event list \<Rightarrow> 'c completion \<Rightarrow> bool" where
  "reached t c \<longleftrightarrow> completion_is_done c \<or> (\<exists>h. c = CompletionPending h \<and> EvWait h True \<in> set t)"

text \<open>Every output submitted so far has reached the sink's acknowledgement boundary.\<close>

definition outputs_reached :: "('i, 'r, 'p, 'c) event list \<Rightarrow> bool" where
  "outputs_reached t \<longleftrightarrow> (\<forall>(p, c) \<in> set (submitted t). reached t c)"

lemma submitted_append [simp]: "submitted (t @ t') = submitted t @ submitted t'"
  by (induction t) (auto split: event.splits option.splits)

lemma unacked_simps [simp]:
  "unacked []" "unacked (t @ t') \<longleftrightarrow> unacked t \<and> unacked t'"
  "unacked (e # t) \<longleftrightarrow> e \<noteq> EvAck True \<and> unacked t"
  by (auto simp: unacked_def)

lemma reached_append: "reached t c \<or> reached t' c \<Longrightarrow> reached (t @ t') c"
  by (auto simp: reached_def)

lemma outputs_reached_append:
  "outputs_reached t \<Longrightarrow> outputs_reached t' \<Longrightarrow> outputs_reached (t @ t')"
  by (auto simp: outputs_reached_def intro!: reached_append)

lemma outputs_reached_quiet: "submitted t = [] \<Longrightarrow> outputs_reached t"
  by (simp add: outputs_reached_def)

lemma wait_all_trace:
  "wait_all wait cs w = (r, t, w') \<Longrightarrow>
     submitted t = [] \<and> unacked t \<and> (r = Inr () \<longrightarrow> list_all (reached t) cs)"
proof (induction cs arbitrary: w t)
  case (Cons c cs)
  from Cons.prems show ?case unfolding wait_all.simps
  proof (cases rule: act_tryE)
    case (err e)
    then show ?thesis by (cases c) (auto elim!: act_callE)
  next
    case (ok a t1 w1 t2)
    from ok(1) have "submitted t1 = [] \<and> unacked t1 \<and> reached t1 c"
      by (cases c) (auto simp: reached_def is_ok_def elim!: act_callE)
    with Cons.IH [OF ok(2)] ok(3) show ?thesis
      by (auto simp: list_all_iff intro: reached_append)
  qed
qed simp

lemma commit_state_trace:
  "commit_state c w = (r, t, w') \<Longrightarrow>
     submitted t = [] \<and> unacked t \<and> (r = Inr () \<longrightarrow> c \<noteq> None \<longrightarrow> EvCommitState True \<in> set t)"
  by (cases c) (auto simp: is_ok_def elim!: act_contextE act_callE)

lemma ack_delivery_trace:
  "ack_delivery ack m w = (r, t, w') \<Longrightarrow> t = [EvAck (is_ok r)]"
  by (auto simp: ack_delivery_def elim!: act_callE)

lemma prepare_trace:
  "prepare sink os m w = (r, t, w') \<Longrightarrow>
     r = collect_results (map (\<lambda>output. sk_prepare_from sink output m) os) \<and>
     submitted t = [] \<and> unacked t \<and> w' = w"
  by (auto simp: prepare_def Let_def elim!: act_bindE split: if_splits)

lemma submitted_attempts: "submitted t = submitted (attempts_of t)"
proof (induction t)
  case (Cons e t)
  then show ?case by (cases e) (auto split: option.splits)
qed simp

lemma unacked_attempts: "unacked t \<longleftrightarrow> unacked (attempts_of t)"
proof (induction t)
  case (Cons e t)
  then show ?case by (cases e) auto
qed simp

text \<open>One retried submission: it submitted the output exactly when it returned a completion.\<close>

lemma submit_one_trace:
  fixes t :: "('i, 'r, 'p, 'c) event list"
  assumes "retry_publish rnd p (act_call (\<lambda>r. EvSubmit out (ok_value r)) f) 1 w = (res, t, w')"
  shows "unacked t \<and> submitted t = (case res of Inr c \<Rightarrow> [(out, c)] | Inl e \<Rightarrow> [])"
proof -
  let ?ev = "\<lambda>r. EvSubmit out (ok_value r) :: ('i, 'r, 'p, 'c) event"
  from retry_publish_outcome [OF _ assms] obtain failed decisive
    where tr: "attempts_of t = map ?ev failed @ [?ev decisive]"
      and out: "retry_outcome p 1 failed decisive res" by auto
  have un: "unacked (map ?ev rs)" for rs by (induction rs) auto
  have sub: "submitted (map ?ev failed) = []"
    if "list_all (\<lambda>r. \<exists>e. r = Inl e \<and> \<not> rejected e) failed" using that by (induction failed) auto
  have "unacked t" using un [of failed] by (simp add: unacked_attempts [of t] tr)
  moreover have "submitted t = (case res of Inr c \<Rightarrow> [(out, c)] | Inl e \<Rightarrow> [])"
    using out sub by (auto simp: submitted_attempts [of t] tr retry_outcome_def split: sum.splits if_splits)
  ultimately show ?thesis by blast
qed

lemma submit_all_trace:
  "submit_all rnd sink p ps cs w = (r, t, w') \<Longrightarrow>
     unacked t \<and>
     (\<forall>cs' rej. r = Inr (cs', rej) \<longrightarrow>
        cs' = cs @ map snd (submitted t) \<and>
        (case rej of None \<Rightarrow> map fst (submitted t) = ps | Some e \<Rightarrow> rejected e))"
proof (induction ps arbitrary: cs w t)
  case (Cons out ps)
  from Cons.prems obtain res t1 w1 t2
    where one: "retry_publish rnd p (act_call (\<lambda>r. EvSubmit out (ok_value r)) (sk_submit sink out)) 1 w
        = (res, t1, w1)"
      and rest: "(case res of Inr c \<Rightarrow> submit_all rnd sink p ps (cs @ [c])
        | Inl e \<Rightarrow> if rejected e then act_return (Inr (cs, Some e)) else act_return (Inl e)) w1 = (r, t2, w')"
      and t: "t = t1 @ t2"
    by (auto elim!: act_bindE)
  note tr = submit_one_trace [OF one]
  show ?case
  proof (cases res)
    case (Inl e)
    with rest tr t show ?thesis by (auto split: if_splits)
  next
    case (Inr c)
    with rest have "submit_all rnd sink p ps (cs @ [c]) w1 = (r, t2, w')" by simp
    from Cons.IH [OF this] tr t Inr show ?thesis by (auto split: option.splits)
  qed
qed simp

section \<open>The contract of the completion stage\<close>

text \<open>
  What the runtime relies on. \<open>prepared\<close> is what the outputs of a delivery encode to. A delivery is
  acknowledged by the stage only as its last act, after every output was submitted in order and
  reached its acknowledgement boundary and after the state change was committed; whenever the
  delivery is handed back, it is not acknowledged, and nothing was submitted when encoding failed.
\<close>

locale completion_stage =
  fixes complete :: "'m \<Rightarrow> 'o list \<Rightarrow> 'w commit option \<Rightarrow> retry_policy \<Rightarrow>
      ('w, ('i, 'r, 'p, 'c) event, ('w, 'm, 'c) completed outcome) act"
    and prepared :: "'m \<Rightarrow> 'o list \<Rightarrow> 'p list outcome"
  assumes prepared_nil: "prepared m [] = Inr []"
    and failed_unacked: "complete m os c p w = (Inl e, t, w') \<Longrightarrow> unacked t"
    and done_acked: "complete m os c p w = (Inr CDone, t, w') \<Longrightarrow>
      \<exists>t0. t = t0 @ [EvAck True] \<and> unacked t0 \<and> prepared m os = Inr (map fst (submitted t0)) \<and>
           outputs_reached t0 \<and> (c \<noteq> None \<longrightarrow> EvCommitState True \<in> set t0)"
    and pending_unacked: "complete m os c p w = (Inr (CPending m' cs c'), t, w') \<Longrightarrow>
      m' = m \<and> c' = c \<and> unacked t \<and> prepared m os = Inr (map fst (submitted t)) \<and>
      cs = map snd (submitted t)"
    and committing_enlisted: "complete m os c p w = (Inr (CCommitting h), t, w') \<Longrightarrow>
      c = None \<and> unacked t \<and> submitted t = [] \<and>
      (\<exists>ps t0 b. prepared m os = Inr ps \<and> h = CompletionPending b \<and> t = t0 @ [EvEnlist ps (Some b)])"
    and encode_unsubmitted: "complete m os c p w = (Inr (CEncode m' e), t, w') \<Longrightarrow>
      m' = m \<and> unacked t \<and> submitted t = [] \<and> prepared m os = Inl e"
    and rejected_reached: "complete m os c p w = (Inr (CRejected m' e), t, w') \<Longrightarrow>
      m' = m \<and> unacked t \<and> outputs_reached t \<and> rejected e \<and> os \<noteq> []"

definition prepared_by :: "('w, 'm, 'o, 'p, 'c) sink_ops \<Rightarrow> 'm \<Rightarrow> 'o list \<Rightarrow> 'p list outcome" where
  "prepared_by sink m os = collect_results (map (\<lambda>output. sk_prepare_from sink output m) os)"

text \<open>
  The outcomes of \<^verbatim>\<open>Publish::complete\<close>, for the trace \<open>t\<close> of the whole stage and for its last part
  after the trace \<open>ts\<close> of the submissions.
\<close>

fun publish_outcome ::
  "'m \<Rightarrow> 'w commit option \<Rightarrow> 'p list outcome \<Rightarrow> bool \<Rightarrow> ('i, 'r, 'p, 'c) event list \<Rightarrow>
   ('w, 'm, 'c) completed outcome \<Rightarrow> bool" where
  "publish_outcome m c pr some t (Inl e) \<longleftrightarrow> unacked t"
| "publish_outcome m c pr some t (Inr CDone) \<longleftrightarrow>
     (\<exists>t0. t = t0 @ [EvAck True] \<and> unacked t0 \<and> pr = Inr (map fst (submitted t0)) \<and>
        outputs_reached t0 \<and> (c \<noteq> None \<longrightarrow> EvCommitState True \<in> set t0))"
| "publish_outcome m c pr some t (Inr (CPending m' cs c')) \<longleftrightarrow>
     m' = m \<and> c' = c \<and> unacked t \<and> pr = Inr (map fst (submitted t)) \<and> cs = map snd (submitted t)"
| "publish_outcome m c pr some t (Inr (CCommitting h)) \<longleftrightarrow> False"
| "publish_outcome m c pr some t (Inr (CEncode m' e)) \<longleftrightarrow>
     m' = m \<and> unacked t \<and> submitted t = [] \<and> pr = Inl e"
| "publish_outcome m c pr some t (Inr (CRejected m' e)) \<longleftrightarrow>
     m' = m \<and> unacked t \<and> outputs_reached t \<and> rejected e \<and> some"

lemma publish_settle_outcome:
  assumes settle: "publish_settle ack sink m c (map snd (submitted ts), rej) w = (r, t, w')"
    and ts: "unacked ts" "\<And>e. rej = Some e \<Longrightarrow> rejected e \<and> some"
      "rej = None \<Longrightarrow> pr = Inr (map fst (submitted ts))"
  shows "publish_outcome m c pr some (ts @ t) r"
proof (cases rej)
  case (Some e)
  from settle [unfolded publish_settle_def Some prod.case option.case] show ?thesis
  proof (cases rule: act_tryE)
    case (err e')
    with ts show ?thesis by (auto elim!: act_contextE dest!: wait_all_trace)
  next
    case (ok u t1 w1 t2)
    then have "wait_all (sk_wait sink) (map snd (submitted ts)) w = (Inr (), t1, w1)"
      by (auto elim!: act_contextE)
    from wait_all_trace [OF this]
    have "submitted t1 = []" "unacked t1" "list_all (reached t1) (map snd (submitted ts))" by auto
    moreover from this have "outputs_reached (ts @ t1)"
      by (auto simp: outputs_reached_def list_all_iff intro!: reached_append)
    ultimately show ?thesis using ok ts Some by auto
  qed
next
  case None
  show ?thesis
  proof (cases "list_all completion_is_done (map snd (submitted ts))")
    case False
    with settle None ts show ?thesis by (auto simp: publish_settle_def)
  next
    case True
    with settle None have "act_try (commit_state c) (\<lambda>_.
        act_try (ack_delivery ack m) (\<lambda>_. act_return (Inr CDone))) w = (r, t, w')"
      by (simp add: publish_settle_def)
    then show ?thesis
    proof (cases rule: act_tryE)
      case (err e)
      with commit_state_trace [OF err(1)] ts show ?thesis by auto
    next
      case (ok u t1 w1 t2)
      note ct = commit_state_trace [OF ok(1)]
      from ok(2) show ?thesis
      proof (cases rule: act_tryE)
        case (err e)
        with ack_delivery_trace [OF err(1)] ct ts ok(3) show ?thesis by (auto simp: is_ok_def)
      next
        case ack: (ok v t3 w2 t4)
        have "outputs_reached (ts @ t1)"
          using True ct by (auto simp: outputs_reached_def reached_def list_all_iff)
        moreover have "ts @ t = (ts @ t1) @ [EvAck True]" "r = Inr CDone"
          using ack ack_delivery_trace [OF ack(1)] ok(3) by (auto simp: is_ok_def)
        ultimately show ?thesis using ct ts None by (auto intro!: exI [of _ "ts @ t1"])
      qed
    qed
  qed
qed

lemma publish_complete_outcome:
  assumes "publish_complete rnd ack sink m os c p w = (r, t, w')"
  shows "publish_outcome m c (prepared_by sink m os) (os \<noteq> []) t r"
proof -
  from assms obtain pr t1 w1 t2 where prep: "prepare sink os m w = (pr, t1, w1)" and t: "t = t1 @ t2"
    and rest: "(case pr of Inl error \<Rightarrow> act_return (Inr (CEncode m error))
       | Inr outputs \<Rightarrow> act_try (submit_all rnd sink p outputs []) (publish_settle ack sink m c)) w1
       = (r, t2, w')"
    unfolding publish_complete_def by (auto elim!: act_bindE)
  have pt: "prepared_by sink m os = pr" "submitted t1 = []" "unacked t1"
    using prepare_trace [OF prep] by (auto simp: prepared_by_def)
  show ?thesis
  proof (cases pr)
    case (Inl error)
    with rest pt t show ?thesis by auto
  next
    case (Inr ps)
    from rest [unfolded Inr sum.case] show ?thesis
    proof (cases rule: act_tryE)
      case (err e)
      with submit_all_trace [OF err(1)] pt t show ?thesis by simp
    next
      case (ok a ts w2 t3)
      obtain cs rej where a: "a = (cs, rej)" by fastforce
      note sub = submit_all_trace [OF ok(1) [unfolded a]]
      have "rej \<noteq> None \<Longrightarrow> os \<noteq> []"
        using ok(1) a Inr pt(1) by (auto simp: prepared_by_def)
      with ok(2) a sub pt Inr have "publish_outcome m c (Inr ps) (os \<noteq> []) ((t1 @ ts) @ t3) r"
        by (intro publish_settle_outcome [where rej = rej]) (auto split: option.splits)
      with t ok(3) pt(1) Inr show ?thesis by simp
    qed
  qed
qed

interpretation publish: completion_stage "publish_complete rnd ack sink" "prepared_by sink"
  for rnd :: "('w, u64) ext" and ack :: "'m \<Rightarrow> ('w, unit outcome) ext"
    and sink :: "('w, 'm, 'o, 'p, 'c) sink_ops"
proof unfold_locales
  show "prepared_by sink m [] = Inr []" for m by (simp add: prepared_by_def)
qed (auto dest: publish_complete_outcome)

text \<open>Prepared outputs of a transactional delivery join a batch; nothing is submitted on its own.\<close>

lemma transact_complete_outcome:
  assumes "transact_complete sink enlister m os c p w = (r, t, w')"
  shows "unacked t \<and> submitted t = [] \<and>
    (case r of
       Inl e \<Rightarrow> True
     | Inr (CCommitting h) \<Rightarrow>
         c = None \<and> (\<exists>ps t0 b. prepared_by sink m os = Inr ps \<and> h = CompletionPending b
           \<and> t = t0 @ [EvEnlist ps (Some b)])
     | Inr (CEncode m' e) \<Rightarrow> m' = m \<and> prepared_by sink m os = Inl e
     | _ \<Rightarrow> False)"
proof (cases "c = None")
  case True
  with assms obtain pr t1 w1 t2 where prep: "prepare sink os m w = (pr, t1, w1)" and t: "t = t1 @ t2"
    and rest: "(case pr of
          Inl error \<Rightarrow> act_return (Inr (CEncode m error))
        | Inr outputs \<Rightarrow>
            (case enlister of
               None \<Rightarrow> act_return (Inl (Crate (error_msg ''transaction batching has not started'')))
             | Some enlist \<Rightarrow>
                 act_try (act_call (\<lambda>r. EvEnlist outputs (ok_value r)) (enlist m outputs))
                   (\<lambda>committed. act_return (Inr (CCommitting (CompletionPending committed)))))) w1
          = (r, t2, w')"
    by (auto simp: transact_complete_def elim!: act_bindE)
  have pt: "prepared_by sink m os = pr" "submitted t1 = []" "unacked t1"
    using prepare_trace [OF prep] by (auto simp: prepared_by_def)
  show ?thesis
  proof (cases pr)
    case (Inl error)
    with rest pt t show ?thesis by auto
  next
    case (Inr ps)
    with rest pt t True show ?thesis
      by (cases enlister) (auto elim!: act_tryE act_callE)
  qed
next
  case False
  with assms show ?thesis by (auto simp: transact_complete_def)
qed

interpretation transact: completion_stage "transact_complete sink enlister" "prepared_by sink"
  for sink :: "('w, 'm, 'o, 'p, 'c) sink_ops"
    and enlister :: "('m \<Rightarrow> 'p list \<Rightarrow> ('w, 'c outcome) ext) option"
proof unfold_locales
  show "prepared_by sink m [] = Inr []" for m by (simp add: prepared_by_def)
qed (auto dest: transact_complete_outcome)

end
