(* ===== verification/Processing.thy ===== *)
theory Processing
  imports Completions
begin

text \<open>
  One decoded delivery, \<^verbatim>\<open>src/subscription/processing.rs\<close>, with the handler results of
  \<^verbatim>\<open>src/handler.rs\<close>, the middleware of \<^verbatim>\<open>src/middleware.rs\<close> and \<^verbatim>\<open>src/tombstone.rs\<close>, and the
  dead-letter route of \<^verbatim>\<open>src/subscription/builder.rs\<close>: middleware, handler retries, publishing,
  failure routing, acknowledgement.
\<close>

section \<open>Handlers and middleware\<close>

datatype 'o emit = EmitNone | EmitOne 'o | EmitMany "'o list"

fun emit_map :: "('o \<Rightarrow> 'u) \<Rightarrow> 'o emit \<Rightarrow> 'u emit" where
  "emit_map f EmitNone = EmitNone"
| "emit_map f (EmitOne v) = EmitOne (f v)"
| "emit_map f (EmitMany vs) = EmitMany (map f vs)"

fun emit_values :: "'o emit \<Rightarrow> 'o list" where
  "emit_values EmitNone = []"
| "emit_values (EmitOne v) = [v]"
| "emit_values (EmitMany vs) = vs"

datatype handler_error = HRetry box_error | HReject box_error | HFatal box_error

type_synonym 'a hresult = "handler_error + 'a"

text \<open>\<^verbatim>\<open>From<E> for HandlerError\<close> and \<^verbatim>\<open>Classify\<close>.\<close>

definition handler_error_from :: "box_error \<Rightarrow> handler_error" where
  "handler_error_from e = HReject e"

fun classify_reject :: "'a outcome \<Rightarrow> 'a hresult" where
  "classify_reject (Inl e) = Inl (HReject e)"
| "classify_reject (Inr a) = Inr a"

fun classify_retry :: "'a outcome \<Rightarrow> 'a hresult" where
  "classify_retry (Inl e) = Inl (HRetry e)"
| "classify_retry (Inr a) = Inr a"

fun classify_fatal :: "'a outcome \<Rightarrow> 'a hresult" where
  "classify_fatal (Inl e) = Inl (HFatal e)"
| "classify_fatal (Inr a) = Inr a"

text \<open>\<^verbatim>\<open>Outcome\<close>: what one handler attempt produced.\<close>

record ('w, 'o) handler_outcome =
  ho_outputs :: "'o emit"
  ho_commit :: "'w commit option"

definition outcome_stateless :: "'o emit \<Rightarrow> ('w, 'o) handler_outcome" where
  "outcome_stateless outs = \<lparr>ho_outputs = outs, ho_commit = None\<rparr>"

datatype ('i, 'o) flow = FlowContinue 'i | FlowIntercept "'o emit"

record ('w, 'i, 'o) middleware =
  pre_handler :: "'i \<Rightarrow> ('w, ('i, 'o) flow hresult) ext"
  post_handler :: "'i \<Rightarrow> 'o \<Rightarrow> ('w, 'o hresult) ext"

text \<open>The default hooks of the trait, \<^verbatim>\<open>MapMetadata\<close>, and the tombstone middleware.\<close>

definition default_middleware :: "('w, 'i, 'o) middleware" where
  "default_middleware =
     \<lparr>pre_handler = (\<lambda>i w. (Inr (FlowContinue i), w)), post_handler = (\<lambda>_ out w. (Inr out, w))\<rparr>"

definition map_metadata :: "('i \<Rightarrow> 'o \<Rightarrow> 'o hresult) \<Rightarrow> ('w, 'i, 'o) middleware" where
  "map_metadata f = default_middleware\<lparr>post_handler := (\<lambda>i out w. (f i out, w))\<rparr>"

datatype tombstone_policy = TombstoneReject | TombstoneSkip

definition tombstones :: "('i \<Rightarrow> bool) \<Rightarrow> tombstone_policy \<Rightarrow> ('w, 'i, 'o) middleware" where
  "tombstones is_tombstone policy = default_middleware\<lparr>pre_handler := (\<lambda>i w.
     (if \<not> is_tombstone i then Inr (FlowContinue i)
      else (case policy of
              TombstoneReject \<Rightarrow>
                Inl (HReject (Crate (InvalidRecord ''tombstone rejected before the handler'')))
            | TombstoneSkip \<Rightarrow> Inr (FlowIntercept EmitNone)), w))\<rparr>"

definition propagate_tombstones ::
  "('i \<Rightarrow> bool) \<Rightarrow> ('i \<Rightarrow> 'o hresult) \<Rightarrow> ('w, 'i, 'o) middleware" where
  "propagate_tombstones is_tombstone tombstone = default_middleware\<lparr>pre_handler := (\<lambda>i w.
     (if \<not> is_tombstone i then Inr (FlowContinue i)
      else map_sum id (\<lambda>out. FlowIntercept (EmitOne out)) (tombstone i), w))\<rparr>"

section \<open>The pipeline\<close>

text \<open>The dead-letter sink of \<^verbatim>\<open>dead_letter_with\<close>: its conversion, preparation and publication.\<close>

record ('w, 'i, 'r, 'd) dead_letter_sink =
  dls_prepare :: "('i, 'r) dead_letter \<Rightarrow> 'd outcome"
  dls_publish :: "'d \<Rightarrow> ('w, unit outcome) ext"

definition dead_letter_with ::
  "(('i, 'r) dead_letter \<Rightarrow> 't outcome) \<Rightarrow> ('t \<Rightarrow> 'd outcome) \<Rightarrow> ('d \<Rightarrow> ('w, unit outcome) ext) \<Rightarrow>
   ('w, 'i, 'r, 'd) dead_letter_sink" where
  "dead_letter_with convert prep publish =
     \<lparr>dls_prepare = (\<lambda>d. bind_result (convert d) prep), dls_publish = publish\<rparr>"

record ('w, 'm, 'i, 'o, 'p, 'c, 'r, 'x, 'd) pipeline =
  pl_name :: string
  pl_handler :: "'i \<Rightarrow> 'x option \<Rightarrow> ('w, ('w, 'o) handler_outcome hresult) ext"
  pl_stateful :: bool
  pl_middleware :: "('w, 'i, 'o) middleware list"
  pl_output :: "'m \<Rightarrow> 'o list \<Rightarrow> 'w commit option \<Rightarrow> retry_policy \<Rightarrow>
      ('w, ('i, 'r, 'p, 'c) event, ('w, 'm, 'c) completed outcome) act"
  pl_dlq :: "('w, 'i, 'r, 'd) dead_letter_sink option"
  pl_handler_retry :: retry_policy
  pl_publish_retry :: retry_policy
  pl_dead_letter_retry :: retry_policy
  pl_error_policy :: error_policy
  pl_random :: "('w, u64) ext"
  pl_context_of :: "string \<Rightarrow> 'm \<Rightarrow> 'x"
  pl_raw :: "'m \<Rightarrow> 'r"
  pl_ack :: "'m \<Rightarrow> ('w, unit outcome) ext"
  pl_wait :: "'c \<Rightarrow> ('w, unit outcome) ext"

record 'i failure =
  fl_kind :: failure_kind
  fl_error :: box_error
  fl_attempts :: usize
  fl_input :: "'i option"

record ('w, 'i, 'o) outputs =
  ou_values :: "'o list"
  ou_input :: 'i
  ou_attempts :: usize
  ou_commit :: "'w commit option"

type_synonym ('w, 'i, 'o) handled = "('i failure + ('w, 'i, 'o) outputs) outcome"

text \<open>\<^verbatim>\<open>PendingAck\<close>: what is left to do for a delivery after its job ended.\<close>

datatype ('w, 'm, 'c) pending_ack =
    AwaitCompletions 'm "'c completion list" "'w commit option"
  | AwaitCommit "'c completion"

text \<open>\<^verbatim>\<open>post_handlers\<close> and \<^verbatim>\<open>finish\<close>.\<close>

primrec post_handlers ::
  "('w, 'i, 'o) middleware list \<Rightarrow> 'i \<Rightarrow> 'o \<Rightarrow> ('w, ('i, 'r, 'p, 'c) event, 'o hresult) act" where
  "post_handlers [] input out = act_return (Inr out)"
| "post_handlers (m # ms) input out =
     act_bind (act_call (\<lambda>_. EvPost) (post_handler m input out))
       (\<lambda>r. case r of Inl e \<Rightarrow> act_return (Inl e) | Inr out \<Rightarrow> post_handlers ms input out)"

primrec finish ::
  "'o list \<Rightarrow> 'o list \<Rightarrow> 'i \<Rightarrow> usize \<Rightarrow> 'w commit option \<Rightarrow>
   ('w, 'm, 'i, 'o, 'p, 'c, 'r, 'x, 'd) pipeline \<Rightarrow>
   ('w, ('i, 'r, 'p, 'c) event, ('w, 'i, 'o) handled) act" where
  "finish [] mapped input attempts commit pipeline =
     act_return (Inr (Inr \<lparr>ou_values = mapped, ou_input = input, ou_attempts = attempts,
                           ou_commit = commit\<rparr>))"
| "finish (out # outs) mapped input attempts commit pipeline =
     act_bind (post_handlers (pl_middleware pipeline) input out)
       (\<lambda>r. case r of
              Inr out \<Rightarrow> finish outs (mapped @ [out]) input attempts commit pipeline
            | Inl (HReject error) \<Rightarrow>
                act_return (Inr (Inl \<lparr>fl_kind = FkRejected,
                  fl_error = box_context ''rejected after the handler'' error,
                  fl_attempts = attempts, fl_input = Some input\<rparr>))
            | Inl (HRetry error) \<Rightarrow>
                act_return (Inl (box_context ''post-handler middleware failed'' error))
            | Inl (HFatal error) \<Rightarrow>
                act_return (Inl (box_context ''post-handler middleware failed'' error)))"

text \<open>The middleware loop before the handler: the flow it ends with, or the hook's error.\<close>

fun pre_handlers ::
  "('w, 'i, 'o) middleware list \<Rightarrow> ('i, 'o) flow \<Rightarrow>
   ('w, ('i, 'r, 'p, 'c) event, ('i, 'o) flow hresult) act" where
  "pre_handlers (m # ms) (FlowContinue i) =
     act_bind (act_call (\<lambda>_. EvPre i) (pre_handler m i))
       (\<lambda>r. case r of Inl e \<Rightarrow> act_return (Inl e) | Inr flow \<Rightarrow> pre_handlers ms flow)"
| "pre_handlers _ flow = act_return (Inr flow)"

text \<open>
  The handler loop, with \<open>attempts\<close> attempts made so far: the outcome with its attempt number, or
  the failure to route.
\<close>

function handler_loop ::
  "('w, 'm, 'i, 'o, 'p, 'c, 'r, 'x, 'd) pipeline \<Rightarrow> 'i \<Rightarrow> 'i \<Rightarrow> 'x option \<Rightarrow> usize \<Rightarrow>
   ('w, ('i, 'r, 'p, 'c) event, ('i failure + ('w, 'o) handler_outcome \<times> usize) outcome) act" where
  "handler_loop pipeline input handler_input context attempts w =
     (let attempts = attempts + 1 in
      case pl_handler pipeline handler_input context w of
        (Inr out, w1) \<Rightarrow> (Inr (Inr (out, attempts)), [EvHandle handler_input attempts], w1)
      | (Inl (HRetry error), w1) \<Rightarrow>
          if attempts \<ge> max_attempts (pl_handler_retry pipeline)
          then (Inr (Inl \<lparr>fl_kind = FkRetryExhausted, fl_error = error, fl_attempts = attempts,
                          fl_input = Some input\<rparr>), [EvHandle handler_input attempts], w1)
          else (case sleep_delay (pl_random pipeline) (pl_handler_retry pipeline) attempts w1 of
                  (_, ts, w2) \<Rightarrow>
                    (case handler_loop pipeline input handler_input context attempts w2 of
                       (res, t, w3) \<Rightarrow> (res, EvHandle handler_input attempts # ts @ t, w3)))
      | (Inl (HReject error), w1) \<Rightarrow>
          (Inr (Inl \<lparr>fl_kind = FkRejected, fl_error = error, fl_attempts = attempts,
                     fl_input = Some input\<rparr>), [EvHandle handler_input attempts], w1)
      | (Inl (HFatal error), w1) \<Rightarrow>
          (Inl (box_context ''fatal handler error'' error), [EvHandle handler_input attempts], w1))"
  by pat_completeness auto
termination
  by (relation "measure (\<lambda>(pipeline, i, h, c, attempts, w). max_attempts (pl_handler_retry pipeline) - attempts)")
    auto

declare handler_loop.simps [simp del]

definition handle ::
  "'i \<Rightarrow> 'x option \<Rightarrow> ('w, 'm, 'i, 'o, 'p, 'c, 'r, 'x, 'd) pipeline \<Rightarrow>
   ('w, ('i, 'r, 'p, 'c) event, ('w, 'i, 'o) handled) act" where
  "handle input context pipeline =
     act_bind (pre_handlers (pl_middleware pipeline) (FlowContinue input)) (\<lambda>r.
       case r of
         Inl (HReject error) \<Rightarrow>
           act_return (Inr (Inl \<lparr>fl_kind = FkRejected,
             fl_error = box_context ''rejected before the handler'' error,
             fl_attempts = 0, fl_input = Some input\<rparr>))
       | Inl (HRetry error) \<Rightarrow> act_return (Inl (box_context ''pre-handler middleware failed'' error))
       | Inl (HFatal error) \<Rightarrow> act_return (Inl (box_context ''pre-handler middleware failed'' error))
       | Inr (FlowIntercept values) \<Rightarrow> finish (emit_values values) [] input 0 None pipeline
       | Inr (FlowContinue handler_input) \<Rightarrow>
           act_try (handler_loop pipeline input handler_input context 0) (\<lambda>r.
             case r of
               Inl failure \<Rightarrow> act_return (Inr (Inl failure))
             | Inr (out, attempts) \<Rightarrow>
                 finish (emit_values (ho_outputs out)) [] input attempts (ho_commit out) pipeline))"

text \<open>\<^verbatim>\<open>acknowledge\<close>: a delivery without output still goes through the completion stage.\<close>

definition acknowledge ::
  "'m \<Rightarrow> ('w, 'm, 'i, 'o, 'p, 'c, 'r, 'x, 'd) pipeline \<Rightarrow>
   ('w, ('i, 'r, 'p, 'c) event, ('w, 'm, 'c) pending_ack option outcome) act" where
  "acknowledge delivery pipeline =
     act_try (pl_output pipeline delivery [] None (pl_publish_retry pipeline)) (\<lambda>ended.
       case ended of
         CDone \<Rightarrow> act_return (Inr None)
       | CPending delivery _ _ \<Rightarrow>
           act_try (ack_delivery (pl_ack pipeline) delivery) (\<lambda>_. act_return (Inr None))
       | CCommitting committed \<Rightarrow> act_return (Inr (Some (AwaitCommit committed)))
       | CEncode _ error \<Rightarrow> act_return (Inl error)
       | CRejected _ error \<Rightarrow> act_return (Inl error))"

text \<open>The alternate display of a boxed error: only the crate's own errors list their causes.\<close>

fun box_display_alternate :: "box_error \<Rightarrow> string" where
  "box_display_alternate (Crate e) = error_display_alternate e"
| "box_display_alternate e = box_display e"

text \<open>The route closure of \<^verbatim>\<open>dead_letter_with\<close>: one preparation, then retried publication.\<close>

definition publish_dead_letter ::
  "('w, u64) ext \<Rightarrow> ('w, 'i, 'r, 'd) dead_letter_sink \<Rightarrow> ('i, 'r) dead_letter \<Rightarrow> retry_policy \<Rightarrow>
   ('w, ('i, 'r, 'p, 'c) event, unit outcome) act" where
  "publish_dead_letter rnd sink d policy =
     (case result_context ''prepare dead letter failed'' (dls_prepare sink d) of
        Inl error \<Rightarrow> act_return (Inl error)
      | Inr prepared \<Rightarrow>
          act_context ''dead-letter publish failed''
            (retry_publish rnd policy
               (act_call (\<lambda>r. EvDeadLetter d (is_ok r)) (dls_publish sink prepared)) 1))"

definition route ::
  "'m \<Rightarrow> ('w, 'm, 'i, 'o, 'p, 'c, 'r, 'x, 'd) pipeline \<Rightarrow> 'i failure \<Rightarrow>
   ('w, ('i, 'r, 'p, 'c) event, ('w, 'm, 'c) pending_ack option outcome) act" where
  "route delivery pipeline failure =
     (let kind = fl_kind failure; error = fl_error failure in
      act_bind (act_log (EvFailure kind)) (\<lambda>_.
        case policy_action (pl_error_policy pipeline) kind of
          Stop \<Rightarrow> act_return (Inl (box_context (kind_display kind) error))
        | Discard \<Rightarrow> acknowledge delivery pipeline
        | DeadLetterAction \<Rightarrow>
            (case pl_dlq pipeline of
               None \<Rightarrow>
                 act_return (Inl (box_context ''no dead-letter sink configured''
                                    (box_context (kind_display kind) error)))
             | Some dlq \<Rightarrow>
                 let dead_letter = dead_letter_new (pl_name pipeline) kind error
                       (fl_attempts failure) (fl_input failure) (pl_raw pipeline delivery)
                 in act_try
                      (act_context (kind_display kind @ '': '' @ box_display_alternate error)
                         (publish_dead_letter (pl_random pipeline) dlq dead_letter
                            (pl_dead_letter_retry pipeline)))
                      (\<lambda>_. acknowledge delivery pipeline))))"

definition process ::
  "'m \<Rightarrow> 'i outcome \<Rightarrow> ('w, 'm, 'i, 'o, 'p, 'c, 'r, 'x, 'd) pipeline \<Rightarrow>
   ('w, ('i, 'r, 'p, 'c) event, ('w, 'm, 'c) pending_ack option outcome) act" where
  "process delivery decoded pipeline =
     (let context = (if pl_stateful pipeline
                     then Some (pl_context_of pipeline (pl_name pipeline) delivery) else None)
      in case decoded of
           Inl error \<Rightarrow>
             route delivery pipeline
               \<lparr>fl_kind = FkDecode, fl_error = error, fl_attempts = 0, fl_input = None\<rparr>
         | Inr input \<Rightarrow>
             act_try (handle input context pipeline) (\<lambda>handled.
               case handled of
                 Inl failure \<Rightarrow> route delivery pipeline failure
               | Inr outs \<Rightarrow>
                   act_try
                     (pl_output pipeline delivery (ou_values outs) (ou_commit outs)
                        (pl_publish_retry pipeline))
                     (\<lambda>ended. case ended of
                        CDone \<Rightarrow> act_return (Inr None)
                      | CPending delivery completions commit \<Rightarrow>
                          act_return (Inr (Some (AwaitCompletions delivery completions commit)))
                      | CCommitting committed \<Rightarrow> act_return (Inr (Some (AwaitCommit committed)))
                      | CEncode delivery error \<Rightarrow>
                          route delivery pipeline
                            \<lparr>fl_kind = FkEncode, fl_error = error, fl_attempts = ou_attempts outs,
                             fl_input = Some (ou_input outs)\<rparr>
                      | CRejected delivery error \<Rightarrow>
                          route delivery pipeline
                            \<lparr>fl_kind = FkPublishRejected, fl_error = error,
                             fl_attempts = ou_attempts outs, fl_input = Some (ou_input outs)\<rparr>)))"

text \<open>\<^verbatim>\<open>await_completions\<close> and \<^verbatim>\<open>await_commit\<close>.\<close>

fun run_pending ::
  "('w, 'm, 'i, 'o, 'p, 'c, 'r, 'x, 'd) pipeline \<Rightarrow> ('w, 'm, 'c) pending_ack \<Rightarrow>
   ('w, ('i, 'r, 'p, 'c) event, unit outcome) act" where
  "run_pending pipeline (AwaitCompletions delivery completions commit) =
     act_try (act_context ''output completion failed'' (wait_all (pl_wait pipeline) completions)) (\<lambda>_.
       act_try (commit_state commit) (\<lambda>_. ack_delivery (pl_ack pipeline) delivery))"
| "run_pending pipeline (AwaitCommit committed) =
     act_context ''transaction commit failed'' (completion_wait (pl_wait pipeline) committed)"

text \<open>A delivery from its decoded value to its settlement: the job, then what it left pending.\<close>

definition run_delivery ::
  "'m \<Rightarrow> 'i outcome \<Rightarrow> ('w, 'm, 'i, 'o, 'p, 'c, 'r, 'x, 'd) pipeline \<Rightarrow>
   ('w, ('i, 'r, 'p, 'c) event, unit outcome) act" where
  "run_delivery delivery decoded pipeline =
     act_try (process delivery decoded pipeline) (\<lambda>pending.
       case pending of None \<Rightarrow> act_return (Inr ()) | Some ack \<Rightarrow> run_pending pipeline ack)"

section \<open>Traces of the stages before completion\<close>

text \<open>Neither submits an output nor acknowledges.\<close>

definition quiet :: "('i, 'r, 'p, 'c) event list \<Rightarrow> bool" where
  "quiet t \<longleftrightarrow> submitted t = [] \<and> unacked t"

lemma quiet_simps [simp]:
  "quiet []" "quiet (t @ t') \<longleftrightarrow> quiet t \<and> quiet t'"
  "quiet (EvPre i # t) \<longleftrightarrow> quiet t" "quiet (EvHandle i n # t) \<longleftrightarrow> quiet t"
  "quiet (EvSleep d # t) \<longleftrightarrow> quiet t" "quiet (EvPost # t) \<longleftrightarrow> quiet t"
  "quiet (EvFailure k # t) \<longleftrightarrow> quiet t" "quiet (EvDeadLetter dl b # t) \<longleftrightarrow> quiet t"
  by (auto simp: quiet_def)

lemma post_handlers_quiet: "post_handlers ms i out w = (r, t, w') \<Longrightarrow> quiet t"
  by (induction ms arbitrary: out w t) (auto elim!: act_bindE act_callE split: sum.splits)

lemma finish_quiet: "finish outs mapped i n c pl w = (r, t, w') \<Longrightarrow> quiet t"
proof (induction outs arbitrary: mapped w t)
  case (Cons out outs)
  from Cons.prems show ?case
    by (auto elim!: act_bindE dest!: post_handlers_quiet Cons.IH
        split: sum.splits handler_error.splits)
qed simp

lemma pre_handlers_quiet: "pre_handlers ms fl w = (r, t, w') \<Longrightarrow> quiet t"
  by (induction ms fl arbitrary: w t rule: pre_handlers.induct)
    (auto elim!: act_bindE act_callE split: sum.splits)

text \<open>
  The handler loop from \<open>n\<close> attempts on: it made the attempts \<open>n + 1\<close> to \<open>n + k\<close> in order, separated
  by sleeps only, stayed within the policy, and reports the number of the last attempt.
\<close>

definition loop_result_ok ::
  "('w, 'm, 'i, 'o, 'p, 'c, 'r, 'x, 'd) pipeline \<Rightarrow> 'i \<Rightarrow> usize \<Rightarrow>
   ('i failure + ('w, 'o) handler_outcome \<times> usize) outcome \<Rightarrow> bool" where
  "loop_result_ok pl i final r \<longleftrightarrow>
     (case r of
        Inl e \<Rightarrow> True
      | Inr (Inr (out, a)) \<Rightarrow> a = final
      | Inr (Inl f) \<Rightarrow> fl_attempts f = final \<and> fl_input f = Some i \<and>
          (fl_kind f = FkRejected \<or>
           fl_kind f = FkRetryExhausted \<and> max_attempts (pl_handler_retry pl) \<le> final))"

lemma handler_loop_trace:
  fixes pl :: "('w, 'm, 'i, 'o, 'p, 'c, 'r, 'x, 'd) pipeline"
  assumes "handler_loop pl i h ctx n w = (r, t, w')"
  shows "\<exists>k \<ge> 1. attempts_of t = map (EvHandle h) [n + 1 ..< n + 1 + k] \<and>
    (n + k \<le> max_attempts (pl_handler_retry pl) \<or> k = 1) \<and> loop_result_ok pl i (n + k) r"
  using assms
proof (induction "max_attempts (pl_handler_retry pl) - n" arbitrary: n w t rule: less_induct)
  case less
  let ?max = "max_attempts (pl_handler_retry pl)"
  obtain res w1 where call: "pl_handler pl h ctx w = (res, w1)" by fastforce
  show ?case
  proof (cases "\<exists>e. res = Inl (HRetry e) \<and> n + 1 < ?max")
    case False
    with less.prems call have "t = [EvHandle h (n + 1)]" "loop_result_ok pl i (n + 1) r"
      by (auto simp: handler_loop.simps [of pl i h ctx n w] Let_def loop_result_ok_def
          split: sum.splits handler_error.splits if_splits)
    then show ?thesis by (intro exI [of _ 1]) simp
  next
    case True
    then obtain e where e: "res = Inl (HRetry e)" "n + 1 < ?max" by blast
    obtain u w2 and ts :: "('i, 'r, 'p, 'c) event list"
      where sl: "sleep_delay (pl_random pl) (pl_handler_retry pl) (n + 1) w1 = (u, ts, w2)"
      by (rule prod_cases3)
    obtain r' t' w3 where rec: "handler_loop pl i h ctx (n + 1) w2 = (r', t', w3)" by (rule prod_cases3)
    from less.prems call e sl rec have t: "t = EvHandle h (n + 1) # ts @ t'" "r = r'" "w' = w3"
      by (simp_all add: handler_loop.simps [of pl i h ctx n w] Let_def)
    have "?max - (n + 1) < ?max - n" using e by simp
    from less.hyps [OF this rec [folded t(2,3)]] obtain k where k: "k \<ge> 1"
      "attempts_of t' = map (EvHandle h) [n + 1 + 1 ..< n + 1 + 1 + k]"
      "n + 1 + k \<le> ?max \<or> k = 1" "loop_result_ok pl i (n + 1 + k) r" by blast
    from sl have "attempts_of ts = []" by (auto elim: sleep_delayE)
    then have "attempts_of t = map (EvHandle h) ((n + 1) # [n + 1 + 1 ..< n + 1 + 1 + k])"
      using k(2) t(1) by simp
    also have "(n + 1) # [n + 1 + 1 ..< n + 1 + 1 + k] = [n + 1 ..< n + 1 + (k + 1)]"
      by (simp add: upt_conv_Cons)
    finally show ?thesis using k e by (intro exI [of _ "k + 1"]) (auto simp: add.assoc)
  qed
qed

lemma quiet_attempts: "quiet t \<longleftrightarrow> quiet (attempts_of t)"
  by (simp add: quiet_def submitted_attempts [symmetric] unacked_attempts [symmetric])

lemma quiet_map_handle [simp]: "quiet (map (EvHandle h) ns)"
  by (induction ns) auto

lemma handler_loop_quiet: "handler_loop pl i h ctx n w = (r, t, w') \<Longrightarrow> quiet t"
  by (subst quiet_attempts) (auto dest!: handler_loop_trace)

lemma handle_quiet:
  assumes "handle i ctx pl w = (r, t, w')"
  shows "quiet t"
  using assms unfolding handle_def
  by (auto elim!: act_bindE act_tryE dest!: pre_handlers_quiet handler_loop_quiet finish_quiet
      split: sum.splits handler_error.splits flow.splits prod.splits)

lemma publish_dead_letter_trace:
  fixes t :: "('i, 'r, 'p, 'c) event list"
  assumes "publish_dead_letter rnd dlq d p w = (r, t, w')"
  shows "quiet t \<and> (r = Inr () \<longrightarrow> EvDeadLetter d True \<in> set t)"
proof (cases "dls_prepare dlq d")
  case (Inl e)
  with assms show ?thesis by (auto simp: publish_dead_letter_def)
next
  case (Inr prep)
  let ?ev = "\<lambda>r. EvDeadLetter d (is_ok r) :: ('i, 'r, 'p, 'c) event"
  from assms have "act_context ''dead-letter publish failed''
      (retry_publish rnd p (act_call ?ev (dls_publish dlq prep)) 1) w = (r, t, w')"
    by (simp add: publish_dead_letter_def Inr)
  then obtain r' where
    "retry_publish rnd p (act_call ?ev (dls_publish dlq prep)) 1 w = (r', t, w')"
    and r: "result_context ''dead-letter publish failed'' r' = r"
    by (rule act_contextE)
  from retry_publish_outcome [OF _ this(1)] obtain failed decisive
    where tr: "attempts_of t = map ?ev failed @ [?ev decisive]"
      and out: "retry_outcome p 1 failed decisive r'" by auto
  have q: "quiet (map ?ev rs)" for rs by (induction rs) auto
  have "quiet t" using q [of failed] q [of "[decisive]"] by (simp add: quiet_attempts [of t] tr)
  moreover have "EvDeadLetter d True \<in> set t" if "r = Inr ()"
  proof -
    from that r have "r' = Inr ()" by simp
    with out have "is_ok decisive"
      by (cases decisive) (simp_all add: retry_outcome_def is_ok_def split: if_splits)
    then have "EvDeadLetter d True \<in> set (attempts_of t)" by (simp add: tr)
    then show ?thesis by (simp add: attempts_of_def)
  qed
  ultimately show ?thesis by blast
qed

section \<open>What an acknowledgement rests on\<close>

definition delivery_context ::
  "('w, 'm, 'i, 'o, 'p, 'c, 'r, 'x, 'd) pipeline \<Rightarrow> 'm \<Rightarrow> 'x option" where
  "delivery_context pl m = (if pl_stateful pl then Some (pl_context_of pl (pl_name pl) m) else None)"

text \<open>
  The delivery was handled and all its outputs, encoded by \<open>prep\<close>, are submitted in order by the
  trace \<open>t\<close>; \<open>c\<close> is its state change.
\<close>

definition published ::
  "('m \<Rightarrow> 'o list \<Rightarrow> 'p list outcome) \<Rightarrow> 'm \<Rightarrow> 'i outcome \<Rightarrow>
   ('w, 'm, 'i, 'o, 'p, 'c, 'r, 'x, 'd) pipeline \<Rightarrow> 'w \<Rightarrow> 'p list \<Rightarrow> 'w commit option \<Rightarrow> bool" where
  "published prep m decoded pl w ps c \<longleftrightarrow>
     (\<exists>i outs (t :: ('i, 'r, 'p, 'c) event list) w'. decoded = Inr i \<and>
        handle i (delivery_context pl m) pl w = (Inr (Inr outs), t, w') \<and>
        prep m (ou_values outs) = Inr ps \<and> c = ou_commit outs)"

text \<open>A failure of the delivery was routed by the trace \<open>t\<close>: discarded, or dead-lettered in full.\<close>

definition routed ::
  "'m \<Rightarrow> ('w, 'm, 'i, 'o, 'p, 'c, 'r, 'x, 'd) pipeline \<Rightarrow> ('i, 'r, 'p, 'c) event list \<Rightarrow> bool" where
  "routed m pl t \<longleftrightarrow>
     (\<exists>f :: 'i failure. EvFailure (fl_kind f) \<in> set t \<and>
        (policy_action (pl_error_policy pl) (fl_kind f) = Discard \<or>
         policy_action (pl_error_policy pl) (fl_kind f) = DeadLetterAction \<and>
         EvDeadLetter (dead_letter_new (pl_name pl) (fl_kind f) (fl_error f) (fl_attempts f)
            (fl_input f) (pl_raw pl m)) True \<in> set t))"

lemma routed_append: "routed m pl t \<Longrightarrow> routed m pl (t' @ t)" "routed m pl t \<Longrightarrow> routed m pl (t @ t')"
  by (auto simp: routed_def)

lemma quiet_reached: "quiet t \<Longrightarrow> outputs_reached t"
  by (simp add: quiet_def outputs_reached_quiet)

text \<open>How a delivery without further output ends, after the trace \<open>t\<close> of \<open>acknowledge\<close> or \<open>route\<close>.\<close>

fun settled_by ::
  "('i, 'r, 'p, 'c) event list \<Rightarrow> ('w, 'm, 'c) pending_ack option outcome \<Rightarrow> bool" where
  "settled_by t (Inl e) \<longleftrightarrow> unacked t"
| "settled_by t (Inr None) \<longleftrightarrow> (\<exists>t0. t = t0 @ [EvAck True] \<and> quiet t0)"
| "settled_by t (Inr (Some (AwaitCommit h))) \<longleftrightarrow> 
     (\<exists>t0 b. h = CompletionPending b \<and> t = t0 @ [EvEnlist [] (Some b)] \<and> quiet t)"
| "settled_by t (Inr (Some (AwaitCompletions m cs c))) \<longleftrightarrow> False"

lemma settled_by_prefix: "settled_by t r \<Longrightarrow> quiet t' \<Longrightarrow> settled_by (t' @ t) r"
  by (induction t r rule: settled_by.induct) (auto simp: quiet_def)

context completion_stage
begin

lemma acknowledge_settles:
  assumes pl: "pl_output pl = complete" and ack: "acknowledge m pl w = (r, t, w')"
  shows "settled_by t r"
  using ack unfolding acknowledge_def pl
proof (cases rule: act_tryE)
  case (err e)
  with failed_unacked show ?thesis by auto
next
  case (ok ended t1 w1 t2)
  note comp = ok(1) and rest = ok(2)
  show ?thesis
  proof (cases ended)
    case CDone
    from done_acked [OF comp [unfolded CDone]] obtain t0 where t0: "t1 = t0 @ [EvAck True]" "unacked t0"
      "prepared m [] = Inr (map fst (submitted t0))" by blast
    then have "quiet t0" by (simp add: prepared_nil quiet_def)
    with t0 rest ok(3) CDone show ?thesis by auto
  next
    case (CPending m' cs c)
    from pending_unacked [OF comp [unfolded CPending]] have "quiet t1"
      by (simp add: prepared_nil quiet_def)
    with rest ok(3) CPending show ?thesis
      by (auto elim!: act_tryE dest!: ack_delivery_trace simp: is_ok_def quiet_def)
  next
    case (CCommitting h)
    from committing_enlisted [OF comp [unfolded CCommitting]] rest ok(3) CCommitting show ?thesis
      by (auto simp: prepared_nil quiet_def)
  next
    case (CEncode m' e)
    from encode_unsubmitted [OF comp [unfolded CEncode]] show ?thesis by (simp add: prepared_nil)
  next
    case (CRejected m' e)
    from rejected_reached [OF comp [unfolded CRejected]] show ?thesis by simp
  qed
qed

lemma route_settles:
  assumes pl: "pl_output pl = complete" and rt: "route m pl f w = (r, t, w')"
  shows "settled_by t r \<and> (is_ok r \<longrightarrow> routed m pl t)"
proof (cases "policy_action (pl_error_policy pl) (fl_kind f)")
  case Stop
  with rt show ?thesis by (auto simp: route_def Let_def is_ok_def elim!: act_bindE)
next
  case Discard
  with rt obtain t1 where ack: "acknowledge m pl w = (r, t1, w')" and t: "t = [EvFailure (fl_kind f)] @ t1"
    by (auto simp: route_def Let_def elim!: act_bindE)
  have "routed m pl t" using Discard by (auto simp: routed_def t)
  with settled_by_prefix [OF acknowledge_settles [OF pl ack], of "[EvFailure (fl_kind f)]"] t
  show ?thesis by simp
next
  case DeadLetterAction
  let ?dl = "dead_letter_new (pl_name pl) (fl_kind f) (fl_error f) (fl_attempts f) (fl_input f) (pl_raw pl m)"
  show ?thesis
  proof (cases "pl_dlq pl")
    case None
    with DeadLetterAction rt show ?thesis by (auto simp: route_def Let_def is_ok_def elim!: act_bindE)
  next
    case (Some dlq)
    with DeadLetterAction rt obtain t1 where t: "t = [EvFailure (fl_kind f)] @ t1"
      and rest: "act_try (act_context (kind_display (fl_kind f) @ '': '' @ box_display_alternate (fl_error f))
          (publish_dead_letter (pl_random pl) dlq ?dl (pl_dead_letter_retry pl)))
          (\<lambda>_. acknowledge m pl) w = (r, t1, w')"
      by (auto simp: route_def Let_def elim!: act_bindE)
    from rest show ?thesis
    proof (cases rule: act_tryE)
      case (err e)
      with t show ?thesis by (auto simp: quiet_def is_ok_def elim!: act_contextE dest!: publish_dead_letter_trace)
    next
      case (ok u t2 w2 t3)
      then have "publish_dead_letter (pl_random pl) dlq ?dl (pl_dead_letter_retry pl) w = (Inr (), t2, w2)"
        by (auto elim!: act_contextE)
      from publish_dead_letter_trace [OF this]
      have q: "quiet ([EvFailure (fl_kind f)] @ t2)" "EvDeadLetter ?dl True \<in> set t2" by auto
      have "routed m pl t" unfolding routed_def using q(2) t ok(3) DeadLetterAction
        by (intro exI [of _ f]) auto
      with settled_by_prefix [OF acknowledge_settles [OF pl ok(2)] q(1)] t ok(3) show ?thesis by simp
    qed
  qed
qed

text \<open>How a job ends: the delivery settled, or what is left to await for it.\<close>

fun job_outcome ::
  "'m \<Rightarrow> 'i outcome \<Rightarrow> ('w, 'm, 'i, 'o, 'p, 'c, 'r, 'x, 'd) pipeline \<Rightarrow> 'w \<Rightarrow>
   ('i, 'r, 'p, 'c) event list \<Rightarrow> ('w, 'm, 'c) pending_ack option outcome \<Rightarrow> bool" where
  "job_outcome m d pl w t (Inl e) \<longleftrightarrow> unacked t"
| "job_outcome m d pl w t (Inr None) \<longleftrightarrow>
     (\<exists>t0. t = t0 @ [EvAck True] \<and> unacked t0 \<and> outputs_reached t0 \<and>
        (routed m pl t0 \<or>
         (\<exists>c. published prepared m d pl w (map fst (submitted t0)) c \<and>
              (c \<noteq> None \<longrightarrow> EvCommitState True \<in> set t0))))"
| "job_outcome m d pl w t (Inr (Some (AwaitCompletions m' cs c))) \<longleftrightarrow>
     m' = m \<and> unacked t \<and> cs = map snd (submitted t) \<and>
     published prepared m d pl w (map fst (submitted t)) c"
| "job_outcome m d pl w t (Inr (Some (AwaitCommit h))) \<longleftrightarrow>
     unacked t \<and> outputs_reached t \<and>
     (\<exists>t0 ps b. h = CompletionPending b \<and> t = t0 @ [EvEnlist ps (Some b)] \<and>
        (ps = [] \<and> routed m pl t0 \<or> submitted t0 = [] \<and> published prepared m d pl w ps None))"

lemma settled_by_job:
  assumes "settled_by t r" "is_ok r \<longrightarrow> routed m pl t" "unacked t'" "outputs_reached t'"
  shows "job_outcome m d pl w (t' @ t) r"
  using assms
proof (induction t r rule: settled_by.induct)
  case (2 t)
  then obtain t0 where t0: "t = t0 @ [EvAck True]" "quiet t0" by auto
  with 2 have "routed m pl (t' @ t0)" by (auto simp: routed_def is_ok_def)
  with t0 2 show ?case
    by (auto simp: quiet_def outputs_reached_quiet intro!: exI [of _ "t' @ t0"] outputs_reached_append)
next
  case (3 t h)
  then obtain t0 b where t0: "h = CompletionPending b" "t = t0 @ [EvEnlist [] (Some b)]" "quiet t" by auto
  with 3 have "routed m pl (t' @ t0)" by (auto simp: routed_def is_ok_def)
  moreover have "outputs_reached (t' @ t)"
    using 3 t0(3) by (intro outputs_reached_append) (simp_all add: quiet_reached)
  ultimately show ?case using t0 3 by (auto simp: quiet_def intro!: exI [of _ "t' @ t0"])
qed auto

lemma route_job:
  assumes "pl_output pl = complete" "route m pl f w1 = (r, t, w')" "unacked t'" "outputs_reached t'"
  shows "job_outcome m d pl w (t' @ t) r"
  using route_settles [OF assms(1,2)] settled_by_job assms(3,4) by blast

lemma complete_job:
  assumes pl: "pl_output pl = complete" and t1: "quiet t1"
    and hd: "handle i (delivery_context pl m) pl w = (Inr (Inr outs), t1, w1)"
    and comp: "act_try (complete m (ou_values outs) (ou_commit outs) (pl_publish_retry pl))
         (\<lambda>ended. case ended of
            CDone \<Rightarrow> act_return (Inr None)
          | CPending delivery completions commit \<Rightarrow>
              act_return (Inr (Some (AwaitCompletions delivery completions commit)))
          | CCommitting committed \<Rightarrow> act_return (Inr (Some (AwaitCommit committed)))
          | CEncode delivery error \<Rightarrow>
              route delivery pl \<lparr>fl_kind = FkEncode, fl_error = error, fl_attempts = ou_attempts outs,
                 fl_input = Some (ou_input outs)\<rparr>
          | CRejected delivery error \<Rightarrow>
              route delivery pl \<lparr>fl_kind = FkPublishRejected, fl_error = error,
                 fl_attempts = ou_attempts outs, fl_input = Some (ou_input outs)\<rparr>) w1 = (r, t2, w')"
  shows "job_outcome m (Inr i) pl w (t1 @ t2) r"
  using comp
proof (cases rule: act_tryE)
  case (err e)
  with failed_unacked [OF err(1)] t1 show ?thesis by (simp add: quiet_def)
next
  case (ok ended ts w2 t3)
  have pub: "published prepared m (Inr i) pl w ps (ou_commit outs)"
    if "prepared m (ou_values outs) = Inr ps" for ps
    unfolding published_def using hd that by blast
  from t1 have t1': "submitted t1 = []" "unacked t1" "outputs_reached t1"
    by (simp_all add: quiet_def outputs_reached_quiet)
  show ?thesis
  proof (cases ended)
    case CDone
    from done_acked [OF ok(1) [unfolded CDone]] obtain t0 where t0: "ts = t0 @ [EvAck True]" "unacked t0"
      "prepared m (ou_values outs) = Inr (map fst (submitted t0))" "outputs_reached t0"
      "ou_commit outs \<noteq> None \<longrightarrow> EvCommitState True \<in> set t0" by blast
    with ok CDone t1' pub [OF t0(3)] show ?thesis
      by (auto intro!: exI [of _ "t1 @ t0"] outputs_reached_append)
  next
    case (CPending m' cs c)
    from pending_unacked [OF ok(1) [unfolded CPending]] ok CPending t1' pub show ?thesis by auto
  next
    case (CCommitting h)
    from committing_enlisted [OF ok(1) [unfolded CCommitting]] obtain ps t0 b
      where c: "ou_commit outs = None" "unacked ts" "submitted ts = []"
        "prepared m (ou_values outs) = Inr ps" "h = CompletionPending b" "ts = t0 @ [EvEnlist ps (Some b)]"
      by blast
    with ok CCommitting t1' pub [OF c(4)] show ?thesis
      by (auto simp: outputs_reached_quiet intro!: exI [of _ "t1 @ t0"])
  next
    case (CEncode m' e)
    from encode_unsubmitted [OF ok(1) [unfolded CEncode]] have "m' = m" "unacked (t1 @ ts)"
      "outputs_reached (t1 @ ts)" using t1' by (auto simp: outputs_reached_quiet)
    with ok CEncode route_job [OF pl, of m _ w2 r t3 w' "t1 @ ts"] show ?thesis by auto
  next
    case (CRejected m' e)
    from rejected_reached [OF ok(1) [unfolded CRejected]] have "m' = m" "unacked (t1 @ ts)"
      "outputs_reached (t1 @ ts)" using t1' by (auto intro: outputs_reached_append)
    with ok CRejected route_job [OF pl, of m _ w2 r t3 w' "t1 @ ts"] show ?thesis by auto
  qed
qed

lemma process_job:
  assumes pl: "pl_output pl = complete" and pr: "process m d pl w = (r, t, w')"
  shows "job_outcome m d pl w t r"
proof (cases d)
  case (Inl error)
  with pr route_job [OF pl, of m _ w r t w' "[]"] show ?thesis
    by (auto simp: process_def outputs_reached_quiet)
next
  case (Inr i)
  from pr [unfolded process_def Let_def delivery_context_def [symmetric] Inr sum.case pl] show ?thesis
  proof (cases rule: act_tryE)
    case (err e)
    with handle_quiet [OF err(1)] show ?thesis by (simp add: quiet_def)
  next
    case (ok handled t1 w1 t2)
    note q = handle_quiet [OF ok(1)]
    show ?thesis
    proof (cases handled)
      case (Inl f)
      with ok q route_job [OF pl, of m f w1 r t2 w' t1] show ?thesis
        by (simp add: quiet_def outputs_reached_quiet)
    next
      case (Inr outs)
      with ok complete_job [OF pl q] \<open>d = Inr i\<close> show ?thesis by simp
    qed
  qed
qed

text \<open>How a delivery ends, once what its job left pending has run as well.\<close>

definition delivery_outcome ::
  "'m \<Rightarrow> 'i outcome \<Rightarrow> ('w, 'm, 'i, 'o, 'p, 'c, 'r, 'x, 'd) pipeline \<Rightarrow> 'w \<Rightarrow>
   ('i, 'r, 'p, 'c) event list \<Rightarrow> bool" where
  "delivery_outcome m d pl w t \<longleftrightarrow>
     (\<exists>t0. t = t0 @ [EvAck True] \<and> unacked t0 \<and> outputs_reached t0 \<and>
        (routed m pl t0 \<or>
         (\<exists>c. published prepared m d pl w (map fst (submitted t0)) c \<and>
              (c \<noteq> None \<longrightarrow> EvCommitState True \<in> set t0))))"

lemma run_delivery_acks:
  assumes pl: "pl_output pl = complete" and run: "run_delivery m d pl w = (r, t, w')"
    and acks: "\<And>x t w'. process m d pl w = (Inr (Some x), t, w') \<Longrightarrow> \<exists>m cs c. x = AwaitCompletions m cs c"
  shows "case r of Inl e \<Rightarrow> unacked t | Inr u \<Rightarrow> delivery_outcome m d pl w t"
  using run unfolding run_delivery_def
proof (cases rule: act_tryE)
  case (err e)
  from process_job [OF pl err(1)] err show ?thesis by simp
next
  case (ok pend t1 w1 t2)
  note job = process_job [OF pl ok(1)]
  show ?thesis
  proof (cases pend)
    case None
    with ok job show ?thesis by (auto simp: delivery_outcome_def)
  next
    case (Some x)
    with acks ok(1) obtain m' cs c where x: "x = AwaitCompletions m' cs c" by blast
    with job Some have j: "unacked t1" "cs = map snd (submitted t1)"
      "published prepared m d pl w (map fst (submitted t1)) c" by auto
    from ok(2) Some x have "act_try (act_context ''output completion failed'' (wait_all (pl_wait pl) cs))
        (\<lambda>_. act_try (commit_state c) (\<lambda>_. ack_delivery (pl_ack pl) m')) w1 = (r, t2, w')" by simp
    then show ?thesis
    proof (cases rule: act_tryE)
      case (err e)
      with j ok(3) show ?thesis by (auto elim!: act_contextE dest!: wait_all_trace)
    next
      case wt: (ok u t3 w2 t4)
      from wt(1) have "wait_all (pl_wait pl) cs w1 = (Inr (), t3, w2)" by (auto elim!: act_contextE)
      note wtr = wait_all_trace [OF this]
      have reach: "outputs_reached (t1 @ t3)"
        using wtr j(2) by (auto simp: outputs_reached_def list_all_iff intro!: reached_append)
      from wt(2) show ?thesis
      proof (cases rule: act_tryE)
        case (err e)
        with commit_state_trace [OF err(1)] j wtr ok(3) wt(3) show ?thesis by auto
      next
        case ct: (ok u' t5 w3 t6)
        note ctr = commit_state_trace [OF ct(1)] and atr = ack_delivery_trace [OF ct(2)]
        have "t = (t1 @ t3 @ t5) @ [EvAck (is_ok r)]" using ok(3) wt(3) ct(3) atr by simp
        moreover have "unacked (t1 @ t3 @ t5)" using j wtr ctr by simp
        moreover have "outputs_reached ((t1 @ t3) @ t5)"
          by (rule outputs_reached_append [OF reach]) (use ctr in \<open>simp add: outputs_reached_quiet\<close>)
        ultimately show ?thesis using j wtr ctr
          by (auto simp: delivery_outcome_def is_ok_def split: sum.splits intro!: exI [of _ "t1 @ t3 @ t5"])
      qed
    qed
  qed
qed

end

lemma publish_never_commits:
  assumes "pl_output pl = publish_complete rnd ack sink" "process m d pl w = (Inr (Some x), t, w')"
  shows "\<exists>m cs c. x = AwaitCompletions m cs c"
proof (cases x)
  case (AwaitCommit h)
  have ack: "acknowledge m pl w1 \<noteq> (Inr (Some (AwaitCommit h)), t1, w2)" for m w1 t1 w2
    using assms(1) by (auto simp: acknowledge_def elim!: act_tryE dest!: publish_complete_outcome
        split: completed.splits)
  have rt: "route m pl f w1 \<noteq> (Inr (Some (AwaitCommit h)), t1, w2)" for m f w1 t1 w2
    using ack by (auto simp: route_def Let_def elim!: act_bindE act_tryE
        split: failure_action.splits option.splits)
  from assms AwaitCommit rt show ?thesis
    by (auto simp: process_def Let_def elim!: act_tryE dest!: publish_complete_outcome
        split: sum.splits completed.splits)
qed auto

lemma transact_only_commits:
  assumes "pl_output pl = transact_complete sink enlister" "process m d pl w = (Inr x, t, w')"
  shows "\<exists>h. x = Some (AwaitCommit h)"
proof -
  have ack: "acknowledge m pl w1 = (Inr x, t1, w2) \<Longrightarrow> \<exists>h. x = Some (AwaitCommit h)" for m w1 t1 w2
    using assms(1) by (auto simp: acknowledge_def elim!: act_tryE dest!: transact_complete_outcome
        split: completed.splits)
  have rt: "route m pl f w1 = (Inr x, t1, w2) \<Longrightarrow> \<exists>h. x = Some (AwaitCommit h)" for m f w1 t1 w2
    using ack by (auto simp: route_def Let_def elim!: act_bindE act_tryE
        split: failure_action.splits option.splits)
  from assms rt show ?thesis
    by (auto simp: process_def Let_def elim!: act_tryE dest!: transact_complete_outcome
        split: sum.splits completed.splits)
qed

section \<open>Properties\<close>

text \<open>
  A pipeline for the witnesses: the handler fails transiently once (the world counts its attempts)
  and then emits two outputs, the sink completes asynchronously and cannot encode 13.
\<close>

definition ex_sink :: "(nat, nat, nat, nat, nat) sink_ops" where
  "ex_sink =
     \<lparr>sk_prepare_from = (\<lambda>out m. if out = 13 then Inl (Foreign ''unlucky'' None) else Inr out),
      sk_submit = (\<lambda>p w. (Inr (CompletionPending p), w)), sk_wait = (\<lambda>c w. (Inr (), w))\<rparr>"

definition ex_dlq :: "(nat, nat, nat, (nat, nat) dead_letter) dead_letter_sink" where
  "ex_dlq = dead_letter_with Inr Inr (\<lambda>d w. (Inr (), w))"

definition ex_pipeline ::
  "(nat, nat, nat, nat, nat, nat, nat, unit, (nat, nat) dead_letter) pipeline" where
  "ex_pipeline =
     \<lparr>pl_name = ''orders'',
      pl_handler = (\<lambda>i x w. (if w = 0 then Inl (HRetry (Foreign ''busy'' None))
                            else Inr (outcome_stateless (EmitMany [i, i + 1])), w + 1)),
      pl_stateful = False, pl_middleware = [],
      pl_output = publish_complete (\<lambda>w. (0, w)) (\<lambda>m w. (Inr (), w)) ex_sink,
      pl_dlq = Some ex_dlq,
      pl_handler_retry = default_retry_policy, pl_publish_retry = default_retry_policy,
      pl_dead_letter_retry = default_retry_policy, pl_error_policy = dead_letter_all,
      pl_random = (\<lambda>w. (0, w)), pl_context_of = (\<lambda>n m. ()), pl_raw = (\<lambda>m. m),
      pl_ack = (\<lambda>m w. (Inr (), w)), pl_wait = (\<lambda>c w. (Inr (), w))\<rparr>"

lemma ex_output: "pl_output ex_pipeline = publish_complete (\<lambda>w. (0, w)) (\<lambda>m w. (Inr (), w)) ex_sink"
  by (simp add: ex_pipeline_def)

lemma ex_delay: "delay 0 default_retry_policy (Suc 0) = 100000000"
  by (simp add: delay_def default_retry_policy_def backoff_def dur_saturating_mul_def
      u32_saturating_pow_def duration_max_def)

lemmas processing_eval = run_delivery_def process_def handle_def act_try_def act_bind_def act_return_def
  act_call_def act_log_def act_context_def Let_def handler_loop.simps sleep_delay_def ex_delay
  publish_complete_def prepare_def publish_settle_def retry_publish.simps ack_delivery_def is_ok_def
  outcome_stateless_def route_def publish_dead_letter_def dead_letter_with_def bind_result_def
  acknowledge_def ex_pipeline_def ex_sink_def ex_dlq_def dead_letter_all_def

lemma ex_delivery:
  "run_delivery 9 (Inr 5) ex_pipeline 0 =
     (Inr (), [EvHandle 5 1, EvSleep 100000000, EvHandle 5 2, EvEncode True,
       EvSubmit 5 (Some (CompletionPending 5)), EvSubmit 6 (Some (CompletionPending 6)),
       EvWait 5 True, EvWait 6 True, EvAck True], 2)"
  by (simp add: processing_eval) (simp add: default_retry_policy_def)

text \<open>
  C1. An input is acknowledged only after its work is done. When a delivery of a publishing
  subscription ends well, its acknowledgement is the last thing that happens and happens once;
  every output submitted before it has reached the sink's acknowledgement boundary; and either all
  outputs of the handler were submitted in order and its state change was committed, or a failure
  was routed: discarded by the policy, or published to the dead-letter sink with its kind, error,
  attempts, input and raw message.
\<close>

theorem ack_after_outputs:
  assumes "pl_output pl = publish_complete rnd ack sink" "run_delivery m d pl w = (Inr (), t, w')"
  shows "\<exists>t0. t = t0 @ [EvAck True] \<and> unacked t0 \<and> outputs_reached t0 \<and>
    (routed m pl t0 \<or>
     (\<exists>c. published (prepared_by sink) m d pl w (map fst (submitted t0)) c \<and>
          (c \<noteq> None \<longrightarrow> EvCommitState True \<in> set t0)))"
  using publish.run_delivery_acks [OF assms publish_never_commits [OF assms(1)]]
  by (simp add: publish.delivery_outcome_def)

theorem ack_after_outputs_witness:
  "\<exists>t w'. run_delivery 9 (Inr 5) ex_pipeline 0 = (Inr (), t, w') \<and>
     (\<exists>t0. t = t0 @ [EvAck True] \<and> outputs_reached t0 \<and> unacked t0)"
  using ack_after_outputs [OF ex_output ex_delivery] ex_delivery by blast

text \<open>
  C8. A delivery that fails is never acknowledged: when processing or settling a delivery of a
  publishing or of a transactional subscription returns an error, no acknowledgement succeeded.
\<close>

theorem failure_not_acked:
  assumes "pl_output pl = publish_complete rnd ack sink \<or> pl_output pl = transact_complete sink enlister"
    "run_delivery m d pl w = (Inl e, t, w')"
  shows "unacked t"
proof (cases "pl_output pl = publish_complete rnd ack sink")
  case True
  from publish.run_delivery_acks [OF True assms(2) publish_never_commits [OF True]] show ?thesis by simp
next
  case False
  with assms(1) have pl: "pl_output pl = transact_complete sink enlister" by blast
  from assms(2) [unfolded run_delivery_def] show ?thesis
  proof (cases rule: act_tryE)
    case (err e')
    from transact.process_job [OF pl err(1)] show ?thesis by simp
  next
    case (ok x t1 w1 t2)
    from transact_only_commits [OF pl ok(1)] obtain h where x: "x = Some (AwaitCommit h)" by blast
    with ok(2) have "unacked t2" by (cases h) (auto elim!: act_contextE act_callE)
    with transact.process_job [OF pl ok(1)] x ok(3) show ?thesis by simp
  qed
qed

theorem failure_not_acked_witness:
  "\<exists>e t w'. run_delivery 9 (Inr 5) (ex_pipeline\<lparr>pl_ack := (\<lambda>m w. (Inl (Foreign ''gone'' None), w))\<rparr>) 0
     = (Inl e, t, w') \<and> unacked t"
proof -
  have run: "run_delivery 9 (Inr 5) (ex_pipeline\<lparr>pl_ack := (\<lambda>m w. (Inl (Foreign ''gone'' None), w))\<rparr>) 0 =
     (Inl (Foreign ''gone'' None), [EvHandle 5 1, EvSleep 100000000, EvHandle 5 2, EvEncode True,
       EvSubmit 5 (Some (CompletionPending 5)), EvSubmit 6 (Some (CompletionPending 6)),
       EvWait 5 True, EvWait 6 True, EvAck False], 2)"
    by (simp add: processing_eval) (simp add: default_retry_policy_def)
  have "pl_output (ex_pipeline\<lparr>pl_ack := (\<lambda>m w. (Inl (Foreign ''gone'' None), w))\<rparr>) =
      publish_complete (\<lambda>w. (0, w)) (\<lambda>m w. (Inr (), w)) ex_sink"
    by (simp add: ex_pipeline_def)
  from failure_not_acked [OF disjI1 [OF this] run] run show ?thesis by blast
qed

lemma transact_unsubmitted:
  assumes "pl_output pl = transact_complete sink enlister" "process m d pl w = (r, t, w')"
  shows "submitted t = []"
proof -
  have ack: "acknowledge m pl w1 = (r, t1, w2) \<Longrightarrow> submitted t1 = []" for m w1 r t1 w2
    using assms(1) by (auto simp: acknowledge_def elim!: act_tryE
        dest!: transact_complete_outcome ack_delivery_trace split: completed.splits)
  have rt: "route m pl f w1 = (r, t1, w2) \<Longrightarrow> submitted t1 = []" for m f w1 r t1 w2
    using ack by (auto simp: route_def Let_def quiet_def elim!: act_bindE act_tryE act_contextE
        dest!: publish_dead_letter_trace split: failure_action.splits option.splits)
  from assms show ?thesis
    by (auto simp: process_def Let_def quiet_def elim!: act_tryE
        dest!: transact_complete_outcome handle_quiet rt split: sum.splits completed.splits)
qed

text \<open>
  C11. A transactional subscription settles a delivery only through a transaction: when it ends well,
  nothing was submitted to the sink and nothing was acknowledged on its own; the delivery joined a
  batch with exactly the prepared outputs of its handler, or without outputs after its failure was
  routed, and the completion that joining gave for that batch was awaited and reported its commit.
\<close>

theorem transactional_settles_in_batch:
  assumes pl: "pl_output pl = transact_complete sink enlister"
    and run: "run_delivery m d pl w = (Inr (), t, w')"
  shows "submitted t = [] \<and> unacked t \<and>
    (\<exists>t0 ps h t1. t = t0 @ [EvEnlist ps (Some h)] @ t1 \<and> EvWait h True \<in> set t1 \<and>
       (ps = [] \<and> routed m pl t0 \<or> published (prepared_by sink) m d pl w ps None))"
  using run unfolding run_delivery_def
proof (cases rule: act_tryE)
  case (ok x t1 w1 t2)
  from transact_only_commits [OF pl ok(1)] obtain c where x: "x = Some (AwaitCommit c)" by blast
  from transact.process_job [OF pl ok(1)] x obtain t0 ps h where h: "c = CompletionPending h"
    and t0: "unacked t1" "t1 = t0 @ [EvEnlist ps (Some h)]"
      "ps = [] \<and> routed m pl t0 \<or> published (prepared_by sink) m d pl w ps None" by auto
  from x h ok(2) have t2: "submitted t2 = [] \<and> unacked t2 \<and> EvWait h True \<in> set t2"
    by (auto simp: is_ok_def elim!: act_contextE act_callE)
  from t0(2) ok(3) have t: "t = t0 @ [EvEnlist ps (Some h)] @ t2" by simp
  have "submitted t = []" "unacked t" using transact_unsubmitted [OF pl ok(1)] t2 t0(1) ok(3) by auto
  with t t2 t0(3) show ?thesis by blast
qed simp

definition ex_transactional ::
  "(nat, nat, nat, nat, nat, nat, nat, unit, (nat, nat) dead_letter) pipeline" where
  "ex_transactional =
     ex_pipeline\<lparr>pl_output := transact_complete ex_sink (Some (\<lambda>m ps w. (Inr 7, w)))\<rparr>"

theorem transactional_settles_in_batch_witness:
  "\<exists>t w'. run_delivery 9 (Inr 5) ex_transactional 0 = (Inr (), t, w') \<and> submitted t = [] \<and> unacked t \<and>
     EvEnlist [5, 6] (Some 7) \<in> set t \<and> EvWait 7 True \<in> set t"
proof -
  let ?t = "[EvHandle 5 1, EvSleep 100000000, EvHandle 5 2, EvEncode True, EvEnlist [5, 6] (Some 7),
    EvWait 7 True]"
  have run: "run_delivery 9 (Inr 5) ex_transactional 0 = (Inr (), ?t, 2)"
    by (simp add: processing_eval ex_transactional_def transact_complete_def)
      (simp add: default_retry_policy_def)
  have "pl_output ex_transactional =
      transact_complete ex_sink (Some (\<lambda>m ps w. (Inr 7, w)))"
    by (simp add: ex_transactional_def)
  from transactional_settles_in_batch [OF this run] run show ?thesis
    by (intro exI [of _ ?t] exI [of _ 2]) simp
qed

lemma acknowledge_quiet:
  assumes "pl_output pl = publish_complete rnd ack sink" "acknowledge m pl w = (r, t, w')"
  shows "submitted t = []"
proof -
  from publish.acknowledge_settles [OF assms] show ?thesis
  proof (cases "is_ok r")
    case False
    from assms(2) [unfolded acknowledge_def assms(1)] show ?thesis
      by (auto simp: publish_complete_def prepare_def publish_settle_def elim!: act_tryE act_bindE
          dest!: commit_state_trace ack_delivery_trace split: completed.splits)
  qed (auto simp: quiet_def is_ok_def elim: settled_by.elims)
qed

lemma route_quiet:
  assumes "pl_output pl = publish_complete rnd ack sink" "route m pl f w = (r, t, w')"
  shows "submitted t = [] \<and> EvFailure (fl_kind f) \<in> set t"
  using assms(2) by (auto simp: route_def Let_def quiet_def elim!: act_bindE act_tryE act_contextE
      dest!: publish_dead_letter_trace acknowledge_quiet [OF assms(1)]
      split: failure_action.splits option.splits)

text \<open>
  An encode failure never follows a partial publication: if one output of a handled delivery
  cannot be encoded, none of its outputs is submitted, and the delivery is routed as an encode
  failure.
\<close>

theorem encode_failure_publishes_nothing:
  fixes pl :: "('w, 'm, 'i, 'o, 'p, 'c, 'r, 'x, 'd) pipeline"
  assumes pl: "pl_output pl = publish_complete rnd ack sink"
    and hd: "handle i (delivery_context pl m) pl w = (Inr (Inr outs), t1, w1)"
    and enc: "prepared_by sink m (ou_values outs) = Inl e"
    and run: "run_delivery m (Inr i) pl w = (r, t, w')"
  shows "submitted t = [] \<and> EvFailure FkEncode \<in> set t \<and> (r = Inr () \<longrightarrow> routed m pl t)"
proof -
  obtain pr wp and tp :: "('i, 'r, 'p, 'c) event list" where prep: "prepare sink (ou_values outs) m w1 = (pr, tp, wp)" by (rule prod_cases3)
  from prepare_trace [OF prep] enc have pr: "pr = Inl e" "submitted tp = []" "wp = w1"
    by (auto simp: prepared_by_def)
  then have comp: "publish_complete rnd ack sink m (ou_values outs) (ou_commit outs) p w1
      = (Inr (CEncode m e), tp, w1)" for p
    using prep by (simp add: publish_complete_def act_bind_def act_return_def)
  obtain r2 t2 w2 where rt: "route m pl \<lparr>fl_kind = FkEncode, fl_error = e, fl_attempts = ou_attempts outs,
      fl_input = Some (ou_input outs)\<rparr> w1 = (r2, t2, w2)" by (rule prod_cases3)
  have proc: "process m (Inr i) pl w = (r2, t1 @ tp @ t2, w2)"
    using hd comp [of "pl_publish_retry pl"] rt pl
    by (simp add: process_def Let_def delivery_context_def act_try_def act_bind_def)
  note rq = route_quiet [OF pl rt]
  have "submitted (t1 @ tp @ t2) = []" using handle_quiet [OF hd] pr rq by (simp add: quiet_def)
  moreover have "r2 = Inr None \<and> routed m pl t2 \<or> (\<exists>e. r2 = Inl e)"
  proof (cases "\<exists>x. r2 = Inr (Some x)")
    case True
    then obtain x where x: "r2 = Inr (Some x)" by blast
    with publish_never_commits [OF pl] proc obtain m' cs c where "x = AwaitCompletions m' cs c" by blast
    with publish.route_settles [OF pl rt] x show ?thesis by simp
  next
    case False
    with publish.route_settles [OF pl rt] show ?thesis by (cases r2) (auto simp: is_ok_def)
  qed
  moreover from this run proc have "t = t1 @ tp @ t2" "r = Inr () \<longrightarrow> r2 = Inr None"
    by (auto simp: run_delivery_def act_try_def act_bind_def act_return_def)
  ultimately show ?thesis using rq by (auto intro: routed_append)
qed

theorem encode_failure_publishes_nothing_witness:
  "\<exists>t w'. run_delivery 9 (Inr 12) ex_pipeline 0 = (Inr (), t, w') \<and> submitted t = [] \<and>
     EvFailure FkEncode \<in> set t \<and> routed 9 ex_pipeline t"
proof -
  have hd: "handle 12 (delivery_context ex_pipeline 9) ex_pipeline 0 =
      (Inr (Inr \<lparr>ou_values = [12, 13], ou_input = 12, ou_attempts = 2, ou_commit = None\<rparr>),
       [EvHandle 12 1, EvSleep 100000000, EvHandle 12 2], 2)"
    by (simp add: processing_eval delivery_context_def) (simp add: default_retry_policy_def)
  have enc: "prepared_by ex_sink 9
      (ou_values \<lparr>ou_values = [12, 13], ou_input = 12, ou_attempts = 2, ou_commit = None\<rparr>)
      = Inl (Foreign ''unlucky'' None)"
    by (simp add: prepared_by_def ex_sink_def)
  have run: "run_delivery 9 (Inr 12) ex_pipeline 0 =
      (Inr (), [EvHandle 12 1, EvSleep 100000000, EvHandle 12 2, EvEncode False, EvFailure FkEncode,
        EvDeadLetter (dead_letter_new ''orders'' FkEncode (Foreign ''unlucky'' None) 2 (Some 12) 9) True,
        EvAck True], 2)"
    by (simp add: processing_eval) (simp add: default_retry_policy_def numeral_2_eq_2)
  from encode_failure_publishes_nothing [OF ex_output hd enc run] run show ?thesis by blast
qed

fun is_handle :: "('i, 'r, 'p, 'c) event \<Rightarrow> bool" where
  "is_handle (EvHandle _ _) = True"
| "is_handle _ = False"

abbreviation handler_calls :: "('i, 'r, 'p, 'c) event list \<Rightarrow> ('i, 'r, 'p, 'c) event list" where
  "handler_calls t \<equiv> filter is_handle t"

lemma handler_calls_attempts: "handler_calls t = handler_calls (attempts_of t)"
proof (induction t)
  case (Cons e t)
  then show ?case by (cases e) auto
qed simp

lemma pre_handlers_calls: "pre_handlers ms fl w = (r, t, w') \<Longrightarrow> handler_calls t = []"
  by (induction ms fl arbitrary: w t rule: pre_handlers.induct)
    (auto elim!: act_bindE act_callE split: sum.splits)

lemma post_handlers_calls: "post_handlers ms i out w = (r, t, w') \<Longrightarrow> handler_calls t = []"
  by (induction ms arbitrary: out w t) (auto elim!: act_bindE act_callE split: sum.splits)

text \<open>What \<open>finish\<close> adds: no handler call, and results that keep the attempt count and the input.\<close>

definition finish_result_ok :: "'i \<Rightarrow> usize \<Rightarrow> ('w, 'i, 'o) handled \<Rightarrow> bool" where
  "finish_result_ok i n r \<longleftrightarrow>
     (case r of
        Inl e \<Rightarrow> True
      | Inr (Inl f) \<Rightarrow> fl_kind f = FkRejected \<and> fl_attempts f = n \<and> fl_input f = Some i
      | Inr (Inr outs) \<Rightarrow> ou_attempts outs = n \<and> ou_input outs = i)"

lemma finish_calls:
  "finish outs mapped i n c pl w = (r, t, w') \<Longrightarrow> handler_calls t = [] \<and> finish_result_ok i n r"
proof (induction outs arbitrary: mapped w t)
  case (Cons out outs)
  from Cons.prems obtain r1 t1 w1 t2 where post: "post_handlers (pl_middleware pl) i out w = (r1, t1, w1)"
    and t: "t = t1 @ t2"
    and rest: "(case r1 of
              Inr out \<Rightarrow> finish outs (mapped @ [out]) i n c pl
            | Inl (HReject error) \<Rightarrow>
                act_return (Inr (Inl \<lparr>fl_kind = FkRejected,
                  fl_error = box_context ''rejected after the handler'' error,
                  fl_attempts = n, fl_input = Some i\<rparr>))
            | Inl (HRetry error) \<Rightarrow>
                act_return (Inl (box_context ''post-handler middleware failed'' error))
            | Inl (HFatal error) \<Rightarrow>
                act_return (Inl (box_context ''post-handler middleware failed'' error))) w1 = (r, t2, w')"
    by (auto elim!: act_bindE)
  from rest post_handlers_calls [OF post] t show ?case
    by (auto simp: finish_result_ok_def dest!: Cons.IH split: sum.splits handler_error.splits)
qed (simp add: finish_result_ok_def)

text \<open>
  The handler runs a bounded number of times on one input: its attempts are numbered from 1
  without gaps, all take the same input, and their number is at most the policy's \<open>max_attempts\<close>
  (at least one is made). The number reported with the outputs or with a failure is the number of
  attempts made, and a failure is \<open>RetryExhausted\<close> only when all attempts were used.
\<close>

theorem handler_attempts_bounded:
  assumes "handle i ctx pl w = (r, t, w')"
  shows "\<exists>h k. handler_calls t = map (EvHandle h) [1 ..< k + 1] \<and>
    k \<le> max 1 (max_attempts (pl_handler_retry pl)) \<and>
    (case r of
       Inl e \<Rightarrow> True
     | Inr (Inl f) \<Rightarrow> fl_attempts f = k \<and> fl_input f = Some i \<and>
         (fl_kind f = FkRetryExhausted \<longrightarrow> max_attempts (pl_handler_retry pl) \<le> k)
     | Inr (Inr outs) \<Rightarrow> ou_attempts outs = k \<and> ou_input outs = i)"
proof -
  from assms obtain fl t1 w1 t2 where pre: "pre_handlers (pl_middleware pl) (FlowContinue i) w = (fl, t1, w1)"
    and t: "t = t1 @ t2"
    and rest: "(case fl of
         Inl (HReject error) \<Rightarrow>
           act_return (Inr (Inl \<lparr>fl_kind = FkRejected,
             fl_error = box_context ''rejected before the handler'' error,
             fl_attempts = 0, fl_input = Some i\<rparr>))
       | Inl (HRetry error) \<Rightarrow> act_return (Inl (box_context ''pre-handler middleware failed'' error))
       | Inl (HFatal error) \<Rightarrow> act_return (Inl (box_context ''pre-handler middleware failed'' error))
       | Inr (FlowIntercept values) \<Rightarrow> finish (emit_values values) [] i 0 None pl
       | Inr (FlowContinue h) \<Rightarrow>
           act_try (handler_loop pl i h ctx 0) (\<lambda>r.
             case r of
               Inl failure \<Rightarrow> act_return (Inr (Inl failure))
             | Inr (out, attempts) \<Rightarrow>
                 finish (emit_values (ho_outputs out)) [] i attempts (ho_commit out) pl)) w1 = (r, t2, w')"
    unfolding handle_def by (auto elim!: act_bindE)
  have calls: "handler_calls t = handler_calls t2" using pre_handlers_calls [OF pre] t by simp
  show ?thesis
  proof (cases "\<exists>h. fl = Inr (FlowContinue h)")
    case False
    with rest have "handler_calls t2 = []" "(case r of Inl e \<Rightarrow> True
       | Inr (Inl f) \<Rightarrow> fl_attempts f = 0 \<and> fl_input f = Some i \<and> fl_kind f = FkRejected
       | Inr (Inr outs) \<Rightarrow> ou_attempts outs = 0 \<and> ou_input outs = i)"
      by (auto dest!: finish_calls simp: finish_result_ok_def
          split: sum.splits handler_error.splits flow.splits)
    then show ?thesis using calls
      by (intro exI [of _ undefined] exI [of _ "0::nat"]) (auto split: sum.splits)
  next
    case True
    then obtain h where h: "fl = Inr (FlowContinue h)" by blast
    obtain lr tl wl where loop: "handler_loop pl i h ctx 0 w1 = (lr, tl, wl)" by (rule prod_cases3)
    from handler_loop_trace [OF loop] obtain k where k: "attempts_of tl = map (EvHandle h) [1 ..< k + 1]"
      "k \<le> max_attempts (pl_handler_retry pl) \<or> k = 1" "loop_result_ok pl i k lr" by auto
    have hc: "handler_calls tl = map (EvHandle h) [1 ..< k + 1]"
      by (simp add: handler_calls_attempts [of tl] k(1) filter_map o_def)
    from rest h loop k(3) obtain t3 where "t2 = tl @ t3" "handler_calls t3 = []" "(case r of Inl e \<Rightarrow> True
       | Inr (Inl f) \<Rightarrow> fl_attempts f = k \<and> fl_input f = Some i \<and>
           (fl_kind f = FkRetryExhausted \<longrightarrow> max_attempts (pl_handler_retry pl) \<le> k)
       | Inr (Inr outs) \<Rightarrow> ou_attempts outs = k \<and> ou_input outs = i)"
      by (auto elim!: act_tryE dest!: finish_calls simp: finish_result_ok_def loop_result_ok_def
          split: sum.splits)
    then show ?thesis using calls hc k(2) by (intro exI [of _ h] exI [of _ k]) auto
  qed
qed

theorem handler_attempts_bounded_witness:
  "\<exists>r t w'. handle 5 None ex_pipeline 0 = (r, t, w') \<and> handler_calls t = [EvHandle 5 1, EvHandle 5 2] \<and>
     (\<exists>h k. handler_calls t = map (EvHandle h) [1 ..< k + 1] \<and>
        k \<le> max 1 (max_attempts (pl_handler_retry ex_pipeline)))"
proof -
  let ?t = "[EvHandle 5 1, EvSleep 100000000, EvHandle 5 2] :: (nat, nat, nat, nat) event list"
  have run: "handle 5 None ex_pipeline 0 =
      (Inr (Inr \<lparr>ou_values = [5, 6], ou_input = 5, ou_attempts = 2, ou_commit = None\<rparr>), ?t, 2)"
    by (simp add: processing_eval) (simp add: default_retry_policy_def)
  from handler_attempts_bounded [OF run] have "\<exists>h k. handler_calls ?t = map (EvHandle h) [1 ..< k + 1] \<and>
      k \<le> max 1 (max_attempts (pl_handler_retry ex_pipeline))" by blast
  with run show ?thesis
    by (intro exI [of _ "Inr (Inr \<lparr>ou_values = [5, 6], ou_input = 5, ou_attempts = 2, ou_commit = None\<rparr>)"]
        exI [of _ ?t] exI [of _ 2]) simp
qed

text \<open>
  Publication is retried only after transient failures and within the policy: every attempt but
  the last fails without being a rejection, there are never more than \<open>max_attempts\<close> (at least one
  is made), and the outcome is the value of the last attempt, its rejection unchanged, or, only when
  the attempts are used up, its failure.
\<close>

theorem publish_attempts_bounded:
  fixes f :: "('w, 'c completion outcome) ext"
  assumes "retry_publish rnd p (act_call (\<lambda>r. EvSubmit out (ok_value r)) f) 1 w = (res, t, w')"
  shows "\<exists>failed decisive. attempts_of t = map (\<lambda>r. EvSubmit out (ok_value r)) (failed @ [decisive]) \<and>
    length failed < max 1 (max_attempts p) \<and>
    (\<forall>r \<in> set failed. \<exists>e. r = Inl e \<and> \<not> rejected e) \<and>
    (res = decisive \<and> (\<forall>e. res = Inl e \<longrightarrow> rejected e) \<or>
     (\<exists>e. decisive = Inl e \<and> \<not> rejected e \<and> res = Inl (box_context ''publish retry exhausted'' e) \<and>
          max_attempts p \<le> length failed + 1))"
proof -
  from retry_publish_outcome [OF _ assms] obtain failed decisive
    where tr: "attempts_of t = map (\<lambda>r. EvSubmit out (ok_value r)) failed @ [EvSubmit out (ok_value decisive)]"
      and out: "retry_outcome p 1 failed decisive res" by auto
  from out have "length failed < max 1 (max_attempts p)" "\<forall>r \<in> set failed. \<exists>e. r = Inl e \<and> \<not> rejected e"
    "res = decisive \<and> (\<forall>e. res = Inl e \<longrightarrow> rejected e) \<or>
     (\<exists>e. decisive = Inl e \<and> \<not> rejected e \<and> res = Inl (box_context ''publish retry exhausted'' e) \<and>
          max_attempts p \<le> length failed + 1)"
    by (auto simp: retry_outcome_def list_all_iff split: sum.splits if_splits)
  with tr show ?thesis by (intro exI [of _ failed] exI [of _ decisive]) simp
qed

definition ex_flaky :: "(nat, nat completion outcome) ext" where
  "ex_flaky w = (if w = 0 then Inl (Foreign ''busy'' None) else Inr CompletionDone, w + 1)"

theorem publish_attempts_bounded_witness:
  "\<exists>res (t :: (nat, nat, nat, nat) event list) w'.
     retry_publish (\<lambda>w. (0, w)) default_retry_policy (act_call (\<lambda>r. EvSubmit 3 (ok_value r)) ex_flaky) 1 0
       = (res, t, w') \<and>
     (\<exists>(failed :: nat completion outcome list) decisive. attempts_of t = map (\<lambda>r. EvSubmit 3 (ok_value r)) (failed @ [decisive]) \<and>
        length failed < max 1 (max_attempts default_retry_policy))"
proof -
  obtain res w' and t :: "(nat, nat, nat, nat) event list"
    where run: "retry_publish (\<lambda>w. (0, w)) default_retry_policy
      (act_call (\<lambda>r. EvSubmit 3 (ok_value r)) ex_flaky) 1 0 = (res, t, w')" by (rule prod_cases3)
  from publish_attempts_bounded [OF run] have "\<exists>(failed :: nat completion outcome list) decisive.
      attempts_of t = map (\<lambda>r. EvSubmit 3 (ok_value r)) (failed @ [decisive]) \<and>
      length failed < max 1 (max_attempts default_retry_policy)"
    by blast
  with run show ?thesis by blast
qed

end
