(* ===== verification/Config.thy ===== *)
theory Config
  imports Error_Policy Retry
begin

text \<open>
  Subscription settings, \<^verbatim>\<open>src/subscription/config.rs\<close>, and the validation of a subscription in
  \<^verbatim>\<open>src/subscription/builder.rs\<close>.
\<close>

record transaction_batch =
  tb_max_deliveries :: usize
  tb_max_linger :: duration

definition batch_new :: "usize \<Rightarrow> duration \<Rightarrow> transaction_batch" where
  "batch_new n d = \<lparr>tb_max_deliveries = n, tb_max_linger = d\<rparr>"

definition batch_single :: transaction_batch where
  "batch_single = batch_new 1 0"

definition default_batch :: transaction_batch where
  "default_batch = batch_new 100 (10 * 10 ^ 6)"

text \<open>\<^verbatim>\<open>ensure!\<close> with the crate's configuration error.\<close>

definition ensure_config :: "bool \<Rightarrow> string \<Rightarrow> error + unit" where
  "ensure_config b m = (if b then Inr () else Inl (error_config m))"

definition invalid_record :: "string \<Rightarrow> error" where
  "invalid_record m = InvalidRecord m"

definition ensure_valid_record :: "bool \<Rightarrow> string \<Rightarrow> error + unit" where
  "ensure_valid_record b m = (if b then Inr () else Inl (invalid_record m))"

definition and_then :: "error + unit \<Rightarrow> error + unit \<Rightarrow> error + unit" where
  "and_then r s = (case r of Inl e \<Rightarrow> Inl e | Inr _ \<Rightarrow> s)"

lemma ensure_config_iff [simp]:
  "ensure_config b m = Inr u \<longleftrightarrow> b" "ensure_config b m = Inl e \<longleftrightarrow> \<not> b \<and> e = error_config m"
  by (auto simp: ensure_config_def)

lemma and_then_iff [simp]:
  "and_then r s = Inr u \<longleftrightarrow> r = Inr () \<and> s = Inr u"
  "and_then r s = Inl e \<longleftrightarrow> r = Inl e \<or> r = Inr () \<and> s = Inl e"
  by (auto simp: and_then_def split: sum.splits)

definition batch_validate :: "transaction_batch \<Rightarrow> error + unit" where
  "batch_validate b = ensure_config (tb_max_deliveries b > 0) ''transaction batch size must be positive''"

record subscription_config =
  sc_concurrency :: usize
  sc_max_in_flight :: usize
  sc_max_in_flight_per_key :: "usize option"
  sc_handler_retry :: retry_policy
  sc_receive_retry :: retry_policy
  sc_publish_retry :: retry_policy
  sc_dead_letter_retry :: retry_policy
  sc_error_policy :: error_policy
  sc_drain_timeout :: duration
  sc_transaction_batch :: transaction_batch
  sc_stall_timeout :: "duration option"

definition default_config :: subscription_config where
  "default_config =
     \<lparr>sc_concurrency = 1, sc_max_in_flight = 64, sc_max_in_flight_per_key = None,
      sc_handler_retry = default_retry_policy, sc_receive_retry = default_retry_policy,
      sc_publish_retry = default_retry_policy, sc_dead_letter_retry = default_retry_policy,
      sc_error_policy = default_error_policy, sc_drain_timeout = 30 * 10 ^ 9,
      sc_transaction_batch = default_batch, sc_stall_timeout = None\<rparr>"

definition config_validate :: "subscription_config \<Rightarrow> error + unit" where
  "config_validate c =
     and_then (ensure_config (sc_concurrency c > 0 \<and> sc_max_in_flight c > 0)
                 ''concurrency and max_in_flight must be positive'')
    (and_then (ensure_config (sc_max_in_flight_per_key c \<noteq> Some 0)
                 ''max_in_flight_per_key must be positive'')
    (and_then (ensure_config (sc_stall_timeout c \<noteq> Some 0) ''stall_timeout must be positive'')
    (and_then (retry_validate (sc_handler_retry c))
    (and_then (retry_validate (sc_receive_retry c))
    (and_then (retry_validate (sc_publish_retry c))
    (and_then (retry_validate (sc_dead_letter_retry c))
              (batch_validate (sc_transaction_batch c))))))))"

text \<open>
  \<^verbatim>\<open>name.trim().is_empty()\<close>: only white space. A string is its UTF-8 bytes, so the white space
  characters beyond ASCII are two or three bytes long.
\<close>

fun blank :: "nat list \<Rightarrow> bool" where
  "blank [] = True"
| "blank (a # s) =
     (if 9 \<le> a \<and> a \<le> 13 \<or> a = 32 then blank s
      else (case s of
              b # s' \<Rightarrow>
                if a = 194 \<and> (b = 133 \<or> b = 160) then blank s'
                else (case s' of
                        c # s'' \<Rightarrow>
                          (a = 225 \<and> b = 154 \<and> c = 128 \<or>
                           a = 226 \<and> b = 128 \<and> (128 \<le> c \<and> c \<le> 138 \<or> c = 168 \<or> c = 169 \<or> c = 175) \<or>
                           a = 226 \<and> b = 129 \<and> c = 159 \<or> a = 227 \<and> b = 128 \<and> c = 128) \<and> blank s''
                      | [] \<Rightarrow> False)
            | [] \<Rightarrow> False))"

definition trimmed_empty :: "string \<Rightarrow> bool" where
  "trimmed_empty s = blank (map of_char s)"

text \<open>\<^verbatim>\<open>Subscription::validate\<close>, over the parts of a subscription it reads.\<close>

definition subscription_validate ::
  "string \<Rightarrow> subscription_config \<Rightarrow> bool \<Rightarrow> bool \<Rightarrow> bool \<Rightarrow> bool \<Rightarrow> error + unit" where
  "subscription_validate name config transactional stateful keeps_source_order has_dlq =
     and_then (ensure_config (\<not> trimmed_empty name) ''subscription name must not be empty'')
    (and_then (config_validate config)
    (and_then (ensure_config (\<not> (transactional \<and> stateful))
                 ''a transactional subscription cannot run a stateful handler'')
    (and_then (ensure_config (\<not> transactional \<or> keeps_source_order)
                 ''transactional subscriptions require a distribution that keeps the source order'')
              (policy_validate (sc_error_policy config) has_dlq))))"

lemma retry_validate_iff [simp]: "retry_validate p = Inr u \<longleftrightarrow> 0 < max_attempts p"
  by (simp add: retry_validate_def)

definition config_result :: "error + unit \<Rightarrow> bool" where
  "config_result r \<longleftrightarrow> r = Inr () \<or> (\<exists>m. r = Inl (Config m))"

lemma config_result_intros [intro]:
  "config_result (ensure_config b m)" "config_result (retry_validate p)"
  "config_result (policy_validate q dlq)"
  "config_result r \<Longrightarrow> config_result s \<Longrightarrow> config_result (and_then r s)"
  by (auto simp: config_result_def ensure_config_def error_config_def retry_validate_def policy_validate_def
      and_then_def)

text \<open>
  A subscription passes validation exactly when it can run as configured: it is named, every
  bound is positive, every retry policy makes at least one attempt, a transactional subscription
  keeps the source order and no state, and a policy that dead-letters undecodable or unencodable
  deliveries has a sink for them. The defaults are valid, and every refusal is a configuration error.
\<close>

theorem subscription_validate_iff:
  "(subscription_validate name c tx st order dlq = Inr () \<longleftrightarrow>
      \<not> trimmed_empty name \<and> 0 < sc_concurrency c \<and> 0 < sc_max_in_flight c \<and>
      sc_max_in_flight_per_key c \<noteq> Some 0 \<and> sc_stall_timeout c \<noteq> Some 0 \<and>
      0 < max_attempts (sc_handler_retry c) \<and> 0 < max_attempts (sc_receive_retry c) \<and>
      0 < max_attempts (sc_publish_retry c) \<and> 0 < max_attempts (sc_dead_letter_retry c) \<and>
      0 < tb_max_deliveries (sc_transaction_batch c) \<and> (if tx then \<not> st \<and> order else True) \<and>
      (dlq \<or> policy_action (sc_error_policy c) FkDecode \<noteq> DeadLetterAction \<and>
             policy_action (sc_error_policy c) FkEncode \<noteq> DeadLetterAction)) \<and>
   (subscription_validate name c tx st order dlq = Inr () \<or>
    (\<exists>m. subscription_validate name c tx st order dlq = Inl (Config m))) \<and>
   config_validate default_config = Inr ()"
proof (intro conjI)
  have "config_result (subscription_validate name c tx st order dlq)"
    unfolding subscription_validate_def config_validate_def batch_validate_def
    by (intro config_result_intros)
  then show "subscription_validate name c tx st order dlq = Inr () \<or>
      (\<exists>m. subscription_validate name c tx st order dlq = Inl (Config m))"
    by (simp add: config_result_def)
qed (auto simp: subscription_validate_def config_validate_def batch_validate_def policy_validate_def
      default_config_def default_retry_policy_def default_batch_def batch_new_def)

end
