(* ===== verification/Batching.thy ===== *)
theory Batching
  imports Config Effects "HOL-Library.Sublist"
begin

text \<open>
  Batched sink transactions, \<^verbatim>\<open>src/subscription/transaction.rs\<close>. The committer takes the enlisted
  deliveries from its channel in order, forms batches by size and linger time, commits one batch at
  a time with retries, and reports the result to every delivery still waiting for it.

  The channel is the list of the deliveries still to come with the instants at which they arrive;
  it is closed after the last one. Whether the runtime still waits for a delivery can change
  whenever outside code runs, so \<open>abandoned\<close> reads it off the world.
\<close>

section \<open>Data and operations\<close>

record ('m, 'p) batch_entry =
  be_delivery :: 'm
  be_outputs :: "'p list"
  be_enlisted :: nat

text \<open>What one run of the committer does, in order.\<close>

datatype ('m, 'p) batch_event =
    BAbandon "('m, 'p) batch_entry"
  | BCommit "('m, 'p) batch_entry list" bool
  | BSleep duration
  | BDone "('m, 'p) batch_entry" "unit outcome"

text \<open>What the committer calls: the transactional sink, the clock, and the state of the deliveries.\<close>

record ('w, 'm, 'p) committer =
  cm_commit :: "('m \<times> 'p list) list \<Rightarrow> ('w, unit outcome) ext"
  cm_abandoned :: "'w \<Rightarrow> ('m, 'p) batch_entry \<Rightarrow> bool"
  cm_random :: "('w, u64) ext"
  cm_clock :: "'w \<Rightarrow> nat"
  cm_wait_until :: "nat \<Rightarrow> 'w \<Rightarrow> 'w"
  cm_batch :: transaction_batch
  cm_policy :: retry_policy

text \<open>
  Forming a batch: a further delivery joins while the batch is not full and the delivery arrives
  before the deadline, or has arrived already when the channel is polled.
\<close>

fun form_batch ::
  "('w, 'm, 'p) committer \<Rightarrow> nat \<Rightarrow> ('m, 'p) batch_entry list \<Rightarrow> (nat \<times> ('m, 'p) batch_entry) list \<Rightarrow>
   'w \<Rightarrow> ('m, 'p) batch_entry list \<times> (nat \<times> ('m, 'p) batch_entry) list \<times> 'w" where
  "form_batch cm deadline members [] w = (members, [], w)"
| "form_batch cm deadline members ((arrival, entry) # queue) w =
     (if length members < tb_max_deliveries (cm_batch cm)
      then if arrival \<le> max (cm_clock cm w) deadline
           then form_batch cm deadline (members @ [entry]) queue (cm_wait_until cm arrival w)
           else (members, (arrival, entry) # queue, cm_wait_until cm deadline w)
      else (members, (arrival, entry) # queue, w))"

definition retained ::
  "('w, 'm, 'p) committer \<Rightarrow> 'w \<Rightarrow> ('m, 'p) batch_entry list \<Rightarrow> ('m, 'p) batch_entry list" where
  "retained cm w members = filter (\<lambda>e. \<not> cm_abandoned cm w e) members"

definition dropped ::
  "('w, 'm, 'p) committer \<Rightarrow> 'w \<Rightarrow> ('m, 'p) batch_entry list \<Rightarrow> ('m, 'p) batch_event list" where
  "dropped cm w members = map BAbandon (filter (cm_abandoned cm w) members)"

definition transaction_of :: "('m, 'p) batch_entry list \<Rightarrow> ('m \<times> 'p list) list" where
  "transaction_of members = map (\<lambda>e. (be_delivery e, be_outputs e)) members"

lemma retained_less: "list_ex (cm_abandoned cm w) ms \<Longrightarrow> length (retained cm w ms) < length ms"
  by (induction ms) (auto simp: retained_def less_Suc_eq_le)

lemma retained_le: "length (retained cm w ms) \<le> length ms"
  by (simp add: retained_def)

lemma retained_eq: "\<not> length (retained cm w ms) < length ms \<Longrightarrow> length (retained cm w ms) = length ms"
  using retained_le [of cm w ms] by linarith

text \<open>
  \<^verbatim>\<open>Committer::commit\<close> from attempt number \<open>attempt\<close> on: its result, the members left, what it did,
  and the world.
\<close>

function commit_batch ::
  "('w, 'm, 'p) committer \<Rightarrow> ('m, 'p) batch_entry list \<Rightarrow> usize \<Rightarrow> 'w \<Rightarrow>
   unit outcome \<times> ('m, 'p) batch_entry list \<times> ('m, 'p) batch_event list \<times> 'w" where
  "commit_batch cm members attempt w =
     (let gone = dropped cm w members; members = retained cm w members in
      if members = [] then (Inr (), [], gone, w)
      else case cm_commit cm (transaction_of members) w of
             (Inr _, w1) \<Rightarrow> (Inr (), members, gone @ [BCommit members True], w1)
           | (Inl error, w1) \<Rightarrow>
               if rejected error
               then (Inl (box_context ''a transaction batch cannot route a rejected output'' error),
                     members, gone @ [BCommit members False], w1)
               else if list_ex (cm_abandoned cm w1) members
               then (case commit_batch cm members attempt w1 of
                       (r, left, t, w2) \<Rightarrow> (r, left, gone @ [BCommit members False] @ t, w2))
               else if attempt \<ge> max_attempts (cm_policy cm)
               then (Inl (box_context ''publish retry exhausted'' error), members,
                     gone @ [BCommit members False], w1)
               else (case cm_random cm w1 of
                       (rnd, w2) \<Rightarrow>
                         let d = delay rnd (cm_policy cm) attempt;
                             w3 = cm_wait_until cm (cm_clock cm w2 + d) w2
                         in case commit_batch cm members (attempt + 1) w3 of
                              (r, left, t, w4) \<Rightarrow>
                                (r, left, gone @ [BCommit members False, BSleep d] @ t, w4)))"
  by pat_completeness auto

termination
  by (relation "measures [\<lambda>(cm, members, attempt, w). length (retained cm w members),
      \<lambda>(cm, members, attempt, w). max_attempts (cm_policy cm) - attempt]")
    (auto simp: Let_def intro: retained_less retained_eq)

declare commit_batch.simps [simp del]

text \<open>
  \<^verbatim>\<open>Committer::run\<close>; \<open>failure\<close> is the text of the first batch failure, after which no batch commits.
\<close>

definition batch_result :: "string option \<Rightarrow> unit outcome" where
  "batch_result failure =
     (case failure of Some text \<Rightarrow> Inl (Crate (error_msg text)) | None \<Rightarrow> Inr ())"

definition run_batch ::
  "('w, 'm, 'p) committer \<Rightarrow> string option \<Rightarrow> ('m, 'p) batch_entry list \<Rightarrow> 'w \<Rightarrow>
   string option \<times> ('m, 'p) batch_event list \<times> 'w" where
  "run_batch cm failure members w =
     (case failure of
        Some text \<Rightarrow> (Some text, map (\<lambda>e. BDone e (batch_result (Some text))) members, w)
      | None \<Rightarrow>
          (case commit_batch cm members 1 w of
             (r, left, t, w1) \<Rightarrow>
               let failure = (case r of Inl error \<Rightarrow> Some (chain error) | Inr _ \<Rightarrow> None)
               in (failure, t @ map (\<lambda>e. BDone e (batch_result failure)) left, w1)))"

lemma form_batch_length: "length (fst (snd (form_batch cm dl ms q w))) \<le> length q"
  by (induction cm dl ms q w rule: form_batch.induct) auto

function committer_run ::
  "('w, 'm, 'p) committer \<Rightarrow> string option \<Rightarrow> (nat \<times> ('m, 'p) batch_entry) list \<Rightarrow> 'w \<Rightarrow>
   ('m, 'p) batch_event list \<times> 'w" where
  "committer_run cm failure [] w = ([], w)"
| "committer_run cm failure ((arrival, first) # queue) w =
     (case form_batch cm (be_enlisted first + tb_max_linger (cm_batch cm)) [first] queue
             (cm_wait_until cm arrival w) of
        (members, queue, w1) \<Rightarrow>
          (case run_batch cm failure members w1 of
             (failure, t, w2) \<Rightarrow>
               (case committer_run cm failure queue w2 of (t', w3) \<Rightarrow> (t @ t', w3))))"
  by pat_completeness auto
termination
proof (relation "measure (\<lambda>(cm, failure, queue, w). length queue)", goal_cases)
  case (2 cm failure arrival first queue w ms rest)
  then show ?case
    using form_batch_length [of cm "be_enlisted first + tb_max_linger (cm_batch cm)" "[first]" queue
        "cm_wait_until cm arrival w"] by (auto simp: prod_eq_iff)
qed simp

declare committer_run.simps [simp del]

section \<open>Batches\<close>

text \<open>A batch is the longest admissible prefix: nothing is reordered, lost or repeated.\<close>

lemma form_batch_split:
  "form_batch cm dl ms q w = (members, rest, w') \<Longrightarrow>
     \<exists>took. members = ms @ map snd took \<and> q = took @ rest"
proof (induction cm dl ms q w arbitrary: members rest w' rule: form_batch.induct)
  case (2 cm dl ms a e q w)
  show ?case
  proof (cases "length ms < tb_max_deliveries (cm_batch cm) \<and> a \<le> max (cm_clock cm w) dl")
    case True
    with 2 obtain took where "members = (ms @ [e]) @ map snd took" "q = took @ rest" by fastforce
    then show ?thesis by (intro exI [of _ "(a, e) # took"]) simp
  next
    case False
    with 2 show ?thesis by (intro exI [of _ "[]"]) (auto split: if_splits)
  qed
qed simp

lemma form_batch_bound:
  "form_batch cm dl ms q w = (members, rest, w') \<Longrightarrow>
     length members \<le> max (length ms) (tb_max_deliveries (cm_batch cm))"
  by (induction cm dl ms q w arbitrary: members rest w' rule: form_batch.induct)
    (fastforce split: if_splits)+

section \<open>What a run shows\<close>

primrec committed_in :: "('m, 'p) batch_event list \<Rightarrow> ('m, 'p) batch_entry list" where
  "committed_in [] = []"
| "committed_in (e # t) = (case e of BCommit es True \<Rightarrow> es @ committed_in t | _ \<Rightarrow> committed_in t)"

primrec abandoned_in :: "('m, 'p) batch_event list \<Rightarrow> ('m, 'p) batch_entry list" where
  "abandoned_in [] = []"
| "abandoned_in (e # t) = (case e of BAbandon x \<Rightarrow> x # abandoned_in t | _ \<Rightarrow> abandoned_in t)"

primrec reported_in :: "('m, 'p) batch_event list \<Rightarrow> (('m, 'p) batch_entry \<times> unit outcome) list" where
  "reported_in [] = []"
| "reported_in (e # t) = (case e of BDone x r \<Rightarrow> (x, r) # reported_in t | _ \<Rightarrow> reported_in t)"

definition batches_ok :: "nat \<Rightarrow> ('m, 'p) batch_event list \<Rightarrow> bool" where
  "batches_ok n t \<longleftrightarrow> (\<forall>es b. BCommit es b \<in> set t \<longrightarrow> es \<noteq> [] \<and> length es \<le> n)"

lemma batches_ok_simps [simp]:
  "batches_ok n []" "batches_ok n (BAbandon x # t) \<longleftrightarrow> batches_ok n t"
  "batches_ok n (BCommit es b # t) \<longleftrightarrow> es \<noteq> [] \<and> length es \<le> n \<and> batches_ok n t"
  "batches_ok n (BSleep d # t) \<longleftrightarrow> batches_ok n t" "batches_ok n (BDone x r # t) \<longleftrightarrow> batches_ok n t"
  by (auto simp: batches_ok_def)

lemma batches_ok_mono: "batches_ok n t \<Longrightarrow> n \<le> k \<Longrightarrow> batches_ok k t"
  by (auto simp: batches_ok_def intro: le_trans)

lemma in_append [simp]:
  "committed_in (t @ t') = committed_in t @ committed_in t'"
  "abandoned_in (t @ t') = abandoned_in t @ abandoned_in t'"
  "reported_in (t @ t') = reported_in t @ reported_in t'"
  "batches_ok n (t @ t') \<longleftrightarrow> batches_ok n t \<and> batches_ok n t'"
  by (induction t) (auto simp: batches_ok_def split: batch_event.splits bool.splits)

lemma in_dropped [simp]:
  "committed_in (dropped cm w ms) = []" "abandoned_in (dropped cm w ms) = filter (cm_abandoned cm w) ms"
  "reported_in (dropped cm w ms) = []" "batches_ok n (dropped cm w ms)"
  by (induction ms) (auto simp: dropped_def batches_ok_def)

lemma in_done [simp]:
  "committed_in (map (\<lambda>e. BDone e r) es) = []" "abandoned_in (map (\<lambda>e. BDone e r) es) = []"
  "reported_in (map (\<lambda>e. BDone e r) es) = map (\<lambda>e. (e, r)) es" "batches_ok n (map (\<lambda>e. BDone e r) es)"
  by (induction es) (auto simp: batches_ok_def)

text \<open>
  One batch: the members split into the abandoned ones and those left, nothing is reported yet, and
  the ones left are committed exactly when the batch succeeds.
\<close>

definition batch_outcome ::
  "('m, 'p) batch_entry list \<Rightarrow> unit outcome \<Rightarrow> ('m, 'p) batch_entry list \<Rightarrow>
   ('m, 'p) batch_event list \<Rightarrow> bool" where
  "batch_outcome ms r left t \<longleftrightarrow>
     subseq left ms \<and> mset (abandoned_in t) + mset left = mset ms \<and> reported_in t = [] \<and>
     batches_ok (length ms) t \<and>
     (case r of Inr _ \<Rightarrow> committed_in t = left | Inl _ \<Rightarrow> committed_in t = [])"

lemma retained_split: "mset (filter (cm_abandoned cm w) ms) + mset (retained cm w ms) = mset ms"
  by (induction ms) (auto simp: retained_def)

lemma batch_outcome_retry:
  assumes "batch_outcome (retained cm w ms) r left t" "retained cm w ms \<noteq> []"
    "\<forall>e \<in> set mid. \<exists>d. e = BSleep d"
  shows "batch_outcome ms r left (dropped cm w ms @ BCommit (retained cm w ms) False # mid @ t)"
proof -
  have mid: "committed_in mid = []" "abandoned_in mid = []" "reported_in mid = []" "batches_ok n mid" for n
    using assms(3) by (induction mid) auto
  have "subseq left ms" using assms(1) subseq_filter_left [of "\<lambda>e. \<not> cm_abandoned cm w e" ms]
    by (auto simp: batch_outcome_def retained_def intro: subseq_order.trans)
  moreover have "mset (filter (cm_abandoned cm w) ms) + (mset (abandoned_in t) + mset left) = mset ms"
    using assms(1) retained_split [of cm w ms] by (simp add: batch_outcome_def)
  moreover have "batches_ok (length ms) t"
    using assms(1) retained_le [of cm w ms] by (auto simp: batch_outcome_def intro: batches_ok_mono)
  ultimately show ?thesis using assms(1,2) mid retained_le [of cm w ms]
    by (auto simp: batch_outcome_def ac_simps split: sum.splits)
qed

lemma commit_batch_outcome:
  "commit_batch cm ms attempt w = (r, left, t, w') \<Longrightarrow> batch_outcome ms r left t"
proof (induction cm ms attempt w arbitrary: r left t w' rule: commit_batch.induct)
  case (1 cm ms attempt w)
  let ?ms = "retained cm w ms" and ?gone = "dropped cm w ms"
  have sub: "subseq ?ms ms" by (simp add: retained_def)
  obtain res w1 where call: "cm_commit cm (transaction_of ?ms) w = (res, w1)" by fastforce
  note unf = 1(3) [unfolded commit_batch.simps [of cm ms attempt w] Let_def]
  show ?case
  proof (cases "?ms = []")
    case True
    with unf retained_split [of cm w ms] show ?thesis by (auto simp: batch_outcome_def)
  next
    case ne: False
    have final: "batch_outcome ms r' ?ms (?gone @ [BCommit ?ms b])" if "is_ok r' = b" for r' b
      using that sub ne retained_split [of cm w ms] retained_le [of cm w ms]
      by (auto simp: batch_outcome_def is_ok_def split: sum.splits)
    show ?thesis
    proof (cases res)
      case (Inr u)
      with unf ne call final [of "Inr ()" True] show ?thesis by (auto simp: is_ok_def)
    next
      case (Inl error)
      consider "rejected error"
        | "\<not> rejected error" "list_ex (cm_abandoned cm w1) ?ms"
        | "\<not> rejected error" "\<not> list_ex (cm_abandoned cm w1) ?ms" "max_attempts (cm_policy cm) \<le> attempt"
        | "\<not> rejected error" "\<not> list_ex (cm_abandoned cm w1) ?ms" "\<not> max_attempts (cm_policy cm) \<le> attempt"
        by blast
      then show ?thesis
      proof cases
        case 1
        with unf ne call Inl final [of r False] show ?thesis by (auto simp: is_ok_def)
      next
        case 2
        obtain r2 left2 t2 w2 where rec: "commit_batch cm ?ms attempt w1 = (r2, left2, t2, w2)"
          by (metis prod.collapse)
        have "batch_outcome ?ms r2 left2 t2"
          using "1.IH"(1) [OF refl refl ne call [symmetric] Inl 2(1,2) rec] .
        from batch_outcome_retry [OF this ne, of "[]"] unf ne call Inl 2 rec show ?thesis by auto
      next
        case 3
        with unf ne call Inl final [of r False] show ?thesis by (auto simp: is_ok_def)
      next
        case 4
        obtain rnd wr where rnd: "cm_random cm w1 = (rnd, wr)" by fastforce
        let ?d = "delay rnd (cm_policy cm) attempt"
        let ?w3 = "cm_wait_until cm (cm_clock cm wr + ?d) wr"
        obtain r2 left2 t2 w2 where rec: "commit_batch cm ?ms (attempt + 1) ?w3 = (r2, left2, t2, w2)"
          by (metis prod.collapse)
        have "batch_outcome ?ms r2 left2 t2"
          using "1.IH"(2) [OF refl refl ne call [symmetric] Inl 4(1,2,3) rnd [symmetric] refl refl rec] .
        from batch_outcome_retry [OF this ne, of "[BSleep ?d]"] unf ne call Inl 4 rnd rec
        show ?thesis by auto
      qed
    qed
  qed
qed

text \<open>
  A run over the entries \<open>es\<close>: every entry is settled exactly once, the entries reported as committed
  are the committed ones in order, and they come from a prefix of \<open>es\<close> of which every other entry
  was abandoned. After a failure nothing commits.
\<close>

definition run_outcome ::
  "nat \<Rightarrow> string option \<Rightarrow> ('m, 'p) batch_entry list \<Rightarrow> ('m, 'p) batch_event list \<Rightarrow> bool" where
  "run_outcome n failure es t \<longleftrightarrow>
     mset (abandoned_in t) + mset (map fst (reported_in t)) = mset es \<and>
     committed_in t = map fst (filter (\<lambda>(x, r). is_ok r) (reported_in t)) \<and>
     batches_ok n t \<and> (failure \<noteq> None \<longrightarrow> committed_in t = []) \<and>
     (\<exists>k. subseq (committed_in t) (take k es) \<and>
          set (take k es) \<subseteq> set (committed_in t) \<union> set (abandoned_in t))"

lemma run_batch_outcome:
  assumes "run_batch cm failure ms w = (failure', t, w')"
  shows "run_outcome (length ms) failure ms t \<and>
    (failure' = None \<longrightarrow> failure = None \<and> subseq (committed_in t) ms \<and>
       set ms \<subseteq> set (committed_in t) \<union> set (abandoned_in t)) \<and>
    (failure' \<noteq> None \<longrightarrow> committed_in t = [])"
proof (cases failure)
  case (Some why)
  with assms show ?thesis
    by (auto simp: run_batch_def run_outcome_def batch_result_def is_ok_def o_def filter_map
        multiset.map_comp intro: exI [of _ "0::nat"])
next
  case None
  obtain r left tc w1 where comm: "commit_batch cm ms 1 w = (r, left, tc, w1)" by (metis prod.collapse)
  note out = commit_batch_outcome [OF comm]
  from assms None comm
  have f: "failure' = (case r of Inl error \<Rightarrow> Some (chain error) | Inr _ \<Rightarrow> None)"
    and t: "t = tc @ map (\<lambda>e. BDone e (batch_result failure')) left"
    by (auto simp: run_batch_def Let_def)
  have members: "set ms = set (abandoned_in tc) \<union> set left"
    using out by (metis batch_outcome_def set_mset_mset set_mset_union)
  show ?thesis
  proof (cases r)
    case (Inl e)
    with out f t None show ?thesis
      by (auto simp: batch_outcome_def run_outcome_def batch_result_def is_ok_def o_def filter_map
          intro: exI [of _ "0::nat"])
  next
    case (Inr u)
    with out f t None members show ?thesis
      by (auto simp: batch_outcome_def run_outcome_def batch_result_def is_ok_def o_def filter_map
          intro!: exI [of _ "length ms"])
  qed
qed

lemma committer_run_outcome:
  "committer_run cm failure queue w = (t, w') \<Longrightarrow>
     run_outcome (max 1 (tb_max_deliveries (cm_batch cm))) failure (map snd queue) t"
proof (induction cm failure queue w arbitrary: t w' rule: committer_run.induct)
  case (1 cm failure w)
  then show ?case by (auto simp: committer_run.simps run_outcome_def intro: exI [of _ "0::nat"])
next
  case (2 cm failure arrival first queue w)
  let ?n = "max 1 (tb_max_deliveries (cm_batch cm))"
  obtain ms rest w1 where form: "form_batch cm (be_enlisted first + tb_max_linger (cm_batch cm)) [first]
      queue (cm_wait_until cm arrival w) = (ms, rest, w1)" by (rule prod_cases3)
  obtain f tb w2 where batch: "run_batch cm failure ms w1 = (f, tb, w2)" by (rule prod_cases3)
  obtain tr w3 where rec: "committer_run cm f rest w2 = (tr, w3)" by fastforce
  from 2(2) form batch rec have t: "t = tb @ tr" by (simp add: committer_run.simps)
  from form_batch_split [OF form] have split: "map snd ((arrival, first) # queue) = ms @ map snd rest" by auto
  note rb = run_batch_outcome [OF batch]
  have IH: "run_outcome ?n f (map snd rest) tr"
    using 2(1) [OF form [symmetric] refl batch [symmetric] refl rec] .
  have bound: "batches_ok ?n tb"
    using rb form_batch_bound [OF form] by (auto simp: run_outcome_def intro: batches_ok_mono)
  have prefix_ok: "\<exists>k. subseq (committed_in t) (take k (ms @ map snd rest)) \<and>
      set (take k (ms @ map snd rest)) \<subseteq> set (committed_in t) \<union> set (abandoned_in t)"
  proof (cases f)
    case None
    from IH obtain k where "subseq (committed_in tr) (take k (map snd rest))"
      "set (take k (map snd rest)) \<subseteq> set (committed_in tr) \<union> set (abandoned_in tr)"
      unfolding run_outcome_def by blast
    with rb None t show ?thesis
      by (intro exI [of _ "length ms + k"]) (auto intro: list_emb_append_mono)
  next
    case (Some why)
    with IH rb t show ?thesis by (intro exI [of _ "0::nat"]) (auto simp: run_outcome_def)
  qed
  have fail: "failure \<noteq> None \<longrightarrow> committed_in t = []"
    using rb IH t by (cases f) (auto simp: run_outcome_def)
  from rb IH bound prefix_ok fail t show ?case unfolding split
    by (simp add: run_outcome_def ac_simps)
qed

section \<open>Properties\<close>

text \<open>
  A committer for the witnesses: batches of two, the first commit attempt fails transiently and the
  delivery 2 is abandoned from then on.
\<close>

definition ex_committer :: "(nat, nat, nat) committer" where
  "ex_committer =
     \<lparr>cm_commit = (\<lambda>batch w. (if w = 0 then Inl (Foreign ''fenced'' None) else Inr (), w + 1)),
      cm_abandoned = (\<lambda>w e. 0 < w \<and> be_delivery e = 2), cm_random = (\<lambda>w. (0, w)),
      cm_clock = (\<lambda>w. 0), cm_wait_until = (\<lambda>t w. w), cm_batch = batch_new 2 0,
      cm_policy = default_retry_policy\<rparr>"

abbreviation ex_entry :: "nat \<Rightarrow> (nat, nat) batch_entry" where
  "ex_entry n \<equiv> \<lparr>be_delivery = n, be_outputs = [n], be_enlisted = 0\<rparr>"

lemma rejected_foreign: "\<not> rejected (Foreign m None)"
  by (simp add: rejected_def causes.simps)

lemma ex_batches:
  "committer_run ex_committer None [(0, ex_entry 1), (0, ex_entry 2), (0, ex_entry 3)] 0 =
     ([BCommit [ex_entry 1, ex_entry 2] False, BAbandon (ex_entry 2), BCommit [ex_entry 1] True,
       BDone (ex_entry 1) (Inr ()), BCommit [ex_entry 3] True, BDone (ex_entry 3) (Inr ())], 3)"
  by (simp add: ex_committer_def committer_run.simps run_batch_def commit_batch.simps retained_def
      dropped_def batch_new_def batch_result_def rejected_foreign Let_def)

text \<open>
  C4. Commits never leave a gap: the deliveries committed by a run, in order, come from a prefix of
  the enlisted deliveries in which every other delivery was abandoned. In particular, after a batch
  fails no later batch commits, so a later acknowledgement never covers a delivery that failed. Every
  batch the broker is asked to commit has a delivery, and no more of them than the configured size.
\<close>

theorem batches_commit_prefix:
  assumes "committer_run cm failure queue w = (t, w')"
  shows "(\<exists>k. subseq (committed_in t) (take k (map snd queue)) \<and>
      (\<forall>e \<in> set (take k (map snd queue)). e \<in> set (committed_in t) \<or> BAbandon e \<in> set t))
    \<and> (\<forall>es b. BCommit es b \<in> set t \<longrightarrow>
         es \<noteq> [] \<and> length es \<le> max 1 (tb_max_deliveries (cm_batch cm)))"
proof -
  have ab: "BAbandon e \<in> set t" if "e \<in> set (abandoned_in t)" for e
    using that by (induction t) (auto split: batch_event.splits)
  note out = committer_run_outcome [OF assms]
  from out obtain k where "subseq (committed_in t) (take k (map snd queue))"
    "set (take k (map snd queue)) \<subseteq> set (committed_in t) \<union> set (abandoned_in t)"
    unfolding run_outcome_def by blast
  with ab have "\<exists>k. subseq (committed_in t) (take k (map snd queue)) \<and>
      (\<forall>e \<in> set (take k (map snd queue)). e \<in> set (committed_in t) \<or> BAbandon e \<in> set t)" by blast
  moreover have "batches_ok (max 1 (tb_max_deliveries (cm_batch cm))) t"
    using out by (simp add: run_outcome_def)
  ultimately show ?thesis unfolding batches_ok_def by blast
qed

theorem batches_commit_prefix_witness:
  "\<exists>t w'. committer_run ex_committer None [(0, ex_entry 1), (0, ex_entry 2), (0, ex_entry 3)] 0 = (t, w') \<and>
     (\<exists>k. subseq (committed_in t) (take k [ex_entry 1, ex_entry 2, ex_entry 3]) \<and>
        (\<forall>e \<in> set (take k [ex_entry 1, ex_entry 2, ex_entry 3]). e \<in> set (committed_in t) \<or> BAbandon e \<in> set t))
     \<and> (\<forall>es b. BCommit es b \<in> set t \<longrightarrow> es \<noteq> [] \<and> length es \<le> 2)"
proof -
  have limit: "max 1 (tb_max_deliveries (cm_batch ex_committer)) = 2"
    by (simp add: ex_committer_def batch_new_def)
  have queue: "map snd [(0::nat, ex_entry 1), (0, ex_entry 2), (0, ex_entry 3)] = [ex_entry 1, ex_entry 2, ex_entry 3]"
    by simp
  from batches_commit_prefix [OF ex_batches, unfolded limit queue] show ?thesis
    by - (intro exI, rule conjI [OF ex_batches])
qed

text \<open>
  C21. Every enlisted delivery is settled exactly once: it is abandoned or it gets one result, and
  the deliveries that get a success are exactly the committed ones, in commit order. Batches are
  never empty and never exceed the configured size.
\<close>

theorem batches_settle_once:
  assumes "committer_run cm failure queue w = (t, w')"
  shows "mset (abandoned_in t) + mset (map fst (reported_in t)) = mset (map snd queue) \<and>
    committed_in t = map fst (filter (\<lambda>(x, r). is_ok r) (reported_in t)) \<and>
    (\<forall>es b. BCommit es b \<in> set t \<longrightarrow>
       es \<noteq> [] \<and> length es \<le> max 1 (tb_max_deliveries (cm_batch cm)))"
  using committer_run_outcome [OF assms] by (simp add: run_outcome_def batches_ok_def)

theorem batches_settle_once_witness:
  "\<exists>t w'. committer_run ex_committer None [(0, ex_entry 1), (0, ex_entry 2), (0, ex_entry 3)] 0 = (t, w') \<and>
     mset (abandoned_in t) + mset (map fst (reported_in t)) =
       mset (map snd [(0::nat, ex_entry 1), (0, ex_entry 2), (0, ex_entry 3)])"
  using batches_settle_once [OF ex_batches] ex_batches by blast

end
