(* ===== verification/Runtime.thy ===== *)
theory Runtime
  imports Scheduler Config Tokens
begin

text \<open>
  The receive loop of one subscription, \<^verbatim>\<open>src/subscription/runtime.rs\<close>, and the queue of
  deliveries being decoded, \<^verbatim>\<open>src/subscription/decoding.rs\<close>.

  Both loops of \<^verbatim>\<open>Subscription::execute\<close> wait in a \<^verbatim>\<open>tokio::select!\<close>. A state of the model is the
  loop waiting there, and \<open>rt_step\<close> runs the arm whose future became ready and then the code
  up to the next wait. Which future becomes ready, and with what result, is the event; an arm that
  the source disables or that a biased select would not reach has no step. What handlers, sinks
  and brokers do is the result carried by an event, so every order of completions and every failure
  is covered. Other tasks cancel tokens at any time (\<open>RtCancel\<close>).

  The fields from \<open>rt_received\<close> on are history: no decision of the code reads them. Metrics, spans
  and health marks are left out. \<^verbatim>\<open>HashMap::drain\<close> visits lanes in an unspecified order, which is
  the lane list of a step.
\<close>

section \<open>State\<close>

record ('m, 'v) decoded =
  de_delivery :: 'm
  de_value :: "'v outcome"

type_synonym ('m, 'v) job = "('m, 'v) decoded item"

text \<open>
  What the loop knows of its subscription: the configuration, the distributor, the trait methods of
  the source and of its messages, and the application's shutdown token.
\<close>

record ('m, 'v) worker =
  wk_name :: string
  wk_config :: subscription_config
  wk_distributor :: "('m, 'v) distributor"
  wk_ordering_key :: "'m \<Rightarrow> ordering_key option"
  wk_handoff :: "'m \<Rightarrow> token option"
  wk_revocation :: "'m \<Rightarrow> token option"
  wk_pause :: "ordering_key \<Rightarrow> bool"
  wk_stops_on_shutdown :: bool
  wk_shutdown :: token

datatype phase = Receiving | Draining | Closing | Finished "error + unit"

record ('m, 'v) runtime =
  rt_sched :: "('m, 'v) decoded scheduler"
  rt_decoding :: "(admission \<times> 'm) list"
  rt_jobs :: "('m, 'v) job list"
  rt_acks :: "token option list"
  rt_failure :: "box_error option"
  rt_failures :: usize
  rt_wait :: duration
  rt_ended :: bool
  rt_verified :: bool
  rt_tokens :: tokens
  rt_phase :: phase
  rt_received :: "'m list"
  rt_pushed :: "('m, 'v) job list"
  rt_completed :: "('m, 'v) job list"
  rt_abandoned :: "('m, 'v) job list"
  rt_failed :: "('m, 'v) job list"
  rt_lost :: "admission list"
  rt_requests :: "flow_change list"

abbreviation concurrency :: "('m, 'v) worker \<Rightarrow> usize" where
  "concurrency wk \<equiv> sc_concurrency (wk_config wk)"

abbreviation max_in_flight :: "('m, 'v) worker \<Rightarrow> usize" where
  "max_in_flight wk \<equiv> sc_max_in_flight (wk_config wk)"

definition rt_new :: "('m, 'v) worker \<Rightarrow> tokens \<Rightarrow> ('m, 'v) runtime" where
  "rt_new wk ts =
     \<lparr>rt_sched = scheduler_new (sc_max_in_flight_per_key (wk_config wk)), rt_decoding = [],
      rt_jobs = [], rt_acks = [], rt_failure = None, rt_failures = 0, rt_wait = 0,
      rt_ended = False, rt_verified = False, rt_tokens = ts, rt_phase = Receiving,
      rt_received = [], rt_pushed = [], rt_completed = [], rt_abandoned = [], rt_failed = [],
      rt_lost = [], rt_requests = []\<rparr>"

text \<open>
  \<^verbatim>\<open>stop.is_cancelled()\<close>: the stop token is the shutdown token, or a fresh token nobody cancels
  when the source does not stop on shutdown.
\<close>

definition stopping :: "('m, 'v) worker \<Rightarrow> ('m, 'v) runtime \<Rightarrow> bool" where
  "stopping wk R \<longleftrightarrow>
     wk_stops_on_shutdown wk \<and> token_is_cancelled (rt_tokens R) (wk_shutdown wk)"

definition token_set :: "tokens \<Rightarrow> token option \<Rightarrow> bool" where
  "token_set ts t = (case t of None \<Rightarrow> False | Some t \<Rightarrow> token_is_cancelled ts t)"

section \<open>Decoding\<close>

definition decoding_start ::
  "admission \<Rightarrow> 'm \<Rightarrow> (admission \<times> 'm) list \<Rightarrow> (admission \<times> 'm) list" where
  "decoding_start a m pending = pending @ [(a, m)]"

text \<open>
  \<^verbatim>\<open>Decoding::next\<close> once the task of the oldest delivery has ended, with a value or a panic.
\<close>

fun decoding_next ::
  "(admission \<times> 'm) list \<Rightarrow> 'v outcome outcome \<Rightarrow>
   ((admission \<times> ('m, 'v) decoded) outcome \<times> (admission \<times> 'm) list) option" where
  "decoding_next [] r = None"
| "decoding_next ((a, m) # pending) (Inl e) = Some (Inl e, pending)"
| "decoding_next ((a, m) # pending) (Inr v) =
     Some (Inr (a, \<lparr>de_delivery = m, de_value = v\<rparr>), pending)"

definition decoding_discard ::
  "(admission \<times> 'm) list \<Rightarrow> admission list \<times> (admission \<times> 'm) list" where
  "decoding_discard pending = (map fst pending, [])"

section \<open>The worker\<close>

definition decoded_lane :: "('m, 'v) worker \<Rightarrow> ('m, 'v) decoded \<Rightarrow> lane option" where
  "decoded_lane wk d =
     (case de_value d of
        Inl _ \<Rightarrow> None
      | Inr v \<Rightarrow> dr_lane (wk_distributor wk) (de_delivery d) v)"

definition distribute ::
  "('m, 'v) worker \<Rightarrow> admission \<Rightarrow> ('m, 'v) decoded \<Rightarrow> ('m, 'v) runtime \<Rightarrow> ('m, 'v) runtime" where
  "distribute wk a d R =
     (let l = decoded_lane wk d in
      R\<lparr>rt_sched := push a l d (rt_sched R),
        rt_pushed := rt_pushed R @ [(\<lparr>tk_lane = l, tk_flow = adm_flow a\<rparr>, d)]\<rparr>)"

definition handed_off :: "('m, 'v) worker \<Rightarrow> ('m, 'v) runtime \<Rightarrow> ('m, 'v) job \<Rightarrow> bool" where
  "handed_off wk R x = token_set (rt_tokens R) (wk_handoff wk (de_delivery (snd x)))"

text \<open>
  The loop of \<^verbatim>\<open>Worker::start_ready\<close>. Every round takes a delivery out of the queues, so it ends
  after at most as many rounds as deliveries are outstanding (\<open>start_ready_saturates\<close>).
\<close>

primrec start_rounds ::
  "nat \<Rightarrow> ('m, 'v) worker \<Rightarrow> ('m, 'v) runtime \<Rightarrow> ('m, 'v) runtime" where
  "start_rounds 0 wk R = R"
| "start_rounds (Suc n) wk R =
     (if length (rt_jobs R) < concurrency wk then
        (case next_ready (rt_sched R) of
           None \<Rightarrow> R
         | Some (x, s) \<Rightarrow>
             if handed_off wk R x
             then start_rounds n wk
                    (R\<lparr>rt_sched := complete (fst x) s, rt_completed := rt_completed R @ [x],
                       rt_abandoned := rt_abandoned R @ [x]\<rparr>)
             else start_rounds n wk (R\<lparr>rt_sched := s, rt_jobs := rt_jobs R @ [x]\<rparr>))
      else R)"

definition start_ready :: "('m, 'v) worker \<Rightarrow> ('m, 'v) runtime \<Rightarrow> ('m, 'v) runtime" where
  "start_ready wk R = start_rounds (outstanding (rt_sched R)) wk R"

text \<open>The loop over \<^verbatim>\<open>take_flow_changes\<close>; a source that refuses to pause ends it.\<close>

fun apply_flow ::
  "('m, 'v) worker \<Rightarrow> flow_change list \<Rightarrow> ('m, 'v) runtime \<Rightarrow> ('m, 'v) runtime" where
  "apply_flow wk [] R = R"
| "apply_flow wk (Pause k # cs) R =
     (if wk_pause wk k then apply_flow wk cs (R\<lparr>rt_requests := rt_requests R @ [Pause k]\<rparr>)
      else R\<lparr>rt_sched := disable_flow_control (rt_sched R)\<rparr>)"
| "apply_flow wk (Resume k # cs) R =
     apply_flow wk cs (R\<lparr>rt_requests := rt_requests R @ [Resume k]\<rparr>)"

definition flow_changes :: "('m, 'v) worker \<Rightarrow> ('m, 'v) runtime \<Rightarrow> ('m, 'v) runtime" where
  "flow_changes wk R =
     (case take_flow_changes (rt_sched R) of (cs, s) \<Rightarrow> apply_flow wk cs (R\<lparr>rt_sched := s\<rparr>))"

text \<open>
  \<^verbatim>\<open>discard_unstarted\<close>. The lane list visits every lane once; a list that misses a lane is no order
  of the map.
\<close>

definition discard_unstarted ::
  "lane list \<Rightarrow> ('m, 'v) runtime \<Rightarrow> ('m, 'v) runtime option" where
  "discard_unstarted order R =
     (let (admissions, decoding) = decoding_discard (rt_decoding R);
          s = fold withdraw admissions (rt_sched R);
          order = filter (\<lambda>l. waiting s l \<noteq> None) order
      in if distinct order \<and> set order = dom (waiting s)
         then Some (R\<lparr>rt_sched := discard_pending order s, rt_decoding := decoding\<rparr>)
         else None)"

text \<open>
  \<^verbatim>\<open>abandon_on_revocation\<close>, when it is polled with the tokens \<open>before\<close> and the work, if it is
  ready, ends with the tokens \<open>after\<close>. \<open>None\<close> is a future that stays pending.
\<close>

definition abandon_on_revocation ::
  "token option \<Rightarrow> tokens \<Rightarrow> tokens \<Rightarrow> 'a outcome option \<Rightarrow> 'a option outcome option" where
  "abandon_on_revocation revocation before after work =
     (case revocation of
        None \<Rightarrow> map_option (map_sum id Some) work
      | Some revoked \<Rightarrow>
          if token_is_cancelled before revoked then Some (Inr None)
          else case work of
                 None \<Rightarrow> None
               | Some (Inl e) \<Rightarrow>
                   if token_is_cancelled after revoked then Some (Inr None) else Some (Inl e)
               | Some (Inr a) \<Rightarrow> Some (Inr (Some a)))"

section \<open>The loops\<close>

text \<open>\<^verbatim>\<open>failure = Some(error); shutdown.cancel()\<close> and \<^verbatim>\<open>failure.get_or_insert(error)\<close>.\<close>

definition cancel_shutdown :: "('m, 'v) worker \<Rightarrow> ('m, 'v) runtime \<Rightarrow> ('m, 'v) runtime" where
  "cancel_shutdown wk R = R\<lparr>rt_tokens := token_cancel (wk_shutdown wk) (rt_tokens R)\<rparr>"

definition insert_failure :: "box_error \<Rightarrow> ('m, 'v) runtime \<Rightarrow> ('m, 'v) runtime" where
  "insert_failure e R =
     (case rt_failure R of None \<Rightarrow> R\<lparr>rt_failure := Some e\<rparr> | Some _ \<Rightarrow> R)"

definition fail_with ::
  "('m, 'v) worker \<Rightarrow> box_error \<Rightarrow> ('m, 'v) runtime \<Rightarrow> ('m, 'v) runtime" where
  "fail_with wk e R = cancel_shutdown wk (R\<lparr>rt_failure := Some e\<rparr>)"

text \<open>The head of the receive loop, and the head of the drain loop.\<close>

definition receive_head :: "('m, 'v) worker \<Rightarrow> ('m, 'v) runtime \<Rightarrow> ('m, 'v) runtime" where
  "receive_head wk R = flow_changes wk (start_ready wk R)"

definition drain_head ::
  "lane list \<Rightarrow> ('m, 'v) worker \<Rightarrow> ('m, 'v) runtime \<Rightarrow> ('m, 'v) runtime option" where
  "drain_head order wk R =
     map_option (start_ready wk)
       (if stopping wk R \<or> rt_failure R \<noteq> None then discard_unstarted order R else Some R)"

text \<open>From the \<^verbatim>\<open>break\<close> of the receive loop to the first wait of the drain loop.\<close>

definition break_loop ::
  "lane list \<Rightarrow> ('m, 'v) worker \<Rightarrow> ('m, 'v) runtime \<Rightarrow> ('m, 'v) runtime option" where
  "break_loop order wk R =
     (case (if rt_ended R then Some R else discard_unstarted order R) of
        None \<Rightarrow> None
      | Some R \<Rightarrow> drain_head order wk (R\<lparr>rt_phase := Draining\<rparr>))"

text \<open>
  The continuation of an arm that both loops have: the receive loop goes on or breaks with the
  failure, the drain loop records the first failure and goes on.
\<close>

definition continue_loop ::
  "lane list \<Rightarrow> ('m, 'v) worker \<Rightarrow> ('m, 'v) runtime \<times> box_error option \<Rightarrow>
   ('m, 'v) runtime option" where
  "continue_loop order wk Re =
     (case Re of (R, error) \<Rightarrow>
        case rt_phase R of
          Receiving \<Rightarrow>
            (case error of
               None \<Rightarrow> Some (receive_head wk R)
             | Some e \<Rightarrow> break_loop order wk (fail_with wk e R))
        | Draining \<Rightarrow>
            (case error of
               None \<Rightarrow> drain_head order wk R
             | Some e \<Rightarrow> drain_head order wk (cancel_shutdown wk (insert_failure e R)))
        | _ \<Rightarrow> None)"

text \<open>
  A job ended: its ticket completes and its acknowledgement may still wait for outputs (the flag),
  or its error leaves the ticket uncompleted.
\<close>

definition job_arm ::
  "('m, 'v) worker \<Rightarrow> ('m, 'v) job \<Rightarrow> bool option outcome \<Rightarrow> ('m, 'v) runtime \<Rightarrow>
   ('m, 'v) runtime \<times> box_error option" where
  "job_arm wk x r R =
     (case r of
        Inl e \<Rightarrow> (R\<lparr>rt_failed := rt_failed R @ [x]\<rparr>, Some e)
      | Inr pending \<Rightarrow>
          (R\<lparr>rt_sched := complete (fst x) (rt_sched R), rt_completed := rt_completed R @ [x],
             rt_acks := (if pending = Some True
                         then rt_acks R @ [wk_revocation wk (de_delivery (snd x))]
                         else rt_acks R)\<rparr>, None))"

definition decoding_arm ::
  "('m, 'v) worker \<Rightarrow> 'v outcome outcome \<Rightarrow> ('m, 'v) runtime \<Rightarrow>
   (('m, 'v) runtime \<times> box_error option) option" where
  "decoding_arm wk r R =
     (case decoding_next (rt_decoding R) r of
        None \<Rightarrow> None
      | Some (Inr (a, d), rest) \<Rightarrow> Some (distribute wk a d (R\<lparr>rt_decoding := rest\<rparr>), None)
      | Some (Inl e, rest) \<Rightarrow>
          Some (R\<lparr>rt_decoding := rest, rt_lost := rt_lost R @ [fst (hd (rt_decoding R))]\<rparr>,
                Some (box_context ''decoding failed'' e)))"

text \<open>
  What \<^verbatim>\<open>Source::receive\<close> returned. A message comes with the answer of \<^verbatim>\<open>Outputs::verify\<close>, asked
  only before the first delivery and abandoned (\<open>None\<close>) when shutdown comes first; a retried
  failure comes with the random word of the delay.
\<close>

datatype 'm received =
    RecvEnd
  | RecvMessage 'm "unit outcome option"
  | RecvRetry box_error u64
  | RecvFatal box_error

definition admit_delivery ::
  "('m, 'v) worker \<Rightarrow> 'm \<Rightarrow> ('m, 'v) runtime \<Rightarrow> ('m, 'v) runtime" where
  "admit_delivery wk m R =
     (case admit (wk_ordering_key wk m) (rt_sched R) of (a, s) \<Rightarrow>
        R\<lparr>rt_sched := s, rt_decoding := decoding_start a m (rt_decoding R),
          rt_received := rt_received R @ [m]\<rparr>)"

definition receive_enabled :: "('m, 'v) worker \<Rightarrow> ('m, 'v) runtime \<Rightarrow> bool" where
  "receive_enabled wk R \<longleftrightarrow>
     length (rt_jobs R) < concurrency wk \<and> length (rt_decoding R) < concurrency wk
     \<and> outstanding (rt_sched R) < max_in_flight wk"

fun receive_arm ::
  "lane list \<Rightarrow> ('m, 'v) worker \<Rightarrow> 'm received \<Rightarrow> ('m, 'v) runtime \<Rightarrow>
   ('m, 'v) runtime option" where
  "receive_arm order wk RecvEnd R = break_loop order wk (R\<lparr>rt_ended := True\<rparr>)"
| "receive_arm order wk (RecvMessage m verdict) R =
     (let R = R\<lparr>rt_failures := 0, rt_wait := 0\<rparr> in
      if rt_verified R then Some (receive_head wk (admit_delivery wk m R))
      else case verdict of
             None \<Rightarrow>
               if wk_stops_on_shutdown wk then break_loop order wk (cancel_shutdown wk R) else None
           | Some (Inr _) \<Rightarrow>
               Some (receive_head wk (admit_delivery wk m (R\<lparr>rt_verified := True\<rparr>)))
           | Some (Inl e) \<Rightarrow> break_loop order wk (fail_with wk e R))"
| "receive_arm order wk (RecvRetry e rnd) R =
     (let failures = rt_failures R + 1;
          policy = sc_receive_retry (wk_config wk);
          R = R\<lparr>rt_failures := failures\<rparr>
      in if failures \<ge> max_attempts policy
         then break_loop order wk (fail_with wk (box_context ''receive retry exhausted'' e) R)
         else Some (receive_head wk (R\<lparr>rt_wait := delay rnd policy failures\<rparr>)))"
| "receive_arm order wk (RecvFatal e) R =
     break_loop order wk (fail_with wk (box_context ''fatal receive error'' e) R)"

text \<open>The end of \<^verbatim>\<open>execute\<close>, once the cleanup has ended.\<close>

definition finish_run :: "('m, 'v) worker \<Rightarrow> ('m, 'v) runtime \<Rightarrow> ('m, 'v) runtime" where
  "finish_run wk R =
     (case rt_failure R of
        Some failure \<Rightarrow>
          (cancel_shutdown wk R)\<lparr>rt_phase := Finished (Inl (SubscriptionError (wk_name wk) failure))\<rparr>
      | None \<Rightarrow> R\<lparr>rt_phase := Finished (Inr ())\<rparr>)"

definition result_and :: "unit outcome \<Rightarrow> unit outcome \<Rightarrow> unit outcome" where
  "result_and a b = (case a of Inl e \<Rightarrow> Inl e | Inr _ \<Rightarrow> b)"

definition close_run :: "('m, 'v) worker \<Rightarrow> unit outcome \<Rightarrow> ('m, 'v) runtime \<Rightarrow> ('m, 'v) runtime" where
  "close_run wk r R = finish_run wk (case r of Inl e \<Rightarrow> insert_failure e R | Inr _ \<Rightarrow> R)"

definition drain_timed_out :: "('m, 'v) worker \<Rightarrow> ('m, 'v) runtime \<Rightarrow> ('m, 'v) runtime" where
  "drain_timed_out wk R =
     cancel_shutdown wk
       (insert_failure
          (Crate (Timeout ''drain timeout; unfinished deliveries were not acknowledged''))
          (R\<lparr>rt_decoding := [], rt_jobs := [], rt_acks := [], rt_phase := Closing,
             rt_failed := rt_failed R @ rt_jobs R,
             rt_lost := rt_lost R @ map fst (rt_decoding R)\<rparr>))"

datatype ('m, 'v) rt_event =
    RtCancel token
  | RtStop
  | RtJob nat "bool outcome option" "token list"
  | RtJobPanic nat box_error
  | RtAck nat "unit outcome option" "token list"
  | RtAckPanic nat box_error
  | RtDecoded "'v outcome outcome"
  | RtReceive "'m received"
  | RtDrained
  | RtDrainTimeout
  | RtClosed "unit outcome" "unit outcome" "unit outcome"
  | RtCloseTimeout

text \<open>An arm below the stop token of the biased select, or any arm of the drain loop.\<close>

definition arm_enabled :: "('m, 'v) worker \<Rightarrow> ('m, 'v) runtime \<Rightarrow> bool" where
  "arm_enabled wk R \<longleftrightarrow> (rt_phase R = Receiving \<and> \<not> stopping wk R) \<or> rt_phase R = Draining"

fun rt_step ::
  "('m, 'v) worker \<Rightarrow> ('m, 'v) runtime \<Rightarrow> ('m, 'v) rt_event \<times> lane list \<Rightarrow>
   ('m, 'v) runtime option" where
  "rt_step wk R (RtCancel t, order) = Some (R\<lparr>rt_tokens := token_cancel t (rt_tokens R)\<rparr>)"
| "rt_step wk R (RtStop, order) =
     (if rt_phase R = Receiving \<and> stopping wk R then break_loop order wk R else None)"
| "rt_step wk R (RtJob i work ts, order) =
     (if arm_enabled wk R \<and> i < length (rt_jobs R) then
        let x = rt_jobs R ! i; after = fold token_cancel ts (rt_tokens R) in
        case abandon_on_revocation (wk_revocation wk (de_delivery (snd x))) (rt_tokens R) after work of
          None \<Rightarrow> None
        | Some r \<Rightarrow>
            continue_loop order wk
              (job_arm wk x r (R\<lparr>rt_tokens := after, rt_jobs := remove_nth i (rt_jobs R)\<rparr>))
      else None)"
| "rt_step wk R (RtJobPanic i e, order) =
     (if arm_enabled wk R \<and> i < length (rt_jobs R) then
        continue_loop order wk
          (job_arm wk (rt_jobs R ! i) (Inl e) (R\<lparr>rt_jobs := remove_nth i (rt_jobs R)\<rparr>))
      else None)"
| "rt_step wk R (RtAck i work ts, order) =
     (if arm_enabled wk R \<and> i < length (rt_acks R) then
        let after = fold token_cancel ts (rt_tokens R) in
        case abandon_on_revocation (rt_acks R ! i) (rt_tokens R) after work of
          None \<Rightarrow> None
        | Some r \<Rightarrow>
            continue_loop order wk
              (R\<lparr>rt_tokens := after, rt_acks := remove_nth i (rt_acks R)\<rparr>,
               case r of Inl e \<Rightarrow> Some e | Inr _ \<Rightarrow> None)
      else None)"
| "rt_step wk R (RtAckPanic i e, order) =
     (if arm_enabled wk R \<and> i < length (rt_acks R) then
        continue_loop order wk (R\<lparr>rt_acks := remove_nth i (rt_acks R)\<rparr>, Some e)
      else None)"
| "rt_step wk R (RtDecoded r, order) =
     (if arm_enabled wk R then
        case decoding_arm wk r R of None \<Rightarrow> None | Some Re \<Rightarrow> continue_loop order wk Re
      else None)"
| "rt_step wk R (RtReceive r, order) =
     (if rt_phase R = Receiving \<and> \<not> stopping wk R \<and> receive_enabled wk R
      then receive_arm order wk r R else None)"
| "rt_step wk R (RtDrained, order) =
     (if rt_phase R = Draining \<and> rt_jobs R = [] \<and> rt_acks R = [] \<and> rt_decoding R = []
      then Some (R\<lparr>rt_phase := Closing\<rparr>) else None)"
| "rt_step wk R (RtDrainTimeout, order) =
     (if rt_phase R = Draining then Some (drain_timed_out wk R) else None)"
| "rt_step wk R (RtClosed src snk dlq, order) =
     (if rt_phase R = Closing then Some (close_run wk (result_and (result_and src snk) dlq) R)
      else None)"
| "rt_step wk R (RtCloseTimeout, order) =
     (if rt_phase R = Closing then Some (close_run wk (Inl (Crate (Timeout ''close timeout''))) R)
      else None)"

definition rt_init :: "('m, 'v) worker \<Rightarrow> ('m, 'v) runtime \<Rightarrow> bool" where
  "rt_init wk R \<longleftrightarrow> config_validate (wk_config wk) = Inr () \<and> (\<exists>ts. R = rt_new wk ts)"

abbreviation rt_reach :: "('m, 'v) worker \<Rightarrow> ('m, 'v) runtime \<Rightarrow> bool" where
  "rt_reach wk \<equiv> reach (rt_init wk) (rt_step wk)"

section \<open>The loop drives its scheduler within the contract\<close>

text \<open>
  A runtime state simulates a client of the scheduler: what is decoding is admitted, what a job runs
  is running, a failed job keeps its ticket and a panicked decode its admission.
\<close>

definition rt_sim :: "('m, 'v) runtime \<Rightarrow> ('m, 'v) decoded sched_sys \<Rightarrow> bool" where
  "rt_sim R S \<longleftrightarrow>
     sched_reach S \<and> sched S = rt_sched R \<and>
     admitted S = rt_lost R @ map fst (rt_decoding R) \<and>
     mset (running S) = mset (rt_jobs R) + mset (rt_failed R) \<and>
     pushed S = rt_pushed R \<and> completed S = rt_completed R"

lemma rt_simD:
  assumes "rt_sim R S"
  shows "sched_reach S" "sched S = rt_sched R" "admitted S = rt_lost R @ map fst (rt_decoding R)"
    "mset (running S) = mset (rt_jobs R) + mset (rt_failed R)"
    "pushed S = rt_pushed R" "completed S = rt_completed R"
  using assms by (simp_all add: rt_sim_def)

lemma count_mset_sum: "count (mset xs) y = (\<Sum>x\<leftarrow>xs. of_bool (x = y))"
  by (induction xs) auto

lemma mset_eq_short: "mset xs = mset ys \<Longrightarrow> length xs \<le> 1 \<Longrightarrow> ys = xs"
  by (cases xs; cases "tl xs") auto

lemma remove_nth_append: "remove_nth (length xs) (xs @ y # ys) = xs @ ys"
  by (simp add: remove_nth_def)

lemma sim_start:
  assumes "rt_sim R S" "next_ready (rt_sched R) = Some (x, s)"
  obtains S' where "rt_sim (R\<lparr>rt_sched := s, rt_jobs := rt_jobs R @ [x]\<rparr>) S'" "closed S' = closed S"
proof
  let ?S = "S\<lparr>sched := s, running := running S @ [x]\<rparr>"
  have "sched_step S EvStart = Some ?S" using assms by (simp add: rt_sim_def)
  then have "sched_reach ?S" using assms(1) by (blast dest: rt_simD intro: reach_step)
  then show "rt_sim (R\<lparr>rt_sched := s, rt_jobs := rt_jobs R @ [x]\<rparr>) ?S" "closed ?S = closed S"
    using assms(1) by (simp_all add: rt_sim_def)
qed

lemma sim_complete:
  assumes "rt_sim R S" "i < length (rt_jobs R)"
  obtains S' where
    "rt_sim (R\<lparr>rt_jobs := remove_nth i (rt_jobs R),
               rt_sched := complete (fst (rt_jobs R ! i)) (rt_sched R),
               rt_completed := rt_completed R @ [rt_jobs R ! i]\<rparr>) S'"
    "closed S' = closed S"
proof -
  let ?x = "rt_jobs R ! i"
  note sim = rt_simD [OF assms(1)]
  have "?x \<in># mset (running S)" using assms(2) by (simp add: sim(4))
  then obtain j where j: "j < length (running S)" "running S ! j = ?x"
    by (auto simp: in_set_conv_nth)
  let ?S = "S\<lparr>sched := complete (fst ?x) (sched S), running := remove_nth j (running S),
             completed := completed S @ [?x]\<rparr>"
  have "sched_step S (EvComplete j) = Some ?S" using j by (simp add: Let_def)
  then have "sched_reach ?S" using sim(1) by (blast intro: reach_step)
  moreover have "mset (remove_nth j (running S)) = mset (remove_nth i (rt_jobs R)) + mset (rt_failed R)"
    using mset_remove_nth [OF j(1)] mset_remove_nth [OF assms(2)] sim(4) j(2) by simp
  ultimately show thesis
    using that [of ?S] sim by (simp add: rt_sim_def)
qed

lemma sim_start_rounds:
  assumes "rt_sim R S"
  shows "\<exists>S'. rt_sim (start_rounds n wk R) S' \<and> closed S' = closed S"
  using assms
proof (induction n arbitrary: R S)
  case (Suc n)
  show ?case
  proof (cases "length (rt_jobs R) < concurrency wk \<and> next_ready (rt_sched R) \<noteq> None")
    case True
    then obtain x s where x: "next_ready (rt_sched R) = Some (x, s)" by force
    from sim_start [OF Suc.prems x] obtain S1 where
      S1: "rt_sim (R\<lparr>rt_sched := s, rt_jobs := rt_jobs R @ [x]\<rparr>) S1" "closed S1 = closed S"
      by blast
    from sim_complete [OF S1(1), of "length (rt_jobs R)"] obtain S2 where
      "rt_sim (R\<lparr>rt_sched := complete (fst x) s, rt_completed := rt_completed R @ [x]\<rparr>) S2"
      "closed S2 = closed S"
      by (auto simp: remove_nth_append [of _ _ "[]", simplified] S1(2))
    then have S2: "rt_sim (R\<lparr>rt_sched := complete (fst x) s, rt_completed := rt_completed R @ [x],
        rt_abandoned := rt_abandoned R @ [x]\<rparr>) S2" "closed S2 = closed S"
      by (simp_all add: rt_sim_def)
    show ?thesis
      using True x Suc.IH [OF S1(1)] Suc.IH [OF S2(1)] S1(2) S2(2) by simp
  next
    case False
    then have "start_rounds (Suc n) wk R = R" by (auto simp del: not_None_eq)
    then show ?thesis using Suc.prems by auto
  qed
qed auto

lemma sim_apply_flow:
  assumes "rt_sim R S"
  shows "\<exists>S'. rt_sim (apply_flow wk cs R) S' \<and> closed S' = closed S"
  using assms
proof (induction wk cs R arbitrary: S rule: apply_flow.induct)
  case (2 wk k cs R)
  let ?S = "S\<lparr>sched := disable_flow_control (sched S)\<rparr>"
  have "sched_step S EvDisableFlow = Some ?S" by simp
  then have "sched_reach ?S" using 2(2) by (blast dest: rt_simD intro: reach_step)
  then have "rt_sim (R\<lparr>rt_sched := disable_flow_control (rt_sched R)\<rparr>) ?S"
    using 2(2) by (simp add: rt_sim_def)
  moreover have "closed ?S = closed S" by simp
  ultimately show ?case using 2 by (auto simp: rt_sim_def)
next
  case (3 wk k cs R)
  then show ?case by (simp add: rt_sim_def)
qed auto

lemma sim_flow_changes:
  assumes "rt_sim R S"
  shows "\<exists>S'. rt_sim (flow_changes wk R) S' \<and> closed S' = closed S"
proof -
  obtain cs s where cs: "take_flow_changes (rt_sched R) = (cs, s)" by fastforce
  let ?S = "S\<lparr>sched := s, requests := requests S @ cs\<rparr>"
  have "sched_step S EvTakeFlow = Some ?S" using cs assms by (simp add: rt_sim_def)
  then have "sched_reach ?S" using assms by (blast dest: rt_simD intro: reach_step)
  then have "rt_sim (R\<lparr>rt_sched := s\<rparr>) ?S" using assms by (simp add: rt_sim_def)
  from sim_apply_flow [OF this] show ?thesis by (simp add: flow_changes_def cs)
qed

lemma sim_withdraw:
  assumes "rt_sim R S"
  shows "\<exists>S'. rt_sim (R\<lparr>rt_sched := fold withdraw (map fst (rt_decoding R)) (rt_sched R),
                       rt_decoding := []\<rparr>) S' \<and> closed S' = closed S"
  using assms
proof (induction "rt_decoding R" arbitrary: R S)
  case Nil
  from Nil.prems show ?case
    by (intro exI [of _ S]) (simp add: rt_sim_def flip: Nil.hyps)
next
  case (Cons am rest)
  let ?i = "length (rt_lost R)"
  let ?S = "S\<lparr>sched := withdraw (admitted S ! ?i) (sched S), admitted := remove_nth ?i (admitted S)\<rparr>"
  note sim = rt_simD [OF Cons.prems]
  have adm: "admitted S = rt_lost R @ fst am # map fst rest"
    by (simp add: sim(3) flip: Cons.hyps(2))
  then have "sched_step S (EvWithdraw ?i) = Some ?S" by simp
  then have "sched_reach ?S" using sim(1) by (blast intro: reach_step)
  then have "rt_sim (R\<lparr>rt_sched := withdraw (fst am) (rt_sched R), rt_decoding := rest\<rparr>) ?S"
    using Cons.prems by (simp add: rt_sim_def remove_nth_append flip: Cons.hyps(2))
  from Cons.hyps(1) [OF _ this] show ?case
    by (simp flip: Cons.hyps(2))
qed

lemma sim_discard:
  assumes "rt_sim R S" "discard_unstarted order R = Some R'"
  shows "\<exists>S'. rt_sim R' S' \<and> closed S'"
proof -
  let ?s = "fold withdraw (map fst (rt_decoding R)) (rt_sched R)"
  obtain S1 where S1: "rt_sim (R\<lparr>rt_sched := ?s, rt_decoding := []\<rparr>) S1"
    using sim_withdraw [OF assms(1)] by blast
  from assms(2) obtain order' where o: "distinct order'" "set order' = dom (waiting ?s)"
    and R': "R' = R\<lparr>rt_sched := discard_pending order' ?s, rt_decoding := []\<rparr>"
    by (auto simp: discard_unstarted_def decoding_discard_def Let_def split: if_splits)
  let ?S = "S1\<lparr>sched := discard_pending order' (sched S1), closed := True\<rparr>"
  have "sched_step S1 (EvDiscard order') = Some ?S" using o S1 by (simp add: rt_sim_def)
  then have "sched_reach ?S" using S1 by (blast dest: rt_simD intro: reach_step)
  then have "rt_sim R' ?S" using S1 by (simp add: rt_sim_def R')
  then show ?thesis by auto
qed

lemma sim_distribute:
  assumes "rt_sim R S" "\<not> closed S" "rt_lost R = []" "rt_decoding R = (a, m) # rest"
  shows "\<exists>S'. rt_sim (distribute wk a d (R\<lparr>rt_decoding := rest\<rparr>)) S' \<and> closed S' = closed S"
proof -
  let ?l = "decoded_lane wk d"
  note sim = rt_simD [OF assms(1)]
  have adm: "admitted S = a # map fst rest" by (simp add: sim(3) assms)
  let ?S = "S\<lparr>sched := push a ?l d (sched S), admitted := map fst rest,
             pushed := pushed S @ [(\<lparr>tk_lane = ?l, tk_flow = adm_flow a\<rparr>, d)]\<rparr>"
  have "sched_step S (EvPush 0 ?l d) = Some ?S" using assms(2) adm by (simp add: Let_def)
  then have "sched_reach ?S" using sim(1) by (blast intro: reach_step)
  then have "rt_sim (distribute wk a d (R\<lparr>rt_decoding := rest\<rparr>)) ?S"
    using assms(1,3) by (simp add: rt_sim_def distribute_def Let_def)
  then show ?thesis by auto
qed

lemma sim_admit:
  assumes "rt_sim R S" "\<not> closed S"
  shows "\<exists>S'. rt_sim (admit_delivery wk m R) S' \<and> closed S' = closed S"
proof -
  obtain a s where a: "admit (wk_ordering_key wk m) (rt_sched R) = (a, s)" by fastforce
  let ?S = "S\<lparr>sched := s, admitted := admitted S @ [a]\<rparr>"
  note sim = rt_simD [OF assms(1)]
  have "sched_step S (EvAdmit (wk_ordering_key wk m)) = Some ?S"
    using assms(2) a sim(2) by simp
  then have "sched_reach ?S" using sim(1) by (blast intro: reach_step)
  then have "rt_sim (admit_delivery wk m R) ?S"
    using assms(1) by (simp add: rt_sim_def admit_delivery_def a decoding_start_def)
  then show ?thesis by auto
qed

section \<open>What starting, flow control and discarding leave alone\<close>

lemma start_rounds_fields [simp]:
  "rt_phase (start_rounds n wk R) = rt_phase R" "rt_failure (start_rounds n wk R) = rt_failure R"
  "rt_tokens (start_rounds n wk R) = rt_tokens R" "rt_ended (start_rounds n wk R) = rt_ended R"
  "rt_decoding (start_rounds n wk R) = rt_decoding R" "rt_acks (start_rounds n wk R) = rt_acks R"
  "rt_received (start_rounds n wk R) = rt_received R" "rt_pushed (start_rounds n wk R) = rt_pushed R"
  "rt_failed (start_rounds n wk R) = rt_failed R" "rt_lost (start_rounds n wk R) = rt_lost R"
  by (induction n arbitrary: R) (simp_all split: option.splits prod.splits)

lemma start_rounds_bounds:
  "length (rt_jobs R) \<le> concurrency wk \<Longrightarrow>
     length (rt_jobs (start_rounds n wk R)) \<le> concurrency wk"
  "outstanding (rt_sched (start_rounds n wk R)) \<le> outstanding (rt_sched R)"
proof (induction n arbitrary: R)
  case (Suc n)
  { case 1
    then show ?case using Suc(1) by (auto split: option.splits)
  next
    case 2
    have "outstanding (rt_sched (start_rounds n wk (R\<lparr>rt_sched := complete t s, rt_completed := c, rt_abandoned := b\<rparr>)))
        \<le> outstanding s" for t s c b
      using Suc(2) [of "R\<lparr>rt_sched := complete t s, rt_completed := c, rt_abandoned := b\<rparr>"] by simp
    moreover have "outstanding (rt_sched (start_rounds n wk (R\<lparr>rt_sched := s, rt_jobs := j\<rparr>)))
        \<le> outstanding s" for s j
      using Suc(2) [of "R\<lparr>rt_sched := s, rt_jobs := j\<rparr>"] by simp
    moreover have "outstanding s = outstanding (rt_sched R)" if "next_ready (rt_sched R) = Some (x, s)" for x s
      using that by (auto simp: next_ready_def split: list.splits)
    ultimately show ?case by (auto split: option.splits) metis+ }
qed simp_all

lemma complete_finite_lanes: "finite (dom (waiting s)) \<Longrightarrow> finite (dom (waiting (complete t s)))"
  by (auto simp: complete_def Let_def split: option.splits list.splits)

lemma push_finite_lanes: "finite (dom (waiting s)) \<Longrightarrow> finite (dom (waiting (push a l e s)))"
  by (auto simp: push_def Let_def split: option.splits)

lemma next_ready_waiting: "next_ready s = Some (x, s') \<Longrightarrow> waiting s' = waiting s"
  by (auto simp: next_ready_def split: list.splits)

lemma queued_sum_zero: "queued_sum (\<lambda>_. 1) s = 0 \<Longrightarrow> ready s = []"
  by (simp add: queued_sum_def sum_list_triv)

lemma start_rounds_saturates:
  assumes "finite (dom (waiting (rt_sched R)))" "queued_sum (\<lambda>_. 1) (rt_sched R) \<le> n"
  shows "concurrency wk \<le> length (rt_jobs (start_rounds n wk R))
    \<or> ready (rt_sched (start_rounds n wk R)) = []"
  using assms
proof (induction n arbitrary: R)
  case 0
  then show ?case using queued_sum_zero [of "rt_sched R"] by simp
next
  case (Suc n)
  show ?case
  proof (cases "next_ready (rt_sched R)")
    case None
    then show ?thesis by (auto simp: next_ready_def split: list.splits)
  next
    case (Some xs)
    then obtain x s where xs: "next_ready (rt_sched R) = Some (x, s)" by (cases xs) auto
    then have fin: "finite (dom (waiting s))"
      using Suc.prems(1) by (simp add: next_ready_waiting)
    have less: "queued_sum (\<lambda>_. 1) s \<le> n"
      using queued_sum_next [OF xs, of "\<lambda>_. 1"] Suc.prems(2) by simp
    show ?thesis
      using xs Suc.IH [of "R\<lparr>rt_sched := s, rt_jobs := rt_jobs R @ [x]\<rparr>"] fin less
        Suc.IH [of "R\<lparr>rt_sched := complete (fst x) s, rt_completed := rt_completed R @ [x],
                     rt_abandoned := rt_abandoned R @ [x]\<rparr>"]
      by (simp add: queued_sum_complete complete_finite_lanes)
  qed
qed

lemma sim_outstanding:
  assumes "rt_sim R S"
  shows "outstanding (rt_sched R) =
      length (rt_lost R) + length (rt_decoding R) + length (rt_jobs R) + length (rt_failed R)
      + queued_sum (\<lambda>_. 1) (rt_sched R)"
proof -
  note sim = rt_simD [OF assms]
  have "length (running S) = length (rt_jobs R) + length (rt_failed R)"
    using arg_cong [OF sim(4), of size] by simp
  then show ?thesis
    using sched_reachD(2) [OF sim(1)]
    by (simp add: counted_def live_def weight_queued sim(2,3) sum_list_triv comp_def)
qed

lemma sim_finite: "rt_sim R S \<Longrightarrow> finite (dom (waiting (rt_sched R)))"
  using sched_reachD(1) [of S] by (simp add: rt_sim_def finite_lanes_def)

text \<open>The loop of \<^verbatim>\<open>start_ready\<close> runs to its end: no slot is free or nothing is ready.\<close>

lemma start_ready_saturates:
  "rt_sim R S \<Longrightarrow> concurrency wk \<le> length (rt_jobs (start_ready wk R))
     \<or> ready (rt_sched (start_ready wk R)) = []"
  unfolding start_ready_def
  by (rule start_rounds_saturates) (simp_all add: sim_finite sim_outstanding)

lemma start_rounds_abandoned:
  "\<forall>x \<in> set (rt_abandoned R). handed_off wk R x \<Longrightarrow>
   mset (rt_abandoned R) \<subseteq># mset (rt_completed R) \<Longrightarrow>
   (\<forall>x \<in> set (rt_abandoned (start_rounds n wk R)). handed_off wk R x) \<and>
   mset (rt_abandoned (start_rounds n wk R)) \<subseteq># mset (rt_completed (start_rounds n wk R))"
proof (induction n arbitrary: R)
  case (Suc n)
  have handed: "handed_off wk (R\<lparr>rt_sched := s, rt_completed := c, rt_abandoned := b\<rparr>) = handed_off wk R"
    "handed_off wk (R\<lparr>rt_sched := s, rt_jobs := j\<rparr>) = handed_off wk R" for s c b j
    by (simp_all add: handed_off_def fun_eq_iff)
  show ?case
    using Suc.prems
      Suc.IH [of "R\<lparr>rt_sched := complete t s, rt_completed := rt_completed R @ [x],
                   rt_abandoned := rt_abandoned R @ [x]\<rparr>" for t s x]
      Suc.IH [of "R\<lparr>rt_sched := s, rt_jobs := j\<rparr>" for s j]
    by (auto simp: handed split: option.splits)
qed simp

lemma apply_flow_fields [simp]:
  "rt_phase (apply_flow wk cs R) = rt_phase R" "rt_failure (apply_flow wk cs R) = rt_failure R"
  "rt_tokens (apply_flow wk cs R) = rt_tokens R" "rt_ended (apply_flow wk cs R) = rt_ended R"
  "rt_decoding (apply_flow wk cs R) = rt_decoding R" "rt_acks (apply_flow wk cs R) = rt_acks R"
  "rt_received (apply_flow wk cs R) = rt_received R" "rt_pushed (apply_flow wk cs R) = rt_pushed R"
  "rt_failed (apply_flow wk cs R) = rt_failed R" "rt_lost (apply_flow wk cs R) = rt_lost R"
  "rt_jobs (apply_flow wk cs R) = rt_jobs R" "rt_completed (apply_flow wk cs R) = rt_completed R"
  "rt_abandoned (apply_flow wk cs R) = rt_abandoned R"
  "ready (rt_sched (apply_flow wk cs R)) = ready (rt_sched R)"
  "waiting (rt_sched (apply_flow wk cs R)) = waiting (rt_sched R)"
  "outstanding (rt_sched (apply_flow wk cs R)) = outstanding (rt_sched R)"
  by (induction wk cs R rule: apply_flow.induct) simp_all

lemma flow_changes_fields [simp]:
  "rt_phase (flow_changes wk R) = rt_phase R" "rt_failure (flow_changes wk R) = rt_failure R"
  "rt_tokens (flow_changes wk R) = rt_tokens R" "rt_ended (flow_changes wk R) = rt_ended R"
  "rt_decoding (flow_changes wk R) = rt_decoding R" "rt_acks (flow_changes wk R) = rt_acks R"
  "rt_received (flow_changes wk R) = rt_received R" "rt_pushed (flow_changes wk R) = rt_pushed R"
  "rt_failed (flow_changes wk R) = rt_failed R" "rt_lost (flow_changes wk R) = rt_lost R"
  "rt_jobs (flow_changes wk R) = rt_jobs R" "rt_completed (flow_changes wk R) = rt_completed R"
  "rt_abandoned (flow_changes wk R) = rt_abandoned R"
  "ready (rt_sched (flow_changes wk R)) = ready (rt_sched R)"
  "waiting (rt_sched (flow_changes wk R)) = waiting (rt_sched R)"
  "outstanding (rt_sched (flow_changes wk R)) = outstanding (rt_sched R)"
  by (simp_all add: flow_changes_def take_flow_changes_def split: prod.splits option.splits)

lemma fold_withdraw_outstanding [simp]:
  "outstanding (fold withdraw as s) \<le> outstanding s"
proof (induction as arbitrary: s)
  case (Cons a as)
  then show ?case using order_trans [OF Cons.IH [of "withdraw a s"]] by simp
qed simp

lemma discardD:
  assumes "discard_unstarted order R = Some R'"
  shows "\<exists>s. R' = R\<lparr>rt_sched := s, rt_decoding := []\<rparr> \<and> ready s = [] \<and> waiting s = Map.empty
     \<and> outstanding s \<le> outstanding (rt_sched R)"
  using assms
  by (auto simp: discard_unstarted_def decoding_discard_def Let_def split: if_splits
      intro!: exI order_trans [OF diff_le_self])

section \<open>Invariants\<close>

text \<open>Neither shutdown nor a failure has cut receiving or draining short.\<close>

definition clean :: "('m, 'v) worker \<Rightarrow> ('m, 'v) runtime \<Rightarrow> bool" where
  "clean wk R \<longleftrightarrow>
     (rt_phase R = Receiving \<or> rt_ended R) \<and> \<not> stopping wk R \<and> rt_failure R = None"

text \<open>The deliveries in the order in which they were handed to the scheduler or still decode.\<close>

definition pushed_up :: "('m, 'v) runtime \<Rightarrow> 'm list" where
  "pushed_up R = map (\<lambda>x. de_delivery (snd x)) (rt_pushed R)"

definition lined_up :: "('m, 'v) runtime \<Rightarrow> 'm list" where
  "lined_up R = pushed_up R @ map snd (rt_decoding R)"

definition sim_inv :: "('m, 'v) worker \<Rightarrow> ('m, 'v) runtime \<Rightarrow> bool" where
  "sim_inv wk R \<longleftrightarrow>
     (\<exists>S. rt_sim R S \<and> (closed S \<longrightarrow> rt_decoding R = [] \<and> rt_phase R \<noteq> Receiving \<and> \<not> clean wk R))"

definition bounds_inv :: "('m, 'v) worker \<Rightarrow> ('m, 'v) runtime \<Rightarrow> bool" where
  "bounds_inv wk R \<longleftrightarrow>
     length (rt_jobs R) \<le> concurrency wk \<and> length (rt_decoding R) \<le> concurrency wk
     \<and> outstanding (rt_sched R) \<le> max_in_flight wk"

definition history_inv :: "('m, 'v) worker \<Rightarrow> ('m, 'v) runtime \<Rightarrow> bool" where
  "history_inv wk R \<longleftrightarrow>
     prefix (pushed_up R) (rt_received R)
     \<and> (rt_failure R = None \<longrightarrow> prefix (lined_up R) (rt_received R))
     \<and> (clean wk R \<longrightarrow> lined_up R = rt_received R)
     \<and> (\<forall>x \<in> set (rt_pushed R). tk_lane (fst x) = decoded_lane wk (snd x))
     \<and> (\<forall>x \<in> set (rt_abandoned R). handed_off wk R x)
     \<and> mset (rt_abandoned R) \<subseteq># mset (rt_completed R)"

definition failure_inv :: "('m, 'v) worker \<Rightarrow> ('m, 'v) runtime \<Rightarrow> bool" where
  "failure_inv wk R \<longleftrightarrow>
     (rt_failure R \<noteq> None \<longrightarrow> token_is_cancelled (rt_tokens R) (wk_shutdown wk))
     \<and> (rt_failed R \<noteq> [] \<or> rt_lost R \<noteq> [] \<longrightarrow> rt_failure R \<noteq> None)"

definition rt_core :: "('m, 'v) worker \<Rightarrow> ('m, 'v) runtime \<Rightarrow> bool" where
  "rt_core wk R \<longleftrightarrow> sim_inv wk R \<and> bounds_inv wk R \<and> history_inv wk R \<and> failure_inv wk R"

definition empty_queues :: "('m, 'v) runtime \<Rightarrow> bool" where
  "empty_queues R \<longleftrightarrow>
     rt_decoding R = [] \<and> ready (rt_sched R) = [] \<and> waiting (rt_sched R) = Map.empty"

text \<open>What holds whenever a loop waits, and after the loops.\<close>

fun wait_inv :: "('m, 'v) worker \<Rightarrow> ('m, 'v) runtime \<Rightarrow> phase \<Rightarrow> bool" where
  "wait_inv wk R Receiving \<longleftrightarrow>
     rt_failure R = None \<and> (concurrency wk \<le> length (rt_jobs R) \<or> ready (rt_sched R) = [])"
| "wait_inv wk R Draining \<longleftrightarrow>
     (concurrency wk \<le> length (rt_jobs R) \<or> ready (rt_sched R) = [])
     \<and> (rt_failure R \<noteq> None \<longrightarrow> empty_queues R)"
| "wait_inv wk R Closing \<longleftrightarrow>
     rt_jobs R = [] \<and> rt_acks R = [] \<and> (rt_failure R = None \<longrightarrow> empty_queues R)"
| "wait_inv wk R (Finished r) \<longleftrightarrow>
     rt_jobs R = [] \<and> rt_acks R = [] \<and> (rt_failure R = None \<longrightarrow> empty_queues R)
     \<and> r = (case rt_failure R of None \<Rightarrow> Inr () | Some f \<Rightarrow> Inl (SubscriptionError (wk_name wk) f))"

definition rt_inv :: "('m, 'v) worker \<Rightarrow> ('m, 'v) runtime \<Rightarrow> bool" where
  "rt_inv wk R \<longleftrightarrow> concurrency wk > 0 \<and> rt_core wk R \<and> wait_inv wk R (rt_phase R)"

lemma handed_off_mono:
  "tok_cancelled (rt_tokens R) \<subseteq> tok_cancelled (rt_tokens R') \<Longrightarrow>
   handed_off wk R x \<Longrightarrow> handed_off wk R' x"
  by (auto simp: handed_off_def token_set_def token_is_cancelled_def split: option.splits)

lemma fold_cancel_mono: "tok_cancelled ts \<subseteq> tok_cancelled (fold token_cancel cs ts)"
proof (induction cs arbitrary: ts)
  case (Cons c cs)
  then show ?case using Cons.IH [of "token_cancel c ts"] by (auto simp: token_cancel_def)
qed simp

text \<open>
  Changes outside the scheduler: tokens get cancelled, a failure is recorded, the phase moves on.
\<close>

lemma core_frame:
  assumes core: "rt_core wk R"
    and same: "rt_sched R' = rt_sched R" "rt_decoding R' = rt_decoding R" "rt_jobs R' = rt_jobs R"
      "rt_pushed R' = rt_pushed R" "rt_completed R' = rt_completed R" "rt_failed R' = rt_failed R"
      "rt_lost R' = rt_lost R" "rt_received R' = rt_received R" "rt_abandoned R' = rt_abandoned R"
    and tok: "tok_cancelled (rt_tokens R) \<subseteq> tok_cancelled (rt_tokens R')"
    and clean: "clean wk R' \<Longrightarrow> clean wk R" "rt_phase R' = Receiving \<Longrightarrow> rt_phase R = Receiving"
    and fail: "rt_failure R \<noteq> None \<Longrightarrow> rt_failure R' \<noteq> None"
      "rt_failure R' \<noteq> None \<Longrightarrow> rt_failure R \<noteq> None \<or> token_is_cancelled (rt_tokens R') (wk_shutdown wk)"
  shows "rt_core wk R'"
proof -
  have "rt_sim R' S \<longleftrightarrow> rt_sim R S" for S by (simp add: rt_sim_def same)
  then have "sim_inv wk R'" using core clean by (auto simp: rt_core_def sim_inv_def same)
  moreover have "history_inv wk R'"
    using core clean(1) handed_off_mono [OF tok] fail(1)
    by (auto simp: rt_core_def history_inv_def lined_up_def pushed_up_def same)
  moreover have "failure_inv wk R'"
    using core fail tok by (auto simp: rt_core_def failure_inv_def same token_is_cancelled_def)
  ultimately show ?thesis
    using core by (simp add: rt_core_def bounds_inv_def same)
qed

lemma core_start:
  assumes core: "rt_core wk R"
  shows "rt_core wk (start_ready wk R)"
    "concurrency wk \<le> length (rt_jobs (start_ready wk R)) \<or> ready (rt_sched (start_ready wk R)) = []"
proof -
  let ?R = "start_rounds (outstanding (rt_sched R)) wk R"
  have clean: "clean wk ?R = clean wk R" by (simp add: clean_def stopping_def)
  obtain S where S: "rt_sim R S" "closed S \<longrightarrow> rt_decoding R = [] \<and> rt_phase R \<noteq> Receiving \<and> \<not> clean wk R"
    using core by (auto simp: rt_core_def sim_inv_def)
  have "sim_inv wk ?R"
    using sim_start_rounds [OF S(1)] S(2) unfolding sim_inv_def clean by fastforce
  moreover have "bounds_inv wk ?R"
    using core start_rounds_bounds(1) [of R wk "outstanding (rt_sched R)"]
      start_rounds_bounds(2) [of "outstanding (rt_sched R)" wk R]
    by (simp add: rt_core_def bounds_inv_def)
  moreover have "handed_off wk ?R = handed_off wk R" by (simp add: handed_off_def fun_eq_iff)
  then have "history_inv wk ?R"
    using core start_rounds_abandoned [of R wk]
    by (auto simp: rt_core_def history_inv_def lined_up_def pushed_up_def clean)
  moreover have "failure_inv wk ?R" using core by (simp add: rt_core_def failure_inv_def)
  ultimately show "rt_core wk (start_ready wk R)" by (simp add: rt_core_def start_ready_def)
  show "concurrency wk \<le> length (rt_jobs (start_ready wk R)) \<or> ready (rt_sched (start_ready wk R)) = []"
    by (rule start_ready_saturates [OF S(1)])
qed

lemma core_flow:
  assumes core: "rt_core wk R"
  shows "rt_core wk (flow_changes wk R)"
proof -
  let ?R = "flow_changes wk R"
  have clean: "clean wk ?R = clean wk R" by (simp add: clean_def stopping_def)
  obtain S where S: "rt_sim R S" "closed S \<longrightarrow> rt_decoding R = [] \<and> rt_phase R \<noteq> Receiving \<and> \<not> clean wk R"
    using core by (auto simp: rt_core_def sim_inv_def)
  have "sim_inv wk ?R"
    using sim_flow_changes [OF S(1)] S(2) unfolding sim_inv_def clean by fastforce
  then show ?thesis
    using core by (simp add: rt_core_def bounds_inv_def history_inv_def lined_up_def pushed_up_def failure_inv_def
        clean handed_off_def)
qed

lemma core_discard:
  assumes core: "rt_core wk R" and dirty: "\<not> clean wk R" "rt_phase R \<noteq> Receiving"
    and R': "discard_unstarted order R = Some R'"
  shows "rt_core wk R'" "empty_queues R'"
proof -
  obtain s where s: "R' = R\<lparr>rt_sched := s, rt_decoding := []\<rparr>" "ready s = []"
    "waiting s = Map.empty" "outstanding s \<le> outstanding (rt_sched R)"
    using discardD [OF R'] by blast
  then have clean: "clean wk R' = clean wk R" by (simp add: clean_def stopping_def)
  show "empty_queues R'" by (simp add: empty_queues_def s)
  obtain S where "rt_sim R S" using core by (auto simp: rt_core_def sim_inv_def)
  from sim_discard [OF this R'] have "sim_inv wk R'"
    using dirty s(1) unfolding sim_inv_def clean by auto
  moreover have "bounds_inv wk R'" using core s by (simp add: rt_core_def bounds_inv_def)
  moreover have "history_inv wk R'"
    using core dirty(1) by (auto simp: rt_core_def history_inv_def lined_up_def pushed_up_def s(1) clean [unfolded s(1)]
        handed_off_def intro: append_prefixD)
  ultimately show "rt_core wk R'"
    using core s by (simp add: rt_core_def failure_inv_def)
qed

text \<open>The heads of the loops establish what holds at a wait.\<close>

lemma start_rounds_idle: "ready (rt_sched R) = [] \<Longrightarrow> start_rounds n wk R = R"
  by (cases n) (simp_all add: next_ready_def)

lemma receive_head_inv:
  assumes "rt_core wk R" "0 < concurrency wk" "rt_phase R = Receiving" "rt_failure R = None"
  shows "rt_inv wk (receive_head wk R)"
  using assms core_flow [OF core_start(1) [OF assms(1)]] core_start(2) [OF assms(1)]
  by (simp add: rt_inv_def receive_head_def start_ready_def)

lemma drain_head_inv:
  assumes core: "rt_core wk R" and conc: "0 < concurrency wk" and ph: "rt_phase R = Draining"
    and R': "drain_head order wk R = Some R'"
  shows "rt_inv wk R'"
proof (cases "stopping wk R \<or> rt_failure R \<noteq> None")
  case True
  then obtain R1 where R1: "discard_unstarted order R = Some R1" and eq: "R' = start_ready wk R1"
    using R' by (auto simp: drain_head_def)
  have "\<not> clean wk R" using True by (auto simp: clean_def)
  from core_discard [OF core this _ R1] ph have "rt_core wk R1" "empty_queues R1" by auto
  moreover have "R' = R1"
    using \<open>empty_queues R1\<close> by (simp add: eq start_ready_def start_rounds_idle empty_queues_def)
  moreover have "rt_phase R1 = Draining" using discardD [OF R1] ph by auto
  ultimately show ?thesis using conc by (simp add: rt_inv_def empty_queues_def)
next
  case False
  then have R'': "R' = start_ready wk R" using R' by (simp add: drain_head_def)
  have "rt_phase R' = Draining" "rt_failure R' = None"
    using ph False by (simp_all add: R'' start_ready_def)
  then show ?thesis
    using core_start [OF core] conc by (simp add: rt_inv_def flip: R'')
qed

lemma break_loop_inv:
  assumes core: "rt_core wk R" and conc: "0 < concurrency wk"
    and R': "break_loop order wk R = Some R'"
  shows "rt_inv wk R'"
proof -
  let ?R = "R\<lparr>rt_phase := Draining\<rparr>"
  have clean: "clean wk ?R \<Longrightarrow> rt_ended R \<and> clean wk R" by (simp add: clean_def stopping_def)
  have core1: "rt_core wk ?R"
    by (rule core_frame [OF core]) (use clean core in \<open>auto simp: rt_core_def failure_inv_def\<close>)
  show ?thesis
  proof (cases "rt_ended R")
    case True
    then show ?thesis
      using R' drain_head_inv [OF core1 conc] by (simp add: break_loop_def)
  next
    case False
    then obtain R1 where R1: "discard_unstarted order R = Some R1"
      and head: "drain_head order wk (R1\<lparr>rt_phase := Draining\<rparr>) = Some R'"
      using R' by (auto simp: break_loop_def split: option.splits)
    have "discard_unstarted order ?R = Some (R1\<lparr>rt_phase := Draining\<rparr>)"
      using R1 by (auto simp: discard_unstarted_def Let_def decoding_discard_def split: if_splits)
    moreover have "\<not> clean wk ?R" using clean False by blast
    ultimately have "rt_core wk (R1\<lparr>rt_phase := Draining\<rparr>)"
      using core_discard(1) [OF core1] by simp
    from drain_head_inv [OF this conc _ head] show ?thesis by simp
  qed
qed

text \<open>A state about to fail is judged with the failure recorded.\<close>

abbreviation failing :: "('m, 'v) worker \<Rightarrow> box_error \<Rightarrow> ('m, 'v) runtime \<Rightarrow> ('m, 'v) runtime" where
  "failing wk e R \<equiv> cancel_shutdown wk (insert_failure e R)"

lemma fail_with_failing: "rt_failure R = None \<Longrightarrow> fail_with wk e R = failing wk e R"
  by (simp add: fail_with_def insert_failure_def)

lemma failing_fields [simp]:
  "rt_sched (failing wk e R) = rt_sched R" "rt_decoding (failing wk e R) = rt_decoding R"
  "rt_jobs (failing wk e R) = rt_jobs R" "rt_pushed (failing wk e R) = rt_pushed R"
  "rt_completed (failing wk e R) = rt_completed R" "rt_failed (failing wk e R) = rt_failed R"
  "rt_lost (failing wk e R) = rt_lost R" "rt_received (failing wk e R) = rt_received R"
  "rt_abandoned (failing wk e R) = rt_abandoned R" "rt_acks (failing wk e R) = rt_acks R"
  "rt_phase (failing wk e R) = rt_phase R" "rt_ended (failing wk e R) = rt_ended R"
  "rt_failure (failing wk e R) = Some (case rt_failure R of None \<Rightarrow> e | Some f \<Rightarrow> f)"
  "rt_tokens (failing wk e R) = token_cancel (wk_shutdown wk) (rt_tokens R)"
  by (simp_all add: cancel_shutdown_def insert_failure_def split: option.splits)

lemma failing_not_clean [simp]: "\<not> clean wk (failing wk e R)"
  by (simp add: clean_def)

lemma core_failing: "rt_core wk R \<Longrightarrow> rt_core wk (failing wk e R)"
  by (rule core_frame) (auto simp: token_cancel_def token_is_cancelled_def)

definition waits :: "('m, 'v) runtime \<Rightarrow> bool" where
  "waits R \<longleftrightarrow> (rt_phase R = Receiving \<and> rt_failure R = None) \<or> rt_phase R = Draining"

lemma continue_inv:
  assumes "0 < concurrency wk" "waits R" "continue_loop order wk (R, error) = Some R'"
    and "\<And>e. error = Some e \<Longrightarrow> rt_core wk (failing wk e R)" "error = None \<Longrightarrow> rt_core wk R"
  shows "rt_inv wk R'"
proof (cases error)
  case None
  then show ?thesis
    using assms receive_head_inv [of wk R] drain_head_inv [of wk R order R']
    by (auto simp: waits_def continue_loop_def)
next
  case (Some e)
  then show ?thesis
    using assms break_loop_inv [of wk "failing wk e R" order R']
      drain_head_inv [of wk "failing wk e R" order R']
    by (auto simp: waits_def continue_loop_def fail_with_failing)
qed

section \<open>Every step preserves the invariant\<close>

lemma rt_invD:
  assumes "rt_inv wk R"
  shows "0 < concurrency wk" "rt_core wk R" "wait_inv wk R (rt_phase R)"
  using assms by (simp_all add: rt_inv_def)

lemma arm_waits: "rt_inv wk R \<Longrightarrow> arm_enabled wk R \<Longrightarrow> waits R"
  using rt_invD(3) [of wk R] by (auto simp: arm_enabled_def waits_def)

lemma core_obtain:
  assumes "rt_core wk R"
  obtains S where "rt_sim R S"
    "closed S \<longrightarrow> rt_decoding R = [] \<and> rt_phase R \<noteq> Receiving \<and> \<not> clean wk R"
    "bounds_inv wk R" "history_inv wk R" "failure_inv wk R"
  using assms by (auto simp: rt_core_def sim_inv_def)

lemma core_job_done:
  assumes core: "rt_core wk R" and i: "i < length (rt_jobs R)"
  shows "rt_core wk (R\<lparr>rt_jobs := remove_nth i (rt_jobs R),
      rt_sched := complete (fst (rt_jobs R ! i)) (rt_sched R), rt_completed := rt_completed R @ [rt_jobs R ! i]\<rparr>)"
    (is "rt_core wk ?R")
proof -
  obtain S where S: "rt_sim R S" "closed S \<longrightarrow> rt_decoding R = [] \<and> rt_phase R \<noteq> Receiving \<and> \<not> clean wk R"
    and inv: "bounds_inv wk R" "history_inv wk R" "failure_inv wk R"
    by (rule core_obtain [OF core])
  have clean: "clean wk ?R = clean wk R" by (simp add: clean_def stopping_def)
  have "sim_inv wk ?R"
    by (rule sim_complete [OF S(1) i]) (use S(2) in \<open>auto simp: sim_inv_def clean\<close>)
  moreover have "length (remove_nth i (rt_jobs R)) \<le> length (rt_jobs R)"
    by (simp add: remove_nth_def)
  then have "bounds_inv wk ?R" using inv(1) by (auto simp: bounds_inv_def)
  moreover have "history_inv wk ?R"
    using inv(2) by (auto simp: history_inv_def lined_up_def pushed_up_def handed_off_def clean
        intro: subset_mset.order_trans)
  ultimately show ?thesis using inv(3) by (simp add: rt_core_def failure_inv_def)
qed

lemma core_job_failed:
  assumes core: "rt_core wk R" and i: "i < length (rt_jobs R)"
  shows "rt_core wk (failing wk e (R\<lparr>rt_jobs := remove_nth i (rt_jobs R),
      rt_failed := rt_failed R @ [rt_jobs R ! i]\<rparr>))"
    (is "rt_core wk (failing wk e ?R)")
proof -
  obtain S where S: "rt_sim R S" "closed S \<longrightarrow> rt_decoding R = [] \<and> rt_phase R \<noteq> Receiving \<and> \<not> clean wk R"
    and inv: "bounds_inv wk R" "history_inv wk R" "failure_inv wk R"
    by (rule core_obtain [OF core])
  have "rt_sim (failing wk e ?R) S"
    using S(1) mset_remove_nth [OF i] by (simp add: rt_sim_def)
  then have "sim_inv wk (failing wk e ?R)" using S(2) by (auto simp: sim_inv_def)
  moreover have "length (remove_nth i (rt_jobs R)) \<le> length (rt_jobs R)"
    by (simp add: remove_nth_def)
  then have "bounds_inv wk (failing wk e ?R)" using inv(1) by (simp add: bounds_inv_def)
  moreover have "history_inv wk (failing wk e ?R)"
    using inv(2) handed_off_mono [of R "failing wk e ?R" wk]
    by (auto simp: history_inv_def lined_up_def pushed_up_def token_cancel_def)
  ultimately show ?thesis by (simp add: rt_core_def failure_inv_def)
qed

lemma core_lost:
  assumes core: "rt_core wk R" and d: "rt_decoding R = (a, m) # rest" and lost: "rt_lost R = []"
  shows "rt_core wk (failing wk e (R\<lparr>rt_decoding := rest, rt_lost := [a]\<rparr>))"
    (is "rt_core wk (failing wk e ?R)")
proof -
  obtain S where S: "rt_sim R S" "closed S \<longrightarrow> rt_decoding R = [] \<and> rt_phase R \<noteq> Receiving \<and> \<not> clean wk R"
    and inv: "bounds_inv wk R" "history_inv wk R" "failure_inv wk R"
    by (rule core_obtain [OF core])
  have "rt_sim (failing wk e ?R) S" using S(1) lost by (simp add: rt_sim_def d)
  then have "sim_inv wk (failing wk e ?R)" using S(2) d by (auto simp: sim_inv_def)
  moreover have "bounds_inv wk (failing wk e ?R)" using inv(1) by (simp add: bounds_inv_def d)
  moreover have "history_inv wk (failing wk e ?R)"
    using inv(2) handed_off_mono [of R "failing wk e ?R" wk]
    by (auto simp: history_inv_def pushed_up_def token_cancel_def)
  ultimately show ?thesis by (simp add: rt_core_def failure_inv_def)
qed

lemma core_distribute:
  assumes core: "rt_core wk R" and d: "rt_decoding R = (a, m) # rest" and ok: "rt_failure R = None"
    and dd: "de_delivery dd = m"
  shows "rt_core wk (distribute wk a dd (R\<lparr>rt_decoding := rest\<rparr>))" (is "rt_core wk ?R")
proof -
  obtain S where S: "rt_sim R S" "closed S \<longrightarrow> rt_decoding R = [] \<and> rt_phase R \<noteq> Receiving \<and> \<not> clean wk R"
    and inv: "bounds_inv wk R" "history_inv wk R" "failure_inv wk R"
    by (rule core_obtain [OF core])
  have lost: "rt_lost R = []" using inv(3) ok by (auto simp: failure_inv_def)
  have clean: "clean wk ?R = clean wk R" by (simp add: clean_def stopping_def distribute_def Let_def)
  have opn: "\<not> closed S" using S(2) d by simp
  then have "sim_inv wk ?R"
    using sim_distribute [OF S(1) opn lost d, of wk dd] by (auto simp: sim_inv_def)
  moreover have "bounds_inv wk ?R"
    using inv(1) by (simp add: bounds_inv_def d distribute_def Let_def)
  moreover have "history_inv wk ?R"
    using inv(2) ok dd unfolding history_inv_def clean
    by (auto simp: distribute_def Let_def lined_up_def pushed_up_def d handed_off_def
        prefix_def)
  ultimately show ?thesis using inv(3) by (simp add: rt_core_def failure_inv_def distribute_def Let_def)
qed

lemma core_admit:
  assumes core: "rt_core wk R" and ok: "clean wk R" "rt_phase R = Receiving" "receive_enabled wk R"
  shows "rt_core wk (admit_delivery wk m R)" (is "rt_core wk ?R")
proof -
  obtain S where S: "rt_sim R S" "closed S \<longrightarrow> rt_decoding R = [] \<and> rt_phase R \<noteq> Receiving \<and> \<not> clean wk R"
    and inv: "bounds_inv wk R" "history_inv wk R" "failure_inv wk R"
    by (rule core_obtain [OF core])
  have opn: "\<not> closed S" using S(2) ok by simp
  obtain a s where a: "admit (wk_ordering_key wk m) (rt_sched R) = (a, s)" by fastforce
  then have out: "outstanding s = Suc (outstanding (rt_sched R))"
    using admit_fields(3) [of "wk_ordering_key wk m" "rt_sched R"] by simp
  have clean: "clean wk ?R = clean wk R" by (simp add: clean_def stopping_def admit_delivery_def a)
  have "sim_inv wk ?R" using sim_admit [OF S(1) opn, of wk m] opn by (auto simp: sim_inv_def)
  moreover have "bounds_inv wk ?R"
    using inv(1) ok(3) out
    by (simp add: bounds_inv_def receive_enabled_def admit_delivery_def a decoding_start_def)
  moreover have "history_inv wk ?R"
    using inv(2) ok(1) unfolding history_inv_def clean
    by (auto simp: admit_delivery_def a decoding_start_def lined_up_def pushed_up_def handed_off_def
        prefix_def)
  ultimately show ?thesis
    using inv(3) by (simp add: rt_core_def failure_inv_def admit_delivery_def a)
qed

text \<open>Cancelling tokens, and bookkeeping no invariant reads.\<close>

lemma core_tokens: "rt_core wk R \<Longrightarrow> rt_core wk (R\<lparr>rt_tokens := fold token_cancel ts (rt_tokens R)\<rparr>)"
  using fold_cancel_mono [of "rt_tokens R" ts]
  by (elim core_frame) (auto simp: clean_def stopping_def token_is_cancelled_def)

lemma core_skip:
  assumes "rt_core wk R"
  shows "rt_core wk (R\<lparr>rt_failures := n, rt_wait := d\<rparr>)" "rt_core wk (R\<lparr>rt_verified := b\<rparr>)"
    "rt_core wk (R\<lparr>rt_acks := acks\<rparr>)" "rt_core wk (R\<lparr>rt_failures := n\<rparr>)"
    "rt_core wk (R\<lparr>rt_wait := d\<rparr>)"
    "rt_phase R = Receiving \<Longrightarrow> rt_core wk (R\<lparr>rt_ended := True\<rparr>)"
  using assms by (auto elim!: core_frame simp: clean_def stopping_def)

lemma rt_step_receive:
  assumes inv: "rt_inv wk R" and step: "rt_step wk R (RtReceive r, order) = Some R'"
  shows "rt_inv wk R'"
proof -
  note core = rt_invD(2) [OF inv] and conc = rt_invD(1) [OF inv]
  have ph: "rt_phase R = Receiving" and run: "\<not> stopping wk R" and en: "receive_enabled wk R"
    and arm: "receive_arm order wk r R = Some R'"
    using step by (auto split: if_splits)
  have ok: "rt_failure R = None" using rt_invD(3) [OF inv] ph by simp
  show ?thesis
  proof (cases r)
    case RecvEnd
    then show ?thesis using arm break_loop_inv [OF core_skip(6) [OF core ph] conc] by simp
  next
    case (RecvMessage m verdict)
    define R1 where "R1 = R\<lparr>rt_failures := 0, rt_wait := 0\<rparr>"
    have core1: "rt_core wk R1" unfolding R1_def by (rule core_skip(1) [OF core])
    have en1: "clean wk (R1\<lparr>rt_verified := b\<rparr>)" "receive_enabled wk (R1\<lparr>rt_verified := b\<rparr>)"
      "clean wk R1" "receive_enabled wk R1" "rt_phase R1 = Receiving" "rt_failure R1 = None" for b
      using en run ok ph by (auto simp: R1_def clean_def stopping_def receive_enabled_def)
    have "rt_core wk (admit_delivery wk m R1)" "rt_core wk (admit_delivery wk m (R1\<lparr>rt_verified := True\<rparr>))"
      using core_admit [OF core1] core_admit [OF core_skip(2) [OF core1]] en1 by auto
    then have "rt_inv wk (receive_head wk (admit_delivery wk m R1))"
      "rt_inv wk (receive_head wk (admit_delivery wk m (R1\<lparr>rt_verified := True\<rparr>)))"
      using conc en1(5,6) by (auto intro!: receive_head_inv simp: admit_delivery_def split: prod.splits)
    moreover have "rt_core wk (cancel_shutdown wk R1)"
      using core_tokens [OF core1, of "[wk_shutdown wk]"] by (simp add: cancel_shutdown_def)
    moreover have "rt_core wk (fail_with wk e R1)" for e
      using core_failing [OF core1] en1(6) by (simp add: fail_with_failing)
    ultimately show ?thesis
      using arm RecvMessage break_loop_inv [OF _ conc]
      by (auto simp: Let_def simp flip: R1_def split: if_splits option.splits sum.splits)
  next
    case (RecvRetry e rnd)
    have "rt_core wk (fail_with wk e (R\<lparr>rt_failures := n\<rparr>))" for e n
      using core_failing [OF core_skip(4) [OF core]] ok by (simp add: fail_with_failing)
    moreover have "rt_core wk (R\<lparr>rt_failures := n, rt_wait := d\<rparr>)" for n d
      by (rule core_skip(1) [OF core])
    ultimately show ?thesis
      using arm RecvRetry break_loop_inv [OF _ conc, of _ order R'] receive_head_inv [OF _ conc] ph ok
      by (fastforce simp: Let_def split: if_splits)
  next
    case (RecvFatal e)
    then show ?thesis
      using arm break_loop_inv [OF core_failing [OF core] conc] ok by (simp add: fail_with_failing)
  qed
qed

lemma job_arm_inv:
  assumes inv: "rt_inv wk R" and en: "arm_enabled wk R" and i: "i < length (rt_jobs R)"
    and step: "continue_loop order wk (job_arm wk (rt_jobs R ! i) r
      (R\<lparr>rt_tokens := fold token_cancel ts (rt_tokens R), rt_jobs := remove_nth i (rt_jobs R)\<rparr>)) = Some R'"
  shows "rt_inv wk R'"
proof -
  let ?R = "R\<lparr>rt_tokens := fold token_cancel ts (rt_tokens R)\<rparr>"
  have core: "rt_core wk ?R" by (rule core_tokens [OF rt_invD(2) [OF inv]])
  have i': "i < length (rt_jobs ?R)" using i by simp
  show ?thesis
  proof (cases r)
    case (Inl e)
    have "rt_core wk (failing wk e (R\<lparr>rt_tokens := fold token_cancel ts (rt_tokens R),
        rt_jobs := remove_nth i (rt_jobs R), rt_failed := rt_failed R @ [rt_jobs R ! i]\<rparr>))"
      using core_job_failed [OF core i', of e] by simp
    then show ?thesis
      using continue_inv [OF rt_invD(1) [OF inv] _ step [unfolded job_arm_def Inl, simplified]]
        arm_waits [OF inv en]
      by (simp add: waits_def)
  next
    case (Inr pending)
    let ?acks = "if pending = Some True then rt_acks R @ [wk_revocation wk (de_delivery (snd (rt_jobs R ! i)))]
      else rt_acks R"
    have "rt_core wk (R\<lparr>rt_tokens := fold token_cancel ts (rt_tokens R),
        rt_jobs := remove_nth i (rt_jobs R),
        rt_sched := complete (fst (rt_jobs R ! i)) (rt_sched R),
        rt_completed := rt_completed R @ [rt_jobs R ! i], rt_acks := ?acks\<rparr>)"
      using core_skip(3) [OF core_job_done [OF core i'], of ?acks] by simp
    then show ?thesis
      using continue_inv [OF rt_invD(1) [OF inv] _ step [unfolded job_arm_def Inr, simplified]]
        arm_waits [OF inv en]
      by (simp add: waits_def cong: if_cong)
  qed
qed

lemma ack_arm_inv:
  assumes inv: "rt_inv wk R" and en: "arm_enabled wk R"
    and step: "continue_loop order wk
      (R\<lparr>rt_tokens := fold token_cancel ts (rt_tokens R), rt_acks := acks\<rparr>, error) = Some R'"
  shows "rt_inv wk R'"
proof -
  have core: "rt_core wk (R\<lparr>rt_tokens := fold token_cancel ts (rt_tokens R), rt_acks := acks\<rparr>)"
    using core_skip(3) [OF core_tokens [OF rt_invD(2) [OF inv], of ts], of acks] by simp
  show ?thesis
    by (rule continue_inv [OF rt_invD(1) [OF inv] _ step])
      (use core core_failing [OF core] arm_waits [OF inv en] in \<open>simp_all add: waits_def\<close>)
qed

lemma decoding_arm_inv:
  assumes inv: "rt_inv wk R" and en: "arm_enabled wk R"
    and arm: "decoding_arm wk r R = Some (R1, error)"
    and step: "continue_loop order wk (R1, error) = Some R'"
  shows "rt_inv wk R'"
proof -
  note core = rt_invD(2) [OF inv]
  obtain a m rest where d: "rt_decoding R = (a, m) # rest"
    using arm by (cases "rt_decoding R") (auto simp: decoding_arm_def)
  have ok: "rt_failure R = None"
    using rt_invD(3) [OF inv] en d by (auto simp: arm_enabled_def empty_queues_def)
  then have lost: "rt_lost R = []" using core by (auto simp: rt_core_def failure_inv_def)
  have "waits R1" and c: "\<And>e. error = Some e \<Longrightarrow> rt_core wk (failing wk e R1)"
    "error = None \<Longrightarrow> rt_core wk R1"
    using arm d lost arm_waits [OF inv en] core_lost [OF core d lost] core_distribute [OF core d ok]
    by (cases r; auto simp: decoding_arm_def waits_def distribute_def Let_def)+
  then show ?thesis using continue_inv [OF rt_invD(1) [OF inv] _ step] by blast
qed

lemma drained_empty:
  assumes inv: "rt_inv wk R" and ph: "rt_phase R = Receiving \<or> rt_phase R = Draining" and ok: "rt_failure R = None"
    and none: "rt_jobs R = []" "rt_decoding R = []"
  shows "empty_queues R"
proof -
  have rdy: "ready (rt_sched R) = []"
    using rt_invD(1,3) [OF inv] ph none by auto
  obtain S where S: "rt_sim R S" "failure_inv wk R" by (rule core_obtain [OF rt_invD(2) [OF inv]])
  note sim = rt_simD [OF S(1)]
  have "running S = []" using sim(4) S(2) ok none by (auto simp: failure_inv_def)
  then have "waiting (sched S) l = None" for l
    using lane_invD(3) [OF sched_reachD(4) [OF sim(1)], of l] rdy
    by (cases "waiting (sched S) l") (auto simp: sim(2))
  then have "waiting (sched S) = Map.empty" by (rule ext)
  then show ?thesis using rdy none sim(2) by (simp add: empty_queues_def)
qed

lemma core_timed_out: "rt_core wk R \<Longrightarrow> rt_core wk (drain_timed_out wk R)"
proof -
  let ?R = "R\<lparr>rt_decoding := [], rt_jobs := [], rt_acks := [], rt_phase := Closing,
             rt_failed := rt_failed R @ rt_jobs R, rt_lost := rt_lost R @ map fst (rt_decoding R)\<rparr>"
  let ?F = "failing wk (Crate (Timeout ''drain timeout; unfinished deliveries were not acknowledged'')) ?R"
  assume core: "rt_core wk R"
  obtain S where S: "rt_sim R S" and inv: "bounds_inv wk R" "history_inv wk R" "failure_inv wk R"
    by (rule core_obtain [OF core])
  have "rt_sim ?F S" using S by (simp add: rt_sim_def)
  then have "sim_inv wk ?F" by (auto simp: sim_inv_def)
  moreover have "bounds_inv wk ?F" using inv(1) by (simp add: bounds_inv_def)
  moreover have "history_inv wk ?F"
    using inv(2) handed_off_mono [of R ?F wk]
    by (auto simp: history_inv_def pushed_up_def token_cancel_def)
  ultimately show ?thesis by (simp add: rt_core_def failure_inv_def drain_timed_out_def)
qed

lemma close_run_inv:
  assumes inv: "rt_inv wk R" and ph: "rt_phase R = Closing"
  shows "rt_inv wk (close_run wk r R)"
proof -
  note core = rt_invD(2) [OF inv] and w = rt_invD(3) [OF inv]
  have fin: "rt_inv wk (finish_run wk R1)"
    if "R1 = R \<or> (\<exists>e. R1 = insert_failure e R)" for R1
  proof -
    have "rt_core wk (finish_run wk R1)"
      by (rule core_frame [OF core])
        (use that core ph in \<open>auto simp: finish_run_def insert_failure_def cancel_shutdown_def clean_def
           stopping_def token_cancel_def token_is_cancelled_def rt_core_def failure_inv_def
           split: option.splits\<close>)
    then show ?thesis
      using that w ph rt_invD(1) [OF inv]
      by (auto simp: rt_inv_def finish_run_def insert_failure_def cancel_shutdown_def empty_queues_def
          split: option.splits)
  qed
  then show ?thesis by (auto simp: close_run_def split: sum.splits)
qed

lemma rt_step_inv:
  assumes inv: "rt_inv wk R" and step: "rt_step wk R (ev, order) = Some R'"
  shows "rt_inv wk R'"
proof (cases ev)
  case (RtCancel t)
  have "rt_core wk (R\<lparr>rt_tokens := token_cancel t (rt_tokens R)\<rparr>)"
    using core_tokens [OF rt_invD(2) [OF inv], of "[t]"] by simp
  moreover have "wait_inv wk (R\<lparr>rt_tokens := ts\<rparr>) p = wait_inv wk R p" for ts p
    by (cases p) (simp_all add: empty_queues_def)
  ultimately show ?thesis using RtCancel step inv by (auto simp: rt_inv_def)
next
  case RtStop
  then show ?thesis
    using step break_loop_inv [OF rt_invD(2,1) [OF inv]] by (auto split: if_splits)
next
  case (RtJob i work ts)
  then show ?thesis
    using step job_arm_inv [OF inv] by (auto simp: Let_def split: if_splits option.splits)
next
  case (RtJobPanic i e)
  then show ?thesis
    using step job_arm_inv [OF inv, of i order "Inl e" "[]"] by (auto split: if_splits)
next
  case (RtAck i work ts)
  then show ?thesis
    using step ack_arm_inv [OF inv] by (auto simp: Let_def split: if_splits option.splits)
next
  case (RtAckPanic i e)
  then show ?thesis
    using step ack_arm_inv [OF inv, of order "remove_nth i (rt_acks R)" "[]"] by (auto split: if_splits)
next
  case (RtDecoded r)
  then show ?thesis
    using step decoding_arm_inv [OF inv] by (auto split: if_splits option.splits)
next
  case (RtReceive r)
  then show ?thesis using rt_step_receive [OF inv] step by blast
next
  case RtDrained
  then have R': "R' = R\<lparr>rt_phase := Closing\<rparr>" "rt_phase R = Draining" "rt_jobs R = []"
    "rt_acks R = []" "rt_decoding R = []"
    using step by (auto split: if_splits)
  have "rt_core wk R'"
    using rt_invD(2) [OF inv] by (rule core_frame)
      (use inv in \<open>auto simp: R' clean_def stopping_def rt_inv_def rt_core_def failure_inv_def\<close>)
  moreover have "rt_failure R = None \<Longrightarrow> empty_queues R" using drained_empty [OF inv] R' by simp
  ultimately show ?thesis using rt_invD(1) [OF inv] by (auto simp: rt_inv_def R' empty_queues_def)
next
  case RtDrainTimeout
  then show ?thesis
    using step core_timed_out [OF rt_invD(2) [OF inv]] rt_invD(1) [OF inv]
    by (auto simp: rt_inv_def drain_timed_out_def split: if_splits)
next
  case (RtClosed a b c)
  then show ?thesis using step close_run_inv [OF inv] by (auto split: if_splits)
next
  case RtCloseTimeout
  then show ?thesis using step close_run_inv [OF inv] by (auto split: if_splits)
qed

lemma validated_positive:
  "config_validate c = Inr () \<Longrightarrow> 0 < sc_concurrency c \<and> 0 < sc_max_in_flight c
     \<and> sc_max_in_flight_per_key c \<noteq> Some 0"
  by (auto simp: config_validate_def and_then_def ensure_config_def split: sum.splits if_splits)

lemma rt_new_inv:
  assumes "config_validate (wk_config wk) = Inr ()"
  shows "rt_inv wk (rt_new wk ts)"
proof -
  let ?S = "sys_new (sc_max_in_flight_per_key (wk_config wk)) :: ('a, 'b) decoded sched_sys"
  note pos = validated_positive [OF assms]
  have "sched_init ?S" using pos unfolding sched_init_def by blast
  then have "rt_sim (rt_new wk ts) ?S"
    by (simp add: rt_sim_def rt_new_def sys_new_def reach_init)
  then have "sim_inv wk (rt_new wk ts)" by (auto simp: sim_inv_def sys_new_def)
  then show ?thesis
    using pos by (simp add: rt_inv_def rt_core_def bounds_inv_def history_inv_def failure_inv_def
        rt_new_def lined_up_def pushed_up_def scheduler_new_def)
qed

interpretation runtime: invariant_system "rt_init wk" "rt_step wk" "rt_inv wk"
proof unfold_locales
  fix R :: "('a, 'b) runtime"
  assume "rt_init wk R"
  then show "rt_inv wk R" by (auto simp: rt_init_def intro: rt_new_inv)
next
  fix R R' :: "('a, 'b) runtime" and e
  assume "rt_inv wk R" "rt_step wk R e = Some R'"
  then show "rt_inv wk R'" by (cases e) (simp add: rt_step_inv)
qed

section \<open>Progress\<close>

text \<open>Work left in the drain loop: every event but a cancellation takes some of it away.\<close>

definition drain_left :: "('m, 'v) runtime \<Rightarrow> nat" where
  "drain_left R =
     4 * length (rt_decoding R) + 3 * queued_sum (\<lambda>_. 1) (rt_sched R)
     + 2 * length (rt_jobs R) + length (rt_acks R)"

lemma start_rounds_left:
  "finite (dom (waiting (rt_sched R))) \<Longrightarrow> drain_left (start_rounds n wk R) \<le> drain_left R"
proof (induction n arbitrary: R)
  case (Suc n)
  show ?case
  proof (cases "next_ready (rt_sched R)")
    case (Some xs)
    then obtain x s where xs: "next_ready (rt_sched R) = Some (x, s)" by (cases xs) auto
    have fin: "finite (dom (waiting s))" using Suc.prems xs by (simp add: next_ready_waiting)
    note q = queued_sum_next [OF xs, of "\<lambda>_. 1"]
    show ?thesis
      using xs q fin Suc.IH [of "R\<lparr>rt_sched := s, rt_jobs := rt_jobs R @ [x]\<rparr>"]
        Suc.IH [of "R\<lparr>rt_sched := complete (fst x) s, rt_completed := rt_completed R @ [x],
                     rt_abandoned := rt_abandoned R @ [x]\<rparr>"]
      by (simp add: drain_left_def queued_sum_complete complete_finite_lanes)
  qed simp
qed simp

lemma core_finite: "rt_core wk R \<Longrightarrow> finite (dom (waiting (rt_sched R)))"
  by (erule core_obtain) (rule sim_finite)

lemma drain_head_left:
  assumes "finite (dom (waiting (rt_sched R)))" "drain_head order wk R = Some R'"
  shows "drain_left R' \<le> drain_left R"
proof (cases "stopping wk R \<or> rt_failure R \<noteq> None")
  case True
  then obtain R1 where R1: "discard_unstarted order R = Some R1" and eq: "R' = start_ready wk R1"
    using assms(2) by (auto simp: drain_head_def)
  then obtain s where s: "R1 = R\<lparr>rt_sched := s, rt_decoding := []\<rparr>" "ready s = []" "waiting s = Map.empty"
    using discardD [OF R1] by blast
  then have "R' = R1" by (simp add: eq start_ready_def start_rounds_idle)
  then show ?thesis by (simp add: s drain_left_def queued_sum_def)
next
  case False
  then show ?thesis
    using assms start_rounds_left by (auto simp: drain_head_def start_ready_def)
qed

lemma length_remove_nth: "i < length xs \<Longrightarrow> Suc (length (remove_nth i xs)) = length xs"
  by (simp add: remove_nth_def)

lemma job_arm_left:
  assumes "i < length (rt_jobs R)" "finite (dom (waiting (rt_sched R)))"
    "job_arm wk (rt_jobs R ! i) r (R\<lparr>rt_tokens := ts, rt_jobs := remove_nth i (rt_jobs R)\<rparr>) = (R1, error)"
  shows "drain_left R1 < drain_left R \<and> finite (dom (waiting (rt_sched R1)))
     \<and> rt_phase R1 = rt_phase R"
  using assms length_remove_nth [OF assms(1)]
  by (auto simp: job_arm_def drain_left_def queued_sum_complete complete_finite_lanes
      split: sum.splits if_splits)

lemma decoding_arm_left:
  assumes "finite (dom (waiting (rt_sched R)))" "decoding_arm wk r R = Some (R1, error)"
  shows "drain_left R1 < drain_left R \<and> finite (dom (waiting (rt_sched R1)))
     \<and> rt_phase R1 = rt_phase R"
  using assms
  by (cases "(rt_decoding R, r)" rule: decoding_next.cases)
    (auto simp: decoding_arm_def drain_left_def distribute_def Let_def queued_sum_push push_finite_lanes
      split: option.splits)

lemma continue_left:
  assumes "rt_phase R = Draining" "finite (dom (waiting (rt_sched R)))"
    "continue_loop order wk (R, error) = Some R'"
  shows "drain_left R' \<le> drain_left R"
proof -
  have "drain_left (failing wk e R) = drain_left R" for e by (simp add: drain_left_def)
  then show ?thesis
    using assms drain_head_left [of R order wk R'] drain_head_left [of "failing wk _ R" order wk R']
    by (auto simp: continue_loop_def split: option.splits)
qed

lemma job_step_left:
  assumes "rt_phase R = Draining" "finite (dom (waiting (rt_sched R)))" "i < length (rt_jobs R)"
    "continue_loop order wk (job_arm wk (rt_jobs R ! i) r
       (R\<lparr>rt_tokens := ts, rt_jobs := remove_nth i (rt_jobs R)\<rparr>)) = Some R'"
  shows "drain_left R' < drain_left R"
proof -
  obtain R1 error where arm: "job_arm wk (rt_jobs R ! i) r
      (R\<lparr>rt_tokens := ts, rt_jobs := remove_nth i (rt_jobs R)\<rparr>) = (R1, error)"
    by fastforce
  from job_arm_left [OF assms(3,2) arm] assms(1,4) show ?thesis
    using continue_left [of R1 order wk error R'] by (auto simp: arm)
qed

lemma ack_step_left:
  assumes "rt_phase R = Draining" "finite (dom (waiting (rt_sched R)))" "i < length (rt_acks R)"
    "continue_loop order wk (R\<lparr>rt_tokens := ts, rt_acks := remove_nth i (rt_acks R)\<rparr>, error) = Some R'"
  shows "drain_left R' < drain_left R"
  using continue_left [OF _ _ assms(4)] assms(1,2) length_remove_nth [OF assms(3)]
  by (simp add: drain_left_def)

lemma drain_step_left:
  assumes ph: "rt_phase R = Draining" and fin: "finite (dom (waiting (rt_sched R)))"
    and step: "rt_step wk R (ev, order) = Some R'" and ev: "\<And>t. ev \<noteq> RtCancel t"
  shows "rt_phase R' = Closing \<or> drain_left R' < drain_left R"
proof (cases ev)
  case (RtJob i work ts)
  then show ?thesis
    using step job_step_left [OF ph fin] by (auto simp: Let_def split: if_splits option.splits)
next
  case (RtJobPanic i e)
  then show ?thesis
    using step job_step_left [OF ph fin, of i order wk "Inl e" "rt_tokens R"]
    by (auto split: if_splits)
next
  case (RtAck i work ts)
  then show ?thesis
    using step ack_step_left [OF ph fin] by (auto simp: Let_def split: if_splits option.splits)
next
  case (RtAckPanic i e)
  then show ?thesis
    using step ack_step_left [OF ph fin, of i order wk "rt_tokens R"] by (auto split: if_splits)
next
  case (RtDecoded r)
  then obtain R1 error where arm: "decoding_arm wk r R = Some (R1, error)"
    and k: "continue_loop order wk (R1, error) = Some R'"
    using step by (auto split: if_splits option.splits)
  from decoding_arm_left [OF fin arm] continue_left [OF _ _ k] ph show ?thesis by auto
qed (use step ph ev in \<open>auto simp: drain_timed_out_def split: if_splits\<close>)

section \<open>Properties\<close>

abbreviation lane_jobs :: "lane \<Rightarrow> ('m, 'v) runtime \<Rightarrow> ('m, 'v) job list" where
  "lane_jobs l R \<equiv> lane_of l (rt_jobs R @ rt_failed R)"

lemma lane_order_sim:
  assumes "rt_sim R S"
  shows "length (lane_jobs l R) \<le> 1"
    and "prefix (lane_of l (rt_completed R) @ lane_jobs l R) (lane_of l (rt_pushed R))"
proof -
  note sim = rt_simD [OF assms]
  have "mset (lane_of l (running S)) = mset (lane_jobs l R)"
    unfolding mset_filter sim(4) by simp
  moreover have one: "length (lane_of l (running S)) \<le> 1"
    using lane_invD(1) [OF sched_reachD(4) [OF sim(1)], of l] by simp
  ultimately have eq: "lane_jobs l R = lane_of l (running S)"
    by (rule mset_eq_short)
  then show "length (lane_jobs l R) \<le> 1" using one by simp
  obtain d where "lane_of l (pushed S) = lane_of l (completed S) @ lane_queue S l @ d"
    using sched_reachD(5) [OF sim(1)] by (auto simp: order_inv_def)
  then show "prefix (lane_of l (rt_completed R) @ lane_jobs l R) (lane_of l (rt_pushed R))"
    unfolding eq by (simp add: lane_queue_def prefix_def sim(5,6))
qed

text \<open>Runs of a subscription whose deliveries all share lane 7, with two job slots.\<close>

definition ex_worker :: "(nat, nat) worker" where
  "ex_worker =
     \<lparr>wk_name = ''orders'', wk_config = default_config\<lparr>sc_concurrency := 2\<rparr>,
      wk_distributor = \<lparr>dr_lane = (\<lambda>m v. Some 7), dr_keeps_source_order = False\<rparr>,
      wk_ordering_key = (\<lambda>m. None), wk_handoff = (\<lambda>m. None), wk_revocation = (\<lambda>m. None),
      wk_pause = (\<lambda>k. False), wk_stops_on_shutdown = True, wk_shutdown = 0\<rparr>"

definition ex_start :: "(nat, nat) runtime" where
  "ex_start = rt_new ex_worker tokens_empty"

lemma ex_init: "rt_init ex_worker ex_start"
proof -
  have "config_validate (wk_config ex_worker) = Inr ()"
    by (simp add: ex_worker_def config_validate_def default_config_def and_then_def ensure_config_def
        retry_validate_def default_retry_policy_def batch_validate_def default_batch_def batch_new_def)
  then show ?thesis by (auto simp: rt_init_def ex_start_def)
qed

lemmas ex_eval =
  ex_start_def ex_worker_def rt_new_def tokens_empty_def default_config_def scheduler_new_def
  receive_enabled_def arm_enabled_def stopping_def token_is_cancelled_def receive_head_def
  start_ready_def flow_changes_def take_flow_changes_def next_ready_def admit_delivery_def admit_def
  decoding_start_def decoding_arm_def distribute_def decoded_lane_def push_def handed_off_def
  token_set_def continue_loop_def job_arm_def abandon_on_revocation_def complete_def release_def
  break_loop_def drain_head_def discard_unstarted_def decoding_discard_def discard_pending_def
  drain_pending_def fail_with_def cancel_shutdown_def insert_failure_def close_run_def finish_run_def
  result_and_def drain_timed_out_def remove_nth_def Let_def token_cancel_def box_context_def

definition ex_events :: "((nat, nat) rt_event \<times> lane list) list" where
  "ex_events =
     [(RtReceive (RecvMessage 1 (Some (Inr ()))), []), (RtReceive (RecvMessage 2 None), []),
      (RtDecoded (Inr (Inr 10)), []), (RtDecoded (Inr (Inr 20)), []),
      (RtJob 0 (Some (Inr False)) [], [])]"

lemma ex_lane_run:
  "run_ok (\<lambda>R. rt_received R = [1, 2] \<and> map (\<lambda>x. de_delivery (snd x)) (rt_completed R) = [1]
      \<and> map (\<lambda>x. de_delivery (snd x)) (rt_jobs R) = [2] \<and> rt_phase R = Receiving)
     (run (rt_step ex_worker) ex_start ex_events)"
  by (simp add: ex_events_def ex_eval)

lemma ex_obtain:
  assumes "run_ok P (run (rt_step ex_worker) ex_start es)"
  obtains R where "rt_reach ex_worker R" "P R"
  using run_ok_reach [of "rt_init ex_worker" ex_start P "rt_step ex_worker" es] ex_init assms that
  by metis

text \<open>
  C17. The limits of the configuration hold in every state of a subscription: at most \<open>concurrency\<close>
  jobs run, at most \<open>concurrency\<close> deliveries decode and at most \<open>max_in_flight\<close> are outstanding,
  and what is outstanding is exactly what decodes, is queued, runs, or was lost to a failure.
\<close>

theorem runtime_bounds:
  assumes "rt_reach wk R"
  shows "length (rt_jobs R) \<le> concurrency wk \<and> length (rt_decoding R) \<le> concurrency wk
    \<and> outstanding (rt_sched R) \<le> max_in_flight wk
    \<and> outstanding (rt_sched R) =
        length (rt_lost R) + length (rt_decoding R) + length (rt_jobs R) + length (rt_failed R)
        + length (ready (rt_sched R)) + wsum (waiting (rt_sched R)) (\<lambda>_. 1)"
proof -
  from runtime.reach_inv [OF assms] obtain S where "rt_sim R S" "bounds_inv wk R"
    by (auto simp: rt_inv_def elim: core_obtain)
  then show ?thesis
    using sim_outstanding [of R S] by (simp add: bounds_inv_def queued_sum_def sum_list_triv)
qed

theorem runtime_bounds_witness:
  "\<exists>R. rt_reach ex_worker R \<and> length (rt_jobs R) = 1 \<and> length (rt_jobs R) \<le> 2
     \<and> outstanding (rt_sched R) \<le> 64"
proof (rule ex_obtain [OF ex_lane_run])
  fix R assume R: "rt_reach ex_worker R"
    "rt_received R = [1, 2] \<and> map (\<lambda>x. de_delivery (snd x)) (rt_completed R) = [1]
      \<and> map (\<lambda>x. de_delivery (snd x)) (rt_jobs R) = [2] \<and> rt_phase R = Receiving"
  then have "length (rt_jobs R) = 1" by (metis length_map length_Cons list.size(3) One_nat_def)
  with runtime_bounds [OF R(1)] R(1) show ?thesis
    by (intro exI [of _ R]) (simp add: ex_worker_def default_config_def)
qed

text \<open>
  C3. Deliveries with equal lanes run one at a time in receive order: the deliveries handed to the
  scheduler are a prefix of the received ones, each in the lane of its distribution key; in every
  lane what has completed followed by what runs or has failed is a prefix of what was handed over,
  and at most one delivery of the lane runs or has failed. So no later delivery of a lane starts
  beside a running one or after a failed one.
\<close>

theorem runtime_lane_order:
  assumes "rt_reach wk R"
  shows "prefix (map (\<lambda>x. de_delivery (snd x)) (rt_pushed R)) (rt_received R)
    \<and> (\<forall>x. x \<in> set (rt_pushed R) \<longrightarrow> tk_lane (fst x) = decoded_lane wk (snd x))
    \<and> prefix (lane_of l (rt_completed R) @ lane_of l (rt_jobs R @ rt_failed R))
        (lane_of l (rt_pushed R))
    \<and> length (lane_of l (rt_jobs R @ rt_failed R)) \<le> 1"
proof -
  from runtime.reach_inv [OF assms] obtain S where S: "rt_sim R S" "history_inv wk R"
    by (auto simp: rt_inv_def elim: core_obtain)
  then show ?thesis
    using lane_order_sim [OF S(1)] unfolding history_inv_def pushed_up_def by blast
qed

theorem runtime_lane_order_witness:
  "\<exists>R. rt_reach ex_worker R \<and> rt_received R = [1, 2] \<and>
     map (\<lambda>x. de_delivery (snd x)) (rt_completed R) = [1] \<and>
     prefix (lane_of 7 (rt_completed R) @ lane_of 7 (rt_jobs R @ rt_failed R)) (lane_of 7 (rt_pushed R))
     \<and> length (lane_of 7 (rt_jobs R @ rt_failed R)) \<le> 1"
proof (rule ex_obtain [OF ex_lane_run])
  fix R assume R: "rt_reach ex_worker R"
    "rt_received R = [1, 2] \<and> map (\<lambda>x. de_delivery (snd x)) (rt_completed R) = [1]
      \<and> map (\<lambda>x. de_delivery (snd x)) (rt_jobs R) = [2] \<and> rt_phase R = Receiving"
  with runtime_lane_order [OF R(1), of 7] show ?thesis by (intro exI [of _ R]) simp
qed

lemma clean_end:
  assumes "rt_reach wk R" "rt_phase R = Finished (Inr ())" "rt_ended R"
    "\<not> token_is_cancelled (rt_tokens R) (wk_shutdown wk)"
  shows "mset (map (\<lambda>x. de_delivery (snd x)) (rt_completed R)) = mset (rt_received R)
    \<and> rt_jobs R = [] \<and> rt_acks R = [] \<and> rt_decoding R = []"
proof -
  note inv = runtime.reach_inv [OF assms(1)]
  have w: "rt_jobs R = []" "rt_acks R = []" "rt_failure R = None" "empty_queues R"
    using rt_invD(3) [OF inv] assms(2) by (auto split: option.splits)
  have clean: "clean wk R" using assms w(3) by (simp add: clean_def stopping_def)
  obtain S where S: "rt_sim R S" "\<not> closed S" "history_inv wk R" "failure_inv wk R"
    by (rule core_obtain [OF rt_invD(2) [OF inv]]) (use clean in auto)
  note sim = rt_simD [OF S(1)]
  have none: "running S = []" using sim(4) w S(4) by (auto simp: failure_inv_def)
  have "queued_sum f (sched S) = 0" for f
    using w(4) by (simp add: queued_sum_def empty_queues_def sim(2))
  then have "(\<Sum>x\<leftarrow>rt_pushed R. f x) = (\<Sum>x\<leftarrow>rt_completed R. f x :: nat)" for f
    using sched_reachD(6) [OF sim(1)] S(2) none by (simp add: conserved_def sim(5,6))
  from this [of "\<lambda>x. of_bool (x = y)" for y] have "mset (rt_completed R) = mset (rt_pushed R)"
    by (intro multiset_eqI) (simp add: count_mset_sum)
  moreover have "rt_received R = map (\<lambda>x. de_delivery (snd x)) (rt_pushed R)"
    using S(3) clean w(4) by (simp add: history_inv_def lined_up_def pushed_up_def empty_queues_def)
  ultimately show ?thesis using w by (simp add: empty_queues_def mset_map)
qed

text \<open>
  C10. When the source ends and neither shutdown nor a failure intervenes, a subscription that
  finishes has completed every delivery it received, and no acknowledgement is left waiting.
\<close>

theorem runtime_clean_end:
  assumes "rt_reach wk R" "rt_phase R = Finished (Inr ())" "rt_ended R"
    "\<not> token_is_cancelled (rt_tokens R) (wk_shutdown wk)"
  shows "mset (map (\<lambda>x. de_delivery (snd x)) (rt_completed R)) = mset (rt_received R)
    \<and> rt_jobs R = [] \<and> rt_acks R = [] \<and> rt_decoding R = []"
  by (rule clean_end [OF assms])

theorem runtime_clean_end_witness:
  "\<exists>R. rt_reach ex_worker R \<and> rt_phase R = Finished (Inr ()) \<and> rt_received R = [1]
     \<and> mset (map (\<lambda>x. de_delivery (snd x)) (rt_completed R)) = mset (rt_received R)"
proof -
  have "run_ok (\<lambda>R. rt_phase R = Finished (Inr ()) \<and> rt_ended R \<and> rt_received R = [1]
        \<and> \<not> token_is_cancelled (rt_tokens R) (wk_shutdown ex_worker))
     (run (rt_step ex_worker) ex_start
       [(RtReceive (RecvMessage 1 (Some (Inr ()))), []), (RtDecoded (Inr (Inr 10)), []),
        (RtJob 0 (Some (Inr False)) [], []), (RtReceive RecvEnd, []), (RtDrained, []),
        (RtClosed (Inr ()) (Inr ()) (Inr ()), [])])"
    by (simp add: ex_eval)
  from ex_obtain [OF this] obtain R where R: "rt_reach ex_worker R"
    "rt_phase R = Finished (Inr ())" "rt_ended R" "rt_received R = [1]"
    "\<not> token_is_cancelled (rt_tokens R) (wk_shutdown ex_worker)"
    by blast
  from runtime_clean_end [OF R(1,2,3,5)] R show ?thesis by (intro exI [of _ R]) simp
qed

lemma drain_head_failed:
  assumes "rt_failure R \<noteq> None" "drain_head order wk R = Some R'"
  shows "rt_failure R' = rt_failure R \<and> rt_jobs R' = rt_jobs R \<and> rt_received R' = rt_received R"
proof -
  obtain R1 where R1: "discard_unstarted order R = Some R1" "R' = start_ready wk R1"
    using assms by (auto simp: drain_head_def)
  from discardD [OF R1(1)] show ?thesis by (auto simp: R1(2) start_ready_def start_rounds_idle)
qed

lemma continue_failed:
  assumes "rt_phase R = Draining" "rt_failure R \<noteq> None" "continue_loop order wk (R, error) = Some R'"
  shows "rt_failure R' = rt_failure R \<and> rt_jobs R' = rt_jobs R \<and> rt_received R' = rt_received R"
  using assms drain_head_failed [of R order wk R'] drain_head_failed [of "failing wk _ R" order wk R']
  by (auto simp: continue_loop_def split: option.splits)

lemma job_arm_fields:
  "rt_phase (fst (job_arm wk x r R)) = rt_phase R" "rt_failure (fst (job_arm wk x r R)) = rt_failure R"
  "rt_jobs (fst (job_arm wk x r R)) = rt_jobs R" "rt_received (fst (job_arm wk x r R)) = rt_received R"
  by (simp_all add: job_arm_def split: sum.splits)

lemma job_failed:
  assumes "rt_phase R = Draining" "rt_failure R \<noteq> None"
    "continue_loop order wk (job_arm wk x r (R\<lparr>rt_tokens := ts, rt_jobs := remove_nth i (rt_jobs R)\<rparr>)) = Some R'"
  shows "rt_failure R' = rt_failure R \<and> set (rt_jobs R') \<subseteq> set (rt_jobs R) \<and> rt_received R' = rt_received R"
proof -
  let ?a = "job_arm wk x r (R\<lparr>rt_tokens := ts, rt_jobs := remove_nth i (rt_jobs R)\<rparr>)"
  have "continue_loop order wk (fst ?a, snd ?a) = Some R'" using assms(3) by simp
  from continue_failed [OF _ _ this] show ?thesis
    using assms(1,2) set_remove_nth [of i "rt_jobs R"] by (simp add: job_arm_fields)
qed

lemma failed_step:
  assumes ph: "rt_phase R \<noteq> Receiving" and f: "rt_failure R \<noteq> None" and d: "rt_decoding R = [] \<or> rt_phase R \<noteq> Draining"
    and step: "rt_step wk R (ev, order) = Some R'"
  shows "rt_failure R' = rt_failure R \<and> set (rt_jobs R') \<subseteq> set (rt_jobs R) \<and> rt_received R' = rt_received R"
proof (cases ev)
  case (RtJob i work ts)
  then show ?thesis
    using step ph job_failed [OF _ f]
    by (auto simp: Let_def arm_enabled_def simp del: not_None_eq split: if_splits option.splits)
next
  case (RtJobPanic i e)
  then show ?thesis
    using step ph job_failed [OF _ f, of order wk _ "Inl e" i "rt_tokens R"]
    by (auto simp: arm_enabled_def simp del: not_None_eq split: if_splits)
next
  case (RtAck i work ts)
  then show ?thesis
    using step ph f continue_failed [of "R\<lparr>rt_tokens := fold token_cancel ts (rt_tokens R),
        rt_acks := remove_nth i (rt_acks R)\<rparr>" order wk _ R']
    by (auto simp: Let_def arm_enabled_def split: if_splits option.splits)
next
  case (RtAckPanic i e)
  then show ?thesis
    using step ph f continue_failed [of "R\<lparr>rt_acks := remove_nth i (rt_acks R)\<rparr>" order wk _ R']
    by (auto simp: arm_enabled_def split: if_splits)
next
  case (RtDecoded r)
  then show ?thesis
    using step ph d by (auto simp: arm_enabled_def decoding_arm_def split: if_splits)
qed (use step ph f in \<open>auto simp: drain_timed_out_def close_run_def finish_run_def cancel_shutdown_def
    insert_failure_def split: if_splits option.splits sum.splits\<close>)

text \<open>
  C9. The first failure wins and stops the subscription: from then on it stays the recorded failure,
  the application's shutdown token is cancelled, nothing further is received, no further delivery
  starts, and the subscription can only finish with an error that carries its name and this failure.
\<close>

theorem runtime_first_failure:
  assumes "rt_reach wk R" "rt_failure R = Some f" "rt_step wk R e = Some R'"
  shows "rt_failure R' = Some f \<and> token_is_cancelled (rt_tokens R') (wk_shutdown wk)
    \<and> rt_received R' = rt_received R \<and> set (rt_jobs R') \<subseteq> set (rt_jobs R)
    \<and> rt_phase R' \<noteq> Receiving
    \<and> (\<forall>r. rt_phase R' = Finished r \<longrightarrow> r = Inl (SubscriptionError (wk_name wk) f))"
proof -
  note inv = runtime.reach_inv [OF assms(1)]
  have inv': "rt_inv wk R'" by (rule runtime.inv_step [OF inv assms(3)])
  obtain ev order where e: "e = (ev, order)" by fastforce
  have "rt_phase R \<noteq> Receiving" "rt_decoding R = [] \<or> rt_phase R \<noteq> Draining"
    using rt_invD(3) [OF inv] assms(2) by (auto simp: empty_queues_def)
  from failed_step [OF this(1) _ this(2) assms(3) [unfolded e]] assms(2)
  have f: "rt_failure R' = Some f \<and> set (rt_jobs R') \<subseteq> set (rt_jobs R) \<and> rt_received R' = rt_received R"
    by simp
  moreover have "token_is_cancelled (rt_tokens R') (wk_shutdown wk)"
    using rt_invD(2) [OF inv'] f by (auto simp: rt_core_def failure_inv_def)
  moreover have "rt_phase R' \<noteq> Receiving \<and>
      (\<forall>r. rt_phase R' = Finished r \<longrightarrow> r = Inl (SubscriptionError (wk_name wk) f))"
    using rt_invD(3) [OF inv'] f by auto
  ultimately show ?thesis by blast
qed

theorem runtime_first_failure_witness:
  "\<exists>R R'. rt_reach ex_worker R \<and> rt_step ex_worker R (RtDrained, []) = Some R'
     \<and> rt_failure R' = Some (Crate (Failed ''fatal receive error'' (Some (Foreign ''gone'' None))))
     \<and> token_is_cancelled (rt_tokens R') (wk_shutdown ex_worker)"
proof -
  have "run_ok (\<lambda>R. rt_failure R = Some (Crate (Failed ''fatal receive error'' (Some (Foreign ''gone'' None))))
        \<and> rt_phase R = Draining \<and> rt_jobs R = [] \<and> rt_acks R = [] \<and> rt_decoding R = [])
     (run (rt_step ex_worker) ex_start [(RtReceive (RecvFatal (Foreign ''gone'' None)), [])])"
    by (simp add: ex_eval error_wrap_def)
  from ex_obtain [OF this] obtain R where R: "rt_reach ex_worker R"
    "rt_failure R = Some (Crate (Failed ''fatal receive error'' (Some (Foreign ''gone'' None))))"
    "rt_phase R = Draining" "rt_jobs R = []" "rt_acks R = []" "rt_decoding R = []"
    by blast
  then have step: "rt_step ex_worker R (RtDrained, []) = Some (R\<lparr>rt_phase := Closing\<rparr>)" by simp
  from runtime_first_failure [OF R(1,2) this] R(1) step show ?thesis by blast
qed

lemma drain_head_phase: "drain_head order wk R = Some R' \<Longrightarrow> rt_phase R' = rt_phase R"
  using discardD [of order R] by (auto simp: drain_head_def start_ready_def split: if_splits)

lemma continue_phase:
  "rt_phase (fst Re) = Draining \<Longrightarrow> continue_loop order wk Re = Some R' \<Longrightarrow> rt_phase R' = Draining"
  by (auto simp: continue_loop_def dest!: drain_head_phase split: prod.splits option.splits)

lemma drain_step_phase:
  assumes "rt_phase R = Draining" "rt_step wk R (ev, order) = Some R'"
  shows "rt_phase R' = Draining \<or> rt_phase R' = Closing"
proof (cases ev)
  case (RtDecoded r)
  then obtain Re where "decoding_arm wk r R = Some Re" "continue_loop order wk Re = Some R'"
    using assms(2) by (auto split: if_splits option.splits)
  moreover from this(1) have "rt_phase (fst Re) = rt_phase R"
    by (cases "(rt_decoding R, r)" rule: decoding_next.cases)
      (auto simp: decoding_arm_def distribute_def Let_def)
  ultimately show ?thesis using assms(1) continue_phase [of Re order wk R'] by simp
qed (use assms in \<open>auto simp: Let_def drain_timed_out_def job_arm_fields dest!: continue_phase [rotated]
    split: if_splits option.splits\<close>)

text \<open>Once the loops are over they stay over.\<close>

definition over :: "('m, 'v) runtime \<Rightarrow> bool" where
  "over R \<longleftrightarrow> rt_phase R = Closing \<or> (\<exists>r. rt_phase R = Finished r)"

lemma over_step: "over R \<Longrightarrow> rt_step wk R (ev, order) = Some R' \<Longrightarrow> over R'"
  by (cases ev) (auto simp: over_def close_run_def finish_run_def cancel_shutdown_def
      insert_failure_def arm_enabled_def split: if_splits option.splits sum.splits)

lemma over_run: "over R \<Longrightarrow> run (rt_step wk) R es = Some R' \<Longrightarrow> over R'"
proof (induction es arbitrary: R)
  case (Cons e es)
  then show ?case by (cases e) (auto intro: over_step split: option.splits)
qed simp

abbreviation outside :: "('m, 'v) rt_event \<times> lane list \<Rightarrow> bool" where
  "outside e \<equiv> (case fst e of RtCancel _ \<Rightarrow> True | _ \<Rightarrow> False)"

lemma drain_run_left:
  assumes "rt_inv wk R" "rt_phase R = Draining" "run (rt_step wk) R es = Some R'" "\<not> over R'"
  shows "length (filter (\<lambda>e. \<not> outside e) es) + drain_left R' \<le> drain_left R"
  using assms
proof (induction es arbitrary: R)
  case (Cons e es)
  obtain ev order where e: "e = (ev, order)" by fastforce
  from Cons.prems(3) obtain R1 where R1: "rt_step wk R (ev, order) = Some R1"
    "run (rt_step wk) R1 es = Some R'"
    by (auto simp: e split: option.splits)
  have "\<not> over R1" using over_run [OF _ R1(2)] Cons.prems(4) by blast
  then have ph: "rt_phase R1 = Draining"
    using drain_step_phase [OF Cons.prems(2) R1(1)] by (auto simp: over_def)
  have "outside e \<and> drain_left R1 = drain_left R \<or> \<not> outside e \<and> drain_left R1 < drain_left R"
    using drain_step_left [OF Cons.prems(2) core_finite [OF rt_invD(2) [OF Cons.prems(1)]] R1(1)] R1(1) ph
    by (cases ev) (auto simp: e drain_left_def)
  then show ?case
    using Cons.IH [OF rt_step_inv [OF Cons.prems(1) R1(1)] ph R1(2) Cons.prems(4)] by auto
qed simp

text \<open>
  C19. Draining ends: every event of the drain loop other than an outside cancellation uses up some
  of the work that was left when draining began, so the loop reaches cleanup after at most
  \<open>drain_left\<close> of them, even without the drain timeout.
\<close>

theorem drain_terminates:
  assumes "rt_reach wk R" "rt_phase R = Draining" "run (rt_step wk) R es = Some R'"
    "drain_left R < length (filter (\<lambda>e. \<not> outside e) es)"
  shows "over R'"
  using drain_run_left [OF runtime.reach_inv [OF assms(1)] assms(2,3)] assms(4)
  by (cases "over R'") auto

theorem drain_terminates_witness:
  "\<exists>R R'. rt_reach ex_worker R \<and> rt_phase R = Draining
     \<and> run (rt_step ex_worker) R [(RtDrained, [])] = Some R' \<and> over R'"
proof -
  have "run_ok (\<lambda>R. rt_phase R = Draining \<and> rt_jobs R = [] \<and> rt_acks R = [] \<and> rt_decoding R = []
        \<and> drain_left R = 0)
     (run (rt_step ex_worker) ex_start [(RtReceive RecvEnd, [])])"
    by (simp add: ex_eval drain_left_def queued_sum_def)
  from ex_obtain [OF this] obtain R where R: "rt_reach ex_worker R" "rt_phase R = Draining"
    "rt_jobs R = []" "rt_acks R = []" "rt_decoding R = []" "drain_left R = 0"
    by blast
  then have step: "run (rt_step ex_worker) R [(RtDrained, [])] = Some (R\<lparr>rt_phase := Closing\<rparr>)"
    by simp
  from drain_terminates [OF R(1,2) this] R(6) have "over (R\<lparr>rt_phase := Closing\<rparr>)" by simp
  with R step show ?thesis by blast
qed

lemma rt_reach_valid: "rt_reach wk R \<Longrightarrow> config_validate (wk_config wk) = Inr ()"
  by (induction rule: reach.induct) (auto simp: rt_init_def)

text \<open>
  C20. A subscription never stalls by its own limits: while it receives, it may take the next
  delivery, or a job or a decoding it waits for is still running.
\<close>

theorem runtime_no_stall:
  assumes "rt_reach wk R" "rt_phase R = Receiving"
  shows "receive_enabled wk R \<or> rt_jobs R \<noteq> [] \<or> rt_decoding R \<noteq> []"
proof (rule ccontr)
  assume "\<not> ?thesis"
  then have none: "\<not> receive_enabled wk R" "rt_jobs R = []" "rt_decoding R = []" by auto
  note inv = runtime.reach_inv [OF assms(1)]
  have ok: "rt_failure R = None" using rt_invD(3) [OF inv] assms(2) by simp
  have "empty_queues R" using drained_empty [OF inv _ ok] assms(2) none by simp
  moreover obtain S where "rt_sim R S" "failure_inv wk R"
    by (rule core_obtain [OF rt_invD(2) [OF inv]])
  ultimately have "outstanding (rt_sched R) = 0"
    using sim_outstanding [of R S] none ok
    by (auto simp: empty_queues_def queued_sum_def failure_inv_def)
  then show False
    using none validated_positive [OF rt_reach_valid [OF assms(1)]] by (simp add: receive_enabled_def)
qed

theorem runtime_no_stall_witness:
  "\<exists>R. rt_reach ex_worker R \<and> rt_phase R = Receiving \<and>
     (receive_enabled ex_worker R \<or> rt_jobs R \<noteq> [] \<or> rt_decoding R \<noteq> [])"
proof -
  have "rt_reach ex_worker ex_start" "rt_phase ex_start = Receiving"
    by (simp add: reach_init ex_init) (simp add: ex_start_def rt_new_def)
  with runtime_no_stall [OF this] show ?thesis by blast
qed

end
