(* ===== verification/State_Store.thy ===== *)
theory State_Store
  imports Processing Tokens Messages
begin

text \<open>
  Keyed state: the handle a handler changes (\<^verbatim>\<open>src/state/value.rs\<close>), the key it is kept under
  (\<^verbatim>\<open>src/state/key.rs\<close>), the contract between runtime and store (\<^verbatim>\<open>src/state/store.rs\<close>) and the
  store in memory (\<^verbatim>\<open>src/state/memory.rs\<close>).

  The per-key \<^verbatim>\<open>AsyncMutex\<close> is a set of locked keys: beginning a change on a locked key waits, which
  is a step that is not enabled. \<open>mem_step\<close> runs the operations of all deliveries in any order, with
  tokens cancelled and orphaned in between.
\<close>

section \<open>One value, as the handler sees it\<close>

datatype change = NoChange | SetChange | ClearChange

datatype 'a final = Unchanged | FinalSet 'a | FinalClear

record 'a state =
  st_value :: 'a
  st_is_new :: bool
  st_change :: change

definition state_new :: "'a \<Rightarrow> 'a option \<Rightarrow> 'a state" where
  "state_new dflt stored =
     \<lparr>st_value = (case stored of None \<Rightarrow> dflt | Some v \<Rightarrow> v), st_is_new = (stored = None),
      st_change = NoChange\<rparr>"

text \<open>Writing through \<^verbatim>\<open>DerefMut\<close>.\<close>

definition state_write :: "('a \<Rightarrow> 'a) \<Rightarrow> 'a state \<Rightarrow> 'a state" where
  "state_write f st = st\<lparr>st_change := SetChange, st_value := f (st_value st)\<rparr>"

definition state_clear :: "'a \<Rightarrow> 'a state \<Rightarrow> 'a state" where
  "state_clear dflt st = st\<lparr>st_value := dflt, st_change := ClearChange\<rparr>"

definition state_drop :: "'a state \<Rightarrow> 'a final" where
  "state_drop st =
     (case st_change st of
        NoChange \<Rightarrow> Unchanged
      | SetChange \<Rightarrow> FinalSet (st_value st)
      | ClearChange \<Rightarrow> FinalClear)"

text \<open>What a handler does with its handle before it drops it.\<close>

datatype 'a use = Write "'a \<Rightarrow> 'a" | Clear

fun state_use :: "'a \<Rightarrow> 'a use \<Rightarrow> 'a state \<Rightarrow> 'a state" where
  "state_use dflt (Write f) st = state_write f st"
| "state_use dflt Clear st = state_clear dflt st"

definition handle_state :: "'a \<Rightarrow> 'a use list \<Rightarrow> 'a option \<Rightarrow> 'a final" where
  "handle_state dflt uses stored = state_drop (fold (state_use dflt) uses (state_new dflt stored))"


fun apply_final :: "'a option \<Rightarrow> 'a final \<Rightarrow> 'a option" where
  "apply_final c Unchanged = c"
| "apply_final c (FinalSet v) = Some v"
| "apply_final c FinalClear = None"









section \<open>Context, keys and the contract\<close>

record state_context =
  sx_subscription :: string
  sx_message_key :: "bytes option"
  sx_position :: "position option"
  sx_revocation :: "token option"

definition context_of ::
  "('m \<Rightarrow> bytes option) \<Rightarrow> ('m \<Rightarrow> position option) \<Rightarrow> ('m \<Rightarrow> token option) \<Rightarrow> string \<Rightarrow> 'm \<Rightarrow>
   state_context" where
  "context_of message_key pos revocation subscription delivery =
     \<lparr>sx_subscription = subscription, sx_message_key = message_key delivery,
      sx_position = pos delivery, sx_revocation = revocation delivery\<rparr>"

type_synonym 'i state_key = "'i \<Rightarrow> state_context \<Rightarrow> bytes hresult"


definition input_key :: "('i \<Rightarrow> bytes) \<Rightarrow> 'i state_key" where
  "input_key f input context = Inr (f input)"

datatype ('s, 't) begun = BeginReady 's 't | BeginApplied

section \<open>The store in memory\<close>

record 'a mem_entry =
  en_value :: "'a option"
  en_position :: "position option"
  en_owners :: "token list"

definition entry_default :: "'a mem_entry" where
  "entry_default = \<lparr>en_value = None, en_position = None, en_owners = []\<rparr>"

record 'a memory =
  mem_entries :: "bytes \<rightharpoonup> 'a mem_entry"
  mem_locked :: "bytes set"

record mem_txn =
  tx_key :: bytes
  tx_position :: "position option"
  tx_owner :: "token option"

definition memory_new :: "'a memory" where
  "memory_new = \<lparr>mem_entries = Map.empty, mem_locked = {}\<rparr>"

definition is_stale :: "tokens \<Rightarrow> 'a mem_entry \<Rightarrow> bool" where
  "is_stale ts e = list_ex (token_is_cancelled ts) (en_owners e)"

text \<open>\<^verbatim>\<open>InMemoryState::get\<close>, once the key's lock is free.\<close>

definition mem_get :: "tokens \<Rightarrow> bytes \<Rightarrow> 'a memory \<Rightarrow> 'a option" where
  "mem_get ts k m =
     (case mem_entries m k of
        None \<Rightarrow> None
      | Some e \<Rightarrow> if is_stale ts e then None else en_value e)"

text \<open>The entry a delivery finds under its key once it has locked it.\<close>

definition fresh_entry :: "tokens \<Rightarrow> bytes \<Rightarrow> 'a memory \<Rightarrow> 'a mem_entry" where
  "fresh_entry ts k m =
     (let e = (case mem_entries m k of None \<Rightarrow> entry_default | Some e \<Rightarrow> e)
      in if is_stale ts e then entry_default else e)"

definition already_applied :: "state_context \<Rightarrow> 'a mem_entry \<Rightarrow> bool" where
  "already_applied context e =
     (case (sx_position context, en_position e) of
        (Some p, Some applied) \<Rightarrow> is_covered_by p applied
      | _ \<Rightarrow> False)"

text \<open>\<^verbatim>\<open>InMemoryState::begin\<close>; \<open>None\<close> waits for the delivery that holds the key.\<close>

definition mem_begin ::
  "'a \<Rightarrow> 'i state_key \<Rightarrow> tokens \<Rightarrow> 'i \<Rightarrow> state_context \<Rightarrow> 'a memory \<Rightarrow>
   (('a state, mem_txn) begun hresult \<times> 'a memory) option" where
  "mem_begin dflt key ts input context m =
     (case key input context of
        Inl e \<Rightarrow> Some (Inl e, m)
      | Inr k \<Rightarrow>
          if k \<in> mem_locked m then None
          else
            let e = fresh_entry ts k m;
                m = m\<lparr>mem_entries := (mem_entries m)(k \<mapsto> e)\<rparr>
            in if already_applied context e then Some (Inr BeginApplied, m)
               else Some (Inr (BeginReady (state_new dflt (en_value e))
                            \<lparr>tx_key = k, tx_position = sx_position context,
                             tx_owner = sx_revocation context\<rparr>),
                          m\<lparr>mem_locked := insert k (mem_locked m)\<rparr>))"

text \<open>Dropping a transaction releases its key.\<close>

definition mem_release :: "mem_txn \<Rightarrow> 'a memory \<Rightarrow> 'a memory" where
  "mem_release t m = m\<lparr>mem_locked := mem_locked m - {tx_key t}\<rparr>"

definition update_owners :: "(token \<Rightarrow> bool) \<Rightarrow> token option \<Rightarrow> token list \<Rightarrow> token list" where
  "update_owners orphaned owner owners =
     (let owners = filter (\<lambda>t. \<not> orphaned t) owners
      in case owner of
           None \<Rightarrow> owners
         | Some t \<Rightarrow> if t \<in> set owners then owners else owners @ [t])"

text \<open>
  \<^verbatim>\<open>InMemoryState::commit\<close>, with what the dropped handle left (\<open>None\<close> while the handler keeps it)
  and \<^verbatim>\<open>CancellationToken::is_orphaned\<close> as seen during the call.
\<close>

definition mem_commit ::
  "(token \<Rightarrow> bool) \<Rightarrow> mem_txn \<Rightarrow> 'a final option \<Rightarrow> 'a memory \<Rightarrow> unit outcome \<times> 'a memory" where
  "mem_commit orphaned t returned m =
     (let k = tx_key t;
          e = (case mem_entries m k of None \<Rightarrow> entry_default | Some e \<Rightarrow> e);
          store = (\<lambda>value. m\<lparr>mem_entries := (mem_entries m)(k \<mapsto>
                     e\<lparr>en_owners := update_owners orphaned (tx_owner t) (en_owners e),
                       en_value := value, en_position := tx_position t\<rparr>)\<rparr>)
      in case returned of
           None \<Rightarrow> (Inl (Foreign ''the handler kept its state after returning'' None), mem_release t m)
         | Some Unchanged \<Rightarrow> (Inr (), mem_release t m)
         | Some (FinalSet v) \<Rightarrow> (Inr (), mem_release t (store (Some v)))
         | Some FinalClear \<Rightarrow> (Inr (), mem_release t (store None)))"

section \<open>All deliveries of a process\<close>

text \<open>
  The open changes by key with the value they started from, the revocation tokens these hold, the
  tokens that lost their last clone outside the store, and, as history, the tokens of the deliveries
  whose commits built the value of a key and the tokens dropped from its entry since then.
\<close>

record 'a mem_sys =
  ms_store :: "'a memory"
  ms_tokens :: tokens
  ms_open :: "bytes \<rightharpoonup> mem_txn \<times> 'a option"
  ms_held :: "token list"
  ms_orphans :: "token set"
  ms_built :: "bytes \<Rightarrow> token set"
  ms_dropped :: "bytes \<Rightarrow> token set"

datatype ('i, 'a) mem_event =
    MemBegin 'i state_context
  | MemCommit bytes "'a use list option" "token list"
  | MemAbandon bytes
  | MemCancel token
  | MemOrphan token

definition mem_sys_new :: "'a mem_sys" where
  "mem_sys_new =
     \<lparr>ms_store = memory_new, ms_tokens = tokens_empty, ms_open = Map.empty, ms_held = [],
      ms_orphans = {}, ms_built = (\<lambda>_. {}), ms_dropped = (\<lambda>_. {})\<rparr>"

definition owner_list :: "token option \<Rightarrow> token list" where
  "owner_list t = (case t of None \<Rightarrow> [] | Some t \<Rightarrow> [t])"

definition entry_at :: "bytes \<Rightarrow> 'a memory \<Rightarrow> 'a mem_entry" where
  "entry_at k m = (case mem_entries m k of None \<Rightarrow> entry_default | Some e \<Rightarrow> e)"

definition forget :: "bytes \<Rightarrow> 'a mem_sys \<Rightarrow> 'a mem_sys" where
  "forget k S =
     (if is_stale (ms_tokens S) (entry_at k (ms_store S))
      then S\<lparr>ms_built := (ms_built S)(k := {}), ms_dropped := (ms_dropped S)(k := {})\<rparr> else S)"

definition close_change :: "bytes \<Rightarrow> mem_txn \<Rightarrow> 'a memory \<Rightarrow> 'a mem_sys \<Rightarrow> 'a mem_sys" where
  "close_change k t m S =
     S\<lparr>ms_store := m, ms_open := (ms_open S)(k := None),
       ms_held := fold remove1 (owner_list (tx_owner t)) (ms_held S)\<rparr>"

definition record_change :: "bytes \<Rightarrow> mem_txn \<Rightarrow> token list \<Rightarrow> 'a mem_sys \<Rightarrow> 'a mem_sys" where
  "record_change k t orphans S =
     S\<lparr>ms_built := (ms_built S)(k := ms_built S k \<union> set (owner_list (tx_owner t))),
       ms_dropped := (ms_dropped S)
         (k := ms_dropped S k \<union> (set (en_owners (entry_at k (ms_store S))) \<inter> set orphans))\<rparr>"

text \<open>
  A token without other clones cannot be cancelled any more and belongs to no delivery that begins
  or is open. A commit may see as orphaned every token that lost its outside clones.
\<close>

fun mem_step ::
  "'a \<Rightarrow> 'i state_key \<Rightarrow> 'a mem_sys \<Rightarrow> ('i, 'a) mem_event \<Rightarrow> 'a mem_sys option" where
  "mem_step dflt key S (MemBegin input context) =
     (if set (owner_list (sx_revocation context)) \<inter> ms_orphans S \<noteq> {} then None
      else case mem_begin dflt key (ms_tokens S) input context (ms_store S) of
             None \<Rightarrow> None
           | Some (Inl e, m) \<Rightarrow> Some (S\<lparr>ms_store := m\<rparr>)
           | Some (Inr BeginApplied, m) \<Rightarrow> Some (S\<lparr>ms_store := m\<rparr>)
           | Some (Inr (BeginReady st t), m) \<Rightarrow>
               let k = tx_key t; v = (if st_is_new st then None else Some (st_value st)) in
               Some ((forget k S)\<lparr>ms_store := m, ms_open := (ms_open S)(k \<mapsto> (t, v)),
                       ms_held := ms_held S @ owner_list (tx_owner t)\<rparr>))"
| "mem_step dflt key S (MemCommit k uses orphans) =
     (case ms_open S k of
        None \<Rightarrow> None
      | Some (t, v) \<Rightarrow>
          if \<not> set orphans \<subseteq> ms_orphans S then None
          else
            let returned = map_option (\<lambda>us. handle_state dflt us v) uses;
                m = snd (mem_commit (\<lambda>t. t \<in> set orphans) t returned (ms_store S))
            in Some (close_change k t m
                       (case returned of
                          None \<Rightarrow> S
                        | Some Unchanged \<Rightarrow> S
                        | _ \<Rightarrow> record_change k t orphans S)))"
| "mem_step dflt key S (MemAbandon k) =
     (case ms_open S k of
        None \<Rightarrow> None
      | Some (t, v) \<Rightarrow> Some (close_change k t (mem_release t (ms_store S)) S))"
| "mem_step dflt key S (MemCancel t) =
     (if t \<in> ms_orphans S then None else Some (S\<lparr>ms_tokens := token_cancel t (ms_tokens S)\<rparr>))"
| "mem_step dflt key S (MemOrphan t) =
     (if t \<in> set (ms_held S) then None else Some (S\<lparr>ms_orphans := insert t (ms_orphans S)\<rparr>))"

definition mem_init :: "'a mem_sys \<Rightarrow> bool" where
  "mem_init S \<longleftrightarrow> S = mem_sys_new"


section \<open>Invariants\<close>

text \<open>
  An open change holds the lock of its key and started from the value its entry still has; the
  tokens a value was built under own its entry, or were dropped from it as orphans.
\<close>

definition open_inv :: "'a mem_sys \<Rightarrow> bool" where
  "open_inv S \<longleftrightarrow>
     (\<forall>k t v. ms_open S k = Some (t, v) \<longrightarrow>
        tx_key t = k \<and> k \<in> mem_locked (ms_store S) \<and> mem_entries (ms_store S) k \<noteq> None
        \<and> v = en_value (entry_at k (ms_store S)))"

definition owners_inv :: "'a mem_sys \<Rightarrow> bool" where
  "owners_inv S \<longleftrightarrow>
     (\<forall>k t. t \<in> ms_built S k \<longrightarrow>
        t \<in> set (en_owners (entry_at k (ms_store S))) \<or> t \<in> ms_dropped S k)
     \<and> (\<forall>k t. t \<in> ms_dropped S k \<longrightarrow> t \<in> ms_orphans S)"

definition mem_inv :: "'a mem_sys \<Rightarrow> bool" where
  "mem_inv S \<longleftrightarrow> open_inv S \<and> owners_inv S"

lemma entry_at_default [simp]: "entry_at k memory_new = entry_default"
  by (simp add: entry_at_def memory_new_def)

lemma entry_at_upd [simp]:
  "entry_at k (m\<lparr>mem_entries := (mem_entries m)(j \<mapsto> e)\<rparr>) = (if k = j then e else entry_at k m)"
  "entry_at k (m\<lparr>mem_locked := l\<rparr>) = entry_at k m"
  "entry_at k (m\<lparr>mem_entries := (mem_entries m)(j \<mapsto> e), mem_locked := l\<rparr>) = (if k = j then e else entry_at k m)"
  by (simp_all add: entry_at_def)

lemma fresh_entry_at: "fresh_entry ts k m = (if is_stale ts (entry_at k m) then entry_default else entry_at k m)"
  by (simp add: fresh_entry_def entry_at_def Let_def)

lemma release_simps [simp]:
  "mem_entries (mem_release t m) = mem_entries m" "entry_at k (mem_release t m) = entry_at k m"
  "mem_locked (mem_release t m) = mem_locked m - {tx_key t}"
  by (simp_all add: mem_release_def entry_at_def)

lemma update_owners_set:
  "set (update_owners orphaned owner owners) =
     {t \<in> set owners. \<not> orphaned t} \<union> set (owner_list owner)"
  by (auto simp: update_owners_def owner_list_def Let_def split: option.splits)


lemma entry_default_simps [simp]:
  "en_value entry_default = None" "en_position entry_default = None" "en_owners entry_default = []"
  "\<not> is_stale ts entry_default"
  by (simp_all add: entry_default_def is_stale_def)

text \<open>What a commit leaves: the entries of other keys, and its own entry when it changed nothing.\<close>

lemma commit_store:
  "mem_locked (snd (mem_commit orph t r m)) = mem_locked m - {tx_key t}"
  "k \<noteq> tx_key t \<Longrightarrow> mem_entries (snd (mem_commit orph t r m)) k = mem_entries m k"
  "r = None \<or> r = Some Unchanged \<Longrightarrow> mem_entries (snd (mem_commit orph t r m)) = mem_entries m"
  by (auto simp: mem_commit_def mem_release_def Let_def split: option.splits final.splits)

lemma commit_entry:
  assumes "r = Some f" "f \<noteq> Unchanged"
  shows "entry_at (tx_key t) (snd (mem_commit orph t r m)) =
     (entry_at (tx_key t) m)\<lparr>en_owners := update_owners orph (tx_owner t) (en_owners (entry_at (tx_key t) m)),
       en_value := apply_final c f, en_position := tx_position t\<rparr>"
  using assms by (cases f) (simp_all add: mem_commit_def Let_def entry_at_def)

lemma entry_at_cong: "mem_entries m k = mem_entries m' k \<Longrightarrow> entry_at k m = entry_at k m'"
  by (simp add: entry_at_def)

lemma mem_beginE:
  assumes "mem_begin dflt key ts input context m = Some (r, m')"
  obtains (key) e where "key input context = Inl e" "r = Inl e" "m' = m"
  | (applied) k where "key input context = Inr k" "k \<notin> mem_locked m" "r = Inr BeginApplied"
      "already_applied context (fresh_entry ts k m)"
      "m' = m\<lparr>mem_entries := (mem_entries m)(k \<mapsto> fresh_entry ts k m)\<rparr>"
  | (started) k where "key input context = Inr k" "k \<notin> mem_locked m"
      "\<not> already_applied context (fresh_entry ts k m)"
      "r = Inr (BeginReady (state_new dflt (en_value (fresh_entry ts k m)))
         \<lparr>tx_key = k, tx_position = sx_position context, tx_owner = sx_revocation context\<rparr>)"
      "m' = m\<lparr>mem_entries := (mem_entries m)(k \<mapsto> fresh_entry ts k m),
             mem_locked := insert k (mem_locked m)\<rparr>"
  using assms by (auto simp: mem_begin_def Let_def split: sum.splits if_splits)

lemma open_invD:
  assumes "open_inv S" "ms_open S k = Some (t, v)"
  shows "tx_key t = k" "k \<in> mem_locked (ms_store S)" "mem_entries (ms_store S) k \<noteq> None"
    "v = en_value (entry_at k (ms_store S))"
  using assms by (auto simp: open_inv_def)

lemma applied_keeps:
  assumes "already_applied context (fresh_entry ts k m)"
  shows "mem_entries m k = Some (fresh_entry ts k m)" "\<not> is_stale ts (entry_at k m)"
proof -
  have "\<not> is_stale ts (entry_at k m) \<and> mem_entries m k = Some (entry_at k m)"
    using assms
    by (cases "mem_entries m k")
      (auto simp: already_applied_def fresh_entry_at entry_at_def split: if_splits option.splits)
  then show "mem_entries m k = Some (fresh_entry ts k m)" "\<not> is_stale ts (entry_at k m)"
    by (simp_all add: fresh_entry_at)
qed

lemma mem_step_beginE:
  assumes "mem_step dflt key S (MemBegin input context) = Some S'"
  obtains (same) "S' = S"
  | (started) k where "k \<notin> mem_locked (ms_store S)"
      "set (owner_list (sx_revocation context)) \<inter> ms_orphans S = {}"
      "S' = (forget k S)\<lparr>
         ms_store := (ms_store S)\<lparr>
            mem_entries := (mem_entries (ms_store S))(k \<mapsto> fresh_entry (ms_tokens S) k (ms_store S)),
            mem_locked := insert k (mem_locked (ms_store S))\<rparr>,
         ms_open := (ms_open S)(k \<mapsto>
            (\<lparr>tx_key = k, tx_position = sx_position context, tx_owner = sx_revocation context\<rparr>,
             en_value (fresh_entry (ms_tokens S) k (ms_store S)))),
         ms_held := ms_held S @ owner_list (sx_revocation context)\<rparr>"
proof -
  from assms obtain r m' where r: "mem_begin dflt key (ms_tokens S) input context (ms_store S) = Some (r, m')"
    and free: "set (owner_list (sx_revocation context)) \<inter> ms_orphans S = {}"
    by (auto split: if_splits option.splits)
  from r show thesis
  proof (cases rule: mem_beginE)
    case (applied k)
    then have "m' = ms_store S"
      using applied_keeps(1) [OF applied(4)] by (simp add: fun_upd_idem)
    then show thesis using assms free r applied that(1) by simp
  next
    case (key e)
    then show thesis using assms free r that(1) by simp
  next
    case (started k)
    show thesis
      by (rule that(2) [OF started(2) free])
        (use assms free r started in \<open>auto simp: Let_def state_new_def split: option.splits\<close>)
  qed
qed

lemma open_inv_step:
  assumes inv: "open_inv S" and step: "mem_step dflt key S ev = Some S'"
  shows "open_inv S'"
proof (cases ev)
  case (MemBegin input ctx)
  from step [unfolded MemBegin] show ?thesis
  proof (cases rule: mem_step_beginE)
    case (started k)
    then have "ms_open S k = None" using open_invD(2) [OF inv, of k] by (cases "ms_open S k") auto
    then show ?thesis using inv by (auto simp: open_inv_def started(3) forget_def)
  qed (use inv in simp)
next
  case (MemCommit k uses orphans)
  then obtain t v where t: "ms_open S k = Some (t, v)" using step by (auto split: option.splits)
  let ?m = "snd (mem_commit (\<lambda>t. t \<in> set orphans) t (map_option (\<lambda>us. handle_state dflt us v) uses) (ms_store S))"
  have S': "ms_store S' = ?m" "ms_open S' = (ms_open S)(k := None)"
    using step MemCommit t
    by (auto simp: Let_def close_change_def record_change_def split: if_splits option.splits final.splits)
  have "mem_entries ?m j = mem_entries (ms_store S) j" "j \<in> mem_locked ?m \<longleftrightarrow> j \<in> mem_locked (ms_store S)"
    if "j \<noteq> k" for j
    using that open_invD(1) [OF inv t] by (simp_all add: commit_store)
  then show ?thesis
    using inv unfolding open_inv_def S' by (auto simp: entry_at_def)
next
  case (MemAbandon k)
  then obtain t v where t: "ms_open S k = Some (t, v)" using step by (auto split: option.splits)
  then show ?thesis
    using step MemAbandon inv open_invD(1) [OF inv t] by (auto simp: open_inv_def close_change_def split: if_splits)
qed (use inv step in \<open>auto simp: open_inv_def split: if_splits\<close>)

lemma owners_inv_step:
  assumes inv: "open_inv S" "owners_inv S" and step: "mem_step dflt key S ev = Some S'"
  shows "owners_inv S'"
proof (cases ev)
  case (MemBegin input ctx)
  from step [unfolded MemBegin] show ?thesis
  proof (cases rule: mem_step_beginE)
    case (started k)
    then show ?thesis
      using inv(2) by (auto simp: owners_inv_def forget_def fresh_entry_at split: if_splits)
  qed (use inv in simp)
next
  case (MemCommit k uses orphans)
  then obtain t v where t: "ms_open S k = Some (t, v)" and orph: "set orphans \<subseteq> ms_orphans S"
    using step by (auto split: option.splits if_splits)
  let ?r = "map_option (\<lambda>us. handle_state dflt us v) uses"
  let ?m = "snd (mem_commit (\<lambda>t. t \<in> set orphans) t ?r (ms_store S))"
  have key: "tx_key t = k" by (rule open_invD(1) [OF inv(1) t])
  have other: "entry_at j ?m = entry_at j (ms_store S)" if "j \<noteq> k" for j
    using that key commit_store(2) [of j t] by (intro entry_at_cong) simp
  show ?thesis
  proof (cases "?r = None \<or> ?r = Some Unchanged")
    case True
    then have "S' = close_change k t ?m S" and "entry_at j ?m = entry_at j (ms_store S)" for j
      using step MemCommit t orph commit_store(3) [of ?r _ t "ms_store S"]
      by (auto simp: Let_def entry_at_def split: option.splits)
    then show ?thesis using inv(2) by (simp add: owners_inv_def close_change_def)
  next
    case False
    then obtain f where f: "?r = Some f" "f \<noteq> Unchanged" by auto
    then have S': "S' = close_change k t ?m (record_change k t orphans S)"
      using step MemCommit t orph by (auto simp: Let_def split: final.splits)
    have "set (en_owners (entry_at k ?m)) =
        {t \<in> set (en_owners (entry_at k (ms_store S))). t \<notin> set orphans} \<union> set (owner_list (tx_owner t))"
      using commit_entry [OF f, of t "\<lambda>t. t \<in> set orphans" "ms_store S" undefined]
      by (simp add: key update_owners_set)
    with inv(2) orph show ?thesis
      by (auto simp: owners_inv_def S' close_change_def record_change_def other)
  qed
next
  case (MemAbandon k)
  then obtain t where "S' = close_change k t (mem_release t (ms_store S)) S"
    using step by (auto split: option.splits)
  then show ?thesis using inv(2) by (simp add: owners_inv_def close_change_def)
next
  case (MemCancel t)
  then have "S' = S\<lparr>ms_tokens := token_cancel t (ms_tokens S)\<rparr>" using step by (simp split: if_splits)
  then show ?thesis using inv(2) by (simp add: owners_inv_def)
next
  case (MemOrphan t)
  then have "S' = S\<lparr>ms_orphans := insert t (ms_orphans S)\<rparr>" using step by (simp split: if_splits)
  then show ?thesis using inv(2) by (simp add: owners_inv_def)
qed

interpretation memory: invariant_system mem_init "mem_step dflt key" mem_inv
proof unfold_locales
  fix S :: "'a mem_sys"
  assume "mem_init S"
  then show "mem_inv S" by (simp add: mem_init_def mem_sys_new_def mem_inv_def open_inv_def owners_inv_def)
next
  fix S S' :: "'a mem_sys" and ev
  assume "mem_inv S" "mem_step dflt key S ev = Some S'"
  then show "mem_inv S'" by (auto simp: mem_inv_def intro: open_inv_step owners_inv_step)
qed

section \<open>Properties\<close>

definition mem_view :: "'a mem_sys \<Rightarrow> bytes \<Rightarrow> 'a option" where
  "mem_view S k = mem_get (ms_tokens S) k (ms_store S)"

lemma mem_view_entry:
  "mem_view S k =
     (if is_stale (ms_tokens S) (entry_at k (ms_store S)) then None
      else en_value (entry_at k (ms_store S)))"
  by (simp add: mem_view_def mem_get_def entry_at_def split: option.splits)

lemma mem_view_cong:
  "entry_at k (ms_store S') = entry_at k (ms_store S) \<Longrightarrow> ms_tokens S' = ms_tokens S \<Longrightarrow>
   mem_view S' k = mem_view S k"
  by (simp add: mem_view_entry)

































end
