(* ===== verification/Handlers.thy ===== *)
theory Handlers
  imports State_Store Config Runtime
begin

text \<open>
  What a subscription is built from: the builder of \<^verbatim>\<open>src/subscription/builder.rs\<close> and the handler
  shapes of \<^verbatim>\<open>src/subscription/handler.rs\<close>. A handler takes the received record or its value,
  returns the sink's output or a plain value, and may take state; each of the eight shapes builds a
  subscription with the handler of the pipeline, its distribution and its first middleware.

  The traits of \<^verbatim>\<open>src/record.rs\<close> (\<open>value\<close>, \<open>publish\<close>, the inheriting middleware), the user's
  handler and the state store are parameters.
\<close>

section \<open>The builder\<close>

record ('w, 'm, 'i, 'o) subscription =
  su_name :: string
  su_handler :: "'i \<Rightarrow> state_context option \<Rightarrow> ('w, ('w, 'o) handler_outcome hresult) ext"
  su_transactional :: bool
  su_stateful :: bool
  su_middleware :: "('w, 'i, 'o) middleware list"
  su_distributor :: "('m, 'i) distributor"
  su_has_dlq :: bool
  su_config :: subscription_config

definition with_handler ::
  "(ordering_key \<Rightarrow> lane) \<Rightarrow> ('m \<Rightarrow> ordering_key option) \<Rightarrow> string \<Rightarrow> bool \<Rightarrow>
   ('i \<Rightarrow> state_context option \<Rightarrow> ('w, ('w, 'o) handler_outcome hresult) ext) \<Rightarrow>
   ('w, 'm, 'i, 'o) subscription" where
  "with_handler hash okey name stateful handler =
     \<lparr>su_name = name, su_handler = handler, su_transactional = False, su_stateful = stateful,
      su_middleware = [], su_distributor = distributor_new hash (source_order okey),
      su_has_dlq = False, su_config = default_config\<rparr>"

definition distribute_by ::
  "('m, 'i) distributor option \<Rightarrow> ('w, 'm, 'i, 'o) subscription \<Rightarrow> ('w, 'm, 'i, 'o) subscription" where
  "distribute_by d s = (case d of Some d \<Rightarrow> s\<lparr>su_distributor := d\<rparr> | None \<Rightarrow> s)"

definition with_distribution ::
  "('k \<Rightarrow> lane) \<Rightarrow> ('m, 'i, 'k) distribution \<Rightarrow> ('w, 'm, 'i, 'o) subscription \<Rightarrow>
   ('w, 'm, 'i, 'o) subscription" where
  "with_distribution hash d s = s\<lparr>su_distributor := distributor_new hash d\<rparr>"

definition add_middleware ::
  "('w, 'i, 'o) middleware \<Rightarrow> ('w, 'm, 'i, 'o) subscription \<Rightarrow> ('w, 'm, 'i, 'o) subscription" where
  "add_middleware mw s = s\<lparr>su_middleware := su_middleware s @ [mw]\<rparr>"

definition make_transactional ::
  "('w, 'm, 'i, 'o) subscription \<Rightarrow> ('w, 'm, 'i, 'o) subscription" where
  "make_transactional s = s\<lparr>su_transactional := True\<rparr>"

definition set_dead_letter ::
  "('w, 'm, 'i, 'o) subscription \<Rightarrow> ('w, 'm, 'i, 'o) subscription" where
  "set_dead_letter s = s\<lparr>su_has_dlq := True\<rparr>"

definition set_concurrency :: "usize \<Rightarrow> ('w, 'm, 'i, 'o) subscription \<Rightarrow> ('w, 'm, 'i, 'o) subscription" where
  "set_concurrency n s = s\<lparr>su_config := (su_config s)\<lparr>sc_concurrency := n\<rparr>\<rparr>"

definition set_max_in_flight :: "usize \<Rightarrow> ('w, 'm, 'i, 'o) subscription \<Rightarrow> ('w, 'm, 'i, 'o) subscription" where
  "set_max_in_flight n s = s\<lparr>su_config := (su_config s)\<lparr>sc_max_in_flight := n\<rparr>\<rparr>"

definition set_max_in_flight_per_key ::
  "usize \<Rightarrow> ('w, 'm, 'i, 'o) subscription \<Rightarrow> ('w, 'm, 'i, 'o) subscription" where
  "set_max_in_flight_per_key n s = s\<lparr>su_config := (su_config s)\<lparr>sc_max_in_flight_per_key := Some n\<rparr>\<rparr>"

definition set_handler_retry ::
  "retry_policy \<Rightarrow> ('w, 'm, 'i, 'o) subscription \<Rightarrow> ('w, 'm, 'i, 'o) subscription" where
  "set_handler_retry p s = s\<lparr>su_config := (su_config s)\<lparr>sc_handler_retry := p\<rparr>\<rparr>"

definition set_receive_retry ::
  "retry_policy \<Rightarrow> ('w, 'm, 'i, 'o) subscription \<Rightarrow> ('w, 'm, 'i, 'o) subscription" where
  "set_receive_retry p s = s\<lparr>su_config := (su_config s)\<lparr>sc_receive_retry := p\<rparr>\<rparr>"

definition set_publish_retry ::
  "retry_policy \<Rightarrow> ('w, 'm, 'i, 'o) subscription \<Rightarrow> ('w, 'm, 'i, 'o) subscription" where
  "set_publish_retry p s = s\<lparr>su_config := (su_config s)\<lparr>sc_publish_retry := p\<rparr>\<rparr>"

definition set_dead_letter_retry ::
  "retry_policy \<Rightarrow> ('w, 'm, 'i, 'o) subscription \<Rightarrow> ('w, 'm, 'i, 'o) subscription" where
  "set_dead_letter_retry p s = s\<lparr>su_config := (su_config s)\<lparr>sc_dead_letter_retry := p\<rparr>\<rparr>"

definition set_error_policy ::
  "error_policy \<Rightarrow> ('w, 'm, 'i, 'o) subscription \<Rightarrow> ('w, 'm, 'i, 'o) subscription" where
  "set_error_policy p s = s\<lparr>su_config := (su_config s)\<lparr>sc_error_policy := p\<rparr>\<rparr>"

definition set_drain_timeout ::
  "duration \<Rightarrow> ('w, 'm, 'i, 'o) subscription \<Rightarrow> ('w, 'm, 'i, 'o) subscription" where
  "set_drain_timeout d s = s\<lparr>su_config := (su_config s)\<lparr>sc_drain_timeout := d\<rparr>\<rparr>"

definition set_stall_timeout ::
  "duration \<Rightarrow> ('w, 'm, 'i, 'o) subscription \<Rightarrow> ('w, 'm, 'i, 'o) subscription" where
  "set_stall_timeout d s = s\<lparr>su_config := (su_config s)\<lparr>sc_stall_timeout := Some d\<rparr>\<rparr>"

definition set_transaction_batch ::
  "transaction_batch \<Rightarrow> ('w, 'm, 'i, 'o) subscription \<Rightarrow> ('w, 'm, 'i, 'o) subscription" where
  "set_transaction_batch b s = s\<lparr>su_config := (su_config s)\<lparr>sc_transaction_batch := b\<rparr>\<rparr>"

definition validate :: "('w, 'm, 'i, 'o) subscription \<Rightarrow> error + unit" where
  "validate s =
     subscription_validate (su_name s) (su_config s) (su_transactional s) (su_stateful s)
       (dr_keeps_source_order (su_distributor s)) (su_has_dlq s)"

section \<open>Handler shapes\<close>

text \<open>\<^verbatim>\<open>Cardinality::emit\<close> for one output and for many.\<close>

definition emit_one :: "'r \<Rightarrow> 'r emit" where
  "emit_one r = EmitOne r"

definition emit_many :: "'o emit \<Rightarrow> 'o emit" where
  "emit_many outs = outs"

text \<open>\<^verbatim>\<open>publish\<close>: every value output in the platform's publish record.\<close>

definition publish_outputs :: "('u \<Rightarrow> 'o) \<Rightarrow> 'u emit \<Rightarrow> 'o emit" where
  "publish_outputs publish outs = emit_map publish outs"

definition run_stateless ::
  "('v \<Rightarrow> ('w, 'r hresult) ext) \<Rightarrow> ('r \<Rightarrow> 'o emit) \<Rightarrow> 'v \<Rightarrow>
   ('w, ('w, 'o) handler_outcome hresult) ext" where
  "run_stateless h emit input w =
     (case h input w of
        (Inl e, w1) \<Rightarrow> (Inl e, w1)
      | (Inr r, w1) \<Rightarrow> (Inr (outcome_stateless (emit r)), w1))"

text \<open>
  A \<^verbatim>\<open>StateStore\<close> as the runtime calls it: the key when it is keyed, \<open>begin\<close>, \<open>commit\<close>, and what
  dropping a transaction does.
\<close>

record ('w, 'i, 's, 't) store_ops =
  so_key :: "'i state_key option"
  so_begin :: "'i \<Rightarrow> state_context \<Rightarrow> ('w, ('s, 't) begun hresult) ext"
  so_commit :: "'t \<Rightarrow> 'w commit"
  so_drop :: "'t \<Rightarrow> 'w \<Rightarrow> 'w"

definition run_stateful ::
  "('w, 'v, 's, 't) store_ops \<Rightarrow> ('v \<Rightarrow> 's \<Rightarrow> ('w, 'r hresult) ext) \<Rightarrow> ('r \<Rightarrow> 'o emit) \<Rightarrow>
   'v \<Rightarrow> state_context option \<Rightarrow> ('w, ('w, 'o) handler_outcome hresult) ext" where
  "run_stateful store h emit input context w =
     (case context of
        None \<Rightarrow> (Inl (HFatal (Foreign ''a stateful handler ran without its context'' None)), w)
      | Some context \<Rightarrow>
          (case so_begin store input context w of
             (Inl e, w1) \<Rightarrow> (Inl e, w1)
           | (Inr BeginApplied, w1) \<Rightarrow> (Inr (outcome_stateless EmitNone), w1)
           | (Inr (BeginReady state txn), w1) \<Rightarrow>
               (case h input state w1 of
                  (Inl e, w2) \<Rightarrow> (Inl e, so_drop store txn w2)
                | (Inr r, w2) \<Rightarrow>
                    (Inr \<lparr>ho_outputs = emit r, ho_commit = Some (so_commit store txn)\<rparr>, w2))))"

text \<open>\<^verbatim>\<open>record.value()?\<close> before the handler, for value-only handlers.\<close>

definition with_value ::
  "('i \<Rightarrow> 'v hresult) \<Rightarrow> ('v \<Rightarrow> ('w, 'a hresult) ext) \<Rightarrow> 'i \<Rightarrow> ('w, 'a hresult) ext" where
  "with_value value h record w = (case value record of Inl e \<Rightarrow> (Inl e, w) | Inr v \<Rightarrow> h v w)"

text \<open>\<^verbatim>\<open>KeyOf::key\<close>: the state key, when the store has keys and reports one.\<close>

definition key_of :: "'v state_key \<Rightarrow> 'v \<Rightarrow> state_context \<Rightarrow> bytes option" where
  "key_of key input context = (case key input context of Inl _ \<Rightarrow> None | Inr k \<Rightarrow> Some k)"

definition by_record_key ::
  "(bytes \<Rightarrow> lane) \<Rightarrow> (string \<Rightarrow> 'm \<Rightarrow> state_context) \<Rightarrow> ('w, 'i, 's, 't) store_ops \<Rightarrow> string \<Rightarrow>
   ('m, 'i) distributor option" where
  "by_record_key hash ctx_of store name =
     (case so_key store of
        None \<Rightarrow> None
      | Some key \<Rightarrow>
          Some (distributor_by_key hash (\<lambda>message record. key_of key record (ctx_of name message))))"

definition by_value_key ::
  "(bytes \<Rightarrow> lane) \<Rightarrow> (string \<Rightarrow> 'm \<Rightarrow> state_context) \<Rightarrow> ('i \<Rightarrow> 'v hresult) \<Rightarrow>
   ('w, 'v, 's, 't) store_ops \<Rightarrow> string \<Rightarrow> ('m, 'i) distributor option" where
  "by_value_key hash ctx_of value store name =
     (case so_key store of
        None \<Rightarrow> None
      | Some key \<Rightarrow>
          Some (distributor_by_key hash (\<lambda>message record.
            case value record of
              Inl _ \<Rightarrow> None
            | Inr v \<Rightarrow> key_of key v (ctx_of name message))))"

text \<open>The platform of a source: what its messages and records provide.\<close>

record ('w, 'm, 'i, 'v, 'u, 'o) platform =
  pf_hash :: "ordering_key \<Rightarrow> lane"
  pf_key_hash :: "bytes \<Rightarrow> lane"
  pf_ordering_key :: "'m \<Rightarrow> ordering_key option"
  pf_context_of :: "string \<Rightarrow> 'm \<Rightarrow> state_context"
  pf_value :: "'i \<Rightarrow> 'v hresult"
  pf_publish :: "'u \<Rightarrow> 'o"
  pf_inherit :: "('w, 'i, 'o) middleware"

definition into_record_record ::
  "('w, 'm, 'i, 'v, 'u, 'o) platform \<Rightarrow> ('i \<Rightarrow> ('w, 'r hresult) ext) \<Rightarrow> ('r \<Rightarrow> 'o emit) \<Rightarrow> string \<Rightarrow>
   ('w, 'm, 'i, 'o) subscription" where
  "into_record_record pf h emit name =
     with_handler (pf_hash pf) (pf_ordering_key pf) name False
       (\<lambda>input _. run_stateless h emit input)"

definition into_value_record ::
  "('w, 'm, 'i, 'v, 'u, 'o) platform \<Rightarrow> ('v \<Rightarrow> ('w, 'r hresult) ext) \<Rightarrow> ('r \<Rightarrow> 'o emit) \<Rightarrow> string \<Rightarrow>
   ('w, 'm, 'i, 'o) subscription" where
  "into_value_record pf h emit name =
     with_handler (pf_hash pf) (pf_ordering_key pf) name False
       (\<lambda>record _. with_value (pf_value pf) (run_stateless h emit) record)"

definition into_record_value ::
  "('w, 'm, 'i, 'v, 'u, 'o) platform \<Rightarrow> ('i \<Rightarrow> ('w, 'r hresult) ext) \<Rightarrow> ('r \<Rightarrow> 'u emit) \<Rightarrow> string \<Rightarrow>
   ('w, 'm, 'i, 'o) subscription" where
  "into_record_value pf h emit name =
     add_middleware (pf_inherit pf)
       (with_handler (pf_hash pf) (pf_ordering_key pf) name False
          (\<lambda>input _. run_stateless h (\<lambda>r. publish_outputs (pf_publish pf) (emit r)) input))"

definition into_value_value ::
  "('w, 'm, 'i, 'v, 'u, 'o) platform \<Rightarrow> ('v \<Rightarrow> ('w, 'r hresult) ext) \<Rightarrow> ('r \<Rightarrow> 'u emit) \<Rightarrow> string \<Rightarrow>
   ('w, 'm, 'i, 'o) subscription" where
  "into_value_value pf h emit name =
     add_middleware (pf_inherit pf)
       (with_handler (pf_hash pf) (pf_ordering_key pf) name False
          (\<lambda>record _. with_value (pf_value pf)
             (run_stateless h (\<lambda>r. publish_outputs (pf_publish pf) (emit r))) record))"

definition into_stateful_record_record ::
  "('w, 'm, 'i, 'v, 'u, 'o) platform \<Rightarrow> ('w, 'i, 's, 't) store_ops \<Rightarrow>
   ('i \<Rightarrow> 's \<Rightarrow> ('w, 'r hresult) ext) \<Rightarrow> ('r \<Rightarrow> 'o emit) \<Rightarrow> string \<Rightarrow>
   ('w, 'm, 'i, 'o) subscription" where
  "into_stateful_record_record pf store h emit name =
     distribute_by (by_record_key (pf_key_hash pf) (pf_context_of pf) store name)
       (with_handler (pf_hash pf) (pf_ordering_key pf) name True
          (\<lambda>input context. run_stateful store h emit input context))"

definition into_stateful_value_record ::
  "('w, 'm, 'i, 'v, 'u, 'o) platform \<Rightarrow> ('w, 'v, 's, 't) store_ops \<Rightarrow>
   ('v \<Rightarrow> 's \<Rightarrow> ('w, 'r hresult) ext) \<Rightarrow> ('r \<Rightarrow> 'o emit) \<Rightarrow> string \<Rightarrow>
   ('w, 'm, 'i, 'o) subscription" where
  "into_stateful_value_record pf store h emit name =
     distribute_by (by_value_key (pf_key_hash pf) (pf_context_of pf) (pf_value pf) store name)
       (with_handler (pf_hash pf) (pf_ordering_key pf) name True
          (\<lambda>record context.
             with_value (pf_value pf) (\<lambda>v. run_stateful store h emit v context) record))"

definition into_stateful_record_value ::
  "('w, 'm, 'i, 'v, 'u, 'o) platform \<Rightarrow> ('w, 'i, 's, 't) store_ops \<Rightarrow>
   ('i \<Rightarrow> 's \<Rightarrow> ('w, 'r hresult) ext) \<Rightarrow> ('r \<Rightarrow> 'u emit) \<Rightarrow> string \<Rightarrow>
   ('w, 'm, 'i, 'o) subscription" where
  "into_stateful_record_value pf store h emit name =
     add_middleware (pf_inherit pf)
       (distribute_by (by_record_key (pf_key_hash pf) (pf_context_of pf) store name)
          (with_handler (pf_hash pf) (pf_ordering_key pf) name True
             (\<lambda>input context. run_stateful store h
                (\<lambda>r. publish_outputs (pf_publish pf) (emit r)) input context)))"

definition into_stateful_value_value ::
  "('w, 'm, 'i, 'v, 'u, 'o) platform \<Rightarrow> ('w, 'v, 's, 't) store_ops \<Rightarrow>
   ('v \<Rightarrow> 's \<Rightarrow> ('w, 'r hresult) ext) \<Rightarrow> ('r \<Rightarrow> 'u emit) \<Rightarrow> string \<Rightarrow>
   ('w, 'm, 'i, 'o) subscription" where
  "into_stateful_value_value pf store h emit name =
     add_middleware (pf_inherit pf)
       (distribute_by (by_value_key (pf_key_hash pf) (pf_context_of pf) (pf_value pf) store name)
          (with_handler (pf_hash pf) (pf_ordering_key pf) name True
             (\<lambda>record context. with_value (pf_value pf)
                (\<lambda>v. run_stateful store h
                   (\<lambda>r. publish_outputs (pf_publish pf) (emit r)) v context) record)))"

section \<open>Deliveries with one state key take turns\<close>

text \<open>The state key a store reports for a decoded delivery, for handlers that take the record or its value.\<close>

definition record_state_key ::
  "('w, 'm, 'i, 'v, 'u, 'o) platform \<Rightarrow> string \<Rightarrow> 'i state_key \<Rightarrow> ('m, 'i) job \<Rightarrow> bytes option" where
  "record_state_key pf name key x =
     (case de_value (snd x) of
        Inl _ \<Rightarrow> None
      | Inr i \<Rightarrow> key_of key i (pf_context_of pf name (de_delivery (snd x))))"

definition value_state_key ::
  "('w, 'm, 'i, 'v, 'u, 'o) platform \<Rightarrow> string \<Rightarrow> 'v state_key \<Rightarrow> ('m, 'i) job \<Rightarrow> bytes option" where
  "value_state_key pf name key x =
     (case de_value (snd x) of
        Inl _ \<Rightarrow> None
      | Inr i \<Rightarrow>
          (case pf_value pf i of
             Inl _ \<Rightarrow> None
           | Inr v \<Rightarrow> key_of key v (pf_context_of pf name (de_delivery (snd x)))))"

text \<open>
  A distributor follows a key of the deliveries when the key alone decides the lane.
\<close>

definition follows_key ::
  "(bytes \<Rightarrow> lane) \<Rightarrow> (('m, 'i) job \<Rightarrow> bytes option) \<Rightarrow> ('m, 'i) distributor \<Rightarrow> bool" where
  "follows_key hash skey d \<longleftrightarrow>
     (\<forall>x. (case de_value (snd x) of Inl _ \<Rightarrow> None | Inr i \<Rightarrow> dr_lane d (de_delivery (snd x)) i)
        = map_option hash (skey x))"

lemma stateful_record_follows:
  assumes "so_key store = Some key"
  shows "follows_key (pf_key_hash pf) (record_state_key pf name key)
      (su_distributor (into_stateful_record_record pf store h emit name))"
    "follows_key (pf_key_hash pf) (record_state_key pf name key)
      (su_distributor (into_stateful_record_value pf store h uemit name))"
  using assms
  by (simp_all add: follows_key_def record_state_key_def into_stateful_record_record_def
      into_stateful_record_value_def add_middleware_def distribute_by_def by_record_key_def
      distributor_by_key_def split: sum.splits)

lemma stateful_value_follows:
  assumes "so_key store = Some key"
  shows "follows_key (pf_key_hash pf) (value_state_key pf name key)
      (su_distributor (into_stateful_value_record pf store h emit name))"
    "follows_key (pf_key_hash pf) (value_state_key pf name key)
      (su_distributor (into_stateful_value_value pf store h uemit name))"
  using assms
  by (simp_all add: follows_key_def value_state_key_def into_stateful_value_record_def
      into_stateful_value_value_def add_middleware_def distribute_by_def by_value_key_def
      distributor_by_key_def split: sum.splits)

lemma follows_key_lane:
  assumes "follows_key hash skey (wk_distributor wk)" "skey x = Some k"
    "tk_lane (fst x) = decoded_lane wk (snd x)"
  shows "on_lane (hash k) x"
proof -
  have "decoded_lane wk (snd x) = map_option hash (skey x)"
    using assms(1) unfolding follows_key_def decoded_lane_def by blast
  then show ?thesis using assms(2,3) by (simp add: on_lane_def)
qed

lemma filter_lane:
  assumes "\<And>x. x \<in> set xs \<Longrightarrow> P x \<Longrightarrow> on_lane l x"
  shows "filter P (lane_of l xs) = filter P xs"
  using assms by (induction xs) auto

lemma pushed_lane:
  assumes "rt_reach wk R" "follows_key hash skey (wk_distributor wk)"
    "x \<in> set (rt_pushed R)" "skey x = Some k"
  shows "on_lane (hash k) x"
proof -
  from runtime.reach_inv [OF assms(1)] have "history_inv wk R"
    by (auto simp: rt_inv_def elim: core_obtain)
  then have "tk_lane (fst x) = decoded_lane wk (snd x)"
    using assms(3) by (simp add: history_inv_def)
  then show ?thesis by (rule follows_key_lane [OF assms(2,4)])
qed

lemma received_in_order:
  assumes "rt_reach wk R"
  shows "prefix (map (\<lambda>x. de_delivery (snd x)) (rt_pushed R)) (rt_received R)"
  using runtime.reach_inv [OF assms]
  by (auto simp: rt_inv_def history_inv_def pushed_up_def elim: core_obtain)

lemma rt_from_pushed:
  assumes "rt_sim R S" "x \<in> set (rt_completed R) \<union> set (rt_jobs R @ rt_failed R)"
  shows "x \<in> set (rt_pushed R)"
proof -
  note sim = rt_simD [OF assms(1)]
  have "set (running S) = set (rt_jobs R @ rt_failed R)"
    using arg_cong [OF sim(4), of set_mset] by simp
  then have "x \<in> set (completed S) \<or> x \<in> set (running S)" using assms(2) sim(6) by simp
  then have "x \<in> set (pushed S)" using sched_reachD(7) [OF sim(1)] by (cases x) (auto simp: from_pushed_def)
  then show ?thesis by (simp add: sim(5))
qed

lemma filter_prefix: "prefix xs ys \<Longrightarrow> prefix (filter P xs) (filter P ys)"
  by (auto simp: prefix_def)

lemma keyed_serial:
  fixes skey :: "('m, 'i) job \<Rightarrow> bytes option" and k :: bytes
  assumes reach: "rt_reach wk R" and follows: "follows_key hash skey (wk_distributor wk)"
  defines "P \<equiv> \<lambda>x. skey x = Some k"
  shows "prefix (filter P (rt_completed R) @ filter P (rt_jobs R @ rt_failed R)) (filter P (rt_pushed R))"
    and "length (filter P (rt_jobs R @ rt_failed R)) \<le> 1"
proof -
  from runtime.reach_inv [OF reach] obtain S where S: "rt_sim R S"
    by (auto simp: rt_inv_def elim: core_obtain)
  let ?l = "lane_of (hash k)"
  have lane: "on_lane (hash k) x" if "x \<in> set (rt_pushed R)" "P x" for x
    using pushed_lane [OF reach follows that(1)] that(2) by (simp add: P_def)
  have completed: "filter P (?l (rt_completed R)) = filter P (rt_completed R)"
    by (rule filter_lane) (blast intro: lane rt_from_pushed [OF S])
  have run: "filter P (?l (rt_jobs R @ rt_failed R)) = filter P (rt_jobs R @ rt_failed R)"
    by (rule filter_lane) (blast intro: lane rt_from_pushed [OF S])
  have "filter P (?l (rt_pushed R)) = filter P (rt_pushed R)"
    by (rule filter_lane) (rule lane)
  with filter_prefix [OF lane_order_sim(2) [OF S, of "hash k"], of P]
  show "prefix (filter P (rt_completed R) @ filter P (rt_jobs R @ rt_failed R)) (filter P (rt_pushed R))"
    unfolding filter_append [of P "?l _"] completed run by simp
  have "length (filter P (?l (rt_jobs R @ rt_failed R))) \<le> 1"
    by (rule order_trans [OF length_filter_le lane_order_sim(1) [OF S, of "hash k"]])
  then show "length (filter P (rt_jobs R @ rt_failed R)) \<le> 1" unfolding run .
qed

text \<open>
  C14. Deliveries with one state key take turns: in a subscription whose value handler keeps keyed
  state, the deliveries are handed over in the order the source gave them out; what has completed
  under a key followed by what runs or has failed under it is a prefix of the deliveries handed over
  with that key, and at most one of them runs or has failed. So the handler never sees two deliveries
  of one key at a time, or one received later before one received earlier.
\<close>

theorem state_key_serial:
  assumes "rt_reach wk R" "so_key store = Some key"
    "wk_distributor wk = su_distributor (into_stateful_value_value pf store h emit name)"
  shows "prefix (map (\<lambda>x. de_delivery (snd x)) (rt_pushed R)) (rt_received R)
    \<and> prefix
      (filter (\<lambda>x. value_state_key pf name key x = Some k) (rt_completed R)
        @ filter (\<lambda>x. value_state_key pf name key x = Some k) (rt_jobs R @ rt_failed R))
      (filter (\<lambda>x. value_state_key pf name key x = Some k) (rt_pushed R))
    \<and> length (filter (\<lambda>x. value_state_key pf name key x = Some k) (rt_jobs R @ rt_failed R)) \<le> 1"
proof -
  have "follows_key (pf_key_hash pf) (value_state_key pf name key) (wk_distributor wk)"
    unfolding assms(3) by (rule stateful_value_follows(2) [OF assms(2)])
  from keyed_serial [OF assms(1) this] received_in_order [OF assms(1)] show ?thesis by blast
qed

text \<open>A counter kept per input value, on the subscription of the earlier runs.\<close>

definition ex_platform :: "(nat, nat, nat, nat, nat, nat) platform" where
  "ex_platform =
     \<lparr>pf_hash = (\<lambda>_. 7), pf_key_hash = (\<lambda>_. 7), pf_ordering_key = (\<lambda>_. None),
      pf_context_of = context_of (\<lambda>_. None) (\<lambda>_. None) (\<lambda>_. None),
      pf_value = Inr, pf_publish = id,
      pf_inherit = default_middleware\<rparr>"

definition ex_ops :: "(nat, nat, nat, unit) store_ops" where
  "ex_ops =
     \<lparr>so_key = Some (input_key (\<lambda>v. [word_of_nat v])), so_begin = (\<lambda>v c w. (Inr (BeginReady w ()), w)),
      so_commit = (\<lambda>_ w. (Inr (), Suc w)), so_drop = (\<lambda>_ w. w)\<rparr>"

lemma ex_worker_keyed:
  "wk_distributor ex_worker =
     su_distributor (into_stateful_value_value ex_platform ex_ops (\<lambda>v s w. (Inr (v + s), w)) emit_one ''orders'')"
  by (simp add: ex_worker_def into_stateful_value_value_def add_middleware_def distribute_by_def by_value_key_def
      ex_ops_def ex_platform_def input_key_def key_of_def distributor_by_key_def)

theorem state_key_serial_witness:
  "\<exists>R. rt_reach ex_worker R \<and> rt_received R = [1, 2] \<and>
     prefix (map (\<lambda>x. de_delivery (snd x)) (rt_pushed R)) [1, 2] \<and>
     prefix
      (filter (\<lambda>x. value_state_key ex_platform ''orders'' (input_key (\<lambda>v. [word_of_nat v])) x = Some [20])
          (rt_completed R)
        @ filter (\<lambda>x. value_state_key ex_platform ''orders'' (input_key (\<lambda>v. [word_of_nat v])) x = Some [20])
            (rt_jobs R @ rt_failed R))
      (filter (\<lambda>x. value_state_key ex_platform ''orders'' (input_key (\<lambda>v. [word_of_nat v])) x = Some [20])
        (rt_pushed R))"
proof (rule ex_obtain [OF ex_lane_run])
  fix R assume R: "rt_reach ex_worker R"
    "rt_received R = [1, 2] \<and> map (\<lambda>x. de_delivery (snd x)) (rt_completed R) = [1]
      \<and> map (\<lambda>x. de_delivery (snd x)) (rt_jobs R) = [2] \<and> rt_phase R = Receiving"
  have "so_key ex_ops = Some (input_key (\<lambda>v. [word_of_nat v]))" by (simp add: ex_ops_def)
  from state_key_serial [OF R(1) this ex_worker_keyed, of "[20]"] R show ?thesis by (intro exI [of _ R]) simp
qed

end
