(* ===== verification/Health.thy ===== *)
theory Health
  imports Tokens
begin

text \<open>
  The health state of \<^verbatim>\<open>src/health/state.rs\<close>: the tracker each subscription runtime updates, the
  registry, and the report a probe reads. Atomics are cells of the tracker at their width: the status
  is the discriminant byte the code stores, the count of publication retries wraps, and the time of
  the last progress is a 64-bit number of milliseconds. Instants and durations are nanoseconds.

  A probe reads the trackers while the runtimes update them, so the operations are the steps of a
  system with a clock: what a report says holds after any interleaving of them. A report is one step,
  so it describes the cells at one instant. What a source's probe
  answers is a parameter of the report.
\<close>

datatype subscription_status = StPending | StRunning | StStopping | StStopped | StFailed

text \<open>The discriminant stored in the atomic, and \<^verbatim>\<open>SubscriptionStatus::ALL\<close>.\<close>

definition status_code :: "subscription_status \<Rightarrow> 8 word" where
  "status_code s =
     (case s of StPending \<Rightarrow> 0 | StRunning \<Rightarrow> 1 | StStopping \<Rightarrow> 2 | StStopped \<Rightarrow> 3 | StFailed \<Rightarrow> 4)"

definition status_all :: "subscription_status list" where
  "status_all = [StPending, StRunning, StStopping, StStopped, StFailed]"

text \<open>Indexing \<^verbatim>\<open>ALL\<close> panics out of range, which is \<open>None\<close>.\<close>

definition status_of_code :: "8 word \<Rightarrow> subscription_status option" where
  "status_of_code c = (if unat c < length status_all then Some (status_all ! unat c) else None)"

lemma status_of_code_code [simp]: "status_of_code (status_code s) = Some s"
  by (cases s) (simp_all add: status_of_code_def status_code_def status_all_def)

record subscription_report =
  sr_name :: string
  sr_status :: subscription_status
  sr_receive_failures :: usize
  sr_receive_backoff :: bool
  sr_publish_retries :: u64
  sr_connected :: "bool option"
  sr_stalled :: bool
  sr_ready :: bool

record health_report =
  hr_live :: bool
  hr_ready :: bool
  hr_shutting_down :: bool
  hr_subscriptions :: "subscription_report list"

record 'p tracker_run =
  tn_probe :: "'p option"
  tn_stall_timeout :: "duration option"

record 'p tracker =
  tr_name :: string
  tr_status :: "8 word"
  tr_receive_failures :: usize
  tr_receive_backoff :: bool
  tr_publish_retries :: u64
  tr_in_flight :: usize
  tr_epoch :: nat
  tr_last_progress :: u64
  tr_run :: "'p tracker_run option"

record 'p health =
  he_subscriptions :: "'p tracker list"
  he_shutdown :: "token option"

section \<open>The tracker\<close>

definition tracker_new :: "string \<Rightarrow> nat \<Rightarrow> 'p tracker" where
  "tracker_new name now =
     \<lparr>tr_name = name, tr_status = status_code StPending, tr_receive_failures = 0,
      tr_receive_backoff = False, tr_publish_retries = 0, tr_in_flight = 0, tr_epoch = now,
      tr_last_progress = 0, tr_run = None\<rparr>"

text \<open>\<^verbatim>\<open>u64::try_from(elapsed).unwrap_or(u64::MAX)\<close> of the elapsed milliseconds.\<close>

definition saturating_millis :: "nat \<Rightarrow> u64" where
  "saturating_millis elapsed = word_of_nat (min (elapsed div millisecond) (2 ^ 64 - 1))"

definition progressed :: "nat \<Rightarrow> 'p tracker \<Rightarrow> 'p tracker" where
  "progressed now t = t\<lparr>tr_last_progress := saturating_millis (now - tr_epoch t)\<rparr>"

definition set_status :: "subscription_status \<Rightarrow> 'p tracker \<Rightarrow> 'p tracker" where
  "set_status s t = t\<lparr>tr_status := status_code s\<rparr>"

text \<open>\<^verbatim>\<open>OnceLock::set\<close> keeps a value already there.\<close>

definition once_set :: "'a \<Rightarrow> 'a option \<Rightarrow> 'a option" where
  "once_set x cell = (case cell of None \<Rightarrow> Some x | Some y \<Rightarrow> Some y)"

definition tracker_start :: "'p option \<Rightarrow> duration option \<Rightarrow> nat \<Rightarrow> 'p tracker \<Rightarrow> 'p tracker" where
  "tracker_start probe stall_timeout now t =
     set_status StRunning (progressed now
       (t\<lparr>tr_run := once_set \<lparr>tn_probe = probe, tn_stall_timeout = stall_timeout\<rparr> (tr_run t)\<rparr>))"

definition set_in_flight :: "usize \<Rightarrow> 'p tracker \<Rightarrow> 'p tracker" where
  "set_in_flight n t = t\<lparr>tr_in_flight := n\<rparr>"

definition receive_failed :: "usize \<Rightarrow> 'p tracker \<Rightarrow> 'p tracker" where
  "receive_failed failures t = t\<lparr>tr_receive_failures := failures, tr_receive_backoff := True\<rparr>"

definition receive_resumed :: "'p tracker \<Rightarrow> 'p tracker" where
  "receive_resumed t = t\<lparr>tr_receive_backoff := False\<rparr>"

definition receive_succeeded :: "'p tracker \<Rightarrow> 'p tracker" where
  "receive_succeeded t = t\<lparr>tr_receive_failures := 0\<rparr>"

definition publish_retry :: "'p tracker \<Rightarrow> 'p tracker" where
  "publish_retry t = t\<lparr>tr_publish_retries := tr_publish_retries t + 1\<rparr>"

definition publish_retry_drop :: "'p tracker \<Rightarrow> 'p tracker" where
  "publish_retry_drop t = t\<lparr>tr_publish_retries := tr_publish_retries t - 1\<rparr>"

definition tracker_connected :: "('p \<Rightarrow> bool option) \<Rightarrow> 'p tracker \<Rightarrow> bool option" where
  "tracker_connected connected t =
     (case tr_run t of
        None \<Rightarrow> None
      | Some r \<Rightarrow> (case tn_probe r of None \<Rightarrow> None | Some p \<Rightarrow> connected p))"

text \<open>Whether no step finished for the stall timeout; \<^verbatim>\<open>saturating_duration_since\<close> is subtraction on naturals.\<close>

definition timed_out :: "nat \<Rightarrow> 'p tracker \<Rightarrow> bool" where
  "timed_out now t =
     (case tr_run t of
        None \<Rightarrow> False
      | Some r \<Rightarrow>
          (case tn_stall_timeout r of
             None \<Rightarrow> False
           | Some timeout \<Rightarrow>
               timeout \<le> now - (tr_epoch t + unat (tr_last_progress t) * millisecond)))"

definition report_at ::
  "('p \<Rightarrow> bool option) \<Rightarrow> nat \<Rightarrow> 'p tracker \<Rightarrow> subscription_report option" where
  "report_at connected now t =
     (case status_of_code (tr_status t) of
        None \<Rightarrow> None
      | Some status \<Rightarrow>
          let conn = tracker_connected connected t;
              stalled = (status = StRunning \<or> status = StStopping) \<and> tr_in_flight t > 0 \<and> timed_out now t;
              ready = (case status of
                         StRunning \<Rightarrow> \<not> tr_receive_backoff t \<and> tr_publish_retries t = 0 \<and> conn \<noteq> Some False
                       | StStopped \<Rightarrow> True
                       | _ \<Rightarrow> False)
          in Some \<lparr>sr_name = tr_name t, sr_status = status,
                   sr_receive_failures = tr_receive_failures t,
                   sr_receive_backoff = tr_receive_backoff t,
                   sr_publish_retries = tr_publish_retries t, sr_connected = conn,
                   sr_stalled = stalled, sr_ready = ready\<rparr>)"

section \<open>The registry\<close>

definition health_default :: "'p health" where
  "health_default = \<lparr>he_subscriptions = [], he_shutdown = None\<rparr>"

definition register :: "string \<Rightarrow> nat \<Rightarrow> 'p health \<Rightarrow> 'p health" where
  "register name now h = h\<lparr>he_subscriptions := he_subscriptions h @ [tracker_new name now]\<rparr>"

definition health_start :: "token \<Rightarrow> 'p health \<Rightarrow> 'p health" where
  "health_start shutdown h = h\<lparr>he_shutdown := once_set shutdown (he_shutdown h)\<rparr>"

fun reports :: "('p \<Rightarrow> bool option) \<Rightarrow> nat \<Rightarrow> 'p tracker list \<Rightarrow> subscription_report list option" where
  "reports connected now [] = Some []"
| "reports connected now (t # ts) =
     (case report_at connected now t of
        None \<Rightarrow> None
      | Some r \<Rightarrow> map_option (Cons r) (reports connected now ts))"

definition report ::
  "tokens \<Rightarrow> ('p \<Rightarrow> bool option) \<Rightarrow> nat \<Rightarrow> 'p health \<Rightarrow> health_report option" where
  "report ts connected now h =
     (case reports connected now (he_subscriptions h) of
        None \<Rightarrow> None
      | Some subs \<Rightarrow>
          let shutting_down = (case he_shutdown h of None \<Rightarrow> False | Some s \<Rightarrow> token_is_cancelled ts s)
          in Some \<lparr>hr_live = list_all (\<lambda>s. sr_status s \<noteq> StFailed \<and> \<not> sr_stalled s) subs,
                   hr_ready = (he_shutdown h \<noteq> None \<and> \<not> shutting_down \<and> list_all sr_ready subs),
                   hr_shutting_down = shutting_down, hr_subscriptions = subs\<rparr>)"

definition is_live :: "tokens \<Rightarrow> ('p \<Rightarrow> bool option) \<Rightarrow> nat \<Rightarrow> 'p health \<Rightarrow> bool option" where
  "is_live ts connected now h = map_option hr_live (report ts connected now h)"

definition is_ready :: "tokens \<Rightarrow> ('p \<Rightarrow> bool option) \<Rightarrow> nat \<Rightarrow> 'p health \<Rightarrow> bool option" where
  "is_ready ts connected now h = map_option hr_ready (report ts connected now h)"

section \<open>The probe endpoint\<close>

text \<open>
  \<^verbatim>\<open>respond\<close> of \<^verbatim>\<open>src/health/server.rs\<close>. The JSON encoder of the report is a parameter, which may
  fail; \<open>None\<close> is a panic of the report.
\<close>

record response =
  rs_status :: nat
  rs_headers :: "(string \<times> string) list"
  rs_body :: bytes

definition status_response :: "nat \<Rightarrow> response" where
  "status_response code = \<lparr>rs_status = code, rs_headers = [], rs_body = []\<rparr>"

definition respond ::
  "(health_report \<Rightarrow> bytes option) \<Rightarrow> string \<Rightarrow> string \<Rightarrow> health_report option \<Rightarrow> response option" where
  "respond to_json meth path health_rep =
     (case (if path = ''/livez'' then Some hr_live
            else if path = ''/readyz'' then Some hr_ready else None) of
        None \<Rightarrow> Some (status_response 404)
      | Some probe \<Rightarrow>
          if meth \<noteq> ''GET'' then Some ((status_response 405)\<lparr>rs_headers := [(''allow'', ''GET'')]\<rparr>)
          else case health_rep of
                 None \<Rightarrow> None
               | Some r \<Rightarrow>
                   (case to_json r of
                      None \<Rightarrow> Some (status_response 500)
                    | Some body \<Rightarrow>
                        Some \<lparr>rs_status = (if probe r then 200 else 503),
                              rs_headers = [(''content-type'', ''application/json'')], rs_body = body\<rparr>))"

section \<open>Runtimes update the trackers\<close>

text \<open>
  The registry as the runtimes share it, with the clock, the guards of publications waiting for a
  retry (the index of each guard's tracker), and, to state properties, the instant each tracker last
  recorded progress.
\<close>

record 'p health_sys =
  hs_health :: "'p health"
  hs_now :: nat
  hs_guards :: "nat list"
  hs_progress :: "nat \<Rightarrow> nat"

datatype 'p health_event =
    HsRegister string
  | HsStart token
  | HsRun nat "'p option" "duration option"
  | HsStatus nat subscription_status
  | HsInFlight nat usize
  | HsProgress nat
  | HsReceiveFailed nat usize
  | HsReceiveResumed nat
  | HsReceiveSucceeded nat
  | HsRetry nat
  | HsRetryDrop nat
  | HsTick nat

definition update_tracker ::
  "nat \<Rightarrow> ('p tracker \<Rightarrow> 'p tracker) \<Rightarrow> 'p health_sys \<Rightarrow> 'p health_sys option" where
  "update_tracker i f S =
     (let h = hs_health S; ts = he_subscriptions h in
      if i < length ts
      then Some (S\<lparr>hs_health := h\<lparr>he_subscriptions := ts[i := f (ts ! i)]\<rparr>\<rparr>)
      else None)"

definition mark_progress :: "nat \<Rightarrow> 'p health_sys \<Rightarrow> 'p health_sys" where
  "mark_progress i S = S\<lparr>hs_progress := (hs_progress S)(i := hs_now S)\<rparr>"

fun health_step :: "'p health_sys \<Rightarrow> 'p health_event \<Rightarrow> 'p health_sys option" where
  "health_step S (HsRegister name) =
     Some (mark_progress (length (he_subscriptions (hs_health S)))
       (S\<lparr>hs_health := register name (hs_now S) (hs_health S)\<rparr>))"
| "health_step S (HsStart shutdown) = Some (S\<lparr>hs_health := health_start shutdown (hs_health S)\<rparr>)"
| "health_step S (HsRun i probe timeout) =
     map_option (mark_progress i) (update_tracker i (tracker_start probe timeout (hs_now S)) S)"
| "health_step S (HsStatus i s) = update_tracker i (set_status s) S"
| "health_step S (HsInFlight i n) = update_tracker i (set_in_flight n) S"
| "health_step S (HsProgress i) =
     map_option (mark_progress i) (update_tracker i (progressed (hs_now S)) S)"
| "health_step S (HsReceiveFailed i n) = update_tracker i (receive_failed n) S"
| "health_step S (HsReceiveResumed i) = update_tracker i receive_resumed S"
| "health_step S (HsReceiveSucceeded i) = update_tracker i receive_succeeded S"
| "health_step S (HsRetry i) =
     map_option (\<lambda>S. S\<lparr>hs_guards := i # hs_guards S\<rparr>) (update_tracker i publish_retry S)"
| "health_step S (HsRetryDrop i) =
     (if i \<in> set (hs_guards S)
      then map_option (\<lambda>S. S\<lparr>hs_guards := remove1 i (hs_guards S)\<rparr>) (update_tracker i publish_retry_drop S)
      else None)"
| "health_step S (HsTick d) = Some (S\<lparr>hs_now := hs_now S + d\<rparr>)"

definition health_init :: "'p health_sys \<Rightarrow> bool" where
  "health_init S \<longleftrightarrow> hs_health S = health_default \<and> hs_guards S = []"

abbreviation health_reach :: "'p health_sys \<Rightarrow> bool" where
  "health_reach \<equiv> reach health_init health_step"

text \<open>What a tracker stores, given its guards and the instant of its last progress.\<close>

definition tracker_ok :: "nat \<Rightarrow> nat \<Rightarrow> nat \<Rightarrow> 'p tracker \<Rightarrow> bool" where
  "tracker_ok now retries prog t \<longleftrightarrow>
     (\<exists>s. tr_status t = status_code s) \<and> tr_publish_retries t = word_of_nat retries
     \<and> tr_epoch t \<le> prog \<and> prog \<le> now
     \<and> tr_last_progress t = saturating_millis (prog - tr_epoch t)"

definition health_inv :: "'p health_sys \<Rightarrow> bool" where
  "health_inv S \<longleftrightarrow>
     set (hs_guards S) \<subseteq> {..<length (he_subscriptions (hs_health S))}
     \<and> (\<forall>i < length (he_subscriptions (hs_health S)).
          tracker_ok (hs_now S) (count_list (hs_guards S) i) (hs_progress S i)
            (he_subscriptions (hs_health S) ! i))"

lemmas tracker_ops =
  tracker_start_def set_status_def progressed_def set_in_flight_def receive_failed_def
  receive_resumed_def receive_succeeded_def publish_retry_def publish_retry_drop_def

lemma tracker_ok_new: "tracker_ok now 0 now (tracker_new name now)"
  by (auto simp: tracker_ok_def tracker_new_def saturating_millis_def)

lemma tracker_ok_later: "tracker_ok now n p t \<Longrightarrow> tracker_ok (now + d) n p t"
  by (auto simp: tracker_ok_def)

lemma tracker_ok_ops:
  assumes "tracker_ok now n p t"
  shows "tracker_ok now n now (tracker_start probe timeout now t)" "tracker_ok now n p (set_status s t)"
    "tracker_ok now n p (set_in_flight k t)" "tracker_ok now n now (progressed now t)"
    "tracker_ok now n p (receive_failed k t)" "tracker_ok now n p (receive_resumed t)"
    "tracker_ok now n p (receive_succeeded t)" "tracker_ok now (Suc n) p (publish_retry t)"
  using assms by (auto simp: tracker_ok_def tracker_ops)

lemma tracker_ok_drop:
  assumes "tracker_ok now n p t" "0 < n"
  shows "tracker_ok now (n - Suc 0) p (publish_retry_drop t)"
  using assms by (auto simp: tracker_ok_def publish_retry_drop_def of_nat_diff)

text \<open>The shape of every update: one tracker changes, with its own guard count and progress.\<close>

lemma health_inv_update:
  assumes "health_inv S" "update_tracker i f S = Some S1" "hs_health S' = hs_health S1"
    "hs_now S' = hs_now S" "set (hs_guards S') \<subseteq> insert i (set (hs_guards S))"
    "\<And>j. j \<noteq> i \<Longrightarrow> count_list (hs_guards S') j = count_list (hs_guards S) j
       \<and> hs_progress S' j = hs_progress S j"
    "\<And>t. tracker_ok (hs_now S) (count_list (hs_guards S) i) (hs_progress S i) t \<Longrightarrow>
       tracker_ok (hs_now S) (count_list (hs_guards S') i) (hs_progress S' i) (f t)"
  shows "health_inv S'"
proof -
  let ?ts = "he_subscriptions (hs_health S)"
  have i: "i < length ?ts"
    and ts: "he_subscriptions (hs_health S') = ?ts[i := f (?ts ! i)]"
    using assms(2,3) by (auto simp: update_tracker_def Let_def split: if_splits)
  have "tracker_ok (hs_now S') (count_list (hs_guards S') j) (hs_progress S' j)
          (he_subscriptions (hs_health S') ! j)" if "j < length ?ts" for j
    using that assms(1,4,6,7) unfolding ts health_inv_def by (cases "j = i") auto
  then show ?thesis using assms(1,5) i by (auto simp: health_inv_def ts)
qed

lemma count_list_remove1: "count_list (remove1 x xs) y = count_list xs y - (if x = y then 1 else 0)"
  by (induction xs) auto

lemma update_tracker_frame:
  assumes "update_tracker i f S = Some S1"
  shows "hs_now S1 = hs_now S" "hs_guards S1 = hs_guards S" "hs_progress S1 = hs_progress S"
  using assms by (auto simp: update_tracker_def Let_def split: if_splits)

lemma health_inv_step:
  assumes "health_inv S" "health_step S ev = Some S'"
  shows "health_inv S'"
proof (cases ev)
  case (HsRegister name)
  have "count_list (hs_guards S) (length (he_subscriptions (hs_health S))) = 0"
    using assms(1) by (auto simp: health_inv_def count_list_0_iff)
  with HsRegister assms show ?thesis
    by (auto simp: health_inv_def mark_progress_def register_def nth_append less_Suc_eq tracker_ok_new)
next
  case (HsRetry i)
  with assms show ?thesis
    by (auto simp: update_tracker_frame intro!: health_inv_update [OF assms(1)] tracker_ok_ops)
next
  case (HsRetryDrop i)
  then obtain S1 where i: "i \<in> set (hs_guards S)" and S1: "update_tracker i publish_retry_drop S = Some S1"
    and S': "S' = S1\<lparr>hs_guards := remove1 i (hs_guards S1)\<rparr>"
    using assms(2) by (auto split: if_splits)
  have "0 < count_list (hs_guards S) i" using i by (simp add: count_list_0_iff neq0_conv [symmetric])
  then show ?thesis
    using S1 by (auto simp: S' update_tracker_frame [OF S1] count_list_remove1 dest: set_remove1_subset [THEN subsetD]
        intro!: health_inv_update [OF assms(1) S1] tracker_ok_drop)
next
  case (HsTick d)
  with assms show ?thesis by (auto simp: health_inv_def tracker_ok_later)
next
  case (HsStart s)
  with assms show ?thesis by (auto simp: health_inv_def health_start_def)
qed (use assms in \<open>auto simp: mark_progress_def update_tracker_frame
       intro!: health_inv_update [OF assms(1)] tracker_ok_ops\<close>)

interpretation health: invariant_system health_init health_step health_inv
proof unfold_locales
  fix S :: "'p health_sys"
  assume "health_init S"
  then show "health_inv S" by (simp add: health_init_def health_inv_def health_default_def)
qed (rule health_inv_step)

section \<open>What a report says\<close>

lemma reports_ok:
  assumes "\<And>t. t \<in> set ts \<Longrightarrow> \<exists>s. tr_status t = status_code s"
  shows "reports connected now ts = Some (map (\<lambda>t. the (report_at connected now t)) ts)"
  using assms
proof (induction ts)
  case (Cons t ts)
  then obtain s where "tr_status t = status_code s" by auto
  then have "report_at connected now t \<noteq> None" by (simp add: report_at_def Let_def)
  with Cons show ?case by auto
qed simp

lemma health_inv_status:
  assumes "health_inv S" "t \<in> set (he_subscriptions (hs_health S))"
  shows "\<exists>s. tr_status t = status_code s"
  using assms by (auto simp: health_inv_def tracker_ok_def in_set_conv_nth)

lemma word_of_nat_zero:
  assumes "n < 2 ^ 64"
  shows "(word_of_nat n :: u64) = 0 \<longleftrightarrow> n = 0"
proof -
  have "unat (word_of_nat n :: u64) = n" using assms by (simp add: unat_of_nat)
  then show ?thesis by (cases "n = 0") (simp, metis unat_0)
qed

text \<open>Readiness of one subscription as documented, over its status, its guards and its source.\<close>

definition subscription_ready ::
  "('p \<Rightarrow> bool option) \<Rightarrow> 'p health_sys \<Rightarrow> nat \<Rightarrow> bool" where
  "subscription_ready connected S i \<longleftrightarrow>
     (let t = he_subscriptions (hs_health S) ! i in
      tr_status t = status_code StStopped
      \<or> tr_status t = status_code StRunning \<and> tracker_connected connected t \<noteq> Some False
        \<and> \<not> tr_receive_backoff t \<and> i \<notin> set (hs_guards S))"

lemma status_code_inject [simp]: "status_code s = status_code s' \<longleftrightarrow> s = s'"
  by (metis status_of_code_code option.inject)

lemma report_ready:
  assumes "health_inv S" "length (hs_guards S) < 2 ^ 64" "i < length (he_subscriptions (hs_health S))"
  shows "sr_ready (the (report_at connected now (he_subscriptions (hs_health S) ! i)))
    \<longleftrightarrow> subscription_ready connected S i"
proof -
  let ?t = "he_subscriptions (hs_health S) ! i"
  have ok: "tracker_ok (hs_now S) (count_list (hs_guards S) i) (hs_progress S i) ?t"
    using assms by (simp add: health_inv_def)
  then obtain s where s: "tr_status ?t = status_code s" by (auto simp: tracker_ok_def)
  have "count_list (hs_guards S) i < 2 ^ 64"
    using assms(2) count_le_length [of "hs_guards S" i] by linarith
  then have "tr_publish_retries ?t = 0 \<longleftrightarrow> i \<notin> set (hs_guards S)"
    using ok word_of_nat_zero by (simp add: tracker_ok_def count_list_0_iff)
  then show ?thesis
    by (auto simp: subscription_ready_def report_at_def Let_def s split: subscription_status.splits)
qed

lemma is_ready_exact:
  assumes "health_inv S" "length (hs_guards S) < 2 ^ 64"
  shows "is_ready ts connected (hs_now S) (hs_health S) = Some
    (case he_shutdown (hs_health S) of
       None \<Rightarrow> False
     | Some shutdown \<Rightarrow> \<not> token_is_cancelled ts shutdown
         \<and> (\<forall>i < length (he_subscriptions (hs_health S)). subscription_ready connected S i))"
proof -
  let ?ts = "he_subscriptions (hs_health S)"
  have "list_all sr_ready (map (\<lambda>t. the (report_at connected (hs_now S) t)) ?ts)
      \<longleftrightarrow> (\<forall>i < length ?ts. subscription_ready connected S i)"
    using report_ready [OF assms] by (simp add: list_all_length)
  then show ?thesis
    using reports_ok [OF health_inv_status [OF assms(1)]]
    by (simp add: is_ready_def report_def Let_def split: option.splits)
qed

text \<open>
  A readiness probe never panics on a status byte it cannot decode, and is answered 200 exactly
  when the application runs, was not asked to shut down, and every subscription is ready: its source
  ended and it stopped, or it is running, its source is not disconnected, it does not wait to receive
  again, and no publication of it waits for a retry; otherwise it is answered 503. This holds after
  any interleaving of the runtimes' updates, while fewer than \<open>2 ^ 64\<close> publications wait and the
  report can be encoded.
\<close>

theorem readiness_exact:
  assumes "health_reach S" "length (hs_guards S) < 2 ^ 64" "\<And>r. to_json r \<noteq> None"
  shows "map_option rs_status
      (respond to_json ''GET'' ''/readyz'' (report ts connected (hs_now S) (hs_health S))) =
    Some (case he_shutdown (hs_health S) of
       None \<Rightarrow> 503
     | Some shutdown \<Rightarrow>
         if \<not> token_is_cancelled ts shutdown
           \<and> (\<forall>i. i < length (he_subscriptions (hs_health S)) \<longrightarrow> subscription_ready connected S i)
         then 200 else 503)"
proof -
  obtain r where r: "report ts connected (hs_now S) (hs_health S) = Some r"
    and ready: "hr_ready r \<longleftrightarrow> (case he_shutdown (hs_health S) of
       None \<Rightarrow> False
     | Some shutdown \<Rightarrow> \<not> token_is_cancelled ts shutdown
         \<and> (\<forall>i < length (he_subscriptions (hs_health S)). subscription_ready connected S i))"
    using is_ready_exact [OF health.reach_inv [OF assms(1)] assms(2)] unfolding is_ready_def by blast
  obtain body where "to_json r = Some body" using assms(3) by blast
  then show ?thesis by (auto simp: respond_def r ready split: option.splits)
qed

lemma saturating_millis_unat:
  assumes "d div millisecond < 2 ^ 64"
  shows "unat (saturating_millis d) = d div millisecond"
  using assms by (simp add: saturating_millis_def unat_of_nat min_absorb1)

text \<open>
  A subscription with deliveries in flight and a stall timeout is reported stalled once no step
  finished for the timeout, and never more than a millisecond early, since progress is recorded in
  whole milliseconds. This holds while the process runs for less than \<open>2 ^ 64\<close> milliseconds.
\<close>

theorem stall_detection:
  assumes "health_reach S" "i < length (he_subscriptions (hs_health S))"
    and "t = he_subscriptions (hs_health S) ! i"
    and "tr_status t = status_code StRunning" "tr_in_flight t > 0"
    and "tr_run t = Some r" "tn_stall_timeout r = Some timeout"
    and "(hs_now S - tr_epoch t) div millisecond < 2 ^ 64"
  shows "(if sr_stalled (the (report_at connected (hs_now S) t))
      then hs_progress S i + timeout < hs_now S + millisecond
      else hs_now S < hs_progress S i + timeout)"
proof -
  have ok: "tracker_ok (hs_now S) (count_list (hs_guards S) i) (hs_progress S i) t"
    using health.reach_inv [OF assms(1)] assms(2,3) by (simp add: health_inv_def)
  let ?d = "hs_progress S i - tr_epoch t"
  have le: "tr_epoch t \<le> hs_progress S i" "hs_progress S i \<le> hs_now S"
    using ok by (simp_all add: tracker_ok_def)
  have "?d div millisecond \<le> (hs_now S - tr_epoch t) div millisecond"
    using le by (intro div_le_mono diff_le_mono)
  then have last: "unat (tr_last_progress t) * millisecond = ?d - ?d mod millisecond"
    using ok assms(8) saturating_millis_unat [of ?d]
    by (simp add: tracker_ok_def minus_mod_eq_div_mult)
  have "?d mod millisecond < millisecond" by (simp add: )
  then show ?thesis
    using assms(4-7) le mod_less_eq_dividend [of ?d millisecond]
    by (auto simp: report_at_def Let_def timed_out_def last)
qed

text \<open>An application with one subscription, a publication retry that ended, and a stalled step.\<close>

definition ex_health :: "unit health_sys" where
  "ex_health = \<lparr>hs_health = health_default, hs_now = 5, hs_guards = [], hs_progress = (\<lambda>_. 0)\<rparr>"

definition ex_health_events :: "unit health_event list" where
  "ex_health_events =
     [HsRegister ''orders'', HsStart 0, HsRun 0 None (Some 2000000), HsInFlight 0 1, HsRetry 0,
      HsTick 3000000, HsRetryDrop 0]"

lemmas ex_health_eval =
  ex_health_def ex_health_events_def update_tracker_def mark_progress_def register_def health_start_def
  tracker_new_def tracker_ops health_default_def once_set_def status_code_def saturating_millis_def
   Let_def

lemma ex_health_run:
  "run_ok (\<lambda>S. length (hs_guards S) = 0 \<and> he_shutdown (hs_health S) = Some 0
      \<and> length (he_subscriptions (hs_health S)) = 1 \<and> hs_now S = 3000005 \<and> hs_progress S 0 = 5
      \<and> tr_status (he_subscriptions (hs_health S) ! 0) = 1
      \<and> tr_in_flight (he_subscriptions (hs_health S) ! 0) = 1
      \<and> tr_epoch (he_subscriptions (hs_health S) ! 0) = 5
      \<and> \<not> tr_receive_backoff (he_subscriptions (hs_health S) ! 0)
      \<and> tr_run (he_subscriptions (hs_health S) ! 0) = Some \<lparr>tn_probe = None, tn_stall_timeout = Some 2000000\<rparr>)
     (run health_step ex_health ex_health_events)"
  by (simp add: ex_health_eval)

lemma ex_health_obtain:
  assumes "run_ok P (run health_step ex_health ex_health_events)"
  obtains S where "health_reach S" "P S"
  using run_ok_reach [of health_init ex_health P health_step ex_health_events] assms that
  by (auto simp: health_init_def ex_health_def)

theorem readiness_exact_witness:
  "\<exists>S :: unit health_sys. health_reach S \<and> length (hs_guards S) < 2 ^ 64
     \<and> map_option rs_status (respond (\<lambda>_. Some []) ''GET'' ''/readyz''
           (report tokens_empty (\<lambda>_. None) (hs_now S) (hs_health S))) = Some 200"
proof (rule ex_health_obtain [OF ex_health_run], goal_cases)
  case (1 S)
  then have "map_option rs_status (respond (\<lambda>_. Some []) ''GET'' ''/readyz''
           (report tokens_empty (\<lambda>_. None) (hs_now S) (hs_health S))) = Some 200"
    using readiness_exact [of S "\<lambda>_. Some []" tokens_empty "\<lambda>_. None"]
    by (simp add: subscription_ready_def Let_def tracker_connected_def status_code_def tokens_empty_def
        token_is_cancelled_def)
  with 1 show ?case by (intro exI [of _ S]) simp
qed

theorem stall_detection_witness:
  "\<exists>S :: unit health_sys. health_reach S \<and> hs_progress S 0 + 2000000 \<le> hs_now S
     \<and> sr_stalled (the (report_at (\<lambda>_. None) (hs_now S) (he_subscriptions (hs_health S) ! 0)))"
proof (rule ex_health_obtain [OF ex_health_run], goal_cases)
  case (1 S)
  then have "sr_stalled (the (report_at (\<lambda>_. None) (hs_now S) (he_subscriptions (hs_health S) ! 0)))"
    using stall_detection [of S 0 "he_subscriptions (hs_health S) ! 0" _ 2000000 "\<lambda>_. None"]
    by (simp add:  status_code_def split: if_splits)
  with 1 show ?case by (intro exI [of _ S]) simp
qed

end
