(* ===== verification/App.thy ===== *)
theory App
  imports Handlers Health
begin

text \<open>
  The application of \<^verbatim>\<open>src/app.rs\<close>: registration with its collected validation errors, and the
  supervision loop of \<^verbatim>\<open>run_until\<close>, which runs every subscription as a task and joins them in the
  order they end. The tasks share the shutdown token: the app is a system whose steps are the steps
  of the runtimes over one token store, a panic of a task, and the joins. Outside cancellations (a
  signal, the caller's token, a broker's revocation) are steps of their own.
\<close>

section \<open>Registration\<close>

record 'p app =
  ap_names :: "string list"
  ap_validation :: "string list"
  ap_health :: "'p health"

definition app_new :: "'p app" where
  "app_new = \<lparr>ap_names = [], ap_validation = [], ap_health = health_default\<rparr>"

text \<open>\<^verbatim>\<open>App::subscription\<close>; the runner it boxes is the task of the supervision loop below.\<close>

definition app_subscription ::
  "nat \<Rightarrow> ('w, 'm, 'i, 'o) subscription \<Rightarrow> 'p app \<Rightarrow> 'p app" where
  "app_subscription now s app =
     (let name = su_name s;
          invalid = (case validate s of Inl e \<Rightarrow> [error_display e] | Inr _ \<Rightarrow> []);
          duplicate = (if name \<in> set (ap_names app)
                       then [''duplicate subscription name '' @ debug_str name] else [])
      in \<lparr>ap_names = (if name \<in> set (ap_names app) then ap_names app else name # ap_names app),
          ap_validation = ap_validation app @ invalid @ duplicate,
          ap_health = register name now (ap_health app)\<rparr>)"

fun join_strings :: "string \<Rightarrow> string list \<Rightarrow> string" where
  "join_strings sep [] = []"
| "join_strings sep [s] = s"
| "join_strings sep (s # t # ts) = s @ sep @ join_strings sep (t # ts)"

text \<open>The check at the head of \<^verbatim>\<open>run_until\<close>.\<close>

definition app_validate :: "'p app \<Rightarrow> error + unit" where
  "app_validate app =
     ensure_config (ap_validation app = []) (join_strings ''; '' (ap_validation app))"

definition app_of :: "nat \<Rightarrow> ('w, 'm, 'i, 'o) subscription list \<Rightarrow> 'p app" where
  "app_of now ss = fold (app_subscription now) ss app_new"

lemma app_of_append [simp]: "app_of now (ss @ [s]) = app_subscription now s (app_of now ss)"
  by (simp add: app_of_def)

lemma app_of_names: "set (ap_names (app_of now ss)) = su_name ` set ss"
  by (induction ss rule: rev_induct)
    (auto simp: app_of_def app_new_def app_subscription_def Let_def)

lemma app_of_validation:
  "ap_validation (app_of now ss) = [] \<longleftrightarrow>
     list_all (\<lambda>s. validate s = Inr ()) ss \<and> distinct (map su_name ss)"
proof (induction ss rule: rev_induct)
  case (snoc s ss)
  then show ?case
    by (auto simp: app_subscription_def Let_def app_of_names split: sum.splits)
qed (simp add: app_of_def app_new_def)

text \<open>
  An application starts exactly when every registered subscription is valid on its own and no two
  share a name; otherwise \<^verbatim>\<open>run_until\<close> returns a configuration error before anything runs. Each
  registration has added one health tracker, in registration order.
\<close>

theorem app_starts_iff_valid:
  "(if list_all (\<lambda>s. validate s = Inr ()) ss \<and> distinct (map su_name ss)
    then app_validate (app_of now ss :: 'p app) = Inr ()
    else \<exists>m. app_validate (app_of now ss :: 'p app) = Inl (Config m))
   \<and> map tr_name (he_subscriptions (ap_health (app_of now ss :: 'p app))) = map su_name ss"
proof -
  have "map tr_name (he_subscriptions (ap_health (app_of now ss :: 'p app))) = map su_name ss"
    by (induction ss rule: rev_induct)
      (simp_all add: app_of_def app_new_def health_default_def app_subscription_def Let_def
        register_def tracker_new_def)
  moreover have valid: "ap_validation (app_of now ss :: 'p app) = [] \<longleftrightarrow>
      list_all (\<lambda>s. validate s = Inr ()) ss \<and> distinct (map su_name ss)"
    by (rule app_of_validation)
  ultimately show ?thesis
    unfolding valid [symmetric]
    by (simp add: app_validate_def ensure_config_def error_config_def)
qed

section \<open>Supervision\<close>

record ('m, 'v) sub_task =
  ta_run :: "('m, 'v) runtime"
  ta_panic :: "box_error option"
  ta_joined :: bool

datatype app_phase = Joining | Returned "error + unit"

record ('m, 'v) app_sys =
  as_tasks :: "('m, 'v) sub_task list"
  as_tokens :: tokens
  as_failure :: "error option"
  as_phase :: app_phase
  as_joins :: "(nat \<times> (error + unit)) list"

text \<open>What joining a task returns, once it has ended.\<close>

definition task_result :: "('m, 'v) sub_task \<Rightarrow> (error + unit) option" where
  "task_result T =
     (case ta_panic T of
        Some e \<Rightarrow> Some (Inl (error_wrap ''subscription task failed'' e))
      | None \<Rightarrow> (case rt_phase (ta_run T) of Finished r \<Rightarrow> Some r | _ \<Rightarrow> None))"

text \<open>Every task sees the shared tokens.\<close>

definition see_tokens :: "tokens \<Rightarrow> ('m, 'v) sub_task \<Rightarrow> ('m, 'v) sub_task" where
  "see_tokens ts T = T\<lparr>ta_run := (ta_run T)\<lparr>rt_tokens := ts\<rparr>\<rparr>"

definition share :: "tokens \<Rightarrow> ('m, 'v) sub_task list \<Rightarrow> ('m, 'v) app_sys \<Rightarrow> ('m, 'v) app_sys" where
  "share ts tasks S = S\<lparr>as_tasks := map (see_tokens ts) tasks, as_tokens := ts\<rparr>"

definition get_or_insert :: "error \<Rightarrow> error option \<Rightarrow> error option" where
  "get_or_insert e failure = (case failure of None \<Rightarrow> Some e | Some f \<Rightarrow> Some f)"

text \<open>The body of the join loop, on the result of task \<open>i\<close>.\<close>

definition join_task ::
  "token \<Rightarrow> nat \<Rightarrow> error + unit \<Rightarrow> ('m, 'v) app_sys \<Rightarrow> ('m, 'v) app_sys" where
  "join_task shutdown i r S =
     (let tasks = (as_tasks S)[i := (as_tasks S ! i)\<lparr>ta_joined := True\<rparr>];
          S = S\<lparr>as_joins := as_joins S @ [(i, r)]\<rparr>
      in case r of
           Inr _ \<Rightarrow> S\<lparr>as_tasks := tasks\<rparr>
         | Inl e \<Rightarrow>
             share (token_cancel shutdown (as_tokens S)) tasks
               (S\<lparr>as_failure := get_or_insert e (as_failure S)\<rparr>))"

text \<open>
  The end of \<^verbatim>\<open>run_until\<close>: the health server, when there is one, is stopped and its result joined
  (a panic of its task is an outer \<open>Inl\<close>).
\<close>

definition run_until_end ::
  "bool \<Rightarrow> (error + unit) outcome \<Rightarrow> error option \<Rightarrow> error + unit" where
  "run_until_end has_server served failure =
     (let failure =
        (if has_server
         then (case (case served of
                       Inl e \<Rightarrow> Inl (error_wrap ''health server task failed'' e)
                     | Inr r \<Rightarrow> r) of
                 Inl e \<Rightarrow> get_or_insert (error_wrap ''health server failed'' (Crate e)) failure
               | Inr _ \<Rightarrow> failure)
         else failure)
      in case failure of Some e \<Rightarrow> Inl e | None \<Rightarrow> Inr ())"

datatype ('m, 'v) app_event =
    ApCancel token
  | ApRun nat "('m, 'v) rt_event \<times> lane list"
  | ApPanic nat box_error
  | ApJoin nat
  | ApReturn "(error + unit) outcome"

fun app_step ::
  "bool \<Rightarrow> token \<Rightarrow> ('m, 'v) worker list \<Rightarrow> ('m, 'v) app_sys \<Rightarrow> ('m, 'v) app_event \<Rightarrow>
   ('m, 'v) app_sys option" where
  "app_step srv sd wks S (ApCancel t) = Some (share (token_cancel t (as_tokens S)) (as_tasks S) S)"
| "app_step srv sd wks S (ApRun i e) =
     (if i < length (as_tasks S) \<and> task_result (as_tasks S ! i) = None then
        case rt_step (wks ! i) (ta_run (as_tasks S ! i)) e of
          None \<Rightarrow> None
        | Some R \<Rightarrow>
            Some (share (rt_tokens R) ((as_tasks S)[i := (as_tasks S ! i)\<lparr>ta_run := R\<rparr>]) S)
      else None)"
| "app_step srv sd wks S (ApPanic i e) =
     (if i < length (as_tasks S) \<and> task_result (as_tasks S ! i) = None
      then Some (S\<lparr>as_tasks := (as_tasks S)[i := (as_tasks S ! i)\<lparr>ta_panic := Some e\<rparr>]\<rparr>)
      else None)"
| "app_step srv sd wks S (ApJoin i) =
     (if as_phase S = Joining \<and> i < length (as_tasks S) \<and> \<not> ta_joined (as_tasks S ! i) then
        case task_result (as_tasks S ! i) of
          None \<Rightarrow> None
        | Some r \<Rightarrow> Some (join_task sd i r S)
      else None)"
| "app_step srv sd wks S (ApReturn served) =
     (if as_phase S = Joining \<and> list_all ta_joined (as_tasks S)
      then Some (S\<lparr>as_phase := Returned (run_until_end srv served (as_failure S))\<rparr>)
      else None)"

definition app_start :: "('m, 'v) worker list \<Rightarrow> tokens \<Rightarrow> ('m, 'v) app_sys" where
  "app_start wks ts =
     \<lparr>as_tasks = map (\<lambda>wk. \<lparr>ta_run = rt_new wk ts, ta_panic = None, ta_joined = False\<rparr>) wks,
      as_tokens = ts, as_failure = None, as_phase = Joining, as_joins = []\<rparr>"

text \<open>The app hands its shutdown token to every subscription it starts, all validated.\<close>

definition app_init :: "token \<Rightarrow> ('m, 'v) worker list \<Rightarrow> ('m, 'v) app_sys \<Rightarrow> bool" where
  "app_init sd wks S \<longleftrightarrow>
     list_all (\<lambda>wk. wk_shutdown wk = sd \<and> config_validate (wk_config wk) = Inr ()) wks
     \<and> (\<exists>ts. S = app_start wks ts)"

abbreviation app_reach ::
  "bool \<Rightarrow> token \<Rightarrow> ('m, 'v) worker list \<Rightarrow> ('m, 'v) app_sys \<Rightarrow> bool" where
  "app_reach srv sd wks \<equiv> reach (app_init sd wks) (app_step srv sd wks)"

text \<open>\<^verbatim>\<open>App::run\<close>: the signal's own error comes first, after the subscriptions have drained.\<close>

definition app_run :: "(error + unit) option \<Rightarrow> error + unit \<Rightarrow> error + unit" where
  "app_run signal result =
     (case signal of
        None \<Rightarrow> result
      | Some (Inl e) \<Rightarrow> Inl e
      | Some (Inr _) \<Rightarrow> result)"

section \<open>The runtimes inside the app\<close>

text \<open>Steps only cancel tokens, so what one task does is a series of cancellations to the others.\<close>

definition grows :: "tokens \<Rightarrow> tokens \<Rightarrow> bool" where
  "grows ts ts' \<longleftrightarrow> (\<exists>l. ts' = fold token_cancel l ts)"

lemma grows_refl [simp]: "grows ts ts"
  unfolding grows_def by (rule exI [of _ "[]"]) simp

lemma grows_fold [simp]: "grows ts (fold token_cancel l ts)"
  unfolding grows_def by blast

lemma grows_cancel [simp]: "grows ts ts' \<Longrightarrow> grows ts (token_cancel t ts')"
  unfolding grows_def by (metis fold_append comp_apply fold_simps)

lemma grows_mono: "grows ts ts' \<Longrightarrow> tok_cancelled ts \<subseteq> tok_cancelled ts'"
  unfolding grows_def using fold_cancel_mono by blast

lemma break_loop_tokens: "break_loop order wk R = Some R' \<Longrightarrow> rt_tokens R' = rt_tokens R"
  by (auto simp: break_loop_def drain_head_def discard_unstarted_def start_ready_def Let_def
      split: if_splits option.splits prod.splits)

lemma rt_step_tokens:
  assumes "rt_step wk R e = Some R'"
  shows "grows (rt_tokens R) (rt_tokens R')"
proof -
  have head: "rt_tokens (receive_head wk R) = rt_tokens R" for R :: "('a, 'b) runtime"
    by (simp add: receive_head_def start_ready_def)
  have drain: "rt_tokens R' = rt_tokens R" if "drain_head order wk R = Some R'"
    for order and R R' :: "('a, 'b) runtime"
    using that by (auto simp: drain_head_def discard_unstarted_def start_ready_def Let_def
        split: if_splits prod.splits)
  have continue: "grows ts (rt_tokens R')"
    if "continue_loop order wk Re = Some R'" "grows ts (rt_tokens (fst Re))"
    for order ts and Re :: "('a, 'b) runtime \<times> box_error option"
    using that by (cases Re) (auto simp: continue_loop_def head fail_with_def cancel_shutdown_def
        insert_failure_def dest!: break_loop_tokens drain intro: grows_cancel
        split: phase.splits option.splits)
  have job: "rt_tokens (fst (job_arm wk x r R)) = rt_tokens R" for x r and R :: "('a, 'b) runtime"
    by (simp add: job_arm_def split: sum.splits)
  have receive: "grows (rt_tokens R) (rt_tokens R')" if "receive_arm order wk r R = Some R'" for order r
    using that by (cases r) (auto simp: Let_def head fail_with_def cancel_shutdown_def
        admit_delivery_def case_prod_beta dest!: break_loop_tokens intro: grows_cancel
        split: if_splits option.splits sum.splits)
  obtain ev order where e: "e = (ev, order)" by (cases e)
  show ?thesis
  proof (cases ev)
    case (RtReceive r)
    with assms show ?thesis by (auto simp: e split: if_splits intro: receive)
  next
    case (RtDecoded r)
    with assms obtain Re where Re: "decoding_arm wk r R = Some Re" "continue_loop order wk Re = Some R'"
      by (auto simp: e split: if_splits option.splits)
    have "rt_tokens (fst Re) = rt_tokens R"
      using Re(1) by (auto simp: decoding_arm_def distribute_def Let_def split: option.splits sum.splits)
    with Re(2) show ?thesis by (auto intro: continue)
  next
    case RtStop
    with assms show ?thesis by (auto simp: e split: if_splits dest: break_loop_tokens)
  qed (use assms in \<open>auto simp: e Let_def job drain_timed_out_def close_run_def finish_run_def
         cancel_shutdown_def insert_failure_def intro: continue split: if_splits option.splits sum.splits\<close>)
qed

lemma rt_reach_tokens:
  assumes "rt_reach wk R" "grows (rt_tokens R) ts"
  shows "rt_reach wk (R\<lparr>rt_tokens := ts\<rparr>)"
proof -
  have "rt_reach wk (R\<lparr>rt_tokens := fold token_cancel l (rt_tokens R)\<rparr>)" for l
  proof (induction l rule: rev_induct)
    case (snoc t l)
    let ?R = "R\<lparr>rt_tokens := fold token_cancel l (rt_tokens R)\<rparr>"
    have "rt_step wk ?R (RtCancel t, []) = Some (R\<lparr>rt_tokens := fold token_cancel (l @ [t]) (rt_tokens R)\<rparr>)"
      by simp
    with snoc show ?case by (rule reach_step)
  qed (use assms(1) in simp)
  then show ?thesis using assms(2) by (auto simp: grows_def)
qed

text \<open>The first error among the joined results.\<close>

fun first_error :: "(nat \<times> (error + unit)) list \<Rightarrow> error option" where
  "first_error [] = None"
| "first_error ((i, Inl e) # js) = Some e"
| "first_error ((i, Inr _) # js) = first_error js"

lemma first_error_append:
  "first_error (js @ [(i, r)]) =
     (case first_error js of Some e \<Rightarrow> Some e | None \<Rightarrow> (case r of Inl e \<Rightarrow> Some e | Inr _ \<Rightarrow> None))"
  by (induction js rule: first_error.induct) (auto split: sum.splits)

definition tasks_ok :: "('m, 'v) worker list \<Rightarrow> ('m, 'v) app_sys \<Rightarrow> bool" where
  "tasks_ok wks S \<longleftrightarrow>
     length (as_tasks S) = length wks
     \<and> (\<forall>i < length wks. rt_reach (wks ! i) (ta_run (as_tasks S ! i))
          \<and> rt_tokens (ta_run (as_tasks S ! i)) = as_tokens S)"

definition joins_ok :: "('m, 'v) app_sys \<Rightarrow> bool" where
  "joins_ok S \<longleftrightarrow>
     distinct (map fst (as_joins S))
     \<and> fst ` set (as_joins S) = {i. i < length (as_tasks S) \<and> ta_joined (as_tasks S ! i)}
     \<and> (\<forall>j \<in> set (as_joins S). task_result (as_tasks S ! fst j) = Some (snd j))"

definition failure_ok :: "bool \<Rightarrow> token \<Rightarrow> ('m, 'v) app_sys \<Rightarrow> bool" where
  "failure_ok srv sd S \<longleftrightarrow>
     as_failure S = first_error (as_joins S)
     \<and> (as_failure S \<noteq> None \<longrightarrow> token_is_cancelled (as_tokens S) sd)
     \<and> (\<forall>r. as_phase S = Returned r \<longrightarrow>
          list_all ta_joined (as_tasks S) \<and> (\<exists>served. r = run_until_end srv served (as_failure S)))"

lemma see_tokens_simps [simp]:
  "ta_run (see_tokens ts T) = (ta_run T)\<lparr>rt_tokens := ts\<rparr>" "ta_panic (see_tokens ts T) = ta_panic T"
  "ta_joined (see_tokens ts T) = ta_joined T" "task_result (see_tokens ts T) = task_result T"
  by (simp_all add: see_tokens_def task_result_def split: option.splits phase.splits)

lemma share_simps [simp]:
  "as_tasks (share ts tasks S) = map (see_tokens ts) tasks" "as_tokens (share ts tasks S) = ts"
  "as_failure (share ts tasks S) = as_failure S" "as_phase (share ts tasks S) = as_phase S"
  "as_joins (share ts tasks S) = as_joins S"
  by (simp_all add: share_def)

lemma tasks_ok_share:
  assumes "length tasks = length wks" "\<And>i. i < length wks \<Longrightarrow> rt_reach (wks ! i) (ta_run (tasks ! i))"
    "\<And>i. i < length wks \<Longrightarrow> grows (rt_tokens (ta_run (tasks ! i))) ts"
  shows "tasks_ok wks (share ts tasks S)"
  using assms by (auto simp: tasks_ok_def intro: rt_reach_tokens)

lemma tasks_ok_step:
  assumes "tasks_ok wks S" "app_step srv sd wks S ev = Some S'"
  shows "tasks_ok wks S'"
proof (cases ev)
  case (ApRun i e)
  then obtain R where i: "i < length (as_tasks S)" and R: "rt_step (wks ! i) (ta_run (as_tasks S ! i)) e = Some R"
    and S': "S' = share (rt_tokens R) ((as_tasks S)[i := (as_tasks S ! i)\<lparr>ta_run := R\<rparr>]) S"
    using assms(2) by (auto split: if_splits option.splits)
  have "grows (as_tokens S) (rt_tokens R)"
    using rt_step_tokens [OF R] assms(1) i by (simp add: tasks_ok_def)
  moreover have "rt_reach (wks ! i) R"
    using assms(1) i R by (auto simp: tasks_ok_def intro: reach_step)
  ultimately show ?thesis
    unfolding S' using assms(1) i by (intro tasks_ok_share) (auto simp: tasks_ok_def nth_list_update)
next
  case (ApJoin i)
  with assms show ?thesis
    by (auto simp: join_task_def Let_def tasks_ok_def nth_list_update split: if_splits option.splits sum.splits
        intro!: rt_reach_tokens)
qed (use assms in \<open>auto simp: tasks_ok_def nth_list_update split: if_splits intro!: rt_reach_tokens\<close>)

lemma joins_ok_frame:
  assumes "joins_ok S" "as_joins S' = as_joins S" "length (as_tasks S') = length (as_tasks S)"
    "\<And>i. i < length (as_tasks S) \<Longrightarrow> ta_joined (as_tasks S' ! i) = ta_joined (as_tasks S ! i)"
    "\<And>i. i < length (as_tasks S) \<Longrightarrow> task_result (as_tasks S ! i) \<noteq> None \<Longrightarrow>
       task_result (as_tasks S' ! i) = task_result (as_tasks S ! i)"
  shows "joins_ok S'"
proof -
  have "fst j < length (as_tasks S)" if "j \<in> set (as_joins S)" for j
    using assms(1) that unfolding joins_ok_def by blast
  moreover have "{i. i < length (as_tasks S) \<and> ta_joined (as_tasks S' ! i)}
      = {i. i < length (as_tasks S) \<and> ta_joined (as_tasks S ! i)}"
    using assms(4) by auto
  ultimately show ?thesis using assms(1-3,5) by (simp add: joins_ok_def)
qed

lemma joins_ok_join:
  assumes "joins_ok S" "i < length (as_tasks S)" "\<not> ta_joined (as_tasks S ! i)"
    "task_result (as_tasks S ! i) = Some r" "as_joins S' = as_joins S @ [(i, r)]"
    "length (as_tasks S') = length (as_tasks S)"
    "\<And>k. k < length (as_tasks S) \<Longrightarrow> ta_joined (as_tasks S' ! k) \<longleftrightarrow> k = i \<or> ta_joined (as_tasks S ! k)"
    "\<And>k. k < length (as_tasks S) \<Longrightarrow> task_result (as_tasks S' ! k) = task_result (as_tasks S ! k)"
  shows "joins_ok S'"
proof -
  have js: "fst ` set (as_joins S) = {i. i < length (as_tasks S) \<and> ta_joined (as_tasks S ! i)}"
    using assms(1) by (simp add: joins_ok_def)
  have "fst j < length (as_tasks S)" if "j \<in> set (as_joins S)" for j
    using js that by blast
  moreover have "i \<notin> fst ` set (as_joins S)" using assms(3) js by simp
  moreover have "{k. k < length (as_tasks S) \<and> ta_joined (as_tasks S' ! k)}
      = insert i {k. k < length (as_tasks S) \<and> ta_joined (as_tasks S ! k)}"
    using assms(2,7) by auto
  ultimately show ?thesis using assms(1,2,4-6,8) js by (simp add: joins_ok_def)
qed

lemma joins_ok_step:
  assumes "joins_ok S" "app_step srv sd wks S ev = Some S'"
  shows "joins_ok S'"
proof (cases ev)
  case (ApJoin i)
  then obtain r where i: "i < length (as_tasks S)" "\<not> ta_joined (as_tasks S ! i)"
    "task_result (as_tasks S ! i) = Some r" and S': "S' = join_task sd i r S"
    using assms(2) by (auto split: if_splits option.splits)
  have "task_result (T\<lparr>ta_joined := b\<rparr>) = task_result T" for b and T :: "('a, 'b) sub_task"
    by (simp add: task_result_def split: option.splits)
  then show ?thesis
    using i(1) by (intro joins_ok_join [OF assms(1) i])
      (auto simp: S' join_task_def Let_def nth_list_update split: sum.splits)
qed (use assms in \<open>auto simp: nth_list_update split: if_splits option.splits
       intro!: joins_ok_frame [OF assms(1)]\<close>)

lemma failure_ok_step:
  assumes "failure_ok srv sd S" "tasks_ok wks S" "joins_ok S" "app_step srv sd wks S ev = Some S'"
  shows "failure_ok srv sd S'"
proof (cases ev)
  case (ApRun i e)
  then obtain R where R: "rt_step (wks ! i) (ta_run (as_tasks S ! i)) e = Some R" "i < length (as_tasks S)"
    and S': "S' = share (rt_tokens R) ((as_tasks S)[i := (as_tasks S ! i)\<lparr>ta_run := R\<rparr>]) S"
    using assms(4) by (auto split: if_splits option.splits)
  have "tok_cancelled (as_tokens S) \<subseteq> tok_cancelled (rt_tokens R)"
    using rt_step_tokens [OF R(1)] R(2) assms(2) by (auto simp: tasks_ok_def dest: grows_mono)
  then show ?thesis
    using assms(1) R(2)
    by (auto simp: S' failure_ok_def token_is_cancelled_def list_all_length nth_list_update)
next
  case (ApPanic i e)
  with assms(1,4) show ?thesis
    by (auto simp: failure_ok_def list_all_length nth_list_update split: if_splits)
next
  case (ApJoin i)
  with assms(1,4) show ?thesis
    by (auto simp: join_task_def Let_def failure_ok_def first_error_append get_or_insert_def
        split: if_splits option.splits sum.splits)
qed (use assms in \<open>auto simp: failure_ok_def list_all_length split: if_splits\<close>)

definition app_inv ::
  "bool \<Rightarrow> token \<Rightarrow> ('m, 'v) worker list \<Rightarrow> ('m, 'v) app_sys \<Rightarrow> bool" where
  "app_inv srv sd wks S \<longleftrightarrow> tasks_ok wks S \<and> joins_ok S \<and> failure_ok srv sd S"

interpretation app: invariant_system "app_init sd wks" "app_step srv sd wks" "app_inv srv sd wks"
proof unfold_locales
  fix S :: "('a, 'b) app_sys"
  assume "app_init sd wks S"
  then show "app_inv srv sd wks S"
    by (auto simp: app_init_def app_start_def app_inv_def tasks_ok_def joins_ok_def failure_ok_def
        list_all_length rt_new_def rt_init_def intro!: reach_init)
next
  fix S S' :: "('a, 'b) app_sys" and ev
  assume "app_inv srv sd wks S" "app_step srv sd wks S ev = Some S'"
  then show "app_inv srv sd wks S'"
    by (auto simp: app_inv_def intro: tasks_ok_step joins_ok_step failure_ok_step)
qed

section \<open>What an application returns\<close>

lemma app_invD:
  assumes "app_reach srv sd wks S"
  shows "tasks_ok wks S" "joins_ok S" "failure_ok srv sd S"
  using app.reach_inv [OF assms] by (simp_all add: app_inv_def)

lemma run_until_end_error: "run_until_end srv served (Some e) = Inl e"
  by (simp add: run_until_end_def get_or_insert_def Let_def split: sum.splits)

lemma run_until_end_ok: "run_until_end srv served failure = Inr () \<Longrightarrow> failure = None"
  by (cases failure) (simp_all add: run_until_end_error)

lemma run_until_end_no_server: "run_until_end False served None = Inr ()"
  by (simp add: run_until_end_def)

text \<open>
  C13. \<^verbatim>\<open>run_until\<close> returns only after every subscription task was joined, each once and with the
  result its runtime ended with; it returns the first error in join order, and no error when no task
  failed and there is no health server. A failed task has cancelled the shutdown token, so every
  subscription that watches it is stopping.
\<close>

theorem app_result:
  assumes "app_reach srv sd wks S" "as_phase S = Returned r"
  shows "distinct (map fst (as_joins S)) \<and> fst ` set (as_joins S) = {..<length wks}
    \<and> (\<forall>i r'. (i, r') \<in> set (as_joins S) \<longrightarrow> task_result (as_tasks S ! i) = Some r')
    \<and> (case first_error (as_joins S) of
         Some e \<Rightarrow> r = Inl e \<and> token_is_cancelled (as_tokens S) sd
       | None \<Rightarrow> (if srv then True else r = Inr ()))"
proof -
  note inv = app_invD [OF assms(1)]
  have all: "list_all ta_joined (as_tasks S)" and fail: "as_failure S = first_error (as_joins S)"
    using inv(3) assms(2) by (simp_all add: failure_ok_def)
  have "fst ` set (as_joins S) = {..<length wks}"
    using inv(1,2) all by (auto simp: joins_ok_def tasks_ok_def list_all_length)
  moreover have "case first_error (as_joins S) of
         Some e \<Rightarrow> r = Inl e \<and> token_is_cancelled (as_tokens S) sd
       | None \<Rightarrow> (if srv then True else r = Inr ())"
    using inv(3) assms(2)
    by (auto simp: failure_ok_def fail run_until_end_error run_until_end_no_server split: option.splits)
  ultimately show ?thesis using inv(2) by (auto simp: joins_ok_def)
qed

lemma first_error_none: "first_error js = None \<Longrightarrow> (i, r) \<in> set js \<Longrightarrow> r = Inr ()"
  by (induction js rule: first_error.induct) auto

text \<open>
  C12. When \<^verbatim>\<open>run_until\<close> returns without an error, nothing cancelled the shutdown token and every
  source ended, then every subscription of the application has completed exactly the deliveries it
  received, and no job or acknowledgement is left in any of them.
\<close>

theorem app_clean_end:
  assumes "app_reach srv sd wks S" "as_phase S = Returned (Inr ())"
    "\<not> token_is_cancelled (as_tokens S) sd"
    "i < length wks" "wk_shutdown (wks ! i) = sd" "rt_ended (ta_run (as_tasks S ! i))"
  shows "mset (map (\<lambda>x. de_delivery (snd x)) (rt_completed (ta_run (as_tasks S ! i))))
      = mset (rt_received (ta_run (as_tasks S ! i)))
    \<and> rt_jobs (ta_run (as_tasks S ! i)) = [] \<and> rt_acks (ta_run (as_tasks S ! i)) = []"
proof -
  note inv = app_invD [OF assms(1)]
  let ?T = "as_tasks S ! i"
  have "list_all ta_joined (as_tasks S)" and fail: "as_failure S = None"
    using inv(3) assms(2) by (auto simp: failure_ok_def dest: run_until_end_ok [OF sym])
  then have "i \<in> fst ` set (as_joins S)"
    using inv(1,2) assms(4) by (auto simp: joins_ok_def tasks_ok_def list_all_length)
  then obtain r where r: "(i, r) \<in> set (as_joins S)" by auto
  have "r = Inr ()"
    using fail inv(3) first_error_none [OF _ r] by (simp add: failure_ok_def)
  then have "task_result ?T = Some (Inr ())" using inv(2) r by (auto simp: joins_ok_def)
  then have "rt_phase (ta_run ?T) = Finished (Inr ())"
    by (auto simp: task_result_def split: option.splits phase.splits)
  moreover have "rt_reach (wks ! i) (ta_run ?T)" "rt_tokens (ta_run ?T) = as_tokens S"
    using inv(1) assms(4) by (auto simp: tasks_ok_def)
  ultimately show ?thesis
    using clean_end [of "wks ! i" "ta_run ?T"] assms(3,5,6) by simp
qed

text \<open>
  Two runs of an application with one subscription: its source ends after one delivery, and its source
  fails.
\<close>

lemma ex_app_init: "app_init 0 [ex_worker] (app_start [ex_worker] tokens_empty)"
  using ex_init by (auto simp: app_init_def rt_init_def ex_worker_def)

definition ex_app_events :: "(nat, nat) app_event list" where
  "ex_app_events =
     [ApRun 0 (RtReceive (RecvMessage 1 (Some (Inr ()))), []), ApRun 0 (RtDecoded (Inr (Inr 10)), []),
      ApRun 0 (RtReceive RecvEnd, []), ApRun 0 (RtJob 0 (Some (Inr False)) [], []),
      ApRun 0 (RtDrained, []), ApRun 0 (RtClosed (Inr ()) (Inr ()) (Inr ()), []),
      ApJoin 0, ApReturn (Inr (Inr ()))]"

lemmas ex_app_eval =
  app_start_def share_def see_tokens_def task_result_def join_task_def run_until_end_def get_or_insert_def

lemma ex_app_run:
  "run_ok (\<lambda>S. as_phase S = Returned (Inr ()) \<and> as_tokens S = tokens_empty
      \<and> rt_ended (ta_run (as_tasks S ! 0)) \<and> rt_received (ta_run (as_tasks S ! 0)) = [1])
     (run (app_step True 0 [ex_worker]) (app_start [ex_worker] tokens_empty) ex_app_events)"
  by (simp add: ex_app_events_def ex_app_eval ex_eval)

lemma ex_app_obtain:
  assumes "run_ok P (run (app_step srv 0 [ex_worker]) (app_start [ex_worker] tokens_empty) es)"
  obtains S where "app_reach srv 0 [ex_worker] S" "P S"
  using run_ok_reach [of "app_init 0 [ex_worker]" _ P "app_step srv 0 [ex_worker]" es] ex_app_init assms that
  by metis

theorem app_clean_end_witness:
  "\<exists>S. app_reach True 0 [ex_worker] S \<and> as_phase S = Returned (Inr ())
     \<and> rt_received (ta_run (as_tasks S ! 0)) = [1]
     \<and> mset (map (\<lambda>x. de_delivery (snd x)) (rt_completed (ta_run (as_tasks S ! 0)))) = {#1#}"
proof (rule ex_app_obtain [OF ex_app_run], goal_cases)
  case (1 S)
  then have "\<not> token_is_cancelled (as_tokens S) 0" by (simp add: tokens_empty_def token_is_cancelled_def)
  with 1 app_clean_end [OF 1(1), of 0] show ?case
    by (intro exI [of _ S]) (simp add: ex_worker_def)
qed

lemma ex_app_failure:
  "run_ok (\<lambda>S. as_phase S = Returned (Inl (SubscriptionError ''orders''
        (Crate (Failed ''fatal receive error'' (Some (Foreign ''gone'' None)))))))
     (run (app_step False 0 [ex_worker]) (app_start [ex_worker] tokens_empty)
       [ApRun 0 (RtReceive (RecvFatal (Foreign ''gone'' None)), []), ApRun 0 (RtDrained, []),
        ApRun 0 (RtClosed (Inr ()) (Inr ()) (Inr ()), []), ApJoin 0, ApReturn (Inr (Inr ()))])"
  by (simp add: ex_app_eval ex_eval error_wrap_def)

theorem app_result_witness:
  "\<exists>S e. app_reach False 0 [ex_worker] S \<and> as_phase S = Returned (Inl e)
     \<and> first_error (as_joins S) = Some e \<and> token_is_cancelled (as_tokens S) 0"
proof (rule ex_app_obtain [OF ex_app_failure], goal_cases)
  case (1 S)
  from app_result [OF this] 1 show ?case by (auto split: option.splits)
qed

end
