(* ===== verification/Channel.thy ===== *)
theory Channel
  imports Messages Tokens Errors "HOL-Library.Sublist"
begin

text \<open>
  The in-process channel of \<^verbatim>\<open>src/adapters/channel\<close> between an upstream sink and a downstream source:
  the bounded queue, the publications that complete when the downstream subscription acknowledges
  their value, and abandonment in both directions. Each value in flight has a one-shot cell (its
  \<^verbatim>\<open>done\<close> sender) and a cancellation token; the cell's number is the value's place among the values
  ever enqueued.

  The channel is a system: clones of the sink, waiting submissions, publications, the receiving end
  and the received deliveries act in any order. The trace context of a sender is a parameter.
\<close>

section \<open>Values in flight\<close>

text \<open>\<^verbatim>\<open>ChannelRaw\<close>: the raw form of the first upstream delivery, kept through several channels.\<close>

type_synonym 'r channel_raw = "'r option"

definition channel_raw_of :: "'r channel_raw + 'r \<Rightarrow> 'r channel_raw" where
  "channel_raw_of raw = (case raw of Inl kept \<Rightarrow> kept | Inr r \<Rightarrow> Some r)"

definition channel_raw_is_empty :: "'r channel_raw \<Rightarrow> bool" where
  "channel_raw_is_empty raw \<longleftrightarrow> raw = None"

record 'r origin =
  og_ordering_key :: "ordering_key option"
  og_message_key :: "bytes option"
  og_raw :: "'r channel_raw"

definition origin_default :: "'r origin" where
  "origin_default = \<lparr>og_ordering_key = None, og_message_key = None, og_raw = None\<rparr>"

record ('v, 'r) channel_output =
  co_value :: 'v
  co_origin :: "'r origin"

record ('v, 'r) queued =
  qd_value :: 'v
  qd_done :: nat
  qd_abandoned :: token
  qd_propagation :: "(string \<times> string) list"
  qd_origin :: "'r origin"

record ('v, 'r) channel_message =
  cm_value :: 'v
  cm_done :: nat
  cm_revocation :: token
  cm_propagation :: "(string \<times> string) list"
  cm_ordering_key :: "ordering_key option"
  cm_message_key :: "bytes option"
  cm_raw :: "'r channel_raw"

definition channel_prepare :: "'v \<Rightarrow> ('v, 'r) channel_output" where
  "channel_prepare v = \<lparr>co_value = v, co_origin = origin_default\<rparr>"

definition channel_prepare_from ::
  "'v \<Rightarrow> ordering_key option \<Rightarrow> bytes option \<Rightarrow> 'r channel_raw + 'r \<Rightarrow> ('v, 'r) channel_output" where
  "channel_prepare_from v okey mkey raw =
     \<lparr>co_value = v,
      co_origin = \<lparr>og_ordering_key = okey, og_message_key = mkey, og_raw = channel_raw_of raw\<rparr>\<rparr>"

text \<open>The delivery \<^verbatim>\<open>ChannelSource::receive\<close> builds from a queued value.\<close>

definition message_of :: "('v, 'r) queued \<Rightarrow> ('v, 'r) channel_message" where
  "message_of q =
     \<lparr>cm_value = qd_value q, cm_done = qd_done q, cm_revocation = qd_abandoned q,
      cm_propagation = qd_propagation q, cm_ordering_key = og_ordering_key (qd_origin q),
      cm_message_key = og_message_key (qd_origin q), cm_raw = og_raw (qd_origin q)\<rparr>"

section \<open>The channel\<close>

datatype cell = CellOpen | CellSent | CellDropped

datatype publication = PubWaiting | PubDone | PubFailed error | PubAbandoned

text \<open>
  \<open>ch_sinks\<close> says for each clone of the sink whether it still has its sender; \<open>ch_waiting\<close> are the
  values waiting for capacity, each with a sender of its own and whether its publication waits for the
  receiving end. \<open>ch_sent\<close> and \<open>ch_received\<close> are histories. A \<^verbatim>\<open>ChannelSender\<close> is a clone too.
\<close>

record ('v, 'r) channel =
  ch_capacity :: usize
  ch_buffer :: "('v, 'r) queued list"
  ch_closed :: bool
  ch_tokens :: tokens
  ch_sinks :: "bool list"
  ch_waiting :: "(('v, 'r) channel_output \<times> bool) list"
  ch_cells :: "nat \<Rightarrow> cell"
  ch_pubs :: "nat \<rightharpoonup> publication"
  ch_live :: "('v, 'r) channel_message list"
  ch_ended :: bool
  ch_sent :: "('v, 'r) queued list"
  ch_received :: "nat list"

text \<open>\<^verbatim>\<open>channel\<close>; a zero capacity panics.\<close>

definition channel_new :: "usize \<Rightarrow> ('v, 'r) channel option" where
  "channel_new capacity =
     (if capacity = 0 then None
      else Some \<lparr>ch_capacity = capacity, ch_buffer = [], ch_closed = False, ch_tokens = tokens_empty,
                 ch_sinks = [True], ch_waiting = [], ch_cells = (\<lambda>_. CellOpen), ch_pubs = Map.empty,
                 ch_live = [], ch_ended = False, ch_sent = [], ch_received = []\<rparr>)"

text \<open>\<^verbatim>\<open>Clone for ChannelSink\<close>, \<^verbatim>\<open>ChannelSink::close\<close> (also what dropping a clone does to the channel).\<close>

definition sink_clone :: "nat \<Rightarrow> ('v, 'r) channel \<Rightarrow> ('v, 'r) channel" where
  "sink_clone s c = c\<lparr>ch_sinks := ch_sinks c @ [ch_sinks c ! s]\<rparr>"

definition sink_close :: "nat \<Rightarrow> ('v, 'r) channel \<Rightarrow> ('v, 'r) channel" where
  "sink_close s c = c\<lparr>ch_sinks := (ch_sinks c)[s := False]\<rparr>"

text \<open>\<^verbatim>\<open>ChannelSink::submit\<close> up to \<^verbatim>\<open>reserve\<close>: a closed clone fails, another waits with its own sender.\<close>

definition sink_submit ::
  "nat \<Rightarrow> ('v, 'r) channel_output \<Rightarrow> ('v, 'r) channel \<Rightarrow> (error + unit) \<times> ('v, 'r) channel" where
  "sink_submit s out c =
     (if ch_sinks c ! s then (Inr (), c\<lparr>ch_waiting := ch_waiting c @ [(out, True)]\<rparr>)
      else (Inl (Closed ''channel sink is closed''), c))"

text \<open>
  \<^verbatim>\<open>ChannelSender::send\<close> up to \<^verbatim>\<open>reserve\<close>: nobody waits for completion. \<^verbatim>\<open>send_and_wait\<close> is a submission
  of an output without an origin.
\<close>

definition sender_send :: "nat \<Rightarrow> 'v \<Rightarrow> ('v, 'r) channel \<Rightarrow> ('v, 'r) channel" where
  "sender_send s v c = c\<lparr>ch_waiting := ch_waiting c @ [(channel_prepare v, False)]\<rparr>"

definition sender_send_and_wait ::
  "nat \<Rightarrow> 'v \<Rightarrow> ('v, 'r) channel \<Rightarrow> (error + unit) \<times> ('v, 'r) channel" where
  "sender_send_and_wait s v c = sink_submit s (channel_prepare v) c"

text \<open>
  The rest of \<^verbatim>\<open>enqueue\<close> for the waiting submission \<open>i\<close>: \<^verbatim>\<open>reserve\<close> fails once the receiver is closed,
  otherwise the value enters the buffer and its publication starts.
\<close>

definition enqueue ::
  "nat \<Rightarrow> (string \<times> string) list \<Rightarrow> ('v, 'r) channel \<Rightarrow> ((error + nat) \<times> ('v, 'r) channel) option" where
  "enqueue i propagation c =
     (let (out, waits) = ch_waiting c ! i; c1 = c\<lparr>ch_waiting := remove_nth i (ch_waiting c)\<rparr> in
      if ch_closed c then Some (Inl (Closed ''channel receiving end has stopped''), c1)
      else if length (ch_buffer c) < ch_capacity c then
        let (abandoned, ts) = token_new (ch_tokens c);
            n = length (ch_sent c);
            q = \<lparr>qd_value = co_value out, qd_done = n, qd_abandoned = abandoned,
                 qd_propagation = propagation, qd_origin = co_origin out\<rparr>
        in Some (Inr n, c1\<lparr>ch_buffer := ch_buffer c @ [q], ch_tokens := ts,
                           ch_pubs := (if waits then (ch_pubs c)(n \<mapsto> PubWaiting) else ch_pubs c),
                           ch_sent := ch_sent c @ [q]\<rparr>)
      else None)"

text \<open>Dropping a publication: before it resolved, \<^verbatim>\<open>AbandonOnDrop\<close> cancels the value's token.\<close>

definition drop_publication :: "nat \<Rightarrow> ('v, 'r) channel \<Rightarrow> ('v, 'r) channel" where
  "drop_publication n c =
     c\<lparr>ch_tokens := token_cancel (qd_abandoned (ch_sent c ! n)) (ch_tokens c),
       ch_pubs := (ch_pubs c)(n \<mapsto> PubAbandoned)\<rparr>"

text \<open>The completion of a publication: its cell was filled or dropped; the guard is disarmed.\<close>

definition resolve :: "nat \<Rightarrow> ('v, 'r) channel \<Rightarrow> ('v, 'r) channel option" where
  "resolve n c =
     (case ch_cells c n of
        CellOpen \<Rightarrow> None
      | CellSent \<Rightarrow> Some (c\<lparr>ch_pubs := (ch_pubs c)(n \<mapsto> PubDone)\<rparr>)
      | CellDropped \<Rightarrow>
          Some (c\<lparr>ch_pubs := (ch_pubs c)(n \<mapsto> PubFailed
            (Closed ''channel receiving end stopped before taking responsibility for the value''))\<rparr>))"

definition set_cells :: "cell \<Rightarrow> nat set \<Rightarrow> ('v, 'r) channel \<Rightarrow> ('v, 'r) channel" where
  "set_cells x ids c = c\<lparr>ch_cells := (\<lambda>i. if i \<in> ids then x else ch_cells c i)\<rparr>"

text \<open>The loop of \<^verbatim>\<open>receive\<close> over the buffered values: abandoned ones are dropped.\<close>

fun next_queued ::
  "tokens \<Rightarrow> ('v, 'r) queued list \<Rightarrow>
   ('v, 'r) queued list \<times> (('v, 'r) queued \<times> ('v, 'r) queued list) option" where
  "next_queued ts [] = ([], None)"
| "next_queued ts (q # qs) =
     (if token_is_cancelled ts (qd_abandoned q)
      then (case next_queued ts qs of (dropped, r) \<Rightarrow> (q # dropped, r))
      else ([], Some (q, qs)))"

text \<open>The receiver ends when it is closed or no sender is left, and the buffer is empty.\<close>

definition senders_gone :: "('v, 'r) channel \<Rightarrow> bool" where
  "senders_gone c \<longleftrightarrow> list_all Not (ch_sinks c) \<and> ch_waiting c = []"

definition source_receive :: "('v, 'r) channel \<Rightarrow> ('v, 'r) channel" where
  "source_receive c =
     (case next_queued (ch_tokens c) (ch_buffer c) of (dropped, r) \<Rightarrow>
        let c = set_cells CellDropped (qd_done ` set dropped) c in
        case r of
          Some (q, rest) \<Rightarrow>
            c\<lparr>ch_buffer := rest, ch_live := ch_live c @ [message_of q],
              ch_received := ch_received c @ [qd_done q]\<rparr>
        | None \<Rightarrow> c\<lparr>ch_buffer := [], ch_ended := ch_closed c \<or> senders_gone c\<rparr>)"

text \<open>\<^verbatim>\<open>ChannelReceiver::recv\<close>: application code takes the value, which completes it.\<close>

definition receiver_recv :: "('v, 'r) channel \<Rightarrow> ('v, 'r) channel" where
  "receiver_recv c =
     (case next_queued (ch_tokens c) (ch_buffer c) of (dropped, r) \<Rightarrow>
        let c = set_cells CellDropped (qd_done ` set dropped) c in
        case r of
          Some (q, rest) \<Rightarrow>
            (set_cells CellSent {qd_done q} c)\<lparr>ch_buffer := rest,
               ch_received := ch_received c @ [qd_done q]\<rparr>
        | None \<Rightarrow> c\<lparr>ch_buffer := [], ch_ended := ch_closed c \<or> senders_gone c\<rparr>)"

text \<open>Acknowledging a delivery fills its cell; dropping it unacknowledged drops the cell.\<close>

definition end_delivery :: "cell \<Rightarrow> nat \<Rightarrow> ('v, 'r) channel \<Rightarrow> ('v, 'r) channel" where
  "end_delivery x i c =
     (set_cells x {cm_done (ch_live c ! i)} c)\<lparr>ch_live := remove_nth i (ch_live c)\<rparr>"

text \<open>Closing the receiving end rejects new values; dropping it drops what is buffered.\<close>

definition receiver_close :: "('v, 'r) channel \<Rightarrow> ('v, 'r) channel" where
  "receiver_close c = c\<lparr>ch_closed := True\<rparr>"

definition receiver_drop :: "('v, 'r) channel \<Rightarrow> ('v, 'r) channel" where
  "receiver_drop c =
     (set_cells CellDropped (qd_done ` set (ch_buffer c)) c)\<lparr>ch_buffer := [], ch_closed := True\<rparr>"

datatype ('v, 'r) channel_event =
    ChClone nat
  | ChCloseSink nat
  | ChSubmit nat "('v, 'r) channel_output"
  | ChSend nat 'v
  | ChCancelSubmit nat
  | ChEnqueue nat "(string \<times> string) list"
  | ChDropPub nat
  | ChResolve nat
  | ChReceive
  | ChRecv
  | ChAck nat
  | ChDropDelivery nat
  | ChClose
  | ChDropReceiver

fun channel_step :: "('v, 'r) channel \<Rightarrow> ('v, 'r) channel_event \<Rightarrow> ('v, 'r) channel option" where
  "channel_step c (ChClone s) = (if s < length (ch_sinks c) then Some (sink_clone s c) else None)"
| "channel_step c (ChCloseSink s) = Some (sink_close s c)"
| "channel_step c (ChSubmit s out) =
     (if s < length (ch_sinks c) then Some (snd (sink_submit s out c)) else None)"
| "channel_step c (ChSend s v) =
     (if s < length (ch_sinks c) \<and> ch_sinks c ! s then Some (sender_send s v c) else None)"
| "channel_step c (ChCancelSubmit i) =
     (if i < length (ch_waiting c) then Some (c\<lparr>ch_waiting := remove_nth i (ch_waiting c)\<rparr>) else None)"
| "channel_step c (ChEnqueue i propagation) =
     (if i < length (ch_waiting c) then map_option snd (enqueue i propagation c) else None)"
| "channel_step c (ChDropPub n) =
     (if ch_pubs c n = Some PubWaiting then Some (drop_publication n c) else None)"
| "channel_step c (ChResolve n) =
     (if ch_pubs c n = Some PubWaiting then resolve n c else None)"
| "channel_step c ChReceive = Some (source_receive c)"
| "channel_step c ChRecv = Some (receiver_recv c)"
| "channel_step c (ChAck i) =
     (if i < length (ch_live c) then Some (end_delivery CellSent i c) else None)"
| "channel_step c (ChDropDelivery i) =
     (if i < length (ch_live c) then Some (end_delivery CellDropped i c) else None)"
| "channel_step c ChClose = Some (receiver_close c)"
| "channel_step c ChDropReceiver = Some (receiver_drop c)"

definition channel_init :: "('v, 'r) channel \<Rightarrow> bool" where
  "channel_init c \<longleftrightarrow> (\<exists>capacity. channel_new capacity = Some c)"


section \<open>The invariant\<close>

abbreviation buffered :: "('v, 'r) channel \<Rightarrow> nat list" where
  "buffered c \<equiv> map qd_done (ch_buffer c)"

abbreviation live_ids :: "('v, 'r) channel \<Rightarrow> nat list" where
  "live_ids c \<equiv> map cm_done (ch_live c)"

definition numbered :: "('v, 'r) channel \<Rightarrow> bool" where
  "numbered c \<longleftrightarrow>
     tok_next (ch_tokens c) = length (ch_sent c)
     \<and> (\<forall>i < length (ch_sent c). qd_done (ch_sent c ! i) = i \<and> qd_abandoned (ch_sent c ! i) = i)
     \<and> (\<forall>q \<in> set (ch_buffer c). qd_done q < length (ch_sent c) \<and> q = ch_sent c ! qd_done q)
     \<and> (\<forall>m \<in> set (ch_live c). cm_done m < length (ch_sent c) \<and> m = message_of (ch_sent c ! cm_done m))"

definition channel_in_order :: "('v, 'r) channel \<Rightarrow> bool" where
  "channel_in_order c \<longleftrightarrow>
     length (ch_buffer c) \<le> ch_capacity c
     \<and> sorted_wrt (<) (ch_received c @ buffered c)
     \<and> (\<forall>i \<in> set (ch_received c). i < length (ch_sent c))
     \<and> distinct (live_ids c) \<and> set (live_ids c) \<subseteq> set (ch_received c)"

definition cells_ok :: "('v, 'r) channel \<Rightarrow> bool" where
  "cells_ok c \<longleftrightarrow>
     (\<forall>i. ch_cells c i = CellOpen \<longleftrightarrow>
        i \<in> set (buffered c) \<or> i \<in> set (live_ids c) \<or> length (ch_sent c) \<le> i)
     \<and> (\<forall>i. ch_cells c i = CellSent \<longrightarrow> i \<in> set (ch_received c))"

fun pub_ok :: "cell \<Rightarrow> bool \<Rightarrow> publication option \<Rightarrow> bool" where
  "pub_ok x cancelled None \<longleftrightarrow> \<not> cancelled"
| "pub_ok x cancelled (Some PubWaiting) \<longleftrightarrow> \<not> cancelled"
| "pub_ok x cancelled (Some PubDone) \<longleftrightarrow> \<not> cancelled \<and> x = CellSent"
| "pub_ok x cancelled (Some (PubFailed e)) \<longleftrightarrow> \<not> cancelled \<and> x = CellDropped"
| "pub_ok x cancelled (Some PubAbandoned) \<longleftrightarrow> cancelled"

definition pubs_ok :: "('v, 'r) channel \<Rightarrow> bool" where
  "pubs_ok c \<longleftrightarrow>
     (\<forall>i. pub_ok (ch_cells c i) (token_is_cancelled (ch_tokens c) i) (ch_pubs c i))
     \<and> (\<forall>i. length (ch_sent c) \<le> i \<longrightarrow> ch_pubs c i = None)"

definition end_ok :: "('v, 'r) channel \<Rightarrow> bool" where
  "end_ok c \<longleftrightarrow> (ch_ended c \<longrightarrow> ch_buffer c = [] \<and> (ch_closed c \<or> senders_gone c))"

definition channel_inv :: "('v, 'r) channel \<Rightarrow> bool" where
  "channel_inv c \<longleftrightarrow> numbered c \<and> channel_in_order c \<and> cells_ok c \<and> pubs_ok c \<and> end_ok c"

lemmas channel_inv_defs = channel_inv_def numbered_def channel_in_order_def cells_ok_def pubs_ok_def end_ok_def

lemma set_cells_simps [simp]:
  "ch_cells (set_cells x ids c) i = (if i \<in> ids then x else ch_cells c i)"
  "ch_buffer (set_cells x ids c) = ch_buffer c" "ch_capacity (set_cells x ids c) = ch_capacity c"
  "ch_closed (set_cells x ids c) = ch_closed c" "ch_tokens (set_cells x ids c) = ch_tokens c"
  "ch_sinks (set_cells x ids c) = ch_sinks c" "ch_waiting (set_cells x ids c) = ch_waiting c"
  "ch_pubs (set_cells x ids c) = ch_pubs c" "ch_live (set_cells x ids c) = ch_live c"
  "ch_ended (set_cells x ids c) = ch_ended c" "ch_sent (set_cells x ids c) = ch_sent c"
  "ch_received (set_cells x ids c) = ch_received c"
  by (simp_all add: set_cells_def)

lemma nth_list_update': "j < length xs \<Longrightarrow> xs[i := x] ! j = (if i = j then x else xs ! j)"
  by (cases "i < length xs") (auto simp: nth_list_update)

lemma set_cells_buffer: "set_cells x ids (c\<lparr>ch_buffer := b\<rparr>) = (set_cells x ids c)\<lparr>ch_buffer := b\<rparr>"
  by (simp add: set_cells_def cong: if_cong)

lemma next_queued_split:
  assumes "next_queued ts qs = (dropped, r)"
  shows "(\<forall>q \<in> set dropped. token_is_cancelled ts (qd_abandoned q))
    \<and> (case r of None \<Rightarrow> qs = dropped
       | Some (q, rest) \<Rightarrow> qs = dropped @ q # rest \<and> \<not> token_is_cancelled ts (qd_abandoned q))"
  using assms
  by (induction qs arbitrary: dropped r) (auto split: if_splits prod.splits option.splits)

text \<open>The buffered values ahead of \<open>rest\<close> leave the buffer with their cells in order \<open>x\<close>.\<close>

lemma inv_drop_front:
  assumes "channel_inv c" "ch_buffer c = gone @ rest"
  shows "channel_inv ((set_cells CellDropped (qd_done ` set gone) c)\<lparr>ch_buffer := rest\<rparr>)"
proof -
  have sorted: "sorted_wrt (<) (ch_received c @ map qd_done gone @ map qd_done rest)"
    and live: "set (live_ids c) \<subseteq> set (ch_received c)"
    and len: "\<forall>q \<in> set gone. qd_done q < length (ch_sent c)"
    using assms by (auto simp: channel_inv_defs)
  have "distinct (ch_received c @ map qd_done gone @ map qd_done rest)"
    using sorted strict_sorted_iff by blast
  then have out: "qd_done q \<notin> set (map qd_done rest)" "qd_done q \<notin> set (ch_received c)" if "q \<in> set gone" for q
    using that by auto
  let ?c = "(set_cells CellDropped (qd_done ` set gone) c)\<lparr>ch_buffer := rest\<rparr>"
  have "numbered ?c" "end_ok ?c" using assms by (auto simp: channel_inv_defs senders_gone_def)
  moreover have "channel_in_order ?c" using assms sorted by (auto simp: channel_inv_defs sorted_wrt_append)
  moreover have "cells_ok ?c"
  proof -
    have ok: "ch_cells c i = CellOpen \<longleftrightarrow> i \<in> qd_done ` set gone \<or> i \<in> set (map qd_done rest)
        \<or> i \<in> set (live_ids c) \<or> length (ch_sent c) \<le> i"
      "ch_cells c i = CellSent \<Longrightarrow> i \<in> set (ch_received c)" for i
      using assms(1) by (auto simp: channel_inv_def cells_ok_def assms(2))
    have away: "i \<notin> set (map qd_done rest) \<and> i \<notin> set (live_ids c) \<and> i < length (ch_sent c)"
      if "i \<in> qd_done ` set gone" for i
      using that out live len by blast
    show ?thesis using ok away unfolding cells_ok_def by (simp add: linorder_not_le)
  qed
  moreover have "pubs_ok ?c"
  proof -
    have "ch_cells c i = CellOpen" if "i \<in> qd_done ` set gone" for i
      using assms that by (auto simp: channel_inv_defs)
    then have "pub_ok (ch_cells ?c i) t (ch_pubs c i)"
      if "pub_ok (ch_cells c i) t (ch_pubs c i)" for i t
      using that by (cases "(ch_cells c i, t, ch_pubs c i)" rule: pub_ok.cases) auto
    then show ?thesis using assms(1) by (auto simp: channel_inv_def pubs_ok_def)
  qed
  ultimately show ?thesis by (simp add: channel_inv_def)
qed

lemma inv_head:
  assumes "channel_inv c" "ch_buffer c = q # rest"
  shows "qd_done q < length (ch_sent c)" "q = ch_sent c ! qd_done q" "qd_done q \<notin> set (ch_received c)"
    "qd_done q \<notin> set (live_ids c)" "qd_done q \<notin> set (map qd_done rest)"
    "ch_cells c (qd_done q) = CellOpen"
proof -
  have "sorted_wrt (<) (ch_received c @ qd_done q # map qd_done rest)"
    and live: "set (live_ids c) \<subseteq> set (ch_received c)"
    using assms by (auto simp: channel_inv_defs)
  then have "distinct (ch_received c @ qd_done q # map qd_done rest)"
    using strict_sorted_iff by blast
  then show "qd_done q \<notin> set (ch_received c)" "qd_done q \<notin> set (live_ids c)" "qd_done q \<notin> set (map qd_done rest)"
    using live by auto
  show "qd_done q < length (ch_sent c)" "q = ch_sent c ! qd_done q" "ch_cells c (qd_done q) = CellOpen"
    using assms by (simp_all add: channel_inv_defs)
qed

lemma inv_take_live:
  assumes "channel_inv c" "ch_buffer c = q # rest"
  shows "channel_inv (c\<lparr>ch_buffer := rest, ch_live := ch_live c @ [message_of q],
    ch_received := ch_received c @ [qd_done q]\<rparr>)"
proof -
  note head = inv_head [OF assms]
  have "cm_done (message_of q) = qd_done q" by (simp add: message_of_def)
  then show ?thesis
    using assms head by (auto simp: channel_inv_defs sorted_wrt_append)
qed

text \<open>Filling or dropping a cell that is open leaves the publications right.\<close>

lemma pub_ok_open: "pub_ok CellOpen t p \<Longrightarrow> pub_ok x t p"
  by (cases "(CellOpen, t, p)" rule: pub_ok.cases) auto

lemma inv_take_done:
  assumes "channel_inv c" "ch_buffer c = q # rest"
  shows "channel_inv ((set_cells CellSent {qd_done q} c)\<lparr>ch_buffer := rest,
    ch_received := ch_received c @ [qd_done q]\<rparr>)"
proof -
  note head = inv_head [OF assms]
  have "pub_ok CellOpen (token_is_cancelled (ch_tokens c) (qd_done q)) (ch_pubs c (qd_done q))"
    using assms(1) head(6) by (auto simp: channel_inv_def pubs_ok_def split: option.splits dest: spec [of _ "qd_done q"])
  then have "pub_ok CellSent (token_is_cancelled (ch_tokens c) (qd_done q)) (ch_pubs c (qd_done q))"
    by (rule pub_ok_open)
  then show ?thesis
    using assms head by (auto simp: channel_inv_defs sorted_wrt_append)
qed

lemma distinct_remove_nth:
  assumes "distinct (map f xs)" "i < length xs"
  shows "distinct (map f (remove_nth i xs))" "f ` set (remove_nth i xs) = f ` set xs - {f (xs ! i)}"
proof -
  have "map f xs = map f (take i xs) @ f (xs ! i) # map f (drop (Suc i) xs)"
    by (subst remove_nth_split [OF assms(2)]) simp
  moreover have "f ` set xs = set (map f xs)" by simp
  ultimately show "distinct (map f (remove_nth i xs))" "f ` set (remove_nth i xs) = f ` set xs - {f (xs ! i)}"
    using assms(1) by (auto simp: remove_nth_def)
qed

lemma inv_end_delivery:
  assumes "channel_inv c" "i < length (ch_live c)" "x \<noteq> CellOpen"
  shows "channel_inv (end_delivery x i c)"
proof -
  let ?n = "cm_done (ch_live c ! i)"
  have live: "distinct (live_ids c)" "set (live_ids c) \<subseteq> set (ch_received c)"
    using assms(1) by (simp_all add: channel_inv_defs)
  have n: "?n \<in> set (live_ids c)" using assms(2) by simp
  have "distinct (ch_received c @ buffered c)"
    using assms(1) strict_sorted_iff unfolding channel_inv_def channel_in_order_def by blast
  then have away: "?n \<in> set (ch_received c)" "?n \<notin> set (buffered c)" using n live(2) by auto
  have less: "?n < length (ch_sent c)" and cell: "ch_cells c ?n = CellOpen"
    using assms(1,2) by (simp_all add: channel_inv_defs)
  note rem = distinct_remove_nth [of cm_done "ch_live c" i, OF live(1) assms(2)]
  have sub: "set (remove_nth i (ch_live c)) \<subseteq> set (ch_live c)" by (rule set_remove_nth)
  let ?c = "end_delivery x i c"
  have "numbered ?c" using assms(1) sub by (auto simp: channel_inv_defs end_delivery_def)
  moreover have "channel_in_order ?c"
    using assms(1) rem by (auto simp: channel_inv_defs end_delivery_def)
  moreover have "cells_ok ?c"
    using assms(1,3) rem away less unfolding channel_inv_def cells_ok_def
    by (auto simp: end_delivery_def)
  moreover have "pubs_ok ?c"
  proof -
    have pubs: "pub_ok (ch_cells c j) (token_is_cancelled (ch_tokens c) j) (ch_pubs c j)"
      "length (ch_sent c) \<le> j \<Longrightarrow> ch_pubs c j = None" for j
      using assms(1) by (simp_all add: channel_inv_def pubs_ok_def)
    have "pub_ok x (token_is_cancelled (ch_tokens c) ?n) (ch_pubs c ?n)"
      using pubs(1) [of ?n] unfolding cell by (rule pub_ok_open)
    then show ?thesis using pubs by (simp add: pubs_ok_def end_delivery_def)
  qed
  moreover have "end_ok ?c" using assms(1) by (simp add: channel_inv_defs end_delivery_def senders_gone_def)
  ultimately show ?thesis by (simp add: channel_inv_def)
qed

lemma inv_frame:
  assumes "channel_inv c" "end_ok c'" "ch_capacity c' = ch_capacity c" "ch_buffer c' = ch_buffer c"
    "ch_tokens c' = ch_tokens c" "ch_cells c' = ch_cells c" "ch_pubs c' = ch_pubs c"
    "ch_live c' = ch_live c" "ch_sent c' = ch_sent c" "ch_received c' = ch_received c"
  shows "channel_inv c'"
  using assms(1,2) unfolding channel_inv_def numbered_def channel_in_order_def cells_ok_def pubs_ok_def
  by (simp add: assms(3-))

lemma channel_inv_end: "channel_inv c \<Longrightarrow> end_ok c"
  by (simp add: channel_inv_def)

lemma inv_enqueue:
  assumes "channel_inv c" "i < length (ch_waiting c)" "enqueue i propagation c = Some (r, c')"
  shows "channel_inv c'"
proof (cases "ch_closed c")
  case True
  then have "c' = c\<lparr>ch_waiting := remove_nth i (ch_waiting c)\<rparr>"
    using assms(3) by (simp add: enqueue_def Let_def case_prod_beta)
  then show ?thesis
    using True channel_inv_end [OF assms(1)] by (intro inv_frame [OF assms(1)]) (simp_all add: end_ok_def)
next
  case False
  obtain out waits where w: "ch_waiting c ! i = (out, waits)" by (cases "ch_waiting c ! i")
  let ?n = "length (ch_sent c)"
  let ?q = "\<lparr>qd_value = co_value out, qd_done = ?n, qd_abandoned = tok_next (ch_tokens c),
             qd_propagation = propagation, qd_origin = co_origin out\<rparr>"
  have room: "length (ch_buffer c) < ch_capacity c"
    and c': "c' = c\<lparr>ch_waiting := remove_nth i (ch_waiting c), ch_buffer := ch_buffer c @ [?q],
        ch_tokens := snd (token_new (ch_tokens c)),
        ch_pubs := (if waits then (ch_pubs c)(?n \<mapsto> PubWaiting) else ch_pubs c),
        ch_sent := ch_sent c @ [?q]\<rparr>"
    using assms(3) False w by (auto simp: enqueue_def Let_def case_prod_beta split: if_splits)
  have next_tok: "tok_next (ch_tokens c) = ?n" using assms(1) by (simp add: channel_inv_defs)
  have "ch_waiting c \<noteq> []" using assms(2) by auto
  then have "\<not> ch_ended c" using assms(1) False by (auto simp: channel_inv_defs senders_gone_def)
  then have "end_ok c'" by (simp add: c' end_ok_def)
  moreover have "numbered c'"
    using assms(1) by (auto simp: channel_inv_defs c' nth_append less_Suc_eq)
  moreover have "channel_in_order c'"
    using assms(1) room by (auto simp: channel_inv_defs c' sorted_wrt_append)
  moreover have "cells_ok c'"
    using assms(1) by (auto simp: channel_inv_def cells_ok_def c')
  moreover have "pubs_ok c'"
  proof -
    have pubs: "pub_ok (ch_cells c j) (token_is_cancelled (ch_tokens c) j) (ch_pubs c j)"
      "?n \<le> j \<Longrightarrow> ch_pubs c j = None" for j
      using assms(1) by (simp_all add: channel_inv_def pubs_ok_def)
    have "\<not> token_is_cancelled (ch_tokens c) ?n" using pubs(1) [of ?n] pubs(2) [of ?n] by simp
    then show ?thesis using pubs by (simp add: pubs_ok_def c')
  qed
  ultimately show ?thesis by (simp add: channel_inv_def)
qed

lemma inv_receive:
  assumes "channel_inv c"
  shows "channel_inv (source_receive c)" "channel_inv (receiver_recv c)"
proof -
  obtain dropped r where nq: "next_queued (ch_tokens c) (ch_buffer c) = (dropped, r)"
    by (cases "next_queued (ch_tokens c) (ch_buffer c)")
  note split = next_queued_split [OF nq]
  let ?d = "\<lambda>rest. (set_cells CellDropped (qd_done ` set dropped) c)\<lparr>ch_buffer := rest\<rparr>"
  have "channel_inv (source_receive c) \<and> channel_inv (receiver_recv c)"
  proof (cases r)
    case None
    then have "channel_inv (?d [])" using split inv_drop_front [OF assms, of dropped "[]"] by simp
    then have "channel_inv ((?d [])\<lparr>ch_ended := ch_closed c \<or> senders_gone c\<rparr>)"
      by (auto simp: channel_inv_defs senders_gone_def)
    then show ?thesis
      by (simp add: source_receive_def receiver_recv_def nq None Let_def senders_gone_def)
  next
    case (Some qr)
    then obtain q rest where r: "r = Some (q, rest)" by (cases qr) auto
    then have "channel_inv (?d (q # rest))" using split inv_drop_front [OF assms, of dropped "q # rest"] by simp
    from inv_take_live [OF this, of q rest] inv_take_done [OF this, of q rest] show ?thesis
      by (simp add: source_receive_def receiver_recv_def nq r Let_def set_cells_buffer)
  qed
  then show "channel_inv (source_receive c)" "channel_inv (receiver_recv c)" by simp_all
qed

lemma inv_pub:
  assumes "channel_inv c" "ch_pubs c n = Some PubWaiting"
  shows "channel_inv (drop_publication n c)" "resolve n c = Some c' \<Longrightarrow> channel_inv c'"
proof -
  have n: "n < length (ch_sent c)"
  proof (rule ccontr)
    assume "\<not> n < length (ch_sent c)"
    then have "ch_pubs c n = None" using assms(1) by (simp add: channel_inv_def pubs_ok_def)
    with assms(2) show False by simp
  qed
  have "pub_ok (ch_cells c n) (token_is_cancelled (ch_tokens c) n) (ch_pubs c n)"
    using assms(1) by (simp add: channel_inv_def pubs_ok_def)
  then have live: "\<not> token_is_cancelled (ch_tokens c) n" using assms(2) by simp
  have "qd_abandoned (ch_sent c ! n) = n" using assms(1) n by (simp add: channel_inv_defs)
  moreover have pubs: "pub_ok (ch_cells c j) (token_is_cancelled (ch_tokens c) j) (ch_pubs c j)"
    "length (ch_sent c) \<le> j \<Longrightarrow> ch_pubs c j = None" for j
    using assms(1) by (simp_all add: channel_inv_def pubs_ok_def)
  ultimately have "pubs_ok (drop_publication n c)"
    using n by (simp add: pubs_ok_def drop_publication_def)
  moreover have "numbered (drop_publication n c)" "channel_in_order (drop_publication n c)"
    "cells_ok (drop_publication n c)" "end_ok (drop_publication n c)"
    using assms(1) by (simp_all add: channel_inv_def numbered_def channel_in_order_def cells_ok_def end_ok_def
        drop_publication_def senders_gone_def)
  ultimately show "channel_inv (drop_publication n c)" by (simp add: channel_inv_def)
  show "channel_inv c'" if resolved: "resolve n c = Some c'"
  proof -
    obtain p where c': "c' = c\<lparr>ch_pubs := (ch_pubs c)(n \<mapsto> p)\<rparr>" and "pub_ok (ch_cells c n) False (Some p)"
      using resolved by (auto simp: resolve_def split: cell.splits)
    then have "pubs_ok c'" using live pubs n by (simp add: pubs_ok_def)
    moreover have "numbered c'" "channel_in_order c'" "cells_ok c'" "end_ok c'"
      using assms(1) by (simp_all add: channel_inv_def numbered_def channel_in_order_def cells_ok_def end_ok_def
          c' senders_gone_def)
    ultimately show ?thesis by (simp add: channel_inv_def)
  qed
qed

lemma channel_inv_step:
  assumes "channel_inv c" "channel_step c ev = Some c'"
  shows "channel_inv c'"
proof -
  note endok = channel_inv_end [OF assms(1)]
  note ends = end_ok_def senders_gone_def list_all_length
  show ?thesis
  proof (cases ev)
    case (ChClone s)
    then have "s < length (ch_sinks c)" "c' = sink_clone s c" using assms(2) by (auto split: if_splits)
    then show ?thesis
      using endok by (intro inv_frame [OF assms(1)]) (auto simp: ends sink_clone_def nth_append)
  next
    case (ChCloseSink s)
    then have "c' = sink_close s c" using assms(2) by simp
    then show ?thesis
      using endok by (intro inv_frame [OF assms(1)]) (auto simp: ends sink_close_def nth_list_update')
  next
    case (ChSubmit s out)
    then have "s < length (ch_sinks c)" "c' = snd (sink_submit s out c)"
      using assms(2) by (auto split: if_splits)
    then show ?thesis
      using endok by (intro inv_frame [OF assms(1)]) (auto simp: ends sink_submit_def)
  next
    case (ChSend s v)
    then have "s < length (ch_sinks c)" "ch_sinks c ! s" "c' = sender_send s v c"
      using assms(2) by (auto split: if_splits)
    then show ?thesis
      using endok by (intro inv_frame [OF assms(1)]) (auto simp: ends sender_send_def)
  next
    case (ChCancelSubmit i)
    then have "c' = c\<lparr>ch_waiting := remove_nth i (ch_waiting c)\<rparr>" "i < length (ch_waiting c)"
      using assms(2) by (auto split: if_splits)
    then show ?thesis
      using endok by (intro inv_frame [OF assms(1)]) (auto simp: ends)
  next
    case ChClose
    then have "c' = receiver_close c" using assms(2) by simp
    then show ?thesis
      using endok by (intro inv_frame [OF assms(1)]) (auto simp: ends receiver_close_def)
  next
    case ChDropReceiver
    then have c': "c' = ((set_cells CellDropped (qd_done ` set (ch_buffer c)) c)\<lparr>ch_buffer := []\<rparr>)\<lparr>ch_closed := True\<rparr>"
      using assms(2) by (simp add: receiver_drop_def)
    have "channel_inv ((set_cells CellDropped (qd_done ` set (ch_buffer c)) c)\<lparr>ch_buffer := []\<rparr>)"
      by (rule inv_drop_front [OF assms(1)]) simp
    then show ?thesis unfolding c' by (rule inv_frame) (simp_all add: end_ok_def)
  qed (use assms in \<open>auto split: if_splits intro: inv_enqueue inv_receive inv_pub inv_end_delivery\<close>)
qed

interpretation channel: invariant_system channel_init channel_step channel_inv
proof unfold_locales
  fix c :: "('v, 'r) channel"
  assume "channel_init c"
  then show "channel_inv c"
    by (auto simp: channel_init_def channel_new_def channel_inv_defs tokens_empty_def
        token_is_cancelled_def split: if_splits)
qed (rule channel_inv_step)

section \<open>What a channel promises\<close>


text \<open>What was handed to the channel in a run, and the trace contexts of its enqueuings.\<close>

fun outputs_of :: "('v, 'r) channel_event list \<Rightarrow> ('v, 'r) channel_output list" where
  "outputs_of [] = []"
| "outputs_of (ChSubmit s out # es) = out # outputs_of es"
| "outputs_of (ChSend s v # es) =
     \<lparr>co_value = v, co_origin = \<lparr>og_ordering_key = None, og_message_key = None, og_raw = None\<rparr>\<rparr> # outputs_of es"
| "outputs_of (_ # es) = outputs_of es"

definition contexts_of :: "('v, 'r) channel_event list \<Rightarrow> (string \<times> string) list list" where
  "contexts_of es = concat (map (\<lambda>e. case e of ChEnqueue i p \<Rightarrow> [p] | _ \<Rightarrow> []) es)"

lemma outputs_of_append [simp]: "outputs_of (es @ fs) = outputs_of es @ outputs_of fs"
  by (induction es rule: outputs_of.induct) simp_all

definition submitted_ok :: "('v, 'r) channel_event list \<Rightarrow> ('v, 'r) channel \<Rightarrow> bool" where
  "submitted_ok es c \<longleftrightarrow>
     mset (map (\<lambda>q. \<lparr>co_value = qd_value q, co_origin = qd_origin q\<rparr>) (ch_sent c))
       + mset (map fst (ch_waiting c)) \<subseteq># mset (outputs_of es)
     \<and> subseq (map qd_propagation (ch_sent c)) (contexts_of es)"

lemma submitted_enqueue:
  assumes "submitted_ok es c" "i < length (ch_waiting c)" "enqueue i p c = Some (r, c')"
  shows "submitted_ok (es @ [ChEnqueue i p]) c'"
proof -
  obtain v g waits where w: "ch_waiting c ! i = (\<lparr>co_value = v, co_origin = g\<rparr>, waits)"
    by (metis channel_output.cases prod.exhaust)
  have ms: "mset (map fst (ch_waiting c)) = add_mset \<lparr>co_value = v, co_origin = g\<rparr> (mset (map fst (remove_nth i (ch_waiting c))))"
    using arg_cong [OF mset_remove_nth [OF assms(2)], of "image_mset fst"] w by simp
  then show ?thesis using assms ms w
    by (auto simp: submitted_ok_def enqueue_def contexts_of_def Let_def case_prod_beta
        split: if_splits intro: subset_mset.order_trans list_emb_append_mono list_emb_append2
        dest: mset_subset_eq_insertD)
qed

lemma submitted_step:
  assumes "submitted_ok es c" "channel_step c e = Some c'"
  shows "submitted_ok (es @ [e]) c'"
proof (cases e)
  case (ChEnqueue i p)
  with assms show ?thesis by (auto split: if_splits intro: submitted_enqueue)
next
  case (ChCancelSubmit i)
  then have i: "i < length (ch_waiting c)" and c': "c' = c\<lparr>ch_waiting := remove_nth i (ch_waiting c)\<rparr>"
    using assms(2) by (auto split: if_splits)
  have "mset (map fst (remove_nth i (ch_waiting c))) \<subseteq># mset (map fst (ch_waiting c))"
    using arg_cong [OF mset_remove_nth [OF i], of "image_mset fst"] by simp
  then show ?thesis using assms(1) ChCancelSubmit c'
    by (auto simp: submitted_ok_def contexts_of_def intro: subset_mset.order_trans subset_mset.add_left_mono)
next
  case (ChSubmit s out)
  with assms show ?thesis
    by (auto simp: submitted_ok_def contexts_of_def sink_submit_def split: if_splits
        intro: subset_mset.order_trans)
next
  case (ChSend s v)
  with assms show ?thesis
    by (auto simp: submitted_ok_def contexts_of_def sender_send_def channel_prepare_def origin_default_def
        split: if_splits)
qed (use assms in \<open>auto simp: submitted_ok_def contexts_of_def sink_clone_def sink_close_def drop_publication_def
    resolve_def source_receive_def receiver_recv_def end_delivery_def receiver_close_def receiver_drop_def
    set_cells_def Let_def split: if_splits cell.splits prod.splits option.splits\<close>)

lemma channel_submitted:
  assumes "channel_init c0" "run channel_step c0 es = Some c"
  shows "mset (map (\<lambda>q. \<lparr>co_value = qd_value q, co_origin = qd_origin q\<rparr>) (ch_sent c))
      + mset (map fst (ch_waiting c)) \<subseteq># mset (outputs_of es)"
    and "subseq (map qd_propagation (ch_sent c)) (contexts_of es)"
proof -
  have "submitted_ok [] c0"
    using assms(1) by (auto simp: submitted_ok_def channel_init_def channel_new_def split: if_splits)
  from run_history [where P = submitted_ok, OF assms(2) this submitted_step] have "submitted_ok es c" .
  then show "mset (map (\<lambda>q. \<lparr>co_value = qd_value q, co_origin = qd_origin q\<rparr>) (ch_sent c))
      + mset (map fst (ch_waiting c)) \<subseteq># mset (outputs_of es)"
    and "subseq (map qd_propagation (ch_sent c)) (contexts_of es)"
    by (simp_all add: submitted_ok_def)
qed

lemma numbered_live:
  assumes "numbered c" "m \<in> set (ch_live c)"
  shows "cm_done m < length (ch_sent c) \<and> cm_revocation m = cm_done m
    \<and> cm_value m = qd_value (ch_sent c ! cm_done m)
    \<and> cm_propagation m = qd_propagation (ch_sent c ! cm_done m)
    \<and> cm_ordering_key m = og_ordering_key (qd_origin (ch_sent c ! cm_done m))
    \<and> cm_message_key m = og_message_key (qd_origin (ch_sent c ! cm_done m))
    \<and> cm_raw m = og_raw (qd_origin (ch_sent c ! cm_done m))"
proof -
  let ?q = "ch_sent c ! cm_done m"
  have live: "cm_done m < length (ch_sent c)" "m = message_of ?q" using assms by (auto simp: numbered_def)
  then have "qd_abandoned ?q = cm_done m" using assms(1) by (auto simp: numbered_def)
  with live(1) arg_cong [OF live(2), of cm_value] arg_cong [OF live(2), of cm_revocation]
    arg_cong [OF live(2), of cm_propagation] arg_cong [OF live(2), of cm_ordering_key]
    arg_cong [OF live(2), of cm_message_key] arg_cong [OF live(2), of cm_raw]
  show ?thesis by (simp add: message_of_def)
qed

text \<open>
  C23. A channel hands values over in the order they were enqueued, each at most once, and never holds
  more than its capacity. The values enqueued or waiting are among those handed to the sink or a
  sender, each as often as it was handed over and with its ordering key, message key and raw form (none
  of them for a plain send); their trace contexts are the senders' at the enqueuing, in order; and a
  delivery carries the value, trace context, keys and raw form that were enqueued and watches the token
  its publication cancels. Every value enqueued is buffered, was handed over, or was dropped with its
  publication told so; and once the source has ended nothing is buffered.
\<close>

theorem channel_fifo:
  assumes "channel_init c0" "run channel_step c0 es = Some c"
  shows "sorted_wrt (<) (ch_received c @ map qd_done (ch_buffer c))
    \<and> length (ch_buffer c) \<le> ch_capacity c
    \<and> mset (map (\<lambda>q. \<lparr>co_value = qd_value q, co_origin = qd_origin q\<rparr>) (ch_sent c))
        + mset (map fst (ch_waiting c)) \<subseteq># mset (outputs_of es)
    \<and> subseq (map qd_propagation (ch_sent c)) (contexts_of es)
    \<and> list_all (\<lambda>m. cm_done m < length (ch_sent c) \<and> cm_revocation m = cm_done m
         \<and> cm_value m = qd_value (ch_sent c ! cm_done m)
         \<and> cm_propagation m = qd_propagation (ch_sent c ! cm_done m)
         \<and> cm_ordering_key m = og_ordering_key (qd_origin (ch_sent c ! cm_done m))
         \<and> cm_message_key m = og_message_key (qd_origin (ch_sent c ! cm_done m))
         \<and> cm_raw m = og_raw (qd_origin (ch_sent c ! cm_done m))) (ch_live c)
    \<and> (\<forall>i. i < length (ch_sent c) \<longrightarrow>
         i \<in> set (map qd_done (ch_buffer c)) \<or> i \<in> set (ch_received c) \<or> ch_cells c i = CellDropped)
    \<and> (ch_ended c \<longrightarrow> ch_buffer c = [])"
proof -
  note inv = channel.reach_inv [OF run_reach [where init = channel_init, OF assms]]
  have kept: "i \<in> set (buffered c) \<or> i \<in> set (ch_received c) \<or> ch_cells c i = CellDropped"
    if "i < length (ch_sent c)" for i
  proof -
    have "ch_cells c i = CellOpen \<longrightarrow> i \<in> set (buffered c) \<or> i \<in> set (live_ids c)"
      "ch_cells c i = CellSent \<longrightarrow> i \<in> set (ch_received c)"
      using inv that by (auto simp: channel_inv_def cells_ok_def)
    moreover have "set (live_ids c) \<subseteq> set (ch_received c)" using inv by (simp add: channel_inv_defs)
    ultimately show ?thesis by (cases "ch_cells c i") auto
  qed
  have live: "list_all (\<lambda>m. cm_done m < length (ch_sent c) \<and> cm_revocation m = cm_done m
         \<and> cm_value m = qd_value (ch_sent c ! cm_done m)
         \<and> cm_propagation m = qd_propagation (ch_sent c ! cm_done m)
         \<and> cm_ordering_key m = og_ordering_key (qd_origin (ch_sent c ! cm_done m))
         \<and> cm_message_key m = og_message_key (qd_origin (ch_sent c ! cm_done m))
         \<and> cm_raw m = og_raw (qd_origin (ch_sent c ! cm_done m))) (ch_live c)"
    unfolding list_all_iff by (intro ballI numbered_live) (use inv in \<open>simp_all add: channel_inv_def\<close>)
  have order: "sorted_wrt (<) (ch_received c @ buffered c)" "length (ch_buffer c) \<le> ch_capacity c"
    using inv unfolding channel_inv_def channel_in_order_def by blast+
  have ended: "ch_ended c \<longrightarrow> ch_buffer c = []"
    using inv unfolding channel_inv_def end_ok_def by blast
  show ?thesis by (intro conjI order live ended allI impI channel_submitted [OF assms]) (rule kept)
qed

text \<open>A value that is received and acknowledged while a second one is buffered.\<close>

definition ex_channel :: "(nat, nat) channel" where
  "ex_channel = the (channel_new 2)"

lemma ex_channel_init: "channel_init ex_channel"
  unfolding channel_init_def by (rule exI [of _ 2]) (simp add: ex_channel_def channel_new_def)

definition ex_channel_events :: "(nat, nat) channel_event list" where
  "ex_channel_events =
     [ChSubmit 0 (channel_prepare 5), ChSend 0 6, ChEnqueue 0 [], ChEnqueue 0 [], ChReceive, ChAck 0,
      ChResolve 0]"

lemma ex_channel_run:
  "run_ok (\<lambda>c. ch_pubs c 0 = Some PubDone \<and> ch_received c = [0] \<and> map qd_value (ch_buffer c) = [6])
     (run channel_step ex_channel ex_channel_events)"
  by (simp add: ex_channel_events_def ex_channel_def channel_new_def sink_submit_def sender_send_def
      channel_prepare_def enqueue_def source_receive_def end_delivery_def resolve_def message_of_def
      set_cells_def token_new_def tokens_empty_def token_is_cancelled_def remove_nth_def Let_def)


theorem channel_fifo_witness:
  "\<exists>c :: (nat, nat) channel. run channel_step ex_channel ex_channel_events = Some c
     \<and> ch_received c = [0] \<and> map qd_value (ch_buffer c) = [6]
     \<and> sorted_wrt (<) (ch_received c @ map qd_done (ch_buffer c))"
proof -
  obtain c :: "(nat, nat) channel" where c: "run channel_step ex_channel ex_channel_events = Some c"
    "ch_received c = [0]" "map qd_value (ch_buffer c) = [6]"
    by (rule run_ok_reach [where init = channel_init, OF ex_channel_init ex_channel_run]) simp
  with channel_fifo [OF ex_channel_init c(1)] show ?thesis by (intro exI [of _ c]) simp
qed

end
