(* ===== verification/Pulsar_Resend.thy ===== *)
theory Pulsar_Resend
  imports Retry Errors
begin

text \<open>
  The resender of \<^verbatim>\<open>src/adapters/pulsar/resend.rs\<close>. Callers queue messages on the producer and hand
  an attempt to a task, which awaits the receipts in order and sends rejected messages again. The
  producer's answers are inputs of the steps; the producer itself is not modelled beyond the order in
  which it was given messages. Messages are numbered in the order of the \<^verbatim>\<open>send\<close> calls.
\<close>

text \<open>
  \<^verbatim>\<open>ClientError\<close>, of which the code looks at the rejection code; the two codes are those of the
  Pulsar protocol's \<^verbatim>\<open>ServerError\<close> and are parameters.
\<close>

datatype client_error = SendRejected int string | OtherClientError box_error

record server_codes =
  not_allowed_error :: int
  topic_terminated_error :: int

fun resendable :: "server_codes \<Rightarrow> client_error \<Rightarrow> bool" where
  "resendable codes (SendRejected code m) \<longleftrightarrow>
     code \<notin> {not_allowed_error codes, topic_terminated_error codes}"
| "resendable codes (OtherClientError e) \<longleftrightarrow> False"

record attempt =
  at_message :: nat
  at_failures :: nat
  at_sent_at :: nat

text \<open>
  The task holds its queue and the attempt it took from it, while it awaits the receipt and while it
  waits to send again. \<open>re_log\<close>
  is what the producer was given, each message with the number of its rejections so far;
  \<open>re_outcomes\<close> is what callers were told; \<open>re_closed\<close> are the messages whose callers no longer wait.
\<close>

record resender =
  re_channel :: "attempt list"
  re_pending :: "attempt list"
  re_awaiting :: "attempt option"
  re_sleeping :: "(attempt \<times> nat) option"
  re_next :: nat
  re_now :: nat
  re_log :: "(nat \<times> nat) list"
  re_outcomes :: "(nat \<times> (client_error + unit)) list"
  re_closed :: "nat set"

definition resender_spawn :: "nat \<Rightarrow> resender" where
  "resender_spawn now =
     \<lparr>re_channel = [], re_pending = [], re_awaiting = None, re_sleeping = None, re_next = 0, re_now = now, re_log = [],
      re_outcomes = [], re_closed = {}\<rparr>"

text \<open>\<^verbatim>\<open>Resender::send\<close>, under the lock of the sender.\<close>

definition resender_send :: "resender \<Rightarrow> resender" where
  "resender_send R =
     R\<lparr>re_log := re_log R @ [(re_next R, 0)],
       re_channel := re_channel R @ [\<lparr>at_message = re_next R, at_failures = 0, at_sent_at = re_now R\<rparr>],
       re_next := Suc (re_next R)\<rparr>"

text \<open>Telling the caller; a caller that no longer waits learns nothing.\<close>

definition tell :: "nat \<Rightarrow> client_error + unit \<Rightarrow> resender \<Rightarrow> resender" where
  "tell m r R = (if m \<in> re_closed R then R else R\<lparr>re_outcomes := re_outcomes R @ [(m, r)]\<rparr>)"

text \<open>
  A turn of \<^verbatim>\<open>await_receipts\<close> starts by moving queued attempts to the pending ones and taking the
  first. When nothing is queued the task waits.
\<close>

definition take_attempt :: "resender \<Rightarrow> resender option" where
  "take_attempt R =
     (if re_awaiting R \<noteq> None \<or> re_sleeping R \<noteq> None then None
      else case re_pending R @ re_channel R of
        [] \<Rightarrow> None
      | a # rest \<Rightarrow> Some (R\<lparr>re_pending := rest, re_channel := [], re_awaiting := Some a\<rparr>))"

text \<open>Then its receipt is awaited. A rejected message that may be sent again sleeps until \<open>sent_at + delay\<close>.\<close>

definition await_receipt ::
  "server_codes \<Rightarrow> retry_policy \<Rightarrow> u64 \<Rightarrow> client_error + unit \<Rightarrow> resender \<Rightarrow> resender option" where
  "await_receipt codes retry rnd receipt R =
     (case re_awaiting R of
        None \<Rightarrow> None
      | Some a \<Rightarrow>
          let R = R\<lparr>re_awaiting := None\<rparr> in
          (case receipt of
             Inr _ \<Rightarrow> Some (tell (at_message a) (Inr ()) R)
           | Inl e \<Rightarrow>
               let a = a\<lparr>at_failures := at_failures a + 1\<rparr> in
               if \<not> resendable codes e \<or> at_failures a \<ge> max_attempts retry
               then Some (tell (at_message a) (Inl e) R)
               else if at_message a \<in> re_closed R then Some R
               else Some (R\<lparr>re_sleeping := Some (a, at_sent_at a + delay rnd retry (at_failures a))\<rparr>)))"

text \<open>The rest of the turn, after the sleep.\<close>

definition resend :: "resender \<Rightarrow> resender option" where
  "resend R =
     (case re_sleeping R of
        None \<Rightarrow> None
      | Some (a, until) \<Rightarrow>
          if until \<le> re_now R
          then Some (R\<lparr>re_log := re_log R @ [(at_message a, at_failures a)], re_sleeping := None,
                       re_pending := re_pending R @ [a\<lparr>at_sent_at := re_now R\<rparr>]\<rparr>)
          else None)"

datatype resend_event =
    ReSend
  | ReTake
  | ReAwait u64 "client_error + unit"
  | ReResend
  | ReClose nat
  | ReTick nat

fun resend_step ::
  "server_codes \<Rightarrow> retry_policy \<Rightarrow> resender \<Rightarrow> resend_event \<Rightarrow> resender option" where
  "resend_step codes retry R ReSend = Some (resender_send R)"
| "resend_step codes retry R ReTake = take_attempt R"
| "resend_step codes retry R (ReAwait rnd receipt) = await_receipt codes retry rnd receipt R"
| "resend_step codes retry R ReResend = resend R"
| "resend_step codes retry R (ReClose m) =
     (if m < re_next R then Some (R\<lparr>re_closed := insert m (re_closed R)\<rparr>) else None)"
| "resend_step codes retry R (ReTick d) = Some (R\<lparr>re_now := re_now R + d\<rparr>)"

definition resend_init :: "resender \<Rightarrow> bool" where
  "resend_init R \<longleftrightarrow> (\<exists>now. R = resender_spawn now)"

abbreviation resend_reach :: "server_codes \<Rightarrow> retry_policy \<Rightarrow> resender \<Rightarrow> bool" where
  "resend_reach codes retry \<equiv> reach resend_init (resend_step codes retry)"

section \<open>Sends keep the submission order in every round\<close>

text \<open>The attempts the task still has, in the order it takes them, as message and round.\<close>

definition re_queue :: "resender \<Rightarrow> (nat \<times> nat) list" where
  "re_queue R =
     map (\<lambda>a. (at_message a, at_failures a)) (re_pending R @ re_channel R)"

text \<open>
  The attempt the task took. A sleeping one has been counted as rejected but not sent again; it is
  still of the round before.
\<close>

definition re_taken :: "resender \<Rightarrow> (nat \<times> nat) list" where
  "re_taken R =
     (case re_awaiting R of None \<Rightarrow> [] | Some a \<Rightarrow> [(at_message a, at_failures a)])
     @ (case re_sleeping R of None \<Rightarrow> [] | Some (a, _) \<Rightarrow> [(at_message a, at_failures a - 1)])"

definition in_round :: "nat \<Rightarrow> (nat \<times> nat) list \<Rightarrow> nat list" where
  "in_round k xs = map fst (filter (\<lambda>x. snd x = k) xs)"

lemma in_round_simps [simp]:
  "in_round k [] = []"
  "in_round k (x # xs) = (if snd x = k then [fst x] else []) @ in_round k xs"
  "in_round k (xs @ ys) = in_round k xs @ in_round k ys"
  by (simp_all add: in_round_def)

text \<open>
  What was sent in the next round followed by what waits in this round is in submission order, and
  was sent in this round.
\<close>

definition rounds_ok :: "(nat \<times> nat) list \<Rightarrow> (nat \<times> nat) list \<Rightarrow> bool" where
  "rounds_ok log queue \<longleftrightarrow>
     (\<forall>k. sorted_wrt (<) (in_round (Suc k) log @ in_round k queue)
        \<and> set (in_round (Suc k) log) \<union> set (in_round k queue) \<subseteq> set (in_round k log))"

lemma rounds_ok_submit:
  assumes "rounds_ok log queue" "\<forall>x \<in> set log. fst x < n"
  shows "rounds_ok (log @ [(n, 0)]) (queue @ [(n, 0)])"
proof -
  have "x < n" if "x \<in> set (in_round k log)" for k x
    using assms(2) that by (auto simp: in_round_def)
  then show ?thesis
    using assms(1) by (fastforce simp: rounds_ok_def sorted_wrt_append)
qed

lemma rounds_ok_end:
  assumes "rounds_ok log (x # queue)"
  shows "rounds_ok log queue"
  using assms by (auto simp: rounds_ok_def sorted_wrt_append split: if_splits)

lemma rounds_ok_level:
  assumes "rounds_ok log queue"
  shows "sorted_wrt (<) (in_round (Suc k) log @ in_round k queue)"
    "set (in_round (Suc k) log) \<subseteq> set (in_round k log)" "set (in_round k queue) \<subseteq> set (in_round k log)"
  using assms by (simp_all add: rounds_ok_def)

lemma rounds_ok_resend:
  assumes "rounds_ok log ((m, k) # queue)"
  shows "rounds_ok (log @ [(m, Suc k)]) (queue @ [(m, Suc k)])"
proof -
  note level = rounds_ok_level [OF assms]
  have "x < m" if "x \<in> set (in_round (Suc k) log)" for x
    using level(1) [of k] that by (simp add: sorted_wrt_append)
  then have earlier: "x < m" if "x \<in> set (in_round (Suc (Suc k)) log) \<union> set (in_round (Suc k) queue)" for x
    using level(2,3) [of "Suc k"] that by auto
  have "sorted_wrt (<) (in_round (Suc j) (log @ [(m, Suc k)]) @ in_round j (queue @ [(m, Suc k)]))
      \<and> set (in_round (Suc j) (log @ [(m, Suc k)])) \<union> set (in_round j (queue @ [(m, Suc k)]))
         \<subseteq> set (in_round j (log @ [(m, Suc k)]))" for j
  proof -
    consider "j = k" | "j = Suc k" | "j \<noteq> k" "j \<noteq> Suc k" by blast
    then show ?thesis
      using level [of j] earlier by cases (auto simp: sorted_wrt_append split: if_splits)
  qed
  then show ?thesis by (simp add: rounds_ok_def)
qed

section \<open>The invariant of the task\<close>

abbreviation in_task :: "resender \<Rightarrow> (nat \<times> nat) list" where
  "in_task R \<equiv> re_taken R @ re_queue R"

text \<open>Each message is in the task at most once and in its last round, or its sends have ended.\<close>

definition resend_inv :: "retry_policy \<Rightarrow> resender \<Rightarrow> bool" where
  "resend_inv retry R \<longleftrightarrow>
     rounds_ok (re_log R) (in_task R)
     \<and> in_round 0 (re_log R) = [0..<re_next R]
     \<and> (\<forall>x \<in> set (re_log R). fst x < re_next R \<and> (snd x = 0 \<or> snd x < max_attempts retry))
     \<and> (re_awaiting R = None \<or> re_sleeping R = None)
     \<and> (\<forall>a u. re_sleeping R = Some (a, u) \<longrightarrow> 0 < at_failures a \<and> at_failures a < max_attempts retry)
     \<and> (\<forall>a \<in> set (re_channel R). at_failures a = 0)
     \<and> distinct (map fst (in_task R) @ map fst (re_outcomes R))
     \<and> fst ` set (re_outcomes R) \<subseteq> {..<re_next R}"

lemma in_task_less:
  assumes "resend_inv retry R" "x \<in> set (in_task R)"
  shows "fst x < re_next R"
proof -
  have rounds: "rounds_ok (re_log R) (in_task R)" using assms(1) by (simp add: resend_inv_def)
  have "fst x \<in> set (in_round (snd x) (in_task R))" using assms(2) by (auto simp: in_round_def)
  then have "fst x \<in> set (in_round (snd x) (re_log R))"
    using rounds_ok_level(3) [OF rounds, of "snd x"] by blast
  then show ?thesis using assms(1) by (auto simp: resend_inv_def in_round_def)
qed

lemma resend_inv_send:
  assumes "resend_inv retry R"
  shows "resend_inv retry (resender_send R)"
proof -
  have queue: "in_task (resender_send R) = in_task R @ [(re_next R, 0)]"
    by (simp add: resender_send_def re_taken_def re_queue_def)
  have new: "re_next R \<notin> fst ` set (in_task R)" "re_next R \<notin> fst ` set (re_outcomes R)"
    using in_task_less [OF assms] assms by (fastforce, auto simp: resend_inv_def)
  have "rounds_ok (re_log (resender_send R)) (in_task (resender_send R))"
    unfolding queue using rounds_ok_submit [of "re_log R" "in_task R" "re_next R"] assms
    by (simp add: resender_send_def resend_inv_def)
  moreover have "distinct (map fst (in_task (resender_send R)) @ map fst (re_outcomes (resender_send R)))"
    unfolding queue using assms new by (auto simp: resend_inv_def resender_send_def)
  moreover have "in_round 0 (re_log (resender_send R)) = [0..<re_next (resender_send R)]"
    using assms by (simp add: resender_send_def resend_inv_def)
  ultimately show ?thesis
    using assms by (auto simp: resend_inv_def resender_send_def less_Suc_eq)
qed

lemma resend_inv_take:
  assumes "resend_inv retry R" "take_attempt R = Some R'"
  shows "resend_inv retry R'"
proof -
  obtain a rest where a: "re_awaiting R = None" "re_sleeping R = None" "re_pending R @ re_channel R = a # rest"
    and R': "R' = R\<lparr>re_pending := rest, re_channel := [], re_awaiting := Some a\<rparr>"
    using assms(2) by (cases "re_sleeping R") (auto simp: take_attempt_def split: if_splits list.splits)
  have same: "in_task R' = in_task R"
    using a by (simp add: R' re_taken_def re_queue_def flip: map_append)
  show ?thesis unfolding resend_inv_def same using assms(1) a(2) by (simp add: resend_inv_def R')
qed

text \<open>The attempt leaves the task, with or without telling its caller.\<close>

lemma resend_inv_leave:
  assumes "resend_inv retry R" "re_awaiting R = Some a" "R1 = R\<lparr>re_awaiting := None\<rparr>"
  shows "resend_inv retry R1" "resend_inv retry (tell (at_message a) r R1)"
proof -
  have task: "in_task R = (at_message a, at_failures a) # in_task R1"
    using assms(1-3) by (auto simp: re_taken_def re_queue_def resend_inv_def)
  have rounds: "rounds_ok (re_log R1) (in_task R1)"
    using assms(1,3) task rounds_ok_end by (auto simp: resend_inv_def)
  show leave: "resend_inv retry R1"
    using assms(1,3) task rounds unfolding resend_inv_def by simp
  have less: "at_message a < re_next R"
    using in_task_less [OF assms(1), of "(at_message a, at_failures a)"] task by simp
  have outs: "re_outcomes R1 = re_outcomes R" "re_next R1 = re_next R" using assms(3) by simp_all
  have "distinct (map fst (in_task R) @ map fst (re_outcomes R))" using assms(1) by (simp add: resend_inv_def)
  then have new: "at_message a \<notin> fst ` set (in_task R1)" "at_message a \<notin> fst ` set (re_outcomes R)"
    unfolding task by auto
  have same: "in_task (tell (at_message a) r R1) = in_task R1"
    by (simp add: tell_def re_taken_def re_queue_def)
  show "resend_inv retry (tell (at_message a) r R1)"
    unfolding resend_inv_def same
    using leave less new by (auto simp: tell_def resend_inv_def outs)
qed

lemma resend_inv_await:
  assumes "resend_inv retry R" "await_receipt codes retry rnd receipt R = Some R'"
  shows "resend_inv retry R'"
proof -
  obtain a where a: "re_awaiting R = Some a"
    using assms(2) by (cases "re_awaiting R") (auto simp: await_receipt_def)
  have idle: "re_sleeping R = None" using assms(1) a by (auto simp: resend_inv_def)
  let ?R = "R\<lparr>re_awaiting := None\<rparr>"
  note leave = resend_inv_leave [OF assms(1) a refl]
  have task: "in_task R = (at_message a, at_failures a) # in_task ?R"
    using a idle by (simp add: re_taken_def re_queue_def)
  have "resend_inv retry (?R\<lparr>re_sleeping := Some (a\<lparr>at_failures := Suc (at_failures a)\<rparr>, u)\<rparr>)"
    if "Suc (at_failures a) < max_attempts retry" for u
  proof -
    let ?S = "?R\<lparr>re_sleeping := Some (a\<lparr>at_failures := Suc (at_failures a)\<rparr>, u)\<rparr>"
    have same: "in_task ?S = in_task R"
      unfolding task by (simp add: re_taken_def re_queue_def idle)
    show ?thesis
      unfolding resend_inv_def same using assms(1) that by (simp add: resend_inv_def)
  qed
  then show ?thesis
    using assms(2) leave a
    by (auto simp: await_receipt_def Let_def not_le split: sum.splits if_splits)
qed

lemma resend_inv_resend:
  assumes "resend_inv retry R" "resend R = Some R'"
  shows "resend_inv retry R'"
proof -
  obtain a u where a: "re_sleeping R = Some (a, u)"
    and R': "R' = R\<lparr>re_log := re_log R @ [(at_message a, at_failures a)], re_sleeping := None,
                re_pending := re_pending R @ [a\<lparr>at_sent_at := re_now R\<rparr>]\<rparr>"
    using assms(2) by (auto simp: resend_def split: option.splits if_splits)
  have f: "0 < at_failures a" "at_failures a < max_attempts retry" and idle: "re_awaiting R = None"
    using assms(1) a by (auto simp: resend_inv_def)
  have "at_message a < re_next R"
    using in_task_less [OF assms(1), of "(at_message a, at_failures a - 1)"] a by (simp add: re_taken_def)
  moreover have "mset (map fst (in_task R')) = mset (map fst (in_task R))"
    by (simp add: R' a idle re_taken_def re_queue_def)
  moreover have "rounds_ok (re_log R') (in_task R')"
  proof -
    have "rounds_ok (re_log R) ((at_message a, at_failures a - 1) # re_queue R)"
      using assms(1) a idle by (simp add: resend_inv_def re_taken_def)
    then have "rounds_ok (re_log R') (re_queue R @ [(at_message a, at_failures a)])"
      using rounds_ok_resend [of "re_log R" "at_message a" "at_failures a - 1"] f(1) by (simp add: R')
    moreover have "in_round k (map (\<lambda>a. (at_message a, at_failures a)) (re_channel R)) = []"
      if "0 < k" for k
      using assms(1) that by (auto simp: resend_inv_def in_round_def)
    then have "in_round k (in_task R') = in_round k (re_queue R @ [(at_message a, at_failures a)])" for k
      using f(1) by (cases "k = at_failures a") (simp_all add: R' idle re_taken_def re_queue_def)
    ultimately show ?thesis by (simp add: rounds_ok_def)
  qed
  moreover have "distinct (map fst (in_task R') @ map fst (re_outcomes R'))"
  proof -
    have "mset (map fst (in_task R') @ map fst (re_outcomes R')) = mset (map fst (in_task R) @ map fst (re_outcomes R))"
      by (simp add: R' a idle re_taken_def re_queue_def)
    then show ?thesis using assms(1) mset_eq_imp_distinct_iff unfolding resend_inv_def by blast
  qed
  ultimately show ?thesis
    using assms(1) f idle by (auto simp: resend_inv_def R')
qed

lemma in_task_frame [simp]:
  "re_taken (R\<lparr>re_closed := c\<rparr>) = re_taken R" "re_queue (R\<lparr>re_closed := c\<rparr>) = re_queue R"
  "re_taken (R\<lparr>re_now := n\<rparr>) = re_taken R" "re_queue (R\<lparr>re_now := n\<rparr>) = re_queue R"
  by (simp_all add: re_taken_def re_queue_def)

lemma resend_inv_frame [simp]:
  "resend_inv retry (R\<lparr>re_closed := c\<rparr>) = resend_inv retry R"
  "resend_inv retry (R\<lparr>re_now := n\<rparr>) = resend_inv retry R"
  by (simp_all add: resend_inv_def)

lemma resend_inv_step:
  assumes "resend_inv retry R" "resend_step codes retry R ev = Some R'"
  shows "resend_inv retry R'"
proof (cases ev)
  case (ReClose m)
  with assms show ?thesis by (auto split: if_splits)
next
  case (ReTick d)
  with assms show ?thesis by auto
qed (use assms in \<open>auto intro: resend_inv_send resend_inv_take resend_inv_await resend_inv_resend\<close>)

interpretation resend: invariant_system resend_init "resend_step codes retry" "resend_inv retry"
proof unfold_locales
  fix R assume "resend_init R"
  then show "resend_inv retry R"
    by (auto simp: resend_init_def resender_spawn_def resend_inv_def rounds_ok_def re_taken_def re_queue_def)
qed (rule resend_inv_step)

lemma sorted_upt_nat: "sorted_wrt (<) [0..<n :: nat]"
  by (simp flip: strict_sorted_iff)

lemma distinct_rounds:
  assumes "\<And>k. distinct (in_round k log)"
  shows "distinct log"
  using assms
proof (induction log)
  case (Cons x log)
  have "distinct (in_round k log)" for k using Cons.prems [of k] by (simp split: if_splits)
  moreover have "fst x \<notin> set (in_round (snd x) log)" using Cons.prems [of "snd x"] by simp
  then have "x \<notin> set log" by (auto simp: in_round_def)
  ultimately show ?case using Cons.IH by simp
qed simp

lemma sends_bounded:
  assumes "distinct log" "\<And>x. x \<in> set log \<Longrightarrow> snd x < n"
  shows "length (filter (\<lambda>x. fst x = m) log) \<le> n"
proof -
  have "set (filter (\<lambda>x. fst x = m) log) \<subseteq> {m} \<times> {..<n}" using assms(2) by auto
  then have "card (set (filter (\<lambda>x. fst x = m) log)) \<le> card ({m} \<times> {..<n})" by (intro card_mono) auto
  moreover have "card (set (filter (\<lambda>x. fst x = m) log)) = length (filter (\<lambda>x. fst x = m) log)"
    using assms(1) by (intro distinct_card distinct_filter)
  ultimately show ?thesis by (simp add: card_cartesian_product)
qed

text \<open>
  C29. For every interleaving of sends, broker answers and callers that give up, the messages that a
  Pulsar producer is given for the \<open>k\<close>-th time are in the order they were first sent in, a message is
  given at most \<open>max_attempts\<close> times (once when that is zero), and each caller is told at most one
  outcome, after which the message is not sent again.
\<close>

theorem resend_keeps_order:
  assumes "resend_reach codes retry R"
  shows "sorted_wrt (<) (in_round k (re_log R))
    \<and> distinct (map fst (re_outcomes R))
    \<and> (\<forall>m. length (filter (\<lambda>x. fst x = m) (re_log R)) \<le> max 1 (max_attempts retry))
    \<and> (\<forall>m. m \<in> fst ` set (re_outcomes R) \<longrightarrow> m \<notin> fst ` set (re_taken R @ re_queue R))"
proof -
  note inv = resend.reach_inv [OF assms]
  have rounds: "rounds_ok (re_log R) (in_task R)" and first: "in_round 0 (re_log R) = [0..<re_next R]"
    using inv by (simp_all add: resend_inv_def)
  have sorted: "sorted_wrt (<) (in_round j (re_log R))" for j
    using rounds_ok_level(1) [OF rounds, of "j - 1"] first sorted_upt_nat
    by (cases j) (simp_all add: sorted_wrt_append)
  have "length (filter (\<lambda>x. fst x = m) (re_log R)) \<le> max 1 (max_attempts retry)" for m
    using inv by (intro sends_bounded distinct_rounds)
      (use sorted in \<open>auto simp: resend_inv_def strict_sorted_iff\<close>)
  then show ?thesis using sorted inv by (auto simp: resend_inv_def)
qed

text \<open>Two messages; the first is rejected once and sent again while the second is accepted.\<close>

definition ex_codes :: server_codes where
  "ex_codes = \<lparr>not_allowed_error = 22, topic_terminated_error = 19\<rparr>"

lemma ex_resend_run:
  "run_ok (\<lambda>R. re_log R = [(0, 0), (1, 0), (0, 1)] \<and> re_outcomes R = [(0, Inr ()), (1, Inr ())])
     (run (resend_step ex_codes default_retry_policy) (resender_spawn 0)
       [ReSend, ReTake, ReSend, ReAwait 0 (Inl (SendRejected 2 ''unloading'')), ReTick 100000000000, ReResend,
        ReTake, ReAwait 0 (Inr ()), ReTake, ReAwait 0 (Inr ())])"
  by (simp add: resender_spawn_def resender_send_def take_attempt_def await_receipt_def resend_def tell_def ex_codes_def
      default_retry_policy_def delay_def backoff_def random_up_to_def Let_def)

theorem resend_keeps_order_witness:
  "\<exists>R. resend_reach ex_codes default_retry_policy R \<and> re_log R = [(0, 0), (1, 0), (0, 1)]
     \<and> sorted_wrt (<) (in_round 0 (re_log R))"
proof -
  have "resend_init (resender_spawn 0)" by (auto simp: resend_init_def)
  then obtain R
    where R: "resend_reach ex_codes default_retry_policy R" "re_log R = [(0, 0), (1, 0), (0, 1)]"
    by (rule run_ok_reach) (rule ex_resend_run, simp)
  with resend_keeps_order [OF R(1)] show ?thesis by blast
qed

end
