(* ===== verification/Leases.thy ===== *)
theory Leases
  imports Tokens Retry
begin

text \<open>
  Tables of expiring leases, as \<^verbatim>\<open>src/adapters/sqs/lease.rs\<close> and \<^verbatim>\<open>src/adapters/servicebus/lock.rs\<close>
  both keep them: a map from fresh numbers to leases with an expiry and a revocation token. The
  expiry and the token of an entry are parameters of the operations here. A hash map is walked in an
  order of its own, which is a parameter too: a list of its keys without repetition.

  Instants and durations are nanoseconds.
\<close>

abbreviation second :: duration where
  "second \<equiv> 1000000000"

record 'l lease_table =
  lt_entries :: "nat \<rightharpoonup> 'l"
  lt_next :: nat

definition table_new :: "'l lease_table" where
  "table_new = \<lparr>lt_entries = Map.empty, lt_next = 0\<rparr>"

definition table_add :: "'l \<Rightarrow> 'l lease_table \<Rightarrow> nat \<times> 'l lease_table" where
  "table_add l T =
     (let n = lt_next T + 1
      in (n, T\<lparr>lt_next := n, lt_entries := (lt_entries T)(n \<mapsto> l)\<rparr>))"

definition table_remove :: "nat \<Rightarrow> 'l lease_table \<Rightarrow> 'l option \<times> 'l lease_table" where
  "table_remove n T = (lt_entries T n, T\<lparr>lt_entries := (lt_entries T)(n := None)\<rparr>)"

definition table_revoke ::
  "('l \<Rightarrow> token) \<Rightarrow> nat \<Rightarrow> 'l lease_table \<times> tokens \<Rightarrow> 'l lease_table \<times> tokens" where
  "table_revoke tok n Tt =
     (case Tt of (T, ts) \<Rightarrow>
        case lt_entries T n of
          None \<Rightarrow> (T, ts)
        | Some l \<Rightarrow> (snd (table_remove n T), token_cancel (tok l) ts))"

text \<open>\<^verbatim>\<open>retain\<close> of \<^verbatim>\<open>due\<close>: entries that expired at \<open>now\<close> are revoked.\<close>

definition table_expire ::
  "('l \<Rightarrow> nat) \<Rightarrow> ('l \<Rightarrow> token) \<Rightarrow> nat list \<Rightarrow> nat \<Rightarrow> 'l lease_table \<times> tokens \<Rightarrow> 'l lease_table \<times> tokens" where
  "table_expire expires tok order now Tt =
     fold (\<lambda>n Tt. case lt_entries (fst Tt) n of
             None \<Rightarrow> Tt
           | Some l \<Rightarrow> if expires l \<le> now then table_revoke tok n Tt else Tt) order Tt"

definition walks :: "nat list \<Rightarrow> 'l lease_table \<Rightarrow> bool" where
  "walks order T \<longleftrightarrow> distinct order \<and> set order = dom (lt_entries T)"

section \<open>Tables whose tokens belong to their entries\<close>

text \<open>
  The tokens of the entries are fresh when they are added, so they are different, and none is
  cancelled while its entry is in the table.
\<close>

definition table_ok :: "('l \<Rightarrow> token) \<Rightarrow> 'l lease_table \<times> tokens \<Rightarrow> bool" where
  "table_ok tok Tt \<longleftrightarrow>
     tokens_ok (snd Tt)
     \<and> (\<forall>n l. lt_entries (fst Tt) n = Some l \<longrightarrow>
          n \<le> lt_next (fst Tt) \<and> tok l < tok_next (snd Tt) \<and> \<not> token_is_cancelled (snd Tt) (tok l))
     \<and> (\<forall>n m l k. lt_entries (fst Tt) n = Some l \<and> lt_entries (fst Tt) m = Some k \<and> tok l = tok k \<longrightarrow> n = m)"

lemma table_okD:
  assumes "table_ok tok (T, ts)" "lt_entries T n = Some l"
  shows "n \<le> lt_next T" "tok l < tok_next ts" "\<not> token_is_cancelled ts (tok l)"
    "lt_entries T m = Some k \<Longrightarrow> tok l = tok k \<Longrightarrow> n = m"
  using assms unfolding table_ok_def by auto

lemma table_ok_new [simp]: "tokens_ok ts \<Longrightarrow> table_ok tok (table_new, ts)"
  by (simp add: table_ok_def table_new_def)

lemma table_ok_add:
  assumes "table_ok tok (T, ts)" "tok l = tok_next ts"
  shows "table_ok tok (snd (table_add l T), snd (token_new ts))"
proof -
  have ok: "tokens_ok ts" using assms(1) by (simp add: table_ok_def)
  have "tok k \<noteq> tok_next ts" if "lt_entries T n = Some k" for n k
    using table_okD(2) [OF assms(1) that] by simp
  then show ?thesis
    using assms token_new_fresh [OF ok] unfolding table_ok_def
    by (auto simp: table_add_def Let_def le_Suc_eq less_Suc_eq) blast
qed

lemma table_ok_remove:
  assumes "table_ok tok (T, ts)"
  shows "table_ok tok (snd (table_remove n T), ts)"
  using assms by (auto simp: table_ok_def table_remove_def)

lemma table_ok_revoke:
  assumes "table_ok tok Tt"
  shows "table_ok tok (table_revoke tok n Tt)"
proof -
  obtain T ts where Tt: "Tt = (T, ts)" by (cases Tt)
  show ?thesis
  proof (cases "lt_entries T n")
    case (Some l)
    note D = table_okD [OF assms [unfolded Tt] Some]
    have "tokens_ok (token_cancel (tok l) ts)" using assms D(2) by (simp add: Tt table_ok_def)
    moreover have "tok k \<noteq> tok l" if "lt_entries T m = Some k" "m \<noteq> n" for m k
      using D(4) [OF that(1)] that(2) by metis
    ultimately show ?thesis
      using assms unfolding Tt table_ok_def by (auto simp: table_revoke_def table_remove_def Some)
  qed (use assms in \<open>simp add: Tt table_revoke_def\<close>)
qed

text \<open>Revoking an entry cancels its token and removes it; other entries stay.\<close>

lemma table_revoke_entries:
  "lt_entries (fst (table_revoke tok n (T, ts))) = (lt_entries T)(n := None)"
  by (auto simp: table_revoke_def table_remove_def split: option.splits)

lemma table_revoke_cancelled:
  "token_is_cancelled (snd (table_revoke tok n (T, ts))) t \<longleftrightarrow>
     token_is_cancelled ts t \<or> (\<exists>l. lt_entries T n = Some l \<and> tok l = t)"
  by (auto simp: table_revoke_def split: option.splits)

lemma table_revoke_next [simp]:
  "lt_next (fst (table_revoke tok n Tt)) = lt_next (fst Tt)"
  "tok_next (snd (table_revoke tok n Tt)) = tok_next (snd Tt)"
  by (auto simp: table_revoke_def table_remove_def split: option.splits prod.splits)

lemma table_expire_Cons:
  "table_expire expires tok (n # order) now (T, ts) =
     table_expire expires tok order now
       (case lt_entries T n of
          None \<Rightarrow> (T, ts)
        | Some l \<Rightarrow> if expires l \<le> now then table_revoke tok n (T, ts) else (T, ts))"
  by (simp add: table_expire_def)

lemma table_expire_ok:
  assumes "table_ok tok Tt"
  shows "table_ok tok (table_expire expires tok order now Tt)"
  using assms
proof (induction order arbitrary: Tt)
  case (Cons n order)
  obtain T ts where Tt: "Tt = (T, ts)" by (cases Tt)
  show ?case
    using Cons table_ok_revoke [OF Cons.prems, of n] unfolding Tt table_expire_Cons
    by (simp split: option.splits)
qed (simp add: table_expire_def)

lemma table_expire_entries:
  "lt_entries (fst (table_expire expires tok order now (T, ts))) m =
     (case lt_entries T m of
        None \<Rightarrow> None
      | Some l \<Rightarrow> if m \<in> set order \<and> expires l \<le> now then None else Some l)"
proof (induction order arbitrary: T ts)
  case (Cons n order)
  obtain T1 ts1 where R: "table_revoke tok n (T, ts) = (T1, ts1)" by (cases "table_revoke tok n (T, ts)")
  then have "lt_entries T1 = (lt_entries T)(n := None)" by (metis table_revoke_entries fst_conv)
  with Cons.IH [of T ts] Cons.IH [of T1 ts1] show ?case
    by (auto simp: table_expire_Cons R split: option.splits)
qed (simp add: table_expire_def split: option.splits)

lemma table_expire_cancelled:
  "token_is_cancelled ts t \<Longrightarrow> token_is_cancelled (snd (table_expire expires tok order now (T, ts))) t"
proof (induction order arbitrary: T ts)
  case (Cons n order)
  obtain T1 ts1 where R: "table_revoke tok n (T, ts) = (T1, ts1)" by (cases "table_revoke tok n (T, ts)")
  then have "token_is_cancelled ts1 t"
    using Cons.prems table_revoke_cancelled [of tok n T ts t] by simp
  with Cons show ?case by (simp add: table_expire_Cons R split: option.splits)
qed (simp add: table_expire_def)

lemma table_expire_revokes:
  assumes "lt_entries T m = Some l" "m \<in> set order" "expires l \<le> now" "distinct order"
  shows "token_is_cancelled (snd (table_expire expires tok order now (T, ts))) (tok l)"
  using assms
proof (induction order arbitrary: T ts)
  case (Cons n order)
  obtain T1 ts1 where R: "table_revoke tok n (T, ts) = (T1, ts1)" by (cases "table_revoke tok n (T, ts)")
  have T1: "lt_entries T1 = (lt_entries T)(n := None)" using R by (metis table_revoke_entries fst_conv)
  show ?case
  proof (cases "n = m")
    case True
    then have "token_is_cancelled ts1 (tok l)"
      using R Cons.prems(1) table_revoke_cancelled [of tok n T ts "tok l"] by simp
    then show ?thesis
      using Cons.prems(1,3) True R by (simp add: table_expire_Cons table_expire_cancelled)
  next
    case False
    then show ?thesis
      using Cons.prems Cons.IH [of T ts] Cons.IH [of T1 ts1] T1
      by (auto simp: table_expire_Cons R split: option.splits)
  qed
qed simp

lemma table_expire_next [simp]:
  "lt_next (fst (table_expire expires tok order now Tt)) = lt_next (fst Tt)"
  "tok_next (snd (table_expire expires tok order now Tt)) = tok_next (snd Tt)"
  by (induction order arbitrary: Tt) (auto simp: table_expire_def split: option.splits)

lemma table_ok_fold:
  assumes "table_ok tok L" "\<And>x L. table_ok tok L \<Longrightarrow> table_ok tok (f x L)"
  shows "table_ok tok (fold f xs L)"
  using assms(1)
proof (induction xs arbitrary: L)
  case (Cons x xs)
  show ?case using Cons.IH [OF assms(2) [OF Cons.prems]] by simp
qed simp

section \<open>Entries end by being revoked\<close>

text \<open>Number \<open>n\<close> is in the table with token \<open>t\<close>, or that token is cancelled.\<close>

definition tracked_as :: "('l \<Rightarrow> token) \<Rightarrow> 'l lease_table \<times> tokens \<Rightarrow> nat \<Rightarrow> token \<Rightarrow> bool" where
  "tracked_as tok L n t \<longleftrightarrow>
     (\<forall>l. lt_entries (fst L) n = Some l \<longrightarrow> tok l = t)
     \<and> (lt_entries (fst L) n = None \<longrightarrow> token_is_cancelled (snd L) t)"

text \<open>What a keeper does to its table: each entry is kept with its token, or its token is cancelled.\<close>

definition only_revokes ::
  "('l \<Rightarrow> token) \<Rightarrow> 'l lease_table \<times> tokens \<Rightarrow> 'l lease_table \<times> tokens \<Rightarrow> bool" where
  "only_revokes tok L L' \<longleftrightarrow>
     lt_next (fst L') = lt_next (fst L) \<and> tok_cancelled (snd L) \<subseteq> tok_cancelled (snd L')
     \<and> tok_next (snd L') = tok_next (snd L)
     \<and> (\<forall>n l. lt_entries (fst L) n = Some l \<longrightarrow> tracked_as tok L' n (tok l))
     \<and> (\<forall>n. lt_entries (fst L) n = None \<longrightarrow> lt_entries (fst L') n = None)"

lemma only_revokes_refl [simp]: "only_revokes tok L L"
  by (auto simp: only_revokes_def tracked_as_def)

lemma tracked_as_only_revokes:
  assumes "tracked_as tok L n t" "only_revokes tok L L'"
  shows "tracked_as tok L' n t"
proof (cases "lt_entries (fst L) n")
  case None
  then have "lt_entries (fst L') n = None" "token_is_cancelled (snd L') t"
    using assms by (auto simp: tracked_as_def only_revokes_def token_is_cancelled_def)
  then show ?thesis by (simp add: tracked_as_def)
next
  case (Some l)
  then have "tracked_as tok L' n (tok l)" "tok l = t"
    using assms by (auto simp: tracked_as_def only_revokes_def)
  then show ?thesis by simp
qed

lemma only_revokes_trans:
  assumes "only_revokes tok L L1" "only_revokes tok L1 L2"
  shows "only_revokes tok L L2"
  unfolding only_revokes_def
proof (intro conjI allI impI)
  fix n l assume "lt_entries (fst L) n = Some l"
  then have "tracked_as tok L1 n (tok l)" using assms(1) by (simp add: only_revokes_def)
  then show "tracked_as tok L2 n (tok l)" by (rule tracked_as_only_revokes [OF _ assms(2)])
qed (use assms in \<open>auto simp: only_revokes_def\<close>)

lemma only_revokes_fold:
  assumes "\<And>x L. only_revokes tok L (f x L)"
  shows "only_revokes tok L (fold f xs L)"
proof (induction xs arbitrary: L)
  case (Cons x xs)
  show ?case using only_revokes_trans [OF assms Cons.IH] by simp
qed simp

lemma only_revokes_revoke: "only_revokes tok L (table_revoke tok n L)"
proof -
  obtain T ts where L: "L = (T, ts)" by (cases L)
  show ?thesis
    using table_revoke_cancelled [of tok n T ts] table_revoke_entries [of tok n T ts]
    by (auto simp: only_revokes_def tracked_as_def L token_is_cancelled_def)
qed

lemma only_revokes_expire: "only_revokes tok L (table_expire expires tok order now L)"
proof -
  obtain T ts where L: "L = (T, ts)" by (cases L)
  have "only_revokes tok (T, ts) (fold (\<lambda>n Tt. case lt_entries (fst Tt) n of None \<Rightarrow> Tt
      | Some l \<Rightarrow> if expires l \<le> now then table_revoke tok n Tt else Tt) order (T, ts))"
    by (rule only_revokes_fold) (auto simp: only_revokes_revoke split: option.splits)
  then show ?thesis by (simp add: L table_expire_def)
qed

section \<open>Entries belong to their holders\<close>

lemma table_ok_cancel:
  assumes ok: "table_ok tok L" and t: "t < tok_next (snd L)"
    and other: "\<And>n l. lt_entries (fst L) n = Some l \<Longrightarrow> tok l \<noteq> t"
  shows "table_ok tok (fst L, token_cancel t (snd L))"
proof -
  have "tokens_ok (token_cancel t (snd L))" using ok t by (simp add: table_ok_def)
  then show ?thesis using ok other by (auto simp: table_ok_def)
qed

text \<open>Once the entry of a holder is gone, no entry has its token.\<close>

lemma token_of_removed:
  assumes ok: "table_ok tok L" and tracked: "tracked_as tok L n t"
    and l: "lt_entries (fst L) m = Some l" "m \<noteq> n"
  shows "tok l \<noteq> t"
proof
  assume t: "tok l = t"
  obtain T ts where L: "L = (T, ts)" by (cases L)
  note D = table_okD [OF ok [unfolded L], of m l]
  show False
  proof (cases "lt_entries T n")
    case None
    then show False using tracked D(3) l t by (simp add: tracked_as_def L)
  next
    case (Some k)
    then have "tok k = t" using tracked by (simp add: tracked_as_def L)
    then show False using D(4) [OF _ Some] l t L by simp
  qed
qed

definition owns :: "('l \<Rightarrow> token) \<Rightarrow> 'l lease_table \<times> tokens \<Rightarrow> (nat \<times> token) list \<Rightarrow> bool" where
  "owns tok L xs \<longleftrightarrow>
     distinct (map fst xs)
     \<and> (\<forall>(n, t) \<in> set xs. n \<le> lt_next (fst L) \<and> t < tok_next (snd L) \<and> tracked_as tok L n t)"

lemma owns_only_revokes: "owns tok L xs \<Longrightarrow> only_revokes tok L L' \<Longrightarrow> owns tok L' xs"
  using tracked_as_only_revokes [of tok L _ _ L'] unfolding owns_def
  by (auto simp: only_revokes_def [of tok L L'])

lemma owns_cancel: "owns tok L xs \<Longrightarrow> owns tok (fst L, token_cancel t (snd L)) xs"
  by (auto simp: owns_def tracked_as_def)

lemma owns_remove:
  assumes "owns tok (T, ts) xs" "i < length xs" "n = fst (xs ! i)"
  shows "owns tok (snd (table_remove n T), ts) (remove_nth i xs)"
proof -
  have split: "xs = take i xs @ xs ! i # drop (Suc i) xs" by (rule remove_nth_split [OF assms(2)])
  have "distinct (map fst (take i xs @ xs ! i # drop (Suc i) xs))"
    using assms(1) by (subst split [symmetric]) (simp add: owns_def)
  then have "distinct (map fst (remove_nth i xs))" and "n \<notin> fst ` set (remove_nth i xs)"
    using assms(3) by (auto simp: remove_nth_def)
  moreover have "m \<le> lt_next T \<and> t < tok_next ts \<and> tracked_as tok (T, ts) m t \<and> m \<noteq> n"
    if "(m, t) \<in> set (remove_nth i xs)" for m t
    using that assms(1) set_remove_nth [of i xs] calculation(2) unfolding owns_def by force
  ultimately show ?thesis
    unfolding owns_def tracked_as_def table_remove_def by auto
qed

lemma owns_add:
  assumes own: "owns tok (T, ts) xs" and tok: "tok l = tok_next ts"
  shows "owns tok (snd (table_add l T), snd (token_new ts)) (xs @ [(lt_next T + 1, tok_next ts)])"
proof -
  have "n \<le> lt_next T" "t < tok_next ts" "tracked_as tok (T, ts) n t" if "(n, t) \<in> set xs" for n t
    using own that by (auto simp: owns_def)
  moreover have "lt_next T + 1 \<notin> fst ` set xs" using calculation(1) by force
  ultimately show ?thesis
    using own tok unfolding owns_def
    by (auto simp: table_add_def Let_def tracked_as_def le_Suc_eq less_Suc_eq)
qed

lemma table_ok_taken:
  assumes ok: "table_ok tok (T, ts)" and own: "owns tok (T, ts) xs" and x: "(n, t) \<in> set xs"
  shows "table_ok tok (snd (table_remove n T), token_cancel t ts)"
proof -
  have "t < tok_next ts" "tracked_as tok (T, ts) n t" using own x by (auto simp: owns_def)
  then have "tok l \<noteq> t" if "lt_entries (snd (table_remove n T)) m = Some l" for m l
    using token_of_removed [OF ok, of n t m l] that by (simp add: table_remove_def split: if_splits)
  with \<open>t < tok_next ts\<close> show ?thesis
    using table_ok_cancel [OF table_ok_remove [OF ok, of n], of t] by simp
qed

end
