(* ===== verification/Texts.thy ===== *)
theory Texts
  imports Dead_Letters
begin

text \<open>
  What the adapters use of the standard library on text: prefixes, white space, UTF-8, cutting at a
  character boundary, and decimal text of signed integers. A \<open>string\<close> holds the UTF-8 bytes of a Rust
  string, so the bytes of a text are its characters' codes.
\<close>

section \<open>Prefixes and white space\<close>

definition starts_with :: "string \<Rightarrow> string \<Rightarrow> bool" where
  "starts_with p s \<longleftrightarrow> take (length p) s = p"

definition ends_with :: "string \<Rightarrow> string \<Rightarrow> bool" where
  "ends_with p s \<longleftrightarrow> starts_with (rev p) (rev s)"

lemma starts_with_append [simp]: "starts_with p (p @ s)"
  by (simp add: starts_with_def)

text \<open>\<^verbatim>\<open>str::split\<close> with a character.\<close>

fun split_on :: "char \<Rightarrow> string \<Rightarrow> string list" where
  "split_on x [] = [[]]"
| "split_on x (c # s) =
     (if c = x then [] # split_on x s
      else (case split_on x s of [] \<Rightarrow> [[c]] | p # ps \<Rightarrow> (c # p) # ps))"

lemma split_on_append: "x \<notin> set a \<Longrightarrow> split_on x (a @ x # s) = a # split_on x s"
  by (induction a) (auto split: list.splits)

lemma split_on_whole: "x \<notin> set a \<Longrightarrow> split_on x a = [a]"
  by (induction a) auto

text \<open>The bytes of a leading white space character, as \<^verbatim>\<open>char::is_whitespace\<close> has it.\<close>

fun leads_white :: "nat list \<Rightarrow> bool" where
  "leads_white [] = False"
| "leads_white [a] \<longleftrightarrow> 9 \<le> a \<and> a \<le> 13 \<or> a = 32"
| "leads_white [a, b] \<longleftrightarrow> 9 \<le> a \<and> a \<le> 13 \<or> a = 32 \<or> a = 194 \<and> (b = 133 \<or> b = 160)"
| "leads_white (a # b # c # s) \<longleftrightarrow>
     9 \<le> a \<and> a \<le> 13 \<or> a = 32 \<or> a = 194 \<and> (b = 133 \<or> b = 160)
     \<or> a = 225 \<and> b = 154 \<and> c = 128
     \<or> a = 226 \<and> b = 128 \<and> (128 \<le> c \<and> c \<le> 138 \<or> c = 168 \<or> c = 169 \<or> c = 175)
     \<or> a = 226 \<and> b = 129 \<and> c = 159 \<or> a = 227 \<and> b = 128 \<and> c = 128"

fun has_white :: "nat list \<Rightarrow> bool" where
  "has_white [] = False"
| "has_white (a # s) \<longleftrightarrow> leads_white (a # s) \<or> has_white s"

text \<open>\<^verbatim>\<open>s.chars().any(char::is_whitespace)\<close>.\<close>

definition contains_whitespace :: "string \<Rightarrow> bool" where
  "contains_whitespace s = has_white (map of_char s)"

section \<open>UTF-8\<close>

abbreviation byte_of :: "char \<Rightarrow> nat" where
  "byte_of \<equiv> of_char"

definition is_cont :: "char \<Rightarrow> bool" where
  "is_cont c \<longleftrightarrow> 128 \<le> byte_of c \<and> byte_of c < 192"

text \<open>The second byte a lead byte allows: no overlong forms, no surrogates, nothing past U+10FFFF.\<close>

definition second_ok :: "nat \<Rightarrow> char \<Rightarrow> bool" where
  "second_ok a c \<longleftrightarrow>
     (let b = byte_of c in
      (if a = 224 then 160 \<le> b \<and> b < 192
       else if a = 237 then 128 \<le> b \<and> b < 160
       else if a = 240 then 144 \<le> b \<and> b < 192
       else if a = 244 then 128 \<le> b \<and> b < 144
       else is_cont c))"

text \<open>The width a lead byte announces, and 0 for a byte that leads no character.\<close>

definition lead_width :: "nat \<Rightarrow> nat" where
  "lead_width a =
     (if a < 128 then 1 else if 194 \<le> a \<and> a < 224 then 2 else if 224 \<le> a \<and> a < 240 then 3
      else if 240 \<le> a \<and> a < 245 then 4 else 0)"

text \<open>The text starts with a character of that width.\<close>

definition utf8_char :: "nat \<Rightarrow> string \<Rightarrow> bool" where
  "utf8_char w s \<longleftrightarrow>
     0 < w \<and> w \<le> length s \<and> lead_width (byte_of (s ! 0)) = w
     \<and> (if 1 < w then second_ok (byte_of (s ! 0)) (s ! 1) else True)
     \<and> list_all is_cont (take (w - 2) (drop 2 s))"

text \<open>The width of the first character of a text, and 0 when the text does not start with one.\<close>

definition utf8_width :: "string \<Rightarrow> nat" where
  "utf8_width s =
     (let w = lead_width (byte_of (s ! 0)) in if s \<noteq> [] \<and> utf8_char w s then w else 0)"

lemma utf8_widthD: "utf8_width s \<noteq> 0 \<Longrightarrow> utf8_char (utf8_width s) s"
  by (simp add: utf8_width_def Let_def split: if_splits)

lemma utf8_widthI: "utf8_char w s \<Longrightarrow> utf8_width s = w"
  by (auto simp: utf8_width_def utf8_char_def Let_def)

function utf8_valid :: "string \<Rightarrow> bool" where
  "utf8_valid s \<longleftrightarrow>
     (if s = [] then True
      else if utf8_width s = 0 then False
      else utf8_valid (drop (utf8_width s) s))"
  by pat_completeness auto
termination by (relation "measure length") auto

declare utf8_valid.simps [simp del]

lemma leads_white_length: "leads_white (map byte_of s) \<Longrightarrow> 0 < length s"
  by (cases s) auto

text \<open>\<^verbatim>\<open>str::trim\<close>: white space characters are dropped at both ends.\<close>

function trim_start :: "string \<Rightarrow> string" where
  "trim_start s =
     (if leads_white (map byte_of s) then trim_start (drop (max 1 (lead_width (byte_of (hd s)))) s) else s)"
  by pat_completeness auto
termination
  by (relation "measure length") (auto dest!: leads_white_length intro!: diff_less)

definition ends_white :: "nat \<Rightarrow> string \<Rightarrow> bool" where
  "ends_white w s \<longleftrightarrow>
     0 < w \<and> w \<le> length s \<and> (let t = drop (length s - w) s in lead_width (byte_of (hd t)) = w \<and> leads_white (map byte_of t))"

function trim_end :: "string \<Rightarrow> string" where
  "trim_end s =
     (if ends_white 1 s then trim_end (take (length s - 1) s)
      else if ends_white 2 s then trim_end (take (length s - 2) s)
      else if ends_white 3 s then trim_end (take (length s - 3) s)
      else s)"
  by pat_completeness auto
termination
  by (relation "measure length") (auto simp: ends_white_def)

declare trim_start.simps [simp del] trim_end.simps [simp del]

definition trim :: "string \<Rightarrow> string" where
  "trim s = trim_end (trim_start s)"

definition ascii_lower :: "char \<Rightarrow> char" where
  "ascii_lower c = (if 65 \<le> byte_of c \<and> byte_of c \<le> 90 then char_of (byte_of c + 32) else c)"

definition to_ascii_lowercase :: "string \<Rightarrow> string" where
  "to_ascii_lowercase s = map ascii_lower s"

text \<open>
  \<^verbatim>\<open>String::from_utf8_lossy\<close>: what is not UTF-8 is replaced, piece by piece, by U+FFFD. A piece is a byte
  that starts no character, or the bytes of a character that is cut short.
\<close>

definition invalid_width :: "string \<Rightarrow> nat" where
  "invalid_width s =
     (let w = lead_width (byte_of (hd s)) in
      if w = 0 \<or> length s < 2 \<or> \<not> second_ok (byte_of (hd s)) (s ! 1) then 1
      else if length s < 3 \<or> \<not> is_cont (s ! 2) then 2 else 3)"

lemma invalid_width_pos: "0 < invalid_width s"
  by (simp add: invalid_width_def Let_def)

definition replacement :: string where
  "replacement = [CHR 0xEF, CHR 0xBF, CHR 0xBD]"

function lossy :: "string \<Rightarrow> string" where
  "lossy s =
     (if s = [] then []
      else if utf8_width s = 0 then replacement @ lossy (drop (invalid_width s) s)
      else take (utf8_width s) s @ lossy (drop (utf8_width s) s))"
  by pat_completeness auto
termination
  by (relation "measure length") (auto simp: invalid_width_pos)

declare lossy.simps [simp del]

text \<open>Text that is UTF-8 is kept.\<close>

lemma lossy_valid: "utf8_valid s \<Longrightarrow> lossy s = s"
proof (induction s rule: utf8_valid.induct)
  case (1 s)
  then show ?case
    using utf8_valid.simps [of s] lossy.simps [of s] by (cases "s = []"; cases "utf8_width s = 0") simp_all
qed

definition str_bytes :: "string \<Rightarrow> bytes" where
  "str_bytes s = map (\<lambda>c. of_nat (of_char c)) s"

text \<open>\<^verbatim>\<open>str::from_utf8\<close>.\<close>

definition from_utf8 :: "bytes \<Rightarrow> string option" where
  "from_utf8 bs = (let s = map (\<lambda>b. char_of (unat b)) bs in if utf8_valid s then Some s else None)"

lemma char_of_byte [simp]: "char_of (unat (of_nat (of_char c) :: 8 word)) = c"
proof -
  have "of_char c < (256 :: nat)" using range_nat_of_char by auto
  then have "unat (of_nat (of_char c) :: 8 word) = of_char c" by (simp add: unsigned_of_nat take_bit_nat_eq_self)
  then show ?thesis by simp
qed

lemma from_utf8_bytes [simp]: "from_utf8 (str_bytes s) = (if utf8_valid s then Some s else None)"
  by (simp add: from_utf8_def str_bytes_def comp_def Let_def)

lemma utf8_valid_Nil [simp]: "utf8_valid []"
  by (simp add: utf8_valid.simps)

lemma utf8_width_le: "utf8_width s \<le> length s"
  using utf8_widthD [of s] by (cases "utf8_width s = 0") (simp_all add: utf8_char_def)

lemma utf8_char_append:
  assumes "utf8_char w s"
  shows "utf8_char w (s @ t)"
proof -
  have w: "0 < w" "w \<le> length s" using assms by (simp_all add: utf8_char_def)
  then have "take (w - 2) (drop 2 (s @ t)) = take (w - 2) (drop 2 s)" by simp
  moreover have "(s @ t) ! 0 = s ! 0" "1 < w \<Longrightarrow> (s @ t) ! 1 = s ! 1" using w by (auto simp: nth_append)
  moreover have "w \<le> length (s @ t)" using w by simp
  ultimately show ?thesis using assms unfolding utf8_char_def by presburger
qed

lemma utf8_char_take:
  assumes "utf8_char w s" "w \<le> k"
  shows "utf8_char w (take k s)"
proof -
  have w: "0 < w" "w \<le> length s" using assms by (simp_all add: utf8_char_def)
  then have "take (w - 2) (drop 2 (take k s)) = take (w - 2) (drop 2 s)"
    using assms(2) by (simp add: drop_take min_def)
  moreover have "take k s ! 0 = s ! 0" "1 < w \<Longrightarrow> take k s ! 1 = s ! 1" using w assms(2) by simp_all
  ultimately show ?thesis using assms unfolding utf8_char_def by (auto split: if_splits)
qed

lemma utf8_valid_append: "utf8_valid s \<Longrightarrow> utf8_valid t \<Longrightarrow> utf8_valid (s @ t)"
proof (induction s rule: utf8_valid.induct)
  case (1 s)
  show ?case
  proof (cases "s = []")
    case False
    then have w: "utf8_width s \<noteq> 0" "utf8_valid (drop (utf8_width s) s)"
      using "1.prems"(1) by (simp_all add: utf8_valid.simps [of s] split: if_splits)
    have same: "utf8_width (s @ t) = utf8_width s"
      using w(1) by (intro utf8_widthI utf8_char_append utf8_widthD)
    have "utf8_valid (drop (utf8_width s) s @ t)" by (rule "1.IH" [OF False w "1.prems"(2)])
    moreover have "drop (utf8_width (s @ t)) (s @ t) = drop (utf8_width s) s @ t"
      using utf8_width_le [of s] by (simp add: same)
    ultimately show ?thesis using w(1) by (subst utf8_valid.simps) (simp add: same)
  qed (use "1.prems" in simp)
qed

definition ascii :: "string \<Rightarrow> bool" where
  "ascii s \<longleftrightarrow> list_all (\<lambda>c. byte_of c < 128) s"

lemma utf8_valid_ascii: "ascii s \<Longrightarrow> utf8_valid s"
proof (induction s)
  case (Cons c s)
  then have "utf8_width (c # s) = 1"
    by (intro utf8_widthI) (simp add: ascii_def utf8_char_def lead_width_def)
  with Cons show ?case by (subst utf8_valid.simps) (simp add: ascii_def)
qed simp

lemma ascii_show_nat [simp]: "ascii (show_nat n)"
proof (induction n rule: show_nat.induct)
  case (1 n)
  show ?case
    using 1 by (cases "n < 10") (simp_all add: show_nat.simps [of n] ascii_def digit_char_def)
qed

lemma ascii_kind [simp]: "ascii (kind_as_str k)"
  by (cases k) (simp_all add: ascii_def)

section \<open>Cutting at a character boundary\<close>

text \<open>\<^verbatim>\<open>str::floor_char_boundary\<close>, and \<^verbatim>\<open>truncate\<close> of the Pub/Sub adapter.\<close>

fun floor_boundary :: "string \<Rightarrow> nat \<Rightarrow> nat" where
  "floor_boundary s 0 = 0"
| "floor_boundary s (Suc k) =
     (if length s \<le> Suc k then length s
      else if \<not> is_cont (s ! Suc k) then Suc k else floor_boundary s k)"

definition truncate_text :: "nat \<Rightarrow> string \<Rightarrow> string" where
  "truncate_text m s = take (floor_boundary s m) s"

lemma floor_boundary_le: "floor_boundary s k \<le> k" "floor_boundary s k \<le> length s"
  by (induction s k rule: floor_boundary.induct) auto

lemma floor_boundary_at:
  "floor_boundary s k = 0 \<or> floor_boundary s k = length s \<or> \<not> is_cont (s ! floor_boundary s k)"
  by (induction s k rule: floor_boundary.induct) auto

lemma truncate_text_short [simp]: "length s \<le> m \<Longrightarrow> truncate_text m s = s"
  by (cases m) (simp_all add: truncate_text_def)

lemma length_truncate_text: "length (truncate_text m s) \<le> m"
  using floor_boundary_le(1) [of s m] by (simp add: truncate_text_def)

lemma truncate_text_idem [simp]: "truncate_text m (truncate_text m s) = truncate_text m s"
  by (simp add: length_truncate_text)

text \<open>Inside a character every byte is a continuation byte, so cutting keeps whole characters.\<close>

lemma utf8_inner:
  assumes "utf8_width s \<noteq> 0" "0 < k" "k < utf8_width s"
  shows "is_cont (s ! k)"
proof (cases "k = 1")
  case True
  have "second_ok (byte_of (s ! 0)) (s ! 1)"
    using utf8_widthD [OF assms(1)] assms(3) True by (simp add: utf8_char_def split: if_splits)
  then show ?thesis
    using True by (auto simp: second_ok_def is_cont_def Let_def split: if_splits)
next
  case False
  have "list_all is_cont (take (utf8_width s - 2) (drop 2 s))" "utf8_width s \<le> length s"
    using utf8_widthD [OF assms(1)] by (simp_all add: utf8_char_def)
  moreover obtain j where "k = Suc (Suc j)" using False assms(2) by (cases k; cases "k - 1") auto
  then have "s ! k = take (utf8_width s - 2) (drop 2 s) ! (k - 2)" "k - 2 < utf8_width s - 2"
    using assms(3) calculation(2) by simp_all
  ultimately show ?thesis by (simp add: list_all_length)
qed

lemma utf8_valid_take:
  assumes "utf8_valid s" "k \<le> length s" "k = length s \<or> \<not> is_cont (s ! k)"
  shows "utf8_valid (take k s)"
  using assms
proof (induction s arbitrary: k rule: utf8_valid.induct)
  case (1 s)
  let ?w = "utf8_width s"
  show ?case
  proof (cases "s = [] \<or> k = 0")
    case False
    then have w: "?w \<noteq> 0" "utf8_valid (drop ?w s)" and ne: "s \<noteq> []"
      using "1.prems"(1) by (simp_all add: utf8_valid.simps [of s] split: if_splits)
    have k: "?w \<le> k"
      using utf8_inner [OF w(1), of k] "1.prems"(2,3) False utf8_width_le [of s] by force
    have "utf8_valid (take (k - ?w) (drop ?w s))"
      using "1.prems"(2,3) k by (intro "1.IH" [OF ne w(1) w(2)]) (auto simp: nth_append)
    moreover have same: "utf8_width (take k s) = ?w"
      using w(1) k by (intro utf8_widthI utf8_char_take utf8_widthD)
    ultimately show ?thesis
      using w(1) by (subst utf8_valid.simps) (simp add: same drop_take)
  qed auto
qed

lemma utf8_valid_truncate: "utf8_valid s \<Longrightarrow> utf8_valid (truncate_text m s)"
  using floor_boundary_at [of s m] floor_boundary_le(2) [of s m] utf8_valid_take [of s "floor_boundary s m"]
  by (auto simp: truncate_text_def)

section \<open>Signed integers\<close>

definition show_int :: "int \<Rightarrow> string" where
  "show_int i = (if i < 0 then CHR ''-'' # show_nat (nat (- i)) else show_nat (nat i))"

text \<open>\<^verbatim>\<open>FromStr\<close> of a signed type with the range from \<open>lo\<close> to \<open>hi\<close>.\<close>

definition parse_signed :: "int \<Rightarrow> int \<Rightarrow> string \<Rightarrow> parse_int_error + int" where
  "parse_signed lo hi s =
     (if 1 < length s \<and> hd s = CHR ''-'' then
        (case parse_digits (nat (- lo)) 0 (tl s) of
           Inl e \<Rightarrow> Inl (if e = PiePosOverflow then PieNegOverflow else e)
         | Inr n \<Rightarrow> Inr (- int n))
      else (case parse_unsigned (nat hi) s of Inl e \<Rightarrow> Inl e | Inr n \<Rightarrow> Inr (int n)))"

lemma parse_signed_show_int [simp]:
  assumes "lo \<le> i" "i \<le> hi"
  shows "parse_signed lo hi (show_int i) = Inr i"
proof (cases "i < 0")
  case True
  obtain d cs where s: "show_nat (nat (- i)) = digit_char d # cs" using show_nat_Cons by blast
  have "parse_digits (nat (- lo)) 0 (show_nat (nat (- i))) = Inr (nat (- i))"
    using assms True by (intro parse_digits_show_nat) simp
  then show ?thesis using True by (simp add: show_int_def parse_signed_def s)
next
  case False
  obtain d cs where s: "show_nat (nat i) = digit_char d # cs" "d < 10" using show_nat_Cons by blast
  have "parse_unsigned (nat hi) (show_nat (nat i)) = Inr (nat i)" using assms False by simp
  then show ?thesis using False s(2) by (simp add: show_int_def parse_signed_def s(1))
qed

definition parse_signed_number :: "int \<Rightarrow> int \<Rightarrow> string \<Rightarrow> string \<Rightarrow> error + int" where
  "parse_signed_number lo hi name v =
     (case parse_signed lo hi v of
        Inr n \<Rightarrow> Inr n
      | Inl e \<Rightarrow> Inl (InvalidRecord (''dead-letter header '' @ name @ '' is not a number: ''
             @ debug_str v @ '': '' @ parse_int_error_display e)))"

lemma ascii_show_int [simp]: "ascii (show_int i)"
  using ascii_show_nat by (simp add: show_int_def ascii_def)

end
