(* ===== verification/Sqs.thy ===== *)
theory Sqs
  imports Leases Config Texts
begin

text \<open>
  The SQS source of \<^verbatim>\<open>src/adapters/sqs\<close>: the leases of received messages (\<^verbatim>\<open>lease.rs\<close>), polling,
  receiving, closing and acknowledging (\<^verbatim>\<open>source.rs\<close>), and the checks of its settings
  (\<^verbatim>\<open>config.rs\<close>). The source, the task that keeps the leases and the deliveries act in any order on
  one clock.

  SQS itself is a parameter: the messages it returns, the answers to its batch calls and the instant
  until which it hides each message are inputs of the steps. What the code relies on is a guard of
  those steps: a receive or a successful extension hides a message for at least the whole seconds
  asked for, counted from when the call was made.

  A finished \<^verbatim>\<open>ReceiveMessage\<close> task is merged with the receive that takes its messages, so
  \<open>sq_buffered\<close> also holds the messages of a task that nobody awaited yet. Closing is one step, when the
  stopped keeper has finished its round and the table is drained.
\<close>

section \<open>Settings\<close>

definition max_visibility :: duration where
  "max_visibility = 12 * 60 * 60 * second"

record sqs_config =
  qc_queue_url :: string
  qc_max_messages :: int
  qc_wait_time :: duration
  qc_visibility_timeout :: duration
  qc_ack_retry :: retry_policy

definition sqs_config_new :: "string \<Rightarrow> sqs_config" where
  "sqs_config_new queue_url =
     \<lparr>qc_queue_url = queue_url, qc_max_messages = 10, qc_wait_time = 20 * second,
      qc_visibility_timeout = 30 * second,
      qc_ack_retry = default_retry_policy\<lparr>max_attempts := 5, initial_delay := 100 * millisecond,
                                            max_delay := 2 * second\<rparr>\<rparr>"

definition is_fifo :: "string \<Rightarrow> bool" where
  "is_fifo queue_url = ends_with ''.fifo'' queue_url"

definition validate_queue_url :: "string \<Rightarrow> error + unit" where
  "validate_queue_url url =
     and_then
       (ensure_config (starts_with ''https://'' url \<or> starts_with ''http://'' url)
          ''SQS queue URL must be an http or https URL'')
       (ensure_config (\<not> contains_whitespace url) ''SQS queue URL must not contain whitespace'')"

definition sqs_validate :: "sqs_config \<Rightarrow> error + unit" where
  "sqs_validate c =
     and_then (validate_queue_url (qc_queue_url c))
       (and_then
         (ensure_config (1 \<le> qc_max_messages c \<and> qc_max_messages c \<le> 10)
            ''SQS max_messages must be between 1 and 10'')
         (and_then
           (ensure_config (qc_wait_time c \<le> 20 * second) ''SQS wait_time must be at most 20 seconds'')
           (and_then
             (ensure_config (second \<le> qc_visibility_timeout c \<and> qc_visibility_timeout c \<le> max_visibility)
                ''SQS visibility_timeout must be between 1 second and 12 hours'')
             (retry_validate (qc_ack_retry c)))))"

text \<open>How a handle reaches SQS; \<^verbatim>\<open>trim\<close> leaves nothing of a blank region.\<close>

record sqs_credentials =
  cr_access_key_id :: string
  cr_secret_access_key :: string
  cr_session_token :: "string option"

record sqs_client_config =
  cc_region :: "string option"
  cc_endpoint_url :: "string option"
  cc_credentials :: "sqs_credentials option"

definition credentials_validate :: "sqs_credentials \<Rightarrow> error + unit" where
  "credentials_validate c =
     ensure_config (cr_access_key_id c \<noteq> [] \<and> cr_secret_access_key c \<noteq> [])
       ''SQS credentials need an access key ID and a secret access key''"

definition client_validate :: "sqs_client_config \<Rightarrow> error + unit" where
  "client_validate c =
     and_then
       (case cc_region c of
          None \<Rightarrow> Inr ()
        | Some region \<Rightarrow> ensure_config (\<not> trimmed_empty region) ''SQS region must not be empty'')
       (and_then
         (case cc_endpoint_url c of
            None \<Rightarrow> Inr ()
          | Some url \<Rightarrow>
              ensure_config (starts_with ''https://'' url \<or> starts_with ''http://'' url)
                ''SQS endpoint URL must be an http or https URL'')
         (case cc_credentials c of None \<Rightarrow> Inr () | Some cr \<Rightarrow> credentials_validate cr))"

section \<open>Leases\<close>

record lease =
  le_handle :: string
  le_expires :: nat
  le_received :: nat
  le_revoked :: token

type_synonym leases = "lease lease_table \<times> tokens"

definition leases_add :: "duration \<Rightarrow> string \<Rightarrow> nat \<Rightarrow> leases \<Rightarrow> (nat \<times> token) \<times> leases" where
  "leases_add visibility handle received L =
     (let (revoked, ts) = token_new (snd L);
          (n, T) = table_add \<lparr>le_handle = handle, le_expires = received + visibility,
                              le_received = received, le_revoked = revoked\<rparr> (fst L)
      in ((n, revoked), (T, ts)))"

definition leases_remove :: "nat \<Rightarrow> leases \<Rightarrow> string option \<times> leases" where
  "leases_remove n L =
     (case table_remove n (fst L) of (l, T) \<Rightarrow> (map_option le_handle l, (T, snd L)))"

definition leases_revoke :: "nat \<Rightarrow> leases \<Rightarrow> leases" where
  "leases_revoke n L = table_revoke le_revoked n L"

definition leases_drain :: "nat list \<Rightarrow> leases \<Rightarrow> string list \<times> leases" where
  "leases_drain order L =
     (map (\<lambda>n. le_handle (the (lt_entries (fst L) n))) order,
      ((fst L)\<lparr>lt_entries := Map.empty\<rparr>, snd L))"

definition extension_timeout :: "duration \<Rightarrow> nat \<Rightarrow> lease \<Rightarrow> duration" where
  "extension_timeout visibility now l = min visibility (max_visibility - (now - le_received l))"

definition leases_due ::
  "duration \<Rightarrow> nat list \<Rightarrow> nat \<Rightarrow> leases \<Rightarrow> (nat \<times> string \<times> duration) list \<times> leases" where
  "leases_due visibility order now L =
     (let L = table_expire le_expires le_revoked order now L;
          due = List.map_filter (\<lambda>n.
            case lt_entries (fst L) n of
              None \<Rightarrow> None
            | Some l \<Rightarrow>
                if le_expires l - now \<le> visibility * 2 div 3
                   \<and> second \<le> extension_timeout visibility now l
                then Some (n, le_handle l, extension_timeout visibility now l) else None) order
      in (due, L))"

definition leases_extended :: "nat \<Rightarrow> nat \<Rightarrow> leases \<Rightarrow> leases" where
  "leases_extended n expires L =
     (case lt_entries (fst L) n of
        None \<Rightarrow> L
      | Some l \<Rightarrow>
          ((fst L)\<lparr>lt_entries := (lt_entries (fst L))
             (n \<mapsto> l\<lparr>le_expires := max (le_expires l) expires\<rparr>)\<rparr>, snd L))"

definition leases_interval :: "duration \<Rightarrow> duration" where
  "leases_interval visibility = max (500 * millisecond) (min (visibility div 3) (60 * second))"

definition batch_size :: nat where
  "batch_size = 10"

text \<open>
  \<^verbatim>\<open>extend\<close>, on the answer to the call made at \<open>requested\<close>: \<open>None\<close> when the call failed, otherwise the
  numbers SQS reports extended and failed.
\<close>

definition sqs_extend ::
  "nat \<Rightarrow> (nat \<times> string \<times> duration) list \<Rightarrow> (nat list \<times> nat list) option \<Rightarrow> leases \<Rightarrow> leases" where
  "sqs_extend requested chunk answer L =
     (case answer of
        None \<Rightarrow> L
      | Some (successful, failed) \<Rightarrow>
          fold leases_revoke failed
            (fold (\<lambda>n L. case map_of (map (\<lambda>(n, _, t). (n, t)) chunk) n of
                          None \<Rightarrow> L
                        | Some t \<Rightarrow> leases_extended n (requested + t) L) successful L))"

text \<open>The seconds a call asks for, as \<^verbatim>\<open>as_secs\<close> truncates a duration.\<close>

definition whole_seconds :: "duration \<Rightarrow> duration" where
  "whole_seconds d = (d div second) * second"

section \<open>The source\<close>

record 'm received_msg =
  rc_message :: 'm
  rc_lease :: nat
  rc_revoked :: token

text \<open>
  \<open>sq_due\<close> is what the keeper still has to extend of the last look at \<open>sq_due_at\<close>, \<open>sq_call\<close> the
  batch call in progress; \<open>sq_held\<close> says until when SQS hides the message of a lease.
\<close>

record 'm sqs =
  sq_leases :: leases
  sq_now :: nat
  sq_polling :: "nat option"
  sq_buffered :: "'m received_msg list"
  sq_live :: "'m received_msg list"
  sq_due :: "(nat \<times> string \<times> duration) list"
  sq_due_at :: nat
  sq_call :: "(nat \<times> (nat \<times> string \<times> duration) list) option"
  sq_released :: "string list"
  sq_closed :: bool
  sq_held :: "nat \<Rightarrow> nat"
  sq_deleted :: "nat list"

text \<open>The messages of a finished \<^verbatim>\<open>ReceiveMessage\<close> call get leases; one without a receipt handle is skipped.\<close>

fun sqs_polled ::
  "duration \<Rightarrow> nat \<Rightarrow> ('m \<times> string option \<times> nat) list \<Rightarrow> 'm sqs \<Rightarrow> 'm sqs" where
  "sqs_polled visibility requested [] S = S"
| "sqs_polled visibility requested ((m, handle, held) # ms) S =
     sqs_polled visibility requested ms
       (case handle of
          None \<Rightarrow> S
        | Some h \<Rightarrow>
            (case leases_add visibility h requested (sq_leases S) of ((n, revoked), L) \<Rightarrow>
               S\<lparr>sq_leases := L,
                 sq_buffered := sq_buffered S @ [\<lparr>rc_message = m, rc_lease = n, rc_revoked = revoked\<rparr>],
                 sq_held := (sq_held S)(n := held)\<rparr>))"

text \<open>
  \<^verbatim>\<open>SqsMessage::ack\<close> after the lease was taken: the delete call is repeated under the retry policy.
  The results of the calls are inputs; \<open>None\<close> when they do not reach the end of the loop. Returns
  whether the message was deleted, and whether its receipt handle was found invalid.
\<close>

datatype delete_result = Deleted | InvalidReceipt | DeleteFailed

fun delete_loop :: "nat \<Rightarrow> nat \<Rightarrow> delete_result list \<Rightarrow> (bool \<times> bool) option" where
  "delete_loop max_att attempt [] = None"
| "delete_loop max_att attempt (Deleted # rs) = Some (True, False)"
| "delete_loop max_att attempt (InvalidReceipt # rs) = Some (False, True)"
| "delete_loop max_att attempt (DeleteFailed # rs) =
     (if attempt + 1 \<ge> max_att then Some (False, False) else delete_loop max_att (attempt + 1) rs)"

definition sqs_ack ::
  "retry_policy \<Rightarrow> delete_result list \<Rightarrow> nat \<Rightarrow> 'm sqs \<Rightarrow> (bool \<times> 'm sqs) option" where
  "sqs_ack retry results i S =
     (let r = sq_live S ! i; S1 = S\<lparr>sq_live := remove_nth i (sq_live S)\<rparr>;
          cancel = (\<lambda>L :: leases. (fst L, token_cancel (rc_revoked r) (snd L))) in
      case leases_remove (rc_lease r) (sq_leases S) of
        (None, L) \<Rightarrow> Some (False, S1\<lparr>sq_leases := cancel L\<rparr>)
      | (Some h, L) \<Rightarrow>
          (case delete_loop (max_attempts retry) 0 results of
             None \<Rightarrow> None
           | Some (deleted, invalid) \<Rightarrow>
               Some (deleted,
                 S1\<lparr>sq_leases := (if invalid then cancel L else L),
                    sq_deleted := (if deleted then sq_deleted S @ [rc_lease r] else sq_deleted S)\<rparr>)))"

text \<open>\<^verbatim>\<open>Drop for SqsMessage\<close> of a message that was not acknowledged.\<close>

definition sqs_drop :: "nat \<Rightarrow> 'm sqs \<Rightarrow> 'm sqs" where
  "sqs_drop i S =
     (case leases_remove (rc_lease (sq_live S ! i)) (sq_leases S) of (h, L) \<Rightarrow>
        S\<lparr>sq_live := remove_nth i (sq_live S), sq_leases := L,
          sq_released := sq_released S @ (case h of None \<Rightarrow> [] | Some h \<Rightarrow> [h])\<rparr>)"

datatype 'm sqs_event =
    SqTick nat
  | SqPoll
  | SqPolled "('m \<times> string option \<times> nat) list"
  | SqPollFailed
  | SqReceive
  | SqKeep "nat list"
  | SqCall
  | SqAnswer "(nat list \<times> nat list) option" "nat \<Rightarrow> nat"
  | SqRelease
  | SqAck nat "delete_result list"
  | SqDrop nat
  | SqClose "nat list"

text \<open>\<open>patience\<close> bounds how long the calls before one in a round of the keeper take.\<close>

fun sqs_step ::
  "sqs_config \<Rightarrow> duration \<Rightarrow> 'm sqs \<Rightarrow> 'm sqs_event \<Rightarrow> 'm sqs option" where
  "sqs_step c patience S (SqTick d) = Some (S\<lparr>sq_now := sq_now S + d\<rparr>)"
| "sqs_step c patience S SqPoll =
     (if \<not> sq_closed S \<and> sq_buffered S = [] \<and> sq_polling S = None
      then Some (S\<lparr>sq_polling := Some (sq_now S)\<rparr>) else None)"
| "sqs_step c patience S (SqPolled ms) =
     (case sq_polling S of
        None \<Rightarrow> None
      | Some requested \<Rightarrow>
          if list_all (\<lambda>m. requested + whole_seconds (qc_visibility_timeout c) \<le> snd (snd m)) ms
          then Some (sqs_polled (qc_visibility_timeout c) requested ms (S\<lparr>sq_polling := None\<rparr>))
          else None)"
| "sqs_step c patience S SqPollFailed =
     (if sq_polling S = None then None else Some (S\<lparr>sq_polling := None\<rparr>))"
| "sqs_step c patience S SqReceive =
     (case sq_buffered S of
        [] \<Rightarrow> None
      | r # rs \<Rightarrow>
          if sq_closed S then None else Some (S\<lparr>sq_buffered := rs, sq_live := sq_live S @ [r]\<rparr>))"
| "sqs_step c patience S (SqKeep order) =
     (if \<not> sq_closed S \<and> sq_due S = [] \<and> sq_call S = None \<and> walks order (fst (sq_leases S)) then
        (case leases_due (qc_visibility_timeout c) order (sq_now S) (sq_leases S) of (due, L) \<Rightarrow>
           Some (S\<lparr>sq_leases := L, sq_due := due, sq_due_at := sq_now S\<rparr>))
      else None)"
| "sqs_step c patience S SqCall =
     (if sq_due S \<noteq> [] \<and> sq_call S = None \<and> sq_now S \<le> sq_due_at S + patience
      then Some (S\<lparr>sq_call := Some (sq_now S, take batch_size (sq_due S)),
                   sq_due := drop batch_size (sq_due S)\<rparr>)
      else None)"
| "sqs_step c patience S (SqAnswer answer held) =
     (case sq_call S of
        None \<Rightarrow> None
      | Some (requested, chunk) \<Rightarrow>
          if list_all (\<lambda>(n, h, t). requested + whole_seconds t \<le> held n) chunk
          then Some (S\<lparr>sq_leases := sqs_extend requested chunk answer (sq_leases S), sq_call := None,
                       sq_held := (case answer of
                          None \<Rightarrow> sq_held S
                        | Some (successful, _) \<Rightarrow>
                            (\<lambda>n. if n \<in> set successful \<inter> fst ` set chunk then held n else sq_held S n))\<rparr>)
          else None)"
| "sqs_step c patience S SqRelease = Some (S\<lparr>sq_released := drop batch_size (sq_released S)\<rparr>)"
| "sqs_step c patience S (SqAck i results) =
     (if i < length (sq_live S) then map_option snd (sqs_ack (qc_ack_retry c) results i S) else None)"
| "sqs_step c patience S (SqDrop i) =
     (if i < length (sq_live S) then Some (sqs_drop i S) else None)"
| "sqs_step c patience S (SqClose order) =
     (if sq_due S = [] \<and> sq_call S = None \<and> walks order (fst (sq_leases S)) then
        Some (S\<lparr>sq_closed := True, sq_polling := None, sq_buffered := [], sq_released := [],
                sq_leases := snd (leases_drain order (sq_leases S))\<rparr>)
      else None)"

definition sqs_new :: "nat \<Rightarrow> 'm sqs" where
  "sqs_new now =
     \<lparr>sq_leases = (table_new, tokens_empty), sq_now = now, sq_polling = None, sq_buffered = [],
      sq_live = [], sq_due = [], sq_due_at = now, sq_call = None, sq_released = [], sq_closed = False,
      sq_held = (\<lambda>_. 0), sq_deleted = []\<rparr>"

definition sqs_init :: "sqs_config \<Rightarrow> 'm sqs \<Rightarrow> bool" where
  "sqs_init c S \<longleftrightarrow> sqs_validate c = Inr () \<and> (\<exists>now. S = sqs_new now)"

abbreviation sqs_reach ::
  "sqs_config \<Rightarrow> duration \<Rightarrow> 'm sqs \<Rightarrow> bool" where
  "sqs_reach c patience \<equiv> reach (sqs_init c) (sqs_step c patience)"

section \<open>Leases end by being revoked\<close>

abbreviation leased_as :: "leases \<Rightarrow> nat \<Rightarrow> token \<Rightarrow> bool" where
  "leased_as \<equiv> tracked_as le_revoked"

abbreviation revokes :: "leases \<Rightarrow> leases \<Rightarrow> bool" where
  "revokes \<equiv> only_revokes le_revoked"

lemmas leased_as_def = tracked_as_def [of le_revoked]
lemmas revokes_def = only_revokes_def [of le_revoked]
lemmas leased_as_revokes = tracked_as_only_revokes [of le_revoked]
lemmas revokes_trans = only_revokes_trans [of le_revoked]
lemmas revokes_fold = only_revokes_fold [of le_revoked]
lemmas revokes_expire = only_revokes_expire [of le_revoked _ le_expires]

lemma revokes_revoke: "revokes L (leases_revoke n L)"
  unfolding leases_revoke_def by (rule only_revokes_revoke)

lemma revokes_extended: "revokes L (leases_extended n e L)"
  by (auto simp: revokes_def leased_as_def leases_extended_def split: option.splits)

lemma revokes_extend: "revokes L (sqs_extend requested chunk answer L)"
proof (cases answer)
  case (Some a)
  obtain ok failed where a: "a = (ok, failed)" by (cases a)
  let ?f = "\<lambda>n L. case map_of (map (\<lambda>(n, _, t). (n, t)) chunk) n of
                    None \<Rightarrow> L | Some t \<Rightarrow> leases_extended n (requested + t) L"
  have "revokes L (fold ?f ok L)"
    by (rule revokes_fold) (simp add: revokes_extended split: option.splits)
  also note revokes_fold [of leases_revoke "fold ?f ok L" failed, OF revokes_revoke]
  finally (revokes_trans) show ?thesis by (simp add: sqs_extend_def Some a)
qed (simp add: sqs_extend_def)

lemma extended_entries:
  "lt_entries (fst (leases_extended n e L)) m =
     (if m = n then map_option (\<lambda>l. l\<lparr>le_expires := max (le_expires l) e\<rparr>) (lt_entries (fst L) n)
      else lt_entries (fst L) m)"
  "snd (leases_extended n e L) = snd L" "lt_next (fst (leases_extended n e L)) = lt_next (fst L)"
  by (auto simp: leases_extended_def split: option.splits)

lemma table_ok_extended: "table_ok le_revoked L \<Longrightarrow> table_ok le_revoked (leases_extended n e L)"
  unfolding table_ok_def extended_entries by (auto split: if_splits)

lemma table_ok_extend:
  assumes "table_ok le_revoked L"
  shows "table_ok le_revoked (sqs_extend requested chunk answer L)"
  using assms
  by (auto simp: sqs_extend_def leases_revoke_def intro!: table_ok_fold table_ok_revoke table_ok_extended
      split: option.splits)

abbreviation timeout_of :: "(nat \<times> string \<times> duration) list \<Rightarrow> nat \<Rightarrow> duration option" where
  "timeout_of chunk n \<equiv> map_of (map (\<lambda>(n, _, t). (n, t)) chunk) n"

lemma timeout_of_in: "timeout_of chunk n = Some t \<Longrightarrow> \<exists>h. (n, h, t) \<in> set chunk"
  by (induction chunk) (auto split: if_splits)

lemma fold_extended_entries:
  "lt_entries (fst (fold (\<lambda>n L. case timeout_of chunk n of
       None \<Rightarrow> L | Some t \<Rightarrow> leases_extended n (requested + t) L) ok L)) m =
   map_option (\<lambda>l. case timeout_of chunk m of
       None \<Rightarrow> l
     | Some t \<Rightarrow> if m \<in> set ok then l\<lparr>le_expires := max (le_expires l) (requested + t)\<rparr> else l)
     (lt_entries (fst L) m)"
proof (induction ok arbitrary: L)
  case (Cons n ok)
  show ?case
    by (cases "lt_entries (fst L) m"; cases "timeout_of chunk n"; cases "timeout_of chunk m")
      (auto simp: Cons.IH extended_entries)
next
  case Nil
  show ?case by (cases "lt_entries (fst L) m"; cases "timeout_of chunk m") simp_all
qed

lemma fold_revoke_entries:
  "lt_entries (fst (fold leases_revoke failed L)) m = Some l \<Longrightarrow> lt_entries (fst L) m = Some l"
proof (induction failed arbitrary: L)
  case (Cons n failed)
  obtain T ts where L: "L = (T, ts)" by (cases L)
  have "lt_entries (fst (leases_revoke n L)) m = Some l" using Cons by simp
  then show ?case
    using table_revoke_entries [of le_revoked n T ts] by (simp add: leases_revoke_def L split: if_splits)
qed simp

lemma extend_entries:
  assumes "lt_entries (fst (sqs_extend requested chunk answer L)) m = Some l'"
  obtains l where "lt_entries (fst L) m = Some l" "l' = l"
      "answer = None \<or> m \<notin> set (fst (the answer)) \<or> timeout_of chunk m = None"
  | l t where "lt_entries (fst L) m = Some l" "timeout_of chunk m = Some t" "answer \<noteq> None"
      "m \<in> set (fst (the answer))" "l' = l\<lparr>le_expires := max (le_expires l) (requested + t)\<rparr>"
proof (cases answer)
  case None
  with assms that(1) show ?thesis by (simp add: sqs_extend_def)
next
  case (Some a)
  obtain ok failed where a: "a = (ok, failed)" by (cases a)
  have "map_option (\<lambda>l. case timeout_of chunk m of
       None \<Rightarrow> l
     | Some t \<Rightarrow> if m \<in> set ok then l\<lparr>le_expires := max (le_expires l) (requested + t)\<rparr> else l)
     (lt_entries (fst L) m) = Some l'"
    using fold_revoke_entries [of failed _ m l'] assms
    by (simp add: sqs_extend_def Some a flip: fold_extended_entries)
  then obtain l where l: "lt_entries (fst L) m = Some l"
    and l': "l' = (case timeout_of chunk m of None \<Rightarrow> l
      | Some t \<Rightarrow> if m \<in> set ok then l\<lparr>le_expires := max (le_expires l) (requested + t)\<rparr> else l)"
    by auto
  show ?thesis
  proof (cases "m \<in> set ok \<and> timeout_of chunk m \<noteq> None")
    case True
    then obtain t where "timeout_of chunk m = Some t" by auto
    with True l l' show ?thesis by (intro that(2) [of l t]) (simp_all add: Some a)
  next
    case False
    with l l' show ?thesis by (intro that(1) [of l]) (auto simp: Some a split: option.splits)
  qed
qed

lemma whole_seconds_bound: "d < whole_seconds d + second"
proof -
  have "d mod second < second" by simp
  then show ?thesis unfolding whole_seconds_def by (metis add.commute add_less_cancel_left div_mult_mod_eq mult.commute)
qed

section \<open>The invariant of the source\<close>

definition call_items :: "'m sqs \<Rightarrow> (nat \<times> string \<times> duration) list" where
  "call_items S = (case sq_call S of None \<Rightarrow> [] | Some (_, chunk) \<Rightarrow> chunk)"

definition due_item_ok :: "duration \<Rightarrow> leases \<Rightarrow> nat \<Rightarrow> nat \<times> string \<times> duration \<Rightarrow> bool" where
  "due_item_ok patience L due_at x =
     (case x of (n, h, t) \<Rightarrow> n \<le> lt_next (fst L)
        \<and> (\<forall>l. lt_entries (fst L) n = Some l \<longrightarrow>
             le_expires l \<le> due_at + t + patience \<and> due_at + t \<le> le_received l + max_visibility))"

definition due_ok :: "duration \<Rightarrow> 'm sqs \<Rightarrow> bool" where
  "due_ok patience S \<longleftrightarrow>
     distinct (map fst (call_items S @ sq_due S))
     \<and> (\<forall>x \<in> set (call_items S @ sq_due S). due_item_ok patience (sq_leases S) (sq_due_at S) x)
     \<and> sq_due_at S \<le> sq_now S
     \<and> (\<forall>req chunk. sq_call S = Some (req, chunk) \<longrightarrow> sq_due_at S \<le> req \<and> req \<le> sq_due_at S + patience)"

definition held_ok :: "duration \<Rightarrow> leases \<Rightarrow> (nat \<Rightarrow> nat) \<Rightarrow> bool" where
  "held_ok patience L held \<longleftrightarrow>
     (\<forall>n l. lt_entries (fst L) n = Some l \<longrightarrow>
        le_expires l \<le> held n + second + patience
        \<and> le_expires l \<le> le_received l + max_visibility + patience)"

definition owned :: "leases \<Rightarrow> 'm received_msg list \<Rightarrow> bool" where
  "owned L rs \<longleftrightarrow>
     distinct (map rc_lease rs)
     \<and> (\<forall>r \<in> set rs. rc_lease r \<le> lt_next (fst L) \<and> leased_as L (rc_lease r) (rc_revoked r))"

definition received_ok :: "'m sqs \<Rightarrow> bool" where
  "received_ok S \<longleftrightarrow>
     (\<forall>n l. lt_entries (fst (sq_leases S)) n = Some l \<longrightarrow> le_received l \<le> sq_now S)
     \<and> (\<forall>req. sq_polling S = Some req \<longrightarrow> req \<le> sq_now S)"

definition sqs_inv :: "sqs_config \<Rightarrow> duration \<Rightarrow> 'm sqs \<Rightarrow> bool" where
  "sqs_inv c patience S \<longleftrightarrow>
     qc_visibility_timeout c \<le> max_visibility
     \<and> table_ok le_revoked (sq_leases S) \<and> held_ok patience (sq_leases S) (sq_held S)
     \<and> due_ok patience S \<and> received_ok S
     \<and> (\<forall>r \<in> set (sq_buffered S @ sq_live S). rc_revoked r < tok_next (snd (sq_leases S)))
     \<and> (sq_closed S \<longrightarrow> lt_entries (fst (sq_leases S)) = Map.empty \<and> sq_buffered S = [] \<and> sq_due S = [] \<and> sq_call S = None \<and> sq_polling S = None)
     \<and> (\<not> sq_closed S \<longrightarrow> owned (sq_leases S) (sq_buffered S @ sq_live S))"

lemma owned_revokes: "owned L rs \<Longrightarrow> revokes L L' \<Longrightarrow> owned L' rs"
  using leased_as_revokes unfolding owned_def revokes_def by metis

text \<open>Leases may also go away one by one, when a message ends.\<close>

definition fewer :: "leases \<Rightarrow> leases \<Rightarrow> bool" where
  "fewer L L' \<longleftrightarrow>
     lt_next (fst L') = lt_next (fst L)
     \<and> (\<forall>n l. lt_entries (fst L') n = Some l \<longrightarrow> lt_entries (fst L) n = Some l)"

lemma held_ok_fewer: "held_ok patience L held \<Longrightarrow> fewer L L' \<Longrightarrow> held_ok patience L' held"
  by (auto simp: held_ok_def fewer_def)

lemma due_item_fewer: "due_item_ok patience L d x \<Longrightarrow> fewer L L' \<Longrightarrow> due_item_ok patience L' d x"
  by (auto simp: due_item_ok_def fewer_def)

lemma due_ok_fewer:
  assumes "due_ok patience S" "fewer (sq_leases S) (sq_leases S')" "sq_due S' = sq_due S"
    "sq_due_at S' = sq_due_at S" "sq_call S' = sq_call S" "sq_now S \<le> sq_now S'"
  shows "due_ok patience S'"
proof -
  have "call_items S' = call_items S" using assms(5) by (simp add: call_items_def)
  then show ?thesis
    using assms unfolding due_ok_def by (auto intro: due_item_fewer)
qed

lemma fewer_expire: "fewer L (table_expire le_expires le_revoked order now L)"
proof -
  obtain T ts where L: "L = (T, ts)" by (cases L)
  have "lt_next (fst (table_expire le_expires le_revoked order now (T, ts))) = lt_next T" by simp
  then show ?thesis
    by (auto simp: fewer_def L table_expire_entries split: option.splits if_splits)
qed

lemma fewer_remove: "fewer L (snd (leases_remove n L))"
  by (auto simp: fewer_def leases_remove_def table_remove_def split: if_splits)

lemma fewer_cancel: "fewer L L' \<Longrightarrow> fewer L (fst L', token_cancel t (snd L'))"
  by (simp add: fewer_def)

lemma fewer_drain: "fewer L (snd (leases_drain order L))"
  by (simp add: fewer_def leases_drain_def)

lemma table_ok_removed:
  assumes "table_ok le_revoked L"
  shows "table_ok le_revoked (snd (leases_remove n L))"
  using assms table_ok_remove [of le_revoked "fst L" "snd L" n]
  by (simp add: leases_remove_def case_prod_beta)

text \<open>When the lease of a message is taken from the table, the others keep theirs.\<close>

lemma owned_remove:
  assumes "owned L (rs @ qs)" "i < length qs" "n = rc_lease (qs ! i)"
  shows "owned (snd (leases_remove n L)) (rs @ remove_nth i qs)"
proof -
  have split: "qs = take i qs @ qs ! i # drop (Suc i) qs" by (rule remove_nth_split [OF assms(2)])
  have "distinct (map rc_lease (rs @ take i qs @ qs ! i # drop (Suc i) qs))"
    using assms(1) by (subst split [symmetric]) (simp add: owned_def)
  then have "distinct (map rc_lease (rs @ remove_nth i qs))"
    and "n \<notin> rc_lease ` set (rs @ remove_nth i qs)"
    using assms(3) by (auto simp: remove_nth_def)
  then show ?thesis
    using assms(1) set_remove_nth [of i qs]
    unfolding owned_def leased_as_def leases_remove_def table_remove_def by (auto dest: subsetD)
qed

lemma owned_cancel: "owned L rs \<Longrightarrow> owned (fst L, token_cancel t (snd L)) rs"
  by (auto simp: owned_def leased_as_def)

lemma inv_add:
  assumes inv: "sqs_inv c patience S" and live: "\<not> sq_closed S"
    and req: "requested \<le> sq_now S" "requested + whole_seconds (qc_visibility_timeout c) \<le> held"
    and add: "leases_add (qc_visibility_timeout c) h requested (sq_leases S) = ((n, revoked), L)"
  shows "sqs_inv c patience (S\<lparr>sq_leases := L,
    sq_buffered := sq_buffered S @ [\<lparr>rc_message = m, rc_lease = n, rc_revoked = revoked\<rparr>],
    sq_held := (sq_held S)(n := held)\<rparr>)"
proof -
  obtain T ts where L0: "sq_leases S = (T, ts)" by (cases "sq_leases S")
  let ?v = "qc_visibility_timeout c"
  let ?l = "\<lparr>le_handle = h, le_expires = requested + ?v, le_received = requested, le_revoked = tok_next ts\<rparr>"
  have n: "n = lt_next T + 1" "revoked = tok_next ts"
    and L: "L = (T\<lparr>lt_next := n, lt_entries := (lt_entries T)(n \<mapsto> ?l)\<rparr>, snd (token_new ts))"
    using add by (auto simp: leases_add_def L0 table_add_def token_new_def Let_def)
  have vis: "?v \<le> max_visibility" using inv by (simp add: sqs_inv_def)
  have "table_ok le_revoked L"
    using inv table_ok_add [of le_revoked T ts ?l] by (simp add: sqs_inv_def L0 L table_add_def Let_def n)
  moreover have "held_ok patience L ((sq_held S)(n := held))"
    using inv vis req(2) whole_seconds_bound [of ?v] by (auto simp: sqs_inv_def held_ok_def L0 L)
  moreover have "due_item_ok patience L d x" if "due_item_ok patience (sq_leases S) d x" for d x
    using that by (auto simp: due_item_ok_def L0 L n)
  then have "due_ok patience (S\<lparr>sq_leases := L, sq_buffered := b, sq_held := g\<rparr>)" for b g
    using inv by (auto simp: sqs_inv_def due_ok_def call_items_def)
  moreover have "received_ok (S\<lparr>sq_leases := L, sq_buffered := b, sq_held := g\<rparr>)" for b g
    using inv req(1) by (auto simp: sqs_inv_def received_ok_def L0 L)
  moreover have "owned L ((sq_buffered S @ [\<lparr>rc_message = m, rc_lease = n, rc_revoked = revoked\<rparr>]) @ sq_live S)"
  proof -
    have own: "owned (T, ts) (sq_buffered S @ sq_live S)" using inv live by (simp add: sqs_inv_def L0)
    have kept: "rc_lease r < n \<and> leased_as (T, ts) (rc_lease r) (rc_revoked r)"
      if "r \<in> set (sq_buffered S @ sq_live S)" for r
      using own that n(1) unfolding owned_def by (auto simp: less_Suc_eq_le)
    have "distinct (map rc_lease (sq_buffered S @ sq_live S))" using own by (simp add: owned_def)
    then have "distinct (map rc_lease ((sq_buffered S @ [\<lparr>rc_message = m, rc_lease = n, rc_revoked = revoked\<rparr>])
        @ sq_live S))"
      using kept by force
    then show ?thesis
      using kept n(2) unfolding owned_def L by (auto simp: less_imp_le leased_as_def)
  qed
  moreover have "rc_revoked r < tok_next (snd L)" if "r \<in> set (sq_buffered S @ sq_live S)" for r
    using inv that by (auto simp: sqs_inv_def L0 L less_Suc_eq)
  moreover have "revoked < tok_next (snd L)" using n by (simp add: L)
  ultimately show ?thesis using inv live by (auto simp: sqs_inv_def)
qed

lemma inv_polled:
  assumes "sqs_inv c patience S" "\<not> sq_closed S" "requested \<le> sq_now S"
    "list_all (\<lambda>m. requested + whole_seconds (qc_visibility_timeout c) \<le> snd (snd m)) ms"
  shows "sqs_inv c patience (sqs_polled (qc_visibility_timeout c) requested ms S)"
  using assms
proof (induction ms arbitrary: S)
  case (Cons x ms)
  obtain m handle held where x: "x = (m, handle, held)" by (cases x)
  show ?case
  proof (cases handle)
    case (Some h)
    obtain n revoked L
      where L: "leases_add (qc_visibility_timeout c) h requested (sq_leases S) = ((n, revoked), L)"
      by (cases "leases_add (qc_visibility_timeout c) h requested (sq_leases S)") auto
    show ?thesis
      unfolding x using Cons.prems Some
      by (simp add: L) (intro Cons.IH inv_add [OF _ _ _ _ L]; simp add: x)
  qed (use Cons in \<open>simp add: x\<close>)
qed simp

text \<open>What the keeper finds due: asking again never shortens a lease by more than its own delay.\<close>

lemma due_items:
  assumes "leases_due visibility order now L = (due, L')" "distinct order"
    "held_ok patience L held" "table_ok le_revoked L"
    "\<And>n l. lt_entries (fst L) n = Some l \<Longrightarrow> le_received l \<le> now"
  shows "distinct (map fst due)" "\<And>x. x \<in> set due \<Longrightarrow> due_item_ok patience L' now x"
proof -
  let ?f = "\<lambda>n. case lt_entries (fst L') n of None \<Rightarrow> None
      | Some l \<Rightarrow> if le_expires l - now \<le> visibility * 2 div 3
                   \<and> second \<le> extension_timeout visibility now l
                then Some (n, le_handle l, extension_timeout visibility now l) else None"
  have L': "L' = table_expire le_expires le_revoked order now L" and due: "due = List.map_filter ?f order"
    using assms(1) by (auto simp: leases_due_def Let_def)
  have "fst x = n" if "?f n = Some x" for n x
    using that by (auto split: option.splits if_splits)
  then have "map fst (List.map_filter ?f ns) = filter (\<lambda>n. ?f n \<noteq> None) ns" for ns
    by (induction ns) (auto simp: map_filter_simps split: option.splits if_splits)
  then show "distinct (map fst due)" using assms(2) unfolding due by simp
  have ok: "table_ok le_revoked L'" "held_ok patience L' held" "fewer L L'"
    using assms(3,4) fewer_expire table_expire_ok held_ok_fewer unfolding L' by blast+
  show "due_item_ok patience L' now x" if x: "x \<in> set due" for x
  proof -
    obtain n l where l: "lt_entries (fst L') n = Some l" "le_expires l - now \<le> visibility * 2 div 3"
      "second \<le> extension_timeout visibility now l"
      "x = (n, le_handle l, extension_timeout visibility now l)"
      using x unfolding due map_filter_def by (auto split: option.splits if_splits)
    let ?t = "extension_timeout visibility now l"
    have "lt_entries (fst L) n = Some l" using ok(3) l(1) by (simp add: fewer_def)
    then have rec: "le_received l \<le> now" by (rule assms(5))
    have "le_expires l \<le> le_received l + max_visibility + patience" using ok(2) l(1) by (simp add: held_ok_def)
    moreover have "now + ?t \<le> le_received l + max_visibility"
      using l(3) rec unfolding extension_timeout_def by linarith
    moreover have "visibility * 2 div 3 \<le> visibility" by linarith
    moreover have "?t = visibility \<or> now + ?t = le_received l + max_visibility"
      using l(3) rec unfolding extension_timeout_def by linarith
    ultimately have "le_expires l \<le> now + ?t + patience" using l(2) by linarith
    moreover have "n \<le> lt_next (fst L')"
      using ok(1) l(1) table_okD(1) [of le_revoked "fst L'" "snd L'"] by simp
    ultimately show ?thesis
      using l(1) \<open>now + ?t \<le> _\<close> by (simp add: due_item_ok_def l(4))
  qed
qed

lemma inv_answer:
  assumes inv: "sqs_inv c patience S" and call: "sq_call S = Some (requested, chunk)"
    and held: "list_all (\<lambda>(n, h, t). requested + whole_seconds t \<le> held n) chunk"
  shows "sqs_inv c patience (S\<lparr>sq_leases := sqs_extend requested chunk answer (sq_leases S), sq_call := None,
    sq_held := (case answer of
        None \<Rightarrow> sq_held S
      | Some (successful, _) \<Rightarrow>
          (\<lambda>n. if n \<in> set successful \<inter> fst ` set chunk then held n else sq_held S n))\<rparr>)"
    (is "sqs_inv c patience ?S")
proof -
  let ?L = "sq_leases S" and ?L' = "sqs_extend requested chunk answer (sq_leases S)"
  have due: "due_ok patience S" and hok: "held_ok patience ?L (sq_held S)" using inv by (simp_all add: sqs_inv_def)
  have items: "due_item_ok patience ?L (sq_due_at S) x" if "x \<in> set chunk \<union> set (sq_due S)" for x
    using due that by (auto simp: due_ok_def call_items_def call)
  have req: "sq_due_at S \<le> requested" "requested \<le> sq_due_at S + patience" using due call by (auto simp: due_ok_def)
  have dist: "distinct (map fst (chunk @ sq_due S))" using due call by (simp add: due_ok_def call_items_def)
  have next_eq: "lt_next (fst ?L') = lt_next (fst ?L)" "tok_next (snd ?L') = tok_next (snd ?L)"
    using revokes_extend by (simp_all add: revokes_def)
  have "held_ok patience ?L' (sq_held ?S)"
    unfolding held_ok_def
  proof (intro allI impI)
    fix n l' assume "lt_entries (fst ?L') n = Some l'"
    then show "le_expires l' \<le> sq_held ?S n + second + patience
        \<and> le_expires l' \<le> le_received l' + max_visibility + patience"
    proof (cases rule: extend_entries)
      case (1 l)
      have "n \<in> fst ` set chunk \<Longrightarrow> timeout_of chunk n \<noteq> None"
        by (simp add: map_of_eq_None_iff image_image case_prod_beta)
      then have "sq_held ?S n = sq_held S n" using 1(3) by (force split: option.splits)
      then show ?thesis using 1(1,2) hok by (simp add: held_ok_def)
    next
      case (2 l t)
      obtain h where h: "(n, h, t) \<in> set chunk" using timeout_of_in [OF 2(2)] by blast
      then have "sq_held ?S n = held n" using 2(3,4) by (force split: option.splits)
      moreover have "requested + whole_seconds t \<le> held n" using held h by (auto simp: list_all_iff)
      moreover have "le_expires l \<le> sq_due_at S + t + patience" "sq_due_at S + t \<le> le_received l + max_visibility"
        using items [of "(n, h, t)"] h 2(1) by (auto simp: due_item_ok_def)
      ultimately show ?thesis
        using 2(5) req whole_seconds_bound [of t] by simp
    qed
  qed
  moreover have "due_item_ok patience ?L' (sq_due_at S) x" if x: "x \<in> set (sq_due S)" for x
  proof -
    obtain n h t where nht: "x = (n, h, t)" by (cases x)
    have "n \<notin> fst ` set chunk" using dist x nht by force
    then have "timeout_of chunk n = None" by (simp add: map_of_eq_None_iff image_image case_prod_beta)
    then have same: "lt_entries (fst ?L) n = Some l" if l: "lt_entries (fst ?L') n = Some l" for l
      using extend_entries [OF l] by (metis option.distinct(1))
    show ?thesis
      using items [of x] x same unfolding nht due_item_ok_def by (simp add: next_eq)
  qed
  then have "due_ok patience ?S" using due dist by (simp add: due_ok_def call_items_def)
  moreover have "received_ok ?S"
  proof -
    have "le_received l' \<le> sq_now S" if "lt_entries (fst ?L') n = Some l'" for n l'
      using that inv by (cases rule: extend_entries) (auto simp: sqs_inv_def received_ok_def)
    then show ?thesis using inv by (simp add: sqs_inv_def received_ok_def)
  qed
  moreover have "table_ok le_revoked ?L'" using inv table_ok_extend by (simp add: sqs_inv_def)
  moreover have "\<not> sq_closed S \<Longrightarrow> owned ?L' (sq_buffered S @ sq_live S)"
    using inv by (intro owned_revokes [OF _ revokes_extend]) (simp add: sqs_inv_def)
  moreover have "\<not> sq_closed S" using inv call by (auto simp: sqs_inv_def)
  ultimately show ?thesis using inv by (simp add: sqs_inv_def next_eq)
qed

lemma sqs_inv_fewer:
  assumes inv: "sqs_inv c patience S" and few: "fewer (sq_leases S) (sq_leases S')"
    and ok: "table_ok le_revoked (sq_leases S')" "tok_next (snd (sq_leases S')) = tok_next (snd (sq_leases S))"
    and own: "\<not> sq_closed S \<Longrightarrow> owned (sq_leases S') (sq_buffered S' @ sq_live S')"
    and same: "sq_due S' = sq_due S" "sq_due_at S' = sq_due_at S" "sq_call S' = sq_call S"
      "sq_now S' = sq_now S" "sq_held S' = sq_held S" "sq_polling S' = sq_polling S"
      "sq_closed S' = sq_closed S"
      "set (sq_buffered S' @ sq_live S') \<subseteq> set (sq_buffered S @ sq_live S)"
      "sq_buffered S = [] \<Longrightarrow> sq_buffered S' = []"
  shows "sqs_inv c patience S'"
proof -
  have "held_ok patience (sq_leases S) (sq_held S)" "due_ok patience S" and rec: "received_ok S"
    using inv by (simp_all add: sqs_inv_def)
  then have "held_ok patience (sq_leases S') (sq_held S')" "due_ok patience S'"
    using held_ok_fewer [OF _ few] due_ok_fewer [of patience S S'] same few by simp_all
  moreover have "received_ok S'"
    unfolding received_ok_def same using rec few by (metis fewer_def received_ok_def)
  moreover have "lt_entries (fst (sq_leases S')) = Map.empty" if "sq_closed S"
  proof
    fix n show "lt_entries (fst (sq_leases S')) n = None"
      using inv few that by (cases "lt_entries (fst (sq_leases S')) n") (auto simp: sqs_inv_def fewer_def)
  qed
  moreover have "\<forall>r \<in> set (sq_buffered S' @ sq_live S'). rc_revoked r < tok_next (snd (sq_leases S'))"
    using inv ok(2) same(8) unfolding sqs_inv_def by (simp only:) blast
  ultimately show ?thesis using inv ok own same by (simp add: sqs_inv_def)
qed

text \<open>Cancelling the token of a message whose lease is gone touches no lease.\<close>

lemma removed_entries:
  "lt_entries (fst (snd (leases_remove n L))) = (lt_entries (fst L))(n := None)"
  "snd (snd (leases_remove n L)) = snd L"
  by (simp_all add: leases_remove_def table_remove_def)

lemma inv_ack:
  assumes inv: "sqs_inv c patience S" and i: "i < length (sq_live S)"
    and ack: "sqs_ack retry results i S = Some (ok, S')"
  shows "sqs_inv c patience S'"
proof -
  let ?r = "sq_live S ! i"
  let ?L = "snd (leases_remove (rc_lease ?r) (sq_leases S))"
  let ?C = "(fst ?L, token_cancel (rc_revoked ?r) (snd ?L))"
  have r: "?r \<in> set (sq_live S)" using i by simp
  have L': "sq_leases S' = ?L \<or> sq_leases S' = ?C"
    and same: "sq_live S' = remove_nth i (sq_live S)" "sq_buffered S' = sq_buffered S"
      "sq_due S' = sq_due S" "sq_due_at S' = sq_due_at S" "sq_call S' = sq_call S"
      "sq_now S' = sq_now S" "sq_held S' = sq_held S" "sq_polling S' = sq_polling S"
      "sq_closed S' = sq_closed S"
    using ack by (auto simp: sqs_ack_def Let_def split: prod.splits option.splits if_splits)
  have sub: "set (remove_nth i (sq_live S)) \<subseteq> set (sq_buffered S) \<union> set (sq_live S)"
    using set_remove_nth [of i "sq_live S"] by blast
  have tab: "table_ok le_revoked (sq_leases S)" using inv by (simp add: sqs_inv_def)
  have next_eq: "tok_next (snd ?L) = tok_next (snd (sq_leases S))" by (simp add: removed_entries)
  have tok: "rc_revoked ?r < tok_next (snd ?L)" using inv r by (simp add: sqs_inv_def next_eq)
  have ok: "table_ok le_revoked (sq_leases S')"
  proof (cases "sq_closed S")
    case True
    then have "lt_entries (fst ?L) n = None" for n using inv by (simp add: removed_entries sqs_inv_def)
    then have "table_ok le_revoked ?C" using table_ok_cancel [OF table_ok_removed [OF tab] tok] by simp
    then show ?thesis using L' table_ok_removed [OF tab] by auto
  next
    case False
    then have "leased_as (sq_leases S) (rc_lease ?r) (rc_revoked ?r)"
      using inv r by (simp add: sqs_inv_def owned_def)
    then have "le_revoked l \<noteq> rc_revoked ?r" if "lt_entries (fst ?L) m = Some l" for m l
      using token_of_removed [OF tab, of "rc_lease ?r" "rc_revoked ?r" m l] that
      by (simp add: removed_entries split: if_splits)
    then have "table_ok le_revoked ?C"
      using table_ok_cancel [OF table_ok_removed [OF tab] tok] by blast
    then show ?thesis using L' table_ok_removed [OF tab] by auto
  qed
  have "owned (sq_leases S') (sq_buffered S' @ sq_live S')" if "\<not> sq_closed S"
  proof -
    have "owned ?L (sq_buffered S @ remove_nth i (sq_live S))"
      using inv that i by (intro owned_remove) (simp_all add: sqs_inv_def)
    then have "owned ?C (sq_buffered S @ remove_nth i (sq_live S))" by (rule owned_cancel)
    with \<open>owned ?L _\<close> show ?thesis using L' unfolding same by metis
  qed
  moreover have "fewer (sq_leases S) (sq_leases S')" using L' fewer_remove fewer_cancel by metis
  moreover have "tok_next (snd (sq_leases S')) = tok_next (snd (sq_leases S))" using L' next_eq by auto
  ultimately show ?thesis
    using sqs_inv_fewer [OF inv, of S'] ok sub by (simp add: same)
qed

lemma inv_drop:
  assumes inv: "sqs_inv c patience S" and i: "i < length (sq_live S)"
  shows "sqs_inv c patience (sqs_drop i S)"
proof -
  let ?S = "sqs_drop i S"
  have L: "sq_leases ?S = snd (leases_remove (rc_lease (sq_live S ! i)) (sq_leases S))"
    and same: "sq_live ?S = remove_nth i (sq_live S)" "sq_buffered ?S = sq_buffered S"
      "sq_due ?S = sq_due S" "sq_due_at ?S = sq_due_at S" "sq_call ?S = sq_call S"
      "sq_now ?S = sq_now S" "sq_held ?S = sq_held S" "sq_polling ?S = sq_polling S"
      "sq_closed ?S = sq_closed S"
    by (simp_all add: sqs_drop_def split: prod.splits)
  have sub: "set (remove_nth i (sq_live S)) \<subseteq> set (sq_buffered S) \<union> set (sq_live S)"
    using set_remove_nth [of i "sq_live S"] by blast
  have tab: "table_ok le_revoked (sq_leases S)" using inv by (simp add: sqs_inv_def)
  have "owned (sq_leases ?S) (sq_buffered ?S @ sq_live ?S)" if "\<not> sq_closed S"
    unfolding L same using inv that i by (intro owned_remove) (simp_all add: sqs_inv_def)
  then show ?thesis
    using sqs_inv_fewer [OF inv, of ?S] table_ok_removed [OF tab] fewer_remove sub
    by (simp add: L same removed_entries)
qed

lemma inv_keep:
  assumes inv: "sqs_inv c patience S" and idle: "sq_due S = []" "sq_call S = None" "\<not> sq_closed S"
    and order: "walks order (fst (sq_leases S))"
    and due: "leases_due (qc_visibility_timeout c) order (sq_now S) (sq_leases S) = (due, L)"
  shows "sqs_inv c patience (S\<lparr>sq_leases := L, sq_due := due, sq_due_at := sq_now S\<rparr>)"
proof -
  have L: "L = table_expire le_expires le_revoked order (sq_now S) (sq_leases S)"
    using due by (auto simp: leases_due_def Let_def)
  have ok: "table_ok le_revoked (sq_leases S)" "held_ok patience (sq_leases S) (sq_held S)"
    "received_ok S" "owned (sq_leases S) (sq_buffered S @ sq_live S)"
    using inv idle(3) by (simp_all add: sqs_inv_def)
  have rec: "lt_entries (fst (sq_leases S)) n = Some l \<Longrightarrow> le_received l \<le> sq_now S" for n l
    using ok(3) by (simp add: received_ok_def)
  have dist: "distinct order" using order by (simp add: walks_def)
  note items = due_items [OF due dist ok(2,1) rec]
  have few: "fewer (sq_leases S) L" unfolding L by (rule fewer_expire)
  have "due_ok patience (S\<lparr>sq_leases := L, sq_due := due, sq_due_at := sq_now S\<rparr>)"
    using items idle by (simp add: due_ok_def call_items_def)
  moreover have "received_ok (S\<lparr>sq_leases := L, sq_due := due, sq_due_at := sq_now S\<rparr>)"
    using ok(3) few by (simp add: received_ok_def fewer_def) metis
  moreover have "held_ok patience L (sq_held S)" by (rule held_ok_fewer [OF ok(2) few])
  moreover have "owned L (sq_buffered S @ sq_live S)"
    unfolding L by (rule owned_revokes [OF ok(4) revokes_expire])
  moreover have "table_ok le_revoked L" unfolding L by (rule table_expire_ok [OF ok(1)])
  moreover have "tok_next (snd L) = tok_next (snd (sq_leases S))" by (simp add: L)
  ultimately show ?thesis using inv idle(3) by (simp add: sqs_inv_def)
qed

lemma inv_call:
  assumes inv: "sqs_inv c patience S" and idle: "sq_due S \<noteq> []" "sq_call S = None"
    and time: "sq_now S \<le> sq_due_at S + patience"
  shows "sqs_inv c patience (S\<lparr>sq_call := Some (sq_now S, take batch_size (sq_due S)),
    sq_due := drop batch_size (sq_due S)\<rparr>)" (is "sqs_inv c patience ?S")
proof -
  have due: "due_ok patience S" using inv by (simp add: sqs_inv_def)
  have items: "call_items ?S @ sq_due ?S = sq_due S" by (simp add: call_items_def)
  have "due_ok patience ?S"
    unfolding due_ok_def items using due time idle(2) by (simp add: due_ok_def call_items_def)
  moreover have "\<not> sq_closed S" using inv idle(1) by (auto simp: sqs_inv_def)
  ultimately show ?thesis using inv by (simp add: sqs_inv_def received_ok_def)
qed

lemma inv_close:
  assumes inv: "sqs_inv c patience S" and idle: "sq_due S = []" "sq_call S = None"
  shows "sqs_inv c patience (S\<lparr>sq_closed := True, sq_polling := None, sq_buffered := [],
    sq_released := [], sq_leases := snd (leases_drain order (sq_leases S))\<rparr>)"
  using inv idle
  by (auto simp: sqs_inv_def leases_drain_def table_ok_def held_ok_def due_ok_def call_items_def
      received_ok_def)

text \<open>Steps that leave the leases and the keeper alone.\<close>

lemma lease_inv_frame:
  assumes inv: "sqs_inv c patience S"
    and same: "sq_leases S' = sq_leases S" "sq_due S' = sq_due S" "sq_due_at S' = sq_due_at S"
      "sq_call S' = sq_call S" "sq_held S' = sq_held S" "sq_closed S' = sq_closed S"
      "sq_buffered S' @ sq_live S' = sq_buffered S @ sq_live S" "sq_buffered S = [] \<Longrightarrow> sq_buffered S' = []"
    and time: "sq_now S \<le> sq_now S'"
    and poll: "sq_polling S' = sq_polling S \<or> sq_polling S' = None
      \<or> (sq_polling S' = Some (sq_now S') \<and> \<not> sq_closed S)"
  shows "sqs_inv c patience S'"
proof -
  have "due_ok patience S'"
    using inv same time by (auto simp: sqs_inv_def due_ok_def call_items_def)
  moreover have "received_ok S'"
    using inv poll time unfolding sqs_inv_def received_ok_def same by (metis le_trans option.inject option.distinct(1) order_refl)
  moreover have "set (sq_buffered S' @ sq_live S') = set (sq_buffered S @ sq_live S)" using same(7) by simp
  moreover have "sq_closed S' \<longrightarrow> sq_polling S' = None" using inv poll same(6) by (auto simp: sqs_inv_def)
  ultimately show ?thesis using inv same unfolding sqs_inv_def by metis
qed

lemma sqs_inv_step:
  assumes inv: "sqs_inv c patience S" and step: "sqs_step c patience S ev = Some S'"
  shows "sqs_inv c patience S'"
proof (cases ev)
  case (SqTick d)
  with step show ?thesis by (intro lease_inv_frame [OF inv]) auto
next
  case SqPoll
  with step show ?thesis by (intro lease_inv_frame [OF inv]) (auto split: if_splits)
next
  case (SqPolled ms)
  with step obtain requested where poll: "sq_polling S = Some requested"
    and held: "list_all (\<lambda>m. requested + whole_seconds (qc_visibility_timeout c) \<le> snd (snd m)) ms"
    and S': "S' = sqs_polled (qc_visibility_timeout c) requested ms (S\<lparr>sq_polling := None\<rparr>)"
    by (auto split: option.splits if_splits)
  have "sqs_inv c patience (S\<lparr>sq_polling := None\<rparr>)" by (intro lease_inv_frame [OF inv]) auto
  moreover have "\<not> sq_closed S" "requested \<le> sq_now S"
    using inv poll by (auto simp: sqs_inv_def received_ok_def)
  ultimately show ?thesis unfolding S' using held by (intro inv_polled) simp_all
next
  case SqPollFailed
  with step show ?thesis by (intro lease_inv_frame [OF inv]) (auto split: if_splits)
next
  case SqReceive
  with step obtain r rs where r: "sq_buffered S = r # rs" "\<not> sq_closed S"
    and S': "S' = S\<lparr>sq_buffered := rs, sq_live := sq_live S @ [r]\<rparr>"
    by (auto split: list.splits if_splits)
  have own: "owned (sq_leases S) (sq_buffered S @ sq_live S)" using inv r(2) by (simp add: sqs_inv_def)
  then have "owned (sq_leases S) (sq_buffered S' @ sq_live S')"
    by (auto simp: owned_def S' r(1))
  moreover have "table_ok le_revoked (sq_leases S)" using inv by (simp add: sqs_inv_def)
  ultimately show ?thesis
    using sqs_inv_fewer [OF inv, of S'] by (auto simp: S' r(1) fewer_def)
next
  case (SqKeep order)
  with step inv_keep [OF inv] show ?thesis by (auto split: if_splits prod.splits)
next
  case SqCall
  with step inv_call [OF inv] show ?thesis by (auto split: if_splits)
next
  case (SqAnswer answer held)
  with step obtain requested chunk where call: "sq_call S = Some (requested, chunk)"
    by (cases "sq_call S") auto
  show ?thesis
    using step SqAnswer inv_answer [OF inv call, of held answer] by (simp add: call split: if_splits)
next
  case SqRelease
  with step show ?thesis by (intro lease_inv_frame [OF inv]) auto
next
  case (SqAck i results)
  with step inv_ack [OF inv] show ?thesis by (auto split: if_splits)
next
  case (SqDrop i)
  with step inv_drop [OF inv] show ?thesis by (auto split: if_splits)
next
  case (SqClose order)
  with step inv_close [OF inv] show ?thesis by (auto split: if_splits)
qed

lemma sqs_validate_visibility:
  assumes "sqs_validate c = Inr ()"
  shows "qc_visibility_timeout c \<le> max_visibility"
  using assms by (auto simp: sqs_validate_def and_then_def ensure_config_def split: sum.splits if_splits)

interpretation sqs: invariant_system "sqs_init c" "sqs_step c patience" "sqs_inv c patience"
proof unfold_locales
  fix S :: "'a sqs" assume "sqs_init c S"
  then show "sqs_inv c patience S"
    using sqs_validate_visibility
    by (auto simp: sqs_init_def sqs_new_def sqs_inv_def table_new_def table_ok_def held_ok_def due_ok_def
        call_items_def received_ok_def owned_def tokens_empty_def tokens_ok_def)
qed (rule sqs_inv_step)

section \<open>What the leases promise\<close>

text \<open>
  C30. For every interleaving of polling, receiving, extending, acknowledging, dropping and closing: a
  lease in the table is not revoked, each message that is buffered or being processed has its own
  lease or was revoked, and after the keeper looked at the leases, every such message that is not
  revoked is hidden by SQS, up to one second and the time the keeper's earlier calls of a round took.
\<close>

theorem sqs_revoked_in_time:
  assumes "sqs_reach c patience S"
    and keep: "sqs_step c patience S (SqKeep order) = Some S'"
  shows "list_all (\<lambda>r.
        if token_is_cancelled (snd (sq_leases S')) (rc_revoked r)
        then lt_entries (fst (sq_leases S')) (rc_lease r) = None
        else \<exists>l. lt_entries (fst (sq_leases S')) (rc_lease r) = Some l \<and> le_revoked l = rc_revoked r
          \<and> sq_now S' < le_expires l \<and> sq_now S' < sq_held S' (rc_lease r) + second + patience)
      (sq_buffered S' @ sq_live S')
    \<and> distinct (map rc_lease (sq_buffered S' @ sq_live S'))"
proof -
  have "sqs_inv c patience S'" by (rule sqs_inv_step [OF sqs.reach_inv [OF assms(1)] keep])
  moreover have "\<not> sq_closed S'" using keep by (auto split: if_splits prod.splits)
  ultimately have own: "owned (sq_leases S') (sq_buffered S' @ sq_live S')"
    and tab: "table_ok le_revoked (sq_leases S')" and held: "held_ok patience (sq_leases S') (sq_held S')"
    by (simp_all add: sqs_inv_def)
  have L: "sq_leases S' = table_expire le_expires le_revoked order (sq_now S) (sq_leases S)"
    "sq_now S' = sq_now S" "walks order (fst (sq_leases S))"
    using keep by (auto simp: leases_due_def Let_def split: if_splits)
  obtain T ts where T: "sq_leases S = (T, ts)" by (cases "sq_leases S")
  have late: "sq_now S' < le_expires l" if "lt_entries (fst (sq_leases S')) n = Some l" for n l
    using that L by (auto simp: T table_expire_entries walks_def domI split: option.splits if_splits)
  have "if token_is_cancelled (snd (sq_leases S')) (rc_revoked r)
        then lt_entries (fst (sq_leases S')) (rc_lease r) = None
        else \<exists>l. lt_entries (fst (sq_leases S')) (rc_lease r) = Some l \<and> le_revoked l = rc_revoked r
          \<and> sq_now S' < le_expires l \<and> sq_now S' < sq_held S' (rc_lease r) + second + patience"
    if "r \<in> set (sq_buffered S' @ sq_live S')" for r
  proof (cases "lt_entries (fst (sq_leases S')) (rc_lease r)")
    case None
    then show ?thesis using own that by (auto simp: owned_def leased_as_def)
  next
    case (Some l)
    have "le_revoked l = rc_revoked r" using own that Some by (auto simp: owned_def leased_as_def)
    moreover have "\<not> token_is_cancelled (snd (sq_leases S')) (le_revoked l)"
      using tab Some by (simp add: table_ok_def)
    moreover have "le_expires l \<le> sq_held S' (rc_lease r) + second + patience"
      using held Some by (simp add: held_ok_def)
    ultimately show ?thesis using late [OF Some] Some by auto
  qed
  then show ?thesis using own by (simp add: list_all_iff owned_def)
qed

text \<open>A message received at 0 with a timeout of 30 s, looked at after 15 s.\<close>

definition ex_sqs_config :: sqs_config where
  "ex_sqs_config = sqs_config_new ''https://sqs.eu-west-1.amazonaws.com/1/orders''"

lemma ex_sqs_init: "sqs_init ex_sqs_config (sqs_new 0)"
  by (auto simp: sqs_init_def ex_sqs_config_def sqs_config_new_def sqs_validate_def validate_queue_url_def
      starts_with_def contains_whitespace_def max_visibility_def retry_validate_def default_retry_policy_def)

lemma ex_sqs_run:
  "run_ok (\<lambda>S. sq_live S = [\<lparr>rc_message = ''order'', rc_lease = 1, rc_revoked = 0\<rparr>] \<and> sq_buffered S = []
       \<and> sq_due S = [] \<and> sq_call S = None \<and> \<not> sq_closed S \<and> sq_now S = 15 * second
       \<and> walks [1] (fst (sq_leases S)))
     (run (sqs_step ex_sqs_config 0) (sqs_new 0)
       [SqPoll, SqPolled [(''order'', Some ''h'', 30 * second)], SqReceive, SqTick (15 * second)])"
  by (simp add: sqs_new_def ex_sqs_config_def sqs_config_new_def whole_seconds_def leases_add_def table_new_def table_add_def
      tokens_empty_def token_new_def walks_def Let_def)

theorem sqs_revoked_in_time_witness:
  "\<exists>S S' :: string sqs. sqs_reach ex_sqs_config 0 S
     \<and> sqs_step ex_sqs_config 0 S (SqKeep [1]) = Some S' \<and> length (sq_live S') = 1
     \<and> distinct (map rc_lease (sq_buffered S' @ sq_live S'))"
proof -
  obtain S where S: "sqs_reach ex_sqs_config 0 S"
    "sq_live S = [\<lparr>rc_message = ''order'', rc_lease = 1, rc_revoked = 0\<rparr>]" "sq_buffered S = []"
    "sq_due S = []" "sq_call S = None" "\<not> sq_closed S" "walks [1] (fst (sq_leases S))"
    by (rule run_ok_obtain [where init = "sqs_init ex_sqs_config", OF ex_sqs_run ex_sqs_init]) blast
  obtain due L where due: "leases_due (qc_visibility_timeout ex_sqs_config) [1] (sq_now S) (sq_leases S) = (due, L)"
    by (cases "leases_due (qc_visibility_timeout ex_sqs_config) [1] (sq_now S) (sq_leases S)")
  then have "sqs_step ex_sqs_config 0 S (SqKeep [1]) =
      Some (S\<lparr>sq_leases := L, sq_due := due, sq_due_at := sq_now S\<rparr>)"
    using S by simp
  then obtain S' where keep: "sqs_step ex_sqs_config 0 S (SqKeep [1]) = Some S'" "length (sq_live S') = 1"
    using S(2) by simp
  show ?thesis using sqs_revoked_in_time [OF S(1) keep(1)] S(1) keep by blast
qed

end
