(* ===== verification/Carriers.thy ===== *)
theory Carriers
  imports Texts
begin

text \<open>
  What the broker adapters share in their \<^verbatim>\<open>dead_letter.rs\<close> and \<^verbatim>\<open>inherit.rs\<close>: header names that mark dead
  letters, the details and the origin read from a received record, and what a payload carries after
  it was dead-lettered any number of times. The interface \<open>dead_letter_carrier\<close> has an adapter's two
  conversions and their law; its client lemmas hold for every adapter.
\<close>

text \<open>\<^verbatim>\<open>DEAD_LETTER_HEADER_PREFIX\<close>.\<close>

definition dlq_prefix :: string where
  "dlq_prefix = ''beavers-dlq-''"

abbreviation dlq_name :: "string \<Rightarrow> bool" where
  "dlq_name \<equiv> starts_with dlq_prefix"

text \<open>Attributes by name without those of earlier dead letters, as every adapter filters them.\<close>

definition without_dlq :: "(string \<rightharpoonup> 'v) \<Rightarrow> (string \<rightharpoonup> 'v)" where
  "without_dlq m = (\<lambda>name. if dlq_name name then None else m name)"

text \<open>\<^verbatim>\<open>entry(name).or_insert\<close> of every inherited attribute: what the output sets itself stays.\<close>

definition inherit_missing :: "(string \<rightharpoonup> 'v) \<Rightarrow> (string \<rightharpoonup> 'v) \<Rightarrow> (string \<rightharpoonup> 'v)" where
  "inherit_missing input output = without_dlq input ++ output"

lemma inherit_missing_lookup:
  "inherit_missing input output name =
     (case output name of
        Some v \<Rightarrow> Some v
      | None \<Rightarrow> if dlq_name name then None else input name)"
  by (simp add: inherit_missing_def without_dlq_def map_add_def split: option.splits)

text \<open>\<^verbatim>\<open>if output.is_none() { output.clone_from(received) }\<close>.\<close>

definition or_inherit :: "'a option \<Rightarrow> 'a option \<Rightarrow> 'a option" where
  "or_inherit own received = (case own of None \<Rightarrow> received | Some v \<Rightarrow> Some v)"

text \<open>The pair of details and origin every adapter has as a struct of its own.\<close>

record 'o carried =
  ca_details :: dead_letter_details
  ca_origin :: 'o

text \<open>\<^verbatim>\<open>from_record(..).ok().flatten()\<close>.\<close>

definition previous_of :: "error + 'o carried option \<Rightarrow> 'o carried option" where
  "previous_of r = (case r of Inl _ \<Rightarrow> None | Inr p \<Rightarrow> p)"

definition origin_of :: "'o \<Rightarrow> 'o carried option \<Rightarrow> 'o" where
  "origin_of first previous = (case previous of None \<Rightarrow> first | Some p \<Rightarrow> ca_origin p)"

text \<open>Rust strings are valid UTF-8 and counts fit their type.\<close>

definition letter_ok :: "('i, 'r) dead_letter \<Rightarrow> bool" where
  "letter_ok dl \<longleftrightarrow>
     utf8_valid (dl_subscription dl) \<and> utf8_valid (dl_error dl) \<and> dl_attempts dl \<le> usize_max"

text \<open>
  A record that was dead-lettered \<open>n\<close> times: a dead letter of the record is forwarded and what the
  broker delivers for it is the record of the next turn.
\<close>

inductive dead_lettered ::
  "(('i, 'r) dead_letter \<Rightarrow> 'p) \<Rightarrow> ('p \<Rightarrow> 'r \<Rightarrow> bool) \<Rightarrow> 'r \<Rightarrow> nat \<Rightarrow> 'r \<Rightarrow> bool"
  for forward :: "('i, 'r) dead_letter \<Rightarrow> 'p" and delivers :: "'p \<Rightarrow> 'r \<Rightarrow> bool" and r0 :: 'r
where
  received: "dead_lettered forward delivers r0 0 r0"
| again: "dead_lettered forward delivers r0 n r \<Longrightarrow> dl_raw dl = r \<Longrightarrow> letter_ok dl \<Longrightarrow>
    delivers (forward dl) r' \<Longrightarrow> dead_lettered forward delivers r0 (Suc n) r'"

definition details_again :: "('i, 'r) dead_letter \<Rightarrow> nat \<Rightarrow> dead_letter_details" where
  "details_again dl n =
     \<lparr>dd_subscription = dl_subscription dl, dd_failure = dl_failure dl, dd_error = dl_error dl,
      dd_attempts = dl_attempts dl, dd_count = of_nat (min n u32_max)\<rparr>"

lemma details_of_first: "details_of dl None = details_again dl 1"
  by (simp add: details_of_def details_again_def u32_max_def)

lemma details_of_next:
  assumes "dd_count p = of_nat (min n u32_max)"
  shows "details_of dl (Some p) = details_again dl (Suc n)"
proof -
  have "unat (of_nat (min n u32_max) :: 32 word) = min n u32_max"
    by (simp add: unsigned_of_nat take_bit_nat_eq_self u32_max_def)
  then have "u32_saturating_add (dd_count p) 1 = of_nat (min (Suc n) u32_max)"
    using assms by (auto simp: u32_saturating_add_def u32_max_def min_def)
  then show ?thesis by (simp add: details_of_def details_again_def)
qed

locale dead_letter_carrier =
  fixes read :: "'r \<Rightarrow> error + 'o carried option"
    and forward :: "('i, 'r) dead_letter \<Rightarrow> 'p"
    and first :: "'r \<Rightarrow> 'o"
    and delivers :: "'p \<Rightarrow> 'r \<Rightarrow> bool"
    and cut_details :: "dead_letter_details \<Rightarrow> dead_letter_details"
    and cut_origin :: "'o \<Rightarrow> 'o"
    and origin_ok :: "'o \<Rightarrow> bool"
  assumes read_forward:
    "letter_ok dl \<Longrightarrow> previous_of (read (dl_raw dl)) = previous \<Longrightarrow>
     origin_ok (origin_of (first (dl_raw dl)) previous) \<Longrightarrow> delivers (forward dl) r' \<Longrightarrow>
     read r' = Inr (Some \<lparr>ca_details = cut_details (details_of dl (map_option ca_details previous)),
                          ca_origin = cut_origin (origin_of (first (dl_raw dl)) previous)\<rparr>)"
    and cut_count: "dd_count (cut_details d) = dd_count d"
    and cut_again: "cut_origin (cut_origin o') = cut_origin o'"
    and cut_ok: "origin_ok o' \<Longrightarrow> origin_ok (cut_origin o')"
begin

text \<open>After \<open>n\<close> turns the record carries the first origin and the count \<open>n\<close>.\<close>

lemma carried_after:
  assumes "dead_lettered forward delivers r0 n r" "previous_of (read r0) = None" "origin_ok (first r0)"
  shows "if n = 0 then r = r0
    else \<exists>d. read r = Inr (Some \<lparr>ca_details = d, ca_origin = cut_origin (first r0)\<rparr>)
      \<and> dd_count d = of_nat (min n u32_max)"
  using assms
proof (induction rule: dead_lettered.induct)
  case (again n r dl r')
  show ?case
  proof (cases "n = 0")
    case True
    then have "r = r0" using again.IH again.prems by simp
    then have "read r' = Inr (Some \<lparr>ca_details = cut_details (details_again dl 1), ca_origin = cut_origin (first r0)\<rparr>)"
      using again read_forward [of dl None r'] by (simp add: origin_of_def details_of_first)
    then show ?thesis using True by (simp add: cut_count details_again_def)
  next
    case False
    then obtain d where d: "read r = Inr (Some \<lparr>ca_details = d, ca_origin = cut_origin (first r0)\<rparr>)"
      "dd_count d = of_nat (min n u32_max)"
      using again.IH again.prems by auto
    then have "read r' = Inr (Some \<lparr>ca_details = cut_details (details_again dl (Suc n)),
        ca_origin = cut_origin (first r0)\<rparr>)"
      using again cut_ok read_forward [of dl "Some \<lparr>ca_details = d, ca_origin = cut_origin (first r0)\<rparr>" r']
      by (simp add: origin_of_def previous_of_def cut_again details_of_next)
    then show ?thesis by (simp add: cut_count details_again_def)
  qed
qed simp

lemma carries_first_origin:
  assumes "dead_lettered forward delivers r0 n r" "previous_of (read r0) = None" "origin_ok (first r0)"
    "dl_raw dl = r" "letter_ok dl" "delivers (forward dl) r'"
  shows "read r' = Inr (Some \<lparr>ca_details = cut_details (details_again dl (Suc n)),
                              ca_origin = cut_origin (first r0)\<rparr>)"
proof (cases "n = 0")
  case True
  then have "r = r0" using carried_after [OF assms(1-3)] by simp
  then show ?thesis
    using assms True read_forward [of dl None r'] by (simp add: origin_of_def details_of_first)
next
  case False
  then obtain d where d: "read r = Inr (Some \<lparr>ca_details = d, ca_origin = cut_origin (first r0)\<rparr>)"
    "dd_count d = of_nat (min n u32_max)"
    using carried_after [OF assms(1-3)] by auto
  then show ?thesis
    using assms cut_ok read_forward [of dl "Some \<lparr>ca_details = d, ca_origin = cut_origin (first r0)\<rparr>" r']
    by (simp add: origin_of_def previous_of_def cut_again details_of_next)
qed

end

section \<open>Reading a table of text fields\<close>

text \<open>A required field, with the adapter's word for where it looked.\<close>

definition required_as :: "string \<Rightarrow> (string \<Rightarrow> error + string option) \<Rightarrow> string \<Rightarrow> error + string" where
  "required_as place field name =
     bind_result (field name) (\<lambda>v.
       case v of
         None \<Rightarrow> Inl (InvalidRecord (''dead-letter '' @ place @ '' '' @ name @ '' is missing''))
       | Some v \<Rightarrow> Inr v)"

lemma required_as_present [simp]: "field name = Inr (Some v) \<Longrightarrow> required_as place field name = Inr v"
  by (simp add: required_as_def)

text \<open>A table of attributes with text values, \<^verbatim>\<open>Ok(table.get(name))\<close>.\<close>

definition text_field :: "(string \<rightharpoonup> string) \<Rightarrow> string \<Rightarrow> error + string option" where
  "text_field m name = Inr (m name)"

text \<open>A table of typed values, of which only text is accepted; \<open>as_str\<close> is the value's text.\<close>

definition typed_field ::
  "string \<Rightarrow> ('v \<Rightarrow> string option) \<Rightarrow> (string \<rightharpoonup> 'v) \<Rightarrow> string \<Rightarrow> error + string option" where
  "typed_field place as_str m name =
     (case m name of
        None \<Rightarrow> Inr None
      | Some v \<Rightarrow>
          (case as_str v of
             None \<Rightarrow> Inl (InvalidRecord (''dead-letter '' @ place @ '' '' @ name @ '' is not a string''))
           | Some s \<Rightarrow> Inr (Some s)))"

text \<open>\<^verbatim>\<open>extend\<close> of a table by name and value pairs: the last value of a name stays.\<close>

definition extend_table :: "(string \<rightharpoonup> 'v) \<Rightarrow> (string \<times> 'v) list \<Rightarrow> (string \<rightharpoonup> 'v)" where
  "extend_table m kvs = fold (\<lambda>(k, v) m. m(k \<mapsto> v)) kvs m"

lemma extend_table_lookup: "extend_table m kvs = m ++ map_of (rev kvs)"
proof (induction kvs arbitrary: m)
  case (Cons kv kvs)
  obtain k v where kv: "kv = (k, v)" by (cases kv)
  have "extend_table m (kv # kvs) = m(k \<mapsto> v) ++ map_of (rev kvs)"
    unfolding Cons.IH [of "m(k \<mapsto> v)", symmetric] extend_table_def kv
    by (simp only: fold_simps(2) comp_apply split)
  also have "\<dots> = m ++ (map_of (rev kvs @ [kv]))"
    by (rule ext) (simp add: kv map_add_def split: option.splits)
  finally show ?case by simp
qed (simp add: extend_table_def)

lemma extend_table_written:
  assumes "distinct (map fst kvs)" "(name, v) \<in> set kvs"
  shows "extend_table m (map (\<lambda>(k, v). (k, f v)) kvs) name = Some (f v)"
proof -
  have "distinct (map fst (rev (map (\<lambda>(k, v). (k, f v)) kvs)))"
    using assms(1) by (simp add: case_prod_beta comp_def flip: rev_map)
  then have "map_of (rev (map (\<lambda>(k, v). (k, f v)) kvs)) name = Some (f v)"
    using assms(2) by (intro map_of_is_SomeI) force+
  then show ?thesis by (simp add: extend_table_lookup)
qed

text \<open>
  The fields an adapter writes: the details, then its own origin fields. Reading each back gives the
  details, whatever else the table holds.
\<close>

lemma details_parse_fields:
  assumes "\<And>name v. (name, v) \<in> set (details_fields d) \<Longrightarrow> field name = Inr (Some v)"
    "dd_attempts d \<le> usize_max"
  shows "details_parse field = Inr (Some d)"
proof -
  have "field name = Inr (map_of (details_fields d) name)"
    if "name \<in> {hdr_subscription, hdr_failure, hdr_error, hdr_attempts, hdr_count}" for name
    using that assms(1) by (auto simp: details_fields_def hdr_defs)
  then show ?thesis
    using assms(2)
    by (simp add: details_parse_def details_fields_def required_field_def parse_number_def hdr_defs)
qed

lemma details_fields_dlq: "(name, v) \<in> set (details_fields d) \<Longrightarrow> dlq_name name"
  by (auto simp: details_fields_def hdr_defs dlq_prefix_def starts_with_def)

lemma details_of_attempts: "letter_ok dl \<Longrightarrow> dd_attempts (details_of dl p) \<le> usize_max"
  by (simp add: details_of_def letter_ok_def)

lemma details_texts_valid:
  assumes "letter_ok dl" "(name, v) \<in> set (details_fields (details_of dl p))"
  shows "utf8_valid v"
  using assms utf8_valid_ascii [OF ascii_show_nat] utf8_valid_ascii [OF ascii_kind]
  by (auto simp: details_fields_def details_of_def letter_ok_def)

lemma typed_field_written:
  assumes "distinct (map fst kvs)" "(name, v) \<in> set kvs" "as_str (f v) = Some v'"
  shows "typed_field place as_str (extend_table m (map (\<lambda>(k, v). (k, f v)) kvs)) name = Inr (Some v')"
  using extend_table_written [OF assms(1,2), of m f] assms(3) by (simp add: typed_field_def)

lemma text_field_written:
  assumes "distinct (map fst kvs)" "(name, v) \<in> set kvs"
  shows "text_field (extend_table m (map (\<lambda>(k, v). (k, f v)) kvs)) name = Inr (Some (f v))"
  using extend_table_written [OF assms, of m f] by (simp add: text_field_def)

text \<open>The names of the details' fields are different, also from an adapter's origin fields.\<close>

lemma distinct_details_fields [simp]: "distinct (map fst (details_fields d))"
  by (simp add: details_fields_def hdr_defs)

abbreviation detail_names :: "string set" where
  "detail_names \<equiv> {hdr_subscription, hdr_failure, hdr_error, hdr_attempts, hdr_count}"

lemma details_fields_names: "fst ` set (details_fields d) = detail_names"
  by (auto simp: details_fields_def)

lemma distinct_fields:
  assumes "distinct (map fst kvs)" "fst ` set kvs \<inter> detail_names = {}"
  shows "distinct (map fst (details_fields d @ kvs))"
  using assms details_fields_names [of d] by (simp add: Int_commute)

section \<open>A dead letter for the examples\<close>

definition ex_letter :: "'r \<Rightarrow> (nat, 'r) dead_letter" where
  "ex_letter raw =
     \<lparr>dl_subscription = ''orders'', dl_failure = FkRejected, dl_error = ''boom'', dl_attempts = 3,
      dl_input = None, dl_raw = raw\<rparr>"

lemma ex_letter_raw [simp]: "dl_raw (ex_letter r) = r"
  by (simp add: ex_letter_def)

lemma ex_letter_ok [simp]: "letter_ok (ex_letter r)"
  by (simp add: letter_ok_def ex_letter_def usize_max_def utf8_valid_ascii ascii_def)

end
