(* ===== verification/Kafka_Records.thy ===== *)
theory Kafka_Records
  imports Carriers Processing Messages
begin

text \<open>
  Kafka records of \<^verbatim>\<open>src/adapters/kafka\<close>: received and published records (\<^verbatim>\<open>record.rs\<close>), their dead
  letters (\<^verbatim>\<open>dead_letter.rs\<close>), inherited metadata (\<^verbatim>\<open>inherit.rs\<close>), tombstones (\<^verbatim>\<open>tombstone.rs\<close>) and the
  distributions of deliveries (\<^verbatim>\<open>distribution.rs\<close>).
\<close>

type_synonym kafka_headers = "(string \<times> bytes option) list"

record kafka_metadata =
  km_topic :: string
  km_partition :: int
  km_offset :: int
  km_timestamp :: "int option"

record 'v kafka_record =
  kr_key :: "bytes option"
  kr_value :: "'v option"
  kr_headers :: kafka_headers
  kr_metadata :: kafka_metadata

record 'v kafka_publish =
  kp_key :: "bytes option"
  kp_value :: "'v option"
  kp_headers :: kafka_headers

definition kafka_publish_new :: "'v \<Rightarrow> 'v kafka_publish" where
  "kafka_publish_new v = \<lparr>kp_key = None, kp_value = Some v, kp_headers = []\<rparr>"

definition kafka_tombstone :: "bytes \<Rightarrow> 'v kafka_publish" where
  "kafka_tombstone key = \<lparr>kp_key = Some key, kp_value = None, kp_headers = []\<rparr>"

text \<open>Headers with UTF-8 values; null and binary headers are skipped.\<close>

definition text_headers :: "kafka_headers \<Rightarrow> (string \<times> string) list" where
  "text_headers = List.map_filter (\<lambda>(name, value).
     case value of
       None \<Rightarrow> None
     | Some bs \<Rightarrow> map_option (\<lambda>s. (name, s)) (from_utf8 bs))"

definition kafka_set_field :: "string \<Rightarrow> string \<Rightarrow> 'v kafka_publish \<Rightarrow> 'v kafka_publish" where
  "kafka_set_field name value p =
     p\<lparr>kp_headers := filter (\<lambda>h. fst h \<noteq> name) (kp_headers p) @ [(name, Some (str_bytes value))]\<rparr>"

section \<open>Dead letters\<close>

text \<open>The last value of a header; a null one or one that is not UTF-8 is an error.\<close>

definition kafka_header :: "kafka_headers \<Rightarrow> string \<Rightarrow> error + string option" where
  "kafka_header headers name =
     (case find (\<lambda>h. fst h = name) (rev headers) of
        None \<Rightarrow> Inr None
      | Some (_, None) \<Rightarrow> Inl (InvalidRecord (''dead-letter header '' @ name @ '' has no value''))
      | Some (_, Some bs) \<Rightarrow>
          (case from_utf8 bs of
             None \<Rightarrow> Inl (InvalidRecord (''dead-letter header '' @ name @ '' is not UTF-8''))
           | Some s \<Rightarrow> Inr (Some s)))"

definition kafka_origin_topic :: string where "kafka_origin_topic = ''beavers-dlq-origin-topic''"
definition kafka_origin_partition :: string where
  "kafka_origin_partition = ''beavers-dlq-origin-partition''"
definition kafka_origin_offset :: string where "kafka_origin_offset = ''beavers-dlq-origin-offset''"
definition kafka_origin_timestamp :: string where
  "kafka_origin_timestamp = ''beavers-dlq-origin-timestamp''"

lemmas kafka_origin_names =
  kafka_origin_topic_def kafka_origin_partition_def kafka_origin_offset_def kafka_origin_timestamp_def

abbreviation parse_i32 :: "string \<Rightarrow> string \<Rightarrow> error + int" where
  "parse_i32 \<equiv> parse_signed_number (- (2 ^ 31)) (2 ^ 31 - 1)"

abbreviation parse_i64 :: "string \<Rightarrow> string \<Rightarrow> error + int" where
  "parse_i64 \<equiv> parse_signed_number (- (2 ^ 63)) (2 ^ 63 - 1)"

definition kafka_from_record :: "'v kafka_record \<Rightarrow> error + kafka_metadata carried option" where
  "kafka_from_record record =
     (let field = kafka_header (kr_headers record); required = required_field field in
      bind_result (details_parse field) (\<lambda>details.
        case details of
          None \<Rightarrow> Inr None
        | Some d \<Rightarrow>
            bind_result (required kafka_origin_topic) (\<lambda>topic.
            bind_result (bind_result (required kafka_origin_partition) (parse_i32 kafka_origin_partition)) (\<lambda>partition.
            bind_result (bind_result (required kafka_origin_offset) (parse_i64 kafka_origin_offset)) (\<lambda>offset.
            bind_result
              (bind_result (field kafka_origin_timestamp) (\<lambda>v.
                 case v of
                   None \<Rightarrow> Inr None
                 | Some v \<Rightarrow> map_sum (\<lambda>e. e) Some (parse_i64 kafka_origin_timestamp v))) (\<lambda>timestamp.
              Inr (Some \<lparr>ca_details = d,
                         ca_origin = \<lparr>km_topic = topic, km_partition = partition, km_offset = offset,
                                      km_timestamp = timestamp\<rparr>\<rparr>)))))))"

definition kafka_fields :: "dead_letter_details \<Rightarrow> kafka_metadata \<Rightarrow> (string \<times> string) list" where
  "kafka_fields details origin =
     details_fields details
     @ [(kafka_origin_topic, km_topic origin),
        (kafka_origin_partition, show_int (km_partition origin)),
        (kafka_origin_offset, show_int (km_offset origin))]
     @ (case km_timestamp origin of None \<Rightarrow> [] | Some t \<Rightarrow> [(kafka_origin_timestamp, show_int t)])"

definition kafka_from_dead_letter :: "('i, 'v kafka_record) dead_letter \<Rightarrow> 'v kafka_publish" where
  "kafka_from_dead_letter dl =
     (let raw = dl_raw dl;
          previous = previous_of (kafka_from_record raw);
          details = details_of dl (map_option ca_details previous);
          origin = origin_of (kr_metadata raw) previous
      in \<lparr>kp_key = kr_key raw, kp_value = kr_value raw,
          kp_headers = filter (\<lambda>h. \<not> dlq_name (fst h)) (kr_headers raw)
            @ map (\<lambda>(name, value). (name, Some (str_bytes value))) (kafka_fields details origin)\<rparr>)"

section \<open>Inherited metadata, values and tombstones\<close>

record kafka_inherit =
  ki_key :: bool
  ki_headers :: bool

definition kafka_inherit_new :: kafka_inherit where
  "kafka_inherit_new = \<lparr>ki_key = True, ki_headers = True\<rparr>"

definition kafka_inherit_output ::
  "kafka_inherit \<Rightarrow> 'v kafka_record \<Rightarrow> 'u kafka_publish \<Rightarrow> 'u kafka_publish" where
  "kafka_inherit_output opts input output =
     (let output = (if ki_key opts \<and> kp_key output = None
                    then output\<lparr>kp_key := kr_key input\<rparr> else output)
      in if ki_headers opts
         then output\<lparr>kp_headers :=
                filter (\<lambda>h. \<not> dlq_name (fst h) \<and> list_all (\<lambda>e. fst e \<noteq> fst h) (kp_headers output))
                  (kr_headers input)
                @ kp_headers output\<rparr>
         else output)"

definition kafka_inherit_middleware ::
  "kafka_inherit \<Rightarrow> ('w, 'v kafka_record, 'u kafka_publish) middleware" where
  "kafka_inherit_middleware opts =
     default_middleware\<lparr>post_handler := (\<lambda>input output w. (Inr (kafka_inherit_output opts input output), w))\<rparr>"

definition kafka_value :: "'v kafka_record \<Rightarrow> 'v hresult" where
  "kafka_value record =
     (case kr_value record of
        None \<Rightarrow> Inl (HReject (Crate (InvalidRecord ''Kafka record has a null value'')))
      | Some v \<Rightarrow> Inr v)"

definition kafka_is_tombstone :: "'v kafka_record \<Rightarrow> bool" where
  "kafka_is_tombstone record \<longleftrightarrow> kr_value record = None"

definition kafka_tombstone_of :: "'v kafka_record \<Rightarrow> 'u kafka_publish hresult" where
  "kafka_tombstone_of input =
     (case kr_key input of
        None \<Rightarrow> Inl (HReject (Crate (InvalidRecord ''Kafka tombstone has no key to propagate'')))
      | Some key \<Rightarrow> Inr (kafka_tombstone key))"

datatype kafka_distribution = KafkaByPartition | KafkaByMessageKey

fun kafka_distribution_key ::
  "kafka_distribution \<Rightarrow> ordering_key option \<Rightarrow> bytes option \<Rightarrow> ordering_key option" where
  "kafka_distribution_key d None k = None"
| "kafka_distribution_key KafkaByMessageKey (Some p) (Some k) = Some (with_key k p)"
| "kafka_distribution_key d (Some p) k = Some p"

definition kafka_keeps_source_order :: "kafka_distribution \<Rightarrow> bool" where
  "kafka_keeps_source_order d \<longleftrightarrow> d = KafkaByPartition"

section \<open>What a dead-lettered record carries\<close>

text \<open>
  Kafka keeps the headers of a record in order; a record of a dead-letter topic has those that were
  published.
\<close>

definition kafka_delivers :: "'v kafka_publish \<Rightarrow> 'v kafka_record \<Rightarrow> bool" where
  "kafka_delivers p r \<longleftrightarrow>
     kr_headers r = kp_headers p \<and> kr_key r = kp_key p \<and> kr_value r = kp_value p"

definition kafka_metadata_ok :: "kafka_metadata \<Rightarrow> bool" where
  "kafka_metadata_ok m \<longleftrightarrow>
     utf8_valid (km_topic m) \<and> km_partition m \<in> {- (2 ^ 31)..2 ^ 31 - 1}
     \<and> km_offset m \<in> {- (2 ^ 63)..2 ^ 63 - 1}
     \<and> (case km_timestamp m of None \<Rightarrow> True | Some t \<Rightarrow> t \<in> {- (2 ^ 63)..2 ^ 63 - 1})"

lemma kafka_header_written:
  assumes "map_of (rev fs) name = Some v" "utf8_valid v"
  shows "kafka_header (hs @ map (\<lambda>(name, value). (name, Some (str_bytes value))) fs) name = Inr (Some v)"
proof -
  have "find (\<lambda>h. fst h = name) (map (\<lambda>(name, value). (name, Some (str_bytes value))) xs @ ys) =
      (case map_of xs name of None \<Rightarrow> find (\<lambda>h. fst h = name) ys | Some v \<Rightarrow> Some (name, Some (str_bytes v)))"
    for xs ys
    by (induction xs) auto
  then show ?thesis using assms by (simp add: kafka_header_def rev_map)
qed

lemma kafka_header_absent:
  assumes "name \<notin> fst ` set fs" "name \<notin> fst ` set hs"
  shows "kafka_header (hs @ map (\<lambda>(name, value). (name, Some (str_bytes value))) fs) name = Inr None"
proof -
  have "find (\<lambda>h. fst h = name) (rev (hs @ map (\<lambda>(name, value). (name, Some (str_bytes value))) fs)) = None"
    using assms by (force simp: find_None_iff)
  then show ?thesis by (simp add: kafka_header_def)
qed

lemma kafka_fields_lookup:
  assumes "(name, v) \<in> set (kafka_fields d o')"
  shows "map_of (rev (kafka_fields d o')) name = Some v"
proof -
  have "distinct (map fst (kafka_fields d o'))"
    by (simp add: kafka_fields_def details_fields_def hdr_defs kafka_origin_names split: option.splits)
  then have "distinct (map fst (rev (kafka_fields d o')))" by (simp flip: rev_map)
  then show ?thesis using assms by (intro map_of_is_SomeI) auto
qed

lemma kafka_fields_valid:
  assumes "letter_ok dl" "kafka_metadata_ok o'" "(name, v) \<in> set (kafka_fields (details_of dl p) o')"
  shows "utf8_valid v"
  using assms details_texts_valid [OF assms(1), of name v p] utf8_valid_ascii [OF ascii_show_int]
  by (auto simp: kafka_fields_def kafka_metadata_ok_def split: option.splits)

lemma kafka_read_written:
  assumes ok: "letter_ok dl" "kafka_metadata_ok o'"
    and headers: "kr_headers r' = filter (\<lambda>h. \<not> dlq_name (fst h)) hs
      @ map (\<lambda>(name, value). (name, Some (str_bytes value))) (kafka_fields (details_of dl p) o')"
  shows "kafka_from_record r' = Inr (Some \<lparr>ca_details = details_of dl p, ca_origin = o'\<rparr>)"
proof -
  let ?d = "details_of dl p"
  have field: "kafka_header (kr_headers r') name = Inr (Some v)" if "(name, v) \<in> set (kafka_fields ?d o')" for name v
    unfolding headers
    by (rule kafka_header_written [OF kafka_fields_lookup [OF that] kafka_fields_valid [OF ok that]])
  have "details_parse (kafka_header (kr_headers r')) = Inr (Some ?d)"
    using details_of_attempts [OF ok(1)] by (intro details_parse_fields field) (auto simp: kafka_fields_def)
  moreover have "kafka_header (kr_headers r') kafka_origin_topic = Inr (Some (km_topic o'))"
    "kafka_header (kr_headers r') kafka_origin_partition = Inr (Some (show_int (km_partition o')))"
    "kafka_header (kr_headers r') kafka_origin_offset = Inr (Some (show_int (km_offset o')))"
    by (rule field, simp add: kafka_fields_def)+
  moreover have "kafka_header (kr_headers r') kafka_origin_timestamp = Inr (map_option show_int (km_timestamp o'))"
  proof (cases "km_timestamp o'")
    case None
    then have "kafka_origin_timestamp \<notin> fst ` set (kafka_fields ?d o')"
      by (simp add: kafka_fields_def details_fields_def hdr_defs kafka_origin_names)
    moreover have "dlq_name kafka_origin_timestamp"
      by (simp add: kafka_origin_names dlq_prefix_def starts_with_def)
    then have "kafka_origin_timestamp \<notin> fst ` set (filter (\<lambda>h. \<not> dlq_name (fst h)) hs)" by auto
    ultimately show ?thesis using None kafka_header_absent unfolding headers by simp
  next
    case (Some t)
    then show ?thesis using field [of kafka_origin_timestamp "show_int t"] by (simp add: kafka_fields_def)
  qed
  ultimately show ?thesis
    using ok(2)
    by (cases o'; cases "km_timestamp o'")
      (simp_all add: kafka_from_record_def required_field_def parse_signed_number_def kafka_metadata_ok_def
        bind_result_def)
qed

interpretation kafka_letters: dead_letter_carrier kafka_from_record kafka_from_dead_letter kr_metadata
  kafka_delivers "\<lambda>d. d" "\<lambda>o'. o'" kafka_metadata_ok
proof unfold_locales
  fix dl :: "('i, 'v kafka_record) dead_letter" and previous r'
  assume a: "letter_ok dl" "previous_of (kafka_from_record (dl_raw dl)) = previous"
    "kafka_metadata_ok (origin_of (kr_metadata (dl_raw dl)) previous)"
    "kafka_delivers (kafka_from_dead_letter dl) r'"
  show "kafka_from_record r' =
      Inr (Some \<lparr>ca_details = details_of dl (map_option ca_details previous),
                 ca_origin = origin_of (kr_metadata (dl_raw dl)) previous\<rparr>)"
    using a(2,4)
    by (intro kafka_read_written [OF a(1,3), where hs = "kr_headers (dl_raw dl)"])
      (simp add: kafka_delivers_def kafka_from_dead_letter_def Let_def)
qed simp_all

text \<open>
  C36. However often a Kafka payload is dead-lettered and received again, the record of the
  dead-letter topic carries the latest failure, the number of dead-letterings (up to the limit of
  its 32-bit count) and the topic, partition, offset and timestamp it was first received with, for a
  record that carried no dead-letter headers or malformed ones at first.
\<close>

theorem kafka_dead_letter_origin:
  fixes dl :: "('i, 'v kafka_record) dead_letter"
  assumes "dead_lettered (kafka_from_dead_letter :: ('i, 'v kafka_record) dead_letter \<Rightarrow> _) kafka_delivers r0 n r"
    and "previous_of (kafka_from_record r0) = None" "kafka_metadata_ok (kr_metadata r0)"
    and "dl_raw dl = r" "letter_ok dl" "kafka_delivers (kafka_from_dead_letter dl) r'"
  shows "kafka_from_record r' =
    Inr (Some \<lparr>ca_details = details_again dl (Suc n), ca_origin = kr_metadata r0\<rparr>)"
  using assms by (rule kafka_letters.carries_first_origin)

text \<open>A record without headers that fails, is received from the dead-letter topic, and fails again.\<close>

definition ex_kafka_record :: "kafka_headers \<Rightarrow> string \<Rightarrow> int \<Rightarrow> nat kafka_record" where
  "ex_kafka_record hs topic off =
     \<lparr>kr_key = None, kr_value = Some 7, kr_headers = hs,
      kr_metadata = \<lparr>km_topic = topic, km_partition = 2, km_offset = off, km_timestamp = None\<rparr>\<rparr>"

definition ex_kafka_again :: "nat kafka_record \<Rightarrow> nat kafka_record" where
  "ex_kafka_again r = ex_kafka_record (kp_headers (kafka_from_dead_letter (ex_letter r))) ''dead'' 0"

lemma ex_kafka_delivers: "kafka_delivers (kafka_from_dead_letter (ex_letter r)) (ex_kafka_again r)"
  if "kr_key r = None" "kr_value r = Some 7"
  using that by (simp add: kafka_delivers_def ex_kafka_again_def ex_kafka_record_def kafka_from_dead_letter_def
      ex_letter_def Let_def)

theorem kafka_dead_letter_origin_witness:
  "kafka_from_record (ex_kafka_again (ex_kafka_again (ex_kafka_record [] ''orders'' 41))) =
     Inr (Some \<lparr>ca_details = details_again (ex_letter ()) 2,
                ca_origin = \<lparr>km_topic = ''orders'', km_partition = 2, km_offset = 41, km_timestamp = None\<rparr>\<rparr>)"
proof -
  let ?r0 = "ex_kafka_record [] ''orders'' 41"
  have "kafka_delivers (kafka_from_dead_letter (ex_letter ?r0)) (ex_kafka_again ?r0)"
    by (rule ex_kafka_delivers) (simp_all add: ex_kafka_record_def)
  then have "dead_lettered (kafka_from_dead_letter :: (nat, nat kafka_record) dead_letter \<Rightarrow> _) kafka_delivers ?r0
      (Suc 0) (ex_kafka_again ?r0)"
    by (intro dead_lettered.again [OF dead_lettered.received]) simp_all
  moreover have "previous_of (kafka_from_record ?r0) = None"
    by (simp add: ex_kafka_record_def previous_of_def kafka_from_record_def kafka_header_def details_parse_def)
  moreover have "kafka_metadata_ok (kr_metadata ?r0)"
    by (simp add: ex_kafka_record_def kafka_metadata_ok_def utf8_valid_ascii ascii_def)
  moreover have "kafka_delivers (kafka_from_dead_letter (ex_letter (ex_kafka_again ?r0)))
      (ex_kafka_again (ex_kafka_again ?r0))"
    by (rule ex_kafka_delivers) (simp_all add: ex_kafka_again_def ex_kafka_record_def)
  ultimately have "kafka_from_record (ex_kafka_again (ex_kafka_again ?r0)) =
      Inr (Some \<lparr>ca_details = details_again (ex_letter (ex_kafka_again ?r0)) (Suc (Suc 0)), ca_origin = kr_metadata ?r0\<rparr>)"
    by (intro kafka_dead_letter_origin [where dl = "ex_letter (ex_kafka_again ?r0)"]) simp_all
  then show ?thesis by (simp add: ex_kafka_record_def details_again_def ex_letter_def numeral_2_eq_2)
qed

end
