(* ===== verification/Pulsar_Records.thy ===== *)
theory Pulsar_Records
  imports Carriers Processing Messages
begin

text \<open>
  Pulsar messages of \<^verbatim>\<open>src/adapters/pulsar\<close>: received and published messages (\<^verbatim>\<open>record.rs\<close>), their dead
  letters (\<^verbatim>\<open>dead_letter.rs\<close>), inherited metadata (\<^verbatim>\<open>inherit.rs\<close>), tombstones (\<^verbatim>\<open>tombstone.rs\<close>) and
  the distributions of deliveries (\<^verbatim>\<open>distribution.rs\<close>).
\<close>

record pulsar_message_id =
  mi_ledger_id :: u64
  mi_entry_id :: u64
  mi_partition :: int
  mi_batch_index :: int

record pulsar_metadata =
  pm_topic :: string
  pm_message_id :: pulsar_message_id
  pm_publish_time :: int

record 'v pulsar_record =
  pr_value :: "'v option"
  pr_key :: "bytes option"
  pr_properties :: "string \<rightharpoonup> string"
  pr_event_time :: "u64 option"
  pr_metadata :: pulsar_metadata

record 'v pulsar_publish =
  pu_value :: "'v option"
  pu_properties :: "string \<rightharpoonup> string"
  pu_key :: "bytes option"
  pu_ordering_key :: "bytes option"
  pu_event_time :: "u64 option"

definition pulsar_publish_new :: "'v \<Rightarrow> 'v pulsar_publish" where
  "pulsar_publish_new v =
     \<lparr>pu_value = Some v, pu_properties = Map.empty, pu_key = None, pu_ordering_key = None,
      pu_event_time = None\<rparr>"

definition pulsar_tombstone :: "bytes \<Rightarrow> 'v pulsar_publish" where
  "pulsar_tombstone key =
     \<lparr>pu_value = None, pu_properties = Map.empty, pu_key = Some key, pu_ordering_key = None,
      pu_event_time = None\<rparr>"

definition pulsar_set_field :: "string \<Rightarrow> string \<Rightarrow> 'v pulsar_publish \<Rightarrow> 'v pulsar_publish" where
  "pulsar_set_field name value p = p\<lparr>pu_properties := (pu_properties p)(name \<mapsto> value)\<rparr>"

section \<open>Dead letters\<close>

definition pulsar_origin_topic :: string where "pulsar_origin_topic = ''beavers-dlq-origin-topic''"
definition pulsar_origin_message_id :: string where
  "pulsar_origin_message_id = ''beavers-dlq-origin-message-id''"
definition pulsar_origin_publish_time :: string where
  "pulsar_origin_publish_time = ''beavers-dlq-origin-publish-time''"

lemmas pulsar_origin_names =
  pulsar_origin_topic_def pulsar_origin_message_id_def pulsar_origin_publish_time_def

definition u64_max :: nat where
  "u64_max = 2 ^ 64 - 1"

abbreviation parse_u64 :: "string \<Rightarrow> string \<Rightarrow> error + u64" where
  "parse_u64 name v \<equiv> map_sum (\<lambda>e. e) of_nat (parse_number u64_max name v)"

definition parse_message_id :: "string \<Rightarrow> error + pulsar_message_id" where
  "parse_message_id value =
     (case split_on CHR '':'' value of
        [l, e, p, b] \<Rightarrow>
          bind_result (parse_u64 pulsar_origin_message_id l) (\<lambda>ledger_id.
          bind_result (parse_u64 pulsar_origin_message_id e) (\<lambda>entry_id.
          bind_result (parse_signed_number (- (2 ^ 31)) (2 ^ 31 - 1) pulsar_origin_message_id p) (\<lambda>part.
          bind_result (parse_signed_number (- (2 ^ 31)) (2 ^ 31 - 1) pulsar_origin_message_id b) (\<lambda>batch.
            Inr \<lparr>mi_ledger_id = ledger_id, mi_entry_id = entry_id, mi_partition = part,
                 mi_batch_index = batch\<rparr>))))
      | _ \<Rightarrow> Inl (InvalidRecord (''dead-letter property '' @ pulsar_origin_message_id
               @ '' is malformed: '' @ debug_str value)))"

definition show_message_id :: "pulsar_message_id \<Rightarrow> string" where
  "show_message_id m =
     show_nat (unat (mi_ledger_id m)) @ CHR '':'' # show_nat (unat (mi_entry_id m)) @ CHR '':''
       # show_int (mi_partition m) @ CHR '':'' # show_int (mi_batch_index m)"

definition pulsar_from_record :: "'v pulsar_record \<Rightarrow> error + pulsar_metadata carried option" where
  "pulsar_from_record record =
     (let field = text_field (pr_properties record); required = required_as ''property'' field in
      bind_result (details_parse field) (\<lambda>details.
        case details of
          None \<Rightarrow> Inr None
        | Some d \<Rightarrow>
            bind_result (required pulsar_origin_topic) (\<lambda>topic.
            bind_result (bind_result (required pulsar_origin_message_id) parse_message_id) (\<lambda>message_id.
            bind_result (bind_result (required pulsar_origin_publish_time)
                (parse_signed_number (- (2 ^ 63)) (2 ^ 63 - 1) pulsar_origin_publish_time)) (\<lambda>publish_time.
              Inr (Some \<lparr>ca_details = d,
                         ca_origin = \<lparr>pm_topic = topic, pm_message_id = message_id,
                                      pm_publish_time = publish_time\<rparr>\<rparr>))))))"

definition pulsar_fields :: "dead_letter_details \<Rightarrow> pulsar_metadata \<Rightarrow> (string \<times> string) list" where
  "pulsar_fields details origin =
     details_fields details
     @ [(pulsar_origin_topic, pm_topic origin),
        (pulsar_origin_message_id, show_message_id (pm_message_id origin)),
        (pulsar_origin_publish_time, show_int (pm_publish_time origin))]"

definition pulsar_from_dead_letter :: "('i, 'v pulsar_record) dead_letter \<Rightarrow> 'v pulsar_publish" where
  "pulsar_from_dead_letter dl =
     (let raw = dl_raw dl;
          previous = previous_of (pulsar_from_record raw);
          details = details_of dl (map_option ca_details previous);
          origin = origin_of (pr_metadata raw) previous
      in \<lparr>pu_value = pr_value raw,
          pu_properties = extend_table (without_dlq (pr_properties raw)) (pulsar_fields details origin),
          pu_key = pr_key raw, pu_ordering_key = None, pu_event_time = pr_event_time raw\<rparr>)"

section \<open>Inherited metadata, values, tombstones and distributions\<close>

record pulsar_inherit =
  pi_key :: bool
  pi_properties :: bool
  pi_event_time :: bool

definition pulsar_inherit_new :: pulsar_inherit where
  "pulsar_inherit_new = \<lparr>pi_key = True, pi_properties = True, pi_event_time = True\<rparr>"

definition pulsar_inherit_output ::
  "pulsar_inherit \<Rightarrow> 'v pulsar_record \<Rightarrow> 'u pulsar_publish \<Rightarrow> 'u pulsar_publish" where
  "pulsar_inherit_output opts input output =
     output\<lparr>pu_key := (if pi_key opts then or_inherit (pu_key output) (pr_key input) else pu_key output),
            pu_properties := (if pi_properties opts
              then inherit_missing (pr_properties input) (pu_properties output)
              else pu_properties output),
            pu_event_time := (if pi_event_time opts
              then or_inherit (pu_event_time output) (pr_event_time input)
              else pu_event_time output)\<rparr>"

definition pulsar_inherit_middleware ::
  "pulsar_inherit \<Rightarrow> ('w, 'v pulsar_record, 'u pulsar_publish) middleware" where
  "pulsar_inherit_middleware opts =
     default_middleware\<lparr>post_handler := (\<lambda>input output w. (Inr (pulsar_inherit_output opts input output), w))\<rparr>"

definition pulsar_value :: "'v pulsar_record \<Rightarrow> 'v hresult" where
  "pulsar_value record =
     (case pr_value record of
        None \<Rightarrow> Inl (HReject (Crate (InvalidRecord ''Pulsar record has a null value'')))
      | Some v \<Rightarrow> Inr v)"

definition pulsar_is_tombstone :: "'v pulsar_record \<Rightarrow> bool" where
  "pulsar_is_tombstone record \<longleftrightarrow> pr_value record = None"

definition pulsar_tombstone_of :: "'v pulsar_record \<Rightarrow> 'u pulsar_publish hresult" where
  "pulsar_tombstone_of input =
     (case pr_key input of
        None \<Rightarrow> Inl (HReject (Crate (InvalidRecord ''Pulsar tombstone has no key to propagate'')))
      | Some key \<Rightarrow> Inr (pulsar_tombstone key))"

datatype pulsar_distribution = PulsarByPartition | PulsarByMessageKey

text \<open>A delivery has its partition as ordering key and, when it has a key, the key within it.\<close>

fun pulsar_distribution_key ::
  "pulsar_distribution \<Rightarrow> ordering_key \<Rightarrow> ordering_key option \<Rightarrow> ordering_key option" where
  "pulsar_distribution_key PulsarByPartition part keyed = Some part"
| "pulsar_distribution_key PulsarByMessageKey part keyed =
     Some (case keyed of None \<Rightarrow> part | Some k \<Rightarrow> k)"

definition pulsar_keeps_source_order :: "pulsar_distribution \<Rightarrow> bool" where
  "pulsar_keeps_source_order d \<longleftrightarrow> d = PulsarByPartition"

section \<open>What a dead-lettered message carries\<close>

text \<open>Pulsar keeps the properties, key, value and event time of a message.\<close>

definition pulsar_delivers :: "'v pulsar_publish \<Rightarrow> 'v pulsar_record \<Rightarrow> bool" where
  "pulsar_delivers p r \<longleftrightarrow>
     pr_properties r = pu_properties p \<and> pr_key r = pu_key p \<and> pr_value r = pu_value p
     \<and> pr_event_time r = pu_event_time p"

definition pulsar_metadata_ok :: "pulsar_metadata \<Rightarrow> bool" where
  "pulsar_metadata_ok m \<longleftrightarrow>
     utf8_valid (pm_topic m) \<and> mi_partition (pm_message_id m) \<in> {- (2 ^ 31)..2 ^ 31 - 1}
     \<and> mi_batch_index (pm_message_id m) \<in> {- (2 ^ 31)..2 ^ 31 - 1}
     \<and> pm_publish_time m \<in> {- (2 ^ 63)..2 ^ 63 - 1}"

lemma show_nat_no_colon: "CHR '':'' \<notin> set (show_nat n)"
proof (induction n rule: show_nat.induct)
  case (1 n)
  have no: "CHR '':'' \<noteq> digit_char d" if "d < 10" for d
  proof
    assume "CHR '':'' = digit_char d"
    then have "digit_char d = CHR '':''" by simp
    then have "of_char (digit_char d) = (58 :: nat)" by simp
    then show False using that by (simp add: digit_char_def)
  qed
  then show ?case
    using 1 no [of n] no [of "n mod 10"] by (cases "n < 10") (simp_all add: show_nat.simps [of n])
qed

lemma show_int_no_colon: "CHR '':'' \<notin> set (show_int i)"
  using show_nat_no_colon by (simp add: show_int_def)

lemma parse_show_message_id:
  assumes "mi_partition m \<in> {- (2 ^ 31)..2 ^ 31 - 1}" "mi_batch_index m \<in> {- (2 ^ 31)..2 ^ 31 - 1}"
  shows "parse_message_id (show_message_id m) = Inr m"
proof -
  have le: "unat (w :: u64) \<le> u64_max" for w
  proof -
    have "unat w < 2 ^ LENGTH(64)" by (rule unsigned_less)
    then show ?thesis by (simp add: u64_max_def)
  qed
  have "split_on CHR '':'' (show_message_id m) =
      [show_nat (unat (mi_ledger_id m)), show_nat (unat (mi_entry_id m)), show_int (mi_partition m),
       show_int (mi_batch_index m)]"
    by (simp add: show_message_id_def split_on_append split_on_whole show_nat_no_colon show_int_no_colon)
  then show ?thesis
    using assms le by (simp add: parse_message_id_def parse_number_def parse_signed_number_def)
qed

lemma pulsar_read_written:
  assumes ok: "letter_ok dl" "pulsar_metadata_ok o'"
    and props: "pr_properties r' = extend_table base (pulsar_fields (details_of dl p) o')"
  shows "pulsar_from_record r' = Inr (Some \<lparr>ca_details = details_of dl p, ca_origin = o'\<rparr>)"
proof -
  let ?d = "details_of dl p"
  have dist: "distinct (map fst (pulsar_fields ?d o'))"
    unfolding pulsar_fields_def by (rule distinct_fields) (auto simp: pulsar_origin_names hdr_defs)
  have field: "text_field (pr_properties r') name = Inr (Some v)" if "(name, v) \<in> set (pulsar_fields ?d o')" for name v
    unfolding props using text_field_written [OF dist that, of base "\<lambda>v. v"] by simp
  have "details_parse (text_field (pr_properties r')) = Inr (Some ?d)"
    using details_of_attempts [OF ok(1)] by (intro details_parse_fields field) (auto simp: pulsar_fields_def)
  moreover have "text_field (pr_properties r') pulsar_origin_topic = Inr (Some (pm_topic o'))"
    "text_field (pr_properties r') pulsar_origin_message_id = Inr (Some (show_message_id (pm_message_id o')))"
    "text_field (pr_properties r') pulsar_origin_publish_time = Inr (Some (show_int (pm_publish_time o')))"
    by (rule field, simp add: pulsar_fields_def)+
  ultimately show ?thesis
    using ok(2) parse_show_message_id [of "pm_message_id o'"]
    by (simp add: pulsar_from_record_def parse_signed_number_def pulsar_metadata_ok_def)
qed

interpretation pulsar_letters: dead_letter_carrier pulsar_from_record pulsar_from_dead_letter pr_metadata
  pulsar_delivers "\<lambda>d. d" "\<lambda>o'. o'" pulsar_metadata_ok
proof unfold_locales
  fix dl :: "('i, 'v pulsar_record) dead_letter" and previous r'
  assume a: "letter_ok dl" "previous_of (pulsar_from_record (dl_raw dl)) = previous"
    "pulsar_metadata_ok (origin_of (pr_metadata (dl_raw dl)) previous)"
    "pulsar_delivers (pulsar_from_dead_letter dl) r'"
  show "pulsar_from_record r' =
      Inr (Some \<lparr>ca_details = details_of dl (map_option ca_details previous),
                 ca_origin = origin_of (pr_metadata (dl_raw dl)) previous\<rparr>)"
    using a(2,4)
    by (intro pulsar_read_written [OF a(1,3), where base = "without_dlq (pr_properties (dl_raw dl))"])
      (simp add: pulsar_delivers_def pulsar_from_dead_letter_def Let_def)
qed simp_all

end
