(* ===== verification/Rabbitmq_Records.thy ===== *)
theory Rabbitmq_Records
  imports Carriers Processing
begin

text \<open>
  RabbitMQ messages of \<^verbatim>\<open>src/adapters/rabbitmq\<close>: typed header values, received and published messages
  (\<^verbatim>\<open>record.rs\<close>), their dead letters (\<^verbatim>\<open>dead_letter.rs\<close>) and inherited metadata (\<^verbatim>\<open>inherit.rs\<close>). Floating
  point values are their bits.
\<close>

datatype rabbitmq_value =
    RvVoid
  | RvBool bool
  | RvI8 "8 word"
  | RvU8 "8 word"
  | RvI16 "16 word"
  | RvU16 "16 word"
  | RvI32 "32 word"
  | RvU32 "32 word"
  | RvI64 "64 word"
  | RvF32 "32 word"
  | RvF64 "64 word"
  | RvDecimal "8 word" "32 word"
  | RvString string
  | RvBytes bytes
  | RvTimestamp u64
  | RvArray "rabbitmq_value list"
  | RvTable "(string \<times> rabbitmq_value) list"

fun rabbitmq_as_str :: "rabbitmq_value \<Rightarrow> string option" where
  "rabbitmq_as_str (RvString s) = Some s"
| "rabbitmq_as_str _ = None"

type_synonym rabbitmq_headers = "string \<rightharpoonup> rabbitmq_value"

record rabbitmq_properties =
  rp_content_type :: "string option"
  rp_content_encoding :: "string option"
  rp_priority :: "8 word option"
  rp_correlation_id :: "string option"
  rp_reply_to :: "string option"
  rp_expiration :: "string option"
  rp_message_id :: "string option"
  rp_timestamp :: "u64 option"
  rp_kind :: "string option"
  rp_user_id :: "string option"
  rp_app_id :: "string option"

definition rabbitmq_properties_default :: rabbitmq_properties where
  "rabbitmq_properties_default =
     \<lparr>rp_content_type = None, rp_content_encoding = None, rp_priority = None, rp_correlation_id = None,
      rp_reply_to = None, rp_expiration = None, rp_message_id = None, rp_timestamp = None,
      rp_kind = None, rp_user_id = None, rp_app_id = None\<rparr>"

record rabbitmq_metadata =
  rm_queue :: string
  rm_exchange :: string
  rm_routing_key :: string
  rm_redelivered :: bool
  rm_persistent :: bool
  rm_delivery_tag :: u64

record 'v rabbitmq_record =
  rr_value :: 'v
  rr_headers :: rabbitmq_headers
  rr_properties :: rabbitmq_properties
  rr_metadata :: rabbitmq_metadata

record 'v rabbitmq_publish =
  ru_value :: 'v
  ru_routing_key :: "string option"
  ru_headers :: rabbitmq_headers
  ru_properties :: rabbitmq_properties

definition rabbitmq_publish_new :: "'v \<Rightarrow> 'v rabbitmq_publish" where
  "rabbitmq_publish_new v =
     \<lparr>ru_value = v, ru_routing_key = None, ru_headers = Map.empty,
      ru_properties = rabbitmq_properties_default\<rparr>"

definition rabbitmq_with_routing_key :: "string \<Rightarrow> 'v rabbitmq_publish \<Rightarrow> 'v rabbitmq_publish" where
  "rabbitmq_with_routing_key k p = p\<lparr>ru_routing_key := Some k\<rparr>"

definition rabbitmq_set_field :: "string \<Rightarrow> string \<Rightarrow> 'v rabbitmq_publish \<Rightarrow> 'v rabbitmq_publish" where
  "rabbitmq_set_field name value p = p\<lparr>ru_headers := (ru_headers p)(name \<mapsto> RvString value)\<rparr>"

section \<open>Dead letters\<close>

definition rabbitmq_origin_queue :: string where "rabbitmq_origin_queue = ''beavers-dlq-origin-queue''"
definition rabbitmq_origin_exchange :: string where
  "rabbitmq_origin_exchange = ''beavers-dlq-origin-exchange''"
definition rabbitmq_origin_routing_key :: string where
  "rabbitmq_origin_routing_key = ''beavers-dlq-origin-routing-key''"

lemmas rabbitmq_origin_names =
  rabbitmq_origin_queue_def rabbitmq_origin_exchange_def rabbitmq_origin_routing_key_def

record rabbitmq_origin =
  ro_queue :: string
  ro_exchange :: string
  ro_routing_key :: string

definition rabbitmq_from_record :: "'v rabbitmq_record \<Rightarrow> error + rabbitmq_origin carried option" where
  "rabbitmq_from_record record =
     (let field = typed_field ''header'' rabbitmq_as_str (rr_headers record);
          required = required_as ''header'' field in
      bind_result (details_parse field) (\<lambda>details.
        case details of
          None \<Rightarrow> Inr None
        | Some d \<Rightarrow>
            bind_result (required rabbitmq_origin_queue) (\<lambda>queue.
            bind_result (required rabbitmq_origin_exchange) (\<lambda>exchange.
            bind_result (required rabbitmq_origin_routing_key) (\<lambda>routing_key.
              Inr (Some \<lparr>ca_details = d,
                         ca_origin = \<lparr>ro_queue = queue, ro_exchange = exchange,
                                      ro_routing_key = routing_key\<rparr>\<rparr>))))))"

definition rabbitmq_first :: "'v rabbitmq_record \<Rightarrow> rabbitmq_origin" where
  "rabbitmq_first r =
     \<lparr>ro_queue = rm_queue (rr_metadata r), ro_exchange = rm_exchange (rr_metadata r),
      ro_routing_key = rm_routing_key (rr_metadata r)\<rparr>"

definition rabbitmq_fields :: "dead_letter_details \<Rightarrow> rabbitmq_origin \<Rightarrow> (string \<times> string) list" where
  "rabbitmq_fields details origin =
     details_fields details
     @ [(rabbitmq_origin_queue, ro_queue origin), (rabbitmq_origin_exchange, ro_exchange origin),
        (rabbitmq_origin_routing_key, ro_routing_key origin)]"

definition rabbitmq_from_dead_letter :: "('i, 'v rabbitmq_record) dead_letter \<Rightarrow> 'v rabbitmq_publish" where
  "rabbitmq_from_dead_letter dl =
     (let raw = dl_raw dl;
          previous = previous_of (rabbitmq_from_record raw);
          details = details_of dl (map_option ca_details previous);
          origin = origin_of (rabbitmq_first raw) previous
      in \<lparr>ru_value = rr_value raw, ru_routing_key = None,
          ru_headers = extend_table (without_dlq (rr_headers raw))
            (map (\<lambda>(name, value). (name, RvString value)) (rabbitmq_fields details origin)),
          ru_properties = rr_properties raw\<rparr>)"

section \<open>Inherited metadata\<close>

record rabbitmq_inherit =
  ri_headers :: bool
  ri_properties :: bool

definition rabbitmq_inherit_new :: rabbitmq_inherit where
  "rabbitmq_inherit_new = \<lparr>ri_headers = True, ri_properties = True\<rparr>"

definition rabbitmq_inherit_properties ::
  "rabbitmq_properties \<Rightarrow> rabbitmq_properties \<Rightarrow> rabbitmq_properties" where
  "rabbitmq_inherit_properties received own =
     own\<lparr>rp_content_type := or_inherit (rp_content_type own) (rp_content_type received),
         rp_content_encoding := or_inherit (rp_content_encoding own) (rp_content_encoding received),
         rp_kind := or_inherit (rp_kind own) (rp_kind received),
         rp_correlation_id := or_inherit (rp_correlation_id own) (rp_correlation_id received),
         rp_app_id := or_inherit (rp_app_id own) (rp_app_id received),
         rp_priority := or_inherit (rp_priority own) (rp_priority received)\<rparr>"

definition rabbitmq_inherit_output ::
  "rabbitmq_inherit \<Rightarrow> 'v rabbitmq_record \<Rightarrow> 'u rabbitmq_publish \<Rightarrow> 'u rabbitmq_publish" where
  "rabbitmq_inherit_output opts input output =
     output\<lparr>ru_headers := (if ri_headers opts then inherit_missing (rr_headers input) (ru_headers output)
                           else ru_headers output),
            ru_properties := (if ri_properties opts
              then rabbitmq_inherit_properties (rr_properties input) (ru_properties output)
              else ru_properties output)\<rparr>"

definition rabbitmq_inherit_middleware ::
  "rabbitmq_inherit \<Rightarrow> ('w, 'v rabbitmq_record, 'u rabbitmq_publish) middleware" where
  "rabbitmq_inherit_middleware opts =
     default_middleware\<lparr>post_handler := (\<lambda>input output w. (Inr (rabbitmq_inherit_output opts input output), w))\<rparr>"

section \<open>What a dead-lettered message carries\<close>

text \<open>RabbitMQ keeps the headers and properties of a message.\<close>

definition rabbitmq_delivers :: "'v rabbitmq_publish \<Rightarrow> 'v rabbitmq_record \<Rightarrow> bool" where
  "rabbitmq_delivers p r \<longleftrightarrow>
     rr_headers r = ru_headers p \<and> rr_properties r = ru_properties p \<and> rr_value r = ru_value p"

lemma rabbitmq_read_written:
  assumes ok: "letter_ok dl"
    and hs: "rr_headers r' = extend_table base
      (map (\<lambda>(name, value). (name, RvString value)) (rabbitmq_fields (details_of dl p) o'))"
  shows "rabbitmq_from_record r' = Inr (Some \<lparr>ca_details = details_of dl p, ca_origin = o'\<rparr>)"
proof -
  let ?d = "details_of dl p" and ?f = "typed_field ''header'' rabbitmq_as_str (rr_headers r')"
  have dist: "distinct (map fst (rabbitmq_fields ?d o'))"
    unfolding rabbitmq_fields_def by (rule distinct_fields) (auto simp: rabbitmq_origin_names hdr_defs)
  have field: "?f name = Inr (Some v)" if "(name, v) \<in> set (rabbitmq_fields ?d o')" for name v
    unfolding hs by (rule typed_field_written [OF dist that]) simp
  have "details_parse ?f = Inr (Some ?d)"
    using details_of_attempts [OF ok] by (intro details_parse_fields field) (auto simp: rabbitmq_fields_def)
  moreover have "?f rabbitmq_origin_queue = Inr (Some (ro_queue o'))"
    "?f rabbitmq_origin_exchange = Inr (Some (ro_exchange o'))"
    "?f rabbitmq_origin_routing_key = Inr (Some (ro_routing_key o'))"
    by (rule field, simp add: rabbitmq_fields_def)+
  ultimately show ?thesis by (simp add: rabbitmq_from_record_def)
qed

interpretation rabbitmq_letters: dead_letter_carrier rabbitmq_from_record rabbitmq_from_dead_letter
  rabbitmq_first rabbitmq_delivers "\<lambda>d. d" "\<lambda>o'. o'" "\<lambda>_. True"
proof unfold_locales
  fix dl :: "('i, 'v rabbitmq_record) dead_letter" and previous r'
  assume a: "letter_ok dl" "previous_of (rabbitmq_from_record (dl_raw dl)) = previous"
    "rabbitmq_delivers (rabbitmq_from_dead_letter dl) r'"
  show "rabbitmq_from_record r' =
      Inr (Some \<lparr>ca_details = details_of dl (map_option ca_details previous),
                 ca_origin = origin_of (rabbitmq_first (dl_raw dl)) previous\<rparr>)"
    using a(2,3)
    by (intro rabbitmq_read_written [OF a(1), where base = "without_dlq (rr_headers (dl_raw dl))"])
      (simp add: rabbitmq_delivers_def rabbitmq_from_dead_letter_def Let_def)
qed simp_all

end
