(* ===== verification/Pubsub_Records.thy ===== *)
theory Pubsub_Records
  imports Carriers Processing
begin

text \<open>
  Pub/Sub messages of \<^verbatim>\<open>src/adapters/pubsub\<close>: received and published messages (\<^verbatim>\<open>record.rs\<close>), their dead
  letters, whose texts are cut to what an attribute may hold (\<^verbatim>\<open>dead_letter.rs\<close>), and inherited
  metadata (\<^verbatim>\<open>inherit.rs\<close>).
\<close>

record pubsub_metadata =
  sm_subscription :: string
  sm_message_id :: string
  sm_publish_time :: "int option"
  sm_delivery_attempt :: "32 word option"

record 'v pubsub_record =
  sr_value :: 'v
  sr_attributes :: "string \<rightharpoonup> string"
  sr_ordering_key :: "string option"
  sr_metadata :: pubsub_metadata

record 'v pubsub_publish =
  su_value :: 'v
  su_attributes :: "string \<rightharpoonup> string"
  su_ordering_key :: "string option"

definition pubsub_publish_new :: "'v \<Rightarrow> 'v pubsub_publish" where
  "pubsub_publish_new v = \<lparr>su_value = v, su_attributes = Map.empty, su_ordering_key = None\<rparr>"

definition pubsub_with_ordering_key :: "string \<Rightarrow> 'v pubsub_publish \<Rightarrow> 'v pubsub_publish" where
  "pubsub_with_ordering_key key p = p\<lparr>su_ordering_key := Some key\<rparr>"

definition pubsub_set_field :: "string \<Rightarrow> string \<Rightarrow> 'v pubsub_publish \<Rightarrow> 'v pubsub_publish" where
  "pubsub_set_field name value p = p\<lparr>su_attributes := (su_attributes p)(name \<mapsto> value)\<rparr>"

section \<open>Dead letters\<close>

definition pubsub_origin_subscription :: string where
  "pubsub_origin_subscription = ''beavers-dlq-origin-subscription''"
definition pubsub_origin_message_id :: string where
  "pubsub_origin_message_id = ''beavers-dlq-origin-message-id''"

lemmas pubsub_origin_names = pubsub_origin_subscription_def pubsub_origin_message_id_def

definition max_attribute_value :: nat where
  "max_attribute_value = 1024"

record pubsub_origin =
  so_subscription :: string
  so_message_id :: string

definition pubsub_from_record :: "'v pubsub_record \<Rightarrow> error + pubsub_origin carried option" where
  "pubsub_from_record record =
     (let field = text_field (sr_attributes record); required = required_as ''attribute'' field in
      bind_result (details_parse field) (\<lambda>details.
        case details of
          None \<Rightarrow> Inr None
        | Some d \<Rightarrow>
            bind_result (required pubsub_origin_subscription) (\<lambda>subscription.
            bind_result (required pubsub_origin_message_id) (\<lambda>message_id.
              Inr (Some \<lparr>ca_details = d,
                         ca_origin = \<lparr>so_subscription = subscription, so_message_id = message_id\<rparr>\<rparr>)))))"

definition pubsub_first :: "'v pubsub_record \<Rightarrow> pubsub_origin" where
  "pubsub_first r =
     \<lparr>so_subscription = sm_subscription (sr_metadata r), so_message_id = sm_message_id (sr_metadata r)\<rparr>"

definition pubsub_fields :: "dead_letter_details \<Rightarrow> pubsub_origin \<Rightarrow> (string \<times> string) list" where
  "pubsub_fields details origin =
     details_fields details
     @ [(pubsub_origin_subscription, so_subscription origin),
        (pubsub_origin_message_id, so_message_id origin)]"

definition pubsub_from_dead_letter :: "('i, 'v pubsub_record) dead_letter \<Rightarrow> 'v pubsub_publish" where
  "pubsub_from_dead_letter dl =
     (let raw = dl_raw dl;
          previous = previous_of (pubsub_from_record raw);
          details = details_of dl (map_option ca_details previous);
          origin = origin_of (pubsub_first raw) previous
      in \<lparr>su_value = sr_value raw,
          su_attributes = extend_table (without_dlq (sr_attributes raw))
            (map (\<lambda>(name, value). (name, truncate_text max_attribute_value value))
              (pubsub_fields details origin)),
          su_ordering_key = sr_ordering_key raw\<rparr>)"

section \<open>Inherited metadata\<close>

record pubsub_inherit =
  si_attributes :: bool
  si_ordering_key :: bool

definition pubsub_inherit_new :: pubsub_inherit where
  "pubsub_inherit_new = \<lparr>si_attributes = True, si_ordering_key = False\<rparr>"

definition pubsub_inherit_output ::
  "pubsub_inherit \<Rightarrow> 'v pubsub_record \<Rightarrow> 'u pubsub_publish \<Rightarrow> 'u pubsub_publish" where
  "pubsub_inherit_output opts input output =
     output\<lparr>su_attributes := (if si_attributes opts
              then inherit_missing (sr_attributes input) (su_attributes output) else su_attributes output),
            su_ordering_key := (if si_ordering_key opts
              then or_inherit (su_ordering_key output) (sr_ordering_key input) else su_ordering_key output)\<rparr>"

definition pubsub_inherit_middleware ::
  "pubsub_inherit \<Rightarrow> ('w, 'v pubsub_record, 'u pubsub_publish) middleware" where
  "pubsub_inherit_middleware opts =
     default_middleware\<lparr>post_handler := (\<lambda>input output w. (Inr (pubsub_inherit_output opts input output), w))\<rparr>"

section \<open>What a dead-lettered message carries\<close>

text \<open>Pub/Sub keeps the attributes, data and ordering key of a message.\<close>

definition pubsub_delivers :: "'v pubsub_publish \<Rightarrow> 'v pubsub_record \<Rightarrow> bool" where
  "pubsub_delivers p r \<longleftrightarrow>
     sr_attributes r = su_attributes p \<and> sr_ordering_key r = su_ordering_key p \<and> sr_value r = su_value p"

abbreviation cut_text :: "string \<Rightarrow> string" where
  "cut_text \<equiv> truncate_text max_attribute_value"

definition pubsub_cut_details :: "dead_letter_details \<Rightarrow> dead_letter_details" where
  "pubsub_cut_details d =
     d\<lparr>dd_subscription := cut_text (dd_subscription d), dd_error := cut_text (dd_error d)\<rparr>"

definition pubsub_cut_origin :: "pubsub_origin \<Rightarrow> pubsub_origin" where
  "pubsub_cut_origin o' =
     \<lparr>so_subscription = cut_text (so_subscription o'), so_message_id = cut_text (so_message_id o')\<rparr>"

text \<open>Names and numbers are never cut.\<close>

lemma length_show_nat: "n < 10 ^ k \<Longrightarrow> 0 < k \<Longrightarrow> length (show_nat n) \<le> k"
proof (induction k arbitrary: n)
  case (Suc k)
  show ?case
  proof (cases "n < 10")
    case False
    then have k: "0 < k" using Suc.prems(1) by (cases k) auto
    have "n div 10 < 10 ^ k" using Suc.prems(1) by (simp add: less_mult_imp_div_less mult.commute)
    then have "length (show_nat (n div 10)) \<le> k" using Suc.IH k by blast
    then show ?thesis using False by (simp add: show_nat.simps [of n])
  qed (simp add: show_nat.simps [of n])
qed simp

lemma cut_number: "n \<le> usize_max \<Longrightarrow> cut_text (show_nat n) = show_nat n"
proof -
  assume "n \<le> usize_max"
  then have "n < 10 ^ 20" by (simp add: usize_max_def)
  then have "length (show_nat n) \<le> 20" by (intro length_show_nat) simp_all
  then show ?thesis by (simp add: max_attribute_value_def)
qed

lemma cut_kind: "cut_text (kind_as_str k) = kind_as_str k"
  by (cases k) (simp_all add: max_attribute_value_def)

lemma pubsub_read_written:
  assumes ok: "letter_ok dl"
    and attrs: "sr_attributes r' = extend_table base
      (map (\<lambda>(name, value). (name, cut_text value)) (pubsub_fields (details_of dl p) o'))"
  shows "pubsub_from_record r' =
    Inr (Some \<lparr>ca_details = pubsub_cut_details (details_of dl p), ca_origin = pubsub_cut_origin o'\<rparr>)"
proof -
  let ?d = "details_of dl p" and ?f = "text_field (sr_attributes r')"
  have dist: "distinct (map fst (pubsub_fields ?d o'))"
    unfolding pubsub_fields_def by (rule distinct_fields) (auto simp: pubsub_origin_names hdr_defs)
  have field: "?f name = Inr (Some (cut_text v))" if "(name, v) \<in> set (pubsub_fields ?d o')" for name v
    unfolding attrs by (rule text_field_written [OF dist that])
  have count: "unat (dd_count ?d) \<le> usize_max" using unat_u32_le [of "dd_count ?d"] by (simp add: usize_max_def u32_max_def)
  have "details_parse ?f = Inr (Some (pubsub_cut_details ?d))"
  proof (rule details_parse_fields)
    fix name v assume "(name, v) \<in> set (details_fields (pubsub_cut_details ?d))"
    moreover have "details_fields (pubsub_cut_details ?d) = map (\<lambda>(k, v). (k, cut_text v)) (details_fields ?d)"
      using details_of_attempts [OF ok, of p] count
      by (simp add: details_fields_def pubsub_cut_details_def cut_number cut_kind)
    ultimately obtain w where w: "(name, w) \<in> set (details_fields ?d)" "v = cut_text w" by auto
    then show "?f name = Inr (Some v)" using field [of name w] by (simp add: pubsub_fields_def)
  qed (use details_of_attempts [OF ok] in \<open>simp add: pubsub_cut_details_def\<close>)
  moreover have "?f pubsub_origin_subscription = Inr (Some (cut_text (so_subscription o')))"
    "?f pubsub_origin_message_id = Inr (Some (cut_text (so_message_id o')))"
    by (rule field, simp add: pubsub_fields_def)+
  ultimately show ?thesis by (simp add: pubsub_from_record_def pubsub_cut_origin_def)
qed

interpretation pubsub_letters: dead_letter_carrier pubsub_from_record pubsub_from_dead_letter
  pubsub_first pubsub_delivers pubsub_cut_details pubsub_cut_origin "\<lambda>_. True"
proof unfold_locales
  fix dl :: "('i, 'v pubsub_record) dead_letter" and previous r'
  assume a: "letter_ok dl" "previous_of (pubsub_from_record (dl_raw dl)) = previous"
    "pubsub_delivers (pubsub_from_dead_letter dl) r'"
  show "pubsub_from_record r' =
      Inr (Some \<lparr>ca_details = pubsub_cut_details (details_of dl (map_option ca_details previous)),
                 ca_origin = pubsub_cut_origin (origin_of (pubsub_first (dl_raw dl)) previous)\<rparr>)"
    using a(2,3)
    by (intro pubsub_read_written [OF a(1), where base = "without_dlq (sr_attributes (dl_raw dl))"])
      (simp add: pubsub_delivers_def pubsub_from_dead_letter_def Let_def)
qed (simp_all add: pubsub_cut_details_def pubsub_cut_origin_def)

end
