(* ===== verification/Servicebus_Records.thy ===== *)
theory Servicebus_Records
  imports Carriers Processing Messages
begin

text \<open>
  Service Bus messages of \<^verbatim>\<open>src/adapters/servicebus\<close>: typed application properties, received and
  published messages (\<^verbatim>\<open>record.rs\<close>), their dead letters (\<^verbatim>\<open>dead_letter.rs\<close>), inherited metadata
  (\<^verbatim>\<open>inherit.rs\<close>) and the distribution by session (\<^verbatim>\<open>distribution.rs\<close>). Floating point values are their
  bits, times nanoseconds.
\<close>

datatype servicebus_value =
    SvNull
  | SvBool bool
  | SvU8 "8 word"
  | SvU16 "16 word"
  | SvU32 "32 word"
  | SvU64 "64 word"
  | SvI8 "8 word"
  | SvI16 "16 word"
  | SvI32 "32 word"
  | SvI64 "64 word"
  | SvF32 "32 word"
  | SvF64 "64 word"
  | SvChar nat
  | SvTimestamp int
  | SvUuid bytes
  | SvString string

fun servicebus_as_str :: "servicebus_value \<Rightarrow> string option" where
  "servicebus_as_str (SvString s) = Some s"
| "servicebus_as_str _ = None"

type_synonym servicebus_application_properties = "string \<rightharpoonup> servicebus_value"

record servicebus_properties =
  bp_message_id :: "string option"
  bp_correlation_id :: "string option"
  bp_session_id :: "string option"
  bp_reply_to :: "string option"
  bp_reply_to_session_id :: "string option"
  bp_subject :: "string option"
  bp_content_type :: "string option"
  bp_to :: "string option"
  bp_time_to_live :: "duration option"
  bp_partition_key :: "string option"

definition servicebus_properties_default :: servicebus_properties where
  "servicebus_properties_default =
     \<lparr>bp_message_id = None, bp_correlation_id = None, bp_session_id = None, bp_reply_to = None,
      bp_reply_to_session_id = None, bp_subject = None, bp_content_type = None, bp_to = None,
      bp_time_to_live = None, bp_partition_key = None\<rparr>"

record servicebus_metadata =
  bm_entity_path :: string
  bm_sequence_number :: int
  bm_enqueued_time :: "int option"
  bm_scheduled_enqueue_time :: "int option"
  bm_delivery_count :: "32 word"
  bm_lock_token :: string
  bm_dead_letter_source :: "string option"

record 'v servicebus_record =
  br_value :: 'v
  br_application_properties :: servicebus_application_properties
  br_properties :: servicebus_properties
  br_metadata :: servicebus_metadata

record 'v servicebus_publish =
  bu_value :: 'v
  bu_application_properties :: servicebus_application_properties
  bu_properties :: servicebus_properties
  bu_scheduled_enqueue_time :: "int option"

definition servicebus_publish_new :: "'v \<Rightarrow> 'v servicebus_publish" where
  "servicebus_publish_new v =
     \<lparr>bu_value = v, bu_application_properties = Map.empty, bu_properties = servicebus_properties_default,
      bu_scheduled_enqueue_time = None\<rparr>"

definition servicebus_with_message_id :: "string \<Rightarrow> 'v servicebus_publish \<Rightarrow> 'v servicebus_publish" where
  "servicebus_with_message_id i p = p\<lparr>bu_properties := (bu_properties p)\<lparr>bp_message_id := Some i\<rparr>\<rparr>"

definition servicebus_with_session_id :: "string \<Rightarrow> 'v servicebus_publish \<Rightarrow> 'v servicebus_publish" where
  "servicebus_with_session_id i p = p\<lparr>bu_properties := (bu_properties p)\<lparr>bp_session_id := Some i\<rparr>\<rparr>"

definition servicebus_set_field :: "string \<Rightarrow> string \<Rightarrow> 'v servicebus_publish \<Rightarrow> 'v servicebus_publish" where
  "servicebus_set_field name value p =
     p\<lparr>bu_application_properties := (bu_application_properties p)(name \<mapsto> SvString value)\<rparr>"

section \<open>Dead letters\<close>

definition servicebus_origin_entity_path :: string where
  "servicebus_origin_entity_path = ''beavers-dlq-origin-entity-path''"
definition servicebus_origin_sequence_number :: string where
  "servicebus_origin_sequence_number = ''beavers-dlq-origin-sequence-number''"

lemmas servicebus_origin_names = servicebus_origin_entity_path_def servicebus_origin_sequence_number_def

record servicebus_origin =
  bo_entity_path :: string
  bo_sequence_number :: int

definition servicebus_from_record :: "'v servicebus_record \<Rightarrow> error + servicebus_origin carried option" where
  "servicebus_from_record record =
     (let field = typed_field ''application property'' servicebus_as_str (br_application_properties record);
          required = required_as ''application property'' field in
      bind_result (details_parse field) (\<lambda>details.
        case details of
          None \<Rightarrow> Inr None
        | Some d \<Rightarrow>
            bind_result (required servicebus_origin_entity_path) (\<lambda>entity_path.
            bind_result (bind_result (required servicebus_origin_sequence_number)
                (parse_signed_number (- (2 ^ 63)) (2 ^ 63 - 1) servicebus_origin_sequence_number)) (\<lambda>sequence_number.
              Inr (Some \<lparr>ca_details = d,
                         ca_origin = \<lparr>bo_entity_path = entity_path, bo_sequence_number = sequence_number\<rparr>\<rparr>)))))"

definition servicebus_first :: "'v servicebus_record \<Rightarrow> servicebus_origin" where
  "servicebus_first r =
     \<lparr>bo_entity_path = bm_entity_path (br_metadata r), bo_sequence_number = bm_sequence_number (br_metadata r)\<rparr>"

definition servicebus_fields :: "dead_letter_details \<Rightarrow> servicebus_origin \<Rightarrow> (string \<times> string) list" where
  "servicebus_fields details origin =
     details_fields details
     @ [(servicebus_origin_entity_path, bo_entity_path origin),
        (servicebus_origin_sequence_number, show_int (bo_sequence_number origin))]"

definition servicebus_from_dead_letter :: "('i, 'v servicebus_record) dead_letter \<Rightarrow> 'v servicebus_publish" where
  "servicebus_from_dead_letter dl =
     (let raw = dl_raw dl;
          previous = previous_of (servicebus_from_record raw);
          details = details_of dl (map_option ca_details previous);
          origin = origin_of (servicebus_first raw) previous
      in \<lparr>bu_value = br_value raw,
          bu_application_properties = extend_table (without_dlq (br_application_properties raw))
            (map (\<lambda>(name, value). (name, SvString value)) (servicebus_fields details origin)),
          bu_properties = (br_properties raw)\<lparr>bp_message_id := None, bp_time_to_live := None\<rparr>,
          bu_scheduled_enqueue_time = None\<rparr>)"

section \<open>Inherited metadata and sessions\<close>

record servicebus_inherit =
  bi_application_properties :: bool
  bi_session :: bool

definition servicebus_inherit_new :: servicebus_inherit where
  "servicebus_inherit_new = \<lparr>bi_application_properties = True, bi_session = False\<rparr>"

definition servicebus_inherit_output ::
  "servicebus_inherit \<Rightarrow> 'v servicebus_record \<Rightarrow> 'u servicebus_publish \<Rightarrow> 'u servicebus_publish" where
  "servicebus_inherit_output opts input output =
     (let output = (if bi_application_properties opts
           then output\<lparr>bu_application_properties :=
             inherit_missing (br_application_properties input) (bu_application_properties output)\<rparr>
           else output);
          own = bu_properties output
      in if bi_session opts \<and> bp_session_id own = None
         then output\<lparr>bu_properties := own\<lparr>bp_session_id := bp_session_id (br_properties input),
                bp_partition_key := or_inherit (bp_partition_key own) (bp_partition_key (br_properties input))\<rparr>\<rparr>
         else output)"

definition servicebus_inherit_middleware ::
  "servicebus_inherit \<Rightarrow> ('w, 'v servicebus_record, 'u servicebus_publish) middleware" where
  "servicebus_inherit_middleware opts =
     default_middleware\<lparr>post_handler := (\<lambda>input output w. (Inr (servicebus_inherit_output opts input output), w))\<rparr>"

text \<open>\<^verbatim>\<open>ServiceBusDistribution::Session\<close>: the session within the entity, given the session's bytes.\<close>

definition servicebus_session_key :: "string \<Rightarrow> bytes option \<Rightarrow> ordering_key option" where
  "servicebus_session_key entity_path session =
     map_option (\<lambda>s. with_key s (ordering_key_new entity_path 0)) session"

section \<open>What a dead-lettered message carries\<close>

text \<open>Service Bus keeps the application properties and body of a message.\<close>

definition servicebus_delivers :: "'v servicebus_publish \<Rightarrow> 'v servicebus_record \<Rightarrow> bool" where
  "servicebus_delivers p r \<longleftrightarrow>
     br_application_properties r = bu_application_properties p \<and> br_value r = bu_value p"

definition servicebus_origin_ok :: "servicebus_origin \<Rightarrow> bool" where
  "servicebus_origin_ok o' \<longleftrightarrow> bo_sequence_number o' \<in> {- (2 ^ 63)..2 ^ 63 - 1}"

lemma servicebus_read_written:
  assumes ok: "letter_ok dl" "servicebus_origin_ok o'"
    and props: "br_application_properties r' = extend_table base
      (map (\<lambda>(name, value). (name, SvString value)) (servicebus_fields (details_of dl p) o'))"
  shows "servicebus_from_record r' = Inr (Some \<lparr>ca_details = details_of dl p, ca_origin = o'\<rparr>)"
proof -
  let ?d = "details_of dl p"
    and ?f = "typed_field ''application property'' servicebus_as_str (br_application_properties r')"
  have dist: "distinct (map fst (servicebus_fields ?d o'))"
    unfolding servicebus_fields_def by (rule distinct_fields) (auto simp: servicebus_origin_names hdr_defs)
  have field: "?f name = Inr (Some v)" if "(name, v) \<in> set (servicebus_fields ?d o')" for name v
    unfolding props by (rule typed_field_written [OF dist that]) simp
  have "details_parse ?f = Inr (Some ?d)"
    using details_of_attempts [OF ok(1)] by (intro details_parse_fields field) (auto simp: servicebus_fields_def)
  moreover have "?f servicebus_origin_entity_path = Inr (Some (bo_entity_path o'))"
    "?f servicebus_origin_sequence_number = Inr (Some (show_int (bo_sequence_number o')))"
    by (rule field, simp add: servicebus_fields_def)+
  ultimately show ?thesis
    using ok(2) by (simp add: servicebus_from_record_def parse_signed_number_def servicebus_origin_ok_def)
qed

interpretation servicebus_letters: dead_letter_carrier servicebus_from_record servicebus_from_dead_letter
  servicebus_first servicebus_delivers "\<lambda>d. d" "\<lambda>o'. o'" servicebus_origin_ok
proof unfold_locales
  fix dl :: "('i, 'v servicebus_record) dead_letter" and previous r'
  assume a: "letter_ok dl" "previous_of (servicebus_from_record (dl_raw dl)) = previous"
    "servicebus_origin_ok (origin_of (servicebus_first (dl_raw dl)) previous)"
    "servicebus_delivers (servicebus_from_dead_letter dl) r'"
  show "servicebus_from_record r' =
      Inr (Some \<lparr>ca_details = details_of dl (map_option ca_details previous),
                 ca_origin = origin_of (servicebus_first (dl_raw dl)) previous\<rparr>)"
    using a(2,4)
    by (intro servicebus_read_written [OF a(1,3), where base = "without_dlq (br_application_properties (dl_raw dl))"])
      (simp add: servicebus_delivers_def servicebus_from_dead_letter_def Let_def)
qed simp_all

end
