(* ===== verification/Sqs_Records.thy ===== *)
theory Sqs_Records
  imports Carriers Processing Sqs Messages
begin

text \<open>
  SQS messages of \<^verbatim>\<open>src/adapters/sqs\<close>: attributes and their conversion to and from SQS (\<^verbatim>\<open>record.rs\<close>,
  \<^verbatim>\<open>convert.rs\<close>), the record and keys of a received message (\<^verbatim>\<open>source.rs\<close>), dead letters in one
  attribute (\<^verbatim>\<open>dead_letter.rs\<close>), inherited metadata (\<^verbatim>\<open>inherit.rs\<close>), and preparing and sending an output
  (\<^verbatim>\<open>sink.rs\<close>).

  The JSON library is a parameter: it prints a map of strings and reads one back.
\<close>

datatype sqs_attribute_value = QaString string | QaNumber string | QaBinary bytes

fun sqs_as_str :: "sqs_attribute_value \<Rightarrow> string option" where
  "sqs_as_str (QaString s) = Some s"
| "sqs_as_str _ = None"

type_synonym sqs_attributes = "string \<rightharpoonup> sqs_attribute_value"

record sqs_metadata =
  qm_queue_url :: string
  qm_message_id :: string
  qm_receive_count :: nat
  qm_sent_timestamp :: "int option"
  qm_first_receive_timestamp :: "int option"
  qm_message_group_id :: "string option"
  qm_deduplication_id :: "string option"
  qm_sequence_number :: "string option"

record 'v sqs_record =
  qr_value :: 'v
  qr_attributes :: sqs_attributes
  qr_metadata :: sqs_metadata

record 'v sqs_publish =
  qu_value :: 'v
  qu_attributes :: sqs_attributes
  qu_message_group_id :: "string option"
  qu_deduplication_id :: "string option"
  qu_delay :: "duration option"

definition sqs_publish_new :: "'v \<Rightarrow> 'v sqs_publish" where
  "sqs_publish_new v =
     \<lparr>qu_value = v, qu_attributes = Map.empty, qu_message_group_id = None, qu_deduplication_id = None,
      qu_delay = None\<rparr>"

definition sqs_with_message_group_id :: "string \<Rightarrow> 'v sqs_publish \<Rightarrow> 'v sqs_publish" where
  "sqs_with_message_group_id g p = p\<lparr>qu_message_group_id := Some g\<rparr>"

definition sqs_set_field :: "string \<Rightarrow> string \<Rightarrow> 'v sqs_publish \<Rightarrow> 'v sqs_publish" where
  "sqs_set_field name value p = p\<lparr>qu_attributes := (qu_attributes p)(name \<mapsto> QaString value)\<rparr>"

section \<open>Conversion to and from SQS\<close>

text \<open>\<^verbatim>\<open>MessageAttributeValue\<close> of the SQS client: a data type with an optional label, and a value.\<close>

record sqs_message_attribute =
  ma_data_type :: string
  ma_string_value :: "string option"
  ma_binary_value :: "bytes option"

definition base_type :: "string \<Rightarrow> string" where
  "base_type t = takeWhile (\<lambda>c. c \<noteq> CHR ''.'') t"

definition attribute_from_sqs :: "sqs_message_attribute \<Rightarrow> sqs_attribute_value option" where
  "attribute_from_sqs a =
     (let base = base_type (ma_data_type a) in
      if base = ''String'' then map_option QaString (ma_string_value a)
      else if base = ''Number'' then map_option QaNumber (ma_string_value a)
      else if base = ''Binary'' then map_option QaBinary (ma_binary_value a)
      else None)"

definition attributes_from_sqs :: "(string \<rightharpoonup> sqs_message_attribute) option \<Rightarrow> sqs_attributes" where
  "attributes_from_sqs attrs =
     (case attrs of
        None \<Rightarrow> Map.empty
      | Some m \<Rightarrow> (\<lambda>name. case m name of None \<Rightarrow> None | Some a \<Rightarrow> attribute_from_sqs a))"

fun attribute_to_sqs :: "sqs_attribute_value \<Rightarrow> sqs_message_attribute" where
  "attribute_to_sqs (QaString v) = \<lparr>ma_data_type = ''String'', ma_string_value = Some v, ma_binary_value = None\<rparr>"
| "attribute_to_sqs (QaNumber v) = \<lparr>ma_data_type = ''Number'', ma_string_value = Some v, ma_binary_value = None\<rparr>"
| "attribute_to_sqs (QaBinary v) = \<lparr>ma_data_type = ''Binary'', ma_string_value = None, ma_binary_value = Some v\<rparr>"

definition attributes_to_sqs :: "sqs_attributes \<Rightarrow> (string \<rightharpoonup> sqs_message_attribute)" where
  "attributes_to_sqs attrs = (\<lambda>name. map_option attribute_to_sqs (attrs name))"

lemma attribute_round_trip [simp]: "attribute_from_sqs (attribute_to_sqs v) = Some v"
  by (cases v) (simp_all add: attribute_from_sqs_def base_type_def)

lemma attributes_round_trip [simp]: "attributes_from_sqs (Some (attributes_to_sqs a)) = a"
  by (rule ext) (simp add: attributes_from_sqs_def attributes_to_sqs_def split: option.splits)

section \<open>A received message\<close>

text \<open>\<^verbatim>\<open>Message\<close> of the SQS client, with the system attributes by name.\<close>

record sqs_client_message =
  qx_body :: "string option"
  qx_message_id :: "string option"
  qx_attributes :: "(string \<rightharpoonup> string) option"
  qx_message_attributes :: "(string \<rightharpoonup> sqs_message_attribute) option"

definition system_attribute :: "sqs_client_message \<Rightarrow> string \<Rightarrow> string option" where
  "system_attribute m name = (case qx_attributes m of None \<Rightarrow> None | Some a \<Rightarrow> a name)"

definition number_attribute :: "sqs_client_message \<Rightarrow> string \<Rightarrow> int option" where
  "number_attribute m name =
     (case system_attribute m name of
        None \<Rightarrow> None
      | Some v \<Rightarrow> (case parse_signed (- (2 ^ 63)) (2 ^ 63 - 1) v of Inl _ \<Rightarrow> None | Inr i \<Rightarrow> Some i))"

definition sqs_record_of ::
  "string \<Rightarrow> (bytes \<Rightarrow> 'e + 'v) \<Rightarrow> sqs_client_message \<Rightarrow> 'e + 'v sqs_record" where
  "sqs_record_of queue_url decode m =
     (case decode (str_bytes (case qx_body m of None \<Rightarrow> [] | Some b \<Rightarrow> b)) of
        Inl e \<Rightarrow> Inl e
      | Inr v \<Rightarrow>
          Inr \<lparr>qr_value = v, qr_attributes = attributes_from_sqs (qx_message_attributes m),
               qr_metadata =
                 \<lparr>qm_queue_url = queue_url,
                  qm_message_id = (case qx_message_id m of None \<Rightarrow> [] | Some i \<Rightarrow> i),
                  qm_receive_count =
                    (case number_attribute m ''ApproximateReceiveCount'' of
                       None \<Rightarrow> 1
                     | Some n \<Rightarrow> if 0 \<le> n \<and> n \<le> int u32_max then nat n else 1),
                  qm_sent_timestamp = number_attribute m ''SentTimestamp'',
                  qm_first_receive_timestamp = number_attribute m ''ApproximateFirstReceiveTimestamp'',
                  qm_message_group_id = system_attribute m ''MessageGroupId'',
                  qm_deduplication_id = system_attribute m ''MessageDeduplicationId'',
                  qm_sequence_number = system_attribute m ''SequenceNumber''\<rparr>\<rparr>)"

text \<open>The ordering key of a FIFO message is its group; the message key is the group of any queue.\<close>

definition sqs_ordering_key :: "string \<Rightarrow> sqs_client_message \<Rightarrow> ordering_key option" where
  "sqs_ordering_key queue_url m =
     (case system_attribute m ''MessageGroupId'' of
        None \<Rightarrow> None
      | Some g \<Rightarrow> if is_fifo queue_url then Some (with_key (str_bytes g) (ordering_key_new queue_url 0)) else None)"

definition sqs_message_key :: "sqs_client_message \<Rightarrow> bytes option" where
  "sqs_message_key m = map_option str_bytes (system_attribute m ''MessageGroupId'')"

section \<open>Dead letters\<close>

definition sqs_details_name :: string where "sqs_details_name = ''beavers-dlq-details''"
definition sqs_origin_queue_url :: string where "sqs_origin_queue_url = ''beavers-dlq-origin-queue-url''"
definition sqs_origin_message_id :: string where "sqs_origin_message_id = ''beavers-dlq-origin-message-id''"

lemmas sqs_origin_names = sqs_origin_queue_url_def sqs_origin_message_id_def

record sqs_origin =
  qo_queue_url :: string
  qo_message_id :: string

definition sqs_required :: "(string \<rightharpoonup> string) \<Rightarrow> string \<Rightarrow> error + string" where
  "sqs_required fs name =
     (case fs name of
        None \<Rightarrow> Inl (InvalidRecord (''dead-letter detail '' @ name @ '' is missing''))
      | Some v \<Rightarrow> Inr v)"

definition sqs_from_record ::
  "(string \<Rightarrow> string + (string \<rightharpoonup> string)) \<Rightarrow> 'v sqs_record \<Rightarrow> error + sqs_origin carried option" where
  "sqs_from_record from_json record =
     (case qr_attributes record sqs_details_name of
        None \<Rightarrow> Inr None
      | Some value \<Rightarrow>
          (case sqs_as_str value of
             None \<Rightarrow> Inl (InvalidRecord (''dead-letter attribute '' @ sqs_details_name @ '' is not a string''))
           | Some s \<Rightarrow>
               (case from_json s of
                  Inl e \<Rightarrow> Inl (InvalidRecord (''dead-letter attribute '' @ sqs_details_name
                             @ '' is malformed: '' @ e))
                | Inr fs \<Rightarrow>
                    bind_result (details_parse (text_field fs)) (\<lambda>details.
                      case details of
                        None \<Rightarrow> Inl (InvalidRecord (''dead-letter attribute '' @ sqs_details_name
                                   @ '' has no failure''))
                      | Some d \<Rightarrow>
                          bind_result (sqs_required fs sqs_origin_queue_url) (\<lambda>queue_url.
                          bind_result (sqs_required fs sqs_origin_message_id) (\<lambda>message_id.
                            Inr (Some \<lparr>ca_details = d,
                                       ca_origin = \<lparr>qo_queue_url = queue_url, qo_message_id = message_id\<rparr>\<rparr>)))))))"

definition sqs_first :: "'v sqs_record \<Rightarrow> sqs_origin" where
  "sqs_first r =
     \<lparr>qo_queue_url = qm_queue_url (qr_metadata r), qo_message_id = qm_message_id (qr_metadata r)\<rparr>"

definition sqs_fields :: "dead_letter_details \<Rightarrow> sqs_origin \<Rightarrow> (string \<times> string) list" where
  "sqs_fields details origin =
     details_fields details
     @ [(sqs_origin_queue_url, qo_queue_url origin), (sqs_origin_message_id, qo_message_id origin)]"

definition sqs_from_dead_letter ::
  "((string \<rightharpoonup> string) \<Rightarrow> string) \<Rightarrow> (string \<Rightarrow> string + (string \<rightharpoonup> string)) \<Rightarrow>
   ('i, 'v sqs_record) dead_letter \<Rightarrow> 'v sqs_publish" where
  "sqs_from_dead_letter to_json from_json dl =
     (let raw = dl_raw dl;
          previous = previous_of (sqs_from_record from_json raw);
          details = details_of dl (map_option ca_details previous);
          origin = origin_of (sqs_first raw) previous
      in \<lparr>qu_value = qr_value raw,
          qu_attributes = (without_dlq (qr_attributes raw))
            (sqs_details_name \<mapsto> QaString (to_json (extend_table Map.empty (sqs_fields details origin)))),
          qu_message_group_id = qm_message_group_id (qr_metadata raw),
          qu_deduplication_id = None, qu_delay = None\<rparr>)"

section \<open>Inherited metadata\<close>

record sqs_inherit =
  qi_attributes :: bool
  qi_message_group :: bool

definition sqs_inherit_new :: sqs_inherit where
  "sqs_inherit_new = \<lparr>qi_attributes = True, qi_message_group = False\<rparr>"

definition sqs_inherit_output ::
  "sqs_inherit \<Rightarrow> 'v sqs_record \<Rightarrow> 'u sqs_publish \<Rightarrow> 'u sqs_publish" where
  "sqs_inherit_output opts input output =
     output\<lparr>qu_attributes := (if qi_attributes opts
              then inherit_missing (qr_attributes input) (qu_attributes output) else qu_attributes output),
            qu_message_group_id := (if qi_message_group opts
              then or_inherit (qu_message_group_id output) (qm_message_group_id (qr_metadata input))
              else qu_message_group_id output)\<rparr>"

definition sqs_inherit_middleware ::
  "sqs_inherit \<Rightarrow> ('w, 'v sqs_record, 'u sqs_publish) middleware" where
  "sqs_inherit_middleware opts =
     default_middleware\<lparr>post_handler := (\<lambda>input output w. (Inr (sqs_inherit_output opts input output), w))\<rparr>"

section \<open>Sending\<close>

definition sqs_max_delay :: duration where
  "sqs_max_delay = 15 * 60 * second"

record sqs_prepared =
  qp_body :: string
  qp_attributes :: "string \<rightharpoonup> sqs_message_attribute"
  qp_message_group_id :: "string option"
  qp_deduplication_id :: "string option"
  qp_delay_seconds :: "nat option"

definition ensure_record :: "bool \<Rightarrow> string \<Rightarrow> box_error + unit" where
  "ensure_record b m = (if b then Inr () else Inl (Crate (InvalidRecord m)))"

text \<open>
  \<^verbatim>\<open>SqsSink::prepare\<close>; the encoder is a parameter, and so is the text of its error about bytes that are
  not UTF-8.
\<close>

definition sqs_prepare ::
  "(bytes \<Rightarrow> box_error) \<Rightarrow> ('v \<Rightarrow> box_error + bytes) \<Rightarrow> string \<Rightarrow> 'v sqs_publish \<Rightarrow> box_error + sqs_prepared" where
  "sqs_prepare utf8_error encode queue_url output =
     bind_result (encode (qu_value output)) (\<lambda>encoded.
     bind_result (case from_utf8 encoded of
                    None \<Rightarrow> Inl (box_context ''SQS message bodies must be UTF-8 text'' (utf8_error encoded))
                  | Some b \<Rightarrow> Inr b) (\<lambda>body.
     bind_result (if is_fifo queue_url
                  then bind_result (ensure_record (qu_message_group_id output \<noteq> None)
                         ''messages sent to an SQS FIFO queue need a message group ID'') (\<lambda>_.
                       ensure_record (qu_delay output = None) ''SQS FIFO queues accept no per-message delay'')
                  else Inr ()) (\<lambda>_.
     bind_result (case qu_delay output of
                    None \<Rightarrow> Inr ()
                  | Some d \<Rightarrow> ensure_record (d \<le> sqs_max_delay) ''SQS message delay must be at most 15 minutes'') (\<lambda>_.
       Inr \<lparr>qp_body = body, qp_attributes = attributes_to_sqs (qu_attributes output),
            qp_message_group_id = qu_message_group_id output,
            qp_deduplication_id = qu_deduplication_id output,
            qp_delay_seconds = map_option (\<lambda>d. d div second) (qu_delay output)\<rparr>))))"

definition sqs_rejected_codes :: "string list" where
  "sqs_rejected_codes =
     [''InvalidMessageContents'', ''InvalidParameterValue'', ''InvalidAttributeName'',
      ''InvalidAttributeValue'', ''MissingParameter'']"

text \<open>
  The answer of \<^verbatim>\<open>SendMessage\<close>: a refused message is marked as rejected, another error may be retried.
  \<open>error\<close> has the client's code and display.
\<close>

definition sqs_send_result :: "(string option \<times> string) + unit \<Rightarrow> box_error + unit" where
  "sqs_send_result result =
     (case result of
        Inr _ \<Rightarrow> Inr ()
      | Inl (code, display) \<Rightarrow>
          let e = Crate (error_msg (''sending to SQS: '' @ display)) in
          Inl (if (\<exists>c \<in> set sqs_rejected_codes. code = Some c) then publish_rejected_wrap e else e))"

definition sqs_publish_output ::
  "sqs_client_config \<Rightarrow> string \<Rightarrow> bool \<Rightarrow> (string option \<times> string) + unit \<Rightarrow> box_error + unit" where
  "sqs_publish_output client queue_url closed result =
     (if closed then Inl (Crate (Closed ''SQS sink is closed''))
      else case and_then (client_validate client) (validate_queue_url queue_url) of
        Inl e \<Rightarrow> Inl (Crate e)
      | Inr _ \<Rightarrow> sqs_send_result result)"

section \<open>What a dead-lettered message carries\<close>

text \<open>SQS keeps the message attributes the sink sent; the source converts them back.\<close>

definition sqs_delivers :: "'v sqs_publish \<Rightarrow> 'v sqs_record \<Rightarrow> bool" where
  "sqs_delivers p r \<longleftrightarrow>
     qr_attributes r = attributes_from_sqs (Some (attributes_to_sqs (qu_attributes p)))
     \<and> qr_value r = qu_value p"

definition sqs_field_names :: "string set" where
  "sqs_field_names = detail_names \<union> {sqs_origin_queue_url, sqs_origin_message_id}"

text \<open>What the adapter relies on of the JSON library: such a map of strings reads back as it was printed.\<close>

definition json_reads_back ::
  "((string \<rightharpoonup> string) \<Rightarrow> string) \<Rightarrow> (string \<Rightarrow> string + (string \<rightharpoonup> string)) \<Rightarrow> bool" where
  "json_reads_back to_json from_json \<longleftrightarrow>
     (\<forall>m. dom m = sqs_field_names \<longrightarrow> from_json (to_json m) = Inr m)"

lemma sqs_read_written:
  assumes json: "json_reads_back to_json from_json" and ok: "letter_ok dl"
    and attr: "qr_attributes r' sqs_details_name =
      Some (QaString (to_json (extend_table Map.empty (sqs_fields (details_of dl p) o'))))"
  shows "sqs_from_record from_json r' = Inr (Some \<lparr>ca_details = details_of dl p, ca_origin = o'\<rparr>)"
proof -
  let ?d = "details_of dl p"
  let ?m = "extend_table Map.empty (sqs_fields ?d o')"
  have dist: "distinct (map fst (sqs_fields ?d o'))"
    unfolding sqs_fields_def by (rule distinct_fields) (auto simp: sqs_origin_names hdr_defs)
  have "dom ?m = sqs_field_names"
    by (auto simp: extend_table_lookup dom_map_of_conv_image_fst sqs_fields_def sqs_field_names_def
        image_Un details_fields_names)
  then have "from_json (to_json ?m) = Inr ?m" using json by (simp add: json_reads_back_def)
  moreover have field: "text_field ?m name = Inr (Some v)" if "(name, v) \<in> set (sqs_fields ?d o')" for name v
    using text_field_written [OF dist that, of Map.empty "\<lambda>v. v"] by simp
  have "details_parse (text_field ?m) = Inr (Some ?d)"
    using details_of_attempts [OF ok] by (intro details_parse_fields field) (auto simp: sqs_fields_def)
  moreover have "text_field ?m sqs_origin_queue_url = Inr (Some (qo_queue_url o'))"
    "text_field ?m sqs_origin_message_id = Inr (Some (qo_message_id o'))"
    by (rule field, simp add: sqs_fields_def)+
  ultimately show ?thesis
    by (simp add: sqs_from_record_def attr sqs_required_def text_field_def)
qed

lemma sqs_carrier:
  assumes "json_reads_back to_json from_json"
  shows "dead_letter_carrier (sqs_from_record from_json) (sqs_from_dead_letter to_json from_json)
    sqs_first sqs_delivers (\<lambda>d. d) (\<lambda>o'. o') (\<lambda>_. True)"
proof unfold_locales
  fix dl :: "('i, 'v sqs_record) dead_letter" and previous r'
  assume a: "letter_ok dl" "previous_of (sqs_from_record from_json (dl_raw dl)) = previous"
    "sqs_delivers (sqs_from_dead_letter to_json from_json dl) r'"
  show "sqs_from_record from_json r' =
      Inr (Some \<lparr>ca_details = details_of dl (map_option ca_details previous),
                 ca_origin = origin_of (sqs_first (dl_raw dl)) previous\<rparr>)"
    using a(2,3) by (intro sqs_read_written [OF assms a(1)])
      (simp add: sqs_delivers_def sqs_from_dead_letter_def Let_def)
qed simp_all

text \<open>
  A printer and reader of string maps for the examples: the values of the known names in order, each
  with its length in unary.
\<close>

definition ex_names :: "string list" where
  "ex_names = [hdr_subscription, hdr_failure, hdr_error, hdr_attempts, hdr_count, sqs_origin_queue_url,
     sqs_origin_message_id]"

fun ex_print :: "string list \<Rightarrow> string" where
  "ex_print [] = []"
| "ex_print (v # vs) = replicate (length v) CHR ''n'' @ CHR '':'' # v @ ex_print vs"

fun ex_read :: "nat \<Rightarrow> string \<Rightarrow> string list" where
  "ex_read 0 s = []"
| "ex_read (Suc k) s =
     (let n = length (takeWhile (\<lambda>c. c = CHR ''n'') s); t = drop (Suc n) s
      in take n t # ex_read k (drop n t))"

definition ex_to_json :: "(string \<rightharpoonup> string) \<Rightarrow> string" where
  "ex_to_json m = ex_print (map (\<lambda>n. the (m n)) ex_names)"

definition ex_from_json :: "string \<Rightarrow> string + (string \<rightharpoonup> string)" where
  "ex_from_json s = Inr (map_of (zip ex_names (ex_read (length ex_names) s)))"

lemma ex_read_print: "ex_read (length vs) (ex_print vs) = vs"
proof (induction vs)
  case (Cons v vs)
  have "takeWhile (\<lambda>c. c = CHR ''n'') (ex_print (v # vs)) = replicate (length v) CHR ''n''"
    using takeWhile_append2 [of "replicate (length v) CHR ''n''" "\<lambda>c. c = CHR ''n''"] by simp
  with Cons show ?case by (simp add: Let_def)
qed simp

lemma ex_json: "json_reads_back ex_to_json ex_from_json"
  unfolding json_reads_back_def
proof (intro allI impI)
  fix m :: "string \<rightharpoonup> string" assume dom: "dom m = sqs_field_names"
  have names: "set ex_names = dom m" by (auto simp: dom sqs_field_names_def ex_names_def)
  have "map_of (zip ex_names (map (\<lambda>n. the (m n)) ex_names)) = m"
  proof
    fix n show "map_of (zip ex_names (map (\<lambda>n. the (m n)) ex_names)) n = m n"
      using names by (cases "m n") (auto simp: map_of_zip_map)
  qed
  then show "ex_from_json (ex_to_json m) = Inr m"
    using ex_read_print [of "map (\<lambda>n. the (m n)) ex_names"] by (simp add: ex_from_json_def ex_to_json_def)
qed

end
