(* ===== verification/Brokers.thy ===== *)
theory Brokers
  imports Kafka_Records Pulsar_Records Rabbitmq_Records Pubsub_Records Servicebus_Records Sqs_Records
begin

text \<open>
  What the broker adapters promise alike: a dead-lettered payload carries its first origin and how
  often it was dead-lettered, and inherited metadata never replaces what an output sets itself.
\<close>

section \<open>Origins of dead letters\<close>

lemma pulsar_dead_letter_origin:
  fixes dl :: "('i, 'v pulsar_record) dead_letter"
  assumes "dead_lettered (pulsar_from_dead_letter :: ('i, 'v pulsar_record) dead_letter \<Rightarrow> _) pulsar_delivers r0 n r"
    and "previous_of (pulsar_from_record r0) = None" "pulsar_metadata_ok (pr_metadata r0)"
    and "dl_raw dl = r" "letter_ok dl" "pulsar_delivers (pulsar_from_dead_letter dl) r'"
  shows "pulsar_from_record r' =
    Inr (Some \<lparr>ca_details = details_again dl (Suc n), ca_origin = pr_metadata r0\<rparr>)"
  using assms by (rule pulsar_letters.carries_first_origin)

lemma rabbitmq_dead_letter_origin:
  fixes dl :: "('i, 'v rabbitmq_record) dead_letter"
  assumes "dead_lettered (rabbitmq_from_dead_letter :: ('i, 'v rabbitmq_record) dead_letter \<Rightarrow> _) rabbitmq_delivers r0 n r"
    and "previous_of (rabbitmq_from_record r0) = None"
    and "dl_raw dl = r" "letter_ok dl" "rabbitmq_delivers (rabbitmq_from_dead_letter dl) r'"
  shows "rabbitmq_from_record r' =
    Inr (Some \<lparr>ca_details = details_again dl (Suc n), ca_origin = rabbitmq_first r0\<rparr>)"
  using assms by (intro rabbitmq_letters.carries_first_origin) simp_all

lemma servicebus_dead_letter_origin:
  fixes dl :: "('i, 'v servicebus_record) dead_letter"
  assumes "dead_lettered (servicebus_from_dead_letter :: ('i, 'v servicebus_record) dead_letter \<Rightarrow> _)
      servicebus_delivers r0 n r"
    and "previous_of (servicebus_from_record r0) = None" "servicebus_origin_ok (servicebus_first r0)"
    and "dl_raw dl = r" "letter_ok dl" "servicebus_delivers (servicebus_from_dead_letter dl) r'"
  shows "servicebus_from_record r' =
    Inr (Some \<lparr>ca_details = details_again dl (Suc n), ca_origin = servicebus_first r0\<rparr>)"
  using assms by (rule servicebus_letters.carries_first_origin)

text \<open>
  However often a Pub/Sub payload is dead-lettered and received again, the message carries the
  latest failure, the number of dead-letterings and the subscription and message ID it was first
  received with, each text cut at a character boundary to the 1024 bytes an attribute may hold;
  cutting again on a later turn changes nothing, and no number or failure name is ever cut.
\<close>

theorem pubsub_dead_letter_origin:
  fixes dl :: "('i, 'v pubsub_record) dead_letter"
  assumes "dead_lettered (pubsub_from_dead_letter :: ('i, 'v pubsub_record) dead_letter \<Rightarrow> _) pubsub_delivers r0 n r"
    and "previous_of (pubsub_from_record r0) = None"
    and "dl_raw dl = r" "letter_ok dl" "pubsub_delivers (pubsub_from_dead_letter dl) r'"
  shows "pubsub_from_record r' =
      Inr (Some \<lparr>ca_details = pubsub_cut_details (details_again dl (Suc n)),
                 ca_origin = pubsub_cut_origin (pubsub_first r0)\<rparr>)
    \<and> list_all (\<lambda>name. case sr_attributes r' name of None \<Rightarrow> False | Some v \<Rightarrow> length v \<le> 1024)
        (map fst (pubsub_fields (details_again dl (Suc n)) (pubsub_first r0)))"
proof -
  have "pubsub_from_record r' =
      Inr (Some \<lparr>ca_details = pubsub_cut_details (details_again dl (Suc n)),
                 ca_origin = pubsub_cut_origin (pubsub_first r0)\<rparr>)"
    using assms by (intro pubsub_letters.carries_first_origin) simp_all
  moreover have "case sr_attributes r' name of None \<Rightarrow> False | Some v \<Rightarrow> length v \<le> 1024"
    if "name \<in> detail_names \<union> {pubsub_origin_subscription, pubsub_origin_message_id}" for name
  proof -
    obtain d o' where fs: "sr_attributes r' = extend_table (without_dlq (sr_attributes (dl_raw dl)))
        (map (\<lambda>(name, value). (name, cut_text value)) (pubsub_fields d o'))"
      using assms(5) by (simp add: pubsub_delivers_def pubsub_from_dead_letter_def Let_def)
    have "distinct (map fst (pubsub_fields d o'))"
      unfolding pubsub_fields_def by (rule distinct_fields) (auto simp: pubsub_origin_names hdr_defs)
    moreover have "name \<in> fst ` set (pubsub_fields d o')"
      using that details_fields_names [of d] by (auto simp: pubsub_fields_def image_Un)
    ultimately obtain v where "sr_attributes r' name = Some (cut_text v)"
      unfolding fs using extend_table_written [of "pubsub_fields d o'" name] by fastforce
    then show ?thesis using length_truncate_text [of max_attribute_value v] by (simp add: max_attribute_value_def)
  qed
  then have "list_all (\<lambda>name. case sr_attributes r' name of None \<Rightarrow> False | Some v \<Rightarrow> length v \<le> 1024)
        (map fst (pubsub_fields (details_again dl (Suc n)) (pubsub_first r0)))"
    by (simp add: list_all_iff pubsub_fields_def details_fields_def)
  ultimately show ?thesis by blast
qed

text \<open>
  However often an SQS payload is dead-lettered, sent through the sink's conversion and received
  again, its one details attribute carries the latest failure, the number of dead-letterings and the
  queue and message ID it was first received with, provided that the JSON library reads back the map
  it printed.
\<close>

theorem sqs_dead_letter_origin:
  fixes dl :: "('i, 'v sqs_record) dead_letter"
  assumes json: "json_reads_back to_json from_json"
    and "dead_lettered (sqs_from_dead_letter to_json from_json :: ('i, 'v sqs_record) dead_letter \<Rightarrow> _) sqs_delivers r0 n r"
    and "previous_of (sqs_from_record from_json r0) = None"
    and "dl_raw dl = r" "letter_ok dl" "sqs_delivers (sqs_from_dead_letter to_json from_json dl) r'"
  shows "sqs_from_record from_json r' =
    Inr (Some \<lparr>ca_details = details_again dl (Suc n), ca_origin = sqs_first r0\<rparr>)"
  by (rule dead_letter_carrier.carries_first_origin [OF sqs_carrier [OF json] assms(2,3) TrueI assms(4-6)])

section \<open>Inherited metadata\<close>

lemma filter_kafka_inherit:
  "filter (\<lambda>h. fst h = name) (kp_headers (kafka_inherit_output opts input output)) =
     (if ki_headers opts \<and> \<not> dlq_name name \<and> list_all (\<lambda>h. fst h \<noteq> name) (kp_headers output)
      then filter (\<lambda>h. fst h = name) (kr_headers input)
      else filter (\<lambda>h. fst h = name) (kp_headers output))"
proof -
  let ?own = "kp_headers output"
  have keep: "filter (\<lambda>h. \<not> dlq_name (fst h) \<and> list_all (\<lambda>e. fst e \<noteq> fst h) ?own \<and> fst h = name) hs =
      (if \<not> dlq_name name \<and> list_all (\<lambda>h. fst h \<noteq> name) ?own then filter (\<lambda>h. fst h = name) hs else [])" for hs
    by (induction hs) auto
  have "filter (\<lambda>h. fst h = name) ?own = []" if "list_all (\<lambda>h. fst h \<noteq> name) ?own"
    using that by (auto simp: list_all_iff filter_empty_conv)
  then show ?thesis by (simp add: kafka_inherit_output_def Let_def keep)
qed

text \<open>
  For every adapter, an output that inherits metadata keeps what it sets itself, takes a received
  header, property or attribute only under a name it does not set, and never one that describes a
  dead letter. Kafka headers may repeat; all received ones of a name are taken or none, in order.
  Fields other than the inherited ones stay as the output has them.
\<close>

theorem inherited_metadata:
  "filter (\<lambda>h. fst h = name) (kp_headers (kafka_inherit_output ko ki kout)) =
     (if ki_headers ko \<and> \<not> dlq_name name \<and> list_all (\<lambda>h. fst h \<noteq> name) (kp_headers kout)
      then filter (\<lambda>h. fst h = name) (kr_headers ki) else filter (\<lambda>h. fst h = name) (kp_headers kout))
   \<and> kp_key (kafka_inherit_output ko ki kout) =
       (if ki_key ko \<and> kp_key kout = None then kr_key ki else kp_key kout)
   \<and> pu_properties (pulsar_inherit_output po pi pout) name =
       (if pi_properties po \<and> pu_properties pout name = None \<and> \<not> dlq_name name
        then pr_properties pi name else pu_properties pout name)
   \<and> pu_ordering_key (pulsar_inherit_output po pi pout) = pu_ordering_key pout
   \<and> ru_headers (rabbitmq_inherit_output ro ri rout) name =
       (if ri_headers ro \<and> ru_headers rout name = None \<and> \<not> dlq_name name
        then rr_headers ri name else ru_headers rout name)
   \<and> rp_message_id (ru_properties (rabbitmq_inherit_output ro ri rout)) = rp_message_id (ru_properties rout)
   \<and> ru_routing_key (rabbitmq_inherit_output ro ri rout) = ru_routing_key rout
   \<and> su_attributes (pubsub_inherit_output so si sout) name =
       (if si_attributes so \<and> su_attributes sout name = None \<and> \<not> dlq_name name
        then sr_attributes si name else su_attributes sout name)
   \<and> bu_application_properties (servicebus_inherit_output bo bi bout) name =
       (if bi_application_properties bo \<and> bu_application_properties bout name = None \<and> \<not> dlq_name name
        then br_application_properties bi name else bu_application_properties bout name)
   \<and> bp_message_id (bu_properties (servicebus_inherit_output bo bi bout)) = bp_message_id (bu_properties bout)
   \<and> qu_attributes (sqs_inherit_output qo qi qout) name =
       (if qi_attributes qo \<and> qu_attributes qout name = None \<and> \<not> dlq_name name
        then qr_attributes qi name else qu_attributes qout name)
   \<and> qu_deduplication_id (sqs_inherit_output qo qi qout) = qu_deduplication_id qout"
proof (intro conjI)
  show "filter (\<lambda>h. fst h = name) (kp_headers (kafka_inherit_output ko ki kout)) =
     (if ki_headers ko \<and> \<not> dlq_name name \<and> list_all (\<lambda>h. fst h \<noteq> name) (kp_headers kout)
      then filter (\<lambda>h. fst h = name) (kr_headers ki) else filter (\<lambda>h. fst h = name) (kp_headers kout))"
    by (rule filter_kafka_inherit)
qed (auto simp: kafka_inherit_output_def pulsar_inherit_output_def rabbitmq_inherit_output_def
    rabbitmq_inherit_properties_def pubsub_inherit_output_def servicebus_inherit_output_def
    sqs_inherit_output_def inherit_missing_lookup or_inherit_def Let_def split: option.splits)

section \<open>Examples\<close>

definition ex_pubsub_record :: "(string \<rightharpoonup> string) \<Rightarrow> string \<Rightarrow> nat pubsub_record" where
  "ex_pubsub_record attrs i =
     \<lparr>sr_value = 7, sr_attributes = attrs, sr_ordering_key = None,
      sr_metadata = \<lparr>sm_subscription = ''orders-sub'', sm_message_id = i, sm_publish_time = None,
                     sm_delivery_attempt = None\<rparr>\<rparr>"

definition ex_pubsub_again :: "nat pubsub_record \<Rightarrow> nat pubsub_record" where
  "ex_pubsub_again r = ex_pubsub_record (su_attributes (pubsub_from_dead_letter (ex_letter r))) ''2''"

lemma ex_pubsub_delivers: "pubsub_delivers (pubsub_from_dead_letter (ex_letter r)) (ex_pubsub_again r)"
  if "sr_value r = 7" "sr_ordering_key r = None"
  using that by (simp add: pubsub_delivers_def ex_pubsub_again_def ex_pubsub_record_def
      pubsub_from_dead_letter_def Let_def)

theorem pubsub_dead_letter_origin_witness:
  "pubsub_from_record (ex_pubsub_again (ex_pubsub_again (ex_pubsub_record Map.empty ''1''))) =
     Inr (Some \<lparr>ca_details = details_again (ex_letter ()) 2,
                ca_origin = \<lparr>so_subscription = ''orders-sub'', so_message_id = ''1''\<rparr>\<rparr>)"
proof -
  let ?r0 = "ex_pubsub_record Map.empty ''1''"
  have "pubsub_delivers (pubsub_from_dead_letter (ex_letter ?r0)) (ex_pubsub_again ?r0)"
    by (rule ex_pubsub_delivers) (simp_all add: ex_pubsub_record_def)
  then have chain: "dead_lettered (pubsub_from_dead_letter :: (nat, nat pubsub_record) dead_letter \<Rightarrow> _)
      pubsub_delivers ?r0 (Suc 0) (ex_pubsub_again ?r0)"
    by (intro dead_lettered.again [OF dead_lettered.received]) simp_all
  have first: "previous_of (pubsub_from_record ?r0) = None"
    by (simp add: ex_pubsub_record_def previous_of_def pubsub_from_record_def text_field_def details_parse_def)
  have "pubsub_delivers (pubsub_from_dead_letter (ex_letter (ex_pubsub_again ?r0)))
      (ex_pubsub_again (ex_pubsub_again ?r0))"
    by (rule ex_pubsub_delivers) (simp_all add: ex_pubsub_again_def ex_pubsub_record_def)
  from pubsub_dead_letter_origin [OF chain first ex_letter_raw ex_letter_ok this]
  show ?thesis
    by (simp add: ex_pubsub_record_def details_again_def ex_letter_def numeral_2_eq_2 pubsub_cut_details_def
        pubsub_cut_origin_def pubsub_first_def max_attribute_value_def)
qed

definition ex_sqs_record :: "sqs_attributes \<Rightarrow> string \<Rightarrow> nat sqs_record" where
  "ex_sqs_record attrs i =
     \<lparr>qr_value = 7, qr_attributes = attrs,
      qr_metadata = \<lparr>qm_queue_url = ''https://sqs/1/orders'', qm_message_id = i, qm_receive_count = 1,
                     qm_sent_timestamp = None, qm_first_receive_timestamp = None,
                     qm_message_group_id = None, qm_deduplication_id = None, qm_sequence_number = None\<rparr>\<rparr>"

abbreviation ex_sqs_forward :: "(nat, nat sqs_record) dead_letter \<Rightarrow> nat sqs_publish" where
  "ex_sqs_forward \<equiv> sqs_from_dead_letter ex_to_json ex_from_json"

definition ex_sqs_again :: "nat sqs_record \<Rightarrow> nat sqs_record" where
  "ex_sqs_again r = ex_sqs_record (qu_attributes (ex_sqs_forward (ex_letter r))) ''2''"

lemma ex_sqs_delivers: "sqs_delivers (ex_sqs_forward (ex_letter r)) (ex_sqs_again r)"
  if "qr_value r = 7"
  using that by (simp add: sqs_delivers_def ex_sqs_again_def ex_sqs_record_def sqs_from_dead_letter_def Let_def)

theorem sqs_dead_letter_origin_witness:
  "json_reads_back ex_to_json ex_from_json \<and>
   sqs_from_record ex_from_json (ex_sqs_again (ex_sqs_again (ex_sqs_record Map.empty ''1''))) =
     Inr (Some \<lparr>ca_details = details_again (ex_letter ()) 2,
                ca_origin = \<lparr>qo_queue_url = ''https://sqs/1/orders'', qo_message_id = ''1''\<rparr>\<rparr>)"
proof -
  let ?r0 = "ex_sqs_record Map.empty ''1''"
  have "sqs_delivers (ex_sqs_forward (ex_letter ?r0)) (ex_sqs_again ?r0)"
    by (rule ex_sqs_delivers) (simp add: ex_sqs_record_def)
  then have chain: "dead_lettered ex_sqs_forward sqs_delivers ?r0 (Suc 0) (ex_sqs_again ?r0)"
    by (intro dead_lettered.again [OF dead_lettered.received]) simp_all
  have first: "previous_of (sqs_from_record ex_from_json ?r0) = None"
    by (simp add: ex_sqs_record_def previous_of_def sqs_from_record_def)
  have "sqs_delivers (ex_sqs_forward (ex_letter (ex_sqs_again ?r0))) (ex_sqs_again (ex_sqs_again ?r0))"
    by (rule ex_sqs_delivers) (simp add: ex_sqs_again_def ex_sqs_record_def)
  from sqs_dead_letter_origin [OF ex_json chain first ex_letter_raw ex_letter_ok this]
  show ?thesis
    by (simp add: ex_json ex_sqs_record_def details_again_def ex_letter_def numeral_2_eq_2 sqs_first_def)
qed

end
