(* ===== verification/Kafka_Transaction.thy ===== *)
theory Kafka_Transaction
  imports Kafka_Progress "HOL-Library.Product_Lexorder" "HOL-Library.List_Lexorder" "HOL-Library.Char_ord"
begin

text \<open>
  Producer transactions of the Kafka sink, \<^verbatim>\<open>src/adapters/kafka/transaction.rs\<close>: the offsets a batch
  commits, the task that runs one transaction under the lock of the producer, the transaction gate
  it shares with the rebalance callbacks, retries of the commit, and recovery after a failure.

  The tasks of all callers, the source and the broker act in any order. The broker is a parameter:
  the results of the calls to it are inputs of the steps. What the code relies on is written into
  the steps: a record or an offset that was accepted is in the open transaction of the transactional
  ID; a commit that is reported successful has taken effect, and one that was asked for may take
  effect at any later moment, also when it was reported failed, until the transaction is aborted;
  aborting, and initializing another producer, end the open transaction. Beginning a transaction while another
  is open would join it, so that a transaction left open would show.
\<close>

section \<open>Offsets of a batch\<close>

record kafka_delivery =
  kd_consumer :: nat
  kd_generation :: u64
  kd_partition :: partition
  kd_offset :: int

record source_offsets =
  so_consumer :: nat
  so_deliveries :: "(u64 \<times> partition) list"
  so_next :: "(partition \<times> u64 \<times> int) list"

definition next_entry ::
  "partition \<Rightarrow> u64 \<times> int \<Rightarrow> (partition \<times> u64 \<times> int) list \<Rightarrow> (partition \<times> u64 \<times> int) list" where
  "next_entry k n m =
     (case map_of m k of None \<Rightarrow> om_or_insert k n m | Some c \<Rightarrow> om_set k (max c n) m)"

definition offsets_first :: "kafka_delivery \<Rightarrow> source_offsets" where
  "offsets_first d = \<lparr>so_consumer = kd_consumer d, so_deliveries = [], so_next = []\<rparr>"

definition offsets_add :: "kafka_delivery \<Rightarrow> source_offsets \<Rightarrow> source_offsets" where
  "offsets_add d so =
     so\<lparr>so_next := next_entry (kd_partition d) (kd_generation d, i64_wrap (kd_offset d + 1)) (so_next so),
        so_deliveries := so_deliveries so @ [(kd_generation d, kd_partition d)]\<rparr>"

text \<open>\<^verbatim>\<open>SourceOffsets::new\<close>, from what was collected so far.\<close>

fun source_offsets_from ::
  "source_offsets option \<Rightarrow> kafka_delivery list \<Rightarrow> source_offsets option outcome" where
  "source_offsets_from acc [] = Inr acc"
| "source_offsets_from acc (d # ds) =
     (let so = (case acc of None \<Rightarrow> offsets_first d | Some so \<Rightarrow> so)
      in if so_consumer so = kd_consumer d then source_offsets_from (Some (offsets_add d so)) ds
         else Inl (Crate (error_msg ''a Kafka transaction batch contains deliveries of different consumers'')))"

definition source_offsets_new :: "kafka_delivery list \<Rightarrow> source_offsets option outcome" where
  "source_offsets_new ds = source_offsets_from None ds"

text \<open>
  \<^verbatim>\<open>SourceOffsets::ensure_assigned\<close>; \<open>lost\<close> is what the consumer answers to \<^verbatim>\<open>assignment_lost\<close> and
  \<open>keys\<close> the order of the assigned partitions in their hash map.
\<close>

definition ensure_assigned ::
  "bool \<Rightarrow> partition list \<Rightarrow> source_offsets \<Rightarrow> kafka_progress \<Rightarrow> unit outcome \<times> kafka_progress" where
  "ensure_assigned lost keys so p =
     (if lost then (Inl (Crate (error_msg ''Kafka assignment was lost'')), kp_revoke_all keys p)
      else if list_all (\<lambda>(g, k). kp_is_current p g k) (so_deliveries so) then (Inr (), p)
      else (Inl (Crate (error_msg ''Kafka delivery belongs to a revoked assignment'')), p))"

text \<open>The positions recorded after a successful commit.\<close>

definition offsets_committed :: "source_offsets \<Rightarrow> kafka_progress \<Rightarrow> kafka_progress" where
  "offsets_committed so p = committed_all (map (\<lambda>(k, g, n). (g, k, n)) (so_next so)) p"

section \<open>Transactions\<close>

definition commit_attempts :: nat where
  "commit_attempts = 3"

text \<open>What a transaction error of the client library says of itself.\<close>

record txn_error =
  te_retriable :: bool
  te_fatal :: bool

text \<open>
  \<^verbatim>\<open>commit\<close> repeats a commit that failed with a retriable error; \<open>as_txn\<close> recognizes a transaction error
  of the client library.
\<close>

definition commit_again :: "(box_error \<Rightarrow> txn_error option) \<Rightarrow> nat \<Rightarrow> box_error \<Rightarrow> bool" where
  "commit_again as_txn attempt e \<longleftrightarrow>
     (case as_txn e of None \<Rightarrow> False | Some t \<Rightarrow> te_retriable t \<and> attempt < commit_attempts)"

text \<open>The test of \<^verbatim>\<open>recover\<close>: a producer that failed fatally cannot abort.\<close>

definition is_fatal :: "(box_error \<Rightarrow> txn_error option) \<Rightarrow> box_error \<Rightarrow> bool" where
  "is_fatal as_txn e =
     list_ex (\<lambda>c. case as_txn c of None \<Rightarrow> False | Some t \<Rightarrow> te_fatal t) (causes e)"

record 'p txn_call =
  ca_id :: nat
  ca_outputs :: "'p list"
  ca_offsets :: "source_offsets option"

text \<open>Where the task of a call is; the transaction gate is held from \<open>Offsets\<close> to the end of \<open>Committing\<close>.\<close>

datatype 'p txn_phase =
    Connecting
  | Ensuring
  | Beginning
  | Sending "'p list"
  | Offsets
  | Committing nat
  | Recovering box_error

text \<open>The open transaction at the broker, with the calls that began it.\<close>

record 'p txn =
  tn_calls :: "nat list"
  tn_outputs :: "'p list"
  tn_offsets :: "(partition \<times> u64 \<times> int) list option"

record 'p txn_sys =
  tx_kafka :: kafka_sys
  tx_closed :: bool
  tx_slot :: bool
  tx_calls :: "'p txn_call list"
  tx_waiting :: "'p txn_call list"
  tx_running :: "('p txn_call \<times> 'p txn_phase) option"
  tx_results :: "(nat \<times> unit outcome) list"
  tx_open :: "('p txn \<times> bool) option"
  tx_visible :: "'p txn list"

definition gate_held :: "'p txn_sys \<Rightarrow> bool" where
  "gate_held s \<longleftrightarrow>
     (case tx_running s of
        Some (c, Offsets) \<Rightarrow> True
      | Some (c, Committing _) \<Rightarrow> ca_offsets c \<noteq> None
      | _ \<Rightarrow> False)"

definition with_progress :: "kafka_progress \<Rightarrow> 'p txn_sys \<Rightarrow> 'p txn_sys" where
  "with_progress p s = s\<lparr>tx_kafka := (tx_kafka s)\<lparr>ks_progress := p\<rparr>\<rparr>"

definition advance :: "'p txn_call \<Rightarrow> 'p txn_phase \<Rightarrow> 'p txn_sys \<Rightarrow> 'p txn_sys" where
  "advance c ph s = s\<lparr>tx_running := Some (c, ph)\<rparr>"

definition finish_call :: "'p txn_call \<Rightarrow> unit outcome \<Rightarrow> 'p txn_sys \<Rightarrow> 'p txn_sys" where
  "finish_call c r s = s\<lparr>tx_running := None, tx_results := tx_results s @ [(ca_id c, r)]\<rparr>"

text \<open>\<^verbatim>\<open>TransactionalSink::commit\<close> up to its task, and \<^verbatim>\<open>Sink::publish\<close>, which has no offsets.\<close>

definition enlist_call :: "'p list \<Rightarrow> source_offsets option \<Rightarrow> 'p txn_sys \<Rightarrow> 'p txn_sys" where
  "enlist_call outputs offsets s =
     (let c = \<lparr>ca_id = length (tx_calls s), ca_outputs = outputs, ca_offsets = offsets\<rparr>
      in s\<lparr>tx_calls := tx_calls s @ [c], tx_waiting := tx_waiting s @ [c]\<rparr>)"

definition txn_commit :: "(kafka_delivery \<times> 'p list) list \<Rightarrow> 'p txn_sys \<Rightarrow> 'p txn_sys" where
  "txn_commit batch s =
     (case source_offsets_new (map fst batch) of
        Inl e \<Rightarrow> s
      | Inr offsets \<Rightarrow> enlist_call (concat (map snd batch)) offsets s)"

definition txn_publish :: "'p \<Rightarrow> 'p txn_sys \<Rightarrow> 'p txn_sys" where
  "txn_publish output s = enlist_call [output] None s"

text \<open>
  The start of the task of the waiting call \<open>i\<close>: it holds the lock of the producer until the call is
  finished. The tasks are spawned, so they may get to the lock in any order.
\<close>

definition take_lock :: "nat \<Rightarrow> 'p txn_sys \<Rightarrow> 'p txn_sys option" where
  "take_lock i s =
     (if tx_running s = None \<and> i < length (tx_waiting s) then
        let c = tx_waiting s ! i; s = s\<lparr>tx_waiting := remove_nth i (tx_waiting s)\<rparr> in
        Some (if tx_closed s then finish_call c (Inl (Crate (Closed ''Kafka sink is closed''))) s
              else if tx_slot s then advance c Ensuring s else advance c Connecting s)
      else None)"

text \<open>\<^verbatim>\<open>connect\<close>: initializing a producer aborts what an earlier one of the same ID left open.\<close>

definition connected :: "unit outcome \<Rightarrow> 'p txn_call \<Rightarrow> 'p txn_sys \<Rightarrow> 'p txn_sys" where
  "connected r c s =
     (case r of
        Inl e \<Rightarrow> finish_call c (Inl e) s
      | Inr _ \<Rightarrow> advance c Ensuring (s\<lparr>tx_slot := True, tx_open := None\<rparr>))"

definition ensured :: "bool \<Rightarrow> partition list \<Rightarrow> 'p txn_call \<Rightarrow> 'p txn_sys \<Rightarrow> 'p txn_sys" where
  "ensured lost keys c s =
     (case ca_offsets c of
        None \<Rightarrow> advance c Beginning s
      | Some so \<Rightarrow>
          (case ensure_assigned lost keys so (ks_progress (tx_kafka s)) of
             (Inl e, p) \<Rightarrow> finish_call c (Inl e) (with_progress p s)
           | (Inr _, p) \<Rightarrow> advance c Beginning (with_progress p s)))"

definition txn_begun :: "unit outcome \<Rightarrow> 'p txn_call \<Rightarrow> 'p txn_sys \<Rightarrow> 'p txn_sys" where
  "txn_begun r c s =
     (case r of
        Inl e \<Rightarrow> advance c (Recovering e) s
      | Inr _ \<Rightarrow>
          advance c (Sending (ca_outputs c))
            (s\<lparr>tx_open := Some (case tx_open s of
                 None \<Rightarrow> (\<lparr>tn_calls = [ca_id c], tn_outputs = [], tn_offsets = None\<rparr>, False)
               | Some (t, a) \<Rightarrow> (t\<lparr>tn_calls := tn_calls t @ [ca_id c]\<rparr>, a))\<rparr>))"

text \<open>One record; \<open>kept\<close> says whether a record whose delivery failed is in the transaction all the same.\<close>

definition add_output :: "'p \<Rightarrow> 'p txn_sys \<Rightarrow> 'p txn_sys" where
  "add_output x s =
     s\<lparr>tx_open := map_option (\<lambda>(t, a). (t\<lparr>tn_outputs := tn_outputs t @ [x]\<rparr>, a)) (tx_open s)\<rparr>"

definition sent :: "unit outcome \<Rightarrow> bool \<Rightarrow> 'p \<Rightarrow> 'p list \<Rightarrow> 'p txn_call \<Rightarrow> 'p txn_sys \<Rightarrow> 'p txn_sys" where
  "sent r kept x xs c s =
     (case r of
        Inl e \<Rightarrow> advance c (Recovering e) (if kept then add_output x s else s)
      | Inr _ \<Rightarrow> advance c (Sending xs) (add_output x s))"

text \<open>After the last record: without offsets the transaction commits, otherwise the gate is taken first.\<close>

definition gated :: "bool \<Rightarrow> partition list \<Rightarrow> 'p txn_call \<Rightarrow> 'p txn_sys \<Rightarrow> 'p txn_sys" where
  "gated lost keys c s =
     (case ca_offsets c of
        None \<Rightarrow> advance c (Committing 1) s
      | Some so \<Rightarrow>
          (case ensure_assigned lost keys so (ks_progress (tx_kafka s)) of
             (Inl e, p) \<Rightarrow> advance c (Recovering e) (with_progress p s)
           | (Inr _, p) \<Rightarrow> advance c Offsets (with_progress p s)))"

text \<open>
  The group metadata and \<^verbatim>\<open>send_offsets_to_transaction\<close>; \<open>metadata\<close> is whether the consumer has the former.
\<close>

definition offsets_sent ::
  "bool \<Rightarrow> unit outcome \<Rightarrow> bool \<Rightarrow> 'p txn_call \<Rightarrow> 'p txn_sys \<Rightarrow> 'p txn_sys" where
  "offsets_sent metadata r kept c s =
     (let add = (\<lambda>s. s\<lparr>tx_open := map_option (\<lambda>(t, a).
                  (t\<lparr>tn_offsets := map_option so_next (ca_offsets c)\<rparr>, a)) (tx_open s)\<rparr>)
      in if \<not> metadata
         then advance c (Recovering (Crate (error_msg ''Kafka consumer has no group metadata''))) s
         else case r of
                Inl e \<Rightarrow> advance c (Recovering e) (if kept then add s else s)
              | Inr _ \<Rightarrow> advance c (Committing 1) (add s))"

text \<open>A commit attempt is asked of the broker; it answers later, and may apply it before or after that.\<close>

definition ask_commit :: "'p txn_sys \<Rightarrow> 'p txn_sys" where
  "ask_commit s = s\<lparr>tx_open := map_option (\<lambda>(t, a). (t, True)) (tx_open s)\<rparr>"

definition commit_answered ::
  "(box_error \<Rightarrow> txn_error option) \<Rightarrow> unit outcome \<Rightarrow> nat \<Rightarrow> 'p txn_call \<Rightarrow> 'p txn_sys \<Rightarrow> 'p txn_sys" where
  "commit_answered as_txn r attempt c s =
     (case r of
        Inl e \<Rightarrow>
          if commit_again as_txn attempt e then advance c (Committing (attempt + 1)) s
          else advance c (Recovering e) s
      | Inr _ \<Rightarrow>
          finish_call c (Inr ())
            (case ca_offsets c of
               None \<Rightarrow> s
             | Some so \<Rightarrow> with_progress (offsets_committed so (ks_progress (tx_kafka s))) s))"

text \<open>
  \<^verbatim>\<open>recover\<close>: the transaction is aborted, or else the producer is dropped so that the next call
  makes another.
\<close>

definition recovered ::
  "(box_error \<Rightarrow> txn_error option) \<Rightarrow> unit outcome \<Rightarrow> box_error \<Rightarrow> 'p txn_call \<Rightarrow> 'p txn_sys \<Rightarrow> 'p txn_sys" where
  "recovered as_txn r e c s =
     finish_call c (Inl e)
       (if is_fatal as_txn e then s\<lparr>tx_slot := False\<rparr>
        else case r of
               Inr _ \<Rightarrow> s\<lparr>tx_open := None\<rparr>
             | Inl _ \<Rightarrow> s\<lparr>tx_slot := False\<rparr>)"

definition apply_commit :: "'p txn_sys \<Rightarrow> 'p txn_sys option" where
  "apply_commit s =
     (case tx_open s of
        Some (t, True) \<Rightarrow> Some (s\<lparr>tx_open := None, tx_visible := tx_visible s @ [t]\<rparr>)
      | _ \<Rightarrow> None)"

datatype 'p txn_event =
    TxCommitCall "(kafka_delivery \<times> 'p list) list"
  | TxPublishCall 'p
  | TxLock nat
  | TxConnected "unit outcome"
  | TxEnsured bool "partition list"
  | TxBegun "unit outcome"
  | TxSent "unit outcome" bool
  | TxGated bool "partition list"
  | TxOffsetsSent bool "unit outcome" bool
  | TxAsk
  | TxAnswered "unit outcome"
  | TxRecovered "unit outcome"
  | TxApply
  | TxAbortedAtBroker
  | TxClose
  | TxCloseTake
  | TxSource kafka_event

text \<open>
  A commit reported successful has been applied. Revoking partitions, also by closing the source,
  takes the transaction gate. The deliveries of a transactional subscription are settled by
  transactions only, so none is acknowledged on its own.
\<close>

fun txn_step ::
  "(box_error \<Rightarrow> txn_error option) \<Rightarrow> 'p txn_sys \<Rightarrow> 'p txn_event \<Rightarrow> 'p txn_sys option" where
  "txn_step as_txn s (TxCommitCall batch) = Some (txn_commit batch s)"
| "txn_step as_txn s (TxPublishCall output) = Some (txn_publish output s)"
| "txn_step as_txn s (TxLock i) = take_lock i s"
| "txn_step as_txn s (TxConnected r) =
     (case tx_running s of Some (c, Connecting) \<Rightarrow> Some (connected r c s) | _ \<Rightarrow> None)"
| "txn_step as_txn s (TxEnsured lost keys) =
     (case tx_running s of Some (c, Ensuring) \<Rightarrow> Some (ensured lost keys c s) | _ \<Rightarrow> None)"
| "txn_step as_txn s (TxBegun r) =
     (case tx_running s of Some (c, Beginning) \<Rightarrow> Some (txn_begun r c s) | _ \<Rightarrow> None)"
| "txn_step as_txn s (TxSent r kept) =
     (case tx_running s of Some (c, Sending (x # xs)) \<Rightarrow> Some (sent r kept x xs c s) | _ \<Rightarrow> None)"
| "txn_step as_txn s (TxGated lost keys) =
     (case tx_running s of Some (c, Sending []) \<Rightarrow> Some (gated lost keys c s) | _ \<Rightarrow> None)"
| "txn_step as_txn s (TxOffsetsSent metadata r kept) =
     (case tx_running s of Some (c, Offsets) \<Rightarrow> Some (offsets_sent metadata r kept c s) | _ \<Rightarrow> None)"
| "txn_step as_txn s TxAsk =
     (case tx_running s of Some (c, Committing n) \<Rightarrow> Some (ask_commit s) | _ \<Rightarrow> None)"
| "txn_step as_txn s (TxAnswered r) =
     (case tx_running s of
        Some (c, Committing n) \<Rightarrow>
          if r = Inr () \<and> tx_open s \<noteq> None then None else Some (commit_answered as_txn r n c s)
      | _ \<Rightarrow> None)"
| "txn_step as_txn s (TxRecovered r) =
     (case tx_running s of
        Some (c, Recovering e) \<Rightarrow> Some (recovered as_txn r e c s) | _ \<Rightarrow> None)"
| "txn_step as_txn s TxApply = apply_commit s"
| "txn_step as_txn s TxAbortedAtBroker =
     (case tx_running s of
        Some (c, Recovering e) \<Rightarrow> Some (s\<lparr>tx_open := None\<rparr>) | _ \<Rightarrow> None)"
| "txn_step as_txn s TxClose = Some (s\<lparr>tx_closed := True\<rparr>)"
| "txn_step as_txn s TxCloseTake =
     (if tx_closed s \<and> tx_running s = None then Some (s\<lparr>tx_slot := False\<rparr>) else None)"
| "txn_step as_txn s (TxSource e) =
     (case e of
        KAck g k off \<Rightarrow> None
      | KRevoke ks \<Rightarrow>
          if gate_held s then None else map_option (\<lambda>k. s\<lparr>tx_kafka := k\<rparr>) (kafka_step (tx_kafka s) e)
      | _ \<Rightarrow> map_option (\<lambda>k. s\<lparr>tx_kafka := k\<rparr>) (kafka_step (tx_kafka s) e))"

definition txn_new :: "'p txn_sys" where
  "txn_new =
     \<lparr>tx_kafka = kafka_new, tx_closed = False, tx_slot = False, tx_calls = [], tx_waiting = [],
      tx_running = None, tx_results = [], tx_open = None, tx_visible = []\<rparr>"

definition txn_init :: "'p txn_sys \<Rightarrow> bool" where
  "txn_init s \<longleftrightarrow> s = txn_new"

abbreviation txn_reach :: "(box_error \<Rightarrow> txn_error option) \<Rightarrow> 'p txn_sys \<Rightarrow> bool" where
  "txn_reach as_txn \<equiv> reach txn_init (txn_step as_txn)"

section \<open>The offsets are the last positions of the batch\<close>

lemma next_entry_lookup:
  assumes "om_ok m"
  shows "om_ok (next_entry k n m)"
    "map_of (next_entry k n m) =
       (map_of m)(k \<mapsto> (case map_of m k of None \<Rightarrow> n | Some c \<Rightarrow> max c n))"
  using assms by (auto simp: next_entry_def om_lookups split: option.splits)

text \<open>What was collected of a list of deliveries: each of them, and the greatest position per partition.\<close>

definition position_of :: "kafka_delivery \<Rightarrow> u64 \<times> int" where
  "position_of d = (kd_generation d, i64_wrap (kd_offset d + 1))"

definition offsets_of :: "kafka_delivery list \<Rightarrow> source_offsets \<Rightarrow> bool" where
  "offsets_of ds so \<longleftrightarrow>
     om_ok (so_next so)
     \<and> so_deliveries so = map (\<lambda>d. (kd_generation d, kd_partition d)) ds
     \<and> (\<forall>k c. map_of (so_next so) k = Some c \<longrightarrow> (\<exists>d\<in>set ds. kd_partition d = k \<and> position_of d = c))
     \<and> (\<forall>d\<in>set ds. \<exists>c. map_of (so_next so) (kd_partition d) = Some c \<and> position_of d \<le> c)
     \<and> (\<forall>d\<in>set ds. kd_consumer d = so_consumer so)"

lemma offsets_of_add:
  assumes "offsets_of ds so" "so_consumer so = kd_consumer d"
  shows "offsets_of (ds @ [d]) (offsets_add d so)"
proof -
  have ok: "om_ok (so_next so)" using assms(1) by (simp add: offsets_of_def)
  note L = next_entry_lookup [OF ok, of "kd_partition d" "position_of d"]
  have add: "so_next (offsets_add d so) = next_entry (kd_partition d) (position_of d) (so_next so)"
    by (simp add: offsets_add_def position_of_def)
  have old: "\<exists>x\<in>set ds. kd_partition x = k \<and> position_of x = c" if "map_of (so_next so) k = Some c" for k c
    using assms(1) that unfolding offsets_of_def by blast
  have from_batch: "\<exists>x\<in>set (ds @ [d]). kd_partition x = k \<and> position_of x = c"
    if "map_of (so_next (offsets_add d so)) k = Some c" for k c
  proof (cases "k = kd_partition d")
    case True
    with that have "c = (case map_of (so_next so) k of None \<Rightarrow> position_of d | Some b \<Rightarrow> max b (position_of d))"
      by (simp add: add L(2))
    then have "c = position_of d \<or> map_of (so_next so) k = Some c"
      by (auto split: option.splits simp: max_def)
    with True old [of k c] show ?thesis by auto
  next
    case False
    with that old [of k c] show ?thesis by (auto simp: add L(2))
  qed
  have reaches: "\<exists>c. map_of (so_next (offsets_add d so)) (kd_partition x) = Some c \<and> position_of x \<le> c"
    if "x \<in> set (ds @ [d])" for x
  proof (cases "x \<in> set ds")
    case True
    then obtain c where "map_of (so_next so) (kd_partition x) = Some c" "position_of x \<le> c"
      using assms(1) by (auto simp: offsets_of_def)
    then have "map_of (so_next (offsets_add d so)) (kd_partition x)
        = Some (if kd_partition x = kd_partition d then max c (position_of d) else c)"
      "position_of x \<le> (if kd_partition x = kd_partition d then max c (position_of d) else c)"
      by (auto simp: add L(2) le_max_iff_disj)
    then show ?thesis by blast
  next
    case False
    with that show ?thesis by (auto simp: add L(2) split: option.splits)
  qed
  show ?thesis
    using assms L(1) from_batch reaches unfolding offsets_of_def
    by (auto simp: add) (auto simp: offsets_add_def)
qed

lemma source_offsets_from_of:
  "source_offsets_from acc ds = Inr r \<Longrightarrow>
   (case acc of None \<Rightarrow> es = [] | Some so \<Rightarrow> offsets_of es so) \<Longrightarrow>
   (case r of None \<Rightarrow> es @ ds = [] | Some so \<Rightarrow> offsets_of (es @ ds) so)"
proof (induction acc ds arbitrary: es rule: source_offsets_from.induct)
  case (1 acc)
  then show ?case by (auto split: option.splits)
next
  case (2 acc d ds)
  let ?so = "case acc of None \<Rightarrow> offsets_first d | Some so \<Rightarrow> so"
  have so: "offsets_of es ?so"
    using "2.prems"(2) by (auto simp: offsets_first_def offsets_of_def om_ok_def split: option.splits)
  have same: "so_consumer ?so = kd_consumer d"
    and rest: "source_offsets_from (Some (offsets_add d ?so)) ds = Inr r"
    using "2.prems"(1) by (auto simp: Let_def split: if_splits)
  from "2.IH" [OF refl same rest, of "es @ [d]"] offsets_of_add [OF so same] show ?case
    by (simp split: option.splits)
qed

lemma source_offsets_newD: "source_offsets_new ds = Inr (Some so) \<Longrightarrow> offsets_of ds so"
  using source_offsets_from_of [of None ds "Some so" "[]"] by (simp add: source_offsets_new_def)

section \<open>Transactions are exact\<close>

text \<open>A transaction of one call: its outputs in order and its offsets, nothing of another call.\<close>

definition exact_txn :: "'p txn_call \<Rightarrow> 'p txn \<Rightarrow> bool" where
  "exact_txn c t \<longleftrightarrow>
     tn_calls t = [ca_id c] \<and> tn_outputs t = ca_outputs c \<and> tn_offsets t = map_option so_next (ca_offsets c)"

definition visible_calls :: "'p txn_sys \<Rightarrow> nat list" where
  "visible_calls s = concat (map tn_calls (tx_visible s))"

text \<open>Calls of which nothing can be visible yet.\<close>

fun early :: "'p txn_phase \<Rightarrow> bool" where
  "early (Committing n) = False"
| "early (Recovering e) = False"
| "early _ = True"

definition unseen :: "'p txn_sys \<Rightarrow> nat list" where
  "unseen s =
     (case tx_running s of Some (c, ph) \<Rightarrow> if early ph then [ca_id c] else [] | None \<Rightarrow> [])
     @ map ca_id (tx_waiting s)"

definition pending_calls :: "'p txn_sys \<Rightarrow> nat list" where
  "pending_calls s =
     (case tx_running s of Some (c, ph) \<Rightarrow> [ca_id c] | None \<Rightarrow> []) @ map ca_id (tx_waiting s)"

definition partial_txn :: "'p txn_call \<Rightarrow> 'p list \<Rightarrow> ('p txn \<times> bool) option \<Rightarrow> bool" where
  "partial_txn c xs opened \<longleftrightarrow>
     (\<exists>t. opened = Some (t, False) \<and> tn_calls t = [ca_id c] \<and> tn_outputs t @ xs = ca_outputs c
        \<and> tn_offsets t = None)"

fun phase_ok :: "'p txn_sys \<Rightarrow> 'p txn_call \<Rightarrow> 'p txn_phase \<Rightarrow> bool" where
  "phase_ok s c Connecting = (\<not> tx_slot s)"
| "phase_ok s c Ensuring = (tx_slot s \<and> tx_open s = None)"
| "phase_ok s c Beginning = (tx_slot s \<and> tx_open s = None)"
| "phase_ok s c (Sending xs) = (tx_slot s \<and> partial_txn c xs (tx_open s))"
| "phase_ok s c Offsets = (tx_slot s \<and> partial_txn c [] (tx_open s))"
| "phase_ok s c (Committing n) =
     (tx_slot s \<and> 1 \<le> n \<and> n \<le> commit_attempts \<and>
      (case tx_open s of None \<Rightarrow> ca_id c \<in> set (visible_calls s) | Some (t, a) \<Rightarrow> exact_txn c t))"
| "phase_ok s c (Recovering e) = tx_slot s"

definition txn_inv :: "'p txn_sys \<Rightarrow> bool" where
  "txn_inv s \<longleftrightarrow>
     (case tx_running s of
        None \<Rightarrow> tx_slot s \<longrightarrow> tx_open s = None
      | Some (c, ph) \<Rightarrow> phase_ok s c ph \<and> c \<in> set (tx_calls s))
     \<and> set (tx_waiting s) \<subseteq> set (tx_calls s)
     \<and> (\<forall>c\<in>set (tx_calls s). ca_id c < length (tx_calls s))
     \<and> distinct (pending_calls s) \<and> set (unseen s) \<inter> set (visible_calls s) = {}
     \<and> distinct (visible_calls s)
     \<and> (\<forall>t\<in>set (tx_visible s). \<exists>c\<in>set (tx_calls s). exact_txn c t)
     \<and> (\<forall>t a. tx_open s = Some (t, a) \<longrightarrow>
          (\<forall>i\<in>set (tn_calls t). i < length (tx_calls s) \<and> i \<notin> set (visible_calls s)
             \<and> (a \<longrightarrow> i \<notin> set (unseen s)))
          \<and> (a \<longrightarrow> (\<exists>c\<in>set (tx_calls s). exact_txn c t)))
     \<and> (\<forall>i. (i, Inr ()) \<in> set (tx_results s) \<longrightarrow> i \<in> set (visible_calls s))"

lemma txn_inv_init: "txn_init s \<Longrightarrow> txn_inv s"
  by (simp add: txn_init_def txn_new_def txn_inv_def unseen_def visible_calls_def pending_calls_def)

text \<open>Steps that leave the fields of the invariant alone.\<close>

lemma with_progress_frame [simp]:
  "tx_calls (with_progress p s) = tx_calls s" "tx_waiting (with_progress p s) = tx_waiting s"
  "tx_running (with_progress p s) = tx_running s" "tx_results (with_progress p s) = tx_results s"
  "tx_open (with_progress p s) = tx_open s" "tx_visible (with_progress p s) = tx_visible s"
  "tx_slot (with_progress p s) = tx_slot s" "tx_closed (with_progress p s) = tx_closed s"
  by (simp_all add: with_progress_def)

lemma visible_calls_frame: "tx_visible s' = tx_visible s \<Longrightarrow> visible_calls s' = visible_calls s"
  by (simp add: visible_calls_def)

lemma phase_ok_frame:
  "tx_slot s' = tx_slot s \<Longrightarrow> tx_open s' = tx_open s \<Longrightarrow> tx_visible s' = tx_visible s \<Longrightarrow>
   phase_ok s' c ph = phase_ok s c ph"
  by (cases ph) (simp_all add: visible_calls_def split: option.split)

lemma txn_inv_frame:
  assumes "txn_inv s" "tx_calls s' = tx_calls s" "tx_waiting s' = tx_waiting s"
    "tx_running s' = tx_running s" "tx_results s' = tx_results s" "tx_open s' = tx_open s"
    "tx_visible s' = tx_visible s" "tx_slot s' = tx_slot s"
  shows "txn_inv s'"
proof -
  have "unseen s' = unseen s" "pending_calls s' = pending_calls s" "visible_calls s' = visible_calls s"
    using assms by (simp_all add: unseen_def visible_calls_def pending_calls_def)
  then show ?thesis
    using assms phase_ok_frame [of s' s] unfolding txn_inv_def
    by (simp split: option.splits prod.splits)
qed

lemma txn_inv_progress [simp]: "txn_inv (with_progress p s) = txn_inv s"
  using txn_inv_frame [of s "with_progress p s"] txn_inv_frame [of "with_progress p s" s] by auto

text \<open>A call moves on: to a txn_phase it is ready for, or to its end.\<close>

lemma txn_inv_advance:
  assumes inv: "txn_inv s" and run: "tx_running s = Some (c, ph)"
    and ok: "phase_ok (s\<lparr>tx_running := r\<rparr>) c ph'" and early: "early ph' \<longrightarrow> early ph"
  shows "txn_inv (advance c ph' s)"
proof -
  let ?s = "advance c ph' s"
  have un: "set (unseen ?s) \<subseteq> set (unseen s)" "pending_calls ?s = pending_calls s"
    using early run by (auto simp: unseen_def pending_calls_def advance_def split: if_splits)
  have "phase_ok ?s c ph'" using ok phase_ok_frame [of ?s "s\<lparr>tx_running := r\<rparr>" c ph'] by (simp add: advance_def)
  moreover have "visible_calls ?s = visible_calls s" by (simp add: visible_calls_def advance_def)
  ultimately show ?thesis
    using inv un run unfolding txn_inv_def by (fastforce simp: advance_def)
qed

lemma txn_inv_finish:
  assumes inv: "txn_inv s" and run: "tx_running s = Some (c, ph)"
    and idle: "tx_slot s \<Longrightarrow> tx_open s = None" and seen: "r = Inr () \<Longrightarrow> ca_id c \<in> set (visible_calls s)"
  shows "txn_inv (finish_call c r s)"
proof -
  let ?s = "finish_call c r s"
  have un: "set (unseen ?s) \<subseteq> set (unseen s)" "distinct (pending_calls ?s)"
    using inv run by (auto simp: txn_inv_def unseen_def pending_calls_def finish_call_def split: if_splits)
  have "visible_calls ?s = visible_calls s" by (simp add: visible_calls_def finish_call_def)
  with inv un run idle seen show ?thesis unfolding txn_inv_def by (fastforce simp: finish_call_def)
qed

lemma txn_inv_ids:
  assumes "txn_inv s"
  shows "i \<in> set (pending_calls s) \<Longrightarrow> i < length (tx_calls s)"
    "i \<in> set (visible_calls s) \<Longrightarrow> i < length (tx_calls s)"
proof -
  have ids: "ca_id c < length (tx_calls s)" if "c \<in> set (tx_calls s)" for c
    using assms that by (simp add: txn_inv_def)
  have waiting: "set (tx_waiting s) \<subseteq> set (tx_calls s)"
    and running: "\<And>c ph. tx_running s = Some (c, ph) \<Longrightarrow> c \<in> set (tx_calls s)"
    and seen: "\<And>t. t \<in> set (tx_visible s) \<Longrightarrow> \<exists>c\<in>set (tx_calls s). exact_txn c t"
    using assms by (auto simp: txn_inv_def)
  show "i \<in> set (pending_calls s) \<Longrightarrow> i < length (tx_calls s)"
    using ids waiting running by (cases "tx_running s") (auto simp: pending_calls_def)
  show "i \<in> set (visible_calls s) \<Longrightarrow> i < length (tx_calls s)"
    using ids seen by (fastforce simp: visible_calls_def exact_txn_def)
qed

lemma txn_inv_enlist:
  assumes inv: "txn_inv s"
  shows "txn_inv (enlist_call xs so s)"
proof -
  let ?s = "enlist_call xs so s" and ?n = "length (tx_calls s)"
  note fresh = txn_inv_ids [OF inv]
  have s: "tx_open ?s = tx_open s" "tx_visible ?s = tx_visible s" "tx_slot ?s = tx_slot s"
    "tx_running ?s = tx_running s" "tx_results ?s = tx_results s"
    "set (tx_calls s) \<subseteq> set (tx_calls ?s)" "length (tx_calls ?s) = Suc ?n"
    "\<And>c. c \<in> set (tx_calls ?s) \<Longrightarrow> ca_id c \<noteq> ?n \<Longrightarrow> c \<in> set (tx_calls s)"
    by (auto simp: enlist_call_def Let_def)
  have un: "unseen ?s = unseen s @ [?n]" "pending_calls ?s = pending_calls s @ [?n]"
    by (simp_all add: unseen_def pending_calls_def enlist_call_def Let_def)
  have vis: "visible_calls ?s = visible_calls s" by (simp add: visible_calls_def enlist_call_def Let_def)
  have "distinct (pending_calls ?s)" "set (unseen ?s) \<inter> set (visible_calls s) = {}"
    using inv fresh(1) [of ?n] fresh(2) [of ?n] unfolding un by (auto simp: txn_inv_def)
  moreover have "set (tx_waiting ?s) \<subseteq> set (tx_calls ?s)"
    using inv by (auto simp: enlist_call_def Let_def txn_inv_def)
  moreover have "case tx_running ?s of None \<Rightarrow> tx_slot ?s \<longrightarrow> tx_open ?s = None
      | Some (c, ph) \<Rightarrow> phase_ok ?s c ph \<and> c \<in> set (tx_calls ?s)"
    using inv subsetD [OF s(6)] phase_ok_frame [of ?s s] by (auto simp: s(1-5) txn_inv_def split: option.splits)
  moreover have "ca_id c < Suc ?n" if "c \<in> set (tx_calls ?s)" for c
    using inv s(8) [OF that] unfolding txn_inv_def by fastforce
  moreover have "\<exists>c\<in>set (tx_calls ?s). exact_txn c t" if "t \<in> set (tx_visible s)" for t
    using inv s(6) that unfolding txn_inv_def by blast
  moreover have "(\<forall>i\<in>set (tn_calls t). i < Suc ?n \<and> i \<notin> set (visible_calls s) \<and> (a \<longrightarrow> i \<notin> set (unseen ?s)))
      \<and> (a \<longrightarrow> (\<exists>c\<in>set (tx_calls ?s). exact_txn c t))" if "tx_open s = Some (t, a)" for t a
    using inv s(6) that unfolding txn_inv_def un by fastforce
  ultimately show ?thesis using inv unfolding txn_inv_def vis s(1,2,5,7) by blast
qed

text \<open>The broker: a commit that was asked for is applied, and an open transaction may be dropped.\<close>

lemma txn_inv_open_None:
  assumes "txn_inv s" "tx_running s = Some (c, ph)" "\<not> early ph \<Longrightarrow> \<exists>e. ph = Recovering e"
    "early ph \<Longrightarrow> ph = Connecting"
  shows "txn_inv (s\<lparr>tx_open := None\<rparr>)"
proof -
  have "unseen (s\<lparr>tx_open := None\<rparr>) = unseen s" "visible_calls (s\<lparr>tx_open := None\<rparr>) = visible_calls s"
    "pending_calls (s\<lparr>tx_open := None\<rparr>) = pending_calls s"
    by (simp_all add: unseen_def visible_calls_def pending_calls_def)
  moreover have "phase_ok (s\<lparr>tx_open := None\<rparr>) c ph"
    using assms by (cases "early ph") (auto simp: txn_inv_def)
  ultimately show ?thesis using assms(1,2) unfolding txn_inv_def by simp
qed

lemma phase_ok_apply:
  assumes "phase_ok s c ph" "tx_open s = Some (t, True)" "visible_calls s' = visible_calls s @ tn_calls t"
    "tx_open s' = None" "tx_slot s' = tx_slot s"
  shows "phase_ok s' c ph"
  using assms by (cases ph) (auto simp: partial_txn_def exact_txn_def)

lemma txn_inv_apply:
  assumes inv: "txn_inv s" and ap: "apply_commit s = Some s'"
  shows "txn_inv s'"
proof -
  from ap obtain t where t: "tx_open s = Some (t, True)"
    and s': "s' = s\<lparr>tx_open := None, tx_visible := tx_visible s @ [t]\<rparr>"
    by (auto simp: apply_commit_def split: option.splits prod.splits bool.splits)
  have vis: "visible_calls s' = visible_calls s @ tn_calls t" and un: "unseen s' = unseen s"
    "pending_calls s' = pending_calls s"
    by (simp_all add: s' visible_calls_def unseen_def pending_calls_def)
  obtain c where c: "c \<in> set (tx_calls s)" "exact_txn c t"
    using inv t by (auto simp: txn_inv_def)
  have new: "i \<notin> set (visible_calls s)" "i \<notin> set (unseen s)" if "i \<in> set (tn_calls t)" for i
    using inv t that unfolding txn_inv_def by blast+
  have run: "case tx_running s of None \<Rightarrow> True | Some (c, ph) \<Rightarrow> phase_ok s' c ph \<and> c \<in> set (tx_calls s)"
    using inv phase_ok_apply [OF _ t vis] by (auto simp: s' txn_inv_def split: option.splits)
  have "distinct (tn_calls t)" using c(2) by (simp add: exact_txn_def)
  then show ?thesis
    using inv new c run unfolding txn_inv_def vis un
    by (auto simp: s' split: option.splits)
qed

text \<open>The open transaction changes while its call is being served.\<close>

lemma txn_inv_transact:
  assumes inv: "txn_inv s" and run: "tx_running s = Some (c, ph)" and calls: "tn_calls t = [ca_id c]"
    and asked: "a \<Longrightarrow> exact_txn c t" and unseen: "ca_id c \<notin> set (visible_calls s)"
    and ok: "phase_ok (s\<lparr>tx_open := Some (t, a)\<rparr>) c ph'" and early: "early ph' \<Longrightarrow> early ph \<and> \<not> a"
  shows "txn_inv (advance c ph' (s\<lparr>tx_open := Some (t, a)\<rparr>))"
proof -
  let ?s = "advance c ph' (s\<lparr>tx_open := Some (t, a)\<rparr>)"
  have un: "set (unseen ?s) \<subseteq> set (unseen s)" "pending_calls ?s = pending_calls s"
    using early run by (auto simp: unseen_def pending_calls_def advance_def split: if_splits)
  have ph': "phase_ok ?s c ph'"
    using ok phase_ok_frame [of ?s "s\<lparr>tx_open := Some (t, a)\<rparr>" c ph'] by (simp add: advance_def)
  have vis: "visible_calls ?s = visible_calls s" by (simp add: visible_calls_def advance_def)
  have mem: "c \<in> set (tx_calls s)" "ca_id c < length (tx_calls s)" "ca_id c \<notin> ca_id ` set (tx_waiting s)"
    using inv run by (auto simp: txn_inv_def pending_calls_def)
  have "a \<longrightarrow> ca_id c \<notin> set (unseen ?s)"
    using mem(3) early by (auto simp: unseen_def advance_def split: if_splits)
  with inv un run ph' vis mem calls unseen asked show ?thesis unfolding txn_inv_def
    by (auto simp: advance_def)
qed

section \<open>Every step keeps transactions exact\<close>

lemma txn_inv_take_lock:
  assumes inv: "txn_inv s" and st: "take_lock i s = Some s'"
  shows "txn_inv s'"
proof -
  have idle: "tx_running s = None" and i: "i < length (tx_waiting s)"
    using st by (auto simp: take_lock_def split: if_splits)
  define c cs where "c = tx_waiting s ! i" and "cs = remove_nth i (tx_waiting s)"
  note taken = remove_nth_taken [OF i, folded c_def cs_def]
  define r where "r = (if tx_slot s then Ensuring else Connecting :: 'a txn_phase)"
  let ?s = "advance c r (s\<lparr>tx_waiting := cs\<rparr>)"
  have un: "set (unseen ?s) = set (unseen s)" "visible_calls ?s = visible_calls s"
    using taken(1) by (auto simp: r_def unseen_def visible_calls_def advance_def idle)
  have pending: "distinct (pending_calls ?s)"
    using inv taken(2) [of ca_id] by (simp add: txn_inv_def pending_calls_def advance_def idle)
  have "phase_ok ?s c r" using inv by (simp add: r_def txn_inv_def idle advance_def)
  then have started: "txn_inv ?s"
    using inv taken(1) idle pending unfolding txn_inv_def un by (auto simp: advance_def)
  show ?thesis
  proof (cases "tx_closed s")
    case True
    have "tx_slot ?s \<Longrightarrow> tx_open ?s = None" using inv idle by (simp add: txn_inv_def advance_def)
    from txn_inv_finish [OF started, of c r, OF _ this] st True idle i show ?thesis
      by (auto simp: take_lock_def advance_def finish_call_def c_def cs_def Let_def)
  next
    case False
    with st started idle i show ?thesis
      by (auto simp: take_lock_def r_def c_def cs_def Let_def split: if_splits)
  qed
qed

text \<open>A call gets a producer; a call drops it.\<close>

lemma txn_inv_connect:
  assumes inv: "txn_inv s" and run: "tx_running s = Some (c, Connecting)"
  shows "txn_inv (advance c Ensuring (s\<lparr>tx_slot := True, tx_open := None\<rparr>))"
proof -
  let ?s = "advance c Ensuring (s\<lparr>tx_slot := True, tx_open := None\<rparr>)"
  have "unseen ?s = unseen s" "pending_calls ?s = pending_calls s" "visible_calls ?s = visible_calls s"
    by (simp_all add: unseen_def pending_calls_def visible_calls_def advance_def run)
  then show ?thesis using inv run unfolding txn_inv_def by (simp add: advance_def)
qed

lemma txn_inv_drop:
  assumes inv: "txn_inv s" and run: "tx_running s = Some (c, ph)" and ph: "ph = Recovering e"
  shows "txn_inv (finish_call c (Inl e) (s\<lparr>tx_slot := False\<rparr>))"
proof -
  let ?s = "finish_call c (Inl e) (s\<lparr>tx_slot := False\<rparr>)"
  have "unseen ?s = unseen s" "visible_calls ?s = visible_calls s" "distinct (pending_calls ?s)"
    using inv run ph by (auto simp: unseen_def pending_calls_def visible_calls_def finish_call_def txn_inv_def)
  then show ?thesis using inv run unfolding txn_inv_def by (simp add: finish_call_def)
qed

lemma txn_inv_close_take:
  assumes inv: "txn_inv s" and idle: "tx_running s = None"
  shows "txn_inv (s\<lparr>tx_slot := False\<rparr>)"
proof -
  let ?s = "s\<lparr>tx_slot := False\<rparr>"
  have "unseen ?s = unseen s" "visible_calls ?s = visible_calls s" "pending_calls ?s = pending_calls s"
    by (auto simp: unseen_def pending_calls_def visible_calls_def)
  then show ?thesis using inv idle unfolding txn_inv_def by simp
qed

lemma txn_inv_ask:
  assumes inv: "txn_inv s" and run: "tx_running s = Some (c, Committing n)"
  shows "txn_inv (ask_commit s)"
proof (cases "tx_open s")
  case None
  with inv show ?thesis by (auto simp: ask_commit_def intro: txn_inv_frame)
next
  case (Some ta)
  obtain t a where t: "tx_open s = Some (t, a)" using Some by (cases ta) auto
  have ph: "phase_ok s c (Committing n)" using inv run by (simp add: txn_inv_def)
  then have ex: "exact_txn c t" by (simp add: t)
  have "ca_id c \<notin> set (visible_calls s)"
    using inv t ex unfolding txn_inv_def by (simp add: exact_txn_def)
  with ex ph have "txn_inv (advance c (Committing n) (s\<lparr>tx_open := Some (t, True)\<rparr>))"
    by (intro txn_inv_transact [OF inv run]) (auto simp: exact_txn_def)
  then show ?thesis by (rule txn_inv_frame) (simp_all add: ask_commit_def t advance_def run)
qed

lemma txn_inv_answered:
  assumes inv: "txn_inv s" and run: "tx_running s = Some (c, Committing n)"
    and applied: "r = Inr () \<Longrightarrow> tx_open s = None"
  shows "txn_inv (commit_answered as_txn r n c s)"
proof -
  have ph: "phase_ok s c (Committing n)" using inv run by (simp add: txn_inv_def)
  show ?thesis
  proof (cases r)
    case (Inl e)
    have "txn_inv (advance c (Recovering e) s)" using ph by (intro txn_inv_advance [OF inv run]) auto
    moreover have "txn_inv (advance c (Committing (n + 1)) s)" if "n < commit_attempts"
      using ph that phase_ok_frame [of "s\<lparr>tx_running := r\<rparr>" s c "Committing n" for r]
      by (intro txn_inv_advance [OF inv run, of None]) auto
    ultimately show ?thesis
      by (auto simp: commit_answered_def Inl commit_again_def split: option.splits)
  next
    case (Inr u)
    with applied have none: "tx_open s = None" by simp
    with ph have "ca_id c \<in> set (visible_calls s)" by simp
    with none inv run show ?thesis
      by (auto simp: commit_answered_def Inr visible_calls_def split: option.splits intro!: txn_inv_finish)
  qed
qed

lemma txn_inv_recovered:
  assumes inv: "txn_inv s" and run: "tx_running s = Some (c, Recovering e)"
  shows "txn_inv (recovered as_txn r e c s)"
proof -
  have "txn_inv (s\<lparr>tx_open := None\<rparr>)" by (rule txn_inv_open_None [OF inv run]) auto
  with run have "txn_inv (finish_call c (Inl e) (s\<lparr>tx_open := None\<rparr>))" by (auto intro: txn_inv_finish)
  with txn_inv_drop [OF inv run refl] show ?thesis by (auto simp: recovered_def split: sum.splits)
qed

lemma run_unseen:
  assumes "txn_inv s" "tx_running s = Some (c, ph)" "early ph"
  shows "ca_id c \<notin> set (visible_calls s)"
  using assms by (auto simp: txn_inv_def unseen_def)

lemma run_phase:
  assumes "txn_inv s" "tx_running s = Some (c, ph)"
  shows "phase_ok s c ph"
  using assms by (simp add: txn_inv_def)

lemma txn_inv_sent:
  assumes inv: "txn_inv s" and run: "tx_running s = Some (c, Sending (x # xs))"
  shows "txn_inv (sent r kept x xs c s)"
proof -
  obtain t where t: "tx_open s = Some (t, False)" "tn_calls t = [ca_id c]"
      "tn_outputs t @ x # xs = ca_outputs c" "tn_offsets t = None" and slot: "tx_slot s"
    using run_phase [OF inv run] by (auto simp: partial_txn_def)
  have add: "add_output x s = s\<lparr>tx_open := Some (t\<lparr>tn_outputs := tn_outputs t @ [x]\<rparr>, False)\<rparr>"
    by (simp add: add_output_def t(1))
  note step = txn_inv_transact [OF inv run, of "t\<lparr>tn_outputs := tn_outputs t @ [x]\<rparr>" False]
  show ?thesis
  proof (cases r)
    case (Inl e)
    show ?thesis
      using t slot step [of "Recovering e"] run_unseen [OF inv run]
        txn_inv_advance [OF inv run, of "tx_running s" "Recovering e"]
      by (auto simp: sent_def Inl add)
  next
    case (Inr u)
    show ?thesis
      using t slot step [of "Sending xs"] run_unseen [OF inv run]
      by (auto simp: sent_def Inr add partial_txn_def)
  qed
qed

lemma txn_inv_offsets_sent:
  assumes inv: "txn_inv s" and run: "tx_running s = Some (c, Offsets)"
  shows "txn_inv (offsets_sent metadata r kept c s)"
proof -
  obtain t where t: "tx_open s = Some (t, False)" "tn_calls t = [ca_id c]"
      "tn_outputs t = ca_outputs c" "tn_offsets t = None" and slot: "tx_slot s"
    using run_phase [OF inv run] by (auto simp: partial_txn_def)
  let ?t = "t\<lparr>tn_offsets := map_option so_next (ca_offsets c)\<rparr>"
  note step = txn_inv_transact [OF inv run, of ?t False]
    and adv = txn_inv_advance [OF inv run, of "tx_running s"]
  have "txn_inv (advance c (Recovering e) s)" "txn_inv (advance c (Recovering e) (s\<lparr>tx_open := Some (?t, False)\<rparr>))" for e
    using adv [of "Recovering e"] step [of "Recovering e"] t slot run_unseen [OF inv run] by auto
  moreover have "txn_inv (advance c (Committing 1) (s\<lparr>tx_open := Some (?t, False)\<rparr>))"
    using step [of "Committing 1"] t slot run_unseen [OF inv run]
    by (auto simp: exact_txn_def commit_attempts_def)
  ultimately show ?thesis by (auto simp: offsets_sent_def t(1) Let_def split: sum.splits)
qed

lemma txn_inv_step:
  assumes inv: "txn_inv s" and st: "txn_step as_txn s e = Some s'"
  shows "txn_inv s'"
proof (cases e)
  case (TxCommitCall batch)
  with st inv show ?thesis
    by (auto simp: txn_commit_def split: sum.splits intro: txn_inv_enlist)
next
  case (TxPublishCall x)
  with st inv show ?thesis by (auto simp: txn_publish_def intro: txn_inv_enlist)
next
  case (TxLock i)
  with st inv show ?thesis by (auto intro: txn_inv_take_lock)
next
  case (TxConnected r)
  with st obtain c where run: "tx_running s = Some (c, Connecting)" and s': "s' = connected r c s"
    by (auto split: option.splits prod.splits txn_phase.splits)
  show ?thesis
    using txn_inv_connect [OF inv run] txn_inv_finish [OF inv run, of "Inl x" for x] run_phase [OF inv run]
    by (auto simp: s' connected_def split: sum.splits)
next
  case (TxEnsured lost keys)
  with st obtain c where run: "tx_running s = Some (c, Ensuring)" and s': "s' = ensured lost keys c s"
    by (auto split: option.splits prod.splits txn_phase.splits)
  have "txn_inv (advance c Beginning (with_progress p s))" "txn_inv (finish_call c (Inl x) (with_progress p s))"
     "txn_inv (advance c Beginning s)" for p x
    using run_phase [OF inv run] txn_inv_advance [of "with_progress p s" c Ensuring "tx_running s" Beginning]
      txn_inv_advance [OF inv run, of "tx_running s" Beginning]
      txn_inv_finish [of "with_progress p s" c Ensuring "Inl x"] inv run
    by auto
  then show ?thesis unfolding s' ensured_def by (auto split: option.splits prod.splits sum.splits)
next
  case (TxBegun r)
  with st obtain c where run: "tx_running s = Some (c, Beginning)" and s': "s' = txn_begun r c s"
    by (auto split: option.splits prod.splits txn_phase.splits)
  have none: "tx_open s = None" "tx_slot s" using run_phase [OF inv run] by auto
  show ?thesis
    using txn_inv_advance [OF inv run, of "tx_running s" "Recovering x" for x]
      txn_inv_transact [OF inv run, of "\<lparr>tn_calls = [ca_id c], tn_outputs = [], tn_offsets = None\<rparr>" False
        "Sending (ca_outputs c)"] run_unseen [OF inv run] none
    by (auto simp: s' txn_begun_def partial_txn_def split: sum.splits)
next
  case (TxSent r kept)
  with st inv show ?thesis
    by (auto split: option.splits prod.splits txn_phase.splits list.splits intro: txn_inv_sent)
next
  case (TxGated lost keys)
  with st obtain c where run: "tx_running s = Some (c, Sending [])" and s': "s' = gated lost keys c s"
    by (auto split: option.splits prod.splits txn_phase.splits list.splits)
  have part: "partial_txn c [] (tx_open s)" "tx_slot s" using run_phase [OF inv run] by auto
  have "txn_inv (advance c Offsets (with_progress p s))" "txn_inv (advance c (Recovering x) (with_progress p s))" for p x
    using part txn_inv_advance [of "with_progress p s" c "Sending []" "tx_running s" Offsets]
      txn_inv_advance [of "with_progress p s" c "Sending []" "tx_running s" "Recovering x"] inv run
    by auto
  moreover have "txn_inv (advance c (Committing 1) s)" if "ca_offsets c = None"
    using part that txn_inv_advance [OF inv run, of "tx_running s" "Committing 1"]
    by (auto simp: partial_txn_def exact_txn_def commit_attempts_def)
  ultimately show ?thesis unfolding s' gated_def by (auto split: option.splits prod.splits sum.splits)
next
  case (TxOffsetsSent metadata r kept)
  with st inv show ?thesis
    by (auto split: option.splits prod.splits txn_phase.splits intro: txn_inv_offsets_sent)
next
  case TxAsk
  with st inv show ?thesis
    by (auto split: option.splits prod.splits txn_phase.splits intro: txn_inv_ask)
next
  case (TxAnswered r)
  with st obtain c n where run: "tx_running s = Some (c, Committing n)"
    and s': "s' = commit_answered as_txn r n c s" "r = Inr () \<longrightarrow> tx_open s = None"
    by (auto simp del: not_None_eq split: option.splits prod.splits txn_phase.splits if_splits)
  show ?thesis unfolding s'(1) by (rule txn_inv_answered [OF inv run]) (use s'(2) in blast)
next
  case (TxRecovered r)
  with st inv show ?thesis
    by (auto split: option.splits prod.splits txn_phase.splits intro: txn_inv_recovered)
next
  case TxApply
  with st inv show ?thesis by (auto intro: txn_inv_apply)
next
  case TxAbortedAtBroker
  with st obtain c x where run: "tx_running s = Some (c, Recovering x)" and s': "s' = s\<lparr>tx_open := None\<rparr>"
    by (auto split: option.splits prod.splits txn_phase.splits)
  show ?thesis unfolding s' by (rule txn_inv_open_None [OF inv run]) auto
next
  case TxClose
  then show ?thesis using st inv by (auto intro: txn_inv_frame)
next
  case TxCloseTake
  with st inv show ?thesis by (auto split: if_splits intro: txn_inv_close_take)
next
  case (TxSource k)
  with st have "\<exists>x. s' = s\<lparr>tx_kafka := x\<rparr>" by (auto split: kafka_event.splits if_splits)
  with inv show ?thesis by (auto intro: txn_inv_frame)
qed

section \<open>The gate keeps the assignments\<close>

lemma current_step:
  assumes "kafka_step s e = Some s'" "\<And>ks. e \<noteq> KRevoke ks" "kp_is_current (ks_progress s) g k"
  shows "kp_is_current (ks_progress s') g k"
proof (cases e)
  case (KAssign ks)
  with assms show ?thesis by (auto simp: is_current_cursor cursor_assign split: if_splits)
next
  case (KRegister j h off)
  with assms show ?thesis
    by (auto simp: is_current_cursor cursor_register split: if_splits option.splits)
next
  case (KAck h j off)
  with assms(1) have "ks_progress s' = snd (kp_complete h j off (ks_progress s))"
    by (auto split: if_splits prod.splits sum.splits option.splits)
  with assms(3) show ?thesis by (simp add: is_current_cursor cursor_frame)
next
  case KCommitted
  with assms show ?thesis by (auto simp: committed_all_current split: option.splits)
qed (use assms in \<open>auto simp: is_current_cursor cursor_frame Let_def split: if_splits\<close>)

definition all_current :: "source_offsets \<Rightarrow> kafka_progress \<Rightarrow> bool" where
  "all_current so p = list_all (\<lambda>(g, k). kp_is_current p g k) (so_deliveries so)"

definition gate_inv :: "'p txn_sys \<Rightarrow> bool" where
  "gate_inv s \<longleftrightarrow>
     (gate_held s \<longrightarrow>
        (\<exists>c ph so. tx_running s = Some (c, ph) \<and> ca_offsets c = Some so
           \<and> all_current so (ks_progress (tx_kafka s))))"

lemma gate_held_frame: "tx_running s' = tx_running s \<Longrightarrow> gate_held s' = gate_held s"
  by (simp add: gate_held_def)

lemma gate_inv_frame:
  "gate_inv s \<Longrightarrow> tx_running s' = tx_running s \<Longrightarrow> tx_kafka s' = tx_kafka s \<Longrightarrow> gate_inv s'"
  using gate_held_frame [of s' s] by (simp add: gate_inv_def)

lemma gate_inv_free: "\<not> gate_held s \<Longrightarrow> gate_inv s"
  by (simp add: gate_inv_def)

lemma ensure_assigned_ok:
  "ensure_assigned lost keys so p = (Inr u, p') \<Longrightarrow> p' = p \<and> all_current so p"
  by (auto simp: ensure_assigned_def all_current_def split: if_splits)

lemma gate_inv_source:
  assumes inv: "gate_inv s" and st: "txn_step as_txn s (TxSource e) = Some s'"
  shows "gate_inv s'"
proof -
  obtain x where x: "kafka_step (tx_kafka s) e = Some x" and s': "s' = s\<lparr>tx_kafka := x\<rparr>"
    and free: "gate_held s \<Longrightarrow> e \<noteq> KRevoke ks" for ks
    using st by (auto split: kafka_event.splits if_splits)
  have "all_current so (ks_progress x)" if "gate_held s" "all_current so (ks_progress (tx_kafka s))" for so
    using that current_step [OF x free [OF that(1)]] by (auto simp: all_current_def list_all_iff)
  with inv show ?thesis
    by (auto simp: s' gate_inv_def gate_held_frame [of "s\<lparr>tx_kafka := x\<rparr>" s])
qed

lemma gate_inv_step:
  assumes inv: "gate_inv s" and st: "txn_step as_txn s e = Some s'"
  shows "gate_inv s'"
proof (cases e)
  case (TxCommitCall batch)
  with st inv show ?thesis
    by (auto simp: txn_commit_def enlist_call_def Let_def split: sum.splits intro: gate_inv_frame)
next
  case (TxPublishCall x)
  with st inv show ?thesis
    by (auto simp: txn_publish_def enlist_call_def Let_def intro: gate_inv_frame)
next
  case (TxLock i)
  with st show ?thesis
    by (auto simp: take_lock_def gate_held_def advance_def finish_call_def Let_def
        split: option.splits list.splits if_splits intro!: gate_inv_free)
next
  case (TxConnected r)
  with st inv show ?thesis
    by (auto simp: connected_def gate_inv_def gate_held_def advance_def finish_call_def
        split: option.splits prod.splits txn_phase.splits sum.splits)
next
  case (TxEnsured lost keys)
  with st inv show ?thesis
    by (auto simp: ensured_def gate_inv_def gate_held_def advance_def finish_call_def
        split: option.splits prod.splits txn_phase.splits sum.splits)
next
  case (TxBegun r)
  with st inv show ?thesis
    by (auto simp: txn_begun_def gate_inv_def gate_held_def advance_def
        split: option.splits prod.splits txn_phase.splits sum.splits)
next
  case (TxSent r kept)
  with st inv show ?thesis
    by (auto simp: sent_def add_output_def gate_inv_def gate_held_def advance_def
        split: option.splits prod.splits txn_phase.splits sum.splits list.splits)
next
  case (TxGated lost keys)
  with st obtain c where run: "tx_running s = Some (c, Sending [])" and s': "s' = gated lost keys c s"
    by (auto split: option.splits prod.splits txn_phase.splits list.splits)
  show ?thesis
    using inv run ensure_assigned_ok unfolding s' gated_def
    by (fastforce simp: gate_inv_def gate_held_def advance_def with_progress_def
        split: option.splits prod.splits sum.splits)
next
  case (TxOffsetsSent metadata r kept)
  with st inv show ?thesis
    by (auto simp: offsets_sent_def gate_inv_def gate_held_def advance_def Let_def
        split: option.splits prod.splits txn_phase.splits sum.splits if_splits)
next
  case TxAsk
  with st inv show ?thesis
    by (auto simp: ask_commit_def gate_inv_def gate_held_def split: option.splits prod.splits txn_phase.splits)
next
  case (TxAnswered r)
  with st inv show ?thesis
    by (auto simp: commit_answered_def gate_inv_def gate_held_def advance_def finish_call_def
        split: option.splits prod.splits txn_phase.splits sum.splits if_splits)
next
  case (TxRecovered r)
  with st inv show ?thesis
    by (auto simp: recovered_def gate_inv_def gate_held_def finish_call_def
        split: option.splits prod.splits txn_phase.splits sum.splits if_splits)
next
  case TxApply
  with st inv show ?thesis
    by (auto simp: apply_commit_def split: option.splits prod.splits bool.splits intro: gate_inv_frame)
next
  case TxAbortedAtBroker
  with st inv show ?thesis
    by (auto split: option.splits prod.splits txn_phase.splits intro: gate_inv_frame)
next
  case (TxSource k)
  with st inv show ?thesis by (auto intro: gate_inv_source)
qed (use st inv in \<open>auto split: if_splits intro: gate_inv_frame\<close>)

lemma gate_inv_init: "txn_init s \<Longrightarrow> gate_inv s"
  by (auto simp: txn_init_def txn_new_def gate_inv_def gate_held_def)

interpretation txn: invariant_system txn_init "txn_step as_txn" "\<lambda>s. txn_inv s \<and> gate_inv s"
  by unfold_locales (auto intro: txn_inv_init gate_inv_init txn_inv_step gate_inv_step)

section \<open>What the calls were made with\<close>

text \<open>
  The deliveries and the outputs of every call of a run that gets to its task, in the order of the
  calls: a batch of several consumers is refused, and an output published on its own has no delivery.
\<close>

fun calls_made :: "'p txn_event list \<Rightarrow> (kafka_delivery list \<times> 'p list) list" where
  "calls_made [] = []"
| "calls_made (TxCommitCall batch # es) =
     (if list_all (\<lambda>d. kd_consumer d = kd_consumer (fst (hd batch))) (map fst batch)
      then [(map fst batch, concat (map snd batch))] else []) @ calls_made es"
| "calls_made (TxPublishCall x # es) = ([], [x]) # calls_made es"
| "calls_made (_ # es) = calls_made es"

lemma calls_made_append [simp]: "calls_made (es @ fs) = calls_made es @ calls_made fs"
  by (induction es rule: calls_made.induct) simp_all

lemma source_offsets_accepted:
  "(\<exists>r. source_offsets_from (Some so) ds = Inr r) \<longleftrightarrow> list_all (\<lambda>d. kd_consumer d = so_consumer so) ds"
proof (induction ds arbitrary: so)
  case (Cons d ds)
  have "so_consumer (offsets_add d so) = so_consumer so" by (simp add: offsets_add_def)
  with Cons [of "offsets_add d so"] show ?case by auto
qed simp

lemma source_offsets_new_accepted:
  "(\<exists>r. source_offsets_new ds = Inr r) \<longleftrightarrow> list_all (\<lambda>d. kd_consumer d = kd_consumer (hd ds)) ds"
proof (cases ds)
  case (Cons d rest)
  have "so_consumer (offsets_add d (offsets_first d)) = kd_consumer d"
    by (simp add: offsets_add_def offsets_first_def)
  with source_offsets_accepted [of "offsets_add d (offsets_first d)" rest] Cons show ?thesis
    by (simp add: source_offsets_new_def offsets_first_def)
qed (simp add: source_offsets_new_def)

definition made_as :: "kafka_delivery list \<times> 'p list \<Rightarrow> 'p txn_call \<Rightarrow> bool" where
  "made_as m c \<longleftrightarrow> ca_outputs c = snd m \<and> (\<forall>so. ca_offsets c = Some so \<longrightarrow> offsets_of (fst m) so)"

definition calls_of :: "'p txn_event list \<Rightarrow> 'p txn_sys \<Rightarrow> bool" where
  "calls_of es s \<longleftrightarrow>
     list_all2 made_as (calls_made es) (tx_calls s) \<and> map ca_id (tx_calls s) = [0..<length (tx_calls s)]"

lemma calls_of_enlist:
  assumes "calls_of es s" "calls_made [e] = [(ds, xs)]" "\<And>so. r = Some so \<Longrightarrow> offsets_of ds so"
  shows "calls_of (es @ [e]) (enlist_call xs r s)"
  using assms by (auto simp: calls_of_def enlist_call_def made_as_def Let_def list_all2_appendI)

lemma calls_of_commit:
  assumes "calls_of es s"
  shows "calls_of (es @ [TxCommitCall batch]) (txn_commit batch s)"
proof (cases "source_offsets_new (map fst batch)")
  case (Inl e)
  have hd: "kd_consumer (hd (map fst batch)) = kd_consumer (fst (hd batch))" if "batch \<noteq> []"
    using that by (simp add: hd_map)
  have "\<not> list_all (\<lambda>d. kd_consumer d = kd_consumer (fst (hd batch))) (map fst batch)"
    using Inl source_offsets_new_accepted [of "map fst batch"] hd by (cases "batch = []") auto
  with assms Inl show ?thesis by (simp add: calls_of_def txn_commit_def)
next
  case (Inr r)
  have "list_all (\<lambda>d. kd_consumer d = kd_consumer (fst (hd batch))) (map fst batch)"
    using Inr source_offsets_new_accepted [of "map fst batch"] by (cases batch) auto
  with assms Inr show ?thesis
    by (auto simp: txn_commit_def intro!: calls_of_enlist source_offsets_newD)
qed

lemma calls_of_step:
  assumes made: "calls_of es s" and st: "txn_step as_txn s e = Some s'"
  shows "calls_of (es @ [e]) s'"
proof (cases e)
  case (TxCommitCall batch)
  with st calls_of_commit [OF made, of batch] show ?thesis by auto
next
  case (TxPublishCall x)
  with st made show ?thesis by (auto simp: txn_publish_def intro!: calls_of_enlist)
qed (use made st in \<open>auto simp: calls_of_def take_lock_def connected_def ensured_def txn_begun_def sent_def
    add_output_def gated_def offsets_sent_def ask_commit_def commit_answered_def recovered_def apply_commit_def
    advance_def finish_call_def Let_def
    split: option.splits prod.splits txn_phase.splits sum.splits list.splits if_splits bool.splits
      kafka_event.splits\<close>)

lemma run_calls_of: "run (txn_step as_txn) txn_new es = Some s \<Longrightarrow> calls_of es s"
  by (erule run_history [where P = calls_of]) (simp add: calls_of_def txn_new_def, rule calls_of_step)

lemma call_made:
  assumes "calls_of es s" "c \<in> set (tx_calls s)"
  shows "ca_id c < length (calls_made es)" "made_as (calls_made es ! ca_id c) c"
proof -
  obtain i where i: "i < length (tx_calls s)" "tx_calls s ! i = c" using assms(2) by (auto simp: in_set_conv_nth)
  have "map ca_id (tx_calls s) ! i = i" using assms(1) i(1) by (simp add: calls_of_def)
  then have "ca_id c = i" using i by simp
  with i assms(1) show "ca_id c < length (calls_made es)" "made_as (calls_made es ! ca_id c) c"
    by (auto simp: calls_of_def list_all2_conv_all_nth)
qed

text \<open>The offsets of a batch, written out.\<close>

lemma offsets_of_lookup:
  assumes "offsets_of ds so"
  shows "map_of (so_next so) k = Some (g, m) \<longleftrightarrow>
    (\<exists>d\<in>set ds. kd_partition d = k \<and> kd_generation d = g \<and> i64_wrap (kd_offset d + 1) = m)
    \<and> (\<forall>d\<in>set ds. kd_partition d = k \<longrightarrow>
         kd_generation d < g \<or> kd_generation d = g \<and> i64_wrap (kd_offset d + 1) \<le> m)"
    (is "?l \<longleftrightarrow> ?from \<and> ?last")
proof -
  have from_batch: "\<exists>d\<in>set ds. kd_partition d = k \<and> position_of d = c" if "map_of (so_next so) k = Some c" for c
    using assms that unfolding offsets_of_def by blast
  have reaches: "\<exists>c. map_of (so_next so) k = Some c \<and> position_of d \<le> c" if "d \<in> set ds" "kd_partition d = k" for d
    using assms that unfolding offsets_of_def by blast
  have le: "position_of d \<le> (g, m) \<longleftrightarrow>
      kd_generation d < g \<or> kd_generation d = g \<and> i64_wrap (kd_offset d + 1) \<le> m" for d
    by (auto simp: position_of_def)
  show ?thesis
  proof
    assume l: ?l
    then show "?from \<and> ?last" using from_batch [OF l] reaches le by (fastforce simp: position_of_def)
  next
    assume r: "?from \<and> ?last"
    then obtain d where d: "d \<in> set ds" "kd_partition d = k" "position_of d = (g, m)" by (auto simp: position_of_def)
    obtain c where c: "map_of (so_next so) k = Some c" "(g, m) \<le> c" using reaches [OF d(1,2)] d(3) by auto
    obtain d' where d': "d' \<in> set ds" "kd_partition d' = k" "position_of d' = c" using from_batch [OF c(1)] by blast
    have "c \<le> (g, m)" using r d' le by blast
    with c show ?l by simp
  qed
qed

section \<open>Properties\<close>

text \<open>
  A run used by the witnesses: a batch fails while its second record is sent and is aborted, then
  commits on the second try, in which the first answer to the commit is a retriable error although
  the commit takes effect.
\<close>

definition ex_as_txn :: "box_error \<Rightarrow> txn_error option" where
  "ex_as_txn e = (if e = Foreign ''retry'' None then Some \<lparr>te_retriable = True, te_fatal = False\<rparr> else None)"

definition ex_batch :: "(kafka_delivery \<times> string list) list" where
  "ex_batch =
     [(\<lparr>kd_consumer = 0, kd_generation = 1, kd_partition = ex_key, kd_offset = 4\<rparr>, [''a'', ''b'']),
      (\<lparr>kd_consumer = 0, kd_generation = 1, kd_partition = ex_key, kd_offset = 7\<rparr>, [])]"

definition ex_commit_events :: "string txn_event list" where
  "ex_commit_events =
     [TxSource (KAssign [ex_key]), TxSource (KRegister ex_key 1 4), TxSource (KRegister ex_key 1 7),
      TxCommitCall ex_batch, TxLock 0, TxConnected (Inr ()), TxEnsured False [], TxBegun (Inr ()),
      TxSent (Inr ()) True, TxSent (Inl (Foreign ''lost'' None)) True, TxRecovered (Inr ()),
      TxCommitCall ex_batch, TxLock 0, TxEnsured False [], TxBegun (Inr ()), TxSent (Inr ()) True,
      TxSent (Inr ()) True, TxGated False [], TxOffsetsSent True (Inr ()) True, TxAsk,
      TxAnswered (Inl (Foreign ''retry'' None)), TxApply]"

lemma ex_commit_ok:
  "run_ok (\<lambda>s. tx_visible s = [\<lparr>tn_calls = [1], tn_outputs = [''a'', ''b''],
        tn_offsets = Some [(ex_key, 1, 8)]\<rparr>] \<and>
      (case tx_running s of
         Some (c, Committing m) \<Rightarrow> m = 2 \<and> ca_id c = 1 \<and> ca_offsets c \<noteq> None
       | _ \<Rightarrow> False))
   (run (txn_step ex_as_txn) txn_new ex_commit_events)"
  by code_simp

lemma ex_commit_run:
  obtains s c so where "run (txn_step ex_as_txn) txn_new ex_commit_events = Some s"
    "tx_running s = Some (c, Committing 2)" "ca_offsets c = Some so" "ca_id c = 1"
    "txn_reach ex_as_txn s" "map tn_outputs (tx_visible s) = [[''a'', ''b'']]"
proof -
  obtain s where s: "run (txn_step ex_as_txn) txn_new ex_commit_events = Some s" "txn_reach ex_as_txn s"
    "tx_visible s = [\<lparr>tn_calls = [1], tn_outputs = [''a'', ''b''], tn_offsets = Some [(ex_key, 1, 8)]\<rparr>] \<and>
      (case tx_running s of
         Some (c, Committing m) \<Rightarrow> m = 2 \<and> ca_id c = 1 \<and> ca_offsets c \<noteq> None
       | _ \<Rightarrow> False)"
    by (rule run_ok_reach [where init = txn_init, OF _ ex_commit_ok]) (auto simp: txn_init_def)
  with that show thesis by (auto split: option.splits prod.splits txn_phase.splits)
qed

text \<open>
  C5. Every transaction that becomes visible is one call's: it holds exactly the outputs of that call
  in order and exactly its offsets, no call becomes visible twice, and a call that returned success
  is visible. This holds for every interleaving of calls, failures at any point, rebalances, commits
  whose answer is lost and replaced producers, so outputs of an aborted or failed call never get into
  the transaction of another.
\<close>

theorem transactions_exact:
  assumes "txn_reach as_txn s"
  shows "list_all (\<lambda>t. list_ex (\<lambda>c. exact_txn c t) (tx_calls s)) (tx_visible s) \<and>
    distinct (visible_calls s) \<and>
    (\<forall>i. (i, Inr ()) \<in> set (tx_results s) \<longrightarrow> i \<in> set (visible_calls s))"
  using txn.reach_inv [OF assms] by (auto simp: txn_inv_def list_all_iff list_ex_iff)

text \<open>
  C6. While a transaction with offsets is being committed, it is the transaction of one call's batch:
  its outputs are those of the batch in order; for exactly the partitions of the batch it commits a
  position, the one after the batch's last delivery of that partition, with the assignment that
  delivery came from; and the open transaction holds these positions. All deliveries of the batch come
  from one consumer, and each of them belongs to the assignment of its partition that is current from
  the offsets to the end of the commit. A commit is asked for at most three times.
\<close>

theorem transaction_fenced:
  assumes "run (txn_step as_txn) txn_new es = Some s" "tx_running s = Some (c, Committing n)"
    "ca_offsets c = Some so" "calls_made es ! ca_id c = (ds, outputs)"
  shows "ca_id c < length (calls_made es) \<and> ca_outputs c = outputs \<and>
    (\<forall>k g m. map_of (so_next so) k = Some (g, m) \<longleftrightarrow>
       (\<exists>d\<in>set ds. kd_partition d = k \<and> kd_generation d = g \<and> i64_wrap (kd_offset d + 1) = m)
       \<and> (\<forall>d\<in>set ds. kd_partition d = k \<longrightarrow>
            kd_generation d < g \<or> kd_generation d = g \<and> i64_wrap (kd_offset d + 1) \<le> m)) \<and>
    (\<forall>t a. tx_open s = Some (t, a) \<longrightarrow> tn_offsets t = Some (so_next so) \<and> tn_outputs t = outputs) \<and>
    (\<forall>d\<in>set ds. kd_consumer d = so_consumer so
       \<and> kp_is_current (ks_progress (tx_kafka s)) (kd_generation d) (kd_partition d)) \<and>
    1 \<le> n \<and> n \<le> 3"
proof -
  have "txn_reach as_txn s" by (rule run_reach [OF _ assms(1)]) (simp add: txn_init_def)
  note inv = txn.reach_inv [OF this]
  have held: "gate_held s" using assms(2,3) by (simp add: gate_held_def)
  with inv assms(2,3) have cur: "all_current so (ks_progress (tx_kafka s))" by (simp add: gate_inv_def)
  have c: "c \<in> set (tx_calls s)" and ok: "phase_ok s c (Committing n)"
    using inv assms(2) by (simp_all add: txn_inv_def)
  note made = call_made [OF run_calls_of [OF assms(1)] c]
  then have outs: "ca_outputs c = outputs" and ds: "offsets_of ds so"
    using assms(3,4) by (simp_all add: made_as_def)
  have "so_deliveries so = map (\<lambda>d. (kd_generation d, kd_partition d)) ds"
    "\<forall>d\<in>set ds. kd_consumer d = so_consumer so" using ds by (simp_all add: offsets_of_def)
  then have members: "\<forall>d\<in>set ds. kd_consumer d = so_consumer so
      \<and> kp_is_current (ks_progress (tx_kafka s)) (kd_generation d) (kd_partition d)"
    using cur by (auto simp: all_current_def list_all_iff)
  have opened: "tn_offsets t = Some (so_next so) \<and> tn_outputs t = outputs" if "tx_open s = Some (t, a)" for t a
    using ok that assms(3) outs by (simp add: exact_txn_def)
  have attempts: "1 \<le> n" "n \<le> 3" using ok by (simp_all add: commit_attempts_def)
  show ?thesis
    using made(1) outs offsets_of_lookup [OF ds] opened members attempts by blast
qed

theorem transactions_exact_witness:
  "\<exists>s. txn_reach ex_as_txn s \<and> map tn_outputs (tx_visible s) = [[''a'', ''b'']] \<and> distinct (visible_calls s)"
proof -
  obtain s c so where s: "txn_reach ex_as_txn s" "map tn_outputs (tx_visible s) = [[''a'', ''b'']]"
    by (rule ex_commit_run)
  from transactions_exact [OF s(1)] s show ?thesis by (intro exI [of _ s]) simp
qed

theorem transaction_fenced_witness:
  "\<exists>(s :: string txn_sys) c so. run (txn_step ex_as_txn) txn_new ex_commit_events = Some s \<and>
     tx_running s = Some (c, Committing 2) \<and> ca_offsets c = Some so \<and> map_of (so_next so) ex_key = Some (1, 8) \<and>
     kp_is_current (ks_progress (tx_kafka s)) 1 ex_key"
proof -
  obtain s c so where s: "run (txn_step ex_as_txn) txn_new ex_commit_events = Some (s :: string txn_sys)"
    "tx_running s = Some (c, Committing 2)" "ca_offsets c = Some so" "ca_id c = 1"
    by (rule ex_commit_run)
  have "calls_made ex_commit_events ! ca_id c = (map fst ex_batch, [''a'', ''b''])"
    by (simp add: s(4) ex_commit_events_def ex_batch_def)
  from transaction_fenced [OF s(1-3) this]
  have batch: "ca_id c < length (calls_made ex_commit_events)"
    and pos: "map_of (so_next so) ex_key = Some (1, 8) \<longleftrightarrow>
      (\<exists>d\<in>set (map fst ex_batch). kd_partition d = ex_key \<and> kd_generation d = 1 \<and> i64_wrap (kd_offset d + 1) = 8)
      \<and> (\<forall>d\<in>set (map fst ex_batch). kd_partition d = ex_key \<longrightarrow>
           kd_generation d < 1 \<or> kd_generation d = 1 \<and> i64_wrap (kd_offset d + 1) \<le> 8)"
    and members: "\<forall>d\<in>set (map fst ex_batch). kp_is_current (ks_progress (tx_kafka s)) (kd_generation d) (kd_partition d)"
    by blast+
  have "map_of (so_next so) ex_key = Some (1, 8)"
    unfolding pos by (simp add: ex_batch_def i64_wrap_def)
  moreover have "kp_is_current (ks_progress (tx_kafka s)) 1 ex_key"
    using members by (simp add: ex_batch_def)
  ultimately show ?thesis using s by blast
qed

text \<open>Events of the task of a call that are left, at most.\<close>

fun steps_left :: "'p txn_call \<Rightarrow> 'p txn_phase \<Rightarrow> nat" where
  "steps_left c Connecting = length (ca_outputs c) + 10"
| "steps_left c Ensuring = length (ca_outputs c) + 9"
| "steps_left c Beginning = length (ca_outputs c) + 8"
| "steps_left c (Sending xs) = length xs + 7"
| "steps_left c Offsets = 6"
| "steps_left c (Committing n) = 5 - n"
| "steps_left c (Recovering e) = 1"

fun own_event :: "'p txn_event \<Rightarrow> bool" where
  "own_event (TxConnected r) = True"
| "own_event (TxEnsured lost keys) = True"
| "own_event (TxBegun r) = True"
| "own_event (TxSent r kept) = True"
| "own_event (TxGated lost keys) = True"
| "own_event (TxOffsetsSent metadata r kept) = True"
| "own_event (TxAnswered r) = True"
| "own_event (TxRecovered r) = True"
| "own_event _ = False"

text \<open>
  C7. A call ends: each answer it gets finishes it or brings it nearer to its end, whatever the answers
  are, so it finishes after at most eleven answers more than it has outputs; and in every txn_phase some
  answer is accepted.
\<close>

theorem transaction_ends:
  assumes "txn_reach as_txn s" "tx_running s = Some (c, ph)"
  shows "(own_event e \<longrightarrow> txn_step as_txn s e = Some s' \<longrightarrow>
      tx_running s' = None \<and> ca_id c \<in> fst ` set (tx_results s')
      \<or> (\<exists>ph'. tx_running s' = Some (c, ph') \<and> steps_left c ph' < steps_left c ph)) \<and>
    steps_left c ph \<le> length (ca_outputs c) + 10 \<and> (\<exists>e. own_event e \<and> txn_step as_txn s e \<noteq> None)"
proof -
  have ok: "phase_ok s c ph" using txn.reach_inv [OF assms(1)] assms(2) by (simp add: txn_inv_def)
  have "own_event e \<longrightarrow> txn_step as_txn s e = Some s' \<longrightarrow>
      tx_running s' = None \<and> ca_id c \<in> fst ` set (tx_results s')
      \<or> (\<exists>ph'. tx_running s' = Some (c, ph') \<and> steps_left c ph' < steps_left c ph)"
    using assms(2) ok
    by (cases e) (auto simp: connected_def ensured_def txn_begun_def sent_def gated_def offsets_sent_def
        commit_answered_def commit_again_def recovered_def advance_def finish_call_def commit_attempts_def Let_def
        split: option.splits prod.splits txn_phase.splits sum.splits list.splits if_splits)
  moreover have "steps_left c ph \<le> length (ca_outputs c) + 10"
    using ok by (cases ph) (auto simp: partial_txn_def dest!: arg_cong [where f = length])
  moreover have "\<exists>e. own_event e \<and> txn_step as_txn s e \<noteq> None"
  proof (cases ph)
    case (Sending xs)
    then show ?thesis
      using assms(2) by (cases xs) (auto intro: exI [of _ "TxSent (Inr ()) True"] exI [of _ "TxGated False []"])
  next
    case Connecting
    then show ?thesis using assms(2) by (intro exI [of _ "TxConnected (Inr ())"]) simp
  next
    case Ensuring
    then show ?thesis using assms(2) by (intro exI [of _ "TxEnsured False []"]) simp
  next
    case Beginning
    then show ?thesis using assms(2) by (intro exI [of _ "TxBegun (Inr ())"]) simp
  next
    case Offsets
    then show ?thesis using assms(2) by (intro exI [of _ "TxOffsetsSent True (Inr ()) True"]) simp
  next
    case (Committing n)
    then show ?thesis
      using assms(2) by (intro exI [of _ "TxAnswered (Inl (Foreign [] None))"]) simp
  next
    case (Recovering x)
    then show ?thesis using assms(2) by (intro exI [of _ "TxRecovered (Inr ())"]) simp
  qed
  ultimately show ?thesis by blast
qed

theorem transaction_ends_witness:
  "\<exists>(s :: string txn_sys) c. txn_reach ex_as_txn s \<and> tx_running s = Some (c, Committing 2) \<and>
     (\<exists>e. own_event e \<and> txn_step ex_as_txn s e \<noteq> None)"
proof -
  obtain s c so where s: "txn_reach ex_as_txn (s :: string txn_sys)" "tx_running s = Some (c, Committing 2)"
    by (rule ex_commit_run)
  from transaction_ends [OF s] s show ?thesis by blast
qed

end
