(* ===== verification/Servicebus_Locks.thy ===== *)
theory Servicebus_Locks
  imports Leases Errors
begin

text \<open>
  The message locks of the Service Bus source, \<^verbatim>\<open>src/adapters/servicebus/lock.rs\<close>, with the parts of
  \<^verbatim>\<open>source.rs\<close> that use them: receiving a message, acknowledging and dropping it, the end of a receive
  link and closing. The task that renews the locks, the source and the deliveries act in any order
  on one clock.

  Service Bus is a parameter: the messages, the answers to the renewal requests and the instant at which
  it ends a lock are inputs of the steps. What the code relies on is a guard of those steps: a lock
  holds until the time reported for it, by a clock that agrees with the local one, and a renewal
  never shortens it. Instants are nanoseconds; \<open>epoch\<close> is the instant of the Unix epoch on the same
  scale, so the wall clock reads \<open>(now + epoch) div millisecond\<close> milliseconds.
\<close>

section \<open>Locks\<close>

definition lock_batch :: nat where
  "lock_batch = 100"

definition min_lock :: duration where
  "min_lock = 5 * second"

definition max_lock :: duration where
  "max_lock = 5 * 60 * second"

record lock =
  lk_token :: bytes
  lk_expires :: nat
  lk_duration :: duration
  lk_revoked :: token

type_synonym locks = "lock lease_table \<times> tokens"

definition wall_ms :: "nat \<Rightarrow> nat \<Rightarrow> nat" where
  "wall_ms epoch now = (now + epoch) div millisecond"

definition remaining :: "int \<Rightarrow> nat \<Rightarrow> duration" where
  "remaining until wall = nat (until - int wall) * millisecond"

definition clamp_lock :: "duration \<Rightarrow> duration" where
  "clamp_lock d = min (max d min_lock) max_lock"

definition locks_add ::
  "bytes \<Rightarrow> int option \<Rightarrow> nat \<Rightarrow> nat \<Rightarrow> locks \<Rightarrow> ((nat \<times> token) \<times> locks) option" where
  "locks_add token until now wall L =
     (let left = (case until of None \<Rightarrow> min_lock | Some u \<Rightarrow> remaining u wall) in
      if left = 0 then None
      else let (revoked, ts) = token_new (snd L);
               (n, T) = table_add \<lparr>lk_token = token, lk_expires = now + left,
                                   lk_duration = clamp_lock left, lk_revoked = revoked\<rparr> (fst L)
           in Some ((n, revoked), (T, ts)))"

definition locks_remove :: "nat \<Rightarrow> locks \<Rightarrow> bool \<times> locks" where
  "locks_remove n L = (case table_remove n (fst L) of (l, T) \<Rightarrow> (l \<noteq> None, (T, snd L)))"

definition locks_revoke :: "nat \<Rightarrow> locks \<Rightarrow> locks" where
  "locks_revoke n L = table_revoke lk_revoked n L"

text \<open>\<^verbatim>\<open>revoke_all\<close> drains the map in its own order.\<close>

definition locks_revoke_all :: "nat list \<Rightarrow> locks \<Rightarrow> locks" where
  "locks_revoke_all order L = fold (table_revoke lk_revoked) order L"

definition locks_due :: "nat list \<Rightarrow> nat \<Rightarrow> locks \<Rightarrow> (nat \<times> bytes) list \<times> locks" where
  "locks_due order now L =
     (let L = table_expire lk_expires lk_revoked order now L in
      (List.map_filter (\<lambda>n.
         case lt_entries (fst L) n of
           None \<Rightarrow> None
         | Some l \<Rightarrow> if lk_expires l - now \<le> lk_duration l * 2 div 3 then Some (n, lk_token l) else None) order,
       L))"

definition locks_renewed :: "nat \<Rightarrow> nat \<Rightarrow> nat \<Rightarrow> locks \<Rightarrow> locks" where
  "locks_renewed n expires now L =
     (case lt_entries (fst L) n of
        None \<Rightarrow> L
      | Some l \<Rightarrow>
          ((fst L)\<lparr>lt_entries := (lt_entries (fst L))
             (n \<mapsto> l\<lparr>lk_expires := max (lk_expires l) expires,
                    lk_duration := clamp_lock (max (lk_duration l) (expires - now))\<rparr>)\<rparr>, snd L))"

definition locks_interval :: duration where
  "locks_interval = min_lock div 5"

section \<open>Renewing\<close>

definition lock_lost :: int where
  "lock_lost = 410"

datatype management_error = Status int string | LinkFailed error

text \<open>\<^verbatim>\<open>renewed\<close> and \<^verbatim>\<open>failed\<close> of one lock.\<close>

definition lock_answer :: "nat \<Rightarrow> nat \<Rightarrow> nat \<Rightarrow> management_error + int \<Rightarrow> locks \<Rightarrow> locks" where
  "lock_answer epoch now n r L =
     (case r of
        Inr until \<Rightarrow> locks_renewed n (now + remaining until (wall_ms epoch now)) now L
      | Inl (Status code _) \<Rightarrow> if code = lock_lost then locks_revoke n L else L
      | Inl (LinkFailed _) \<Rightarrow> L)"

section \<open>The source\<close>

record held_msg =
  hm_lock :: nat
  hm_revoked :: token

text \<open>
  \<open>sb_due\<close> is what the keeper still has to renew, \<open>sb_call\<close> the chunk it asks for, \<open>sb_singles\<close> the locks
  of a failed chunk that it asks for one by one, \<open>sb_answers\<close> the answers it still has to apply;
  \<open>sb_held\<close> is the instant at which Service Bus ends each lock, as last reported with the message or by a
  renewal, and \<open>sb_untimed\<close> when a message without a lock time was received. Every receive link has a
  table and a keeper of its own. One table that never reuses a number stands for all of them: the end
  of a link empties it and ends the work of its keeper.
\<close>

record sb_sys =
  sb_locks :: locks
  sb_now :: nat
  sb_live :: "held_msg list"
  sb_due :: "(nat \<times> bytes) list"
  sb_call :: "(nat \<times> bytes) list"
  sb_singles :: "(nat \<times> bytes) list"
  sb_answers :: "(nat \<times> (management_error + int)) list"
  sb_held :: "nat \<rightharpoonup> nat"
  sb_untimed :: "nat \<rightharpoonup> nat"
  sb_accepted :: "nat list"
  sb_abandoned :: "nat list"

definition until_instant :: "nat \<Rightarrow> int \<Rightarrow> nat" where
  "until_instant epoch until = nat (until * int millisecond) - epoch"

text \<open>
  \<^verbatim>\<open>receive\<close> of one delivery: a message whose lock already ended is skipped. \<^verbatim>\<open>ack\<close> takes the lock and
  accepts the message; a lock that ended, and a disposition that fails, revoke the message. \<^verbatim>\<open>Drop\<close>
  abandons a message whose lock still holds.
\<close>

definition sb_receive :: "nat \<Rightarrow> bytes \<Rightarrow> int option \<Rightarrow> sb_sys \<Rightarrow> sb_sys" where
  "sb_receive epoch token until S =
     (case locks_add token until (sb_now S) (wall_ms epoch (sb_now S)) (sb_locks S) of
        None \<Rightarrow> S
      | Some ((n, revoked), L) \<Rightarrow>
          S\<lparr>sb_locks := L, sb_live := sb_live S @ [\<lparr>hm_lock = n, hm_revoked = revoked\<rparr>],
            sb_held := (sb_held S)(n := map_option (until_instant epoch) until),
            sb_untimed := (sb_untimed S)(n := (if until = None then Some (sb_now S) else None))\<rparr>)"

definition sb_ack :: "bool \<Rightarrow> nat \<Rightarrow> sb_sys \<Rightarrow> bool \<times> sb_sys" where
  "sb_ack accepts i S =
     (let m = sb_live S ! i; S1 = S\<lparr>sb_live := remove_nth i (sb_live S)\<rparr>;
          cancel = (\<lambda>L :: locks. (fst L, token_cancel (hm_revoked m) (snd L))) in
      case locks_remove (hm_lock m) (sb_locks S) of
        (False, L) \<Rightarrow> (False, S1\<lparr>sb_locks := cancel L\<rparr>)
      | (True, L) \<Rightarrow>
          if accepts then (True, S1\<lparr>sb_locks := L, sb_accepted := sb_accepted S @ [hm_lock m]\<rparr>)
          else (False, S1\<lparr>sb_locks := cancel L\<rparr>))"

definition sb_drop :: "nat \<Rightarrow> sb_sys \<Rightarrow> sb_sys" where
  "sb_drop i S =
     (let m = sb_live S ! i in
      case locks_remove (hm_lock m) (sb_locks S) of
        (held, L) \<Rightarrow>
          S\<lparr>sb_live := remove_nth i (sb_live S), sb_locks := L,
            sb_abandoned := (if held then sb_abandoned S @ [hm_lock m] else sb_abandoned S)\<rparr>)"

datatype sb_event =
    SbTick nat
  | SbReceive bytes "int option"
  | SbKeep "nat list"
  | SbCall
  | SbChunkAnswer "management_error + int list"
  | SbSingleAnswer "management_error + int"
  | SbApply
  | SbAck nat bool
  | SbDrop nat
  | SbEndLink "nat list"

text \<open>The broker holds a lock until the time it reports, which a renewal never moves back.\<close>

definition renews :: "nat \<Rightarrow> (nat \<times> int) list \<Rightarrow> sb_sys \<Rightarrow> bool" where
  "renews epoch us S \<longleftrightarrow>
     list_all (\<lambda>(n, u). case sb_held S n of None \<Rightarrow> True | Some h \<Rightarrow> h \<le> until_instant epoch u) us"

definition hold :: "nat \<Rightarrow> (nat \<times> int) list \<Rightarrow> (nat \<rightharpoonup> nat) \<Rightarrow> (nat \<rightharpoonup> nat)" where
  "hold epoch us held =
     (\<lambda>n. fold (\<lambda>(m, u) h.
        if m = n then Some (case h of None \<Rightarrow> until_instant epoch u | Some k \<Rightarrow> max k (until_instant epoch u)) else h)
        us (held n))"

fun sb_step :: "nat \<Rightarrow> sb_sys \<Rightarrow> sb_event \<Rightarrow> sb_sys option" where
  "sb_step epoch S (SbTick d) = Some (S\<lparr>sb_now := sb_now S + d\<rparr>)"
| "sb_step epoch S (SbReceive token until) = Some (sb_receive epoch token until S)"
| "sb_step epoch S (SbKeep order) =
     (if sb_due S = [] \<and> sb_call S = [] \<and> sb_singles S = [] \<and> sb_answers S = []
         \<and> walks order (fst (sb_locks S))
      then case locks_due order (sb_now S) (sb_locks S) of (due, L) \<Rightarrow>
             Some (S\<lparr>sb_locks := L, sb_due := due\<rparr>)
      else None)"
| "sb_step epoch S SbCall =
     (if sb_due S \<noteq> [] \<and> sb_call S = [] \<and> sb_singles S = [] \<and> sb_answers S = []
      then Some (S\<lparr>sb_call := take lock_batch (sb_due S), sb_due := drop lock_batch (sb_due S)\<rparr>)
      else None)"
| "sb_step epoch S (SbChunkAnswer r) =
     (if sb_call S = [] then None
      else case r of
             Inr us \<Rightarrow>
               let ns = zip (map fst (sb_call S)) us in
               if length us = length (sb_call S) \<and> renews epoch ns S
               then Some (S\<lparr>sb_call := [], sb_answers := map (\<lambda>(n, u). (n, Inr u)) ns,
                            sb_held := hold epoch ns (sb_held S)\<rparr>)
               else None
           | Inl e \<Rightarrow>
               if length (sb_call S) > 1 then Some (S\<lparr>sb_call := [], sb_singles := sb_call S\<rparr>)
               else Some (S\<lparr>sb_call := [], sb_answers := [(fst (hd (sb_call S)), Inl e)]\<rparr>))"
| "sb_step epoch S (SbSingleAnswer r) =
     (case sb_singles S of
        [] \<Rightarrow> None
      | (n, token) # rest \<Rightarrow>
          if sb_answers S \<noteq> [] then None
          else (case r of
                  Inl e \<Rightarrow> Some (S\<lparr>sb_singles := rest, sb_answers := [(n, Inl e)]\<rparr>)
                | Inr u \<Rightarrow>
                    if renews epoch [(n, u)] S
                    then Some (S\<lparr>sb_singles := rest, sb_answers := [(n, Inr u)],
                                 sb_held := hold epoch [(n, u)] (sb_held S)\<rparr>)
                    else None))"
| "sb_step epoch S SbApply =
     (case sb_answers S of
        [] \<Rightarrow> None
      | (n, r) # rest \<Rightarrow>
          Some (S\<lparr>sb_answers := rest, sb_locks := lock_answer epoch (sb_now S) n r (sb_locks S)\<rparr>))"
| "sb_step epoch S (SbAck i accepts) =
     (if i < length (sb_live S) then Some (snd (sb_ack accepts i S)) else None)"
| "sb_step epoch S (SbDrop i) = (if i < length (sb_live S) then Some (sb_drop i S) else None)"
| "sb_step epoch S (SbEndLink order) =
     (if walks order (fst (sb_locks S))
      then Some (S\<lparr>sb_locks := locks_revoke_all order (sb_locks S), sb_due := [], sb_call := [], sb_singles := [],
                   sb_answers := []\<rparr>)
      else None)"

definition sb_new :: "nat \<Rightarrow> sb_sys" where
  "sb_new now =
     \<lparr>sb_locks = (table_new, tokens_empty), sb_now = now, sb_live = [], sb_due = [], sb_call = [],
      sb_singles = [], sb_answers = [], sb_held = Map.empty, sb_untimed = Map.empty,
      sb_accepted = [], sb_abandoned = []\<rparr>"

definition sb_init :: "sb_sys \<Rightarrow> bool" where
  "sb_init S \<longleftrightarrow> (\<exists>now. S = sb_new now)"

abbreviation sb_reach :: "nat \<Rightarrow> sb_sys \<Rightarrow> bool" where
  "sb_reach epoch \<equiv> reach sb_init (sb_step epoch)"

section \<open>The invariant of the locks\<close>

definition holders :: "sb_sys \<Rightarrow> (nat \<times> token) list" where
  "holders S = map (\<lambda>m. (hm_lock m, hm_revoked m)) (sb_live S)"

text \<open>
  The local expiry of a lock is at most a millisecond after the time reported for it, or, for a message
  without one, the shortest lock duration after its receipt, or it has passed and the next look
  revokes the lock.
\<close>

definition bounded_by :: "nat \<Rightarrow> nat option \<Rightarrow> nat option \<Rightarrow> nat \<Rightarrow> bool" where
  "bounded_by now untimed held e \<longleftrightarrow>
     e \<le> now \<or> (\<exists>r. untimed = Some r \<and> e \<le> r + min_lock) \<or> (\<exists>h. held = Some h \<and> e \<le> h + millisecond)"

definition held_bound :: "nat \<Rightarrow> (nat \<rightharpoonup> nat) \<Rightarrow> (nat \<rightharpoonup> nat) \<Rightarrow> locks \<Rightarrow> bool" where
  "held_bound now untimed held L \<longleftrightarrow>
     (\<forall>n l. lt_entries (fst L) n = Some l \<longrightarrow> bounded_by now (untimed n) (held n) (lk_expires l))"

definition answers_ok :: "nat \<Rightarrow> (nat \<rightharpoonup> nat) \<Rightarrow> (nat \<times> (management_error + int)) list \<Rightarrow> bool" where
  "answers_ok epoch held as \<longleftrightarrow>
     (\<forall>n u. (n, Inr u) \<in> set as \<longrightarrow> (\<exists>h. held n = Some h \<and> until_instant epoch u \<le> h))"

text \<open>The locks the keeper deals with.\<close>

definition asked :: "sb_sys \<Rightarrow> nat set" where
  "asked S = set (map fst (sb_due S)) \<union> set (map fst (sb_call S)) \<union> set (map fst (sb_singles S))
     \<union> set (map fst (sb_answers S))"

definition sb_inv :: "nat \<Rightarrow> sb_sys \<Rightarrow> bool" where
  "sb_inv epoch S \<longleftrightarrow>
     table_ok lk_revoked (sb_locks S) \<and> owns lk_revoked (sb_locks S) (holders S)
     \<and> held_bound (sb_now S) (sb_untimed S) (sb_held S) (sb_locks S)
     \<and> answers_ok epoch (sb_held S) (sb_answers S)
     \<and> asked S \<subseteq> {..lt_next (fst (sb_locks S))}"

text \<open>The wall clock loses less than a millisecond.\<close>

lemma remaining_bound:
  assumes "remaining u (wall_ms epoch now) \<noteq> 0"
  shows "now + remaining u (wall_ms epoch now) \<le> until_instant epoch u + millisecond"
proof -
  let ?w = "wall_ms epoch now"
  have pos: "int ?w < u" using assms by (simp add: remaining_def)
  define d where "d = nat (u - int ?w)"
  have u: "nat (u * int millisecond) = (?w + d) * millisecond"
  proof -
    have "u * int millisecond = int ((?w + d) * millisecond)" using pos by (simp add: d_def algebra_simps)
    then show ?thesis by (metis nat_int)
  qed
  have "now + epoch < (?w + 1) * millisecond"
    unfolding wall_ms_def by (simp add: dividend_less_div_times)
  then have "now + d * millisecond + epoch \<le> (?w + d) * millisecond + millisecond"
    by (simp add: algebra_simps)
  then show ?thesis
    unfolding until_instant_def u remaining_def d_def [symmetric] by linarith
qed

lemma renewed_entries:
  "lt_entries (fst (locks_renewed n e now L)) m =
     (if m = n then map_option (\<lambda>l. l\<lparr>lk_expires := max (lk_expires l) e,
        lk_duration := clamp_lock (max (lk_duration l) (e - now))\<rparr>) (lt_entries (fst L) n)
      else lt_entries (fst L) m)"
  "snd (locks_renewed n e now L) = snd L" "lt_next (fst (locks_renewed n e now L)) = lt_next (fst L)"
  by (auto simp: locks_renewed_def split: option.splits)

lemma only_revokes_renewed: "only_revokes lk_revoked L (locks_renewed n e now L)"
  by (auto simp: only_revokes_def tracked_as_def renewed_entries)

lemma table_ok_renewed: "table_ok lk_revoked L \<Longrightarrow> table_ok lk_revoked (locks_renewed n e now L)"
  unfolding table_ok_def renewed_entries by (auto split: if_splits)

lemma answer_ok:
  assumes "table_ok lk_revoked L"
  shows "table_ok lk_revoked (lock_answer epoch now n r L)" "only_revokes lk_revoked L (lock_answer epoch now n r L)"
  using assms
  by (auto simp: lock_answer_def locks_revoke_def split: sum.splits management_error.splits
      intro: table_ok_renewed only_revokes_renewed only_revokes_revoke table_ok_revoke)

lemma bounded_by_max: "bounded_by now r h a \<Longrightarrow> bounded_by now r h b \<Longrightarrow> bounded_by now r h (max a b)"
  by (simp add: max_def)

lemma held_bound_answer:
  assumes b: "held_bound now untimed held L"
    and r: "\<And>u. r = Inr u \<Longrightarrow> \<exists>h. held n = Some h \<and> until_instant epoch u \<le> h"
  shows "held_bound now untimed held (lock_answer epoch now n r L)"
proof (cases r)
  case (Inl e)
  have "held_bound now untimed held (table_revoke lk_revoked n L)"
    using b table_revoke_entries [of lk_revoked n "fst L" "snd L"] by (auto simp: held_bound_def split: if_splits)
  with b show ?thesis by (auto simp: lock_answer_def Inl locks_revoke_def split: management_error.splits)
next
  case (Inr u)
  let ?e = "now + remaining u (wall_ms epoch now)"
  have e: "bounded_by now (untimed n) (held n) ?e"
    using remaining_bound [of u epoch now] r [OF Inr]
    by (cases "remaining u (wall_ms epoch now) = 0") (auto simp: bounded_by_def)
  have "bounded_by now (untimed m) (held m) (lk_expires l)"
    if "lt_entries (fst (locks_renewed n ?e now L)) m = Some l" for m l
    using that b e by (cases "m = n") (auto simp: renewed_entries held_bound_def intro!: bounded_by_max)
  then show ?thesis by (simp add: held_bound_def lock_answer_def Inr)
qed

text \<open>The times Service Bus reports only grow.\<close>

lemma hold_grows: "held n = Some k \<Longrightarrow> \<exists>h. hold epoch us held n = Some h \<and> k \<le> h"
  unfolding hold_def
proof (induction us arbitrary: k held)
  case (Cons x us)
  obtain m u where x: "x = (m, u)" by (cases x)
  show ?case
  proof (cases "m = n")
    case True
    from Cons.IH [of "held(n \<mapsto> max k (until_instant epoch u))" "max k (until_instant epoch u)"] Cons.prems True
    show ?thesis by (auto simp: x)
  next
    case False
    with Cons show ?thesis by (simp add: x)
  qed
qed simp

lemma hold_Cons:
  "hold epoch ((m, u) # us) held =
     hold epoch us (held(m \<mapsto> (case held m of None \<Rightarrow> until_instant epoch u | Some k \<Rightarrow> max k (until_instant epoch u))))"
  by (auto simp: hold_def fun_eq_iff)

lemma hold_reaches: "(n, u) \<in> set us \<Longrightarrow> \<exists>h. hold epoch us held n = Some h \<and> until_instant epoch u \<le> h"
proof (induction us arbitrary: held)
  case (Cons x us)
  obtain m v where x: "x = (m, v)" by (cases x)
  show ?case
  proof (cases "(n, u) = x")
    case True
    let ?k = "case held n of None \<Rightarrow> until_instant epoch u | Some k \<Rightarrow> max k (until_instant epoch u)"
    have "until_instant epoch u \<le> ?k" by (simp split: option.splits)
    with hold_grows [of "held(n \<mapsto> ?k)" n ?k epoch us] True x show ?thesis
      by (auto simp: hold_Cons)
  next
    case False
    with Cons x show ?thesis by (auto simp: hold_Cons)
  qed
qed simp

lemma bounded_by_held:
  "bounded_by now r (held n) e \<Longrightarrow> bounded_by now r (hold epoch us held n) e"
  using hold_grows [of held n _ epoch us] by (fastforce simp: bounded_by_def)

lemma hold_keeps:
  assumes "held_bound now untimed held L"
  shows "held_bound now untimed (hold epoch us held) L"
  using assms bounded_by_held unfolding held_bound_def by blast

lemma held_bound_fewer:
  assumes "held_bound now untimed held L"
    "\<And>n l. lt_entries (fst L') n = Some l \<Longrightarrow> lt_entries (fst L) n = Some l" "now \<le> now'"
  shows "held_bound now' untimed held L'"
  using assms unfolding held_bound_def bounded_by_def by (meson le_trans)

lemma hold_Nil [simp]: "hold epoch [] held = held"
  by (simp add: hold_def)

lemma answers_ok_hold:
  assumes "answers_ok epoch held as" "\<And>n u. (n, Inr u) \<in> set bs \<Longrightarrow> (n, u) \<in> set us \<or> (n, Inr u) \<in> set as"
  shows "answers_ok epoch (hold epoch us held) bs"
  unfolding answers_ok_def
proof (intro allI impI)
  fix n u assume "(n, Inr u) \<in> set bs"
  then consider "(n, u) \<in> set us" | "(n, Inr u) \<in> set as" using assms(2) by blast
  then show "\<exists>h. hold epoch us held n = Some h \<and> until_instant epoch u \<le> h"
  proof cases
    case 2
    then obtain k where "held n = Some k" "until_instant epoch u \<le> k" using assms(1) unfolding answers_ok_def by blast
    with hold_grows [of held n k epoch us] show ?thesis by (auto intro: le_trans)
  qed (rule hold_reaches)
qed

section \<open>Every step keeps it\<close>

lemma sb_inv_receive:
  assumes inv: "sb_inv epoch S"
  shows "sb_inv epoch (sb_receive epoch token until S)"
proof (cases "locks_add token until (sb_now S) (wall_ms epoch (sb_now S)) (sb_locks S)")
  case None
  with inv show ?thesis by (simp add: sb_receive_def)
next
  case (Some x)
  obtain T ts where L: "sb_locks S = (T, ts)" by (cases "sb_locks S")
  define left where "left = (case until of None \<Rightarrow> min_lock | Some u \<Rightarrow> remaining u (wall_ms epoch (sb_now S)))"
  let ?l = "\<lparr>lk_token = token, lk_expires = sb_now S + left, lk_duration = clamp_lock left, lk_revoked = tok_next ts\<rparr>"
  have left: "left \<noteq> 0" and x: "x = ((lt_next T + 1, tok_next ts), (snd (table_add ?l T), snd (token_new ts)))"
    using Some by (auto simp: locks_add_def L left_def Let_def token_new_def table_add_def split: if_splits)
  have ok: "table_ok lk_revoked (T, ts)" "owns lk_revoked (T, ts) (holders S)"
    "held_bound (sb_now S) (sb_untimed S) (sb_held S) (T, ts)" "answers_ok epoch (sb_held S) (sb_answers S)"
    and ids: "asked S \<subseteq> {..lt_next T}"
    using inv by (simp_all add: sb_inv_def L)
  let ?untimed = "(sb_untimed S)(lt_next T + 1 := (if until = None then Some (sb_now S) else None))"
  have new: "bounded_by (sb_now S) (if until = None then Some (sb_now S) else None)
      (map_option (until_instant epoch) until) (lk_expires ?l)"
    using remaining_bound [of "the until" epoch "sb_now S"] left
    by (cases until) (auto simp: left_def bounded_by_def)
  have "held_bound (sb_now S) ?untimed ((sb_held S)(lt_next T + 1 := map_option (until_instant epoch) until))
      (snd (table_add ?l T), snd (token_new ts))"
    using ok(3) new by (auto simp: held_bound_def table_add_def Let_def)
  moreover have "answers_ok epoch ((sb_held S)(lt_next T + 1 := map_option (until_instant epoch) until)) (sb_answers S)"
    unfolding answers_ok_def
  proof (intro allI impI)
    fix n u assume n: "(n, Inr u) \<in> set (sb_answers S)"
    then have "n \<le> lt_next T" using ids by (force simp: asked_def)
    with ok(4) n show "\<exists>h. ((sb_held S)(lt_next T + 1 := map_option (until_instant epoch) until)) n = Some h
        \<and> until_instant epoch u \<le> h" by (auto simp: answers_ok_def)
  qed
  moreover have "table_ok lk_revoked (snd (table_add ?l T), snd (token_new ts))"
    by (rule table_ok_add [OF ok(1)]) simp
  moreover have "owns lk_revoked (snd (table_add ?l T), snd (token_new ts)) (holders S @ [(lt_next T + 1, tok_next ts)])"
    by (rule owns_add [OF ok(2)]) simp
  moreover have "lt_next (snd (table_add ?l T)) = Suc (lt_next T)" by (simp add: table_add_def Let_def)
  moreover have "holders (S\<lparr>sb_locks := L, sb_live := sb_live S @ [\<lparr>hm_lock = n, hm_revoked = r\<rparr>], sb_held := h, sb_untimed := f\<rparr>)
      = holders S @ [(n, r)]" for L n r h f by (simp add: holders_def)
  moreover have "sb_receive epoch token until S = S\<lparr>sb_locks := (snd (table_add ?l T), snd (token_new ts)),
      sb_live := sb_live S @ [\<lparr>hm_lock = lt_next T + 1, hm_revoked = tok_next ts\<rparr>],
      sb_held := (sb_held S)(lt_next T + 1 := map_option (until_instant epoch) until), sb_untimed := ?untimed\<rparr>"
    by (simp add: sb_receive_def Some x)
  moreover have "asked (S\<lparr>sb_locks := L, sb_live := ms, sb_held := h, sb_untimed := f\<rparr>) = asked S" for L ms h f by (simp add: asked_def)
  moreover have "asked S \<subseteq> {..Suc (lt_next T)}" using ids by force
  ultimately show ?thesis unfolding sb_inv_def by simp
qed

lemma sb_inv_locks:
  assumes inv: "sb_inv epoch S" and ok: "table_ok lk_revoked L" and own: "owns lk_revoked L (holders S')"
    and fewer: "\<And>n l. lt_entries (fst L) n = Some l \<Longrightarrow> lt_entries (fst (sb_locks S)) n = Some l"
    and "lt_next (fst L) = lt_next (fst (sb_locks S))" "sb_locks S' = L" "sb_held S' = sb_held S"
      "sb_untimed S' = sb_untimed S"
      "sb_answers S' = sb_answers S" "sb_now S' = sb_now S" "sb_due S' = sb_due S" "sb_call S' = sb_call S"
      "sb_singles S' = sb_singles S"
  shows "sb_inv epoch S'"
proof -
  have "held_bound (sb_now S) (sb_untimed S) (sb_held S) L"
    by (rule held_bound_fewer [of "sb_now S", OF _ fewer]) (use inv in \<open>simp_all add: sb_inv_def\<close>)
  then show ?thesis using inv ok own assms(5-) unfolding sb_inv_def asked_def by simp
qed

lemma holders_remove: "i < length (sb_live S) \<Longrightarrow> holders (S\<lparr>sb_live := remove_nth i (sb_live S)\<rparr>) = remove_nth i (holders S)"
  by (simp add: holders_def remove_nth_def take_map drop_map)

lemma sb_inv_ack:
  assumes inv: "sb_inv epoch S" and i: "i < length (sb_live S)"
  shows "sb_inv epoch (snd (sb_ack accepts i S))" "sb_inv epoch (sb_drop i S)"
proof -
  obtain T ts where L: "sb_locks S = (T, ts)" by (cases "sb_locks S")
  let ?m = "sb_live S ! i" and ?R = "snd (table_remove (hm_lock (sb_live S ! i)) T)"
  have ok: "table_ok lk_revoked (T, ts)" "owns lk_revoked (T, ts) (holders S)" using inv by (simp_all add: sb_inv_def L)
  have at: "i < length (holders S)" "holders S ! i = (hm_lock ?m, hm_revoked ?m)" using i by (simp_all add: holders_def)
  then have mem: "(hm_lock ?m, hm_revoked ?m) \<in> set (holders S)" by (metis nth_mem)
  have own: "owns lk_revoked (?R, ts) (remove_nth i (holders S))" by (rule owns_remove [OF ok(2) at(1)]) (simp add: at(2))
  have fewer: "lt_entries ?R n = Some l \<Longrightarrow> lt_entries T n = Some l" for n l
    by (simp add: table_remove_def split: if_splits)
  have nxt: "lt_next ?R = lt_next T" by (simp add: table_remove_def)
  have hs: "map (\<lambda>m. (hm_lock m, hm_revoked m)) (remove_nth i (sb_live S)) = remove_nth i (holders S)"
    by (simp add: holders_def remove_nth_def take_map drop_map)
  note own' = owns_cancel [OF own, of "hm_revoked ?m", simplified]
    and tab = table_ok_remove [OF ok(1), of "hm_lock ?m"] and tab' = table_ok_taken [OF ok mem]
  show "sb_inv epoch (sb_drop i S)"
    using fewer nxt own tab
    by (intro sb_inv_locks [OF inv, of "(?R, ts)"])
      (simp_all add: sb_drop_def locks_remove_def L Let_def holders_def [of "sb_sys.sb_live_update f S" for f] hs
        case_prod_beta holders_def)
  let ?S = "snd (sb_ack accepts i S)"
  have S': "sb_locks ?S = (?R, ts) \<or> sb_locks ?S = (?R, token_cancel (hm_revoked ?m) ts)"
    "sb_live ?S = remove_nth i (sb_live S)" "sb_held ?S = sb_held S" "sb_untimed ?S = sb_untimed S" "sb_answers ?S = sb_answers S"
    "sb_now ?S = sb_now S" "sb_due ?S = sb_due S" "sb_call ?S = sb_call S" "sb_singles ?S = sb_singles S"
    by (auto simp: sb_ack_def locks_remove_def L Let_def case_prod_beta split: bool.splits)
  have "holders ?S = remove_nth i (holders S)" by (simp add: holders_def S'(2) hs [unfolded holders_def])
  with S' own own' tab tab' nxt show "sb_inv epoch ?S"
    by (intro sb_inv_locks [OF inv, of "sb_locks ?S"]) (auto simp: L dest: fewer)
qed

lemma locks_due_ok:
  assumes "table_ok lk_revoked L"
  shows "table_ok lk_revoked (snd (locks_due order now L))" "only_revokes lk_revoked L (snd (locks_due order now L))"
    "lt_entries (fst (snd (locks_due order now L))) n = Some l \<Longrightarrow> lt_entries (fst L) n = Some l"
    "x \<in> set (fst (locks_due order now L)) \<Longrightarrow> fst x \<in> dom (lt_entries (fst L))"
    "lt_next (fst (snd (locks_due order now L))) = lt_next (fst L)"
  using assms table_expire_ok [of lk_revoked L lk_expires order now]
    only_revokes_expire [of lk_revoked L lk_expires order now]
    table_expire_entries [of lk_expires lk_revoked order now "fst L" "snd L"]
  by (auto simp: locks_due_def Let_def map_filter_def split: option.splits if_splits)

lemma revoke_all_ok:
  assumes "table_ok lk_revoked L"
  shows "table_ok lk_revoked (locks_revoke_all order L)" "only_revokes lk_revoked L (locks_revoke_all order L)"
proof -
  show "only_revokes lk_revoked L (locks_revoke_all order L)"
    unfolding locks_revoke_all_def by (rule only_revokes_fold) (rule only_revokes_revoke)
  show "table_ok lk_revoked (locks_revoke_all order L)"
    unfolding locks_revoke_all_def by (rule table_ok_fold [OF assms table_ok_revoke])
qed

lemma revoke_all_entries: "lt_entries (fst (locks_revoke_all order L)) n = Some l \<Longrightarrow> lt_entries (fst L) n = Some l"
proof (induction order arbitrary: L)
  case (Cons m order)
  then have "lt_entries (fst (table_revoke lk_revoked m L)) n = Some l" by (simp add: locks_revoke_all_def)
  with table_revoke_entries [of lk_revoked m "fst L" "snd L"] show ?case by (simp split: if_splits)
qed (simp add: locks_revoke_all_def)

text \<open>The keeper learns the times that Service Bus reports and applies them later.\<close>

lemma sb_inv_answers:
  assumes inv: "sb_inv epoch S"
    and "sb_locks S' = sb_locks S" "sb_live S' = sb_live S" "sb_now S' = sb_now S" "sb_untimed S' = sb_untimed S"
    and held: "sb_held S' = hold epoch us (sb_held S)"
    and answers: "\<And>n u. (n, Inr u) \<in> set (sb_answers S') \<Longrightarrow> (n, u) \<in> set us \<or> (n, Inr u) \<in> set (sb_answers S)"
    and ids: "asked S' \<subseteq> asked S"
  shows "sb_inv epoch S'"
proof -
  have "held_bound (sb_now S) (sb_untimed S) (sb_held S') (sb_locks S)"
    unfolding held by (rule hold_keeps) (use inv in \<open>simp add: sb_inv_def\<close>)
  moreover have "answers_ok epoch (sb_held S') (sb_answers S')"
    unfolding held by (rule answers_ok_hold [OF _ answers]) (use inv in \<open>simp add: sb_inv_def\<close>)
  moreover have "holders S' = holders S" using assms(3) by (simp add: holders_def)
  ultimately show ?thesis using inv ids assms(2,4,5) unfolding sb_inv_def by auto
qed

lemma sb_inv_chunk:
  assumes inv: "sb_inv epoch S" and st: "sb_step epoch S (SbChunkAnswer r) = Some S'"
  shows "sb_inv epoch S'"
proof (cases r)
  case (Inr us)
  let ?ns = "zip (map fst (sb_call S)) us"
  have S': "S' = S\<lparr>sb_call := [], sb_answers := map (\<lambda>(n, u). (n, Inr u)) ?ns, sb_held := hold epoch ?ns (sb_held S)\<rparr>"
    using st by (auto simp: Inr Let_def split: if_splits)
  have "fst ` set ?ns \<subseteq> fst ` set (sb_call S)" by (auto dest: set_zip_leftD)
  then show ?thesis
    by (intro sb_inv_answers [OF inv, of S' ?ns]) (auto simp: S' asked_def dest: set_zip_leftD)
next
  case (Inl e)
  show ?thesis using st inv
    by (intro sb_inv_answers [OF inv, of S' "[]"]) (auto simp: Inl asked_def split: if_splits)
qed

lemma sb_inv_step:
  assumes inv: "sb_inv epoch S" and st: "sb_step epoch S e = Some S'"
  shows "sb_inv epoch S'"
proof (cases e)
  case (SbTick d)
  have "held_bound (sb_now S + d) (sb_untimed S) (sb_held S) (sb_locks S)"
    by (rule held_bound_fewer [of "sb_now S" _ _ "sb_locks S"]) (use inv in \<open>auto simp: sb_inv_def\<close>)
  moreover have "S' = S\<lparr>sb_now := sb_now S + d\<rparr>" using st by (simp add: SbTick)
  ultimately show ?thesis using inv by (simp add: sb_inv_def holders_def asked_def)
next
  case (SbReceive token until)
  with st inv show ?thesis by (auto intro: sb_inv_receive)
next
  case (SbKeep order)
  let ?d = "locks_due order (sb_now S) (sb_locks S)"
  have S': "S' = S\<lparr>sb_locks := snd ?d, sb_due := fst ?d\<rparr>" and none: "sb_call S = []" "sb_singles S = []" "sb_answers S = []"
    using st by (auto simp: SbKeep case_prod_beta split: if_splits)
  have tab: "table_ok lk_revoked (sb_locks S)" using inv by (simp add: sb_inv_def)
  note due = locks_due_ok [OF tab, where order = order and now = "sb_now S"]
  have "owns lk_revoked (snd ?d) (holders S')"
    using inv owns_only_revokes [OF _ due(2)] by (simp add: sb_inv_def S' holders_def)
  moreover have "held_bound (sb_now S) (sb_untimed S) (sb_held S) (snd ?d)"
    by (rule held_bound_fewer [of "sb_now S", OF _ due(3)]) (use inv in \<open>simp_all add: sb_inv_def\<close>)
  moreover have "asked S' \<subseteq> {..lt_next (fst (snd ?d))}"
    using due(4,5) table_okD(1) [of lk_revoked "fst (sb_locks S)" "snd (sb_locks S)"] tab
    by (fastforce simp: asked_def S' none)
  ultimately show ?thesis using due(1) inv by (simp add: sb_inv_def S')
next
  case SbCall
  with st show ?thesis
    by (intro sb_inv_answers [OF inv, of S' "[]"])
      (auto simp: asked_def split: if_splits dest!: in_set_takeD in_set_dropD intro: rev_image_eqI)
next
  case (SbChunkAnswer r)
  with st inv show ?thesis by (auto intro: sb_inv_chunk simp del: sb_step.simps)
next
  case (SbSingleAnswer r)
  show ?thesis
  proof (cases r)
    case (Inl x)
    with st obtain n token rest where singles: "sb_singles S = (n, token) # rest"
      by (auto simp: SbSingleAnswer split: list.splits)
    with st Inl show ?thesis
      by (intro sb_inv_answers [OF inv, of S' "[]"]) (auto simp: SbSingleAnswer asked_def split: if_splits intro: rev_image_eqI)
  next
    case (Inr u)
    with st obtain n token rest where singles: "sb_singles S = (n, token) # rest"
      by (auto simp: SbSingleAnswer split: list.splits)
    with st Inr show ?thesis
      by (intro sb_inv_answers [OF inv, of S' "[(n, u)]"]) (auto simp: SbSingleAnswer asked_def split: if_splits intro: rev_image_eqI)
  qed
next
  case SbApply
  then obtain n r rest where as: "sb_answers S = (n, r) # rest"
    and S': "S' = S\<lparr>sb_answers := rest, sb_locks := lock_answer epoch (sb_now S) n r (sb_locks S)\<rparr>"
    using st by (auto split: list.splits)
  have tab: "table_ok lk_revoked (sb_locks S)" using inv by (simp add: sb_inv_def)
  note ans = answer_ok [OF tab, of epoch "sb_now S" n r]
  have "owns lk_revoked (lock_answer epoch (sb_now S) n r (sb_locks S)) (holders S')"
    using inv owns_only_revokes [OF _ ans(2)] by (simp add: sb_inv_def S' holders_def)
  moreover have "held_bound (sb_now S) (sb_untimed S) (sb_held S) (lock_answer epoch (sb_now S) n r (sb_locks S))"
    by (rule held_bound_answer) (use inv as in \<open>auto simp: sb_inv_def answers_ok_def\<close>)
  moreover have "answers_ok epoch (sb_held S) rest" using inv as by (auto simp: sb_inv_def answers_ok_def)
  moreover have "asked S' \<subseteq> asked S" by (auto simp: asked_def S' as)
  ultimately show ?thesis using ans inv unfolding sb_inv_def only_revokes_def by (auto simp: S')
next
  case (SbAck i accepts)
  with st inv show ?thesis by (auto split: if_splits intro: sb_inv_ack)
next
  case (SbDrop i)
  with st inv show ?thesis by (auto split: if_splits intro: sb_inv_ack)
next
  case (SbEndLink order)
  let ?L = "locks_revoke_all order (sb_locks S)"
  have S': "S' = S\<lparr>sb_locks := ?L, sb_due := [], sb_call := [], sb_singles := [], sb_answers := []\<rparr>"
    using st by (auto simp: SbEndLink split: if_splits)
  have tab: "table_ok lk_revoked (sb_locks S)" using inv by (simp add: sb_inv_def)
  note all = revoke_all_ok [OF tab, of order]
  have "owns lk_revoked ?L (holders S')"
    using inv owns_only_revokes [OF _ all(2)] by (simp add: sb_inv_def S' holders_def)
  moreover have "held_bound (sb_now S) (sb_untimed S) (sb_held S) ?L"
    by (rule held_bound_fewer [of "sb_now S", OF _ revoke_all_entries]) (use inv in \<open>simp_all add: sb_inv_def\<close>)
  ultimately show ?thesis using all(1) by (simp add: sb_inv_def S' answers_ok_def asked_def)
qed

interpretation sb: invariant_system sb_init "sb_step epoch" "sb_inv epoch"
proof
  fix S assume "sb_init S"
  then show "sb_inv epoch S"
    by (auto simp: sb_init_def sb_new_def sb_inv_def owns_def holders_def held_bound_def answers_ok_def asked_def
        table_new_def table_ok_def tokens_ok_def tokens_empty_def)
qed (rule sb_inv_step)

section \<open>Properties\<close>

text \<open>
  C31. After the keeper looked at the locks, every Service Bus message that is being processed either is
  revoked and has no lock, or has its own lock and is at most a millisecond past the time Service Bus
  last reported for it, with the message or by a renewal; a message that came without a lock time may
  instead be within five seconds of its receipt. This holds for every interleaving of receiving,
  renewing in batches and one by one, lost locks, acknowledging, dropping and the end of the link.
\<close>

theorem servicebus_revoked_in_time:
  assumes "sb_reach epoch S" "sb_step epoch S (SbKeep order) = Some S'" "m \<in> set (sb_live S')"
  shows "if token_is_cancelled (snd (sb_locks S')) (hm_revoked m)
    then lt_entries (fst (sb_locks S')) (hm_lock m) = None
    else (\<exists>l. lt_entries (fst (sb_locks S')) (hm_lock m) = Some l \<and> lk_revoked l = hm_revoked m
            \<and> sb_now S' < lk_expires l)
      \<and> ((\<exists>h. sb_held S' (hm_lock m) = Some h \<and> sb_now S' < h + millisecond)
         \<or> (\<exists>r. sb_untimed S' (hm_lock m) = Some r \<and> sb_now S' < r + 5 * second))"
proof -
  have inv: "sb_inv epoch S" "sb_inv epoch S'" using sb.reach_inv [OF assms(1)] sb_inv_step assms(2) by blast+
  obtain T ts where L: "sb_locks S = (T, ts)" by (cases "sb_locks S")
  have S': "S' = S\<lparr>sb_locks := table_expire lk_expires lk_revoked order (sb_now S) (T, ts), sb_due := sb_due S'\<rparr>"
    and walk: "set order = dom (lt_entries T)"
    using assms(2) by (auto simp: locks_due_def L Let_def walks_def split: if_splits)
  have new: "sb_now S' = sb_now S" "sb_locks S' = table_expire lk_expires lk_revoked order (sb_now S) (T, ts)"
    by (subst S', simp)+
  have alive: "sb_now S' < lk_expires l" if "lt_entries (fst (sb_locks S')) n = Some l" for n l
    using that walk unfolding new(2) table_expire_entries new(1) by (auto split: option.splits if_splits)
  have "(hm_lock m, hm_revoked m) \<in> set (holders S')" using assms(3) by (simp add: holders_def)
  then have tracked: "tracked_as lk_revoked (sb_locks S') (hm_lock m) (hm_revoked m)"
    using inv(2) unfolding sb_inv_def owns_def by blast
  show ?thesis
  proof (cases "lt_entries (fst (sb_locks S')) (hm_lock m)")
    case None
    with tracked show ?thesis by (simp add: tracked_as_def)
  next
    case (Some l)
    have l: "lk_revoked l = hm_revoked m" using tracked Some by (simp add: tracked_as_def)
    have "\<not> token_is_cancelled (snd (sb_locks S')) (lk_revoked l)"
      using table_okD(3) [of lk_revoked "fst (sb_locks S')" "snd (sb_locks S')"] inv(2) Some by (simp add: sb_inv_def)
    moreover have "bounded_by (sb_now S') (sb_untimed S' (hm_lock m)) (sb_held S' (hm_lock m)) (lk_expires l)"
      using inv(2) Some unfolding sb_inv_def held_bound_def by blast
    then have "(\<exists>h. sb_held S' (hm_lock m) = Some h \<and> sb_now S' < h + millisecond)
        \<or> (\<exists>r. sb_untimed S' (hm_lock m) = Some r \<and> sb_now S' < r + 5 * second)"
      using alive [OF Some] unfolding bounded_by_def min_lock_def by (auto intro: less_le_trans)
    ultimately show ?thesis using alive [OF Some] l Some by auto
  qed
qed

text \<open>A message is received with a lock of 30 seconds, and the keeper looks after 11.\<close>

lemma ex_sb_run:
  "run_ok (\<lambda>S. sb_live S = [\<lparr>hm_lock = 1, hm_revoked = 0\<rparr>] \<and> sb_now S = 11 * second \<and> sb_held S 1 = Some (30 * second)
       \<and> sb_untimed S 1 = None \<and> sb_due S = [] \<and> sb_call S = [] \<and> sb_singles S = [] \<and> sb_answers S = [] \<and> walks [1] (fst (sb_locks S)))
     (run (sb_step (5 * second)) (sb_new 0) [SbReceive [7] (Some 35000), SbTick (11 * second)])"
  by (simp add: sb_new_def sb_receive_def locks_add_def remaining_def wall_ms_def until_instant_def table_new_def
      table_add_def tokens_empty_def token_new_def walks_def Let_def)

theorem servicebus_revoked_in_time_witness:
  "\<exists>S S'. sb_reach (5 * second) S \<and> sb_step (5 * second) S (SbKeep [1]) = Some S'
     \<and> sb_live S' = [\<lparr>hm_lock = 1, hm_revoked = 0\<rparr>]
     \<and> (token_is_cancelled (snd (sb_locks S')) 0 \<or> sb_now S' < 30 * second + millisecond)"
proof -
  obtain S where S: "sb_reach (5 * second) S" "sb_live S = [\<lparr>hm_lock = 1, hm_revoked = 0\<rparr>]"
    "sb_held S 1 = Some (30 * second)" "sb_untimed S 1 = None" "sb_due S = []" "sb_call S = []" "sb_singles S = []" "sb_answers S = []"
    "walks [1] (fst (sb_locks S))"
    by (rule run_ok_obtain [where init = sb_init, OF ex_sb_run]) (auto simp: sb_init_def)
  obtain due L where due: "locks_due [1] (sb_now S) (sb_locks S) = (due, L)"
    by (cases "locks_due [1] (sb_now S) (sb_locks S)")
  have keep: "sb_step (5 * second) S (SbKeep [1]) = Some (S\<lparr>sb_locks := L, sb_due := due\<rparr>)"
    using S due by simp
  from servicebus_revoked_in_time [OF S(1) keep, of "\<lparr>hm_lock = 1, hm_revoked = 0\<rparr>"] S
  have "token_is_cancelled (snd L) 0 \<or> sb_now S < 30 * second + millisecond" by (auto split: if_splits)
  with S(1,2) keep show ?thesis by (intro exI [of _ S] exI [of _ "S\<lparr>sb_locks := L, sb_due := due\<rparr>"]) simp
qed

end
