(* ===== verification/Servicebus.thy ===== *)
theory Servicebus
  imports Servicebus_Records Config Texts
begin

text \<open>
  The Service Bus adapter of \<^verbatim>\<open>src/adapters/servicebus\<close>: the conversions between message fields and
  AMQP sections (\<^verbatim>\<open>convert.rs\<close>), what a source makes of a delivery and a sink of an outcome (\<^verbatim>\<open>source.rs\<close>,
  \<^verbatim>\<open>sink.rs\<close>), and settings with the connection string (\<^verbatim>\<open>config.rs\<close>).

  The values of the AMQP library are data here. A body that is not binary data is given by its AMQP
  encoding, which the library computes.
\<close>

section \<open>Values and messages of AMQP\<close>

datatype simple_value =
    AqNull
  | AqBool bool
  | AqUbyte "8 word"
  | AqUshort "16 word"
  | AqUint "32 word"
  | AqUlong "64 word"
  | AqByte "8 word"
  | AqShort "16 word"
  | AqInt "32 word"
  | AqLong "64 word"
  | AqFloat "32 word"
  | AqDouble "64 word"
  | AqDecimal32 bytes
  | AqDecimal64 bytes
  | AqDecimal128 bytes
  | AqChar nat
  | AqTimestamp int
  | AqUuid bytes
  | AqBinary bytes
  | AqString string
  | AqSymbol string
  | AqDescribed bytes

datatype annotation_key = SymbolKey string | UlongKey "64 word"

datatype annotation_value =
    AnString string
  | AnSymbol string
  | AnTimestamp int
  | AnLong int
  | AnUuid bytes
  | AnOther bytes

datatype message_id = IdString string | IdUlong "64 word" | IdUuid bytes | IdBinary bytes

record amqp_properties =
  aq_message_id :: "message_id option"
  aq_correlation_id :: "message_id option"
  aq_group_id :: "string option"
  aq_reply_to :: "string option"
  aq_reply_to_group_id :: "string option"
  aq_subject :: "string option"
  aq_content_type :: "string option"
  aq_to :: "string option"

record amqp_header =
  ah_ttl :: "32 word option"
  ah_delivery_count :: "32 word"

datatype amqp_body = BodyData "bytes list" | BodyEmpty | BodyValue bytes | BodySequence "bytes list"

type_synonym annotations = "(annotation_key \<times> annotation_value) list"

record amqp_message =
  am_header :: "amqp_header option"
  am_delivery_annotations :: "annotations option"
  am_message_annotations :: "annotations option"
  am_properties :: "amqp_properties option"
  am_application_properties :: "(string \<times> simple_value) list option"
  am_body :: amqp_body

definition annotation_sequence_number :: string where "annotation_sequence_number = ''x-opt-sequence-number''"
definition annotation_enqueued_time :: string where "annotation_enqueued_time = ''x-opt-enqueued-time''"
definition annotation_scheduled :: string where "annotation_scheduled = ''x-opt-scheduled-enqueue-time''"
definition annotation_locked_until :: string where "annotation_locked_until = ''x-opt-locked-until''"
definition annotation_partition_key :: string where "annotation_partition_key = ''x-opt-partition-key''"
definition annotation_dead_letter_source :: string where
  "annotation_dead_letter_source = ''x-opt-deadletter-source''"
definition annotation_lock_token :: string where "annotation_lock_token = ''x-opt-lock-token''"

definition max_id_length :: nat where
  "max_id_length = 128"

section \<open>Conversions\<close>

fun servicebus_value_from_amqp :: "simple_value \<Rightarrow> servicebus_value option" where
  "servicebus_value_from_amqp AqNull = Some SvNull"
| "servicebus_value_from_amqp (AqBool b) = Some (SvBool b)"
| "servicebus_value_from_amqp (AqUbyte i) = Some (SvU8 i)"
| "servicebus_value_from_amqp (AqUshort i) = Some (SvU16 i)"
| "servicebus_value_from_amqp (AqUint i) = Some (SvU32 i)"
| "servicebus_value_from_amqp (AqUlong i) = Some (SvU64 i)"
| "servicebus_value_from_amqp (AqByte i) = Some (SvI8 i)"
| "servicebus_value_from_amqp (AqShort i) = Some (SvI16 i)"
| "servicebus_value_from_amqp (AqInt i) = Some (SvI32 i)"
| "servicebus_value_from_amqp (AqLong i) = Some (SvI64 i)"
| "servicebus_value_from_amqp (AqFloat f) = Some (SvF32 f)"
| "servicebus_value_from_amqp (AqDouble f) = Some (SvF64 f)"
| "servicebus_value_from_amqp (AqChar c) = Some (SvChar c)"
| "servicebus_value_from_amqp (AqTimestamp t) = Some (SvTimestamp t)"
| "servicebus_value_from_amqp (AqUuid u) = Some (SvUuid u)"
| "servicebus_value_from_amqp (AqString s) = Some (SvString s)"
| "servicebus_value_from_amqp (AqSymbol s) = Some (SvString s)"
| "servicebus_value_from_amqp _ = None"

fun servicebus_value_to_amqp :: "servicebus_value \<Rightarrow> simple_value" where
  "servicebus_value_to_amqp SvNull = AqNull"
| "servicebus_value_to_amqp (SvBool b) = AqBool b"
| "servicebus_value_to_amqp (SvU8 i) = AqUbyte i"
| "servicebus_value_to_amqp (SvU16 i) = AqUshort i"
| "servicebus_value_to_amqp (SvU32 i) = AqUint i"
| "servicebus_value_to_amqp (SvU64 i) = AqUlong i"
| "servicebus_value_to_amqp (SvI8 i) = AqByte i"
| "servicebus_value_to_amqp (SvI16 i) = AqShort i"
| "servicebus_value_to_amqp (SvI32 i) = AqInt i"
| "servicebus_value_to_amqp (SvI64 i) = AqLong i"
| "servicebus_value_to_amqp (SvF32 f) = AqFloat f"
| "servicebus_value_to_amqp (SvF64 f) = AqDouble f"
| "servicebus_value_to_amqp (SvChar c) = AqChar c"
| "servicebus_value_to_amqp (SvTimestamp t) = AqTimestamp t"
| "servicebus_value_to_amqp (SvUuid u) = AqUuid u"
| "servicebus_value_to_amqp (SvString s) = AqString s"

definition application_properties_from_amqp ::
  "(string \<times> simple_value) list option \<Rightarrow> (string \<times> servicebus_value) list" where
  "application_properties_from_amqp ps =
     (case ps of
        None \<Rightarrow> []
      | Some ps \<Rightarrow> List.map_filter (\<lambda>(name, v). map_option (Pair name) (servicebus_value_from_amqp v)) ps)"

definition annotation_find :: "annotations \<Rightarrow> string \<Rightarrow> annotation_value option" where
  "annotation_find as name = map_of as (SymbolKey name)"

definition annotation_of :: "amqp_message \<Rightarrow> string \<Rightarrow> annotation_value option" where
  "annotation_of m name = Option.bind (am_message_annotations m) (\<lambda>as. annotation_find as name)"

definition timestamp_of :: "annotation_value option \<Rightarrow> int option" where
  "timestamp_of v = (case v of Some (AnTimestamp t) \<Rightarrow> Some t | _ \<Rightarrow> None)"

definition text_of :: "annotation_value option \<Rightarrow> string option" where
  "text_of v = (case v of Some (AnString s) \<Rightarrow> Some s | Some (AnSymbol s) \<Rightarrow> Some s | _ \<Rightarrow> None)"

definition hex_text :: "bytes \<Rightarrow> string" where
  "hex_text bs = concat (map (\<lambda>b. [hex_digit (unat b div 16), hex_digit (unat b mod 16)]) bs)"

definition uuid_text :: "bytes \<Rightarrow> string" where
  "uuid_text bs =
     concat (map (\<lambda>(i, b). (if i \<in> {4, 6, 8, 10} then ''-'' else []) @ hex_text [b]) (enumerate 0 bs))"

fun message_id_text :: "message_id \<Rightarrow> string" where
  "message_id_text (IdString s) = s"
| "message_id_text (IdUlong n) = show_nat (unat n)"
| "message_id_text (IdUuid u) = uuid_text u"
| "message_id_text (IdBinary b) = hex_text b"

definition servicebus_properties_from_amqp :: "amqp_message \<Rightarrow> servicebus_properties" where
  "servicebus_properties_from_amqp m =
     (let get = (\<lambda>f. Option.bind (am_properties m) f) in
      \<lparr>bp_message_id = map_option message_id_text (Option.bind (am_properties m) aq_message_id),
       bp_correlation_id = map_option message_id_text (Option.bind (am_properties m) aq_correlation_id),
       bp_session_id = get aq_group_id, bp_reply_to = get aq_reply_to,
       bp_reply_to_session_id = get aq_reply_to_group_id, bp_subject = get aq_subject,
       bp_content_type = get aq_content_type, bp_to = get aq_to,
       bp_time_to_live = map_option (\<lambda>t. unat t * 1000000) (Option.bind (am_header m) ah_ttl),
       bp_partition_key = text_of (annotation_of m annotation_partition_key)\<rparr>)"

definition body_bytes :: "amqp_body \<Rightarrow> (string \<times> bytes) + bytes" where
  "body_bytes b =
     (case b of
        BodyData sections \<Rightarrow> Inr (concat sections)
      | BodyEmpty \<Rightarrow> Inr []
      | BodyValue encoded \<Rightarrow> Inl (''an AMQP value'', encoded)
      | BodySequence encoded \<Rightarrow> Inl (''an AMQP sequence'', concat encoded))"

text \<open>\<^verbatim>\<open>chars().count()\<close>: the bytes that are not continuation bytes.\<close>

definition chars_count :: "string \<Rightarrow> nat" where
  "chars_count s = length (filter (\<lambda>c. \<not> is_cont c) s)"

fun check_ids :: "(string \<times> string option) list \<Rightarrow> error + unit" where
  "check_ids [] = Inr ()"
| "check_ids ((name, v) # ids) =
     and_then
       (case v of
          None \<Rightarrow> Inr ()
        | Some v \<Rightarrow>
            ensure_valid_record (chars_count v \<le> max_id_length)
              (''Service Bus '' @ name @ '' must be at most 128 characters''))
       (check_ids ids)"

definition ttl_to_amqp :: "duration option \<Rightarrow> error + 32 word option" where
  "ttl_to_amqp ttl =
     (case ttl of
        None \<Rightarrow> Inr None
      | Some d \<Rightarrow>
          if d = 0 then Inl (invalid_record ''Service Bus time to live must be positive'')
          else if d div 1000000 < 2 ^ 32 then Inr (Some (of_nat (d div 1000000)))
          else Inl (invalid_record ''Service Bus time to live must be under 49 days''))"

text \<open>The schedule is nanoseconds since the Unix epoch, negative before it.\<close>

definition schedule_to_amqp :: "int option \<Rightarrow> error + int option" where
  "schedule_to_amqp time =
     (case time of
        None \<Rightarrow> Inr None
      | Some t \<Rightarrow>
          if t < 0 then Inl (invalid_record ''Service Bus schedule is before the Unix epoch'')
          else if t div 1000000 \<le> i64_max then Inr (Some (t div 1000000))
          else Inl (invalid_record ''Service Bus schedule is too far in the future''))"

definition message_to_amqp ::
  "bytes \<Rightarrow> (string \<times> servicebus_value) list \<Rightarrow> servicebus_properties \<Rightarrow> int option \<Rightarrow> error + amqp_message" where
  "message_to_amqp body aps props time =
     bind_result
       (check_ids [(''message ID'', bp_message_id props), (''correlation ID'', bp_correlation_id props),
          (''session ID'', bp_session_id props), (''reply-to session ID'', bp_reply_to_session_id props),
          (''partition key'', bp_partition_key props)]) (\<lambda>_.
     bind_result
       (case (bp_session_id props, bp_partition_key props) of
          (Some session, Some key) \<Rightarrow>
            ensure_valid_record (session = key)
              ''Service Bus partition key must equal the session ID of a session message''
        | _ \<Rightarrow> Inr ()) (\<lambda>_.
     bind_result (ttl_to_amqp (bp_time_to_live props)) (\<lambda>ttl.
     bind_result (schedule_to_amqp time) (\<lambda>at.
       let annotations =
         (case bp_partition_key props of
            None \<Rightarrow> [] | Some k \<Rightarrow> [(SymbolKey annotation_partition_key, AnString k)])
         @ (case at of None \<Rightarrow> [] | Some t \<Rightarrow> [(SymbolKey annotation_scheduled, AnTimestamp t)])
       in Inr \<lparr>am_header = map_option (\<lambda>t. \<lparr>ah_ttl = Some t, ah_delivery_count = 0\<rparr>) ttl,
               am_delivery_annotations = None,
               am_message_annotations = (if annotations = [] then None else Some annotations),
               am_properties = Some \<lparr>aq_message_id = map_option IdString (bp_message_id props),
                  aq_correlation_id = map_option IdString (bp_correlation_id props),
                  aq_group_id = bp_session_id props, aq_reply_to = bp_reply_to props,
                  aq_reply_to_group_id = bp_reply_to_session_id props, aq_subject = bp_subject props,
                  aq_content_type = bp_content_type props, aq_to = bp_to props\<rparr>,
               am_application_properties =
                 (if aps = [] then None
                  else Some (map (\<lambda>(name, v). (name, servicebus_value_to_amqp v)) aps)),
               am_body = BodyData [body]\<rparr>))))"

section \<open>Receiving and sending\<close>

text \<open>The lock token: the annotation, or the delivery tag with the byte order of a .NET \<^verbatim>\<open>Guid\<close> undone.\<close>

definition guid_order :: "bytes \<Rightarrow> bytes" where
  "guid_order bs =
     rev (take 4 bs) @ rev (take 2 (drop 4 bs)) @ rev (take 2 (drop 6 bs)) @ drop 8 bs"

definition lock_token_of :: "amqp_message \<Rightarrow> bytes \<Rightarrow> bytes option" where
  "lock_token_of m tag =
     (case Option.bind (am_delivery_annotations m) (\<lambda>as. annotation_find as annotation_lock_token) of
        Some (AnUuid token) \<Rightarrow> Some token
      | _ \<Rightarrow> if length tag = 16 then Some (guid_order tag) else None)"

definition servicebus_record_of :: "string \<Rightarrow> string \<Rightarrow> amqp_message \<Rightarrow> 'v \<Rightarrow> 'v servicebus_record" where
  "servicebus_record_of entity token m v =
     \<lparr>br_value = v,
      br_application_properties = map_of (application_properties_from_amqp (am_application_properties m)),
      br_properties = servicebus_properties_from_amqp m,
      br_metadata =
        \<lparr>bm_entity_path = entity,
         bm_sequence_number = (case annotation_of m annotation_sequence_number of Some (AnLong n) \<Rightarrow> n | _ \<Rightarrow> 0),
         bm_enqueued_time = timestamp_of (annotation_of m annotation_enqueued_time),
         bm_scheduled_enqueue_time = timestamp_of (annotation_of m annotation_scheduled),
         bm_delivery_count =
           (let n = (case am_header m of None \<Rightarrow> 0 | Some h \<Rightarrow> ah_delivery_count h) in if n = - 1 then n else n + 1),
         bm_lock_token = token,
         bm_dead_letter_source =
           (case annotation_of m annotation_dead_letter_source of Some (AnString s) \<Rightarrow> Some s | _ \<Rightarrow> None)\<rparr>\<rparr>"

definition servicebus_decode ::
  "(bytes \<Rightarrow> 'v outcome) \<Rightarrow> string \<Rightarrow> string \<Rightarrow> amqp_message \<Rightarrow> 'v servicebus_record outcome" where
  "servicebus_decode decode entity token m =
     (case body_bytes (am_body m) of
        Inr bs \<Rightarrow> bind_result (decode bs) (\<lambda>v. Inr (servicebus_record_of entity token m v))
      | Inl (kind, _) \<Rightarrow>
          Inl (Crate (invalid_record (''Service Bus message body is '' @ kind @ '', not binary data''))))"

definition servicebus_raw :: "string \<Rightarrow> string \<Rightarrow> amqp_message \<Rightarrow> bytes servicebus_record" where
  "servicebus_raw entity token m =
     servicebus_record_of entity token m
       (case body_bytes (am_body m) of Inr bs \<Rightarrow> bs | Inl (_, encoded) \<Rightarrow> encoded)"

definition servicebus_prepare ::
  "('v \<Rightarrow> bytes outcome) \<Rightarrow> (string \<times> servicebus_value) list \<Rightarrow> 'v servicebus_publish \<Rightarrow> amqp_message outcome" where
  "servicebus_prepare encode aps out =
     bind_result (encode (bu_value out)) (\<lambda>body.
       case message_to_amqp body aps (bu_properties out) (bu_scheduled_enqueue_time out) of
         Inl e \<Rightarrow> Inl (Crate e)
       | Inr m \<Rightarrow> Inr m)"

section \<open>Settings\<close>

datatype credential = SharedAccessKey string string | SharedAccessSignature string

record servicebus_settings =
  bs_namespace :: string
  bs_credential :: "credential option"
  bs_emulator :: bool

definition tls_port :: "16 word" where "tls_port = 5671"
definition plain_port :: "16 word" where "plain_port = 5672"

text \<open>\<^verbatim>\<open>rsplit_once(':')\<close> of the namespace.\<close>

definition rsplit_colon :: "string \<Rightarrow> (string \<times> string) option" where
  "rsplit_colon s =
     (if CHR '':'' \<in> set s
      then let after = rev (takeWhile (\<lambda>c. c \<noteq> CHR '':'') (rev s))
           in Some (take (length s - length after - 1) s, after)
      else None)"

definition u16_max :: nat where
  "u16_max = 65535"

definition settings_validate :: "servicebus_settings \<Rightarrow> error + unit" where
  "settings_validate c =
     and_then
       (ensure_config (bs_namespace c \<noteq> [] \<and> \<not> contains_whitespace (bs_namespace c) \<and> CHR ''/'' \<notin> set (bs_namespace c))
          ''Service Bus namespace must be a host name such as contoso.servicebus.windows.net'')
       (and_then
         (case rsplit_colon (bs_namespace c) of
            None \<Rightarrow> Inr ()
          | Some (_, port) \<Rightarrow>
              (case parse_unsigned u16_max port of
                 Inl _ \<Rightarrow> Inl (error_config ''Service Bus namespace has an invalid port'')
               | Inr _ \<Rightarrow> Inr ()))
         (case bs_credential c of
            None \<Rightarrow> Inl (error_config ''Service Bus needs a shared access key or signature'')
          | Some (SharedAccessKey name key) \<Rightarrow>
              ensure_config (name \<noteq> [] \<and> key \<noteq> []) ''Service Bus shared access key needs a name and a key''
          | Some (SharedAccessSignature sig) \<Rightarrow>
              ensure_config (starts_with ''SharedAccessSignature '' sig)
                (''Service Bus shared access signature must start with '' @ debug_str ''SharedAccessSignature '')))"

definition settings_host :: "servicebus_settings \<Rightarrow> string" where
  "settings_host c = (case rsplit_colon (bs_namespace c) of None \<Rightarrow> bs_namespace c | Some (host, _) \<Rightarrow> host)"

definition settings_port :: "servicebus_settings \<Rightarrow> 16 word" where
  "settings_port c =
     (case rsplit_colon (bs_namespace c) of
        Some (_, port) \<Rightarrow> (case parse_unsigned u16_max port of Inr n \<Rightarrow> of_nat n | Inl _ \<Rightarrow> tls_port)
      | None \<Rightarrow> if bs_emulator c then plain_port else tls_port)"

definition split_equals :: "string \<Rightarrow> (string \<times> string) option" where
  "split_equals s =
     (if CHR ''='' \<in> set s
      then Some (takeWhile (\<lambda>c. c \<noteq> CHR ''='') s, tl (dropWhile (\<lambda>c. c \<noteq> CHR ''='') s))
      else None)"

record connection_parts =
  cp_endpoint :: "string option"
  cp_key_name :: "string option"
  cp_key :: "string option"
  cp_signature :: "string option"
  cp_emulator :: bool

text \<open>The loop over the parts of a connection string.\<close>

fun connection_parts_from :: "connection_parts \<Rightarrow> string list \<Rightarrow> error + connection_parts" where
  "connection_parts_from acc [] = Inr acc"
| "connection_parts_from acc (p # ps) =
     (let part = trim p in
      if part = [] then connection_parts_from acc ps
      else case split_equals part of
             None \<Rightarrow> Inl (error_config ''Service Bus connection string part without a value'')
           | Some (name, value) \<Rightarrow>
               let value = trim value; name = to_ascii_lowercase (trim name) in
               if name = ''endpoint'' then connection_parts_from (acc\<lparr>cp_endpoint := Some value\<rparr>) ps
               else if name = ''sharedaccesskeyname'' then connection_parts_from (acc\<lparr>cp_key_name := Some value\<rparr>) ps
               else if name = ''sharedaccesskey'' then connection_parts_from (acc\<lparr>cp_key := Some value\<rparr>) ps
               else if name = ''sharedaccesssignature'' then connection_parts_from (acc\<lparr>cp_signature := Some value\<rparr>) ps
               else if name = ''usedevelopmentemulator''
               then connection_parts_from (acc\<lparr>cp_emulator := (to_ascii_lowercase value = ''true'')\<rparr>) ps
               else if name = ''entitypath''
               then Inl (error_config ''Service Bus connection string names an entity; remove EntityPath and pass the entity to the source or sink'')
               else Inl (error_config (''unknown Service Bus connection string key '' @ debug_str name)))"

definition from_connection_string :: "string \<Rightarrow> error + servicebus_settings" where
  "from_connection_string s =
     bind_result
       (connection_parts_from \<lparr>cp_endpoint = None, cp_key_name = None, cp_key = None, cp_signature = None,
          cp_emulator = False\<rparr> (split_on (CHR '';'') s)) (\<lambda>parts.
       case cp_endpoint parts of
         None \<Rightarrow> Inl (error_config ''Service Bus connection string needs Endpoint'')
       | Some endpoint \<Rightarrow>
           if \<not> starts_with ''sb://'' endpoint
           then Inl (error_config ''Service Bus Endpoint must start with sb://'')
           else let namespace = rev (dropWhile (\<lambda>c. c = CHR ''/'') (rev (drop 5 endpoint))) in
                bind_result
                  (case (cp_key_name parts, cp_key parts, cp_signature parts) of
                     (Some name, Some key, None) \<Rightarrow> Inr (SharedAccessKey name key)
                   | (None, None, Some sig) \<Rightarrow> Inr (SharedAccessSignature sig)
                   | _ \<Rightarrow> Inl (error_config ''Service Bus connection string needs SharedAccessKeyName and SharedAccessKey, or SharedAccessSignature''))
                  (\<lambda>cred.
                     let settings = \<lparr>bs_namespace = namespace, bs_credential = Some cred, bs_emulator = cp_emulator parts\<rparr>
                     in bind_result (settings_validate settings) (\<lambda>_. Inr settings)))"

definition validate_entity_path :: "string \<Rightarrow> error + unit" where
  "validate_entity_path path =
     ensure_config (path \<noteq> [] \<and> \<not> starts_with ''/'' path \<and> \<not> ends_with ''/'' path \<and> \<not> contains_whitespace path)
       ''Service Bus entity path must be a queue, topic, or subscription path without surrounding slashes or whitespace''"

definition servicebus_source_validate :: "string \<Rightarrow> 32 word \<Rightarrow> error + unit" where
  "servicebus_source_validate path prefetch =
     and_then (validate_entity_path path)
       (ensure_config (prefetch > 0) ''Service Bus prefetch must be greater than zero'')"

section \<open>Messages are received as they were sent\<close>

lemma value_to_from [simp]: "servicebus_value_from_amqp (servicebus_value_to_amqp v) = Some v"
  by (cases v) auto

lemma application_properties_roundtrip:
  "application_properties_from_amqp
     (if aps = [] then None else Some (map (\<lambda>(name, v). (name, servicebus_value_to_amqp v)) aps)) = aps"
  by (induction aps) (auto simp: application_properties_from_amqp_def map_filter_def split: if_splits)

lemma ttl_to_amqp_Inr:
  "ttl_to_amqp t = Inr w \<Longrightarrow> map_option (\<lambda>t. unat t * 1000000) w = map_option (\<lambda>d. d div 1000000 * 1000000) t"
  by (auto simp: ttl_to_amqp_def unsigned_of_nat take_bit_nat_eq_self split: option.splits if_splits)

lemma schedule_to_amqp_Inr:
  "schedule_to_amqp t = Inr w \<Longrightarrow> w = map_option (\<lambda>d. d div 1000000) t"
  by (auto simp: schedule_to_amqp_def split: option.splits if_splits)

lemma message_to_amqp_Inr:
  assumes "message_to_amqp body aps props time = Inr m"
  shows "servicebus_properties_from_amqp m =
      props\<lparr>bp_time_to_live := map_option (\<lambda>d. d div 1000000 * 1000000) (bp_time_to_live props)\<rparr>"
    "application_properties_from_amqp (am_application_properties m) = aps"
    "body_bytes (am_body m) = Inr body"
    "timestamp_of (annotation_of m annotation_scheduled) = map_option (\<lambda>d. d div 1000000) time"
proof -
  obtain ttl at where ttl: "ttl_to_amqp (bp_time_to_live props) = Inr ttl" and at: "schedule_to_amqp time = Inr at"
    using assms by (auto simp: message_to_amqp_def bind_result_def split: sum.splits)
  have m: "am_header m = map_option (\<lambda>t. \<lparr>ah_ttl = Some t, ah_delivery_count = 0\<rparr>) ttl"
    "am_properties m = Some \<lparr>aq_message_id = map_option IdString (bp_message_id props),
                  aq_correlation_id = map_option IdString (bp_correlation_id props),
                  aq_group_id = bp_session_id props, aq_reply_to = bp_reply_to props,
                  aq_reply_to_group_id = bp_reply_to_session_id props, aq_subject = bp_subject props,
                  aq_content_type = bp_content_type props, aq_to = bp_to props\<rparr>"
    "am_application_properties m = (if aps = [] then None
                  else Some (map (\<lambda>(name, v). (name, servicebus_value_to_amqp v)) aps))"
    "am_body m = BodyData [body]"
    "am_message_annotations m = (let as = (case bp_partition_key props of
            None \<Rightarrow> [] | Some k \<Rightarrow> [(SymbolKey annotation_partition_key, AnString k)])
         @ (case at of None \<Rightarrow> [] | Some t \<Rightarrow> [(SymbolKey annotation_scheduled, AnTimestamp t)])
       in if as = [] then None else Some as)"
    using assms by (auto simp: message_to_amqp_def ttl at bind_result_def Let_def split: sum.splits)
  have names: "annotation_partition_key \<noteq> annotation_scheduled"
    by (simp add: annotation_partition_key_def annotation_scheduled_def)
  have key: "text_of (annotation_of m annotation_partition_key) = bp_partition_key props"
    using names by (auto simp: annotation_of_def m(5) annotation_find_def text_of_def Let_def split: option.splits)
  show "timestamp_of (annotation_of m annotation_scheduled) = map_option (\<lambda>d. d div 1000000) time"
    using names schedule_to_amqp_Inr [OF at]
    by (auto simp: annotation_of_def m(5) annotation_find_def timestamp_of_def Let_def split: option.splits)
  have "map_option (\<lambda>t. unat t * 1000000) (Option.bind (am_header m) ah_ttl) =
      map_option (\<lambda>d. d div 1000000 * 1000000) (bp_time_to_live props)"
    using ttl_to_amqp_Inr [OF ttl] by (cases ttl) (simp_all add: m(1))
  then show "servicebus_properties_from_amqp m =
      props\<lparr>bp_time_to_live := map_option (\<lambda>d. d div 1000000 * 1000000) (bp_time_to_live props)\<rparr>"
    by (simp add: servicebus_properties_from_amqp_def m(2) key Let_def option.map_comp comp_def option.map_ident)
  show "application_properties_from_amqp (am_application_properties m) = aps"
    unfolding m(3) by (rule application_properties_roundtrip)
  show "body_bytes (am_body m) = Inr body" by (simp add: m(4) body_bytes_def)
qed

text \<open>
  C40. A Service Bus output that can be prepared is received as it was published: the same typed
  application properties, the same properties and the same value, with the time to live and the
  schedule cut to whole milliseconds.
\<close>

theorem servicebus_message_roundtrip:
  assumes "servicebus_prepare encode aps out = Inr m" "map_of aps = bu_application_properties out"
    "\<And>v b. encode v = Inr b \<Longrightarrow> decode b = Inr v"
  shows "\<exists>r. servicebus_decode decode entity token m = Inr r \<and> br_value r = bu_value out
    \<and> br_application_properties r = bu_application_properties out
    \<and> br_properties r = (bu_properties out)\<lparr>bp_time_to_live :=
        map_option (\<lambda>d. d div 1000000 * 1000000) (bp_time_to_live (bu_properties out))\<rparr>
    \<and> bm_scheduled_enqueue_time (br_metadata r) = map_option (\<lambda>d. d div 1000000) (bu_scheduled_enqueue_time out)"
proof -
  from assms(1) obtain body where body: "encode (bu_value out) = Inr body"
    and m: "message_to_amqp body aps (bu_properties out) (bu_scheduled_enqueue_time out) = Inr m"
    by (auto simp: servicebus_prepare_def bind_result_def split: sum.splits)
  note r = message_to_amqp_Inr [OF m]
  show ?thesis
    by (simp add: servicebus_decode_def r assms(3) [OF body] servicebus_record_of_def assms(2))
qed

definition ex_sb_publish :: "bytes servicebus_publish" where
  "ex_sb_publish =
     (servicebus_publish_new [1, 2])\<lparr>bu_application_properties := [''count'' \<mapsto> SvI64 (- 4)],
        bu_properties := servicebus_properties_default\<lparr>bp_session_id := Some ''c-7'', bp_partition_key := Some ''c-7'',
          bp_time_to_live := Some 60000500000\<rparr>,
        bu_scheduled_enqueue_time := Some 1700000000123000000\<rparr>"

lemma ex_sb_publish_ok: "\<exists>m. servicebus_prepare Inr [(''count'', SvI64 (- 4))] ex_sb_publish = Inr m"
  by (simp add: servicebus_prepare_def message_to_amqp_def ex_sb_publish_def servicebus_publish_new_def
      servicebus_properties_default_def ensure_valid_record_def ttl_to_amqp_def schedule_to_amqp_def chars_count_def
      is_cont_def max_id_length_def i64_max_def and_then_def Let_def)

theorem servicebus_message_roundtrip_witness:
  "\<exists>m r. servicebus_prepare Inr [(''count'', SvI64 (- 4))] ex_sb_publish = Inr m
     \<and> servicebus_decode Inr ''orders'' ''t'' m = Inr r \<and> br_value r = [1, 2]
     \<and> bp_time_to_live (br_properties r) = Some 60000000000"
proof -
  obtain m where m: "servicebus_prepare Inr [(''count'', SvI64 (- 4))] ex_sb_publish = Inr m"
    using ex_sb_publish_ok by blast
  have aps: "map_of [(''count'', SvI64 (- 4))] = bu_application_properties ex_sb_publish"
    by (simp add: ex_sb_publish_def)
  have codec: "\<And>v b. Inr v = (Inr b :: bytes outcome) \<Longrightarrow> Inr b = (Inr v :: bytes outcome)" by simp
  from servicebus_message_roundtrip [where decode = Inr and entity = "''orders''" and token = "''t''", OF m aps codec]
  obtain r where "servicebus_decode Inr ''orders'' ''t'' m = Inr r" "br_value r = bu_value ex_sb_publish"
    "br_properties r = (bu_properties ex_sb_publish)\<lparr>bp_time_to_live :=
        map_option (\<lambda>d. d div 1000000 * 1000000) (bp_time_to_live (bu_properties ex_sb_publish))\<rparr>" by blast
  with m show ?thesis by (auto simp: ex_sb_publish_def servicebus_publish_new_def)
qed

section \<open>Connection strings\<close>

text \<open>Printable ASCII without spaces and separators.\<close>

definition plain_char :: "char \<Rightarrow> bool" where
  "plain_char c \<longleftrightarrow> 33 \<le> byte_of c \<and> byte_of c < 127 \<and> c \<noteq> CHR '';''"

definition plain :: "string \<Rightarrow> bool" where
  "plain s \<longleftrightarrow> s \<noteq> [] \<and> list_all plain_char s"

lemma plain_Cons: "plain (c # s) \<longleftrightarrow> plain_char c \<and> (s = [] \<or> plain s)"
  by (auto simp: plain_def)

lemma leads_white_plain:
  assumes "plain_char c"
  shows "\<not> leads_white (map byte_of (c # s))"
proof (cases s)
  case Nil
  with assms show ?thesis by (auto simp: plain_char_def)
next
  case (Cons d t)
  with assms show ?thesis by (cases t) (auto simp: plain_char_def)
qed

lemma trim_start_plain: "plain s \<Longrightarrow> trim_start s = s"
  using leads_white_plain by (cases s) (auto simp: trim_start.simps plain_def)

lemma ends_white_plain:
  assumes "plain s"
  shows "\<not> ends_white w s"
proof
  assume w: "ends_white w s"
  then have le: "0 < w" "w \<le> length s" by (simp_all add: ends_white_def)
  obtain c t where t: "drop (length s - w) s = c # t" using le by (cases "drop (length s - w) s") auto
  have "c \<in> set s" using t by (metis in_set_dropD list.set_intros(1))
  then have "plain_char c" using assms by (auto simp: plain_def list_all_iff)
  with w t leads_white_plain show False by (simp add: ends_white_def Let_def del: list.map)
qed

lemma trim_plain: "plain s \<Longrightarrow> trim s = s"
  by (simp add: trim_def trim_start_plain trim_end.simps [of s] ends_white_plain)

lemma plain_no_semicolon: "plain s \<Longrightarrow> CHR '';'' \<notin> set s"
  by (auto simp: plain_def plain_char_def list_all_iff)

lemma split_equals_at: "CHR ''='' \<notin> set a \<Longrightarrow> split_equals (a @ CHR ''='' # b) = Some (a, b)"
  by (simp add: split_equals_def takeWhile_append dropWhile_append)

lemma plain_append: "plain (a @ CHR ''='' # b) \<longleftrightarrow> list_all plain_char a \<and> list_all plain_char b"
  by (auto simp: plain_def plain_char_def)

lemma connection_part:
  assumes "plain k" "CHR ''='' \<notin> set k" "plain v"
  shows "trim (k @ CHR ''='' # v) = k @ CHR ''='' # v"
    "split_equals (k @ CHR ''='' # v) = Some (k, v)" "trim k = k" "trim v = v"
  using assms by (simp_all add: split_equals_at trim_plain plain_append plain_def [of k] plain_def [of v])

lemma contains_whitespace_plain: "list_all plain_char s \<Longrightarrow> \<not> contains_whitespace s"
proof (induction s)
  case (Cons c s)
  then have "\<not> leads_white (map byte_of (c # s))" by (intro leads_white_plain) simp
  with Cons show ?case by (simp add: contains_whitespace_def)
qed (simp add: contains_whitespace_def)

text \<open>
  The connection string the Azure portal shows for a namespace and an access key gives settings with
  exactly that namespace, key name and key, also when the key contains equals signs.
\<close>

theorem connection_string_roundtrip:
  assumes "plain ns" "CHR ''/'' \<notin> set ns" "CHR '':'' \<notin> set ns" "plain name" "plain key"
  shows "from_connection_string (''Endpoint=sb://'' @ ns @ ''/;SharedAccessKeyName='' @ name @ '';SharedAccessKey='' @ key)
    = Inr \<lparr>bs_namespace = ns, bs_credential = Some (SharedAccessKey name key), bs_emulator = False\<rparr>"
proof -
  let ?E = "''Endpoint''" and ?N = "''SharedAccessKeyName''" and ?K = "''SharedAccessKey''"
  let ?e = "''sb://'' @ ns @ ''/''"
  have lits: "plain ?E" "plain ?N" "plain ?K" "CHR ''='' \<notin> set ?E" "CHR ''='' \<notin> set ?N" "CHR ''='' \<notin> set ?K"
    by (simp_all add: plain_def plain_char_def)
  have e: "plain ?e" using assms(1) by (auto simp: plain_def plain_char_def)
  have lower: "to_ascii_lowercase ?E = ''endpoint''" "to_ascii_lowercase ?N = ''sharedaccesskeyname''"
    "to_ascii_lowercase ?K = ''sharedaccesskey''"
    by code_simp+
  have "''Endpoint=sb://'' @ ns @ ''/;SharedAccessKeyName='' @ name @ '';SharedAccessKey='' @ key =
      (?E @ CHR ''='' # ?e) @ CHR '';'' # (?N @ CHR ''='' # name) @ CHR '';'' # (?K @ CHR ''='' # key)"
    by simp
  moreover have "CHR '';'' \<notin> set (?E @ CHR ''='' # ?e)" "CHR '';'' \<notin> set (?N @ CHR ''='' # name)"
    "CHR '';'' \<notin> set (?K @ CHR ''='' # key)"
    using plain_no_semicolon [OF e] plain_no_semicolon [OF assms(4)] plain_no_semicolon [OF assms(5)] by simp_all
  ultimately have parts: "split_on (CHR '';'')
      (''Endpoint=sb://'' @ ns @ ''/;SharedAccessKeyName='' @ name @ '';SharedAccessKey='' @ key) =
      [?E @ CHR ''='' # ?e, ?N @ CHR ''='' # name, ?K @ CHR ''='' # key]"
    by (simp only: split_on_append split_on_whole not_False_eq_True)
  have ns: "rev (dropWhile (\<lambda>c. c = CHR ''/'') (rev (drop 5 ?e))) = ns"
    using assms(1,2) by (cases ns rule: rev_cases) (auto simp: plain_def)
  have valid: "settings_validate \<lparr>bs_namespace = ns, bs_credential = Some (SharedAccessKey name key), bs_emulator = False\<rparr> = Inr ()"
    using assms contains_whitespace_plain [of ns]
    by (simp add: settings_validate_def and_then_def ensure_config_def rsplit_colon_def plain_def)
  show ?thesis
    unfolding from_connection_string_def parts connection_parts_from.simps Let_def
      connection_part [OF lits(1,4) e] connection_part [OF lits(2,5) assms(4)] connection_part [OF lits(3,6) assms(5)]
      option.case prod.case lower
    using ns valid by (simp add: starts_with_def)
qed

theorem connection_string_roundtrip_witness:
  "from_connection_string ''Endpoint=sb://contoso.net/;SharedAccessKeyName=root;SharedAccessKey=c2VjcmV0==''
     = Inr \<lparr>bs_namespace = ''contoso.net'', bs_credential = Some (SharedAccessKey ''root'' ''c2VjcmV0==''),
         bs_emulator = False\<rparr>"
proof -
  have "plain ''contoso.net''" "plain ''root''" "plain ''c2VjcmV0==''" by (simp_all add: plain_def plain_char_def)
  from connection_string_roundtrip [OF this(1) _ _ this(2,3)] show ?thesis by simp
qed

end
