(* ===== verification/Submissions.thy ===== *)
theory Submissions
  imports Rabbitmq
begin

text \<open>
  How the broker sinks submit outputs: the bound on unconfirmed ones of \<^verbatim>\<open>src/adapters/pending.rs\<close>, and
  \<^verbatim>\<open>submit\<close> and \<^verbatim>\<open>close\<close> of the Kafka, RabbitMQ, Service Bus and Pulsar sinks (\<^verbatim>\<open>sink.rs\<close> of each).

  Any number of submissions run at once, interleaved at their await points with each other and with
  \<^verbatim>\<open>close\<close>; the answers of the client libraries are inputs. A submission is known by its number. Its
  caller may drop it at any moment, before it is submitted or while it is unconfirmed. Clones of a
  sink share this state. The greatest number of permits of the semaphore is a parameter.
\<close>

section \<open>The limit\<close>

record pending_limit =
  pl_permits :: nat
  pl_closed :: bool

definition pending_new :: "nat \<Rightarrow> nat \<Rightarrow> pending_limit" where
  "pending_new max_permits max_pending = \<lparr>pl_permits = min max_pending max_permits, pl_closed = False\<rparr>"

definition pending_validate :: "nat \<Rightarrow> nat \<Rightarrow> string \<Rightarrow> error + unit" where
  "pending_validate max_permits max_pending broker =
     ensure_config (1 \<le> max_pending \<and> max_pending \<le> max_permits)
       (broker @ '' sink max_pending must be between 1 and '' @ show_nat max_permits)"

definition sink_closed :: "string \<Rightarrow> 'a outcome" where
  "sink_closed broker = Inl (Crate (Closed (broker @ '' sink is closed'')))"

text \<open>\<^verbatim>\<open>PendingLimit::acquire\<close>; \<open>None\<close> while it waits.\<close>

definition pending_acquire :: "string \<Rightarrow> pending_limit \<Rightarrow> (unit outcome \<times> pending_limit) option" where
  "pending_acquire broker l =
     (if pl_closed l then Some (sink_closed broker, l)
      else if pl_permits l = 0 then None
      else Some (Inr (), l\<lparr>pl_permits := pl_permits l - 1\<rparr>))"

text \<open>Dropping a permit.\<close>

definition pending_release :: "pending_limit \<Rightarrow> pending_limit" where
  "pending_release l = l\<lparr>pl_permits := pl_permits l + 1\<rparr>"

definition pending_close :: "pending_limit \<Rightarrow> pending_limit" where
  "pending_close l = l\<lparr>pl_closed := True\<rparr>"

section \<open>What the sinks share\<close>

text \<open>
  \<open>ss_slot\<close> says whether the sink has a channel, link or producers, \<open>ss_lock\<close> which submission holds
  the lock of that slot, \<open>ss_sent\<close> which submissions the client library has accepted, in order, and
  \<open>ss_taken\<close> whether \<^verbatim>\<open>close\<close> has emptied the slot.
\<close>

record 't sink_sys =
  ss_limit :: pending_limit
  ss_closed :: bool
  ss_slot :: bool
  ss_lock :: "nat option"
  ss_taken :: bool
  ss_tasks :: "'t list"
  ss_sent :: "nat list"

definition sink_new :: "nat \<Rightarrow> nat \<Rightarrow> 't sink_sys" where
  "sink_new max_permits max_pending =
     \<lparr>ss_limit = pending_new max_permits max_pending, ss_closed = False, ss_slot = False, ss_lock = None,
      ss_taken = False, ss_tasks = [], ss_sent = []\<rparr>"

definition is_task :: "'t sink_sys \<Rightarrow> nat \<Rightarrow> 't \<Rightarrow> bool" where
  "is_task s i t \<longleftrightarrow> i < length (ss_tasks s) \<and> ss_tasks s ! i = t"

definition to_task :: "nat \<Rightarrow> 't \<Rightarrow> 't sink_sys \<Rightarrow> 't sink_sys" where
  "to_task i t s = s\<lparr>ss_tasks := (ss_tasks s)[i := t]\<rparr>"

definition add_task :: "'t \<Rightarrow> 't sink_sys \<Rightarrow> 't sink_sys" where
  "add_task t s = s\<lparr>ss_tasks := ss_tasks s @ [t]\<rparr>"

definition release_permit :: "'t sink_sys \<Rightarrow> 't sink_sys" where
  "release_permit s = s\<lparr>ss_limit := pending_release (ss_limit s)\<rparr>"

definition unlock :: "'t sink_sys \<Rightarrow> 't sink_sys" where
  "unlock s = s\<lparr>ss_lock := None\<rparr>"

definition mark_sent :: "nat \<Rightarrow> 't sink_sys \<Rightarrow> 't sink_sys" where
  "mark_sent i s = s\<lparr>ss_sent := ss_sent s @ [i]\<rparr>"

text \<open>Waiting for a permit: the submission goes on with it, or ends when the limit is closed.\<close>

definition take_permit ::
  "string \<Rightarrow> (unit outcome \<Rightarrow> 't) \<Rightarrow> nat \<Rightarrow> ('t sink_sys \<Rightarrow> 't sink_sys) \<Rightarrow> 't sink_sys \<Rightarrow> 't sink_sys option" where
  "take_permit broker ended i next s =
     (case pending_acquire broker (ss_limit s) of
        None \<Rightarrow> None
      | Some (Inl e, l) \<Rightarrow> Some (to_task i (ended (Inl e)) s)
      | Some (Inr _, l) \<Rightarrow> Some (next (s\<lparr>ss_limit := l\<rparr>)))"

section \<open>Kafka\<close>

datatype kafka_task = KtWaiting | KtQueueing | KtPending | KtEnded "unit outcome option"

definition kafka_holds :: "kafka_task \<Rightarrow> bool" where
  "kafka_holds t \<longleftrightarrow> t = KtQueueing \<or> t = KtPending"

datatype enqueue_answer = Queued | QueueFull | SendFailed box_error

datatype kafka_sub_event =
    KeSubmit "unit outcome"
  | KeAcquire nat
  | KeEnqueue nat enqueue_answer
  | KeDelivered nat "unit outcome option"
  | KeDrop nat
  | KeCloseFlag
  | KeCloseLimit

text \<open>\<^verbatim>\<open>KafkaSink::producer\<close>, given what validating and creating the shared producer gives.\<close>

definition kafka_producer :: "bool \<Rightarrow> unit outcome \<Rightarrow> unit outcome" where
  "kafka_producer closed created = (if closed then sink_closed ''Kafka'' else created)"

text \<open>\<^verbatim>\<open>delivered\<close>: no report comes when the producer is gone.\<close>

definition kafka_delivered :: "unit outcome option \<Rightarrow> unit outcome" where
  "kafka_delivered report =
     (case report of
        None \<Rightarrow> Inl (Crate (error_msg ''Kafka producer closed before the delivery report''))
      | Some r \<Rightarrow> r)"

fun kafka_sub_step :: "kafka_task sink_sys \<Rightarrow> kafka_sub_event \<Rightarrow> kafka_task sink_sys option" where
  "kafka_sub_step s (KeSubmit created) =
     Some (add_task (case kafka_producer (ss_closed s) created of
                       Inl e \<Rightarrow> KtEnded (Some (Inl e)) | Inr _ \<Rightarrow> KtWaiting) s)"
| "kafka_sub_step s (KeAcquire i) =
     (if is_task s i KtWaiting then take_permit ''Kafka'' (KtEnded \<circ> Some) i (to_task i KtQueueing) s else None)"
| "kafka_sub_step s (KeEnqueue i answer) =
     (if is_task s i KtQueueing
      then Some (case answer of
                   Queued \<Rightarrow> mark_sent i (to_task i KtPending s)
                 | QueueFull \<Rightarrow> s
                 | SendFailed e \<Rightarrow> release_permit (to_task i (KtEnded (Some (Inl e))) s))
      else None)"
| "kafka_sub_step s (KeDelivered i report) =
     (if is_task s i KtPending then Some (release_permit (to_task i (KtEnded (Some (kafka_delivered report))) s)) else None)"
| "kafka_sub_step s (KeDrop i) =
     (if is_task s i KtWaiting then Some (to_task i (KtEnded None) s)
      else if is_task s i KtQueueing \<or> is_task s i KtPending then Some (release_permit (to_task i (KtEnded None) s))
      else None)"
| "kafka_sub_step s KeCloseFlag = Some (s\<lparr>ss_closed := True\<rparr>)"
| "kafka_sub_step s KeCloseLimit =
     (if ss_closed s then Some (s\<lparr>ss_limit := pending_close (ss_limit s)\<rparr>) else None)"

section \<open>RabbitMQ\<close>

datatype rabbitmq_task =
    RtWaiting | RtLocking | RtOpening | RtPublishing | RtPending | RtEnded "unit outcome option"

definition rabbitmq_holds :: "rabbitmq_task \<Rightarrow> bool" where
  "rabbitmq_holds t \<longleftrightarrow> t \<in> {RtLocking, RtOpening, RtPublishing, RtPending}"

datatype rabbitmq_sub_event =
    ReSubmit
  | ReAcquire nat
  | ReChannel nat bool
  | ReOpened nat "unit outcome"
  | RePublished nat "unit outcome"
  | ReConfirmed nat "confirmation outcome"
  | ReDrop nat
  | ReCloseFlag
  | ReCloseLimit
  | ReCloseTake

text \<open>
  \<^verbatim>\<open>RabbitMqSink::channel\<close> under its lock, which is held while a channel is opened; \<open>connected\<close> is the state
  of the channel in the slot.
\<close>

definition rabbitmq_channel :: "nat \<Rightarrow> bool \<Rightarrow> rabbitmq_task sink_sys \<Rightarrow> rabbitmq_task sink_sys" where
  "rabbitmq_channel i connected s =
     (if ss_closed s then release_permit (to_task i (RtEnded (Some (sink_closed ''RabbitMQ''))) s)
      else if ss_slot s \<and> connected then to_task i RtPublishing s
      else (to_task i RtOpening s)\<lparr>ss_slot := False, ss_lock := Some i\<rparr>)"

definition rabbitmq_opened :: "nat \<Rightarrow> unit outcome \<Rightarrow> rabbitmq_task sink_sys \<Rightarrow> rabbitmq_task sink_sys" where
  "rabbitmq_opened i r s =
     (case r of
        Inl e \<Rightarrow> release_permit (to_task i (RtEnded (Some (Inl e))) (unlock s))
      | Inr _ \<Rightarrow> (to_task i RtPublishing (unlock s))\<lparr>ss_slot := True\<rparr>)"

definition rabbitmq_confirm :: "confirmation outcome \<Rightarrow> unit outcome" where
  "rabbitmq_confirm r =
     (case result_context ''waiting for a RabbitMQ publisher confirmation'' r of
        Inl e \<Rightarrow> Inl e | Inr c \<Rightarrow> confirmed c)"

fun rabbitmq_sub_step :: "rabbitmq_task sink_sys \<Rightarrow> rabbitmq_sub_event \<Rightarrow> rabbitmq_task sink_sys option" where
  "rabbitmq_sub_step s ReSubmit = Some (add_task RtWaiting s)"
| "rabbitmq_sub_step s (ReAcquire i) =
     (if is_task s i RtWaiting then take_permit ''RabbitMQ'' (RtEnded \<circ> Some) i (to_task i RtLocking) s else None)"
| "rabbitmq_sub_step s (ReChannel i connected) =
     (if is_task s i RtLocking \<and> ss_lock s = None then Some (rabbitmq_channel i connected s) else None)"
| "rabbitmq_sub_step s (ReOpened i r) =
     (if is_task s i RtOpening then Some (rabbitmq_opened i r s) else None)"
| "rabbitmq_sub_step s (RePublished i r) =
     (if is_task s i RtPublishing
      then Some (case result_context ''publishing to RabbitMQ'' r of
                   Inl e \<Rightarrow> release_permit (to_task i (RtEnded (Some (Inl e))) s)
                 | Inr _ \<Rightarrow> mark_sent i (to_task i RtPending s))
      else None)"
| "rabbitmq_sub_step s (ReConfirmed i r) =
     (if is_task s i RtPending then Some (release_permit (to_task i (RtEnded (Some (rabbitmq_confirm r))) s)) else None)"
| "rabbitmq_sub_step s (ReDrop i) =
     (if is_task s i RtWaiting then Some (to_task i (RtEnded None) s)
      else if is_task s i RtOpening then Some (release_permit (to_task i (RtEnded None) (unlock s)))
      else if is_task s i RtLocking \<or> is_task s i RtPublishing \<or> is_task s i RtPending
      then Some (release_permit (to_task i (RtEnded None) s))
      else None)"
| "rabbitmq_sub_step s ReCloseFlag = Some (s\<lparr>ss_closed := True\<rparr>)"
| "rabbitmq_sub_step s ReCloseLimit =
     (if ss_closed s then Some (s\<lparr>ss_limit := pending_close (ss_limit s)\<rparr>) else None)"
| "rabbitmq_sub_step s ReCloseTake =
     (if pl_closed (ss_limit s) \<and> ss_lock s = None then Some (s\<lparr>ss_slot := False, ss_taken := True\<rparr>) else None)"

section \<open>Service Bus\<close>

datatype servicebus_task =
    StWaiting | StLocking | StConnecting | StSending | StPending | StEnded "unit outcome option"

definition servicebus_holds :: "servicebus_task \<Rightarrow> bool" where
  "servicebus_holds t \<longleftrightarrow> t \<in> {StLocking, StConnecting, StSending, StPending}"

datatype servicebus_sent = SentOk | SentTooLarge box_error | SentLost box_error

datatype servicebus_outcome = OutAccepted | OutRejected "(string \<times> string) option" | OutOther string

datatype servicebus_sub_event =
    BeSubmit
  | BeAcquire nat
  | BeLock nat
  | BeConnected nat "unit outcome"
  | BeSent nat servicebus_sent
  | BeAccepted nat "servicebus_outcome outcome"
  | BeDrop nat
  | BeCloseFlag
  | BeCloseLimit
  | BeCloseTake

text \<open>The completion of \<^verbatim>\<open>ServiceBusSink::submit\<close>.\<close>

definition servicebus_accepted :: "servicebus_outcome outcome \<Rightarrow> unit outcome" where
  "servicebus_accepted r =
     (case result_context ''waiting for Service Bus to accept a message'' r of
        Inl e \<Rightarrow> Inl e
      | Inr OutAccepted \<Rightarrow> Inr ()
      | Inr (OutRejected error) \<Rightarrow>
          Inl (Crate (error_msg (''Service Bus rejected a message: '' @
            (case error of None \<Rightarrow> ''no error given'' | Some (condition, description) \<Rightarrow> condition @ '' '' @ description))))
      | Inr (OutOther outcome) \<Rightarrow> Inl (Crate (error_msg (''Service Bus did not accept a message: '' @ outcome))))"

definition servicebus_lock :: "nat \<Rightarrow> servicebus_task sink_sys \<Rightarrow> servicebus_task sink_sys" where
  "servicebus_lock i s =
     (if ss_closed s then release_permit (to_task i (StEnded (Some (sink_closed ''Service Bus''))) s)
      else (to_task i (if ss_slot s then StSending else StConnecting) s)\<lparr>ss_lock := Some i\<rparr>)"

definition servicebus_connected :: "nat \<Rightarrow> unit outcome \<Rightarrow> servicebus_task sink_sys \<Rightarrow> servicebus_task sink_sys" where
  "servicebus_connected i r s =
     (case r of
        Inl e \<Rightarrow> release_permit (to_task i (StEnded (Some (Inl e))) (unlock s))
      | Inr _ \<Rightarrow> (to_task i StSending s)\<lparr>ss_slot := True\<rparr>)"

text \<open>A message that is too large leaves the link; after any other failure the next submission connects again.\<close>

definition servicebus_send :: "nat \<Rightarrow> servicebus_sent \<Rightarrow> servicebus_task sink_sys \<Rightarrow> servicebus_task sink_sys" where
  "servicebus_send i answer s =
     (let fail = (\<lambda>e. release_permit (to_task i (StEnded (Some (Inl e))) (unlock s)));
          wrap = (\<lambda>e. Crate (error_wrap ''sending to Service Bus'' e)) in
      case answer of
        SentOk \<Rightarrow> mark_sent i (to_task i StPending (unlock s))
      | SentTooLarge e \<Rightarrow> fail (publish_rejected_wrap (wrap e))
      | SentLost e \<Rightarrow> (fail (wrap e))\<lparr>ss_slot := False\<rparr>)"

fun servicebus_sub_step :: "servicebus_task sink_sys \<Rightarrow> servicebus_sub_event \<Rightarrow> servicebus_task sink_sys option" where
  "servicebus_sub_step s BeSubmit = Some (add_task StWaiting s)"
| "servicebus_sub_step s (BeAcquire i) =
     (if is_task s i StWaiting then take_permit ''Service Bus'' (StEnded \<circ> Some) i (to_task i StLocking) s else None)"
| "servicebus_sub_step s (BeLock i) =
     (if is_task s i StLocking \<and> ss_lock s = None then Some (servicebus_lock i s) else None)"
| "servicebus_sub_step s (BeConnected i r) =
     (if is_task s i StConnecting then Some (servicebus_connected i r s) else None)"
| "servicebus_sub_step s (BeSent i answer) =
     (if is_task s i StSending then Some (servicebus_send i answer s) else None)"
| "servicebus_sub_step s (BeAccepted i r) =
     (if is_task s i StPending then Some (release_permit (to_task i (StEnded (Some (servicebus_accepted r))) s)) else None)"
| "servicebus_sub_step s (BeDrop i) =
     (if is_task s i StWaiting then Some (to_task i (StEnded None) s)
      else if is_task s i StConnecting \<or> is_task s i StSending
      then Some (release_permit (to_task i (StEnded None) (unlock s)))
      else if is_task s i StLocking \<or> is_task s i StPending
      then Some (release_permit (to_task i (StEnded None) s))
      else None)"
| "servicebus_sub_step s BeCloseFlag = Some (s\<lparr>ss_closed := True\<rparr>)"
| "servicebus_sub_step s BeCloseLimit =
     (if ss_closed s then Some (s\<lparr>ss_limit := pending_close (ss_limit s)\<rparr>) else None)"
| "servicebus_sub_step s BeCloseTake =
     (if pl_closed (ss_limit s) \<and> ss_lock s = None then Some (s\<lparr>ss_slot := False, ss_taken := True\<rparr>) else None)"

section \<open>Pulsar\<close>

text \<open>
  The producers are behind a read-write lock. A submission keeps its read guard from the moment it
  has the producers until its message is confirmed, so that \<^verbatim>\<open>close\<close>, which writes, waits for it.
\<close>

datatype pulsar_task =
    PtReading | PtWriting | PtConnecting | PtWaiting | PtPending | PtEnded "unit outcome option"

definition pulsar_holds :: "pulsar_task \<Rightarrow> bool" where
  "pulsar_holds t \<longleftrightarrow> t = PtPending"

definition pulsar_guards :: "pulsar_task \<Rightarrow> bool" where
  "pulsar_guards t \<longleftrightarrow> t = PtWaiting \<or> t = PtPending"

definition write_free :: "pulsar_task sink_sys \<Rightarrow> bool" where
  "write_free s \<longleftrightarrow> ss_lock s = None \<and> list_all (\<lambda>t. \<not> pulsar_guards t) (ss_tasks s)"

datatype pulsar_sub_event =
    PeSubmit
  | PeRead nat
  | PeWrite nat
  | PeConnected nat "unit outcome"
  | PeAcquire nat
  | PeReceipt nat "unit outcome"
  | PeDrop nat
  | PeCloseLimit
  | PeCloseFlag
  | PeCloseTake

text \<open>\<^verbatim>\<open>Connection::producers\<close>: the loop under the read lock and, to connect, the write lock.\<close>

definition pulsar_read :: "nat \<Rightarrow> pulsar_task sink_sys \<Rightarrow> pulsar_task sink_sys" where
  "pulsar_read i s =
     to_task i (if ss_closed s then PtEnded (Some (sink_closed ''Pulsar''))
                else if ss_slot s then PtWaiting else PtWriting) s"

definition pulsar_write :: "nat \<Rightarrow> pulsar_task sink_sys \<Rightarrow> pulsar_task sink_sys" where
  "pulsar_write i s =
     (if ss_closed s then to_task i (PtEnded (Some (sink_closed ''Pulsar''))) s
      else if ss_slot s then to_task i PtReading s
      else (to_task i PtConnecting s)\<lparr>ss_lock := Some i\<rparr>)"

definition pulsar_connected :: "nat \<Rightarrow> unit outcome \<Rightarrow> pulsar_task sink_sys \<Rightarrow> pulsar_task sink_sys" where
  "pulsar_connected i r s =
     (case r of
        Inl e \<Rightarrow> to_task i (PtEnded (Some (Inl e))) (unlock s)
      | Inr _ \<Rightarrow> (to_task i PtReading (unlock s))\<lparr>ss_slot := True\<rparr>)"

fun pulsar_sub_step :: "pulsar_task sink_sys \<Rightarrow> pulsar_sub_event \<Rightarrow> pulsar_task sink_sys option" where
  "pulsar_sub_step s PeSubmit = Some (add_task PtReading s)"
| "pulsar_sub_step s (PeRead i) =
     (if is_task s i PtReading \<and> ss_lock s = None then Some (pulsar_read i s) else None)"
| "pulsar_sub_step s (PeWrite i) =
     (if is_task s i PtWriting \<and> write_free s then Some (pulsar_write i s) else None)"
| "pulsar_sub_step s (PeConnected i r) =
     (if is_task s i PtConnecting then Some (pulsar_connected i r s) else None)"
| "pulsar_sub_step s (PeAcquire i) =
     (if is_task s i PtWaiting
      then take_permit ''Pulsar'' (PtEnded \<circ> Some) i (mark_sent i \<circ> to_task i PtPending) s else None)"
| "pulsar_sub_step s (PeReceipt i r) =
     (if is_task s i PtPending then Some (release_permit (to_task i (PtEnded (Some r)) s)) else None)"
| "pulsar_sub_step s (PeDrop i) =
     (if is_task s i PtReading \<or> is_task s i PtWriting \<or> is_task s i PtWaiting then Some (to_task i (PtEnded None) s)
      else if is_task s i PtConnecting then Some (to_task i (PtEnded None) (unlock s))
      else if is_task s i PtPending then Some (release_permit (to_task i (PtEnded None) s))
      else None)"
| "pulsar_sub_step s PeCloseLimit = Some (s\<lparr>ss_limit := pending_close (ss_limit s)\<rparr>)"
| "pulsar_sub_step s PeCloseFlag =
     (if pl_closed (ss_limit s) then Some (s\<lparr>ss_closed := True\<rparr>) else None)"
| "pulsar_sub_step s PeCloseTake =
     (if ss_closed s \<and> write_free s then Some (s\<lparr>ss_slot := False, ss_taken := True\<rparr>) else None)"

section \<open>Permits are exact\<close>

definition holders :: "('t \<Rightarrow> bool) \<Rightarrow> 't list \<Rightarrow> nat" where
  "holders holds ts = length (filter holds ts)"

lemma holders_append [simp]: "holders holds (ts @ [t]) = holders holds ts + (if holds t then 1 else 0)"
  by (simp add: holders_def)

lemma holders_update:
  "i < length ts \<Longrightarrow> holders holds (ts[i := t]) + (if holds (ts ! i) then 1 else 0) =
     holders holds ts + (if holds t then 1 else 0)"
proof (induction ts arbitrary: i)
  case (Cons a ts)
  then show ?case using Cons.IH [of "i - 1"] by (cases i) (auto simp: holders_def split: if_splits)
qed simp

lemma holders_mono: "(\<And>t. p t \<Longrightarrow> q t) \<Longrightarrow> holders p ts \<le> holders q ts"
  by (induction ts) (auto simp: holders_def)

text \<open>The number of free permits together with the submissions that hold one never changes.\<close>

definition permits_total :: "('t \<Rightarrow> bool) \<Rightarrow> 't sink_sys \<Rightarrow> nat" where
  "permits_total holds s = pl_permits (ss_limit s) + holders holds (ss_tasks s)"

lemmas task_ops = to_task_def add_task_def release_permit_def unlock_def mark_sent_def
  pending_release_def pending_close_def is_task_def

lemma permits_to_task:
  "is_task s i u \<Longrightarrow> holds u = holds t \<Longrightarrow> permits_total holds (to_task i t s) = permits_total holds s"
  using holders_update [of i "ss_tasks s" holds t] by (auto simp: permits_total_def task_ops split: if_splits)

lemma permits_release:
  "is_task s i u \<Longrightarrow> holds u \<Longrightarrow> \<not> holds t \<Longrightarrow>
     permits_total holds (release_permit (to_task i t s)) = permits_total holds s"
  using holders_update [of i "ss_tasks s" holds t] by (auto simp: permits_total_def task_ops)

lemma permits_take:
  assumes "is_task s i u" "\<not> holds u" "holds t" "\<not> holds (ended (sink_closed broker))"
    "take_permit broker ended i (to_task i t) s = Some s'"
  shows "permits_total holds s' = permits_total holds s"
  using assms holders_update [of i "ss_tasks s" holds t] holders_update [of i "ss_tasks s" holds "ended (sink_closed broker)"]
  by (auto simp: take_permit_def pending_acquire_def permits_total_def task_ops sink_closed_def split: if_splits)

lemma permits_frame [simp]:
  "permits_total holds (s\<lparr>ss_slot := b\<rparr>) = permits_total holds s"
  "permits_total holds (s\<lparr>ss_lock := l\<rparr>) = permits_total holds s"
  "permits_total holds (s\<lparr>ss_closed := b\<rparr>) = permits_total holds s"
  "permits_total holds (s\<lparr>ss_taken := b\<rparr>) = permits_total holds s"
  "permits_total holds (s\<lparr>ss_limit := pending_close (ss_limit s)\<rparr>) = permits_total holds s"
  "permits_total holds (mark_sent i s) = permits_total holds s"
  "permits_total holds (unlock s) = permits_total holds s"
  "permits_total holds (add_task t s) = permits_total holds s + (if holds t then 1 else 0)"
  by (simp_all add: permits_total_def task_ops)

lemma is_task_unlock [simp]: "is_task (unlock s) i t = is_task s i t"
  by (simp add: task_ops)

locale permit_sink =
  fixes step :: "'t sink_sys \<Rightarrow> 'e \<Rightarrow> 't sink_sys option" and holds :: "'t \<Rightarrow> bool"
  assumes permits_step: "step s e = Some s' \<Longrightarrow> permits_total holds s' = permits_total holds s"
begin

lemma permits_reach:
  "reach (\<lambda>s. s = sink_new max_permits n) step s \<Longrightarrow> permits_total holds s = min n max_permits"
proof (induction rule: reach.induct)
  case (reach_init s)
  then show ?case by (simp add: sink_new_def pending_new_def permits_total_def holders_def)
qed (simp add: permits_step)

lemma holders_bounded:
  assumes "reach (\<lambda>s. s = sink_new max_permits n) step s" "pending_validate max_permits n broker = Inr ()"
    "\<And>t. p t \<Longrightarrow> holds t"
  shows "holders p (ss_tasks s) \<le> n" "pl_permits (ss_limit s) + holders holds (ss_tasks s) = n"
proof -
  have n: "min n max_permits = n" using assms(2) by (simp add: pending_validate_def)
  show "pl_permits (ss_limit s) + holders holds (ss_tasks s) = n"
    using permits_reach [OF assms(1)] n by (simp add: permits_total_def)
  then show "holders p (ss_tasks s) \<le> n" using holders_mono [of p holds "ss_tasks s"] assms(3) by force
qed

end

interpretation kafka_sink: permit_sink kafka_sub_step kafka_holds
proof
  fix s s' :: "kafka_task sink_sys" and e
  assume "kafka_sub_step s e = Some s'"
  then show "permits_total kafka_holds s' = permits_total kafka_holds s"
    by (cases e) (auto simp: kafka_holds_def permits_to_task permits_release sink_closed_def
        elim!: permits_take [where holds = kafka_holds, rotated 4] split: if_splits enqueue_answer.splits sum.splits)
qed

interpretation rabbitmq_sink: permit_sink rabbitmq_sub_step rabbitmq_holds
proof
  fix s s' :: "rabbitmq_task sink_sys" and e
  assume "rabbitmq_sub_step s e = Some s'"
  then show "permits_total rabbitmq_holds s' = permits_total rabbitmq_holds s"
    by (cases e) (auto simp: rabbitmq_holds_def rabbitmq_channel_def rabbitmq_opened_def permits_to_task permits_release
        elim!: permits_take [where holds = rabbitmq_holds, rotated 4] split: if_splits sum.splits)
qed

interpretation servicebus_sink: permit_sink servicebus_sub_step servicebus_holds
proof
  fix s s' :: "servicebus_task sink_sys" and e
  assume "servicebus_sub_step s e = Some s'"
  then show "permits_total servicebus_holds s' = permits_total servicebus_holds s"
    by (cases e) (auto simp: servicebus_holds_def servicebus_lock_def servicebus_connected_def servicebus_send_def Let_def
        permits_to_task permits_release
        elim!: permits_take [where holds = servicebus_holds, rotated 4] split: if_splits sum.splits servicebus_sent.splits)
qed

lemma pulsar_take:
  assumes "is_task s i PtWaiting"
    "take_permit ''Pulsar'' (PtEnded \<circ> Some) i (mark_sent i \<circ> to_task i PtPending) s = Some s'"
  shows "permits_total pulsar_holds s' = permits_total pulsar_holds s"
  using assms holders_update [of i "ss_tasks s" pulsar_holds PtPending]
    holders_update [of i "ss_tasks s" pulsar_holds "PtEnded (Some (sink_closed ''Pulsar''))"]
  by (auto simp: take_permit_def pending_acquire_def permits_total_def task_ops sink_closed_def pulsar_holds_def
      split: if_splits)

interpretation pulsar_sink: permit_sink pulsar_sub_step pulsar_holds
proof
  fix s s' :: "pulsar_task sink_sys" and e
  assume "pulsar_sub_step s e = Some s'"
  then show "permits_total pulsar_holds s' = permits_total pulsar_holds s"
    by (cases e) (auto simp: pulsar_holds_def pulsar_read_def pulsar_write_def pulsar_connected_def
        permits_to_task permits_release elim!: pulsar_take [rotated 1] split: if_splits sum.splits)
qed

text \<open>
  C27. For the Kafka, RabbitMQ, Service Bus and Pulsar sinks: whatever the interleaving of submissions,
  answers, dropped callers and closing, at most \<^verbatim>\<open>max_pending\<close> outputs are submitted and unconfirmed,
  and the free permits are exactly those that no submission holds, so no permit is lost or invented.
\<close>

theorem pending_bounded:
  assumes "pending_validate max_permits n broker = Inr ()"
  shows "(reach (\<lambda>s. s = sink_new max_permits n) kafka_sub_step k \<longrightarrow>
        holders (\<lambda>t. t = KtPending) (ss_tasks k) \<le> n
        \<and> pl_permits (ss_limit k) + holders kafka_holds (ss_tasks k) = n)
    \<and> (reach (\<lambda>s. s = sink_new max_permits n) rabbitmq_sub_step r \<longrightarrow>
        holders (\<lambda>t. t = RtPending) (ss_tasks r) \<le> n
        \<and> pl_permits (ss_limit r) + holders rabbitmq_holds (ss_tasks r) = n)
    \<and> (reach (\<lambda>s. s = sink_new max_permits n) servicebus_sub_step b \<longrightarrow>
        holders (\<lambda>t. t = StPending) (ss_tasks b) \<le> n
        \<and> pl_permits (ss_limit b) + holders servicebus_holds (ss_tasks b) = n)
    \<and> (reach (\<lambda>s. s = sink_new max_permits n) pulsar_sub_step p \<longrightarrow>
        holders (\<lambda>t. t = PtPending) (ss_tasks p) \<le> n
        \<and> pl_permits (ss_limit p) + holders pulsar_holds (ss_tasks p) = n)"
  using kafka_sink.holders_bounded [OF _ assms, of k "\<lambda>t. t = KtPending"]
    rabbitmq_sink.holders_bounded [OF _ assms, of r "\<lambda>t. t = RtPending"]
    servicebus_sink.holders_bounded [OF _ assms, of b "\<lambda>t. t = StPending"]
    pulsar_sink.holders_bounded [OF _ assms, of p "\<lambda>t. t = PtPending"]
  by (simp add: kafka_holds_def rabbitmq_holds_def servicebus_holds_def pulsar_holds_def)

definition ex_kafka_events :: "kafka_sub_event list" where
  "ex_kafka_events =
     [KeSubmit (Inr ()), KeSubmit (Inr ()), KeAcquire 0, KeAcquire 1, KeEnqueue 1 QueueFull, KeEnqueue 0 Queued,
      KeEnqueue 1 Queued, KeDelivered 0 (Some (Inr ()))]"

lemma ex_kafka_run:
  "run_ok (\<lambda>s. holders (\<lambda>t. t = KtPending) (ss_tasks s) = 1 \<and> ss_sent s = [0, 1])
     (run kafka_sub_step (sink_new 8 2) ex_kafka_events)"
  by code_simp

theorem pending_bounded_witness:
  "\<exists>k :: kafka_task sink_sys. ss_sent k = [0, 1] \<and> holders (\<lambda>t. t = KtPending) (ss_tasks k) \<le> 2
     \<and> pl_permits (ss_limit k) + holders kafka_holds (ss_tasks k) = 2"
proof -
  obtain k where k: "reach (\<lambda>s. s = sink_new 8 2) kafka_sub_step k" "ss_sent k = [0, 1]"
    using run_ok_obtain [where init = "\<lambda>s. s = sink_new 8 2", OF ex_kafka_run] by auto
  have "pending_validate 8 2 ''Kafka'' = Inr ()" by (simp add: pending_validate_def)
  from pending_bounded [OF this, of k undefined undefined undefined] k
  have "holders (\<lambda>t. t = KtPending) (ss_tasks k) \<le> 2 \<and> pl_permits (ss_limit k) + holders kafka_holds (ss_tasks k) = 2"
    by simp
  with k show ?thesis by blast
qed

section \<open>Closing\<close>

text \<open>A submission is in the phases that need the slot only while it holds the lock.\<close>

definition owned :: "('t \<Rightarrow> bool) \<Rightarrow> 't sink_sys \<Rightarrow> bool" where
  "owned p s \<longleftrightarrow> (\<forall>i < length (ss_tasks s). p (ss_tasks s ! i) \<longrightarrow> ss_lock s = Some i)"

lemma nth_update: "xs[i := x] ! j = (if i = j \<and> j < length xs then x else xs ! j)"
  by (cases "i < length xs") (auto simp: list_update_beyond)

lemma owned_to_task: "owned p s \<Longrightarrow> \<not> p t \<Longrightarrow> owned p (to_task i t s)"
  by (auto simp: owned_def to_task_def nth_update)

lemma owned_lock: "owned p s \<Longrightarrow> ss_lock s = None \<Longrightarrow> owned p ((to_task i t s)\<lparr>ss_lock := Some i\<rparr>)"
  by (auto simp: owned_def to_task_def nth_update)

lemma owned_unlock: "owned p s \<Longrightarrow> is_task s i u \<Longrightarrow> p u \<Longrightarrow> \<not> p t \<Longrightarrow> owned p (to_task i t (unlock s))"
  unfolding owned_def task_ops by (auto simp: nth_update) (metis option.inject)

lemma owned_stay: "owned p s \<Longrightarrow> is_task s i u \<Longrightarrow> p u \<Longrightarrow> owned p (to_task i t s)"
  by (auto simp: owned_def task_ops nth_update)

lemma owned_add: "owned p s \<Longrightarrow> \<not> p t \<Longrightarrow> owned p (add_task t s)"
  by (auto simp: owned_def add_task_def nth_append)

lemma owned_frame [simp]:
  "owned p (s\<lparr>ss_slot := b\<rparr>) = owned p s" "owned p (s\<lparr>ss_closed := b\<rparr>) = owned p s"
  "owned p (s\<lparr>ss_taken := b\<rparr>) = owned p s" "owned p (s\<lparr>ss_limit := l\<rparr>) = owned p s"
  "owned p (mark_sent j s) = owned p s" "owned p (release_permit s) = owned p s"
  by (simp_all add: owned_def mark_sent_def release_permit_def)

lemma owned_slot_lock [simp]: "owned p (s\<lparr>ss_slot := b, ss_lock := l\<rparr>) = owned p (s\<lparr>ss_lock := l\<rparr>)"
  by (simp add: owned_def)

lemma owned_free: "owned p s \<Longrightarrow> ss_lock s = None \<Longrightarrow> is_task s i t \<Longrightarrow> \<not> p t"
  by (auto simp: owned_def is_task_def)

fun sb_locked :: "servicebus_task \<Rightarrow> bool" where
  "sb_locked StConnecting = True"
| "sb_locked StSending = True"
| "sb_locked _ = False"

definition servicebus_close_inv :: "servicebus_task sink_sys \<Rightarrow> bool" where
  "servicebus_close_inv s \<longleftrightarrow> owned sb_locked s \<and> (ss_taken s \<longrightarrow> ss_closed s \<and> ss_lock s = None)
     \<and> (pl_closed (ss_limit s) \<longrightarrow> ss_closed s)"

lemma sb_owned_step:
  assumes "owned sb_locked s" "servicebus_sub_step s e = Some s'"
  shows "owned sb_locked s'"
  using assms
  by (cases e)
    (auto simp: servicebus_lock_def servicebus_connected_def servicebus_send_def take_permit_def pending_acquire_def
        sink_closed_def Let_def owned_to_task owned_lock owned_unlock owned_stay owned_add
        split: if_splits sum.splits servicebus_sent.splits)

interpretation servicebus_closing: invariant_system "\<lambda>s. s = sink_new max_permits n" servicebus_sub_step servicebus_close_inv
proof
  fix s :: "servicebus_task sink_sys"
  show "s = sink_new max_permits n \<Longrightarrow> servicebus_close_inv s"
    by (simp add: servicebus_close_inv_def sink_new_def owned_def pending_new_def)
next
  fix s s' :: "servicebus_task sink_sys" and e
  assume inv: "servicebus_close_inv s" and step: "servicebus_sub_step s e = Some s'"
  have "(ss_taken s' \<longrightarrow> ss_closed s' \<and> ss_lock s' = None) \<and> (pl_closed (ss_limit s') \<longrightarrow> ss_closed s')"
    using inv step
    by (cases e) (auto simp: servicebus_close_inv_def servicebus_lock_def servicebus_connected_def servicebus_send_def
        take_permit_def pending_acquire_def sink_closed_def Let_def
        to_task_def add_task_def release_permit_def unlock_def mark_sent_def pending_release_def pending_close_def
        split: if_splits sum.splits servicebus_sent.splits)
  then show "servicebus_close_inv s'" using sb_owned_step [OF _ step] inv by (simp add: servicebus_close_inv_def)
qed

lemma servicebus_sends:
  assumes "servicebus_sub_step s e = Some s'" "ss_sent s' \<noteq> ss_sent s"
  obtains i where "is_task s i StSending" "ss_sent s' = ss_sent s @ [i]"
  using assms
  by (cases e) (auto simp: servicebus_lock_def servicebus_connected_def servicebus_send_def
        take_permit_def pending_acquire_def sink_closed_def Let_def
        to_task_def add_task_def release_permit_def unlock_def mark_sent_def
        split: if_splits sum.splits servicebus_sent.splits)

fun pulsar_locked :: "pulsar_task \<Rightarrow> bool" where
  "pulsar_locked PtConnecting = True"
| "pulsar_locked _ = False"

definition pulsar_close_inv :: "pulsar_task sink_sys \<Rightarrow> bool" where
  "pulsar_close_inv s \<longleftrightarrow> owned pulsar_locked s \<and> (ss_taken s \<longrightarrow> ss_closed s \<and> write_free s)"

lemma pulsar_owned_step:
  assumes "owned pulsar_locked s" "pulsar_sub_step s e = Some s'"
  shows "owned pulsar_locked s'"
  using assms
  by (cases e)
    (auto simp: pulsar_read_def pulsar_write_def pulsar_connected_def take_permit_def pending_acquire_def write_free_def
        sink_closed_def owned_to_task owned_lock owned_unlock owned_stay owned_add
        split: if_splits sum.splits)

lemma guards_to_task:
  "write_free s \<Longrightarrow> \<not> pulsar_guards t \<Longrightarrow> write_free (to_task i t s)"
  by (auto simp: write_free_def to_task_def list_all_length nth_update)

lemma guards_frame [simp]:
  "write_free (s\<lparr>ss_slot := b\<rparr>) = write_free s" "write_free (s\<lparr>ss_closed := b\<rparr>) = write_free s"
  "write_free (s\<lparr>ss_taken := b\<rparr>) = write_free s" "write_free (s\<lparr>ss_limit := l\<rparr>) = write_free s"
  "write_free (mark_sent j s) = write_free s" "write_free (release_permit s) = write_free s"
  "write_free (add_task PtReading s) = write_free s"
  by (simp_all add: write_free_def mark_sent_def release_permit_def add_task_def pulsar_guards_def)

lemma write_free_task: "write_free s \<Longrightarrow> is_task s i t \<Longrightarrow> \<not> pulsar_guards t"
  by (auto simp: write_free_def is_task_def list_all_length)

lemma taken_frame [simp]:
  "ss_taken (to_task i t s) = ss_taken s" "ss_closed (to_task i t s) = ss_closed s"
  "ss_taken (release_permit s) = ss_taken s" "ss_closed (release_permit s) = ss_closed s"
  "ss_taken (mark_sent i s) = ss_taken s" "ss_closed (mark_sent i s) = ss_closed s"
  "ss_taken (add_task t s) = ss_taken s" "ss_closed (add_task t s) = ss_closed s"
  "ss_taken (unlock s) = ss_taken s" "ss_closed (unlock s) = ss_closed s"
  by (simp_all add: task_ops)

interpretation pulsar_closing: invariant_system "\<lambda>s. s = sink_new max_permits n" pulsar_sub_step pulsar_close_inv
proof
  fix s :: "pulsar_task sink_sys"
  show "s = sink_new max_permits n \<Longrightarrow> pulsar_close_inv s"
    by (simp add: pulsar_close_inv_def sink_new_def owned_def)
next
  fix s s' :: "pulsar_task sink_sys" and e
  assume inv: "pulsar_close_inv s" and step: "pulsar_sub_step s e = Some s'"
  have "ss_taken s' \<longrightarrow> ss_closed s' \<and> write_free s'"
  proof (cases "ss_taken s")
    case True
    then have free: "ss_closed s" "write_free s" "owned pulsar_locked s" using inv by (simp_all add: pulsar_close_inv_def)
    then have lock: "ss_lock s = None" by (simp add: write_free_def)
    have no: "\<not> is_task s i PtConnecting" "\<not> is_task s i PtWaiting" "\<not> is_task s i PtPending" for i
      using owned_free [OF free(3) lock, of i PtConnecting] write_free_task [OF free(2)] by (auto simp: pulsar_guards_def)
    show ?thesis using step free lock no
      by (cases e) (auto simp: pulsar_read_def pulsar_write_def guards_to_task pulsar_guards_def split: if_splits)
  next
    case False
    with step show ?thesis
      by (cases e) (auto simp: pulsar_read_def pulsar_write_def pulsar_connected_def take_permit_def
          split: if_splits sum.splits option.splits prod.splits)
  qed
  then show "pulsar_close_inv s'" using pulsar_owned_step [OF _ step] inv by (simp add: pulsar_close_inv_def)
qed

lemma pulsar_sends:
  assumes "pulsar_sub_step s e = Some s'" "ss_sent s' \<noteq> ss_sent s"
  obtains i where "is_task s i PtWaiting" "ss_sent s' = ss_sent s @ [i]"
  using assms
  by (cases e) (auto simp: pulsar_read_def pulsar_write_def pulsar_connected_def
        take_permit_def pending_acquire_def sink_closed_def
        to_task_def add_task_def release_permit_def unlock_def mark_sent_def
        split: if_splits sum.splits)

lemma holders_same: "i < length ts \<Longrightarrow> holds (ts ! i) \<Longrightarrow> holders holds (ts[i := t]) \<le> holders holds ts"
  using holders_update [of i ts holds t] by (simp split: if_splits)

lemma holders_less: "i < length ts \<Longrightarrow> \<not> holds t \<Longrightarrow> holders holds (ts[i := t]) \<le> holders holds ts"
  using holders_update [of i ts holds t] by (simp split: if_splits)

lemma kafka_closed:
  assumes "kafka_sub_step k e = Some k'" "pl_closed (ss_limit k)"
  shows "holders kafka_holds (ss_tasks k') \<le> holders kafka_holds (ss_tasks k)"
    "e = KeAcquire i \<Longrightarrow> is_task k' i (KtEnded (Some (sink_closed ''Kafka'')))"
proof -
  show "holders kafka_holds (ss_tasks k') \<le> holders kafka_holds (ss_tasks k)"
    using assms
    by (cases e) (auto simp: take_permit_def pending_acquire_def sink_closed_def task_ops kafka_holds_def holders_less holders_same
        split: if_splits enqueue_answer.splits sum.splits)
qed (use assms in \<open>auto simp: take_permit_def pending_acquire_def sink_closed_def task_ops split: if_splits\<close>)

lemma rabbitmq_closed:
  assumes "rabbitmq_sub_step k e = Some k'" "pl_closed (ss_limit k)"
  shows "holders rabbitmq_holds (ss_tasks k') \<le> holders rabbitmq_holds (ss_tasks k)"
    "e = ReAcquire i \<Longrightarrow> is_task k' i (RtEnded (Some (sink_closed ''RabbitMQ'')))"
proof -
  show "holders rabbitmq_holds (ss_tasks k') \<le> holders rabbitmq_holds (ss_tasks k)"
    using assms
    by (cases e) (auto simp: take_permit_def pending_acquire_def sink_closed_def task_ops rabbitmq_holds_def holders_less holders_same
        rabbitmq_channel_def rabbitmq_opened_def
        split: if_splits sum.splits)
qed (use assms in \<open>auto simp: take_permit_def pending_acquire_def sink_closed_def task_ops split: if_splits\<close>)

lemma servicebus_taken:
  assumes "reach (\<lambda>s. s = sink_new max_permits n) servicebus_sub_step b" "servicebus_sub_step b e = Some b'" "ss_taken b"
  shows "ss_sent b' = ss_sent b"
proof (rule ccontr)
  assume "ss_sent b' \<noteq> ss_sent b"
  with assms(2) obtain i where "is_task b i StSending" by (rule servicebus_sends)
  moreover have "servicebus_close_inv b" by (rule servicebus_closing.reach_inv [OF assms(1)])
  ultimately show False using assms(3) owned_free [of sb_locked b i StSending] by (simp add: servicebus_close_inv_def)
qed

lemma pulsar_taken:
  assumes "reach (\<lambda>s. s = sink_new max_permits n) pulsar_sub_step p" "pulsar_sub_step p e = Some p'" "ss_taken p'"
  shows "list_all (\<lambda>t. t \<noteq> PtPending) (ss_tasks p')" "ss_sent p' = ss_sent p"
proof -
  have inv: "pulsar_close_inv p" "pulsar_close_inv p'"
    using pulsar_closing.reach_inv [OF assms(1)] pulsar_closing.inv_step [OF _ assms(2)] by blast+
  then show "list_all (\<lambda>t. t \<noteq> PtPending) (ss_tasks p')"
    using assms(3) by (auto simp: pulsar_close_inv_def write_free_def pulsar_guards_def list_all_iff)
  show "ss_sent p' = ss_sent p"
  proof (rule ccontr)
    assume "ss_sent p' \<noteq> ss_sent p"
    with assms(2) obtain i where i: "is_task p i PtWaiting" by (rule pulsar_sends)
    have "ss_taken p \<or> e = PeCloseTake" using assms(2,3)
      by (cases e) (auto simp: pulsar_read_def pulsar_write_def pulsar_connected_def take_permit_def
          split: if_splits sum.splits option.splits prod.splits)
    then have "write_free p" using inv(1) assms(2) by (auto simp: pulsar_close_inv_def split: if_splits)
    with i show False using write_free_task by (force simp: pulsar_guards_def)
  qed
qed

text \<open>A message of the Pulsar sink is unconfirmed until its receipt comes or its caller gives up.\<close>

definition pulsar_sent_ok :: "pulsar_sub_event list \<Rightarrow> pulsar_task sink_sys \<Rightarrow> bool" where
  "pulsar_sent_ok es p \<longleftrightarrow>
     (\<forall>i \<in> set (ss_sent p).
        is_task p i PtPending \<or> (\<exists>receipt. PeReceipt i receipt \<in> set es) \<or> PeDrop i \<in> set es)"

lemma pulsar_sent_step:
  assumes "pulsar_sent_ok es p" "pulsar_sub_step p e = Some p'"
  shows "pulsar_sent_ok (es @ [e]) p'"
proof -
  have "is_task p' i PtPending \<or> (\<exists>receipt. e = PeReceipt i receipt) \<or> e = PeDrop i"
    if "is_task p i PtPending" for i
    using assms(2) that
    by (cases e) (auto simp: pulsar_read_def pulsar_write_def pulsar_connected_def take_permit_def pending_acquire_def
        sink_closed_def task_ops is_task_def nth_append nth_list_update split: if_splits sum.splits)
  moreover have "ss_sent p' = ss_sent p \<or> (\<exists>i. ss_sent p' = ss_sent p @ [i] \<and> is_task p' i PtPending)"
    using assms(2)
    by (cases e) (auto simp: pulsar_read_def pulsar_write_def pulsar_connected_def take_permit_def pending_acquire_def
        sink_closed_def task_ops is_task_def split: if_splits sum.splits)
  ultimately show ?thesis using assms(1) unfolding pulsar_sent_ok_def by fastforce
qed

lemma pulsar_confirmed:
  assumes "run pulsar_sub_step (sink_new max_permits n) es = Some q" "ss_taken q" "i \<in> set (ss_sent q)"
  shows "(\<exists>receipt. PeReceipt i receipt \<in> set es) \<or> PeDrop i \<in> set es"
proof -
  have "pulsar_sent_ok es q"
    by (rule run_history [where P = pulsar_sent_ok, OF assms(1)])
      (simp add: pulsar_sent_ok_def sink_new_def, rule pulsar_sent_step)
  moreover have "pulsar_close_inv q"
    by (rule pulsar_closing.reach_inv [OF run_reach [where init = "\<lambda>s. s = sink_new max_permits n", OF refl assms(1)]])
  then have "\<not> is_task q i PtPending"
    using assms(2) write_free_task [of q i PtPending] by (auto simp: pulsar_close_inv_def pulsar_guards_def)
  ultimately show ?thesis using assms(3) unfolding pulsar_sent_ok_def by blast
qed

text \<open>
  C28. Closing a sink stops it: once the limit of a Kafka or RabbitMQ sink is closed no submission gets
  in that was not in before, and one that waited for a permit ends with the sink's closed error; once
  \<^verbatim>\<open>close\<close> of a Service Bus sink took the link, nothing is sent any more; and once \<^verbatim>\<open>close\<close> of a Pulsar sink
  took the producers, every message handed to them got its receipt, unless the caller dropped its
  submission, no submission waits for a receipt and nothing is sent any more.
\<close>

theorem closed_sinks_stop:
  shows "(kafka_sub_step k ek = Some k' \<and> pl_closed (ss_limit k) \<longrightarrow>
        holders kafka_holds (ss_tasks k') \<le> holders kafka_holds (ss_tasks k)
        \<and> (\<forall>i. ek = KeAcquire i \<longrightarrow> is_task k' i (KtEnded (Some (sink_closed ''Kafka'')))))
    \<and> (rabbitmq_sub_step r er = Some r' \<and> pl_closed (ss_limit r) \<longrightarrow>
        holders rabbitmq_holds (ss_tasks r') \<le> holders rabbitmq_holds (ss_tasks r)
        \<and> (\<forall>i. er = ReAcquire i \<longrightarrow> is_task r' i (RtEnded (Some (sink_closed ''RabbitMQ'')))))
    \<and> (reach (\<lambda>s. s = sink_new max_permits n) servicebus_sub_step b
        \<and> servicebus_sub_step b eb = Some b' \<and> ss_taken b \<longrightarrow> ss_sent b' = ss_sent b)
    \<and> (reach (\<lambda>s. s = sink_new max_permits n) pulsar_sub_step p
        \<and> pulsar_sub_step p ep = Some p' \<and> ss_taken p' \<longrightarrow>
        list_all (\<lambda>t. t \<noteq> PtPending) (ss_tasks p') \<and> ss_sent p' = ss_sent p)
    \<and> (run pulsar_sub_step (sink_new max_permits n) es = Some q \<and> ss_taken q \<longrightarrow>
        (\<forall>i. i \<in> set (ss_sent q) \<longrightarrow> (\<exists>receipt. PeReceipt i receipt \<in> set es) \<or> PeDrop i \<in> set es))"
  using kafka_closed [of k ek k'] rabbitmq_closed [of r er r'] servicebus_taken [of max_permits n b eb b']
    pulsar_taken [of max_permits n p ep p'] pulsar_confirmed [of max_permits n es q]
  by blast

definition ex_pulsar_events :: "pulsar_sub_event list" where
  "ex_pulsar_events =
     [PeSubmit, PeRead 0, PeWrite 0, PeConnected 0 (Inr ()), PeRead 0, PeAcquire 0, PeSubmit, PeRead 1,
      PeCloseLimit, PeCloseFlag, PeAcquire 1, PeReceipt 0 (Inr ())]"

lemma ex_pulsar_run:
  "run_ok (\<lambda>s. pulsar_sub_step s PeCloseTake \<noteq> None \<and> ss_closed s \<and> ss_sent s = [0] \<and> write_free s)
     (run pulsar_sub_step (sink_new 8 2) ex_pulsar_events)"
  by code_simp

theorem closed_sinks_stop_witness:
  "\<exists>p p'. pulsar_sub_step p PeCloseTake = Some p' \<and> ss_taken p' \<and> ss_sent p' = [0]
     \<and> list_all (\<lambda>t. t \<noteq> PtPending) (ss_tasks p')
     \<and> run pulsar_sub_step (sink_new 8 2) (ex_pulsar_events @ [PeCloseTake]) = Some p'
     \<and> ((\<exists>receipt. PeReceipt 0 receipt \<in> set (ex_pulsar_events @ [PeCloseTake]))
        \<or> PeDrop 0 \<in> set (ex_pulsar_events @ [PeCloseTake]))"
proof -
  obtain p where p: "reach (\<lambda>s. s = sink_new 8 2) pulsar_sub_step p" "ss_closed p" "write_free p" "ss_sent p = [0]"
    and run: "run pulsar_sub_step (sink_new 8 2) ex_pulsar_events = Some p"
    using run_ok_reach [where init = "\<lambda>s. s = sink_new 8 2", OF refl ex_pulsar_run] by auto
  let ?p = "p\<lparr>ss_slot := False, ss_taken := True\<rparr>"
  have step: "pulsar_sub_step p PeCloseTake = Some ?p" using p by simp
  then have run': "run pulsar_sub_step (sink_new 8 2) (ex_pulsar_events @ [PeCloseTake]) = Some ?p"
    using run by (simp add: run_append)
  note stop = closed_sinks_stop [of _ _ _ _ _ _ 8 2 _ _ _ p PeCloseTake ?p "ex_pulsar_events @ [PeCloseTake]" ?p]
  then have "list_all (\<lambda>t. t \<noteq> PtPending) (ss_tasks ?p)" using p step by simp
  moreover have "(\<exists>receipt. PeReceipt 0 receipt \<in> set (ex_pulsar_events @ [PeCloseTake]))
      \<or> PeDrop 0 \<in> set (ex_pulsar_events @ [PeCloseTake])"
    using stop run' p(4) by fastforce
  ultimately show ?thesis using step p run' by (intro exI [of _ p] exI [of _ ?p]) simp
qed

end
