(* ===== verification/Kafka_Source.thy ===== *)
theory Kafka_Source
  imports Kafka_Progress Kafka_Records Submissions
begin

text \<open>
  The Kafka source and handle of \<^verbatim>\<open>src/adapters/kafka\<close>: settings (\<^verbatim>\<open>config.rs\<close>, \<^verbatim>\<open>client.rs\<close>), what a
  record becomes on its way out and in (\<^verbatim>\<open>sink.rs\<close>, \<^verbatim>\<open>source.rs\<close>), the thread that polls the consumer
  (\<^verbatim>\<open>poller.rs\<close>), and receiving, acknowledging, pausing and closing (\<^verbatim>\<open>source.rs\<close>) over the progress of
  \<open>Kafka_Progress\<close>.

  A configuration of the client library is the map of its properties; a hash map of properties is a
  map, since the order in which different properties are set does not matter.
\<close>

section \<open>Settings\<close>

record kafka_settings =
  kg_brokers :: string
  kg_properties :: "string \<rightharpoonup> string"
  kg_producer_properties :: "string \<rightharpoonup> string"

definition kafka_settings_new :: "string \<Rightarrow> kafka_settings" where
  "kafka_settings_new brokers =
     \<lparr>kg_brokers = brokers, kg_properties = Map.empty, kg_producer_properties = Map.empty\<rparr>"

definition kafka_property :: "string \<Rightarrow> string \<Rightarrow> kafka_settings \<Rightarrow> kafka_settings" where
  "kafka_property name v k = k\<lparr>kg_properties := (kg_properties k)(name \<mapsto> v)\<rparr>"

definition kafka_producer_property :: "string \<Rightarrow> string \<Rightarrow> kafka_settings \<Rightarrow> kafka_settings" where
  "kafka_producer_property name v k = k\<lparr>kg_producer_properties := (kg_producer_properties k)(name \<mapsto> v)\<rparr>"

definition sasl_plain :: "string \<Rightarrow> string \<Rightarrow> kafka_settings \<Rightarrow> kafka_settings" where
  "sasl_plain username password k =
     (let ps = kg_properties k;
          ps = (case ps ''security.protocol'' of None \<Rightarrow> ps(''security.protocol'' \<mapsto> ''SASL_SSL'') | Some _ \<Rightarrow> ps)
      in k\<lparr>kg_properties := ps(''sasl.mechanism'' \<mapsto> ''PLAIN'', ''sasl.username'' \<mapsto> username,
             ''sasl.password'' \<mapsto> password)\<rparr>)"

definition kafka_transactional_id :: string where
  "kafka_transactional_id = ''transactional.id''"

text \<open>\<^verbatim>\<open>validate_properties\<close>, on the properties in the order their hash map yields them.\<close>

fun validate_properties :: "(string \<times> string) list \<Rightarrow> error + unit" where
  "validate_properties [] = Inr ()"
| "validate_properties ((name, v) # ps) =
     and_then (ensure_config (\<not> trimmed_empty name) ''Kafka property names must not be empty'')
    (and_then (ensure_config (CHR 0x00 \<notin> set v) ''Kafka property values must not contain NUL bytes'')
       (validate_properties ps))"

text \<open>\<open>ps\<close> and \<open>qs\<close> are the entries of both property maps.\<close>

definition kafka_validate ::
  "(string \<times> string) list \<Rightarrow> (string \<times> string) list \<Rightarrow> kafka_settings \<Rightarrow> error + unit" where
  "kafka_validate ps qs k =
     and_then (ensure_config (\<not> trimmed_empty (kg_brokers k)) ''Kafka brokers are required'')
    (and_then (ensure_config (kg_properties k kafka_transactional_id = None
                  \<and> kg_producer_properties k kafka_transactional_id = None)
                ''set the Kafka transactional ID with KafkaSink::transactional'')
    (and_then (validate_properties ps) (validate_properties qs)))"

definition client_config :: "kafka_settings \<Rightarrow> string \<rightharpoonup> string" where
  "client_config k = (kg_properties k)(''bootstrap.servers'' \<mapsto> kg_brokers k)"

definition producer_config :: "kafka_settings \<Rightarrow> string \<rightharpoonup> string" where
  "producer_config k = client_config k ++ kg_producer_properties k"

record kafka_source_config =
  kn_group_id :: string
  kn_topics :: "string list"
  kn_properties :: "string \<rightharpoonup> string"
  kn_handoff :: "duration option"

definition kafka_source_config_new :: "string \<Rightarrow> string list \<Rightarrow> kafka_source_config" where
  "kafka_source_config_new group_id topics =
     \<lparr>kn_group_id = group_id, kn_topics = topics, kn_properties = Map.empty, kn_handoff = None\<rparr>"

definition max_poll_interval :: string where
  "max_poll_interval = ''max.poll.interval.ms''"

definition default_max_poll_interval :: duration where
  "default_max_poll_interval = 300 * 1000 * millisecond"

fun topics_ok :: "string list \<Rightarrow> error + unit" where
  "topics_ok [] = Inr ()"
| "topics_ok (t # ts) =
     and_then (ensure_config (\<not> trimmed_empty t) ''Kafka topic names must not be empty'') (topics_ok ts)"

text \<open>The poll interval: the source's setting, else the handle's, else the default.\<close>

definition poll_interval :: "(string \<rightharpoonup> string) \<Rightarrow> kafka_source_config \<Rightarrow> error + duration" where
  "poll_interval client c =
     (case (case kn_properties c max_poll_interval of Some v \<Rightarrow> Some v | None \<Rightarrow> client max_poll_interval) of
        None \<Rightarrow> Inr default_max_poll_interval
      | Some v \<Rightarrow>
          (case parse_unsigned (2 ^ 64 - 1) v of
             Inl _ \<Rightarrow> Inl (error_config ''Kafka max.poll.interval.ms must be an integer'')
           | Inr ms \<Rightarrow> Inr (ms * millisecond)))"

definition kafka_source_validate ::
  "(string \<rightharpoonup> string) \<Rightarrow> (string \<times> string) list \<Rightarrow> kafka_source_config \<Rightarrow> error + unit" where
  "kafka_source_validate client ps c =
     and_then (ensure_config (\<not> trimmed_empty (kn_group_id c)) ''Kafka group ID is required'')
    (and_then (ensure_config (kn_topics c \<noteq> []) ''at least one Kafka topic is required'')
    (and_then (topics_ok (kn_topics c))
    (and_then (validate_properties ps)
       (case kn_handoff c of
          None \<Rightarrow> Inr ()
        | Some handoff \<Rightarrow>
            (case poll_interval client c of
               Inl e \<Rightarrow> Inl e
             | Inr interval \<Rightarrow>
                 ensure_config (0 < handoff \<and> handoff < interval)
                   ''Kafka graceful handoff timeout must be positive and shorter than max.poll.interval.ms'')))))"

definition statistics_interval_ms :: string where
  "statistics_interval_ms = ''5000''"

text \<open>The consumer's configuration in \<^verbatim>\<open>KafkaSource::connect\<close>.\<close>

definition consumer_config :: "kafka_settings \<Rightarrow> kafka_source_config \<Rightarrow> string \<rightharpoonup> string" where
  "consumer_config k c =
     (let config = client_config k ++ kn_properties c;
          config = (if config ''statistics.interval.ms'' = None
                    then config(''statistics.interval.ms'' \<mapsto> statistics_interval_ms) else config)
      in config(''group.id'' \<mapsto> kn_group_id c, ''enable.auto.commit'' \<mapsto> ''false'',
           ''enable.auto.offset.store'' \<mapsto> ''false''))"

record kafka_sink_config =
  kl_topic :: string
  kl_max_pending :: nat
  kl_close_timeout :: duration

definition kafka_sink_config_new :: "string \<Rightarrow> kafka_sink_config" where
  "kafka_sink_config_new topic =
     \<lparr>kl_topic = topic, kl_max_pending = 1000, kl_close_timeout = 30 * 1000 * millisecond\<rparr>"

definition kafka_validate_topic :: "string \<Rightarrow> error + unit" where
  "kafka_validate_topic topic = ensure_config (\<not> trimmed_empty topic) ''Kafka topic is required''"

definition kafka_sink_validate :: "nat \<Rightarrow> kafka_sink_config \<Rightarrow> error + unit" where
  "kafka_sink_validate max_permits c =
     and_then (kafka_validate_topic (kl_topic c)) (pending_validate max_permits (kl_max_pending c) ''Kafka'')"

record kafka_transactional_config =
  kx_topic :: string
  kx_transactional_id :: string
  kx_close_timeout :: duration
  kx_transaction_timeout :: duration

definition kafka_transactional :: "string \<Rightarrow> kafka_sink_config \<Rightarrow> kafka_transactional_config" where
  "kafka_transactional transactional_id c =
     \<lparr>kx_topic = kl_topic c, kx_transactional_id = transactional_id, kx_close_timeout = kl_close_timeout c,
      kx_transaction_timeout = 60 * 1000 * millisecond\<rparr>"

definition kafka_transactional_validate :: "kafka_transactional_config \<Rightarrow> error + unit" where
  "kafka_transactional_validate c =
     and_then (kafka_validate_topic (kx_topic c))
       (ensure_config (\<not> trimmed_empty (kx_transactional_id c)) ''Kafka transactional ID is required'')"

section \<open>Records\<close>

record kafka_prepared =
  ka_key :: "bytes option"
  ka_value :: "bytes option"
  ka_headers :: kafka_headers

definition kafka_prepare :: "('v \<Rightarrow> bytes outcome) \<Rightarrow> 'v kafka_publish \<Rightarrow> kafka_prepared outcome" where
  "kafka_prepare encode p =
     (case kp_value p of
        None \<Rightarrow> Inr \<lparr>ka_key = kp_key p, ka_value = None, ka_headers = kp_headers p\<rparr>
      | Some v \<Rightarrow>
          bind_result (encode v) (\<lambda>bytes. Inr \<lparr>ka_key = kp_key p, ka_value = Some bytes, ka_headers = kp_headers p\<rparr>))"

text \<open>A record of the client library, as \<^verbatim>\<open>enqueue\<close> builds it and as the source receives it.\<close>

record future_record =
  fr_topic :: string
  fr_key :: "bytes option"
  fr_payload :: "bytes option"
  fr_headers :: "kafka_headers option"

definition kafka_future_record :: "string \<Rightarrow> kafka_prepared \<Rightarrow> future_record" where
  "kafka_future_record topic output =
     \<lparr>fr_topic = topic, fr_key = ka_key output, fr_payload = ka_value output,
      fr_headers = (if ka_headers output = [] then None else Some (ka_headers output))\<rparr>"

record raw_record = future_record +
  rw_partition :: int
  rw_offset :: int
  rw_timestamp :: "int option"

definition kafka_metadata_of :: "raw_record \<Rightarrow> kafka_metadata" where
  "kafka_metadata_of raw =
     \<lparr>km_topic = fr_topic raw, km_partition = rw_partition raw, km_offset = rw_offset raw,
      km_timestamp = rw_timestamp raw\<rparr>"

definition kafka_record_of :: "(bytes \<Rightarrow> 'e + 'v) \<Rightarrow> raw_record \<Rightarrow> 'e + 'v kafka_record" where
  "kafka_record_of decode raw =
     (let record = (\<lambda>v. \<lparr>kr_key = fr_key raw, kr_value = v,
                        kr_headers = (case fr_headers raw of None \<Rightarrow> [] | Some hs \<Rightarrow> hs),
                        kr_metadata = kafka_metadata_of raw\<rparr>) in
      case fr_payload raw of
        None \<Rightarrow> Inr (record None)
      | Some bytes \<Rightarrow> (case decode bytes of Inl e \<Rightarrow> Inl e | Inr v \<Rightarrow> Inr (record (Some v))))"

definition kafka_ordering_key :: "raw_record \<Rightarrow> ordering_key" where
  "kafka_ordering_key raw = ordering_key_new (fr_topic raw) (rw_partition raw)"

definition kafka_position :: "raw_record \<Rightarrow> position" where
  "kafka_position raw = position_new (fr_topic raw) (rw_partition raw) (rw_offset raw)"

definition kafka_propagation_fields :: "raw_record \<Rightarrow> (string \<times> string) list" where
  "kafka_propagation_fields raw = (case fr_headers raw of None \<Rightarrow> [] | Some hs \<Rightarrow> text_headers hs)"

text \<open>\<^verbatim>\<open>partition\<close>: the partition an ordering key names, whose index must fit an \<^verbatim>\<open>i32\<close>.\<close>

definition partition_of :: "ordering_key \<Rightarrow> partition option" where
  "partition_of key =
     (if - (2 ^ 31) \<le> ok_index key \<and> ok_index key < 2 ^ 31 then Some (ok_scope key, ok_index key) else None)"

section \<open>The connection probe\<close>

record kafka_broker =
  kb_source :: string
  kb_state :: string

definition probe_update :: "kafka_broker list \<Rightarrow> bool option" where
  "probe_update brokers = Some (list_ex (\<lambda>b. kb_source b \<noteq> ''internal'' \<and> kb_state b = ''UP'') brokers)"

section \<open>Polling and receiving\<close>

text \<open>
  \<open>kc_owned\<close> and \<open>kc_last\<close> are the client library's: the partitions it consumes and the offset it
  last returned of each since it was assigned. \<open>kc_hand\<close> is a record the thread has polled, \<open>kc_item\<close>
  what it sends next with the generation it has read, \<open>kc_channel\<close> the channel, which holds one.
  \<open>kc_polled\<close>, \<open>kc_skipped\<close> and \<open>kc_dropped\<close> are history: the records that got a generation, those
  \<^verbatim>\<open>receive\<close> skipped, and those that were in the channel or the thread when the source closed.
\<close>

record kafka_source =
  kc_kafka :: kafka_sys
  kc_owned :: "partition set"
  kc_last :: "partition \<rightharpoonup> int"
  kc_hand :: "(partition \<times> int) option"
  kc_item :: "(box_error + delivery_id) option"
  kc_channel :: "(box_error + delivery_id) list"
  kc_closed :: bool
  kc_stop :: bool
  kc_receiving :: bool
  kc_polled :: "delivery_id list"
  kc_skipped :: "delivery_id list"
  kc_dropped :: "delivery_id list"

definition items_of :: "(box_error + delivery_id) list \<Rightarrow> delivery_id list" where
  "items_of xs = concat (map (\<lambda>x. case x of Inl _ \<Rightarrow> [] | Inr d \<Rightarrow> [d]) xs)"

datatype source_event =
    SPoll partition int
  | SPollError box_error
  | SGeneration
  | SSend
  | SAssigned "partition list"
  | SRevoked "partition list"
  | SHandoff "partition list"
  | SHandoffCommit "partition list"
  | SLost "partition list"
  | SReceive
  | SAck u64 partition int
  | SCommitted
  | SCommitFailed
  | SDrop u64 partition int
  | SPause ordering_key
  | SResume ordering_key
  | SClose "partition list"
  | SStop

text \<open>The thread may poll: it is not stopping and has nothing in its hands.\<close>

definition polling :: "kafka_source \<Rightarrow> bool" where
  "polling s \<longleftrightarrow> \<not> kc_stop s \<and> kc_receiving s \<and> kc_hand s = None \<and> kc_item s = None"

definition lift_kafka :: "kafka_event \<Rightarrow> kafka_source \<Rightarrow> kafka_source option" where
  "lift_kafka e s = map_option (\<lambda>k. s\<lparr>kc_kafka := k\<rparr>) (kafka_step (kc_kafka s) e)"

text \<open>The assigned partitions, in some order; the client consumes all of them.\<close>

definition assigned_keys :: "partition list \<Rightarrow> kafka_source \<Rightarrow> bool" where
  "assigned_keys ks s \<longleftrightarrow>
     list_all (\<lambda>k. kp_active (ks_progress (kc_kafka s)) k \<noteq> None) ks
     \<and> (\<forall>k \<in> kc_owned s. kp_active (ks_progress (kc_kafka s)) k \<noteq> None \<longrightarrow> k \<in> set ks)"

text \<open>A record that was polled gets the generation of its partition; without an assignment it is stale.\<close>

definition poller_tag :: "partition \<Rightarrow> int \<Rightarrow> kafka_source \<Rightarrow> kafka_source" where
  "poller_tag k off s =
     (case kp_generation (ks_progress (kc_kafka s)) k of
        None \<Rightarrow> s\<lparr>kc_hand := None\<rparr>
      | Some g \<Rightarrow> s\<lparr>kc_hand := None, kc_item := Some (Inr (k, g, off)), kc_polled := kc_polled s @ [(k, g, off)]\<rparr>)"

definition poller_send :: "box_error + delivery_id \<Rightarrow> kafka_source \<Rightarrow> kafka_source option" where
  "poller_send x s =
     (if \<not> kc_receiving s then Some (s\<lparr>kc_item := None, kc_stop := True, kc_dropped := kc_dropped s @ items_of [x]\<rparr>)
      else if kc_channel s = [] then Some (s\<lparr>kc_item := None, kc_channel := [x]\<rparr>)
      else None)"

text \<open>One turn of the loop of \<^verbatim>\<open>KafkaSource::receive\<close>; an error is returned to be retried.\<close>

definition source_receive_one :: "kafka_source \<Rightarrow> kafka_source option" where
  "source_receive_one s =
     (case kc_channel s of
        [] \<Rightarrow> None
      | Inl e # rest \<Rightarrow> Some (s\<lparr>kc_channel := rest\<rparr>)
      | Inr (k, g, off) # rest \<Rightarrow>
          (case kp_register k g off (ks_progress (kc_kafka s)) of
             None \<Rightarrow> Some (s\<lparr>kc_channel := rest, kc_skipped := kc_skipped s @ [(k, g, off)]\<rparr>)
           | Some (r, p) \<Rightarrow>
               Some (s\<lparr>kc_channel := rest,
                       kc_kafka := (kc_kafka s)\<lparr>ks_progress := p, ks_delivered := (k, g, off) # ks_delivered (kc_kafka s)\<rparr>\<rparr>)))"

text \<open>Once the source has closed it has no consumer, and pausing and resuming do nothing.\<close>

definition source_pause :: "ordering_key \<Rightarrow> kafka_source \<Rightarrow> bool \<times> kafka_source" where
  "source_pause key s =
     (case (if kc_receiving s then partition_of key else None) of
        None \<Rightarrow> (False, s)
      | Some k \<Rightarrow> (True, s\<lparr>kc_kafka := (kc_kafka s)\<lparr>ks_progress := snd (kp_pause k (ks_progress (kc_kafka s)))\<rparr>\<rparr>))"

definition source_resume :: "ordering_key \<Rightarrow> kafka_source \<Rightarrow> kafka_source" where
  "source_resume key s =
     (case (if kc_receiving s then partition_of key else None) of
        None \<Rightarrow> s
      | Some k \<Rightarrow> s\<lparr>kc_kafka := (kc_kafka s)\<lparr>ks_progress := snd (kp_resume k (ks_progress (kc_kafka s)))\<rparr>\<rparr>)"

text \<open>
  The client library runs the rebalance callbacks inside \<^verbatim>\<open>poll\<close>, so while the thread holds no record; it
  assigns only partitions it does not consume, and returns the records of a partition in the order
  of their offsets. An acknowledgement that finds the assignment lost revokes everything.
\<close>

fun source_step :: "kafka_source \<Rightarrow> source_event \<Rightarrow> kafka_source option" where
  "source_step s (SPoll k off) =
     (if polling s \<and> k \<in> kc_owned s \<and> offset_ok off \<and> (case kc_last s k of None \<Rightarrow> True | Some l \<Rightarrow> l < off)
      then Some (s\<lparr>kc_hand := Some (k, off), kc_last := (kc_last s)(k \<mapsto> off)\<rparr>) else None)"
| "source_step s (SPollError e) =
     (if polling s then Some (s\<lparr>kc_item := Some (Inl e)\<rparr>) else None)"
| "source_step s SGeneration =
     (case kc_hand s of None \<Rightarrow> None | Some (k, off) \<Rightarrow> Some (poller_tag k off s))"
| "source_step s SSend = (case kc_item s of None \<Rightarrow> None | Some x \<Rightarrow> poller_send x s)"
| "source_step s (SAssigned ks) =
     (if polling s \<and> set ks \<inter> kc_owned s = {}
      then map_option (\<lambda>k. s\<lparr>kc_kafka := k, kc_owned := kc_owned s \<union> set ks,
                            kc_last := (\<lambda>k. if k \<in> set ks then None else kc_last s k)\<rparr>) (kafka_step (kc_kafka s) (KAssign ks))
      else None)"
| "source_step s (SRevoked ks) =
     (if polling s then map_option (\<lambda>s. s\<lparr>kc_owned := kc_owned s - set ks\<rparr>) (lift_kafka (KRevoke ks) s) else None)"
| "source_step s (SHandoff ks) = (if polling s then lift_kafka (KBeginHandoff ks) s else None)"
| "source_step s (SHandoffCommit ks) = (if polling s then lift_kafka (KHandoffCommit ks) s else None)"
| "source_step s (SLost ks) =
     (if assigned_keys ks s then lift_kafka (KRevoke ks) s else None)"
| "source_step s SReceive = (if kc_closed s then None else source_receive_one s)"
| "source_step s (SAck g k off) = lift_kafka (KAck g k off) s"
| "source_step s SCommitted = lift_kafka KCommitted s"
| "source_step s SCommitFailed = lift_kafka KCommitFailed s"
| "source_step s (SDrop g k off) = lift_kafka (KDrop g k off) s"
| "source_step s (SPause key) = Some (snd (source_pause key s))"
| "source_step s (SResume key) = Some (source_resume key s)"
| "source_step s (SClose ks) =
     (if assigned_keys ks s then map_option (\<lambda>s. s\<lparr>kc_closed := True\<rparr>) (lift_kafka (KRevoke ks) s) else None)"
| "source_step s SStop =
     (if kc_closed s
      then Some (s\<lparr>kc_stop := True, kc_receiving := False, kc_channel := [],
                  kc_dropped := kc_dropped s @ items_of (kc_channel s)\<rparr>)
      else None)"

text \<open>The source once its first \<^verbatim>\<open>receive\<close> has connected it.\<close>

definition source_new :: kafka_source where
  "source_new =
     \<lparr>kc_kafka = kafka_new, kc_owned = {}, kc_last = Map.empty, kc_hand = None, kc_item = None, kc_channel = [],
      kc_closed = False, kc_stop = False, kc_receiving = True, kc_polled = [], kc_skipped = [], kc_dropped = []\<rparr>"

abbreviation source_reach :: "kafka_source \<Rightarrow> bool" where
  "source_reach \<equiv> reach (\<lambda>s. s = source_new) source_step"

section \<open>What every event of the progress keeps\<close>

lemma kp_gen_step:
  assumes "kafka_step s e = Some s'"
  shows "kp_gen (ks_progress s) k \<le> kp_gen (ks_progress s') k"
proof (cases e)
  case (KAssign ks)
  with assms have b: "bumpable ks (ks_progress s)" by (simp split: if_splits)
  then have "k \<in> set ks \<Longrightarrow> kp_gen (ks_progress s) k \<noteq> - 1" by (auto simp: bumpable_def list_all_iff)
  with KAssign assms b word_bump [of "kp_gen (ks_progress s) k", OF _ order_refl] show ?thesis
    by (auto simp: kp_gen_assign intro: less_imp_le split: if_splits)
next
  case (KRevoke ks)
  with assms have b: "bumpable ks (ks_progress s)" by (simp split: if_splits)
  then have "k \<in> set ks \<Longrightarrow> kp_gen (ks_progress s) k \<noteq> - 1" by (auto simp: bumpable_def list_all_iff)
  with KRevoke assms b word_bump [of "kp_gen (ks_progress s) k", OF _ order_refl] show ?thesis
    by (auto simp: pre_rebalance_revoke_def kp_gen_revokes intro: less_imp_le split: if_splits)
next
  case (KAck h j off)
  with assms have "ks_progress s' = snd (kp_complete h j off (ks_progress s))"
    by (auto split: if_splits prod.splits sum.splits option.splits)
  then show ?thesis by (simp add: kp_gen_frame)
qed (use assms in \<open>auto simp: kp_gen_frame kp_gen_committed_all Let_def split: if_splits option.splits\<close>)

lemma current_back:
  assumes "kafka_step s e = Some s'" "g \<le> kp_gen (ks_progress s) k" "kp_is_current (ks_progress s') g k"
  shows "kp_is_current (ks_progress s) g k"
  using expired_step [OF _ assms(1), of g k] assms(2,3) by (auto simp: expired_def)

lemma cursor_active: "kp_active p k = None \<longleftrightarrow> cursor p k = None"
  by (simp add: cursor_def)

lemma inactive_step:
  assumes "kafka_step s e = Some s'" "kp_active (ks_progress s) k = None" "\<And>ks. e = KAssign ks \<Longrightarrow> k \<notin> set ks"
  shows "kp_active (ks_progress s') k = None"
proof (cases e)
  case (KAssign ks)
  with assms show ?thesis by (auto simp: cursor_active cursor_assign split: if_splits)
next
  case (KRegister j h off)
  with assms show ?thesis by (auto simp: cursor_active cursor_register split: if_splits option.splits)
next
  case (KAck h j off)
  with assms(1) have "ks_progress s' = snd (kp_complete h j off (ks_progress s))"
    by (auto split: if_splits prod.splits sum.splits option.splits)
  with assms(2) show ?thesis by (simp add: cursor_active cursor_frame)
next
  case KCommitted
  with assms(1) obtain cs where p: "ks_progress s' = committed_all cs (ks_progress s)" by (auto split: option.splits)
  have "\<not> kp_is_current (ks_progress s') g k" for g
    using assms(2) unfolding p committed_all_current by (simp add: kp_is_current_def)
  then show ?thesis by (cases "kp_active (ks_progress s') k") (auto simp: kp_is_current_def)
next
  case (KRevoke ks)
  with assms show ?thesis
    by (auto simp: cursor_active pre_rebalance_revoke_def cursor_revokes split: if_splits)
qed (use assms in \<open>auto simp: cursor_active cursor_frame Let_def split: if_splits\<close>)

text \<open>A generation that is over, or handed off, registers nothing any more.\<close>

definition refused :: "kafka_progress \<Rightarrow> u64 \<Rightarrow> partition \<Rightarrow> bool" where
  "refused p g k \<longleftrightarrow>
     g \<le> kp_gen p k
     \<and> (\<not> kp_is_current p g k
        \<or> (\<exists>pp. kp_active p k = Some pp \<and> pp_generation pp = g
               \<and> token_is_cancelled (kp_tokens p) (pp_handoff pp)))"

lemma refused_register: "refused p g k \<Longrightarrow> kp_register k g off p = None"
  by (auto simp: refused_def kp_is_current_def kp_register_def split: option.splits)

lemma register_refused: "kp_register k g off p = None \<Longrightarrow> g \<le> kp_gen p k \<Longrightarrow> refused p g k"
  by (auto simp: refused_def kp_is_current_def kp_register_def split: option.splits if_splits)

lemma assign_handoff:
  assumes "kp_active p k = Some pp" "token_is_cancelled (kp_tokens p) t"
  shows "kp_active (snd (post_rebalance_assign ks p)) k = Some pp"
    "token_is_cancelled (kp_tokens (snd (post_rebalance_assign ks p))) t"
proof -
  have "kp_active (kp_activate j p) k = Some pp \<and> token_is_cancelled (kp_tokens (kp_activate j p)) t"
    if "kp_active p k = Some pp" "token_is_cancelled (kp_tokens p) t" for j p
    using that by (cases "j = k")
      (auto simp: kp_activate_def token_new_def token_is_cancelled_def Let_def)
  then have "kp_active (snd (post_rebalance_assign ks p)) k = Some pp
      \<and> token_is_cancelled (kp_tokens (snd (post_rebalance_assign ks p))) t"
    using assms by (induction ks arbitrary: p) (auto simp: case_prod_beta)
  then show "kp_active (snd (post_rebalance_assign ks p)) k = Some pp"
    "token_is_cancelled (kp_tokens (snd (post_rebalance_assign ks p))) t" by blast+
qed

lemma revokes_cancelled: "token_is_cancelled (kp_tokens p) t \<Longrightarrow> token_is_cancelled (kp_tokens (fold kp_revoke ks p)) t"
proof (induction ks arbitrary: p)
  case (Cons k ks)
  have "token_is_cancelled (kp_tokens (kp_revoke k p)) t"
    using Cons.prems by (auto simp: kp_revoke_tokens split: option.splits)
  with Cons.IH show ?case by simp
qed simp

lemma same_refused:
  assumes "same_tokens p q" "\<And>g k. kp_is_current q g k = kp_is_current p g k"
    "kp_active p k = Some pp" "pp_generation pp = g" "token_is_cancelled (kp_tokens p) (pp_handoff pp)"
    "g \<le> kp_gen q k"
  shows "refused q g k"
proof -
  have "kp_is_current q g k" using assms(2-4) by (simp add: kp_is_current_def)
  then obtain qq where qq: "kp_active q k = Some qq" "pp_generation qq = g"
    by (auto simp: kp_is_current_def split: option.splits)
  moreover have "pp_handoff qq = pp_handoff pp" "kp_tokens q = kp_tokens p"
  proof -
    have "map_option (\<lambda>pp. (pp_revoked pp, pp_handoff pp)) (kp_active q k) =
        map_option (\<lambda>pp. (pp_revoked pp, pp_handoff pp)) (kp_active p k)"
      using assms(1) unfolding same_tokens_def by blast
    with assms(3) qq(1) show "pp_handoff qq = pp_handoff pp" by simp
    show "kp_tokens q = kp_tokens p" using assms(1) by (simp add: same_tokens_def)
  qed
  ultimately show ?thesis using assms(5,6) by (auto simp: refused_def)
qed

lemma revokes_active: "k \<notin> set ks \<Longrightarrow> kp_active (fold kp_revoke ks p) k = kp_active p k"
  by (induction ks arbitrary: p) auto

lemma refused_step:
  assumes "refused (ks_progress s) g k" "kafka_step s e = Some s'"
  shows "refused (ks_progress s') g k"
proof (cases "expired (ks_progress s) g k")
  case True
  from expired_step [OF this assms(2)] show ?thesis by (simp add: refused_def expired_def)
next
  case False
  with assms(1) obtain pp where pp: "kp_active (ks_progress s) k = Some pp" "pp_generation pp = g"
    "token_is_cancelled (kp_tokens (ks_progress s)) (pp_handoff pp)"
    by (auto simp: refused_def expired_def)
  have gen: "g \<le> kp_gen (ks_progress s') k"
    using assms(1) kp_gen_step [OF assms(2), of k] by (auto simp: refused_def)
  note same = same_refused [OF _ _ pp gen]
  show ?thesis
  proof (cases e)
    case (KAssign ks)
    with assms(2) have "ks_progress s' = snd (post_rebalance_assign ks (ks_progress s))" by (auto split: if_splits)
    with assign_handoff [OF pp(1,3), of ks] pp gen show ?thesis by (auto simp: refused_def)
  next
    case (KRevoke ks)
    with assms(2) have s': "ks_progress s' = fold kp_revoke ks (ks_progress s)"
      by (auto simp: pre_rebalance_revoke_def split: if_splits)
    show ?thesis
    proof (cases "k \<in> set ks")
      case True
      then have "\<not> kp_is_current (ks_progress s') g k" unfolding s' by (simp add: is_current_cursor cursor_revokes)
      with gen show ?thesis by (simp add: refused_def)
    next
      case False
      with pp gen revokes_cancelled [OF pp(3), of ks] revokes_active [OF False] show ?thesis
        unfolding s' by (auto simp: refused_def)
    qed
  next
    case (KRegister j h off)
    with assms(2) consider "s' = s" | r p where "kp_register j h off (ks_progress s) = Some (r, p)" "ks_progress s' = p"
      by (auto split: if_splits option.splits)
    then show ?thesis
    proof cases
      case 2
      then show ?thesis
        by (intro same) (auto simp: same_tokens_frame is_current_cursor cursor_register)
    qed (use assms in simp)
  next
    case (KAck h j off)
    with assms(2) have "ks_progress s' = snd (kp_complete h j off (ks_progress s))"
      by (auto split: if_splits prod.splits sum.splits option.splits)
    then show ?thesis by (intro same) (simp_all add: same_tokens_frame is_current_cursor cursor_frame)
  next
    case KCommitted
    with assms(2) obtain cs where "ks_progress s' = committed_all cs (ks_progress s)" by (auto split: option.splits)
    then show ?thesis by (intro same) (simp_all add: same_tokens_committed_all committed_all_current)
  next
    case (KBeginHandoff ks)
    with assms(2) pp gen show ?thesis by (auto simp: refused_def begin_handoff_cancels)
  next
    case (KDrop h j off)
    with assms(2) have "ks_progress s' = kp_release h j off (ks_progress s)" by (auto split: if_splits)
    then show ?thesis by (intro same) (simp_all add: same_tokens_frame is_current_cursor cursor_frame)
  next
    case (KPause j)
    with assms(2) have "ks_progress s' = snd (kp_pause j (ks_progress s))" by auto
    then show ?thesis by (intro same) (simp_all add: same_tokens_frame is_current_cursor cursor_frame)
  next
    case (KResume j)
    with assms(2) have "ks_progress s' = snd (kp_resume j (ks_progress s))" by auto
    then show ?thesis by (intro same) (simp_all add: same_tokens_frame is_current_cursor cursor_frame)
  qed (use assms in \<open>auto simp: Let_def split: if_splits\<close>)
qed

lemma delivered_step:
  "kafka_step s e = Some s' \<Longrightarrow> (\<And>k g off. e \<noteq> KRegister k g off) \<Longrightarrow> ks_delivered s' = ks_delivered s"
  by (cases e) (auto simp: Let_def split: if_splits option.splits prod.splits sum.splits)

section \<open>The source keeps the order of a partition\<close>

definition flight :: "kafka_source \<Rightarrow> delivery_id list" where
  "flight s = items_of (kc_channel s @ (case kc_item s of None \<Rightarrow> [] | Some x \<Rightarrow> [x]))"

abbreviation prog :: "kafka_source \<Rightarrow> kafka_progress" where
  "prog s \<equiv> ks_progress (kc_kafka s)"

definition order_ok :: "kafka_sys \<Rightarrow> delivery_id list \<Rightarrow> bool" where
  "order_ok K F \<longleftrightarrow>
     kafka_reach K \<and> sorted_wrt later_commit (rev (ks_delivered K) @ F)
     \<and> list_all (\<lambda>(k, g, off). g \<le> kp_gen (ks_progress K) k \<and> offset_ok off) F"

text \<open>Of the current assignment, only records up to the client's position are around.\<close>

definition bound_ok :: "kafka_sys \<Rightarrow> delivery_id list \<Rightarrow> (partition \<rightharpoonup> int) \<Rightarrow> (partition \<times> int) option \<Rightarrow> bool" where
  "bound_ok K F at hand \<longleftrightarrow>
     (\<forall>k g off. (k, g, off) \<in> set (ks_delivered K) \<union> set F \<longrightarrow> kp_is_current (ks_progress K) g k \<longrightarrow>
        (\<exists>l. at k = Some l \<and> off \<le> l \<and> (\<forall>h. hand = Some (k, h) \<longrightarrow> off < h)))"

definition hand_ok :: "kafka_source \<Rightarrow> bool" where
  "hand_ok s \<longleftrightarrow>
     (\<forall>k off. kc_hand s = Some (k, off) \<longrightarrow> kc_last s k = Some off \<and> offset_ok off \<and> kc_item s = None)
     \<and> (\<forall>k. k \<notin> kc_owned s \<longrightarrow> kp_active (prog s) k = None)"

definition account_ok :: "kafka_source \<Rightarrow> bool" where
  "account_ok s \<longleftrightarrow>
     set (kc_polled s) = set (ks_delivered (kc_kafka s)) \<union> set (flight s) \<union> set (kc_skipped s) \<union> set (kc_dropped s)
     \<and> list_all (\<lambda>(k, g, off). refused (prog s) g k) (kc_skipped s)
     \<and> (kc_dropped s \<noteq> [] \<or> \<not> kc_receiving s \<longrightarrow> kc_closed s)"

definition source_inv :: "kafka_source \<Rightarrow> bool" where
  "source_inv s \<longleftrightarrow>
     order_ok (kc_kafka s) (flight s) \<and> bound_ok (kc_kafka s) (flight s) (kc_last s) (kc_hand s)
     \<and> hand_ok s \<and> account_ok s"

lemma known_generation:
  assumes "order_ok K F" "(k, g, off) \<in> set (ks_delivered K) \<union> set F"
  shows "g \<le> kp_gen (ks_progress K) k" "offset_ok off"
  using assms deliveries_ok_gen [OF kafka_reach_ok(3)] unfolding order_ok_def list_all_iff by fastforce+

lemma order_ok_step:
  assumes "order_ok K F" "kafka_step K e = Some K'" "ks_delivered K' = ks_delivered K"
  shows "order_ok K' F"
proof -
  have "kafka_reach K'" using assms(1,2) unfolding order_ok_def by (blast intro: reach_step)
  moreover have "g \<le> kp_gen (ks_progress K') k" if "(k, g, off) \<in> set F" for k g off
    using known_generation(1) [OF assms(1), of k g off] kp_gen_step [OF assms(2), of k] that by auto
  ultimately show ?thesis using assms(1,3) by (auto simp: order_ok_def list_all_iff)
qed

lemma bound_ok_step:
  assumes "order_ok K F" "bound_ok K F at hand" "kafka_step K e = Some K'" "ks_delivered K' = ks_delivered K"
  shows "bound_ok K' F at hand"
  using assms(2,4) known_generation(1) [OF assms(1)] current_back [OF assms(3)]
  unfolding bound_ok_def by metis

lemma flight_frame [simp]:
  "flight (s\<lparr>kc_kafka := K\<rparr>) = flight s" "flight (s\<lparr>kc_owned := P\<rparr>) = flight s" "flight (s\<lparr>kc_last := l\<rparr>) = flight s"
  "flight (s\<lparr>kc_hand := h\<rparr>) = flight s" "flight (s\<lparr>kc_closed := b\<rparr>) = flight s" "flight (s\<lparr>kc_stop := b\<rparr>) = flight s"
  "flight (s\<lparr>kc_receiving := b\<rparr>) = flight s" "flight (s\<lparr>kc_polled := xs\<rparr>) = flight s"
  "flight (s\<lparr>kc_skipped := xs\<rparr>) = flight s" "flight (s\<lparr>kc_dropped := xs\<rparr>) = flight s"
  by (simp_all add: flight_def)

lemma bound_ok_drop: "bound_ok K F at hand \<Longrightarrow> bound_ok K F at None"
  unfolding bound_ok_def by blast

lemma source_inv_kafka:
  assumes inv: "source_inv s" and step: "kafka_step (kc_kafka s) e = Some K'"
    and same: "ks_delivered K' = ks_delivered (kc_kafka s)" and no: "\<And>ks. e \<noteq> KAssign ks"
  shows "source_inv (s\<lparr>kc_kafka := K'\<rparr>)"
proof -
  have "order_ok K' (flight s)" "bound_ok K' (flight s) (kc_last s) (kc_hand s)"
    using inv order_ok_step [OF _ step same] bound_ok_step [OF _ _ step same] by (auto simp: source_inv_def)
  moreover have "hand_ok (s\<lparr>kc_kafka := K'\<rparr>)"
    using inv inactive_step [OF step] no by (auto simp: source_inv_def hand_ok_def)
  moreover have "account_ok (s\<lparr>kc_kafka := K'\<rparr>)"
    using inv refused_step [OF _ step] same by (auto simp: source_inv_def account_ok_def flight_def list_all_iff)
  ultimately show ?thesis by (simp add: source_inv_def flight_def)
qed

lemma source_inv_lift:
  assumes "source_inv s" "lift_kafka e s = Some s'" "\<And>k g off. e \<noteq> KRegister k g off" "\<And>ks. e \<noteq> KAssign ks"
  shows "source_inv s'" "kc_closed s' = kc_closed s" "kc_owned s' = kc_owned s"
  using assms source_inv_kafka [OF assms(1) _ _ assms(4)] delivered_step [OF _ assms(3)]
  by (auto simp: lift_kafka_def)

lemma source_inv_revoked:
  assumes "source_inv s" "lift_kafka (KRevoke ks) s = Some s'"
  shows "source_inv (s'\<lparr>kc_owned := kc_owned s' - set ks\<rparr>)"
proof -
  have "source_inv s'" using source_inv_lift [OF assms] by simp
  moreover from assms(2) have "prog s' = fold kp_revoke ks (prog s)"
    by (auto simp: lift_kafka_def pre_rebalance_revoke_def split: if_splits)
  then have "kp_active (prog s') k = None" if "k \<in> set ks" for k
    using that by (simp add: cursor_active cursor_revokes)
  ultimately show ?thesis by (auto simp: source_inv_def hand_ok_def account_ok_def flight_def)
qed

lemma source_inv_assigned:
  assumes inv: "source_inv s" and poll: "polling s" "set ks \<inter> kc_owned s = {}"
    and step: "kafka_step (kc_kafka s) (KAssign ks) = Some K'"
  shows "source_inv (s\<lparr>kc_kafka := K', kc_owned := kc_owned s \<union> set ks,
                       kc_last := (\<lambda>k. if k \<in> set ks then None else kc_last s k)\<rparr>)"
proof -
  have same: "ks_delivered K' = ks_delivered (kc_kafka s)" by (rule delivered_step [OF step]) simp
  have ord: "order_ok (kc_kafka s) (flight s)" using inv by (simp add: source_inv_def)
  have bound: "bound_ok K' (flight s) (kc_last s) (kc_hand s)"
    using inv bound_ok_step [OF ord _ step same] by (simp add: source_inv_def)
  have "\<not> kp_is_current (ks_progress K') g k"
    if "k \<in> set ks" "(k, g, off) \<in> set (ks_delivered K') \<union> set (flight s)" for k g off
  proof
    assume "kp_is_current (ks_progress K') g k"
    then have "kp_is_current (prog s) g k"
      using current_back [OF step] known_generation(1) [OF ord] that(2) same by metis
    moreover have "kp_active (prog s) k = None"
      using inv poll(2) that(1) unfolding source_inv_def hand_ok_def by blast
    ultimately show False by (simp add: kp_is_current_def)
  qed
  then have "bound_ok K' (flight s) (\<lambda>k. if k \<in> set ks then None else kc_last s k) (kc_hand s)"
    using bound unfolding bound_ok_def by auto
  moreover have "kp_active (ks_progress K') k = None" if "k \<notin> kc_owned s \<union> set ks" for k
  proof (rule inactive_step [OF step])
    show "kp_active (prog s) k = None" using inv that unfolding source_inv_def hand_ok_def by blast
  qed (use that in simp)
  ultimately show ?thesis
    using inv poll(1) order_ok_step [OF ord step same] refused_step [OF _ step] same
    by (auto simp: source_inv_def hand_ok_def account_ok_def flight_def polling_def list_all_iff)
qed

lemma items_of_simps [simp]:
  "items_of [] = []" "items_of (Inl e # xs) = items_of xs" "items_of (Inr d # xs) = d # items_of xs"
  "items_of (xs @ ys) = items_of xs @ items_of ys"
  by (simp_all add: items_of_def)

lemma source_inv_tag:
  assumes inv: "source_inv s" and hand: "kc_hand s = Some (k, off)"
  shows "source_inv (poller_tag k off s)"
proof (cases "kp_generation (prog s) k")
  case None
  have "bound_ok (kc_kafka s) (flight s) (kc_last s) None"
    using inv bound_ok_drop unfolding source_inv_def by blast
  with inv hand None show ?thesis
    by (simp add: poller_tag_def source_inv_def hand_ok_def account_ok_def)
next
  case (Some g)
  then have cur: "kp_is_current (prog s) g k" by (auto simp: kp_generation_def kp_is_current_def)
  have h: "kc_last s k = Some off" "offset_ok off" "kc_item s = None"
    using inv hand by (auto simp: source_inv_def hand_ok_def)
  have fl: "flight (poller_tag k off s) = flight s @ [(k, g, off)]"
    using h(3) Some by (simp add: poller_tag_def flight_def)
  have ord: "order_ok (kc_kafka s) (flight s)" and bound: "bound_ok (kc_kafka s) (flight s) (kc_last s) (kc_hand s)"
    using inv by (simp_all add: source_inv_def)
  have "later_commit x (k, g, off)" if "x \<in> set (ks_delivered (kc_kafka s)) \<union> set (flight s)" for x
    using bound that cur hand unfolding bound_ok_def later_commit_def by (cases x) fastforce
  moreover have "g = kp_gen (prog s) k"
  proof -
    obtain pp where "kp_active (prog s) k = Some pp" "pp_generation pp = g"
      using Some by (auto simp: kp_generation_def)
    with ord deliveries_ok_part [OF kafka_reach_ok(3)] show ?thesis unfolding order_ok_def by blast
  qed
  ultimately have "order_ok (kc_kafka s) (flight s @ [(k, g, off)])"
    using ord h(2) by (auto simp: order_ok_def sorted_wrt_append)
  moreover have "bound_ok (kc_kafka s) (flight s @ [(k, g, off)]) (kc_last s) None"
    using bound_ok_drop [OF bound] h(1) by (auto simp: bound_ok_def simp del: split_paired_All split_paired_Ex)
  moreover have "kc_kafka (poller_tag k off s) = kc_kafka s" by (simp add: poller_tag_def Some)
  ultimately show ?thesis
    using inv h(1) fl unfolding source_inv_def
    by (auto simp: poller_tag_def Some hand_ok_def account_ok_def)
qed

lemma source_inv_send:
  assumes inv: "source_inv s" and item: "kc_item s = Some x" and send: "poller_send x s = Some s'"
  shows "source_inv s'"
proof -
  have no: "kc_hand s = None"
    using inv item by (cases "kc_hand s") (auto simp: source_inv_def hand_ok_def)
  show ?thesis
  proof (cases "kc_receiving s")
    case True
    with send item have ch: "kc_channel s = []" "s' = s\<lparr>kc_item := None, kc_channel := [x]\<rparr>"
      by (auto simp: poller_send_def split: if_splits)
    then have "flight s' = flight s" using item by (simp add: flight_def)
    with inv ch no show ?thesis by (simp add: source_inv_def hand_ok_def account_ok_def)
  next
    case False
    with send have s': "s' = s\<lparr>kc_item := None, kc_stop := True, kc_dropped := kc_dropped s @ items_of [x]\<rparr>"
      by (simp add: poller_send_def)
    then have fl: "flight s = flight s' @ items_of [x]" using item by (simp add: flight_def)
    have "order_ok (kc_kafka s) (flight s')" "bound_ok (kc_kafka s) (flight s') (kc_last s) (kc_hand s)"
      using inv fl by (auto simp: source_inv_def order_ok_def bound_ok_def sorted_wrt_append)
    moreover have "account_ok s'" using inv fl False by (auto simp: source_inv_def account_ok_def s')
    ultimately show ?thesis using inv no by (simp add: source_inv_def s' hand_ok_def)
  qed
qed

lemma receive_in_order:
  assumes "order_ok K ((k, g, off) # F)"
  shows "in_order (ks_delivered K) k g off"
  using assms by (auto simp: order_ok_def in_order_def list_all_iff sorted_wrt_append later_commit_def)

lemma source_inv_receive:
  assumes inv: "source_inv s" and step: "source_receive_one s = Some s'"
  shows "source_inv s'"
proof -
  from step obtain y rest where ch: "kc_channel s = y # rest"
    by (auto simp: source_receive_one_def split: list.splits)
  show ?thesis
  proof (cases y)
    case (Inl e)
    with step ch have s': "s' = s\<lparr>kc_channel := rest\<rparr>" by (simp add: source_receive_one_def)
    then have "flight s' = flight s" using ch Inl by (simp add: flight_def)
    with inv s' show ?thesis by (simp add: source_inv_def hand_ok_def account_ok_def)
  next
    case (Inr d)
    obtain k g off where d: "d = (k, g, off)" by (rule prod_cases3)
    let ?s = "s\<lparr>kc_channel := rest\<rparr>"
    have fl: "flight s = (k, g, off) # flight ?s" using ch Inr d by (simp add: flight_def)
    have ord: "order_ok (kc_kafka s) ((k, g, off) # flight ?s)"
      and bound: "bound_ok (kc_kafka s) ((k, g, off) # flight ?s) (kc_last s) (kc_hand s)"
      using inv fl by (simp_all add: source_inv_def)
    show ?thesis
    proof (cases "kp_register k g off (prog s)")
      case None
      with step ch Inr d have s': "s' = ?s\<lparr>kc_skipped := kc_skipped s @ [(k, g, off)]\<rparr>"
        by (simp add: source_receive_one_def)
      have "refused (prog s) g k"
        using register_refused [OF None] known_generation(1) [OF ord, of k g off] by simp
      moreover have "order_ok (kc_kafka s) (flight ?s)" "bound_ok (kc_kafka s) (flight ?s) (kc_last s) (kc_hand s)"
        using ord bound by (auto simp: order_ok_def bound_ok_def sorted_wrt_append)
      moreover have "flight s' = flight ?s" by (simp add: s' flight_def)
      ultimately show ?thesis
        using inv fl unfolding source_inv_def by (simp add: s' hand_ok_def account_ok_def)
    next
      case (Some rp)
      obtain r p where rp: "rp = (r, p)" by fastforce
      let ?K = "(kc_kafka s)\<lparr>ks_progress := p, ks_delivered := (k, g, off) # ks_delivered (kc_kafka s)\<rparr>"
      from step ch Inr d Some rp have s': "s' = ?s\<lparr>kc_kafka := ?K\<rparr>" by (simp add: source_receive_one_def)
      have kstep: "kafka_step (kc_kafka s) (KRegister k g off) = Some ?K"
        using receive_in_order [OF ord] Some rp by simp
      have gens: "kp_gen p j = kp_gen (prog s) j" for j using Some rp by (simp add: kp_gen_frame)
      have cur: "kp_is_current p h j = kp_is_current (prog s) h j" for h j
        using Some rp by (auto simp: is_current_cursor cursor_register)
      have "kafka_reach (kc_kafka s)" using ord by (simp add: order_ok_def)
      then have "kafka_reach ?K" using kstep by (rule reach_step)
      then have "order_ok ?K (flight ?s)" using ord gens by (auto simp: order_ok_def)
      moreover have "bound_ok ?K (flight ?s) (kc_last s) (kc_hand s)"
        using bound unfolding bound_ok_def by (simp add: cur)
      moreover have "flight s' = flight ?s" by (simp add: s' flight_def)
      moreover have "hand_ok s'" using inv inactive_step [OF kstep] by (simp add: source_inv_def hand_ok_def s')
      moreover have "account_ok s'"
      proof -
        have "list_all (\<lambda>(k, g, off). refused p g k) (kc_skipped s)"
          using inv refused_step [OF _ kstep] by (auto simp: source_inv_def account_ok_def list_all_iff)
        with inv fl show ?thesis by (auto simp: source_inv_def account_ok_def s' flight_def)
      qed
      ultimately show ?thesis by (simp add: source_inv_def s')
    qed
  qed
qed

lemma source_inv_poll:
  assumes inv: "source_inv s" and step: "source_step s (SPoll k off) = Some s'"
  shows "source_inv s'"
proof -
  from step have s': "s' = s\<lparr>kc_hand := Some (k, off), kc_last := (kc_last s)(k \<mapsto> off)\<rparr>" and poll: "polling s"
    and off: "offset_ok off" "\<And>l. kc_last s k = Some l \<Longrightarrow> l < off"
    by (auto split: if_splits option.splits)
  have "\<exists>l. ((kc_last s)(k \<mapsto> off)) j = Some l \<and> x \<le> l \<and> (\<forall>h. Some (k, off) = Some (j, h) \<longrightarrow> x < h)"
    if j: "(j, g, x) \<in> set (ks_delivered (kc_kafka s)) \<union> set (flight s)" "kp_is_current (prog s) g j" for j g x
  proof -
    obtain l where "kc_last s j = Some l" "x \<le> l"
      using inv j unfolding source_inv_def bound_ok_def by blast
    then show ?thesis using off(2) by (cases "j = k") fastforce+
  qed
  then have "bound_ok (kc_kafka s) (flight s) ((kc_last s)(k \<mapsto> off)) (Some (k, off))"
    unfolding bound_ok_def by blast
  with inv poll off(1) show ?thesis
    by (simp add: source_inv_def s' hand_ok_def account_ok_def polling_def)
qed

lemma source_inv_set:
  assumes "source_inv s"
  shows "source_inv (s\<lparr>kc_closed := True\<rparr>)"
    "polling s \<Longrightarrow> source_inv (s\<lparr>kc_item := Some (Inl e)\<rparr>)"
proof -
  show "source_inv (s\<lparr>kc_closed := True\<rparr>)"
    using assms by (simp add: source_inv_def hand_ok_def account_ok_def)
  assume p: "polling s"
  then have "flight (s\<lparr>kc_item := Some (Inl e)\<rparr>) = flight s" by (simp add: flight_def polling_def)
  with assms p show "source_inv (s\<lparr>kc_item := Some (Inl e)\<rparr>)"
    by (simp add: source_inv_def hand_ok_def account_ok_def polling_def)
qed

lemma source_inv_stop:
  assumes inv: "source_inv s" and "kc_closed s"
  shows "source_inv (s\<lparr>kc_stop := True, kc_receiving := False, kc_channel := [],
                      kc_dropped := kc_dropped s @ items_of (kc_channel s)\<rparr>)" (is "source_inv ?s")
proof -
  have fl: "flight s = items_of (kc_channel s) @ flight ?s" by (simp add: flight_def)
  then have "order_ok (kc_kafka s) (flight ?s)" "bound_ok (kc_kafka s) (flight ?s) (kc_last s) (kc_hand s)"
    using inv by (auto simp: source_inv_def order_ok_def bound_ok_def sorted_wrt_append)
  moreover have "account_ok ?s" using inv fl assms(2) by (auto simp: source_inv_def account_ok_def)
  ultimately show ?thesis using inv by (simp add: source_inv_def hand_ok_def)
qed

lemma source_inv_pause:
  assumes inv: "source_inv s"
  shows "source_inv (snd (source_pause key s))" "source_inv (source_resume key s)"
proof -
  show "source_inv (snd (source_pause key s))"
  proof (cases "partition_of key")
    case (Some k)
    have "kafka_step (kc_kafka s) (KPause k) = Some ((kc_kafka s)\<lparr>ks_progress := snd (kp_pause k (prog s))\<rparr>)" by simp
    from source_inv_kafka [OF inv this] Some inv show ?thesis by (simp add: source_pause_def)
  qed (simp add: source_pause_def inv)
  show "source_inv (source_resume key s)"
  proof (cases "partition_of key")
    case (Some k)
    have "kafka_step (kc_kafka s) (KResume k) = Some ((kc_kafka s)\<lparr>ks_progress := snd (kp_resume k (prog s))\<rparr>)" by simp
    from source_inv_kafka [OF inv this] Some inv show ?thesis by (simp add: source_resume_def)
  qed (simp add: source_resume_def inv)
qed

lemma source_inv_step:
  assumes inv: "source_inv s" and step: "source_step s e = Some s'"
  shows "source_inv s'"
proof (cases e)
  case (SPoll k off)
  with source_inv_poll [OF inv] step show ?thesis by blast
next
  case (SAssigned ks)
  with step obtain K' where K': "kafka_step (kc_kafka s) (KAssign ks) = Some K'" "polling s" "set ks \<inter> kc_owned s = {}"
    and s': "s' = s\<lparr>kc_kafka := K', kc_owned := kc_owned s \<union> set ks,
                       kc_last := (\<lambda>k. if k \<in> set ks then None else kc_last s k)\<rparr>"
    by (auto simp: lift_kafka_def simp del: kafka_step.simps split: if_splits)
  show ?thesis unfolding s' by (rule source_inv_assigned [OF inv K'(2,3,1)])
next
  case (SRevoked ks)
  with step source_inv_revoked [OF inv] show ?thesis by (auto split: if_splits)
next
  case SReceive
  with step source_inv_receive [OF inv] show ?thesis by (simp split: if_splits)
next
  case SStop
  with step source_inv_stop [OF inv] show ?thesis by (auto split: if_splits)
next
  case (SClose ks)
  with step source_inv_set(1) [OF source_inv_lift(1) [OF inv]] show ?thesis by (auto split: if_splits)
next
  case SGeneration
  with step source_inv_tag [OF inv] show ?thesis by (auto split: option.splits)
next
  case SSend
  with step source_inv_send [OF inv] show ?thesis by (auto split: option.splits)
qed (use step source_inv_pause [OF inv] source_inv_set(2) [OF inv] source_inv_lift(1) [OF inv] in
    \<open>auto split: if_splits\<close>)

lemma source_inv_new: "source_inv source_new"
proof -
  have "kafka_reach kafka_new" by (rule reach_init) (simp add: kafka_init_def)
  then show ?thesis
    by (simp add: source_inv_def source_new_def order_ok_def bound_ok_def hand_ok_def account_ok_def flight_def
        kafka_new_def kp_default_def)
qed

interpretation kafka_source: invariant_system "\<lambda>s. s = source_new" source_step source_inv
  by unfold_locales (auto simp: source_inv_new intro: source_inv_step)

section \<open>Properties\<close>

lemma receive_is_register:
  assumes inv: "source_inv s" and step: "source_receive_one s = Some s'"
  shows "kc_kafka s' = kc_kafka s \<or> (\<exists>e. kafka_step (kc_kafka s) e = Some (kc_kafka s'))"
proof (cases "kc_channel s")
  case (Cons y rest)
  show ?thesis
  proof (cases y)
    case (Inr d)
    obtain k g off where d: "d = (k, g, off)" by (rule prod_cases3)
    have "flight s = (k, g, off) # flight (s\<lparr>kc_channel := rest\<rparr>)" using Cons Inr d by (simp add: flight_def)
    with inv have "in_order (ks_delivered (kc_kafka s)) k g off"
      by (metis receive_in_order source_inv_def)
    then have "kafka_step (kc_kafka s) (KRegister k g off) = Some (kc_kafka s')"
      using step Cons Inr d by (auto simp: source_receive_one_def split: option.splits)
    then show ?thesis by blast
  qed (use step Cons in \<open>auto simp: source_receive_one_def\<close>)
qed (use step in \<open>simp add: source_receive_one_def\<close>)

text \<open>
  C25. The source implements the acknowledgement protocol of \<open>Kafka_Progress\<close>: whatever the interleaving
  of polling, rebalances, handoffs, receiving, acknowledging, dropping, pausing and closing, each of
  its steps is a step of that protocol or leaves it alone. In particular the records of an assignment
  are registered in the order of their offsets, which the protocol relies on, although generations
  are read by another thread and records wait in a channel across rebalances.
\<close>

theorem source_refines_progress:
  assumes "source_reach s"
  shows "kafka_reach (kc_kafka s)
    \<and> (source_step s e = Some s' \<longrightarrow>
         kc_kafka s' = kc_kafka s \<or> (\<exists>k. kafka_step (kc_kafka s) k = Some (kc_kafka s')))"
proof -
  have inv: "source_inv s" by (rule kafka_source.reach_inv [OF assms])
  have "kc_kafka s' = kc_kafka s \<or> (\<exists>k. kafka_step (kc_kafka s) k = Some (kc_kafka s'))"
    if step: "source_step s e = Some s'"
  proof (cases e)
    case SReceive
    with step receive_is_register [OF inv] show ?thesis by (simp split: if_splits)
  next
    case (SPause key)
    with step show ?thesis
      by (cases "kc_receiving s"; cases "partition_of key") (auto simp: source_pause_def intro: exI [of _ "KPause k" for k])
  next
    case (SResume key)
    with step show ?thesis
      by (cases "kc_receiving s"; cases "partition_of key") (auto simp: source_resume_def intro: exI [of _ "KResume k" for k])
  qed (use step in \<open>auto simp: lift_kafka_def poller_tag_def poller_send_def simp del: kafka_step.simps
      split: if_splits option.splits\<close>)
  with inv show ?thesis by (simp add: source_inv_def order_ok_def)
qed

text \<open>
  C26. No record is lost or delivered twice between the consumer and the subscription: every record that
  was polled for an assigned partition has been delivered, is on its way, was skipped because its
  assignment had ended or was being handed off, which refuses it for good, or was left when the
  source closed; and the records of one assignment are delivered in the order of their offsets.
\<close>

theorem records_accounted:
  assumes "source_reach s"
  shows "set (kc_polled s) = set (ks_delivered (kc_kafka s)) \<union> set (flight s) \<union> set (kc_skipped s) \<union> set (kc_dropped s)
    \<and> list_all (\<lambda>(k, g, off). kp_register k g off (prog s) = None) (kc_skipped s)
    \<and> (kc_dropped s = [] \<or> kc_closed s)
    \<and> sorted_wrt later_commit (rev (ks_delivered (kc_kafka s)) @ flight s)"
proof -
  have inv: "source_inv s" by (rule kafka_source.reach_inv [OF assms])
  then have "list_all (\<lambda>(k, g, off). kp_register k g off (prog s) = None) (kc_skipped s)"
    using refused_register by (fastforce simp: source_inv_def account_ok_def list_all_iff)
  with inv show ?thesis by (auto simp: source_inv_def account_ok_def order_ok_def)
qed

definition ex_source_events :: "source_event list" where
  "ex_source_events =
     [SAssigned [ex_key], SPoll ex_key 4, SGeneration, SSend, SReceive, SPoll ex_key 7, SGeneration, SSend,
      SLost [ex_key], SRevoked [ex_key], SAssigned [ex_key], SReceive, SPoll ex_key 4, SGeneration, SSend, SReceive]"

lemma ex_source_run_ok:
  "run_ok (\<lambda>s. ks_delivered (kc_kafka s) = [(ex_key, 4, 4), (ex_key, 1, 4)] \<and> kc_skipped s = [(ex_key, 1, 7)])
     (run source_step source_new ex_source_events)"
  by code_simp

lemma ex_source_run:
  obtains s where "source_reach s" "ks_delivered (kc_kafka s) = [(ex_key, 4, 4), (ex_key, 1, 4)]"
    "kc_skipped s = [(ex_key, 1, 7)]"
  using run_ok_obtain [where init = "\<lambda>s. s = source_new", OF ex_source_run_ok] by blast

theorem source_refines_progress_witness:
  "\<exists>s :: kafka_source. ks_delivered (kc_kafka s) = [(ex_key, 4, 4), (ex_key, 1, 4)] \<and> kafka_reach (kc_kafka s)"
proof -
  obtain s where "source_reach s" "ks_delivered (kc_kafka s) = [(ex_key, 4, 4), (ex_key, 1, 4)]"
    by (rule ex_source_run)
  with source_refines_progress [of s] show ?thesis by blast
qed

theorem records_accounted_witness:
  "\<exists>s :: kafka_source. kc_skipped s = [(ex_key, 1, 7)] \<and> kp_register ex_key 1 7 (prog s) = None"
proof -
  obtain s where s: "source_reach s" "kc_skipped s = [(ex_key, 1, 7)]" by (rule ex_source_run)
  from records_accounted [OF s(1)] s(2) show ?thesis by (intro exI [of _ s]) simp
qed

text \<open>
  The source owns its offsets: whatever properties the handle and the source set, its consumer has
  the source's group, and neither commits nor stores offsets on its own; every other property is the
  source's, else the handle's.
\<close>

theorem consumer_owns_offsets:
  "let config = consumer_config k c in
     config ''enable.auto.commit'' = Some ''false'' \<and> config ''enable.auto.offset.store'' = Some ''false''
     \<and> config ''group.id'' = Some (kn_group_id c)
     \<and> (if name \<in> {''enable.auto.commit'', ''enable.auto.offset.store'', ''group.id'', ''statistics.interval.ms''} then True
        else config name = (case kn_properties c name of
          Some v \<Rightarrow> Some v
        | None \<Rightarrow> if name = ''bootstrap.servers'' then Some (kg_brokers k) else kg_properties k name))"
  by (auto simp: consumer_config_def client_config_def Let_def map_add_def split: option.splits)

text \<open>
  A Kafka output is received as it was published: a record that carries the key, payload and headers
  the sink hands to the client decodes to the same key, value and headers, with a null value kept
  null; and pausing by the ordering key of a delivery names its own partition.
\<close>

theorem kafka_message_roundtrip:
  assumes "kafka_prepare encode p = Inr prep" "\<And>v b. encode v = Inr b \<Longrightarrow> decode b = (Inr v :: 'e + 'v)"
    "future_record.truncate raw = kafka_future_record topic prep"
    "- (2 ^ 31) \<le> rw_partition raw" "rw_partition raw < 2 ^ 31"
  shows "kafka_record_of decode raw =
      Inr \<lparr>kr_key = kp_key p, kr_value = kp_value p, kr_headers = kp_headers p, kr_metadata = kafka_metadata_of raw\<rparr>
    \<and> km_topic (kafka_metadata_of raw) = topic
    \<and> partition_of (kafka_ordering_key raw) = Some (topic, rw_partition raw)"
  using assms
  by (auto simp: kafka_prepare_def kafka_future_record_def kafka_record_of_def kafka_metadata_of_def Let_def
      future_record.truncate_def partition_of_def kafka_ordering_key_def ordering_key_new_def split: option.splits if_splits)

definition ex_raw :: raw_record where
  "ex_raw = \<lparr>fr_topic = ''orders'', fr_key = Some [7], fr_payload = None, fr_headers = Some [(''h'', None)],
     rw_partition = 3, rw_offset = 12, rw_timestamp = Some 5\<rparr>"

theorem kafka_message_roundtrip_witness:
  "kafka_record_of (Inr :: bytes \<Rightarrow> unit + bytes) ex_raw =
     Inr \<lparr>kr_key = Some [7], kr_value = None, kr_headers = [(''h'', None)], kr_metadata = kafka_metadata_of ex_raw\<rparr>"
proof -
  let ?p = "\<lparr>kp_key = Some [7], kp_value = None, kp_headers = [(''h'', None)]\<rparr> :: bytes kafka_publish"
  let ?prep = "\<lparr>ka_key = Some [7], ka_value = None, ka_headers = [(''h'', None)]\<rparr>"
  have "kafka_prepare Inr ?p = Inr ?prep" by (simp add: kafka_prepare_def)
  moreover have "future_record.truncate ex_raw = kafka_future_record ''orders'' ?prep"
    by (simp add: ex_raw_def future_record.truncate_def kafka_future_record_def)
  ultimately show ?thesis
    using kafka_message_roundtrip [where encode = Inr and decode = "Inr :: bytes \<Rightarrow> unit + bytes" and p = ?p and prep = ?prep
        and raw = ex_raw and topic = "''orders''"]
    by (simp add: ex_raw_def)
qed

end
