(* ===== verification/Pulsar_Source.thy ===== *)
theory Pulsar_Source
  imports Pulsar_Records Submissions
begin

text \<open>
  The Pulsar source, the producers behind the sink, and the handle of \<^verbatim>\<open>src/adapters/pulsar\<close>: settings
  (\<^verbatim>\<open>config.rs\<close>, \<^verbatim>\<open>client.rs\<close>), messages on their way out (\<^verbatim>\<open>sink.rs\<close>, \<^verbatim>\<open>producer.rs\<close>) and in
  (\<^verbatim>\<open>source.rs\<close>), the choice of a partition, receiving from the consumers of a partitioned topic, and
  acknowledging.

  Base64, the Java string hash and the codec are other crates' and are parameters.
\<close>

section \<open>Settings\<close>

record pulsar_authentication =
  pa_name :: string
  pa_data :: bytes

definition pulsar_token :: "bytes \<Rightarrow> pulsar_authentication" where
  "pulsar_token token = \<lparr>pa_name = ''token'', pa_data = token\<rparr>"

definition pulsar_auth_validate :: "pulsar_authentication \<Rightarrow> error + unit" where
  "pulsar_auth_validate a =
     and_then (ensure_config (\<not> trimmed_empty (pa_name a)) ''Pulsar auth method is required'')
       (ensure_config (pa_data a \<noteq> []) ''Pulsar auth data is required'')"

datatype pulsar_subscription_type = PulsarExclusive | PulsarShared | PulsarFailover | PulsarKeyShared

record pulsar_source_config =
  pq_topic :: string
  pq_subscription :: string
  pq_subscription_type :: pulsar_subscription_type
  pq_buffer_size :: nat
  pq_empty_payload_is_tombstone :: bool
  pq_ack_retry :: retry_policy

definition pulsar_source_config_new :: "string \<Rightarrow> string \<Rightarrow> pulsar_source_config" where
  "pulsar_source_config_new topic subscription =
     \<lparr>pq_topic = topic, pq_subscription = subscription, pq_subscription_type = PulsarShared, pq_buffer_size = 100,
      pq_empty_payload_is_tombstone = True,
      pq_ack_retry = default_retry_policy\<lparr>max_attempts := 5, initial_delay := 100 * millisecond,
        max_delay := 2 * 1000 * millisecond\<rparr>\<rparr>"

definition pulsar_validate_topic :: "string \<Rightarrow> error + unit" where
  "pulsar_validate_topic topic = ensure_config (\<not> trimmed_empty topic) ''Pulsar topic is required''"

definition pulsar_source_validate :: "pulsar_source_config \<Rightarrow> error + unit" where
  "pulsar_source_validate c =
     and_then (pulsar_validate_topic (pq_topic c))
    (and_then (ensure_config (\<not> trimmed_empty (pq_subscription c)) ''Pulsar subscription is required'')
    (and_then (ensure_config (0 < pq_buffer_size c) ''Pulsar buffer size must be greater than zero'')
       (retry_validate (pq_ack_retry c))))"

record pulsar_sink_config =
  pk_topic :: string
  pk_producer_name :: "string option"
  pk_max_pending :: nat
  pk_send_retry :: retry_policy

definition pulsar_sink_config_new :: "string \<Rightarrow> pulsar_sink_config" where
  "pulsar_sink_config_new topic =
     \<lparr>pk_topic = topic, pk_producer_name = None, pk_max_pending = 1000,
      pk_send_retry = default_retry_policy\<lparr>max_attempts := 10, initial_delay := 100 * millisecond,
        max_delay := 5 * 1000 * millisecond\<rparr>\<rparr>"

definition pulsar_sink_validate :: "nat \<Rightarrow> pulsar_sink_config \<Rightarrow> error + unit" where
  "pulsar_sink_validate max_permits c =
     and_then (pulsar_validate_topic (pk_topic c))
    (and_then (case pk_producer_name c of
                 None \<Rightarrow> Inr ()
               | Some name \<Rightarrow> ensure_config (\<not> trimmed_empty name) ''Pulsar producer name must not be empty'')
    (and_then (pending_validate max_permits (pk_max_pending c) ''Pulsar'')
       (retry_validate (pk_send_retry c))))"

definition validate_service_url :: "string \<Rightarrow> error + unit" where
  "validate_service_url url =
     and_then (ensure_config (\<not> trimmed_empty url) ''Pulsar service URL is required'')
    (and_then (ensure_config (\<not> contains_whitespace url) ''Pulsar service URL must not contain whitespace'')
       (ensure_config (starts_with ''pulsar://'' url \<or> starts_with ''pulsar+ssl://'' url)
          ''Pulsar service URL must use pulsar:// or pulsar+ssl://''))"

record pulsar_settings =
  pg_service_url :: string
  pg_authentication :: "pulsar_authentication option"

definition pulsar_settings_new :: "string \<Rightarrow> pulsar_settings" where
  "pulsar_settings_new url = \<lparr>pg_service_url = url, pg_authentication = None\<rparr>"

definition pulsar_authenticated :: "pulsar_authentication \<Rightarrow> pulsar_settings \<Rightarrow> pulsar_settings" where
  "pulsar_authenticated a g = \<lparr>pg_service_url = pg_service_url g, pg_authentication = Some a\<rparr>"

definition pulsar_settings_validate :: "pulsar_settings \<Rightarrow> error + unit" where
  "pulsar_settings_validate g =
     and_then (validate_service_url (pg_service_url g))
       (case pg_authentication g of None \<Rightarrow> Inr () | Some a \<Rightarrow> pulsar_auth_validate a)"

text \<open>The topics behind a topic with a number of partitions, which the broker answers.\<close>

definition partition_topics :: "nat \<Rightarrow> string \<Rightarrow> string list" where
  "partition_topics partitions topic =
     (if partitions = 0 then [topic]
      else map (\<lambda>p. topic @ ''-partition-'' @ show_nat p) [0..<partitions])"

section \<open>Messages on their way out\<close>

record pulsar_prepared =
  pe_value :: "bytes option"
  pe_properties :: "string \<rightharpoonup> string"
  pe_key :: "bytes option"
  pe_ordering_key :: "bytes option"
  pe_event_time :: "u64 option"

definition pulsar_prepare :: "('v \<Rightarrow> bytes outcome) \<Rightarrow> 'v pulsar_publish \<Rightarrow> pulsar_prepared outcome" where
  "pulsar_prepare encode p =
     (let prepared = (\<lambda>v. \<lparr>pe_value = v, pe_properties = pu_properties p, pe_key = pu_key p,
                          pe_ordering_key = pu_ordering_key p, pe_event_time = pu_event_time p\<rparr>) in
      case pu_value p of
        None \<Rightarrow> Inr (prepared None)
      | Some v \<Rightarrow> bind_result (encode v) (\<lambda>b. Inr (prepared (Some b))))"

text \<open>The fields of the client's \<^verbatim>\<open>SingleMessageMetadata\<close> and \<^verbatim>\<open>MessageMetadata\<close> that the adapter uses.\<close>

record single_metadata =
  sm_properties :: "(string \<times> string) list"
  sm_partition_key :: "string option"
  sm_partition_key_b64_encoded :: "bool option"
  sm_ordering_key :: "bytes option"
  sm_event_time :: "u64 option"
  sm_null_value :: "bool option"

record message_metadata = single_metadata +
  mm_publish_time :: u64

record outgoing_message =
  og_payload :: bytes
  og_metadata :: single_metadata
  og_uncompressed_size :: nat
  og_num_messages :: nat

text \<open>\<open>ps\<close> are the entries of the property map in the order the hash map yields them.\<close>

definition outgoing :: "(bytes \<Rightarrow> string) \<Rightarrow> (string \<times> string) list \<Rightarrow> pulsar_prepared \<Rightarrow> outgoing_message" where
  "outgoing base64 ps output =
     (let payload = (case pe_value output of None \<Rightarrow> [] | Some b \<Rightarrow> b) in
      \<lparr>og_payload = payload,
       og_metadata = \<lparr>sm_properties = ps, sm_partition_key = map_option base64 (pe_key output),
         sm_partition_key_b64_encoded = map_option (\<lambda>_. True) (pe_key output),
         sm_ordering_key = pe_ordering_key output, sm_event_time = pe_event_time output,
         sm_null_value = (if pe_value output = None then Some True else None)\<rparr>,
       og_uncompressed_size = min (length payload) (2 ^ 32 - 1), og_num_messages = 1\<rparr>)"

text \<open>
  \<^verbatim>\<open>Producers::route\<close>: the partition of a message and the rotation after it. \<open>hash\<close> is the Java string
  hash, cast to \<^verbatim>\<open>usize\<close>.
\<close>

definition pulsar_route :: "(string \<Rightarrow> nat) \<Rightarrow> (bytes \<Rightarrow> string) \<Rightarrow> nat \<Rightarrow> bytes option \<Rightarrow> u64 \<Rightarrow> nat \<times> u64" where
  "pulsar_route hash base64 n key rotation =
     (case key of
        Some (b # bs) \<Rightarrow> (hash (base64 (b # bs)) mod n, rotation)
      | _ \<Rightarrow> (unat rotation mod n, rotation + 1))"

section \<open>Messages on their way in\<close>

record incoming_message =
  ig_message_id :: pulsar_message_id
  ig_metadata :: message_metadata
  ig_single_metadata :: "single_metadata option"
  ig_payload :: bytes

record pulsar_delivery =
  pd_payload :: "bytes option"
  pd_key :: "bytes option"
  pd_ordering_key :: "bytes option"
  pd_properties :: "string \<rightharpoonup> string"
  pd_event_time :: "u64 option"
  pd_metadata :: pulsar_metadata

text \<open>The fields of one message of a batch are in its own metadata, those of another in the entry's.\<close>

definition message_fields :: "incoming_message \<Rightarrow> single_metadata" where
  "message_fields m =
     (case ig_single_metadata m of Some s \<Rightarrow> s | None \<Rightarrow> single_metadata.truncate (ig_metadata m))"

definition delivery_key :: "(string \<Rightarrow> bytes outcome) \<Rightarrow> single_metadata \<Rightarrow> bytes option outcome" where
  "delivery_key unbase64 f =
     (case sm_partition_key f of
        None \<Rightarrow> Inr None
      | Some key \<Rightarrow>
          if sm_partition_key_b64_encoded f = Some True
          then bind_result (result_context ''Pulsar message key is not valid base64'' (unbase64 key)) (\<lambda>b. Inr (Some b))
          else Inr (Some (str_bytes key)))"

definition delivery_new :: "(string \<Rightarrow> bytes outcome) \<Rightarrow> string \<Rightarrow> incoming_message \<Rightarrow> pulsar_delivery outcome" where
  "delivery_new unbase64 topic m =
     (let f = message_fields m in
      bind_result (delivery_key unbase64 f) (\<lambda>key.
        Inr \<lparr>pd_payload = (if sm_null_value f = Some True then None else Some (ig_payload m)),
             pd_key = key, pd_ordering_key = sm_ordering_key f,
             pd_properties = extend_table Map.empty (sm_properties f), pd_event_time = sm_event_time f,
             pd_metadata = \<lparr>pm_topic = topic, pm_message_id = ig_message_id m,
               pm_publish_time = min (uint (mm_publish_time (ig_metadata m))) i64_max\<rparr>\<rparr>))"

definition pulsar_partition :: "pulsar_delivery \<Rightarrow> ordering_key" where
  "pulsar_partition d = ordering_key_new (pm_topic (pd_metadata d)) (mi_partition (pm_message_id (pd_metadata d)))"

definition keyed_partition :: "pulsar_delivery \<Rightarrow> ordering_key option" where
  "keyed_partition d =
     map_option (\<lambda>key. with_key key (pulsar_partition d))
       (case pd_ordering_key d of Some k \<Rightarrow> Some k | None \<Rightarrow> pd_key d)"

fun pulsar_ordering_key :: "pulsar_subscription_type \<Rightarrow> pulsar_delivery \<Rightarrow> ordering_key option" where
  "pulsar_ordering_key PulsarExclusive d = Some (pulsar_partition d)"
| "pulsar_ordering_key PulsarFailover d = Some (pulsar_partition d)"
| "pulsar_ordering_key PulsarKeyShared d = keyed_partition d"
| "pulsar_ordering_key PulsarShared d = None"

record pulsar_message =
  ps_ordering_key :: "ordering_key option"
  ps_partition :: ordering_key
  ps_keyed_partition :: "ordering_key option"
  ps_payload :: "bytes option"
  ps_key :: "bytes option"
  ps_properties :: "string \<rightharpoonup> string"
  ps_event_time :: "u64 option"
  ps_metadata :: pulsar_metadata

text \<open>The message \<^verbatim>\<open>PulsarSource::receive\<close> makes of a delivery.\<close>

definition pulsar_message_of :: "pulsar_source_config \<Rightarrow> pulsar_delivery \<Rightarrow> pulsar_message" where
  "pulsar_message_of c d =
     \<lparr>ps_ordering_key = pulsar_ordering_key (pq_subscription_type c) d, ps_partition = pulsar_partition d,
      ps_keyed_partition = keyed_partition d,
      ps_payload = (case pd_payload d of
          None \<Rightarrow> None
        | Some b \<Rightarrow> if pq_empty_payload_is_tombstone c \<and> b = [] then None else Some b),
      ps_key = pd_key d, ps_properties = pd_properties d, ps_event_time = pd_event_time d,
      ps_metadata = pd_metadata d\<rparr>"

definition pulsar_decode :: "(bytes \<Rightarrow> 'v outcome) \<Rightarrow> pulsar_message \<Rightarrow> 'v pulsar_record outcome" where
  "pulsar_decode decode m =
     (let record = (\<lambda>v. \<lparr>pr_value = v, pr_key = ps_key m, pr_properties = ps_properties m,
                        pr_event_time = ps_event_time m, pr_metadata = ps_metadata m\<rparr>) in
      case ps_payload m of
        None \<Rightarrow> Inr (record None)
      | Some b \<Rightarrow> bind_result (decode b) (\<lambda>v. Inr (record (Some v))))"

definition pulsar_raw :: "pulsar_message \<Rightarrow> bytes pulsar_record" where
  "pulsar_raw m =
     \<lparr>pr_value = ps_payload m, pr_key = ps_key m, pr_properties = ps_properties m,
      pr_event_time = ps_event_time m, pr_metadata = ps_metadata m\<rparr>"

section \<open>Receiving\<close>

text \<open>A consumer per partition, with its topic and what it has received and not yet handed out: messages or errors.\<close>

record pulsar_connection =
  pn_topics :: "string list"
  pn_consumers :: "(box_error + incoming_message) list list"
  pn_next :: nat

text \<open>
  \<^verbatim>\<open>Connection::receive\<close> polls all consumers in order, the next one first, and takes from the first
  that has something; it waits while none has.
\<close>

definition poll_order :: "nat \<Rightarrow> nat \<Rightarrow> nat list" where
  "poll_order start n = map (\<lambda>off. (start mod n + off) mod n) [0..<n]"

definition connection_receive ::
  "pulsar_connection \<Rightarrow> (nat \<times> (box_error + incoming_message) \<times> pulsar_connection) option" where
  "connection_receive c =
     (case find (\<lambda>i. pn_consumers c ! i \<noteq> []) (poll_order (pn_next c) (length (pn_consumers c))) of
        None \<Rightarrow> None
      | Some i \<Rightarrow>
          Some (i, hd (pn_consumers c ! i),
            c\<lparr>pn_consumers := (pn_consumers c)[i := tl (pn_consumers c ! i)], pn_next := i + 1\<rparr>))"

datatype pulsar_receive = PrEnd | PrFatal box_error | PrRetry box_error | PrMessage pulsar_message

text \<open>
  \<open>py_probe\<close> is whether the probe knows its consumers, and
  \<open>py_acks_closed\<close> the flag its deliveries share.
\<close>

record pulsar_source =
  py_connection :: "pulsar_connection option"
  py_probe :: bool
  py_closed :: bool
  py_acks_closed :: bool

definition pulsar_source_new :: pulsar_source where
  "pulsar_source_new = \<lparr>py_connection = None, py_probe = False, py_closed = False, py_acks_closed = False\<rparr>"

text \<open>The first \<^verbatim>\<open>receive\<close> connects, to as many consumers as the topic has partitions, or fails for good.\<close>

definition pulsar_connect :: "nat outcome \<Rightarrow> pulsar_source_config \<Rightarrow> pulsar_source \<Rightarrow> pulsar_receive option \<times> pulsar_source" where
  "pulsar_connect answer c s =
     (case bind_result (map_sum Crate id (pulsar_source_validate c)) (\<lambda>_. answer) of
        Inl e \<Rightarrow> (Some (PrFatal e), s)
      | Inr partitions \<Rightarrow>
          (None, s\<lparr>py_connection := Some \<lparr>pn_topics = partition_topics partitions (pq_topic c),
                    pn_consumers = map (\<lambda>_. []) (partition_topics partitions (pq_topic c)), pn_next = 0\<rparr>,
                  py_probe := True\<rparr>))"

definition pulsar_source_receive ::
  "(string \<Rightarrow> bytes outcome) \<Rightarrow> pulsar_source_config \<Rightarrow> pulsar_source \<Rightarrow>
   (pulsar_receive \<times> pulsar_source) option" where
  "pulsar_source_receive unbase64 c s =
     (if py_closed s then Some (PrEnd, s)
      else case py_connection s of
        None \<Rightarrow> None
      | Some conn \<Rightarrow>
          (case connection_receive conn of
             None \<Rightarrow> None
           | Some (i, Inl e, conn') \<Rightarrow> Some (PrRetry e, s\<lparr>py_connection := Some conn'\<rparr>)
           | Some (i, Inr m, conn') \<Rightarrow>
               Some (case delivery_new unbase64 (pn_topics conn ! i) m of Inl e \<Rightarrow> PrFatal e | Inr d \<Rightarrow> PrMessage (pulsar_message_of c d),
                 s\<lparr>py_connection := Some conn'\<rparr>)))"

definition pulsar_source_close :: "pulsar_source \<Rightarrow> pulsar_source" where
  "pulsar_source_close s =
     (if py_closed s then s
      else s\<lparr>py_closed := True, py_probe := False, py_connection := None,
             py_acks_closed := (py_connection s \<noteq> None)\<rparr>)"

text \<open>\<^verbatim>\<open>PulsarProbe::connected\<close>, on whether each consumer is connected.\<close>

definition pulsar_probe_connected :: "bool list \<Rightarrow> bool option" where
  "pulsar_probe_connected consumers = (if consumers = [] then None else Some (list_all id consumers))"

section \<open>Acknowledging\<close>

datatype ack_event = AkOpen bool | AkCall "unit outcome" | AkSleep duration

text \<open>
  \<^verbatim>\<open>PulsarMessage::ack\<close>: \<open>closed\<close> reads the flag of the connection, \<open>call\<close> asks the broker and \<open>rnd\<close> draws
  for the delay. The events are what it did.
\<close>

function pulsar_ack ::
  "('w, bool) ext \<Rightarrow> ('w, unit outcome) ext \<Rightarrow> ('w, u64) ext \<Rightarrow> retry_policy \<Rightarrow> nat \<Rightarrow> ('w, ack_event, unit outcome) act" where
  "pulsar_ack closed call rnd retry failures w =
     (case closed w of
        (True, w1) \<Rightarrow> (Inl (Crate (Closed ''Pulsar source is closed'')), [AkOpen False], w1)
      | (False, w1) \<Rightarrow>
          (case call w1 of
             (Inr u, w2) \<Rightarrow> (Inr (), [AkOpen True, AkCall (Inr u)], w2)
           | (Inl e, w2) \<Rightarrow>
               if failures + 1 \<ge> max_attempts retry
               then (Inl (Crate (error_wrap (''Pulsar acknowledgement failed after '' @ show_nat (failures + 1) @ '' attempts'') e)),
                     [AkOpen True, AkCall (Inl e)], w2)
               else (case rnd w2 of (r, w3) \<Rightarrow>
                      (case pulsar_ack closed call rnd retry (failures + 1) w3 of (res, t, w4) \<Rightarrow>
                        (res, [AkOpen True, AkCall (Inl e), AkSleep (delay r retry (failures + 1))] @ t, w4)))))"
  by pat_completeness auto
termination
  by (relation "measure (\<lambda>(closed, call, rnd, retry, failures, w). max_attempts retry - failures)") auto

section \<open>No partition is starved\<close>

datatype poll_event = PpArrive nat "box_error + incoming_message" | PpReceive nat

text \<open>\<open>PpReceive i\<close> is a receive that is served by the consumer \<open>i\<close>.\<close>

fun poll_step :: "pulsar_connection \<Rightarrow> poll_event \<Rightarrow> pulsar_connection option" where
  "poll_step c (PpArrive i x) =
     (if i < length (pn_consumers c)
      then Some (c\<lparr>pn_consumers := (pn_consumers c)[i := pn_consumers c ! i @ [x]]\<rparr>) else None)"
| "poll_step c (PpReceive i) =
     (case connection_receive c of
        Some (j, x, c') \<Rightarrow> if j = i then Some c' else None
      | None \<Rightarrow> None)"

fun is_receive :: "poll_event \<Rightarrow> bool" where
  "is_receive (PpReceive _) = True"
| "is_receive (PpArrive _ _) = False"

lemma poll_order_nth: "k < n \<Longrightarrow> poll_order start n ! k = (start + k) mod n"
  by (simp add: poll_order_def mod_add_left_eq)

lemma connection_receiveD:
  assumes "connection_receive c = Some (i, x, c')"
  obtains k where "k < length (pn_consumers c)" "i = (pn_next c + k) mod length (pn_consumers c)"
    "\<And>j. j < k \<Longrightarrow> pn_consumers c ! ((pn_next c + j) mod length (pn_consumers c)) = []"
    "c' = c\<lparr>pn_consumers := (pn_consumers c)[i := tl (pn_consumers c ! i)], pn_next := i + 1\<rparr>"
proof -
  let ?n = "length (pn_consumers c)"
  from assms obtain k where "k < length (poll_order (pn_next c) ?n)" "i = poll_order (pn_next c) ?n ! k"
    "\<forall>j<k. \<not> pn_consumers c ! (poll_order (pn_next c) ?n ! j) \<noteq> []"
    "c' = c\<lparr>pn_consumers := (pn_consumers c)[i := tl (pn_consumers c ! i)], pn_next := i + 1\<rparr>"
    by (auto simp: connection_receive_def find_Some_iff split: option.splits)
  then show thesis using that [of k] poll_order_nth [of _ ?n "pn_next c"] by (auto simp: poll_order_def)
qed

lemma receive_before:
  assumes "connection_receive c = Some (i, x, c')" "i \<noteq> p" "pn_consumers c ! p \<noteq> []"
    "p = (pn_next c + d) mod length (pn_consumers c)"
  shows "\<exists>d'<d. p = (pn_next c' + d') mod length (pn_consumers c')"
    and "pn_consumers c' ! p = pn_consumers c ! p" "length (pn_consumers c') = length (pn_consumers c)"
proof -
  let ?n = "length (pn_consumers c)"
  obtain k where k: "k < ?n" "i = (pn_next c + k) mod ?n"
    "\<And>j. j < k \<Longrightarrow> pn_consumers c ! ((pn_next c + j) mod ?n) = []"
    "c' = c\<lparr>pn_consumers := (pn_consumers c)[i := tl (pn_consumers c ! i)], pn_next := i + 1\<rparr>"
    using connection_receiveD [OF assms(1)] by blast
  have "\<not> d < k" using k(3) [of d] assms(3,4) by auto
  moreover have "d \<noteq> k" using k(2) assms(2,4) by auto
  ultimately have d: "k < d" by simp
  have "(i + 1 + (d - k - 1)) mod ?n = ((pn_next c + k) mod ?n + (d - k)) mod ?n"
    unfolding k(2) [symmetric] by (rule arg_cong [of _ _ "\<lambda>x. x mod ?n"]) (use d in simp)
  also have "\<dots> = (pn_next c + k + (d - k)) mod ?n" by (rule mod_add_left_eq)
  also have "pn_next c + k + (d - k) = pn_next c + d" using d by simp
  finally have "p = (pn_next c' + (d - k - 1)) mod length (pn_consumers c')" using k(4) assms(4) by simp
  then show "\<exists>d'<d. p = (pn_next c' + d') mod length (pn_consumers c')" using d by (intro exI [of _ "d - k - 1"]) simp
  show "pn_consumers c' ! p = pn_consumers c ! p" "length (pn_consumers c') = length (pn_consumers c)"
    using k(4) assms(2) by simp_all
qed

lemma poll_distance:
  assumes "run poll_step c es = Some c'" "p = (pn_next c + d) mod length (pn_consumers c)"
    "p < length (pn_consumers c)" "pn_consumers c ! p \<noteq> []" "PpReceive p \<notin> set es"
  shows "length (filter is_receive es) \<le> d"
  using assms
proof (induction es arbitrary: c d)
  case (Cons e es)
  then obtain c1 where c1: "poll_step c e = Some c1" "run poll_step c1 es = Some c'" by (auto split: option.splits)
  show ?case
  proof (cases e)
    case (PpArrive i x)
    with Cons.prems c1(1) have "pn_next c1 = pn_next c" "length (pn_consumers c1) = length (pn_consumers c)"
      "pn_consumers c1 ! p \<noteq> []" by (auto simp: nth_list_update split: if_splits)
    with Cons.IH [OF c1(2), of d] Cons.prems PpArrive show ?thesis by simp
  next
    case (PpReceive i)
    with c1(1) obtain x where r: "connection_receive c = Some (i, x, c1)" by (auto split: option.splits if_splits)
    from PpReceive Cons.prems(5) have "i \<noteq> p" by auto
    from receive_before [OF r this Cons.prems(4,2)] obtain d' where
      d': "d' < d" "p = (pn_next c1 + d') mod length (pn_consumers c1)" "pn_consumers c1 ! p \<noteq> []"
        "p < length (pn_consumers c1)"
      using Cons.prems(3,4) by auto
    with Cons.IH [OF c1(2) d'(2,4,3)] Cons.prems(5) PpReceive show ?thesis by simp
  qed
qed simp

text \<open>
  C34. A busy partition cannot starve another: while a consumer of a Pulsar source has a message or an
  error to hand out, fewer receives are served by other consumers than the topic has partitions,
  whatever arrives meanwhile.
\<close>

theorem pulsar_no_starvation:
  assumes "run poll_step c es = Some c'" "p < length (pn_consumers c)" "pn_consumers c ! p \<noteq> []"
    "PpReceive p \<notin> set es"
  shows "length (filter is_receive es) < length (pn_consumers c)"
proof -
  let ?n = "length (pn_consumers c)" and ?s = "pn_next c mod length (pn_consumers c)"
  let ?d = "(p + ?n - ?s) mod ?n"
  have n: "0 < ?n" using assms(2) by linarith
  then have s: "?s < ?n" by simp
  have "(pn_next c + ?d) mod ?n = (?s + (p + ?n - ?s)) mod ?n" by (metis mod_add_left_eq mod_add_right_eq)
  also have "?s + (p + ?n - ?s) = p + ?n" using s by simp
  finally have "p = (pn_next c + ?d) mod ?n" using assms(2) by simp
  from poll_distance [OF assms(1) this assms(2,3,4)] have "length (filter is_receive es) \<le> ?d" .
  also have "?d < ?n" using n by simp
  finally show ?thesis .
qed

definition ex_polls :: pulsar_connection where
  "ex_polls = \<lparr>pn_topics = [''a'', ''b''],
     pn_consumers = [[Inl (Crate (Closed ''x''))], [Inl (Crate (Closed ''y''))]], pn_next = 2\<rparr>"

lemma ex_polls_run:
  "run_ok (\<lambda>c. True) (run poll_step ex_polls [PpReceive 0, PpArrive 0 (Inl (Crate (Closed ''z'')))])"
  by code_simp

theorem pulsar_no_starvation_witness:
  "length (filter is_receive [PpReceive 0, PpArrive 0 (Inl (Crate (Closed ''z'')))]) < length (pn_consumers ex_polls)"
proof -
  obtain c' where "run poll_step ex_polls [PpReceive 0, PpArrive 0 (Inl (Crate (Closed ''z'')))] = Some c'"
    using ex_polls_run by (cases "run poll_step ex_polls [PpReceive 0, PpArrive 0 (Inl (Crate (Closed ''z'')))]") auto
  from pulsar_no_starvation [OF this, of 1] show ?thesis by (simp add: ex_polls_def)
qed

section \<open>Messages arrive as they were published\<close>

text \<open>
  A Pulsar output is received as it was published, alone or within a batch: the same key, although
  keys are any bytes and travel as base64, the same properties, event time and value, and a null value
  as null. An empty payload is a null value where the source treats it as a tombstone.
\<close>

theorem pulsar_message_roundtrip:
  assumes "pulsar_prepare encode p = Inr prep" "\<And>v b. encode v = Inr b \<Longrightarrow> decode b = Inr v"
    "\<And>b. unbase64 (base64 b) = Inr b"
    "map_of ps = pe_properties prep" "distinct (map fst ps)"
    "message_fields m = og_metadata (outgoing base64 ps prep)" "ig_payload m = og_payload (outgoing base64 ps prep)"
  shows "\<exists>d. delivery_new unbase64 topic m = Inr d
    \<and> pulsar_decode decode (pulsar_message_of c d) =
        Inr \<lparr>pr_value = (if pq_empty_payload_is_tombstone c \<and> pe_value prep = Some [] then None else pu_value p),
             pr_key = pu_key p, pr_properties = pu_properties p, pr_event_time = pu_event_time p,
             pr_metadata = pd_metadata d\<rparr>
    \<and> ps_keyed_partition (pulsar_message_of c d) =
        map_option (\<lambda>k. with_key k (pulsar_partition d))
          (case pu_ordering_key p of None \<Rightarrow> pu_key p | Some k \<Rightarrow> Some k)"
proof -
  have ext: "extend_table Map.empty ps = pe_properties prep"
    unfolding extend_table_lookup assms(4) [symmetric] using assms(5) by (simp add: map_of_inject_set flip: rev_map)
  have prep: "pe_key prep = pu_key p" "pe_properties prep = pu_properties p" "pe_event_time prep = pu_event_time p"
    "pe_ordering_key prep = pu_ordering_key p" "pe_value prep = None \<longleftrightarrow> pu_value p = None"
    "\<And>b. pe_value prep = Some b \<Longrightarrow> \<exists>v. pu_value p = Some v \<and> decode b = Inr v"
    using assms(1,2) by (auto simp: pulsar_prepare_def Let_def bind_result_def split: option.splits sum.splits)
  have key: "delivery_key unbase64 (message_fields m) = Inr (pe_key prep)"
    using assms(3) by (cases "pe_key prep") (simp_all add: assms(6) delivery_key_def outgoing_def Let_def)
  show ?thesis
    using key prep assms(7)
    by (cases "pe_value prep") (auto simp: delivery_new_def Let_def assms(6) outgoing_def ext pulsar_decode_def
        pulsar_message_of_def keyed_partition_def split: option.splits)
qed

definition ex_publish :: "bytes pulsar_publish" where
  "ex_publish = \<lparr>pu_value = Some [1, 2], pu_properties = [''kind'' \<mapsto> ''order''], pu_key = Some [0, 255],
     pu_ordering_key = None, pu_event_time = Some 42\<rparr>"

text \<open>A stand-in for base64 whose decoding inverts its encoding: one character per byte.\<close>

definition ex_base64 :: "bytes \<Rightarrow> string" where
  "ex_base64 b = map (\<lambda>w. char_of (unat w)) b"

lemma str_bytes_ex_base64: "str_bytes (ex_base64 b) = b"
proof -
  have "of_nat (of_char (char_of (unat w) :: char)) = w" for w :: "8 word"
  proof -
    have "unat w < 2 ^ LENGTH(8)" by (rule unsigned_less)
    then have "of_char (char_of (unat w) :: char) = unat w" by simp
    then show ?thesis by simp
  qed
  then show ?thesis by (simp add: str_bytes_def ex_base64_def map_idI)
qed

definition ex_prepared :: pulsar_prepared where
  "ex_prepared = \<lparr>pe_value = Some [1, 2], pe_properties = [''kind'' \<mapsto> ''order''], pe_key = Some [0, 255],
     pe_ordering_key = None, pe_event_time = Some 42\<rparr>"

definition ex_incoming :: incoming_message where
  "ex_incoming =
     \<lparr>ig_message_id = \<lparr>mi_ledger_id = 7, mi_entry_id = 3, mi_partition = 1, mi_batch_index = 0\<rparr>,
      ig_metadata = single_metadata.extend (og_metadata (outgoing ex_base64 [] ex_prepared)) (message_metadata.fields 41),
      ig_single_metadata = Some (og_metadata (outgoing ex_base64 [(''kind'', ''order'')] ex_prepared)),
      ig_payload = [1, 2]\<rparr>"

theorem pulsar_message_roundtrip_witness:
  "\<exists>d. delivery_new (Inr \<circ> str_bytes) ''orders'' ex_incoming = Inr d
    \<and> pulsar_decode Inr (pulsar_message_of (pulsar_source_config_new ''orders'' ''billing'') d) =
        Inr \<lparr>pr_value = Some [1, 2], pr_key = Some [0, 255], pr_properties = [''kind'' \<mapsto> ''order''],
             pr_event_time = Some 42, pr_metadata = pd_metadata d\<rparr>"
proof -
  have "pulsar_prepare Inr ex_publish = Inr ex_prepared"
    by (simp add: pulsar_prepare_def ex_publish_def ex_prepared_def)
  from pulsar_message_roundtrip [OF this, of Inr "Inr \<circ> str_bytes" ex_base64 "[(''kind'', ''order'')]" ex_incoming "''orders''"
      "pulsar_source_config_new ''orders'' ''billing''"]
  show ?thesis
    by (auto simp: str_bytes_ex_base64 ex_prepared_def ex_publish_def ex_incoming_def message_fields_def outgoing_def)
qed

section \<open>Routing\<close>

text \<open>The partitions of messages with the given keys, published one after another.\<close>

fun route_all :: "(string \<Rightarrow> nat) \<Rightarrow> (bytes \<Rightarrow> string) \<Rightarrow> nat \<Rightarrow> bytes option list \<Rightarrow> u64 \<Rightarrow> nat list" where
  "route_all hash base64 n [] rotation = []"
| "route_all hash base64 n (key # keys) rotation =
     (case pulsar_route hash base64 n key rotation of (i, rotation') \<Rightarrow> i # route_all hash base64 n keys rotation')"

definition keyless :: "bytes option \<Rightarrow> bool" where
  "keyless key \<longleftrightarrow> key = None \<or> key = Some []"

lemma pulsar_route_keyless: "keyless key \<Longrightarrow> pulsar_route hash base64 n key r = (unat r mod n, r + 1)"
  by (auto simp: keyless_def pulsar_route_def)

lemma pulsar_route_keyed:
  "\<not> keyless key \<Longrightarrow> pulsar_route hash base64 n key r = (hash (base64 (the key)) mod n, r)"
  by (cases key) (auto simp: keyless_def pulsar_route_def split: list.splits)

lemma length_route_all [simp]: "length (route_all hash base64 n keys r) = length keys"
  by (induction keys arbitrary: r) (simp_all split: prod.splits)

lemma route_all_keyed:
  "i < length keys \<Longrightarrow> \<not> keyless (keys ! i) \<Longrightarrow>
   route_all hash base64 n keys r ! i = hash (base64 (the (keys ! i))) mod n"
proof (induction keys arbitrary: i r)
  case (Cons key keys)
  then show ?case by (cases i) (auto simp: pulsar_route_keyed split: prod.splits)
qed simp

lemma route_all_keyless:
  "unat r + length (filter keyless keys) < 2 ^ 64 \<Longrightarrow>
   map snd (filter (\<lambda>(key, i). keyless key) (zip keys (route_all hash base64 n keys r))) =
     map (\<lambda>j. (unat r + j) mod n) [0..<length (filter keyless keys)]"
proof (induction keys arbitrary: r)
  case (Cons key keys)
  show ?case
  proof (cases "keyless key")
    case True
    have "unat r + 1 < 2 ^ LENGTH(64)" using True Cons.prems by simp
    then have r: "unat (r + 1) = unat r + 1" using unat_add_lem [of r 1] by simp
    have "map (\<lambda>j. (unat r + 1 + j) mod n) [0..<length (filter keyless keys)] =
        map (\<lambda>j. (unat r + j) mod n) [1..<length (filter keyless (key # keys))]"
      using True by (simp add: map_Suc_upt [symmetric] del: map_Suc_upt upt_Suc)
    moreover have "[0..<length (filter keyless (key # keys))] = 0 # [1..<length (filter keyless (key # keys))]"
      using True by (simp add: upt_rec)
    ultimately show ?thesis
      using True Cons.IH [of "r + 1"] Cons.prems r by (simp add: pulsar_route_keyless del: upt_Suc)
  next
    case False
    with Cons.IH [of r] Cons.prems show ?thesis by (simp add: pulsar_route_keyed)
  qed
qed simp

lemma rotation_distinct: "j + n \<le> m \<Longrightarrow> distinct (take n (drop j (map (\<lambda>j. (s + j) mod n) [0..<m])))"
proof -
  assume m: "j + n \<le> m"
  then have "take n (drop j (map (\<lambda>j. (s + j) mod n) [0..<m])) = map (\<lambda>j. (s + j) mod n) [j..<j + n]"
    by (simp add: drop_map take_map)
  moreover have "inj_on (\<lambda>j. (s + j) mod n) {j..<j + n}"
  proof (rule inj_onI)
    fix x y assume xy: "x \<in> {j..<j + n}" "y \<in> {j..<j + n}" "(s + x) mod n = (s + y) mod n"
    have *: "a = b" if "a \<le> b" "a \<in> {j..<j + n}" "b \<in> {j..<j + n}" "(s + a) mod n = (s + b) mod n" for a b
    proof -
      from that(4) have "(s + b) mod n = (s + a) mod n" by simp
      then have "n dvd (s + b) - (s + a)" using that(1) by (simp add: mod_eq_dvd_iff_nat)
      then have "n dvd b - a" by simp
      moreover have "b - a < n" using that by auto
      ultimately show ?thesis using that(1) by (auto dest: dvd_imp_le)
    qed
    from linear [of x y] show "x = y"
    proof
      assume "x \<le> y"
      from this xy show ?thesis by (rule *)
    next
      assume "y \<le> x"
      from this xy(2,1) xy(3) [symmetric] have "y = x" by (rule *)
      then show ?thesis by simp
    qed
  qed
  ultimately show ?thesis by (simp add: distinct_map)
qed

text \<open>
  The producers of a Pulsar sink with \<open>n\<close> partitions route every message to one of them: messages with
  the same key to the same one, whatever is published between them, so that their order is kept; and
  messages without a key or with an empty one in rotation, so that any \<open>n\<close> of them in a row go to \<open>n\<close>
  different partitions, as long as the 64-bit counter does not wrap.
\<close>

theorem pulsar_routes:
  assumes "0 < n" "unat r + length (filter keyless keys) < 2 ^ 64"
  shows "let parts = route_all hash base64 n keys r;
             rotated = map snd (filter (\<lambda>(key, i). keyless key) (zip keys parts))
         in list_all (\<lambda>i. i < n) parts
            \<and> (i < length keys \<and> j < length keys \<and> keys ! i = keys ! j \<and> \<not> keyless (keys ! i) \<longrightarrow> parts ! i = parts ! j)
            \<and> (k + n \<le> length rotated \<longrightarrow> distinct (take n (drop k rotated)))"
proof -
  have "list_all (\<lambda>i. i < n) (route_all hash base64 n keys r)"
    using assms(1) by (induction keys arbitrary: r) (auto simp: pulsar_route_def split: option.splits list.splits)
  moreover have "route_all hash base64 n keys r ! i = route_all hash base64 n keys r ! j"
    if "i < length keys" "j < length keys" "keys ! i = keys ! j" "\<not> keyless (keys ! i)"
    using that route_all_keyed [of i keys] route_all_keyed [of j keys] by simp
  ultimately show ?thesis
    unfolding Let_def route_all_keyless [OF assms(2)] using rotation_distinct [of k n _ "unat r"] by auto
qed

theorem pulsar_routes_witness:
  "let parts = route_all length (map (\<lambda>w. char_of (unat w))) 2 [None, Some [7], None, Some []] 1;
       rotated = map snd (filter (\<lambda>(key, i). keyless key) (zip [None, Some [7], None, Some []] parts))
   in list_all (\<lambda>i. i < 2) parts
      \<and> (1 + 2 \<le> length rotated \<longrightarrow> distinct (take 2 (drop 1 rotated)))"
proof -
  have "unat (1 :: u64) + length (filter keyless [None, Some [7], None, Some []]) < 2 ^ 64"
    by (simp add: keyless_def)
  from pulsar_routes [OF _ this, of 2 length "map (\<lambda>w. char_of (unat w))" 0 0 1] show ?thesis
    by (simp add: Let_def)
qed

section \<open>Acknowledgements\<close>

fun ack_calls :: "ack_event list \<Rightarrow> unit outcome list" where
  "ack_calls [] = []"
| "ack_calls (AkCall r # t) = r # ack_calls t"
| "ack_calls (_ # t) = ack_calls t"

lemma ack_calls_append [simp]: "ack_calls (t @ u) = ack_calls t @ ack_calls u"
  by (induction t rule: ack_calls.induct) simp_all

declare pulsar_ack.simps [simp del]

lemma delay_max: "delay r p f \<le> max_delay p"
  by (rule order_trans [OF delay_le_backoff]) (simp add: backoff_def)

text \<open>
  Acknowledging a Pulsar delivery asks the broker at least once unless the source is closed, at most
  as often as the policy allows, and stops at the first success; it succeeds exactly when the broker
  did, never asks after it saw the source closed, and waits at most the policy's longest delay between
  calls.
\<close>

theorem pulsar_ack_bounded:
  assumes "pulsar_ack closed call rnd retry failures w = (res, t, w')"
  shows "length (ack_calls t) + failures \<le> max (failures + 1) (max_attempts retry)
    \<and> list_all (\<lambda>r. \<exists>e. r = Inl e) (butlast (ack_calls t))
    \<and> (res = Inr () \<longleftrightarrow> ack_calls t \<noteq> [] \<and> last (ack_calls t) = Inr ())
    \<and> (AkOpen False \<in> set t \<longrightarrow> last t = AkOpen False \<and> AkOpen False \<notin> set (butlast t)
        \<and> res = Inl (Crate (Closed ''Pulsar source is closed'')))
    \<and> (ack_calls t = [] \<longrightarrow> t = [AkOpen False])
    \<and> (\<forall>d. AkSleep d \<in> set t \<longrightarrow> d \<le> max_delay retry)"
  using assms
proof (induction closed call rnd retry failures w arbitrary: res t w' rule: pulsar_ack.induct)
  case (1 closed call rnd retry failures w)
  obtain b w1 where b: "closed w = (b, w1)" by (cases "closed w")
  obtain r w2 where r: "call w1 = (r, w2)" by (cases "call w1")
  consider "b" | "\<not> b" "r = Inr ()" | e where "\<not> b" "r = Inl e" "max_attempts retry \<le> failures + 1"
    | e where "\<not> b" "r = Inl e" "\<not> max_attempts retry \<le> failures + 1"
    by (cases r) auto
  then show ?case
  proof cases
    case 4
    obtain x w3 where x: "rnd w2 = (x, w3)" by (cases "rnd w2")
    obtain res' t' w4 where rec: "pulsar_ack closed call rnd retry (failures + 1) w3 = (res', t', w4)"
      by (cases "pulsar_ack closed call rnd retry (failures + 1) w3")
    have b': "b = False" using 4 by simp
    have IH: "length (ack_calls t') + (failures + 1) \<le> max (failures + 1 + 1) (max_attempts retry)
      \<and> list_all (\<lambda>r. \<exists>e. r = Inl e) (butlast (ack_calls t'))
      \<and> (res' = Inr () \<longleftrightarrow> ack_calls t' \<noteq> [] \<and> last (ack_calls t') = Inr ())
      \<and> (AkOpen False \<in> set t' \<longrightarrow> last t' = AkOpen False \<and> AkOpen False \<notin> set (butlast t')
          \<and> res' = Inl (Crate (Closed ''Pulsar source is closed'')))
      \<and> (ack_calls t' = [] \<longrightarrow> t' = [AkOpen False])
      \<and> (\<forall>d. AkSleep d \<in> set t' \<longrightarrow> d \<le> max_delay retry)"
      by (rule "1.IH" [OF b [symmetric] b' r [symmetric] 4(2,3) x [symmetric] rec])
    have t: "t = [AkOpen True, AkCall (Inl e), AkSleep (delay x retry (failures + 1))] @ t'" "res = res'"
      using "1.prems" b b' r 4 x rec by (simp_all add: pulsar_ack.simps [of closed call rnd retry failures w])
    have ne: "t' \<noteq> []" using IH by auto
    show ?thesis
      unfolding t using IH ne 4(3) delay_max [of x retry "failures + 1"] by (auto split: if_splits)
  qed (use "1.prems" b r in \<open>auto simp: pulsar_ack.simps [of closed call rnd retry failures w]\<close>)
qed

theorem pulsar_ack_bounded_witness:
  "\<exists>res t w'. pulsar_ack (Pair False) (\<lambda>n :: nat. (if n < 1 then Inl (Crate (Closed ''x'')) else Inr (), Suc n)) (Pair 0)
      default_retry_policy 0 0 = (res, t, w')
    \<and> length (ack_calls t) \<le> 3 \<and> (res = Inr () \<longleftrightarrow> ack_calls t \<noteq> [] \<and> last (ack_calls t) = Inr ())"
proof -
  obtain res t w' where r: "pulsar_ack (Pair False) (\<lambda>n :: nat. (if n < 1 then Inl (Crate (Closed ''x'')) else Inr (), Suc n))
      (Pair 0) default_retry_policy 0 0 = (res, t, w')"
    by (rule prod_cases3)
  from pulsar_ack_bounded [OF r] r show ?thesis
    by (intro exI [of _ res] exI [of _ t] exI [of _ w']) (simp add: default_retry_policy_def)
qed

end
