(* ===== verification/Rabbitmq_Source.thy ===== *)
theory Rabbitmq_Source
  imports Rabbitmq Submissions Tokens Messages
begin

text \<open>
  The RabbitMQ source and the connections of a handle (\<^verbatim>\<open>src/adapters/rabbitmq/source.rs\<close>,
  \<^verbatim>\<open>connection.rs\<close>): sessions, each a channel with a consumer and a token its deliveries share, what ends
  them, and acknowledging. The broker is modelled as far as its documentation says what happens to a
  delivery: it is unacknowledged on its channel until it is acknowledged there or the channel
  closes, when it is requeued.
\<close>

section \<open>Connections and settings\<close>

definition rabbitmq_sink_validate :: "nat \<Rightarrow> rabbitmq_sink_config \<Rightarrow> error + unit" where
  "rabbitmq_sink_validate max_permits c =
     and_then (map_sum id (\<lambda>_. ()) (short_string ''exchange name'' (rk_exchange c)))
    (and_then (map_sum id (\<lambda>_. ()) (short_string ''routing key'' (rk_routing_key c)))
       (pending_validate max_permits (rk_max_pending c) ''RabbitMQ''))"

datatype role = Consume | Publish

fun role_name :: "role \<Rightarrow> string" where
  "role_name Consume = ''consumer''"
| "role_name Publish = ''publisher''"

text \<open>
  \<^verbatim>\<open>RabbitMq::channel\<close> on the slot of a role: whether the slot's connection is up, what connecting and what
  opening a channel answer. A connection on which no channel opens is dropped.
\<close>

record connection_slot =
  cs_name :: string
  cs_connected :: bool

definition connection_name_of :: "string \<Rightarrow> role \<Rightarrow> string" where
  "connection_name_of name r = name @ '' '' @ role_name r"

definition rabbit_channel ::
  "(string \<Rightarrow> string option) \<Rightarrow> string \<Rightarrow> string \<Rightarrow> role \<Rightarrow> unit outcome \<Rightarrow> 'c outcome \<Rightarrow> connection_slot option \<Rightarrow>
   'c outcome \<times> connection_slot option" where
  "rabbit_channel parses uri name r connect open_channel slot =
     (let opened = result_context ''opening a RabbitMQ channel'' open_channel in
      if (case slot of None \<Rightarrow> False | Some c \<Rightarrow> cs_connected c) then (opened, slot)
      else case bind_result (map_sum Crate id (validate_uri parses uri))
                  (\<lambda>_. bind_result (result_context ''connecting to RabbitMQ'' connect) (\<lambda>_. opened)) of
             Inl e \<Rightarrow> (Inl e, slot)
           | Inr ch \<Rightarrow> (Inr ch, Some \<lparr>cs_name = connection_name_of name r, cs_connected = True\<rparr>))"

definition rabbitmq_ordering_key :: "rabbitmq_source_config \<Rightarrow> ordering_key option" where
  "rabbitmq_ordering_key c = (if rs_ordered c then Some (ordering_key_new (rs_queue c) 0) else None)"

section \<open>Sessions\<close>

text \<open>
  Channels and delivery tags are numbered. \<open>rb_open\<close> are the channels open at the broker, \<open>rb_buffer\<close> what
  the consumer of the session has and \<^verbatim>\<open>receive\<close> has not taken. \<open>rb_unacked\<close>, \<open>rb_acked\<close> and \<open>rb_requeued\<close> are
  the broker's deliveries by what became of them; \<open>rb_failed\<close> are the channels on which an
  acknowledgement failed.
\<close>

record rabbit_session =
  rn_channel :: nat
  rn_revoked :: token

record rabbit_held =
  rd_channel :: nat
  rd_tag :: nat
  rd_revoked :: token

record rabbit_sys =
  rb_session :: "rabbit_session option"
  rb_closed :: bool
  rb_tokens :: tokens
  rb_channels :: nat
  rb_open :: "nat set"
  rb_tags :: nat
  rb_buffer :: "nat list"
  rb_live :: "rabbit_held list"
  rb_unacked :: "(nat \<times> nat) list"
  rb_acked :: "(nat \<times> nat) list"
  rb_requeued :: "(nat \<times> nat) list"
  rb_failed :: "nat set"

definition rabbit_new :: rabbit_sys where
  "rabbit_new =
     \<lparr>rb_session = None, rb_closed = False, rb_tokens = tokens_empty, rb_channels = 0, rb_open = {}, rb_tags = 0,
      rb_buffer = [], rb_live = [], rb_unacked = [], rb_acked = [], rb_requeued = [], rb_failed = {}\<rparr>"

text \<open>\<^verbatim>\<open>connect\<close>, once the channel consumes the queue.\<close>

definition rabbit_connect :: "rabbit_sys \<Rightarrow> rabbit_sys" where
  "rabbit_connect s =
     (case token_new (rb_tokens s) of (t, ts) \<Rightarrow>
        s\<lparr>rb_session := Some \<lparr>rn_channel = rb_channels s, rn_revoked = t\<rparr>, rb_tokens := ts, rb_buffer := [],
          rb_open := insert (rb_channels s) (rb_open s), rb_channels := rb_channels s + 1\<rparr>)"

text \<open>\<^verbatim>\<open>Session::end\<close> and the end of the session in \<^verbatim>\<open>close\<close>: what it has not handed out is dropped.\<close>

definition session_end :: "rabbit_sys \<Rightarrow> rabbit_sys" where
  "session_end s =
     (case rb_session s of
        None \<Rightarrow> s
      | Some ss \<Rightarrow> s\<lparr>rb_session := None, rb_buffer := [], rb_tokens := token_cancel (rn_revoked ss) (rb_tokens s)\<rparr>)"

definition rabbit_receive :: "rabbit_sys \<Rightarrow> rabbit_sys option" where
  "rabbit_receive s =
     (case (rb_session s, rb_buffer s) of
        (Some ss, tag # rest) \<Rightarrow>
          Some (s\<lparr>rb_buffer := rest,
                  rb_live := rb_live s @ [\<lparr>rd_channel = rn_channel ss, rd_tag = tag, rd_revoked = rn_revoked ss\<rparr>]\<rparr>)
      | _ \<Rightarrow> None)"

datatype ack_answer = AckWritten | AckChannelClosed | AckError box_error

text \<open>
  \<^verbatim>\<open>RabbitMqMessage::ack\<close>. AMQP does not confirm it: one that was written is applied if its channel is
  still open at the broker.
\<close>

definition rabbit_ack :: "ack_answer \<Rightarrow> nat \<Rightarrow> rabbit_sys \<Rightarrow> unit outcome \<times> rabbit_sys" where
  "rabbit_ack answer i s =
     (let m = rb_live s ! i; s1 = s\<lparr>rb_live := remove_nth i (rb_live s)\<rparr>;
          revoke = s1\<lparr>rb_tokens := token_cancel (rd_revoked m) (rb_tokens s),
                      rb_failed := insert (rd_channel m) (rb_failed s)\<rparr> in
      case answer of
        AckWritten \<Rightarrow>
          (Inr (), if (rd_channel m, rd_tag m) \<in> set (rb_unacked s)
                   then s1\<lparr>rb_unacked := remove1 (rd_channel m, rd_tag m) (rb_unacked s),
                           rb_acked := rb_acked s @ [(rd_channel m, rd_tag m)]\<rparr>
                   else s1)
      | AckChannelClosed \<Rightarrow> (Inl (Crate (error_msg ''RabbitMQ channel closed before the acknowledgement'')), revoke)
      | AckError e \<Rightarrow> (Inl (Crate (error_wrap ''acknowledging a RabbitMQ delivery'' e)), revoke))"

text \<open>The broker closes a channel, asked to or not, and requeues what is unacknowledged on it.\<close>

definition channel_gone :: "nat \<Rightarrow> rabbit_sys \<Rightarrow> rabbit_sys" where
  "channel_gone ch s =
     s\<lparr>rb_open := rb_open s - {ch}, rb_unacked := filter (\<lambda>(c, tag). c \<noteq> ch) (rb_unacked s),
       rb_requeued := rb_requeued s @ filter (\<lambda>(c, tag). c = ch) (rb_unacked s)\<rparr>"

datatype rabbit_event =
    RbConnect
  | RbDeliver
  | RbReceive
  | RbConsumerEnded
  | RbGone nat
  | RbAck nat ack_answer
  | RbDrop nat
  | RbClose

fun rabbit_step :: "rabbit_sys \<Rightarrow> rabbit_event \<Rightarrow> rabbit_sys option" where
  "rabbit_step s RbConnect = (if \<not> rb_closed s \<and> rb_session s = None then Some (rabbit_connect s) else None)"
| "rabbit_step s RbDeliver =
     (case rb_session s of
        Some ss \<Rightarrow>
          if rn_channel ss \<in> rb_open s
          then Some (s\<lparr>rb_tags := rb_tags s + 1, rb_buffer := rb_buffer s @ [rb_tags s],
                       rb_unacked := rb_unacked s @ [(rn_channel ss, rb_tags s)]\<rparr>)
          else None
      | None \<Rightarrow> None)"
| "rabbit_step s RbReceive = (if rb_closed s then None else rabbit_receive s)"
| "rabbit_step s RbConsumerEnded =
     (if rb_closed s \<or> rb_session s = None \<or> rb_buffer s \<noteq> [] then None else Some (session_end s))"
| "rabbit_step s (RbGone ch) = (if ch \<in> rb_open s then Some (channel_gone ch s) else None)"
| "rabbit_step s (RbAck i answer) = (if i < length (rb_live s) then Some (snd (rabbit_ack answer i s)) else None)"
| "rabbit_step s (RbDrop i) =
     (if i < length (rb_live s) then Some (s\<lparr>rb_live := remove_nth i (rb_live s)\<rparr>) else None)"
| "rabbit_step s RbClose = Some (session_end (s\<lparr>rb_closed := True\<rparr>))"

abbreviation rabbit_reach :: "rabbit_sys \<Rightarrow> bool" where
  "rabbit_reach \<equiv> reach (\<lambda>s. s = rabbit_new) rabbit_step"

section \<open>The invariant\<close>

text \<open>A session makes one channel and one token, so that both have the same number.\<close>

definition current_channel :: "rabbit_sys \<Rightarrow> nat option" where
  "current_channel s = map_option rn_channel (rb_session s)"

definition tokens_inv :: "rabbit_sys \<Rightarrow> bool" where
  "tokens_inv s \<longleftrightarrow>
     tok_next (rb_tokens s) = rb_channels s
     \<and> (\<forall>t. token_is_cancelled (rb_tokens s) t \<longleftrightarrow> t < rb_channels s \<and> (current_channel s \<noteq> Some t \<or> t \<in> rb_failed s))
     \<and> (\<forall>ss. rb_session s = Some ss \<longrightarrow> rn_revoked ss = rn_channel ss \<and> rn_channel ss < rb_channels s)
     \<and> list_all (\<lambda>m. rd_revoked m = rd_channel m \<and> rd_channel m < rb_channels s) (rb_live s)
     \<and> rb_failed s \<subseteq> {..<rb_channels s}
     \<and> (rb_closed s \<longrightarrow> rb_session s = None)"

definition broker_inv :: "rabbit_sys \<Rightarrow> bool" where
  "broker_inv s \<longleftrightarrow>
     image_mset snd (mset (rb_unacked s) + mset (rb_acked s) + mset (rb_requeued s)) = mset [0..<rb_tags s]
     \<and> list_all (\<lambda>(ch, tag). ch \<in> rb_open s) (rb_unacked s)"

lemma session_end_tokens: "tokens_inv s \<Longrightarrow> tokens_inv (session_end s)"
  by (auto simp: tokens_inv_def session_end_def current_channel_def split: option.splits)

lemma session_end_broker [simp]: "broker_inv (session_end s) = broker_inv s"
  by (simp add: broker_inv_def session_end_def split: option.splits)

lemma list_all_remove_nth: "list_all P xs \<Longrightarrow> list_all P (remove_nth i xs)"
  using set_remove_nth [of i xs] by (auto simp: list_all_iff)

lemma rabbit_connect_tokens: "tokens_inv s \<Longrightarrow> \<not> rb_closed s \<Longrightarrow> rb_session s = None \<Longrightarrow> tokens_inv (rabbit_connect s)"
  by (auto simp: tokens_inv_def rabbit_connect_def current_channel_def list_all_iff token_is_cancelled_def token_new_def
      less_Suc_eq)

lemma rabbit_ack_tokens:
  assumes "tokens_inv s" "i < length (rb_live s)"
  shows "tokens_inv (snd (rabbit_ack answer i s))"
proof -
  have "rd_revoked (rb_live s ! i) = rd_channel (rb_live s ! i)" "rd_channel (rb_live s ! i) < rb_channels s"
    using assms by (auto simp: tokens_inv_def list_all_length)
  with assms show ?thesis
    by (cases answer) (auto simp: tokens_inv_def rabbit_ack_def Let_def current_channel_def list_all_remove_nth)
qed

text \<open>A delivery that moves from the unacknowledged ones to the others is still there once.\<close>

lemma mset_move:
  assumes "mset u = mset u' + mset d"
  shows "image_mset f (mset u' + mset (a @ d) + r) = image_mset f (mset u + mset a + r)"
    and "image_mset f (mset u' + a' + mset (r' @ d)) = image_mset f (mset u + a' + mset r')"
  by (simp_all add: assms)

lemma rabbit_ack_broker:
  assumes "broker_inv s"
  shows "broker_inv (snd (rabbit_ack answer i s))"
proof -
  let ?d = "(rd_channel (rb_live s ! i), rd_tag (rb_live s ! i))"
  have "mset (rb_unacked s) = mset (remove1 ?d (rb_unacked s)) + mset [?d]" if "?d \<in> set (rb_unacked s)"
    using that by simp
  note move = mset_move(1) [OF this, of snd "rb_acked s" "mset (rb_requeued s)"]
  have "list_all P (remove1 ?d (rb_unacked s))" if "list_all P (rb_unacked s)" for P
    using that set_remove1_subset [of ?d "rb_unacked s"] by (auto simp: list_all_iff)
  with assms move show ?thesis
    by (cases answer) (auto simp: broker_inv_def rabbit_ack_def Let_def simp del: image_mset_union mset_append)
qed

lemma channel_gone_broker: "broker_inv s \<Longrightarrow> broker_inv (channel_gone ch s)"
proof -
  assume inv: "broker_inv s"
  have "mset (rb_unacked s) =
      mset (filter (\<lambda>(c, tag). c \<noteq> ch) (rb_unacked s)) + mset (filter (\<lambda>(c, tag). c = ch) (rb_unacked s))"
    by (induction "rb_unacked s" rule: rev_induct) (auto simp: case_prod_beta)
  note mset_move(2) [OF this, of snd "mset (rb_acked s)" "rb_requeued s"]
  with inv show ?thesis
    by (auto simp: broker_inv_def channel_gone_def list_all_iff simp del: image_mset_union mset_append)
qed

interpretation rabbit_tokens: invariant_system "\<lambda>s. s = rabbit_new" rabbit_step tokens_inv
proof
  show "tokens_inv s" if "s = rabbit_new" for s
    using that by (simp add: tokens_inv_def rabbit_new_def current_channel_def tokens_empty_def token_is_cancelled_def)
  show "tokens_inv s'" if "tokens_inv s" "rabbit_step s e = Some s'" for s e s'
  proof (cases e)
    case RbConnect
    with that show ?thesis by (auto intro: rabbit_connect_tokens split: if_splits)
  next
    case RbReceive
    with that show ?thesis
      by (auto simp: tokens_inv_def rabbit_receive_def current_channel_def split: if_splits option.splits list.splits)
  next
    case RbConsumerEnded
    with that show ?thesis by (auto intro: session_end_tokens split: if_splits)
  next
    case (RbAck i answer)
    with that show ?thesis by (auto intro: rabbit_ack_tokens split: if_splits)
  next
    case RbClose
    with that show ?thesis
      by (auto simp: tokens_inv_def session_end_def current_channel_def split: option.splits)
  qed (use that in \<open>auto simp: tokens_inv_def current_channel_def channel_gone_def list_all_remove_nth
      split: if_splits option.splits\<close>)
qed

interpretation rabbit_broker: invariant_system "\<lambda>s. s = rabbit_new" rabbit_step broker_inv
proof
  show "broker_inv s" if "s = rabbit_new" for s
    using that by (simp add: broker_inv_def rabbit_new_def)
  show "broker_inv s'" if "broker_inv s" "rabbit_step s e = Some s'" for s e s'
  proof (cases e)
    case (RbAck i answer)
    with that show ?thesis by (auto intro: rabbit_ack_broker split: if_splits)
  next
    case (RbGone ch)
    with that show ?thesis by (auto intro: channel_gone_broker split: if_splits)
  next
    case RbDeliver
    with that show ?thesis
      by (auto simp: broker_inv_def simp del: mset_upt split: if_splits option.splits)
  next
    case RbClose
    with that have "s' = session_end (s\<lparr>rb_closed := True\<rparr>)" by simp
    with that(1) show ?thesis by (simp add: broker_inv_def [of "s\<lparr>rb_closed := True\<rparr>"] broker_inv_def [of s])
  next
    case RbConnect
    with that show ?thesis
      by (auto simp: broker_inv_def rabbit_connect_def token_new_def list_all_iff split: if_splits)
  qed (use that in \<open>auto simp: broker_inv_def [of s'] broker_inv_def [of s] rabbit_receive_def session_end_def
      split: if_splits option.splits list.splits\<close>)
qed

text \<open>
  C33. A RabbitMQ delivery is revoked exactly when its session is over or an acknowledgement on its channel
  failed, and never by the end of another session, so that a handler stops for a message the broker
  hands out again and no other. The broker has every delivery exactly once, unacknowledged on an open
  channel, acknowledged or requeued, whatever the order of receiving, acknowledging, dropping, losing
  channels, reconnecting and closing; and a closed source has no session.
\<close>

theorem rabbitmq_sessions:
  assumes "rabbit_reach s"
  shows "list_all (\<lambda>m. token_is_cancelled (rb_tokens s) (rd_revoked m) \<longleftrightarrow>
        current_channel s \<noteq> Some (rd_channel m) \<or> rd_channel m \<in> rb_failed s) (rb_live s)
    \<and> image_mset snd (mset (rb_unacked s) + mset (rb_acked s) + mset (rb_requeued s)) = mset [0..<rb_tags s]
    \<and> list_all (\<lambda>(ch, tag). ch \<in> rb_open s) (rb_unacked s)
    \<and> (rb_closed s \<longrightarrow> rb_session s = None)"
  using rabbit_tokens.reach_inv [OF assms] rabbit_broker.reach_inv [OF assms]
  by (auto simp: tokens_inv_def broker_inv_def list_all_iff)

definition ex_rabbit_events :: "rabbit_event list" where
  "ex_rabbit_events =
     [RbConnect, RbDeliver, RbDeliver, RbReceive, RbReceive, RbAck 0 AckWritten, RbGone 0, RbConsumerEnded, RbConnect,
      RbDeliver, RbReceive]"

lemma ex_rabbit_run:
  "run_ok (\<lambda>s. map rd_tag (rb_live s) = [1, 2] \<and> rb_acked s = [(0, 0)] \<and> rb_requeued s = [(0, 1)]
      \<and> token_is_cancelled (rb_tokens s) 0 \<and> \<not> token_is_cancelled (rb_tokens s) 1)
     (run rabbit_step rabbit_new ex_rabbit_events)"
  by code_simp

theorem rabbitmq_sessions_witness:
  "\<exists>s :: rabbit_sys. rabbit_reach s \<and> map rd_tag (rb_live s) = [1, 2] \<and> rb_requeued s = [(0, 1)]
    \<and> image_mset snd (mset (rb_unacked s) + mset (rb_acked s) + mset (rb_requeued s)) = mset [0..<rb_tags s]"
proof -
  obtain s where s: "rabbit_reach s" "map rd_tag (rb_live s) = [1, 2] \<and> rb_acked s = [(0, 0)] \<and> rb_requeued s = [(0, 1)]
      \<and> token_is_cancelled (rb_tokens s) 0 \<and> \<not> token_is_cancelled (rb_tokens s) 1"
    by (rule run_ok_obtain [OF ex_rabbit_run refl])
  from rabbitmq_sessions [OF s(1)] s show ?thesis by (intro exI [of _ s]) blast
qed

end
