(* ===== verification/Pubsub.thy ===== *)
theory Pubsub
  imports Pubsub_Records Config Tokens Messages
begin

text \<open>
  The Pub/Sub source and sink of \<^verbatim>\<open>src/adapters/pubsub\<close>: settings (\<^verbatim>\<open>config.rs\<close>, \<^verbatim>\<open>client.rs\<close>), preparing and
  publishing (\<^verbatim>\<open>sink.rs\<close>), records, the streams of a source, the lease watch of a delivery, and
  acknowledging (\<^verbatim>\<open>source.rs\<close>).
\<close>

section \<open>Settings\<close>

definition validate_endpoint :: "string \<Rightarrow> error + unit" where
  "validate_endpoint url =
     ensure_config (starts_with ''https://'' url \<or> starts_with ''http://'' url)
       ''Pub/Sub endpoint must be an http or https URL''"

text \<open>\<^verbatim>\<open>trim_end_matches('s')\<close>.\<close>

definition trim_end_s :: "string \<Rightarrow> string" where
  "trim_end_s s = rev (dropWhile (\<lambda>c. c = CHR ''s'') (rev s))"

definition validate_name :: "string \<Rightarrow> string \<Rightarrow> error + unit" where
  "validate_name name collection =
     ensure_config
       (case split_on CHR ''/'' name of
          [start, project, kind, name_id] \<Rightarrow> start = ''projects'' \<and> project \<noteq> [] \<and> kind = collection \<and> name_id \<noteq> []
        | _ \<Rightarrow> False)
       (''Pub/Sub '' @ trim_end_s collection @ '' must be named projects/{project}/'' @ collection @ ''/{id}, not ''
          @ debug_str name)"

record pubsub_source_config =
  px_subscription :: string
  px_max_outstanding_messages :: int
  px_max_outstanding_bytes :: int
  px_ack_deadline :: duration
  px_max_lease :: duration

abbreviation second :: duration where
  "second \<equiv> 1000 * millisecond"

definition pubsub_source_config_new :: "string \<Rightarrow> pubsub_source_config" where
  "pubsub_source_config_new subscription =
     \<lparr>px_subscription = subscription, px_max_outstanding_messages = 1000,
      px_max_outstanding_bytes = 100 * 1024 * 1024, px_ack_deadline = 60 * second, px_max_lease = 60 * 60 * second\<rparr>"

definition pubsub_source_validate :: "pubsub_source_config \<Rightarrow> error + unit" where
  "pubsub_source_validate c =
     and_then (validate_name (px_subscription c) ''subscriptions'')
    (and_then (ensure_config (10 * second \<le> px_ack_deadline c \<and> px_ack_deadline c \<le> 600 * second)
                ''Pub/Sub ack_deadline must be between 10 seconds and 10 minutes'')
       (ensure_config (px_ack_deadline c \<le> px_max_lease c) ''Pub/Sub max_lease must be at least ack_deadline''))"

record pubsub_sink_config =
  pj_topic :: string
  pj_batch_delay :: duration

definition pubsub_sink_config_new :: "string \<Rightarrow> pubsub_sink_config" where
  "pubsub_sink_config_new topic = \<lparr>pj_topic = topic, pj_batch_delay = 10 * millisecond\<rparr>"

definition pubsub_sink_validate :: "pubsub_sink_config \<Rightarrow> error + unit" where
  "pubsub_sink_validate c = validate_name (pj_topic c) ''topics''"

record pubsub_settings =
  pz_endpoint :: "string option"
  pz_anonymous :: bool

definition pubsub_settings_validate :: "pubsub_settings \<Rightarrow> error + unit" where
  "pubsub_settings_validate g = (case pz_endpoint g of None \<Rightarrow> Inr () | Some url \<Rightarrow> validate_endpoint url)"

section \<open>Publishing\<close>

definition max_attributes :: nat where "max_attributes = 100"
definition max_attribute_name :: nat where "max_attribute_name = 256"
definition max_ordering_key :: nat where "max_ordering_key = 1024"

record pubsub_client_message =
  gm_data :: bytes
  gm_attributes :: "(string \<times> string) list"
  gm_ordering_key :: string

fun check_attributes :: "(string \<times> string) list \<Rightarrow> error + unit" where
  "check_attributes [] = Inr ()"
| "check_attributes ((name, v) # attrs) =
     and_then (ensure_valid_record (name \<noteq> [] \<and> length name \<le> max_attribute_name)
                (''Pub/Sub attribute names must be 1 to 256 bytes: '' @ debug_str name))
    (and_then (ensure_valid_record (\<not> starts_with ''goog'' name)
                (''Pub/Sub reserves attribute names starting with goog: '' @ debug_str name))
    (and_then (ensure_valid_record (length v \<le> max_attribute_value)
                (''Pub/Sub attribute '' @ name @ '' is longer than 1024 bytes''))
       (check_attributes attrs)))"

text \<open>\<^verbatim>\<open>prepare\<close>; \<open>attrs\<close> are the attributes in the order of their map.\<close>

definition pubsub_prepare ::
  "('v \<Rightarrow> bytes outcome) \<Rightarrow> (string \<times> string) list \<Rightarrow> 'v pubsub_publish \<Rightarrow> pubsub_client_message outcome" where
  "pubsub_prepare encode attrs p =
     bind_result (encode (su_value p)) (\<lambda>data.
       let key = (case su_ordering_key p of None \<Rightarrow> [] | Some k \<Rightarrow> k) in
       case and_then (ensure_valid_record (length attrs \<le> max_attributes) ''Pub/Sub messages accept at most 100 attributes'')
           (and_then (check_attributes attrs)
           (and_then (ensure_valid_record (length key \<le> max_ordering_key)
                       ''Pub/Sub ordering keys must be at most 1024 bytes'')
              (ensure_valid_record (data \<noteq> [] \<or> attrs \<noteq> []) ''Pub/Sub messages need data or at least one attribute''))) of
         Inl e \<Rightarrow> Inl (Crate e)
       | Inr _ \<Rightarrow> Inr \<lparr>gm_data = data, gm_attributes = attrs, gm_ordering_key = key\<rparr>)"

text \<open>What the client answers to a publication: of an error the code reads whether it is an invalid argument.\<close>

datatype publish_answer = Stored | InvalidArgument box_error | OtherPublishError box_error

text \<open>\<^verbatim>\<open>publish\<close>, with the ordering keys it lets the client publish again after a failure.\<close>

definition pubsub_send ::
  "bool \<Rightarrow> unit outcome \<Rightarrow> publish_answer \<Rightarrow> pubsub_client_message \<Rightarrow> unit outcome \<times> string list" where
  "pubsub_send closed publisher answer m =
     (if closed then (Inl (Crate (Closed ''Pub/Sub sink is closed'')), [])
      else case publisher of
        Inl e \<Rightarrow> (Inl e, [])
      | Inr _ \<Rightarrow>
          let resumed = (if gm_ordering_key m = [] then [] else [gm_ordering_key m]);
              wrap = (\<lambda>e. Crate (error_wrap ''publishing to Pub/Sub'' e)) in
          (case answer of
             Stored \<Rightarrow> (Inr (), [])
           | InvalidArgument e \<Rightarrow> (Inl (publish_rejected_wrap (wrap e)), resumed)
           | OtherPublishError e \<Rightarrow> (Inl (wrap e), resumed)))"

section \<open>Records\<close>

definition i64_clamp :: "int \<Rightarrow> int" where
  "i64_clamp x = max (- (2 ^ 63)) (min i64_max x)"

text \<open>A received message; its publication time is in seconds and the nanoseconds within one.\<close>

record pubsub_received =
  gr_message :: pubsub_client_message
  gr_message_id :: string
  gr_publish_time :: "(int \<times> nat) option"
  gr_delivery_attempt :: "int option"

definition pubsub_publish_time :: "int \<times> nat \<Rightarrow> int" where
  "pubsub_publish_time = (\<lambda>(seconds, nanos). i64_clamp (i64_clamp (seconds * 1000) + int (nanos div 1000000)))"

definition pubsub_record_of ::
  "string \<Rightarrow> (bytes \<Rightarrow> 'e + 'v) \<Rightarrow> pubsub_received \<Rightarrow> 'e + 'v pubsub_record" where
  "pubsub_record_of subscription decode r =
     bind_result (decode (gm_data (gr_message r))) (\<lambda>v.
       Inr \<lparr>sr_value = v, sr_attributes = extend_table Map.empty (gm_attributes (gr_message r)),
            sr_ordering_key = (if gm_ordering_key (gr_message r) = [] then None else Some (gm_ordering_key (gr_message r))),
            sr_metadata = \<lparr>sm_subscription = subscription, sm_message_id = gr_message_id r,
              sm_publish_time = map_option pubsub_publish_time (gr_publish_time r),
              sm_delivery_attempt = (case gr_delivery_attempt r of
                  None \<Rightarrow> None
                | Some a \<Rightarrow> if 0 \<le> a \<and> a < 2 ^ 32 then Some (of_int a) else None)\<rparr>\<rparr>)"

definition pubsub_ordering_key :: "string \<Rightarrow> pubsub_received \<Rightarrow> ordering_key option" where
  "pubsub_ordering_key subscription r =
     (let key = gm_ordering_key (gr_message r) in
      if key = [] then None else Some (with_key (str_bytes key) (ordering_key_new subscription 0)))"

section \<open>Streams, leases and acknowledgements\<close>

text \<open>
  Streams are numbered. A delivery has the token its handler sees and the one that ends its lease
  watch; \<open>ph_since\<close> is when it was handed out. A watch has the token it cancels, the one that ends it
  and its deadline. \<open>pv_shut\<close> are the streams that were shut down, in order.
\<close>

record pubsub_held =
  ph_revoked :: token
  ph_done :: token
  ph_since :: nat

record lease_watch =
  lw_revoked :: token
  lw_done :: token
  lw_deadline :: nat

record pubsub_sys =
  pv_stream :: "nat option"
  pv_retired :: "nat list"
  pv_closed :: bool
  pv_opened :: nat
  pv_shut :: "nat list"
  pv_now :: nat
  pv_tokens :: tokens
  pv_live :: "pubsub_held list"
  pv_watches :: "lease_watch list"

definition pubsub_new :: "nat \<Rightarrow> pubsub_sys" where
  "pubsub_new now =
     \<lparr>pv_stream = None, pv_retired = [], pv_closed = False, pv_opened = 0, pv_shut = [], pv_now = now,
      pv_tokens = tokens_empty, pv_live = [], pv_watches = []\<rparr>"

text \<open>\<^verbatim>\<open>PubSubMessage::new\<close>.\<close>

definition pubsub_message_new :: "duration \<Rightarrow> pubsub_sys \<Rightarrow> pubsub_sys" where
  "pubsub_message_new max_lease s =
     (case token_new (pv_tokens s) of (revoked, ts) \<Rightarrow>
      case token_new ts of (done, ts) \<Rightarrow>
        s\<lparr>pv_tokens := ts,
          pv_watches := pv_watches s @ [\<lparr>lw_revoked = revoked, lw_done = done, lw_deadline = pv_now s + max_lease\<rparr>],
          pv_live := pv_live s @ [\<lparr>ph_revoked = revoked, ph_done = done, ph_since = pv_now s\<rparr>]\<rparr>)"

text \<open>An error or the end of the stream retires it; its leases are still managed.\<close>

definition stream_retire :: "pubsub_sys \<Rightarrow> pubsub_sys option" where
  "stream_retire s =
     (case pv_stream s of
        None \<Rightarrow> None
      | Some n \<Rightarrow> Some (s\<lparr>pv_stream := None, pv_retired := pv_retired s @ [n]\<rparr>))"

definition pubsub_close :: "pubsub_sys \<Rightarrow> pubsub_sys" where
  "pubsub_close s =
     s\<lparr>pv_closed := True, pv_stream := None, pv_retired := [],
       pv_shut := pv_shut s @ pv_retired s @ (case pv_stream s of None \<Rightarrow> [] | Some n \<Rightarrow> [n])\<rparr>"

datatype ack_reply = AckUnconfirmed | AckConfirmed | AckLeaseExpired box_error | AckFailed box_error

text \<open>\<^verbatim>\<open>PubSubMessage::ack\<close>; the message is dropped at its end, which ends its watch.\<close>

definition pubsub_ack :: "ack_reply \<Rightarrow> nat \<Rightarrow> pubsub_sys \<Rightarrow> unit outcome \<times> pubsub_sys" where
  "pubsub_ack reply i s =
     (let m = pv_live s ! i; s1 = s\<lparr>pv_live := remove_nth i (pv_live s), pv_tokens := token_cancel (ph_done m) (pv_tokens s)\<rparr>;
          wrap = (\<lambda>e. Crate (error_wrap ''acknowledging a Pub/Sub message'' e)) in
      case reply of
        AckUnconfirmed \<Rightarrow> (Inr (), s1)
      | AckConfirmed \<Rightarrow> (Inr (), s1)
      | AckLeaseExpired e \<Rightarrow> (Inl (wrap e), s1\<lparr>pv_tokens := token_cancel (ph_revoked m) (pv_tokens s1)\<rparr>)
      | AckFailed e \<Rightarrow> (Inl (wrap e), s1))"

text \<open>\<^verbatim>\<open>Drop for PubSubMessage\<close>.\<close>

definition pubsub_drop :: "nat \<Rightarrow> pubsub_sys \<Rightarrow> pubsub_sys" where
  "pubsub_drop i s =
     s\<lparr>pv_live := remove_nth i (pv_live s), pv_tokens := token_cancel (ph_done (pv_live s ! i)) (pv_tokens s)\<rparr>"

datatype pubsub_event =
    PbTick nat
  | PbOpen
  | PbMessage
  | PbStreamEnded
  | PbWatchExpired nat
  | PbWatchDone nat
  | PbAck nat ack_reply
  | PbDrop nat
  | PbClose

fun pubsub_step :: "duration \<Rightarrow> pubsub_sys \<Rightarrow> pubsub_event \<Rightarrow> pubsub_sys option" where
  "pubsub_step max_lease s (PbTick d) = Some (s\<lparr>pv_now := pv_now s + d\<rparr>)"
| "pubsub_step max_lease s PbOpen =
     (if \<not> pv_closed s \<and> pv_stream s = None
      then Some (s\<lparr>pv_stream := Some (pv_opened s), pv_opened := pv_opened s + 1\<rparr>) else None)"
| "pubsub_step max_lease s PbMessage =
     (if \<not> pv_closed s \<and> pv_stream s \<noteq> None then Some (pubsub_message_new max_lease s) else None)"
| "pubsub_step max_lease s PbStreamEnded = (if pv_closed s then None else stream_retire s)"
| "pubsub_step max_lease s (PbWatchExpired i) =
     (if i < length (pv_watches s) \<and> lw_deadline (pv_watches s ! i) \<le> pv_now s
      then Some (s\<lparr>pv_watches := remove_nth i (pv_watches s),
                   pv_tokens := token_cancel (lw_revoked (pv_watches s ! i)) (pv_tokens s)\<rparr>) else None)"
| "pubsub_step max_lease s (PbWatchDone i) =
     (if i < length (pv_watches s) \<and> token_is_cancelled (pv_tokens s) (lw_done (pv_watches s ! i))
      then Some (s\<lparr>pv_watches := remove_nth i (pv_watches s)\<rparr>) else None)"
| "pubsub_step max_lease s (PbAck i reply) =
     (if i < length (pv_live s) then Some (snd (pubsub_ack reply i s)) else None)"
| "pubsub_step max_lease s (PbDrop i) = (if i < length (pv_live s) then Some (pubsub_drop i s) else None)"
| "pubsub_step max_lease s PbClose = Some (pubsub_close s)"

definition pubsub_init :: "pubsub_sys \<Rightarrow> bool" where
  "pubsub_init s \<longleftrightarrow> (\<exists>now. s = pubsub_new now)"

abbreviation pubsub_reach :: "duration \<Rightarrow> pubsub_sys \<Rightarrow> bool" where
  "pubsub_reach max_lease \<equiv> reach pubsub_init (pubsub_step max_lease)"

section \<open>The invariant\<close>

text \<open>A delivery creates two tokens, so that the second is the successor of the first, which is even.\<close>

definition paired :: "nat \<Rightarrow> token \<Rightarrow> token \<Rightarrow> bool" where
  "paired next revoked done \<longleftrightarrow> even revoked \<and> done = Suc revoked \<and> revoked < next"

definition lease_ok :: "duration \<Rightarrow> pubsub_sys \<Rightarrow> pubsub_held \<Rightarrow> bool" where
  "lease_ok max_lease s m \<longleftrightarrow>
     paired (tok_next (pv_tokens s)) (ph_revoked m) (ph_done m)
     \<and> \<not> token_is_cancelled (pv_tokens s) (ph_done m)
     \<and> (if token_is_cancelled (pv_tokens s) (ph_revoked m) then ph_since m + max_lease \<le> pv_now s
        else ph_revoked m \<in> lw_revoked ` set (pv_watches s))"

definition watch_ok :: "duration \<Rightarrow> pubsub_sys \<Rightarrow> lease_watch \<Rightarrow> bool" where
  "watch_ok max_lease s w \<longleftrightarrow>
     paired (tok_next (pv_tokens s)) (lw_revoked w) (lw_done w)
     \<and> (\<forall>m \<in> set (pv_live s). ph_revoked m = lw_revoked w \<longrightarrow> lw_deadline w = ph_since m + max_lease)"

definition leases_inv :: "duration \<Rightarrow> pubsub_sys \<Rightarrow> bool" where
  "leases_inv max_lease s \<longleftrightarrow>
     even (tok_next (pv_tokens s)) \<and> tokens_ok (pv_tokens s)
     \<and> distinct (map ph_revoked (pv_live s)) \<and> list_all (lease_ok max_lease s) (pv_live s)
     \<and> list_all (watch_ok max_lease s) (pv_watches s)"

definition streams_inv :: "pubsub_sys \<Rightarrow> bool" where
  "streams_inv s \<longleftrightarrow>
     pv_shut s @ pv_retired s @ (case pv_stream s of None \<Rightarrow> [] | Some n \<Rightarrow> [n]) = [0..<pv_opened s]
     \<and> (pv_closed s \<longrightarrow> pv_stream s = None \<and> pv_retired s = [])"

lemma list_all_remove: "list_all P xs \<Longrightarrow> list_all P (remove_nth i xs)"
  using set_remove_nth [of i xs] by (auto simp: list_all_iff)

lemma distinct_remove:
  assumes "distinct (map f xs)" "i < length xs"
  shows "distinct (map f (remove_nth i xs))" "x \<in> set (remove_nth i xs) \<Longrightarrow> f x \<noteq> f (xs ! i)"
proof -
  have split: "map f xs = map f (take i xs) @ f (xs ! i) # map f (drop (Suc i) xs)"
    by (subst id_take_nth_drop [OF assms(2)]) simp
  then show "distinct (map f (remove_nth i xs))"
    using assms(1) by (simp add: remove_nth_def)
  have "f (xs ! i) \<notin> f ` (set (take i xs) \<union> set (drop (Suc i) xs))"
    using assms(1) unfolding split image_Un by simp
  moreover have "f x \<in> f ` (set (take i xs) \<union> set (drop (Suc i) xs))" if "x \<in> set (remove_nth i xs)"
    using that by (auto simp: remove_nth_def)
  ultimately show "x \<in> set (remove_nth i xs) \<Longrightarrow> f x \<noteq> f (xs ! i)" by metis
qed

lemma paired_less: "even n \<Longrightarrow> paired n r d \<Longrightarrow> r < n \<and> d < n"
  by (metis Suc_lessI even_Suc paired_def)

lemma paired_apart: "paired n r d \<Longrightarrow> paired n' r' d' \<Longrightarrow> d \<noteq> r' \<and> r \<noteq> d' \<and> (d = d' \<longleftrightarrow> r = r')"
  by (auto simp: paired_def)

text \<open>Ending a delivery cancels a token no other delivery has.\<close>

lemma leases_end:
  assumes "leases_inv max_lease s" "i < length (pv_live s)"
    "cancelled \<subseteq> {ph_done (pv_live s ! i), ph_revoked (pv_live s ! i)}"
  shows "leases_inv max_lease (s\<lparr>pv_live := remove_nth i (pv_live s),
           pv_tokens := (pv_tokens s)\<lparr>tok_cancelled := cancelled \<union> tok_cancelled (pv_tokens s)\<rparr>\<rparr>)"
    (is "leases_inv _ ?s")
proof -
  let ?m = "pv_live s ! i"
  have m: "lease_ok max_lease s ?m" using assms(1,2) by (auto simp: leases_inv_def list_all_length)
  have "lease_ok max_lease ?s x" if x: "x \<in> set (remove_nth i (pv_live s))" for x
  proof -
    have "lease_ok max_lease s x" using x assms(1) set_remove_nth [of i "pv_live s"] by (auto simp: leases_inv_def list_all_iff)
    moreover have "ph_revoked x \<noteq> ph_revoked ?m"
      using distinct_remove(2) [OF _ assms(2) x] assms(1) by (auto simp: leases_inv_def)
    ultimately have "ph_revoked x \<notin> cancelled" "ph_done x \<notin> cancelled"
      using m assms(3) paired_apart [of _ "ph_revoked x" "ph_done x" _ "ph_revoked ?m" "ph_done ?m"]
      unfolding lease_ok_def by blast+
    with \<open>lease_ok max_lease s x\<close> show ?thesis by (auto simp: lease_ok_def token_is_cancelled_def)
  qed
  moreover have "watch_ok max_lease ?s w" if "watch_ok max_lease s w" for w
    using that set_remove_nth [of i "pv_live s"] by (auto simp: watch_ok_def)
  moreover have "ph_revoked ?m < tok_next (pv_tokens s)" "ph_done ?m < tok_next (pv_tokens s)"
    using m assms(1) paired_less by (auto simp: leases_inv_def lease_ok_def)
  then have "tokens_ok (pv_tokens ?s)"
    using assms(1,3) by (auto simp: leases_inv_def tokens_ok_def)
  ultimately show ?thesis
    using assms(1,2) distinct_remove(1) [of ph_revoked "pv_live s" i] by (auto simp: leases_inv_def list_all_iff)
qed

lemma leases_drop: "leases_inv max_lease s \<Longrightarrow> i < length (pv_live s) \<Longrightarrow> leases_inv max_lease (pubsub_drop i s)"
  using leases_end [of max_lease s i "{ph_done (pv_live s ! i)}"] by (simp add: pubsub_drop_def token_cancel_def)

lemma leases_ack:
  assumes "leases_inv max_lease s" "i < length (pv_live s)"
  shows "leases_inv max_lease (snd (pubsub_ack reply i s))"
  using leases_end [OF assms, of "{ph_done (pv_live s ! i)}"]
    leases_end [OF assms, of "{ph_revoked (pv_live s ! i), ph_done (pv_live s ! i)}"]
  by (cases reply) (simp_all add: pubsub_ack_def Let_def token_cancel_def)

lemma leases_message:
  assumes "leases_inv max_lease s"
  shows "leases_inv max_lease (pubsub_message_new max_lease s)" (is "leases_inv _ ?s")
proof -
  let ?n = "tok_next (pv_tokens s)"
  have fresh: "\<not> token_is_cancelled (pv_tokens s) ?n" "\<not> token_is_cancelled (pv_tokens s) (Suc ?n)"
    using assms by (auto simp: leases_inv_def tokens_ok_def token_is_cancelled_def)
  have old: "ph_revoked m < ?n" if "m \<in> set (pv_live s)" for m
    using that assms by (auto simp: leases_inv_def list_all_iff lease_ok_def paired_def)
  have oldw: "lw_revoked w < ?n" if "w \<in> set (pv_watches s)" for w
    using that assms by (auto simp: leases_inv_def list_all_iff watch_ok_def paired_def)
  show ?thesis
    using assms fresh old oldw
    by (fastforce simp: leases_inv_def pubsub_message_new_def token_new_def tokens_ok_def list_all_iff lease_ok_def
        watch_ok_def paired_def token_is_cancelled_def)
qed

lemma leases_expired:
  assumes inv: "leases_inv max_lease s" and i: "i < length (pv_watches s)" "lw_deadline (pv_watches s ! i) \<le> pv_now s"
  shows "leases_inv max_lease (s\<lparr>pv_watches := remove_nth i (pv_watches s),
           pv_tokens := token_cancel (lw_revoked (pv_watches s ! i)) (pv_tokens s)\<rparr>)" (is "leases_inv _ ?s")
proof -
  let ?w = "pv_watches s ! i"
  have w: "watch_ok max_lease s ?w" using inv i by (auto simp: leases_inv_def list_all_length)
  have split: "set (pv_watches s) = insert ?w (set (remove_nth i (pv_watches s)))"
    by (subst remove_nth_split [OF i(1)]) (auto simp: remove_nth_def)
  have "lease_ok max_lease ?s m" if m: "m \<in> set (pv_live s)" for m
  proof -
    have "lease_ok max_lease s m" using inv m by (auto simp: leases_inv_def list_all_iff)
    moreover from this w have "ph_done m \<noteq> lw_revoked ?w"
      using paired_apart unfolding lease_ok_def watch_ok_def by blast
    ultimately show ?thesis using w i(2) m split by (auto simp: lease_ok_def watch_ok_def split: if_splits)
  qed
  moreover have "watch_ok max_lease ?s x" if "watch_ok max_lease s x" for x
    using that by (auto simp: watch_ok_def)
  ultimately show ?thesis
    using inv w list_all_remove [of "watch_ok max_lease s" "pv_watches s" i]
    by (auto simp: leases_inv_def list_all_iff watch_ok_def [of _ _ ?w] paired_def)
qed

lemma leases_watch_done:
  assumes inv: "leases_inv max_lease s" and i: "i < length (pv_watches s)"
    and d: "token_is_cancelled (pv_tokens s) (lw_done (pv_watches s ! i))"
  shows "leases_inv max_lease (s\<lparr>pv_watches := remove_nth i (pv_watches s)\<rparr>)" (is "leases_inv _ ?s")
proof -
  let ?w = "pv_watches s ! i"
  have w: "watch_ok max_lease s ?w" using inv i by (auto simp: leases_inv_def list_all_length)
  have split: "set (pv_watches s) = insert ?w (set (remove_nth i (pv_watches s)))"
    by (subst remove_nth_split [OF i(1)]) (auto simp: remove_nth_def)
  have "lease_ok max_lease ?s m" if m: "m \<in> set (pv_live s)" for m
  proof -
    have "lease_ok max_lease s m" using inv m by (auto simp: leases_inv_def list_all_iff)
    moreover from this w d have "ph_revoked m \<noteq> lw_revoked ?w"
      using paired_apart unfolding lease_ok_def watch_ok_def by metis
    ultimately show ?thesis using split by (auto simp: lease_ok_def split: if_splits)
  qed
  then show ?thesis
    using inv list_all_remove [of "watch_ok max_lease s" "pv_watches s" i]
    by (auto simp: leases_inv_def list_all_iff watch_ok_def)
qed

interpretation pubsub_leases: invariant_system pubsub_init "pubsub_step max_lease" "leases_inv max_lease"
proof
  show "leases_inv max_lease s" if "pubsub_init s" for s
    using that by (auto simp: pubsub_init_def pubsub_new_def leases_inv_def tokens_empty_def tokens_ok_def)
  show "leases_inv max_lease s'" if inv: "leases_inv max_lease s" and step: "pubsub_step max_lease s e = Some s'" for s e s'
  proof (cases e)
    case (PbTick d)
    with inv step show ?thesis
      by (fastforce simp: leases_inv_def list_all_iff lease_ok_def watch_ok_def split: if_splits)
  next
    case (PbWatchExpired i)
    with inv step show ?thesis by (auto intro: leases_expired split: if_splits)
  next
    case (PbWatchDone i)
    with inv step show ?thesis by (auto intro: leases_watch_done split: if_splits)
  next
    case (PbAck i reply)
    with inv step show ?thesis by (auto intro: leases_ack split: if_splits)
  next
    case (PbDrop i)
    with inv step show ?thesis by (auto intro: leases_drop split: if_splits)
  next
    case PbMessage
    with inv step show ?thesis by (auto intro: leases_message split: if_splits)
  qed (use inv step in \<open>auto simp: leases_inv_def list_all_iff lease_ok_def watch_ok_def stream_retire_def pubsub_close_def
      split: if_splits option.splits\<close>)
qed

interpretation pubsub_streams: invariant_system pubsub_init "pubsub_step max_lease" streams_inv
proof
  show "streams_inv s" if "pubsub_init s" for s
    using that by (auto simp: pubsub_init_def pubsub_new_def streams_inv_def)
  show "streams_inv s'" if inv: "streams_inv s" and step: "pubsub_step max_lease s e = Some s'" for s e s'
  proof (cases e)
    case (PbAck i reply)
    with inv step show ?thesis by (cases reply) (auto simp: streams_inv_def pubsub_ack_def Let_def split: if_splits)
  qed (use inv step in \<open>auto simp: streams_inv_def stream_retire_def pubsub_close_def pubsub_drop_def pubsub_message_new_def
      token_new_def split: if_splits option.splits\<close>)
qed

text \<open>
  C32. A Pub/Sub delivery that is being processed is revoked only once it was held for the longest lease,
  and until it is revoked its watch is running and will revoke it at that time. Every stream that was
  opened is open, retired or shut down, in order, and after closing every one was shut down.
\<close>

theorem pubsub_leases_watched:
  assumes "pubsub_reach max_lease s"
  shows "list_all (\<lambda>m. if token_is_cancelled (pv_tokens s) (ph_revoked m) then ph_since m + max_lease \<le> pv_now s
        else \<lparr>lw_revoked = ph_revoked m, lw_done = ph_done m, lw_deadline = ph_since m + max_lease\<rparr> \<in> set (pv_watches s))
        (pv_live s)
    \<and> pv_shut s @ pv_retired s @ (case pv_stream s of None \<Rightarrow> [] | Some n \<Rightarrow> [n]) = [0..<pv_opened s]
    \<and> (pv_closed s \<longrightarrow> pv_shut s = [0..<pv_opened s])"
proof -
  have inv: "leases_inv max_lease s" by (rule pubsub_leases.reach_inv [OF assms])
  have watched: "\<lparr>lw_revoked = ph_revoked m, lw_done = ph_done m, lw_deadline = ph_since m + max_lease\<rparr> \<in> set (pv_watches s)"
    if m: "m \<in> set (pv_live s)" "\<not> token_is_cancelled (pv_tokens s) (ph_revoked m)" for m
  proof -
    have ok: "lease_ok max_lease s m" using inv m(1) by (auto simp: leases_inv_def list_all_iff)
    with m(2) obtain w where w: "w \<in> set (pv_watches s)" "lw_revoked w = ph_revoked m" by (auto simp: lease_ok_def)
    then have "watch_ok max_lease s w" using inv by (auto simp: leases_inv_def list_all_iff)
    with ok m(1) w have "w = \<lparr>lw_revoked = ph_revoked m, lw_done = ph_done m, lw_deadline = ph_since m + max_lease\<rparr>"
      by (cases w) (auto simp: watch_ok_def lease_ok_def paired_def)
    with w show ?thesis by simp
  qed
  have "list_all (lease_ok max_lease s) (pv_live s)" using inv by (simp add: leases_inv_def)
  moreover have "streams_inv s" by (rule pubsub_streams.reach_inv [OF assms])
  ultimately show ?thesis
    using watched by (auto simp: list_all_iff lease_ok_def streams_inv_def split: if_splits)
qed

definition ex_pubsub_events :: "pubsub_event list" where
  "ex_pubsub_events =
     [PbOpen, PbMessage, PbTick 5, PbMessage, PbStreamEnded, PbTick 5, PbWatchExpired 0, PbOpen, PbMessage, PbDrop 1,
      PbWatchDone 0, PbClose]"

lemma ex_pubsub_run:
  "run_ok (\<lambda>s. map ph_since (pv_live s) = [0, 10] \<and> pv_closed s \<and> pv_shut s = [0, 1] \<and> token_is_cancelled (pv_tokens s) 0
      \<and> map lw_deadline (pv_watches s) = [20])
     (run (pubsub_step 10) (pubsub_new 0) ex_pubsub_events)"
  by code_simp

theorem pubsub_leases_watched_witness:
  "\<exists>s :: pubsub_sys. pubsub_reach 10 s \<and> map ph_since (pv_live s) = [0, 10]
    \<and> list_all (\<lambda>m. if token_is_cancelled (pv_tokens s) (ph_revoked m) then ph_since m + 10 \<le> pv_now s
        else \<lparr>lw_revoked = ph_revoked m, lw_done = ph_done m, lw_deadline = ph_since m + 10\<rparr> \<in> set (pv_watches s))
        (pv_live s)
    \<and> pv_shut s = [0..<pv_opened s]"
proof -
  have "pubsub_init (pubsub_new 0)" by (auto simp: pubsub_init_def)
  then obtain s where s: "pubsub_reach 10 s" "map ph_since (pv_live s) = [0, 10] \<and> pv_closed s \<and> pv_shut s = [0, 1]
      \<and> token_is_cancelled (pv_tokens s) 0 \<and> map lw_deadline (pv_watches s) = [20]"
    by (rule run_ok_obtain [OF ex_pubsub_run])
  from pubsub_leases_watched [OF s(1)] s show ?thesis by (intro exI [of _ s]) blast
qed

section \<open>Messages arrive as they were published\<close>

lemma check_attributes_Inr:
  "check_attributes attrs = Inr u \<longleftrightarrow>
     list_all (\<lambda>(name, v). name \<noteq> [] \<and> length name \<le> max_attribute_name \<and> \<not> starts_with ''goog'' name
       \<and> length v \<le> max_attribute_value) attrs"
  by (induction attrs rule: check_attributes.induct) (auto simp: and_then_def ensure_valid_record_def)

text \<open>
  A Pub/Sub output is prepared exactly when its value encodes and it keeps the limits of Pub/Sub on
  attributes, ordering keys and empty messages; it is then received with the same value, attributes
  and ordering key, an empty ordering key being none.
\<close>

theorem pubsub_message_roundtrip:
  assumes "\<And>v b. encode v = Inr b \<Longrightarrow> decode b = (Inr v :: 'e + 'v)"
    "map_of attrs = su_attributes p" "distinct (map fst attrs)" "encode (su_value p) = Inr data"
  shows "((\<exists>m. pubsub_prepare encode attrs p = Inr m) \<longleftrightarrow>
        length attrs \<le> 100
        \<and> list_all (\<lambda>(name, v). name \<noteq> [] \<and> length name \<le> 256 \<and> \<not> starts_with ''goog'' name \<and> length v \<le> 1024) attrs
        \<and> (case su_ordering_key p of None \<Rightarrow> True | Some k \<Rightarrow> length k \<le> 1024) \<and> (data \<noteq> [] \<or> attrs \<noteq> []))
    \<and> (pubsub_prepare encode attrs p = Inr (gr_message r) \<longrightarrow>
        (\<exists>metadata. pubsub_record_of subscription decode r =
           Inr \<lparr>sr_value = su_value p, sr_attributes = su_attributes p,
                sr_ordering_key = (if su_ordering_key p = Some [] then None else su_ordering_key p),
                sr_metadata = metadata\<rparr> \<and> sm_message_id metadata = gr_message_id r))"
proof -
  have ext: "extend_table Map.empty attrs = su_attributes p"
    unfolding extend_table_lookup assms(2) [symmetric] using assms(3) by (simp add: map_of_inject_set flip: rev_map)
  have prep: "pubsub_prepare encode attrs p = Inr m \<longleftrightarrow>
      length attrs \<le> 100
      \<and> list_all (\<lambda>(name, v). name \<noteq> [] \<and> length name \<le> 256 \<and> \<not> starts_with ''goog'' name \<and> length v \<le> 1024) attrs
      \<and> (case su_ordering_key p of None \<Rightarrow> True | Some k \<Rightarrow> length k \<le> 1024) \<and> (data \<noteq> [] \<or> attrs \<noteq> [])
      \<and> m = \<lparr>gm_data = data, gm_attributes = attrs, gm_ordering_key = (case su_ordering_key p of None \<Rightarrow> [] | Some k \<Rightarrow> k)\<rparr>"
    for m
    using check_attributes_Inr [of attrs "()"]
    by (cases "check_attributes attrs"; cases "su_ordering_key p")
      (auto simp: pubsub_prepare_def assms(4) Let_def and_then_def ensure_valid_record_def max_attributes_def
        max_ordering_key_def max_attribute_name_def max_attribute_value_def split: if_splits)
  have "gm_data (gr_message r) = data \<and> gm_attributes (gr_message r) = attrs
      \<and> gm_ordering_key (gr_message r) = (case su_ordering_key p of None \<Rightarrow> [] | Some k \<Rightarrow> k)"
    if "pubsub_prepare encode attrs p = Inr (gr_message r)"
    using that unfolding prep by simp
  then have "\<exists>metadata. pubsub_record_of subscription decode r =
           Inr \<lparr>sr_value = su_value p, sr_attributes = su_attributes p,
                sr_ordering_key = (if su_ordering_key p = Some [] then None else su_ordering_key p),
                sr_metadata = metadata\<rparr> \<and> sm_message_id metadata = gr_message_id r"
    if "pubsub_prepare encode attrs p = Inr (gr_message r)"
    using that assms(1) [OF assms(4)] by (cases "su_ordering_key p") (auto simp: pubsub_record_of_def ext)
  then show ?thesis unfolding prep by blast
qed

theorem pubsub_message_roundtrip_witness:
  "\<exists>metadata. pubsub_record_of ''projects/p/subscriptions/s'' Inr
      \<lparr>gr_message = \<lparr>gm_data = [1], gm_attributes = [(''kind'', ''order'')], gm_ordering_key = ''k''\<rparr>,
       gr_message_id = ''7'', gr_publish_time = None, gr_delivery_attempt = None\<rparr> =
    (Inr \<lparr>sr_value = [1], sr_attributes = [''kind'' \<mapsto> ''order''], sr_ordering_key = Some ''k'', sr_metadata = metadata\<rparr>
       :: unit + bytes pubsub_record)"
proof -
  let ?p = "\<lparr>su_value = [1 :: 8 word], su_attributes = [''kind'' \<mapsto> ''order''], su_ordering_key = Some ''k''\<rparr>"
  let ?r = "\<lparr>gr_message = \<lparr>gm_data = [1], gm_attributes = [(''kind'', ''order'')], gm_ordering_key = ''k''\<rparr>,
       gr_message_id = ''7'', gr_publish_time = None, gr_delivery_attempt = None\<rparr>"
  have "pubsub_prepare Inr [(''kind'', ''order'')] ?p = Inr (gr_message ?r)"
    by (simp add: pubsub_prepare_def and_then_def ensure_valid_record_def max_attributes_def max_ordering_key_def
        max_attribute_name_def max_attribute_value_def starts_with_def)
  with pubsub_message_roundtrip [of Inr "Inr :: bytes \<Rightarrow> unit + bytes" "[(''kind'', ''order'')]" ?p "[1]" ?r
      "''projects/p/subscriptions/s''"]
  show ?thesis by auto
qed

end
