(* ===== verification/Blocking.thy ===== *)
theory Blocking
  imports Processing Config "HOL-Library.Sublist"
begin

text \<open>
  Synchronous handlers on a bounded pool of threads (\<^verbatim>\<open>src/blocking.rs\<close>): calls wait for room in the queue
  of jobs, workers take jobs in order, and a call resolves to what its handler returned. Calls are
  numbered. What a handler does, and whether threads start, are inputs. The handle of the pool lives as
  long as a call, so the queue is never closed under one.
\<close>

record blocking_pool =
  bp_workers :: nat
  bp_queue_capacity :: nat

definition blocking_pool_new :: "nat \<Rightarrow> nat \<Rightarrow> error + blocking_pool" where
  "blocking_pool_new workers queue_capacity =
     (case and_then (ensure_config (0 < workers) ''blocking pool workers must be greater than zero'')
             (ensure_config (0 < queue_capacity) ''blocking pool queue capacity must be greater than zero'') of
        Inl e \<Rightarrow> Inl e
      | Inr _ \<Rightarrow> Inr \<lparr>bp_workers = workers, bp_queue_capacity = queue_capacity\<rparr>)"

text \<open>How a synchronous handler ends; a panic has a message when its payload is text.\<close>

datatype 'o job_end = Returned "'o hresult" | Panicked "string option"

definition panicked :: "string option \<Rightarrow> handler_error" where
  "panicked payload =
     HFatal (Crate (error_msg (''blocking handler panicked: ''
       @ (case payload of None \<Rightarrow> ''non-string panic payload'' | Some m \<Rightarrow> m))))"

fun job_result :: "'o job_end \<Rightarrow> 'o hresult" where
  "job_result (Returned r) = r"
| "job_result (Panicked payload) = Inl (panicked payload)"

text \<open>The waiter of a call: it waits for room, has its job queued or running, got a result, or was dropped.\<close>

datatype 'o call = CallWaiting | CallQueued | CallRunning | CallEnded "'o hresult" | CallDropped

text \<open>
  \<open>bk_workers\<close> has what each thread runs. The rest is history: the jobs that were queued and taken, in
  order, the calls whose handler ran, how those handlers ended, and the calls dropped before their job
  was taken.
\<close>

record 'o blocking_sys =
  bk_started :: bool
  bk_queue :: "nat list"
  bk_calls :: "'o call list"
  bk_workers :: "nat option list"
  bk_queued :: "nat list"
  bk_taken :: "nat list"
  bk_ran :: "nat list"
  bk_ends :: "(nat \<times> 'o job_end) list"
  bk_dropped :: "nat set"

definition blocking_new :: "'o blocking_sys" where
  "blocking_new =
     \<lparr>bk_started = False, bk_queue = [], bk_calls = [], bk_workers = [], bk_queued = [], bk_taken = [], bk_ran = [],
      bk_ends = [], bk_dropped = {}\<rparr>"

text \<open>\<^verbatim>\<open>submit\<close> with \<^verbatim>\<open>queue\<close>: the first call starts the threads, and one that cannot start them fails.\<close>

definition pool_submit :: "blocking_pool \<Rightarrow> unit outcome \<Rightarrow> 'o blocking_sys \<Rightarrow> 'o blocking_sys" where
  "pool_submit p start s =
     (if bk_started s then s\<lparr>bk_calls := bk_calls s @ [CallWaiting]\<rparr>
      else case result_context ''failed to start a blocking worker'' start of
        Inl e \<Rightarrow> s\<lparr>bk_calls := bk_calls s @ [CallEnded (Inl (HFatal e))]\<rparr>
      | Inr _ \<Rightarrow>
          s\<lparr>bk_started := True, bk_workers := replicate (bp_workers p) None, bk_calls := bk_calls s @ [CallWaiting]\<rparr>)"

definition pool_enqueue :: "nat \<Rightarrow> 'o blocking_sys \<Rightarrow> 'o blocking_sys" where
  "pool_enqueue i s =
     s\<lparr>bk_calls := (bk_calls s)[i := CallQueued], bk_queue := bk_queue s @ [i], bk_queued := bk_queued s @ [i]\<rparr>"

text \<open>\<^verbatim>\<open>work\<close> takes a job; a job whose waiter is gone returns at once.\<close>

definition worker_take :: "nat \<Rightarrow> 'o blocking_sys \<Rightarrow> 'o blocking_sys option" where
  "worker_take w s =
     (case bk_queue s of
        [] \<Rightarrow> None
      | i # rest \<Rightarrow>
          let s = s\<lparr>bk_queue := rest, bk_taken := bk_taken s @ [i]\<rparr> in
          Some (if bk_calls s ! i = CallDropped then s
                else s\<lparr>bk_workers := (bk_workers s)[w := Some i], bk_calls := (bk_calls s)[i := CallRunning],
                       bk_ran := bk_ran s @ [i]\<rparr>))"

text \<open>The end of a job; a result whose waiter is gone is dropped.\<close>

definition worker_finish :: "nat \<Rightarrow> nat \<Rightarrow> 'o job_end \<Rightarrow> 'o blocking_sys \<Rightarrow> 'o blocking_sys" where
  "worker_finish w i e s =
     (let s = s\<lparr>bk_workers := (bk_workers s)[w := None], bk_ends := bk_ends s @ [(i, e)]\<rparr> in
      if bk_calls s ! i = CallDropped then s
      else s\<lparr>bk_calls := (bk_calls s)[i := CallEnded (job_result e)]\<rparr>)"

text \<open>The future of a call is dropped.\<close>

definition call_drop :: "nat \<Rightarrow> 'o blocking_sys \<Rightarrow> 'o blocking_sys" where
  "call_drop i s =
     s\<lparr>bk_calls := (bk_calls s)[i := CallDropped],
       bk_dropped := (if i \<in> set (bk_ran s) then bk_dropped s else insert i (bk_dropped s))\<rparr>"

datatype 'o blocking_event =
    BkSubmit "unit outcome"
  | BkEnqueue nat
  | BkTake nat
  | BkFinish nat "'o job_end"
  | BkDrop nat

fun blocking_step :: "blocking_pool \<Rightarrow> 'o blocking_sys \<Rightarrow> 'o blocking_event \<Rightarrow> 'o blocking_sys option" where
  "blocking_step p s (BkSubmit start) = Some (pool_submit p start s)"
| "blocking_step p s (BkEnqueue i) =
     (if i < length (bk_calls s) \<and> bk_calls s ! i = CallWaiting \<and> length (bk_queue s) < bp_queue_capacity p
      then Some (pool_enqueue i s) else None)"
| "blocking_step p s (BkTake w) =
     (if w < length (bk_workers s) \<and> bk_workers s ! w = None then worker_take w s else None)"
| "blocking_step p s (BkFinish w e) =
     (if w < length (bk_workers s)
      then case bk_workers s ! w of None \<Rightarrow> None | Some i \<Rightarrow> Some (worker_finish w i e s)
      else None)"
| "blocking_step p s (BkDrop i) =
     (if i < length (bk_calls s) \<and> (bk_calls s ! i = CallWaiting \<or> bk_calls s ! i = CallQueued \<or> bk_calls s ! i = CallRunning)
      then Some (call_drop i s) else None)"

abbreviation blocking_reach :: "blocking_pool \<Rightarrow> 'o blocking_sys \<Rightarrow> bool" where
  "blocking_reach p \<equiv> reach (\<lambda>s. s = blocking_new) (blocking_step p)"

section \<open>The invariant\<close>

definition queue_inv :: "blocking_pool \<Rightarrow> 'o blocking_sys \<Rightarrow> bool" where
  "queue_inv p s \<longleftrightarrow>
     length (bk_queue s) \<le> bp_queue_capacity p
     \<and> length (bk_workers s) = (if bk_started s then bp_workers p else 0)
     \<and> bk_queued s = bk_taken s @ bk_queue s \<and> distinct (bk_queued s) \<and> set (bk_queued s) \<subseteq> {..<length (bk_calls s)}
     \<and> subseq (bk_ran s) (bk_taken s)"

text \<open>What the waiter of a call knows agrees with its job.\<close>

fun call_ok :: "'o blocking_sys \<Rightarrow> nat \<Rightarrow> 'o call \<Rightarrow> bool" where
  "call_ok s i CallWaiting \<longleftrightarrow> bk_started s \<and> i \<notin> set (bk_queued s)"
| "call_ok s i CallQueued \<longleftrightarrow> bk_started s \<and> i \<in> set (bk_queue s)"
| "call_ok s i CallRunning \<longleftrightarrow> Some i \<in> set (bk_workers s)"
| "call_ok s i (CallEnded r) \<longleftrightarrow>
     (if i \<in> set (bk_queued s) then \<exists>e. (i, e) \<in> set (bk_ends s) \<and> r = job_result e else \<exists>e. r = Inl (HFatal e))"
| "call_ok s i CallDropped \<longleftrightarrow> True"

definition calls_inv :: "'o blocking_sys \<Rightarrow> bool" where
  "calls_inv s \<longleftrightarrow>
     (\<forall>i < length (bk_calls s). call_ok s i (bk_calls s ! i))
     \<and> (\<forall>i \<in> set (bk_queue s). bk_calls s ! i = CallQueued \<or> bk_calls s ! i = CallDropped)
     \<and> (\<forall>i. Some i \<in> set (bk_workers s) \<longrightarrow>
          i \<in> set (bk_ran s) \<and> (bk_calls s ! i = CallRunning \<or> bk_calls s ! i = CallDropped))
     \<and> bk_dropped s \<inter> set (bk_ran s) = {}
     \<and> (\<forall>i \<in> bk_dropped s. i < length (bk_calls s) \<and> bk_calls s ! i = CallDropped)
     \<and> fst ` set (bk_ends s) \<subseteq> set (bk_ran s)
     \<and> (\<forall>i. Some i \<in> set (bk_workers s) \<longrightarrow> i \<notin> fst ` set (bk_ends s)) \<and> distinct (map fst (bk_ends s))"

definition workers_inv :: "'o blocking_sys \<Rightarrow> bool" where
  "workers_inv s \<longleftrightarrow>
     (\<forall>v w i. v < length (bk_workers s) \<longrightarrow> w < length (bk_workers s) \<longrightarrow>
        bk_workers s ! v = Some i \<longrightarrow> bk_workers s ! w = Some i \<longrightarrow> v = w)"

definition blocking_inv :: "blocking_pool \<Rightarrow> 'o blocking_sys \<Rightarrow> bool" where
  "blocking_inv p s \<longleftrightarrow> queue_inv p s \<and> calls_inv s \<and> workers_inv s"

lemma calls_okD: "calls_inv s \<Longrightarrow> i < length (bk_calls s) \<Longrightarrow> call_ok s i (bk_calls s ! i)"
  by (simp add: calls_inv_def)

lemma subseq_set: "subseq xs ys \<Longrightarrow> set xs \<subseteq> set ys"
  by (auto simp: subseq_conv_nths dest: in_set_nthsD)

lemma subseq_distinct: "subseq xs ys \<Longrightarrow> distinct ys \<Longrightarrow> distinct xs"
  by (auto simp: subseq_conv_nths distinct_nthsI)

lemma ran_queued:
  assumes "queue_inv p s" "i \<in> set (bk_ran s)"
  shows "i \<in> set (bk_taken s) \<and> i \<notin> set (bk_queue s) \<and> i < length (bk_calls s)"
proof -
  have "i \<in> set (bk_taken s)" using assms subseq_set by (auto simp: queue_inv_def)
  with assms(1) show ?thesis by (auto simp: queue_inv_def)
qed

lemma queue_not_ran: "queue_inv p s \<Longrightarrow> i \<in> set (bk_queue s) \<Longrightarrow> i \<notin> set (bk_ran s) \<and> i < length (bk_calls s)"
  using ran_queued [of p s i] by (auto simp: queue_inv_def)

lemma pool_inv_submit:
  assumes "blocking_inv p s"
  shows "blocking_inv p (pool_submit p start s)"
proof -
  have q: "i < length (bk_calls s)" if "i \<in> set (bk_queued s)" for i
    using assms that by (auto simp: blocking_inv_def queue_inv_def)
  have r: "i < length (bk_calls s)" if "i \<in> set (bk_ran s)" for i
    using assms that ran_queued by (auto simp: blocking_inv_def)
  have idle: "bk_workers s = []" if "\<not> bk_started s" using assms that by (auto simp: blocking_inv_def queue_inv_def)
  have "queue_inv p (pool_submit p start s)"
    using assms by (auto simp: blocking_inv_def queue_inv_def pool_submit_def split: sum.splits)
  moreover have "calls_inv (pool_submit p start s)"
  proof -
    have "call_ok (pool_submit p start s) i c" if "call_ok s i c" for i c
      using that idle by (cases "bk_started s"; cases c) (auto simp: pool_submit_def split: sum.splits)
    moreover have "i < length (bk_calls s)" if "i \<in> set (bk_queue s)" for i
      using assms q that by (auto simp: blocking_inv_def queue_inv_def)
    moreover have "i < length (bk_calls s)" if "Some i \<in> set (bk_workers s)" for i
      using assms that r by (auto simp: blocking_inv_def calls_inv_def)
    moreover have "length (bk_calls s) \<notin> set (bk_queued s)" using q by blast
    then have "\<exists>c. bk_calls (pool_submit p start s) = bk_calls s @ [c]
        \<and> call_ok (pool_submit p start s) (length (bk_calls s)) c"
      by (cases "bk_started s"; cases start) (auto simp: pool_submit_def)
    then obtain c where "bk_calls (pool_submit p start s) = bk_calls s @ [c]"
      "call_ok (pool_submit p start s) (length (bk_calls s)) c" by blast
    moreover have "bk_queue (pool_submit p start s) = bk_queue s" "bk_ran (pool_submit p start s) = bk_ran s"
      "bk_dropped (pool_submit p start s) = bk_dropped s" "bk_ends (pool_submit p start s) = bk_ends s"
      "Some i \<in> set (bk_workers (pool_submit p start s)) \<longleftrightarrow> Some i \<in> set (bk_workers s)" for i
      using idle by (auto simp: pool_submit_def split: sum.splits)
    ultimately show ?thesis
      using assms unfolding blocking_inv_def calls_inv_def by (auto simp: nth_append less_Suc_eq)
  qed
  moreover have "workers_inv (pool_submit p start s)"
    using assms idle by (auto simp: blocking_inv_def workers_inv_def pool_submit_def split: sum.splits)
  ultimately show ?thesis by (simp add: blocking_inv_def)
qed

lemma pool_inv_enqueue:
  assumes inv: "blocking_inv p s" and i: "i < length (bk_calls s)" "bk_calls s ! i = CallWaiting"
    "length (bk_queue s) < bp_queue_capacity p"
  shows "blocking_inv p (pool_enqueue i s)"
proof -
  have fresh: "bk_started s" "i \<notin> set (bk_queued s)"
    using inv i by (auto simp: blocking_inv_def calls_inv_def dest: spec [of _ i])
  have "queue_inv p (pool_enqueue i s)"
    using inv i fresh by (auto simp: blocking_inv_def queue_inv_def pool_enqueue_def)
  moreover have "calls_inv (pool_enqueue i s)"
  proof -
    have "call_ok (pool_enqueue i s) j c" if "call_ok s j c" "j \<noteq> i" for j c
      using that by (cases c) (auto simp: pool_enqueue_def)
    moreover have "\<not> Some i \<in> set (bk_workers s)" "i \<notin> bk_dropped s"
      using inv i by (auto simp: blocking_inv_def calls_inv_def)
    ultimately show ?thesis
      using inv i fresh by (auto simp: blocking_inv_def calls_inv_def pool_enqueue_def nth_list_update)
  qed
  moreover have "workers_inv (pool_enqueue i s)"
    using inv by (simp add: blocking_inv_def workers_inv_def pool_enqueue_def)
  ultimately show ?thesis by (simp add: blocking_inv_def)
qed

lemma pool_inv_drop:
  assumes inv: "blocking_inv p s" and i: "i < length (bk_calls s)"
  shows "blocking_inv p (call_drop i s)"
proof -
  have "call_ok (call_drop i s) j c" if "call_ok s j c" for j c
    using that by (cases c) (auto simp: call_drop_def)
  then have "calls_inv (call_drop i s)"
    using inv i by (auto simp: blocking_inv_def calls_inv_def call_drop_def nth_list_update)
  moreover have "queue_inv p (call_drop i s)" using inv by (simp add: blocking_inv_def queue_inv_def call_drop_def) auto
  moreover have "workers_inv (call_drop i s)" using inv by (simp add: blocking_inv_def workers_inv_def call_drop_def)
  ultimately show ?thesis by (simp add: blocking_inv_def)
qed

lemma pool_inv_take:
  assumes inv: "blocking_inv p s" and w: "w < length (bk_workers s)" "bk_workers s ! w = None"
    and take: "worker_take w s = Some s'"
  shows "blocking_inv p s'"
proof -
  obtain i rest where q: "bk_queue s = i # rest" using take by (auto simp: worker_take_def split: list.splits)
  have i: "i < length (bk_calls s)" "i \<notin> set (bk_ran s)" "i \<notin> set rest" "i \<notin> set (bk_taken s)" "i \<notin> fst ` set (bk_ends s)"
    using inv q queue_not_ran [of p s i] by (auto simp: blocking_inv_def queue_inv_def calls_inv_def)
  show ?thesis
  proof (cases "bk_calls s ! i = CallDropped")
    case True
    then have s': "s' = s\<lparr>bk_queue := rest, bk_taken := bk_taken s @ [i]\<rparr>"
      using take q by (simp add: worker_take_def)
    have "call_ok s' j c" if "call_ok s j c" "j \<noteq> i" for j c
      using that q by (cases c) (auto simp: s')
    moreover have "call_ok s' i (bk_calls s ! i)" by (simp add: True)
    moreover have "calls_inv s" using inv by (simp add: blocking_inv_def)
    ultimately have "\<forall>j < length (bk_calls s). call_ok s' j (bk_calls s ! j)"
      using calls_okD by metis
    then have "calls_inv s'" using inv q by (simp add: blocking_inv_def calls_inv_def s')
    with inv q show ?thesis
      by (auto simp: blocking_inv_def queue_inv_def workers_inv_def s' intro: subseq_rev_drop_many)
  next
    case False
    then have s': "s' = s\<lparr>bk_queue := rest, bk_taken := bk_taken s @ [i], bk_workers := (bk_workers s)[w := Some i],
        bk_calls := (bk_calls s)[i := CallRunning], bk_ran := bk_ran s @ [i]\<rparr>"
      using take q by (simp add: worker_take_def)
    have other: "call_ok s' j c" if "call_ok s j c" "j \<noteq> i" for j c
    proof (cases c)
      case CallRunning
      with that have "Some j \<in> set (bk_workers s)" by simp
      then obtain v where v: "v < length (bk_workers s)" "bk_workers s ! v = Some j" by (auto simp: in_set_conv_nth)
      with w have "v \<noteq> w" by auto
      with v have "(bk_workers s)[w := Some i] ! v = Some j" by simp
      with v have "Some j \<in> set ((bk_workers s)[w := Some i])" by (metis length_list_update nth_mem)
      with CallRunning show ?thesis by (simp add: s')
    qed (use that q in \<open>auto simp: s'\<close>)
    have "i \<notin> bk_dropped s" using inv False by (auto simp: blocking_inv_def calls_inv_def)
    have c: "calls_inv s" using inv by (simp add: blocking_inv_def)
    have running: "Some j \<in> set ((bk_workers s)[w := Some i]) \<Longrightarrow> j = i \<or> Some j \<in> set (bk_workers s)" for j
      using set_update_subset_insert [of "bk_workers s" w "Some i"] by auto
    have "calls_inv s'"
      unfolding calls_inv_def
    proof (intro conjI allI ballI impI)
      show "call_ok s' j (bk_calls s' ! j)" if "j < length (bk_calls s')" for j
        using that c other [of j "bk_calls s ! j"] i(1) w set_update_memI [of w "bk_workers s" "Some i"]
        by (cases "j = i") (auto simp: calls_inv_def s')
      show "bk_calls s' ! j = CallQueued \<or> bk_calls s' ! j = CallDropped" if "j \<in> set (bk_queue s')" for j
        using that c i(3) q by (cases "j = i") (auto simp: calls_inv_def s')
      show "j \<in> set (bk_ran s')" "bk_calls s' ! j = CallRunning \<or> bk_calls s' ! j = CallDropped"
        if "Some j \<in> set (bk_workers s')" for j
        using that c i(1) running [of j] by (cases "j = i"; force simp: calls_inv_def s')+
      show "bk_dropped s' \<inter> set (bk_ran s') = {}" using c \<open>i \<notin> bk_dropped s\<close> by (auto simp: calls_inv_def s')
      show "j < length (bk_calls s')" "bk_calls s' ! j = CallDropped" if "j \<in> bk_dropped s'" for j
        using that c \<open>i \<notin> bk_dropped s\<close> by (cases "j = i"; auto simp: calls_inv_def s')+
      show "fst ` set (bk_ends s') \<subseteq> set (bk_ran s')" "distinct (map fst (bk_ends s'))"
        using c by (auto simp: calls_inv_def s')
      show "j \<notin> fst ` set (bk_ends s')" if "Some j \<in> set (bk_workers s')" for j
        using that c i(5) running [of j] by (cases "j = i") (auto simp: calls_inv_def s')
    qed
    moreover have "workers_inv s'"
    proof -
      have "\<not> Some i \<in> set (bk_workers s)" using inv i(2) by (auto simp: blocking_inv_def calls_inv_def)
      then have "\<forall>v < length (bk_workers s). bk_workers s ! v \<noteq> Some i" by (metis nth_mem)
      with inv w(1) show ?thesis by (auto simp: blocking_inv_def workers_inv_def s' nth_list_update split: if_splits)
    qed
    moreover have "queue_inv p s'"
      using inv q by (auto simp: blocking_inv_def queue_inv_def s')
    ultimately show ?thesis by (simp add: blocking_inv_def)
  qed
qed

lemma pool_inv_finish:
  assumes inv: "blocking_inv p s" and w: "w < length (bk_workers s)" "bk_workers s ! w = Some i"
  shows "blocking_inv p (worker_finish w i e s)" (is "blocking_inv p ?s")
proof -
  have i: "Some i \<in> set (bk_workers s)" using w by (metis nth_mem)
  then have r: "i \<in> set (bk_ran s)" "bk_calls s ! i = CallRunning \<or> bk_calls s ! i = CallDropped"
    using inv by (auto simp: blocking_inv_def calls_inv_def)
  have "i < length (bk_calls s)" using inv r(1) ran_queued by (auto simp: blocking_inv_def)
  moreover have nq: "i \<notin> set (bk_queue s)" using inv r(1) queue_not_ran by (auto simp: blocking_inv_def)
  have gone: "Some j \<in> set ((bk_workers s)[w := None]) \<longleftrightarrow> Some j \<in> set (bk_workers s) \<and> j \<noteq> i" for j
  proof
    assume "Some j \<in> set ((bk_workers s)[w := None])"
    then obtain v where "v < length (bk_workers s)" "(bk_workers s)[w := None] ! v = Some j" by (auto simp: in_set_conv_nth)
    with w inv show "Some j \<in> set (bk_workers s) \<and> j \<noteq> i"
      by (auto simp: nth_list_update blocking_inv_def workers_inv_def in_set_conv_nth split: if_splits)
  next
    assume j: "Some j \<in> set (bk_workers s) \<and> j \<noteq> i"
    then obtain v where v: "v < length (bk_workers s)" "bk_workers s ! v = Some j" by (auto simp: in_set_conv_nth)
    with w j have "v \<noteq> w" by auto
    with v show "Some j \<in> set ((bk_workers s)[w := None])" by (metis length_list_update nth_list_update_neq nth_mem)
  qed
  have other: "call_ok ?s j c" if "call_ok s j c" "j \<noteq> i" for j c
    using that gone by (cases c) (auto simp: worker_finish_def Let_def)
  have queued: "i \<in> set (bk_queued s)" using inv r(1) ran_queued by (auto simp: blocking_inv_def queue_inv_def)
  have c: "calls_inv s" using inv by (simp add: blocking_inv_def)
  have "calls_inv ?s"
    unfolding calls_inv_def
  proof (intro conjI allI ballI impI)
    show "call_ok ?s j (bk_calls ?s ! j)" if "j < length (bk_calls ?s)" for j
      using that c queued other [of j "bk_calls s ! j"]
      by (cases "j = i") (auto simp: calls_inv_def worker_finish_def Let_def split: if_splits)
    show "bk_calls ?s ! j = CallQueued \<or> bk_calls ?s ! j = CallDropped" if "j \<in> set (bk_queue ?s)" for j
      using that c nq by (cases "j = i") (auto simp: calls_inv_def worker_finish_def Let_def split: if_splits)
    show "j \<in> set (bk_ran ?s)" "bk_calls ?s ! j = CallRunning \<or> bk_calls ?s ! j = CallDropped"
      if "Some j \<in> set (bk_workers ?s)" for j
      using that c gone by (auto simp: calls_inv_def worker_finish_def Let_def split: if_splits)
    show "bk_dropped ?s \<inter> set (bk_ran ?s) = {}" "fst ` set (bk_ends ?s) \<subseteq> set (bk_ran ?s)"
      "distinct (map fst (bk_ends ?s))"
      using c r(1) i by (auto simp: calls_inv_def worker_finish_def Let_def)
    show "j \<notin> fst ` set (bk_ends ?s)" if "Some j \<in> set (bk_workers ?s)" for j
      using that c gone [of j] by (auto simp: calls_inv_def worker_finish_def Let_def split: if_splits)
    show "j < length (bk_calls ?s)" "bk_calls ?s ! j = CallDropped" if "j \<in> bk_dropped ?s" for j
      using that c r(1) by (cases "j = i"; auto simp: calls_inv_def worker_finish_def Let_def split: if_splits)+
  qed
  moreover have "workers_inv ?s"
    using inv w(1) by (auto simp: blocking_inv_def workers_inv_def worker_finish_def Let_def nth_list_update split: if_splits)
  moreover have "queue_inv p ?s"
    using inv by (auto simp: blocking_inv_def queue_inv_def worker_finish_def Let_def)
  ultimately show ?thesis by (simp add: blocking_inv_def)
qed

interpretation blocking_calls: invariant_system "\<lambda>s. s = blocking_new" "blocking_step p" "blocking_inv p"
proof
  show "blocking_inv p s" if "s = blocking_new" for s :: "'o blocking_sys"
    using that by (simp add: blocking_new_def blocking_inv_def queue_inv_def calls_inv_def workers_inv_def)
  show "blocking_inv p s'" if "blocking_inv p s" "blocking_step p s e = Some s'" for s s' :: "'o blocking_sys" and e
    using that by (cases e) (auto intro: pool_inv_submit pool_inv_enqueue pool_inv_drop pool_inv_take pool_inv_finish split: if_splits option.splits)
qed

lemma ended_result:
  "(i, e) \<in> E \<Longrightarrow> (i, Returned (job_result e)) \<in> E
     \<or> (\<exists>payload. (i, Panicked payload) \<in> E
          \<and> job_result e = Inl (HFatal (Crate (error_msg (''blocking handler panicked: ''
              @ (case payload of None \<Rightarrow> ''non-string panic payload'' | Some m \<Rightarrow> m))))))"
  by (cases e) (auto simp: panicked_def)

text \<open>
  C35. A pool of blocking workers runs at most its number of handlers at a time and queues at most its
  capacity; it runs the handler of a call at most once, in the order the jobs were queued, and never
  for a call that was dropped before a worker took its job. A handler that ran ends once, and a call
  whose job was queued resolves to what its own handler returned, or, when that panicked, to a fatal
  error with the message of the panic; a call without a job, because the threads could not be started,
  resolves to a fatal error.
\<close>

theorem blocking_pool_calls:
  assumes "blocking_reach p s"
  shows "length (filter (\<lambda>w. w \<noteq> None) (bk_workers s)) \<le> bp_workers p \<and> length (bk_queue s) \<le> bp_queue_capacity p
    \<and> distinct (bk_ran s) \<and> subseq (bk_ran s) (bk_queued s) \<and> bk_dropped s \<inter> set (bk_ran s) = {}
    \<and> distinct (map fst (bk_ends s)) \<and> fst ` set (bk_ends s) \<subseteq> set (bk_ran s)
    \<and> (\<forall>i < length (bk_calls s). \<forall>r. bk_calls s ! i = CallEnded r \<longrightarrow>
         (if i \<in> set (bk_queued s)
          then (i, Returned r) \<in> set (bk_ends s)
            \<or> (\<exists>payload. (i, Panicked payload) \<in> set (bk_ends s)
                 \<and> r = Inl (HFatal (Crate (error_msg (''blocking handler panicked: ''
                     @ (case payload of None \<Rightarrow> ''non-string panic payload'' | Some m \<Rightarrow> m))))))
          else \<exists>e. r = Inl (HFatal e)))"
proof -
  have inv: "blocking_inv p s" by (rule blocking_calls.reach_inv [OF assms])
  then have q: "queue_inv p s" and c: "calls_inv s" by (simp_all add: blocking_inv_def)
  have "length (filter (\<lambda>w. w \<noteq> None) (bk_workers s)) \<le> length (bk_workers s)" by (rule length_filter_le)
  also have "\<dots> \<le> bp_workers p" using q by (simp add: queue_inv_def)
  finally have "length (filter (\<lambda>w. w \<noteq> None) (bk_workers s)) \<le> bp_workers p" .
  moreover have sub: "subseq (bk_ran s) (bk_queued s)" using q by (auto simp: queue_inv_def intro: subseq_rev_drop_many)
  moreover have "distinct (bk_ran s)" using q sub by (auto simp: queue_inv_def dest: subseq_distinct)
  moreover have "\<forall>i < length (bk_calls s). \<forall>r. bk_calls s ! i = CallEnded r \<longrightarrow>
      (if i \<in> set (bk_queued s)
       then (i, Returned r) \<in> set (bk_ends s)
         \<or> (\<exists>payload. (i, Panicked payload) \<in> set (bk_ends s)
              \<and> r = Inl (HFatal (Crate (error_msg (''blocking handler panicked: ''
                  @ (case payload of None \<Rightarrow> ''non-string panic payload'' | Some m \<Rightarrow> m))))))
       else \<exists>e. r = Inl (HFatal e))"
  proof (intro allI impI)
    fix i r
    assume i: "i < length (bk_calls s)" "bk_calls s ! i = CallEnded r"
    then have ok: "call_ok s i (CallEnded r)" using calls_okD [OF c, of i] by simp
    show "if i \<in> set (bk_queued s)
       then (i, Returned r) \<in> set (bk_ends s)
         \<or> (\<exists>payload. (i, Panicked payload) \<in> set (bk_ends s)
              \<and> r = Inl (HFatal (Crate (error_msg (''blocking handler panicked: ''
                  @ (case payload of None \<Rightarrow> ''non-string panic payload'' | Some m \<Rightarrow> m))))))
       else \<exists>e. r = Inl (HFatal e)"
    proof (cases "i \<in> set (bk_queued s)")
      case True
      then obtain e where e: "(i, e) \<in> set (bk_ends s)" "r = job_result e" using ok by auto
      from ended_result [OF e(1), folded e(2)] True show ?thesis by (simp only: if_True)
    next
      case False
      with ok show ?thesis by (simp only: call_ok.simps if_False)
    qed
  qed
  ultimately show ?thesis using q c unfolding queue_inv_def calls_inv_def by blast
qed

text \<open>
  No call is stuck in a pool: while the waiter of a call has no result, a worker can take or finish a
  job, or the call itself can be queued.
\<close>

theorem blocking_pool_progress:
  assumes "blocking_pool_new workers queue_capacity = Inr p" "blocking_reach p s" "i < length (bk_calls s)"
    "bk_calls s ! i = CallWaiting \<or> bk_calls s ! i = CallQueued \<or> bk_calls s ! i = CallRunning"
  shows "(\<exists>w. blocking_step p s (BkTake w) \<noteq> None) \<or> (\<exists>w. \<forall>e. blocking_step p s (BkFinish w e) \<noteq> None)
    \<or> blocking_step p s (BkEnqueue i) \<noteq> None"
proof -
  have pos: "0 < bp_workers p" "0 < bp_queue_capacity p"
    using assms(1) by (auto simp: blocking_pool_new_def and_then_def split: sum.splits)
  have inv: "blocking_inv p s" by (rule blocking_calls.reach_inv [OF assms(2)])
  then have ok: "call_ok s i (bk_calls s ! i)" using assms(3) by (auto simp: blocking_inv_def calls_inv_def)
  have finish: "\<exists>w. \<forall>e. blocking_step p s (BkFinish w e) \<noteq> None" if "Some j \<in> set (bk_workers s)" for j
  proof -
    from that obtain w where w: "w < length (bk_workers s)" "bk_workers s ! w = Some j" by (auto simp: in_set_conv_nth)
    then have "\<forall>e. blocking_step p s (BkFinish w e) \<noteq> None" by simp
    then show ?thesis by blast
  qed
  have busy: "(\<exists>w. blocking_step p s (BkTake w) \<noteq> None) \<or> (\<exists>w. \<forall>e. blocking_step p s (BkFinish w e) \<noteq> None)"
    if "bk_started s" "bk_queue s \<noteq> []"
  proof (cases "bk_workers s ! 0")
    case None
    have "blocking_step p s (BkTake 0) \<noteq> None"
      using None that pos inv by (auto simp: blocking_inv_def queue_inv_def worker_take_def Let_def split: list.splits)
    then show ?thesis by blast
  next
    case (Some j)
    have "length (bk_workers s) = bp_workers p" using inv that by (simp add: blocking_inv_def queue_inv_def)
    with pos Some have "Some j \<in> set (bk_workers s)" by (metis nth_mem)
    then show ?thesis using finish by blast
  qed
  from assms(4) show ?thesis
  proof (elim disjE)
    assume "bk_calls s ! i = CallWaiting"
    with ok busy pos assms(3) show ?thesis by (cases "bk_queue s = []") auto
  next
    assume "bk_calls s ! i = CallQueued"
    with ok busy show ?thesis by (metis call_ok.simps(2) empty_iff list.set(1))
  next
    assume "bk_calls s ! i = CallRunning"
    with ok finish show ?thesis by auto
  qed
qed

definition ex_pool :: blocking_pool where
  "ex_pool = \<lparr>bp_workers = 1, bp_queue_capacity = 2\<rparr>"

definition ex_blocking_events :: "nat blocking_event list" where
  "ex_blocking_events =
     [BkSubmit (Inr ()), BkSubmit (Inr ()), BkSubmit (Inr ()), BkEnqueue 0, BkEnqueue 1, BkTake 0, BkEnqueue 2, BkDrop 1,
      BkFinish 0 (Panicked None), BkTake 0, BkTake 0]"

lemma ex_blocking_run:
  "run_ok (\<lambda>s. bk_ran s = [0, 2] \<and> length (bk_calls s) = 3 \<and> bk_calls s ! 2 = CallRunning
      \<and> bk_calls s ! 0 = CallEnded (Inl (panicked None)))
     (run (blocking_step ex_pool) blocking_new ex_blocking_events)"
  by code_simp

theorem blocking_pool_calls_witness:
  "\<exists>s :: nat blocking_sys. blocking_reach ex_pool s \<and> bk_ran s = [0, 2] \<and> subseq (bk_ran s) (bk_queued s)
    \<and> bk_dropped s \<inter> set (bk_ran s) = {} \<and> distinct (map fst (bk_ends s))"
proof -
  obtain s :: "nat blocking_sys" where s: "blocking_reach ex_pool s" "bk_ran s = [0, 2] \<and> length (bk_calls s) = 3
      \<and> bk_calls s ! 2 = CallRunning \<and> bk_calls s ! 0 = CallEnded (Inl (panicked None))"
    by (rule run_ok_obtain [OF ex_blocking_run refl])
  from blocking_pool_calls [OF s(1)] s show ?thesis by (intro exI [of _ s]) blast
qed

theorem blocking_pool_progress_witness:
  "\<exists>s :: nat blocking_sys. blocking_reach ex_pool s \<and> bk_calls s ! 2 = CallRunning
    \<and> ((\<exists>w. blocking_step ex_pool s (BkTake w) \<noteq> None) \<or> (\<exists>w. \<forall>e. blocking_step ex_pool s (BkFinish w e) \<noteq> None)
       \<or> blocking_step ex_pool s (BkEnqueue 2) \<noteq> None)"
proof -
  obtain s :: "nat blocking_sys" where s: "blocking_reach ex_pool s" "bk_ran s = [0, 2] \<and> length (bk_calls s) = 3
      \<and> bk_calls s ! 2 = CallRunning \<and> bk_calls s ! 0 = CallEnded (Inl (panicked None))"
    by (rule run_ok_obtain [OF ex_blocking_run refl])
  have "blocking_pool_new 1 2 = Inr ex_pool" by (simp add: blocking_pool_new_def and_then_def ensure_config_def ex_pool_def)
  from blocking_pool_progress [OF this s(1), of 2] s show ?thesis by (intro exI [of _ s]) simp
qed

end
