(* ===== verification/Http.thy ===== *)
theory Http
  imports Config Texts Errors Effects
begin

text \<open>
  The HTTP adapter of \<^verbatim>\<open>src/adapters/http\<close>: settings (\<^verbatim>\<open>config.rs\<close>, \<^verbatim>\<open>client.rs\<close>), requests that become
  deliveries and when they are answered (\<^verbatim>\<open>server.rs\<close>, \<^verbatim>\<open>source.rs\<close>), and outputs that become requests
  (\<^verbatim>\<open>sink.rs\<close>). Parsing URIs, header names and header values is another crate's and a parameter, as is
  what a client or server on the other side sends. A header map is the list of its entries; its
  operations look at the values of one name in order.
\<close>

section \<open>Settings\<close>

datatype response_timing = AnswerOnAck | AnswerOnReceive

record http_source_config =
  hc_max_body_bytes :: nat
  hc_response :: response_timing

definition http_source_config_default :: http_source_config where
  "http_source_config_default = \<lparr>hc_max_body_bytes = 1024 * 1024, hc_response = AnswerOnAck\<rparr>"

definition http_source_validate :: "http_source_config \<Rightarrow> error + unit" where
  "http_source_validate c = ensure_config (0 < hc_max_body_bytes c) ''HTTP maximum body size must be greater than zero''"

datatype http_method = HttpPost | HttpPut | HttpPatch

fun as_hyper :: "http_method \<Rightarrow> string" where
  "as_hyper HttpPost = ''POST''"
| "as_hyper HttpPut = ''PUT''"
| "as_hyper HttpPatch = ''PATCH''"

record http_sink_config =
  hk_url :: string
  hk_method :: http_method
  hk_headers :: "(string \<times> string) list"
  hk_timeout :: "duration option"

definition http_sink_config_new :: "string \<Rightarrow> http_sink_config" where
  "http_sink_config_new url = \<lparr>hk_url = url, hk_method = HttpPost, hk_headers = [], hk_timeout = None\<rparr>"

record http_settings =
  hg_headers :: "(string \<times> string) list"
  hg_timeout :: duration

definition default_request_timeout :: duration where
  "default_request_timeout = 30 * 1000 * millisecond"

definition http_settings_new :: http_settings where
  "http_settings_new = \<lparr>hg_headers = [], hg_timeout = default_request_timeout\<rparr>"

definition validate_timeout :: "duration \<Rightarrow> error + unit" where
  "validate_timeout timeout = ensure_config (0 < timeout) ''HTTP request timeout must be greater than zero''"

text \<open>What the \<^verbatim>\<open>http\<close> crate says of a URI, a header name and a header value.\<close>

record uri =
  ui_scheme :: "string option"
  ui_authority :: "string option"
  ui_path :: string

record http_syntax =
  hx_uri :: "string \<Rightarrow> string + uri"
  hx_name :: "string \<Rightarrow> string option"
  hx_value_str :: "string \<Rightarrow> bytes option"
  hx_value :: "bytes \<Rightarrow> bytes option"

type_synonym header_map = "(string \<times> bytes) list"

definition header_remove :: "string \<Rightarrow> header_map \<Rightarrow> header_map" where
  "header_remove name hs = filter (\<lambda>(n, v). n \<noteq> name) hs"

definition header_values :: "string \<Rightarrow> header_map \<Rightarrow> bytes list" where
  "header_values name hs = map snd (filter (\<lambda>(n, v). n = name) hs)"

definition http_uri :: "http_syntax \<Rightarrow> http_sink_config \<Rightarrow> error + uri" where
  "http_uri x c =
     (case hx_uri x (hk_url c) of
        Inl e \<Rightarrow> Inl (error_config (''invalid HTTP sink URL '' @ debug_str (hk_url c) @ '': '' @ e))
      | Inr u \<Rightarrow>
          if ui_scheme u \<noteq> Some ''http'' \<and> ui_scheme u \<noteq> Some ''https''
          then Inl (error_config ''HTTP sink URL must use the http or https scheme'')
          else case ui_authority u of
            None \<Rightarrow> Inl (error_msg ''HTTP sink URL must include a host'')
          | Some a \<Rightarrow>
              if CHR ''@'' \<in> set a
              then Inl (error_config ''HTTP sink URL must not contain credentials; send them in a header'')
              else Inr u)"

fun http_headers_from :: "http_syntax \<Rightarrow> header_map \<Rightarrow> (string \<times> string) list \<Rightarrow> error + header_map" where
  "http_headers_from x hs [] = Inr hs"
| "http_headers_from x hs ((name, v) # rest) =
     (case hx_name x name of
        None \<Rightarrow> Inl (error_config (''invalid HTTP header name '' @ debug_str name))
      | Some n \<Rightarrow>
          (case hx_value_str x v of
             None \<Rightarrow> Inl (error_config (''invalid value for HTTP header '' @ debug_str n))
           | Some b \<Rightarrow> http_headers_from x (hs @ [(n, b)]) rest))"

definition http_headers :: "http_syntax \<Rightarrow> (string \<times> string) list \<Rightarrow> error + header_map" where
  "http_headers x hs = http_headers_from x [] hs"

definition http_sink_validate :: "http_syntax \<Rightarrow> http_sink_config \<Rightarrow> error + unit" where
  "http_sink_validate x c =
     and_then (map_sum id (\<lambda>_. ()) (http_uri x c))
    (and_then (map_sum id (\<lambda>_. ()) (http_headers x (hk_headers c)))
       (case hk_timeout c of None \<Rightarrow> Inr () | Some t \<Rightarrow> validate_timeout t))"

definition http_settings_validate :: "http_syntax \<Rightarrow> http_settings \<Rightarrow> error + unit" where
  "http_settings_validate x g =
     and_then (map_sum id (\<lambda>_. ()) (http_headers x (hg_headers g))) (validate_timeout (hg_timeout g))"

section \<open>Outputs that become requests\<close>

record http_target =
  hz_uri :: uri
  hz_method :: string
  hz_headers :: header_map
  hz_timeout :: duration
  hz_display :: string

text \<open>\<^verbatim>\<open>HttpSink::target\<close>: the sink's headers replace the handle's of the same name.\<close>

definition target_headers :: "header_map \<Rightarrow> header_map \<Rightarrow> header_map" where
  "target_headers handle own = fold (\<lambda>(n, v). header_remove n) own handle @ own"

definition http_target_of :: "http_syntax \<Rightarrow> http_settings \<Rightarrow> http_sink_config \<Rightarrow> error + http_target" where
  "http_target_of x g c =
     (case and_then (http_settings_validate x g) (http_sink_validate x c) of
        Inl e \<Rightarrow> Inl e
      | Inr _ \<Rightarrow>
          (case (http_uri x c, http_headers x (hg_headers g), http_headers x (hk_headers c)) of
             (Inr u, Inr handle, Inr own) \<Rightarrow>
               let location = (case ui_scheme u of None \<Rightarrow> [] | Some s \<Rightarrow> s) @ ''://''
                     @ (case ui_authority u of None \<Rightarrow> [] | Some a \<Rightarrow> a) @ ui_path u in
               Inr \<lparr>hz_uri = u, hz_method = as_hyper (hk_method c), hz_headers = target_headers handle own,
                    hz_timeout = (case hk_timeout c of None \<Rightarrow> hg_timeout g | Some t \<Rightarrow> t),
                    hz_display = as_hyper (hk_method c) @ '' '' @ location\<rparr>
           | (Inl e, _, _) \<Rightarrow> Inl e
           | (_, Inl e, _) \<Rightarrow> Inl e
           | (_, _, Inl e) \<Rightarrow> Inl e))"

record 'v http_publish =
  hu_headers :: "(string \<times> bytes) list"
  hu_body :: 'v

record http_prepared =
  hp_headers :: header_map
  hp_body :: bytes

text \<open>The first header of a name that an output sets removes the configured ones of that name.\<close>

fun prepare_headers :: "http_syntax \<Rightarrow> string set \<Rightarrow> header_map \<Rightarrow> (string \<times> bytes) list \<Rightarrow> error + header_map" where
  "prepare_headers x replaced hs [] = Inr hs"
| "prepare_headers x replaced hs ((name, v) # rest) =
     (case hx_name x name of
        None \<Rightarrow> Inl (invalid_record (''invalid HTTP header name '' @ debug_str name))
      | Some n \<Rightarrow>
          (case hx_value x v of
             None \<Rightarrow> Inl (invalid_record (''invalid value for HTTP header '' @ debug_str n))
           | Some b \<Rightarrow>
               prepare_headers x (insert n replaced) ((if n \<in> replaced then hs else header_remove n hs) @ [(n, b)]) rest))"

definition http_prepare ::
  "http_syntax \<Rightarrow> ('v \<Rightarrow> bytes outcome) \<Rightarrow> http_settings \<Rightarrow> http_sink_config \<Rightarrow> 'v http_publish \<Rightarrow> http_prepared outcome" where
  "http_prepare x encode g c p =
     (case encode (hu_body p) of
        Inl e \<Rightarrow> Inl e
      | Inr body \<Rightarrow>
          (case http_target_of x g c of
             Inl e \<Rightarrow> Inl (Crate e)
           | Inr target \<Rightarrow>
               (case prepare_headers x {} (hz_headers target) (hu_headers p) of
                  Inl e \<Rightarrow> Inl (Crate e)
                | Inr hs \<Rightarrow> Inr \<lparr>hp_headers = hs, hp_body = body\<rparr>)))"

definition is_success :: "nat \<Rightarrow> bool" where "is_success status \<longleftrightarrow> 200 \<le> status \<and> status < 300"
definition is_server_error :: "nat \<Rightarrow> bool" where "is_server_error status \<longleftrightarrow> 500 \<le> status \<and> status < 600"

definition retryable :: "nat \<Rightarrow> bool" where
  "retryable status \<longleftrightarrow> is_server_error status \<or> status = 408 \<or> status = 429"

text \<open>\<^verbatim>\<open>read_body\<close>: the frames of a response body are data, other frames, or an error that ends it.\<close>

datatype body_frame = FrameData bytes | FrameOther | FrameError

fun read_body :: "nat \<Rightarrow> bytes \<Rightarrow> body_frame list \<Rightarrow> bytes" where
  "read_body keep kept [] = kept"
| "read_body keep kept (FrameError # frames) = kept"
| "read_body keep kept (FrameOther # frames) = read_body keep kept frames"
| "read_body keep kept (FrameData d # frames) =
     read_body keep (kept @ take (min (keep - length kept) (length d)) d) frames"

definition error_body_excerpt :: nat where "error_body_excerpt = 512"

text \<open>What a request gives within the timeout: an answer with its body, an error, or nothing.\<close>

datatype http_exchange = HttpAnswer nat "body_frame list" | HttpError box_error | HttpTimeout

text \<open>\<open>status_text\<close> prints a status with its reason and \<open>show_duration\<close> a duration.\<close>

definition http_send ::
  "(nat \<Rightarrow> string) \<Rightarrow> (duration \<Rightarrow> string) \<Rightarrow> http_target \<Rightarrow> http_exchange \<Rightarrow> unit outcome" where
  "http_send status_text show_duration target r =
     (case r of
        HttpError e \<Rightarrow> Inl (Crate (error_wrap (''HTTP '' @ hz_display target @ '' failed'') e))
      | HttpTimeout \<Rightarrow>
          Inl (Crate (error_msg (''HTTP '' @ hz_display target @ '' timed out after '' @ show_duration (hz_timeout target))))
      | HttpAnswer status frames \<Rightarrow>
          let body = read_body (if is_success status then 0 else error_body_excerpt) [] frames in
          if is_success status then Inr ()
          else let excerpt = trim (lossy (map (\<lambda>b. char_of (unat b)) body));
                   error = Crate (error_msg (''HTTP '' @ hz_display target @ '' answered '' @ status_text status
                     @ (if excerpt = [] then [] else '': '' @ excerpt))) in
               Inl (if retryable status then error else publish_rejected_wrap error))"

definition http_publish_output ::
  "bool \<Rightarrow> error + http_target \<Rightarrow> unit outcome \<Rightarrow> (nat \<Rightarrow> string) \<Rightarrow> (duration \<Rightarrow> string) \<Rightarrow> http_exchange \<Rightarrow> unit outcome" where
  "http_publish_output closed target pool status_text show_duration r =
     (if closed then Inl (Crate (Closed ''HTTP sink is closed''))
      else case target of
        Inl e \<Rightarrow> Inl (Crate e)
      | Inr t \<Rightarrow> (case pool of Inl e \<Rightarrow> Inl e | Inr _ \<Rightarrow> http_send status_text show_duration t r))"

section \<open>Requests that become deliveries\<close>

text \<open>A request as it becomes a delivery; the address of the peer is any value.\<close>

record ('a, 'v) http_record =
  ho_path :: string
  ho_query :: "string option"
  ho_headers :: "(string \<times> bytes) list"
  ho_body :: 'v
  ho_remote_addr :: 'a

definition http_record_header :: "('a, 'v) http_record \<Rightarrow> string \<Rightarrow> bytes option" where
  "http_record_header r name =
     map_option snd (find (\<lambda>(h, _). to_ascii_lowercase h = to_ascii_lowercase name) (ho_headers r))"

definition http_decode :: "('a, bytes) http_record \<Rightarrow> 'v \<Rightarrow> ('a, 'v) http_record" where
  "http_decode raw body =
     \<lparr>ho_path = ho_path raw, ho_query = ho_query raw, ho_headers = ho_headers raw, ho_body = body,
      ho_remote_addr = ho_remote_addr raw\<rparr>"

record http_response =
  hr_status :: nat
  hr_headers :: "(string \<times> string) list"
  hr_body :: string

definition status_only :: "nat \<Rightarrow> http_response" where
  "status_only code = \<lparr>hr_status = code, hr_headers = [], hr_body = []\<rparr>"

datatype body_read = BodyRead bytes | BodyTooLarge | BodyFailed

text \<open>The alternate form of an error: a crate error with its causes, any other as it displays.\<close>

fun box_display_alternate :: "box_error \<Rightarrow> string" where
  "box_display_alternate (Crate e) = error_display_alternate e"
| "box_display_alternate e = box_display e"

text \<open>\<^verbatim>\<open>handle\<close> and the first part of \<^verbatim>\<open>deliver\<close>: an answer at once, or a decoded request to deliver.\<close>

definition http_admit :: "(bytes \<Rightarrow> 'v outcome) \<Rightarrow> string \<Rightarrow> body_read \<Rightarrow> http_response + bytes \<times> 'v" where
  "http_admit decode verb body =
     (if verb \<noteq> ''POST'' then Inl ((status_only 405)\<lparr>hr_headers := [(''allow'', ''POST'')]\<rparr>)
      else case body of
        BodyTooLarge \<Rightarrow> Inl (status_only 413)
      | BodyFailed \<Rightarrow> Inl (status_only 400)
      | BodyRead b \<Rightarrow>
          (case decode b of
             Inl e \<Rightarrow> Inl \<lparr>hr_status = 400, hr_headers = [(''content-type'', ''text/plain; charset=utf-8'')],
                          hr_body = box_display_alternate e @ [CHR 0x0A]\<rparr>
           | Inr v \<Rightarrow> Inr (b, v)))"

text \<open>
  A request waits for room in the channel, is in it, is held by a delivery, was answered, or its client
  is gone.
\<close>

datatype http_request = HrSending | HrQueued | HrHeld | HrAnswered nat | HrGone

datatype http_phase = HtBound | HtServing | HtClosed

text \<open>
  \<open>ht_live\<close> are the deliveries with their requests and whether they still decide the answer; \<open>ht_received\<close>
  and \<open>ht_acked\<close> are the requests that were received and acknowledged so far.
\<close>

record http_sys =
  ht_phase :: http_phase
  ht_server :: bool
  ht_open :: bool
  ht_queue :: "nat list"
  ht_requests :: "http_request list"
  ht_live :: "(nat \<times> bool) list"
  ht_received :: "nat list"
  ht_acked :: "nat list"
  ht_shutdown :: bool

definition http_new :: http_sys where
  "http_new = \<lparr>ht_phase = HtBound, ht_server = False, ht_open = False, ht_queue = [], ht_requests = [], ht_live = [],
     ht_received = [], ht_acked = [], ht_shutdown = False\<rparr>"

text \<open>
  \<^verbatim>\<open>HttpSource::start\<close>: settings that are refused leave the listener bound, one that cannot be served closes
  the source. A server that starts after shutdown accepts no connection.
\<close>

definition http_start :: "http_source_config \<Rightarrow> bool \<Rightarrow> http_sys \<Rightarrow> http_sys" where
  "http_start c listens s =
     (if ht_phase s \<noteq> HtBound \<or> http_source_validate c \<noteq> Inr () then s
      else if \<not> listens then s\<lparr>ht_phase := HtClosed\<rparr>
      else s\<lparr>ht_phase := HtServing, ht_server := \<not> ht_shutdown s, ht_open := True\<rparr>)"

text \<open>A status sent to a request that still waits for one; if its client is gone it is lost.\<close>

definition answer :: "nat \<Rightarrow> nat \<Rightarrow> http_sys \<Rightarrow> http_sys" where
  "answer i code s =
     (if ht_requests s ! i = HrGone then s else s\<lparr>ht_requests := (ht_requests s)[i := HrAnswered code]\<rparr>)"

text \<open>\<^verbatim>\<open>HttpSource::receive\<close> with a request in the channel.\<close>

definition http_receive :: "http_source_config \<Rightarrow> http_sys \<Rightarrow> http_sys option" where
  "http_receive c s =
     (case ht_queue s of
        [] \<Rightarrow> None
      | i # rest \<Rightarrow>
          let s = s\<lparr>ht_queue := rest, ht_received := ht_received s @ [i]\<rparr> in
          (case hc_response c of
             AnswerOnAck \<Rightarrow>
               Some (s\<lparr>ht_live := ht_live s @ [(i, True)],
                       ht_requests := (if ht_requests s ! i = HrGone then ht_requests s
                                       else (ht_requests s)[i := HrHeld])\<rparr>)
           | AnswerOnReceive \<Rightarrow> Some (answer i 202 (s\<lparr>ht_live := ht_live s @ [(i, False)]\<rparr>))))"

text \<open>A delivery is acknowledged or dropped.\<close>

definition http_end :: "bool \<Rightarrow> nat \<Rightarrow> http_sys \<Rightarrow> http_sys" where
  "http_end acked j s =
     (case ht_live s ! j of (i, decides) \<Rightarrow>
        let s = s\<lparr>ht_live := remove_nth j (ht_live s), ht_acked := (if acked then ht_acked s @ [i] else ht_acked s)\<rparr> in
        if decides then answer i (if acked then 200 else 503) s else s)"

text \<open>\<^verbatim>\<open>stop_receiving\<close>: requests in the channel are dropped, which answers them.\<close>

definition http_stop :: "http_sys \<Rightarrow> http_sys" where
  "http_stop s =
     (if ht_phase s = HtServing
      then (fold (\<lambda>i. answer i 503) (ht_queue s) s)\<lparr>ht_queue := [], ht_open := False, ht_shutdown := True\<rparr>
      else s\<lparr>ht_shutdown := True\<rparr>)"

text \<open>\<^verbatim>\<open>close\<close> drops the receiver, which does the same, before it waits for the connections.\<close>

definition http_close :: "http_sys \<Rightarrow> http_sys" where
  "http_close s = (http_stop s)\<lparr>ht_phase := HtClosed\<rparr>"

datatype http_event =
    HtStart bool
  | HtRequest string body_read "unit outcome"
  | HtEnqueue nat
  | HtReceive
  | HtAck nat
  | HtDrop nat
  | HtStop
  | HtClose
  | HtGone nat

fun http_step :: "http_source_config \<Rightarrow> http_sys \<Rightarrow> http_event \<Rightarrow> http_sys option" where
  "http_step c s (HtStart listens) = Some (http_start c listens s)"
| "http_step c s (HtRequest verb body decoded) =
     (if ht_server s
      then Some (s\<lparr>ht_requests := ht_requests s @
             [case http_admit (\<lambda>_. decoded) verb body of Inl r \<Rightarrow> HrAnswered (hr_status r) | Inr _ \<Rightarrow> HrSending]\<rparr>)
      else None)"
| "http_step c s (HtEnqueue i) =
     (if i < length (ht_requests s) \<and> ht_requests s ! i = HrSending
      then if \<not> ht_open s then Some (answer i 503 s)
           else if ht_queue s = []
           then Some (s\<lparr>ht_queue := [i], ht_requests := (ht_requests s)[i := HrQueued]\<rparr>)
           else None
      else None)"
| "http_step c s HtReceive = (if ht_phase s = HtServing then http_receive c s else None)"
| "http_step c s (HtAck j) = (if j < length (ht_live s) then Some (http_end True j s) else None)"
| "http_step c s (HtDrop j) = (if j < length (ht_live s) then Some (http_end False j s) else None)"
| "http_step c s HtStop = Some (http_stop s)"
| "http_step c s HtClose = Some (http_close s)"
| "http_step c s (HtGone i) =
     (if i < length (ht_requests s) \<and> (ht_requests s ! i = HrSending \<or> ht_requests s ! i = HrQueued \<or> ht_requests s ! i = HrHeld)
      then Some (s\<lparr>ht_requests := (ht_requests s)[i := HrGone]\<rparr>) else None)"

abbreviation http_reach :: "http_source_config \<Rightarrow> http_sys \<Rightarrow> bool" where
  "http_reach c \<equiv> reach (\<lambda>s. s = http_new) (http_step c)"

section \<open>Every request is answered by what became of it\<close>

definition final_status :: "response_timing \<Rightarrow> bool \<Rightarrow> nat" where
  "final_status timing acked = (if timing = AnswerOnReceive then 202 else if acked then 200 else 503)"

definition refusals :: "nat set" where "refusals = {400, 405, 413, 503}"

fun request_ok :: "response_timing \<Rightarrow> http_sys \<Rightarrow> nat \<Rightarrow> http_request \<Rightarrow> bool" where
  "request_ok timing s i HrSending \<longleftrightarrow> i \<notin> set (ht_queue s) \<and> i \<notin> set (ht_received s)"
| "request_ok timing s i HrQueued \<longleftrightarrow> i \<in> set (ht_queue s)"
| "request_ok timing s i HrHeld \<longleftrightarrow> (i, True) \<in> set (ht_live s)"
| "request_ok timing s i (HrAnswered code) \<longleftrightarrow>
     i \<notin> set (ht_queue s) \<and> (i, True) \<notin> set (ht_live s)
     \<and> (if i \<in> set (ht_received s) then code = final_status timing (i \<in> set (ht_acked s)) else code \<in> refusals)"
| "request_ok timing s i HrGone \<longleftrightarrow> True"

definition books_ok :: "response_timing \<Rightarrow> http_sys \<Rightarrow> bool" where
  "books_ok timing s \<longleftrightarrow>
     length (ht_queue s) \<le> 1 \<and> (ht_open s \<longrightarrow> ht_phase s = HtServing)
     \<and> (\<not> ht_open s \<longrightarrow> ht_queue s = [])
     \<and> set (ht_queue s) \<inter> set (ht_received s) = {} \<and> set (ht_queue s) \<union> set (ht_received s) \<subseteq> {..<length (ht_requests s)}
     \<and> set (ht_acked s) \<subseteq> set (ht_received s) \<and> distinct (map fst (ht_live s))
     \<and> (\<forall>e \<in> set (ht_live s). fst e \<in> set (ht_received s) - set (ht_acked s) \<and> snd e = (timing = AnswerOnAck))"

definition http_inv :: "response_timing \<Rightarrow> http_sys \<Rightarrow> bool" where
  "http_inv timing s \<longleftrightarrow> books_ok timing s \<and> (\<forall>i < length (ht_requests s). request_ok timing s i (ht_requests s ! i))"

lemma books_entry:
  assumes "books_ok timing s" "(i, d) \<in> set (ht_live s)"
  shows "i \<in> set (ht_received s)" "i \<notin> set (ht_acked s)" "d = (timing = AnswerOnAck)" "i \<notin> set (ht_queue s)"
    "i < length (ht_requests s)"
proof -
  have "fst (i, d) \<in> set (ht_received s) - set (ht_acked s) \<and> snd (i, d) = (timing = AnswerOnAck)"
    using assms unfolding books_ok_def by blast
  then show "i \<in> set (ht_received s)" "i \<notin> set (ht_acked s)" "d = (timing = AnswerOnAck)" by simp_all
  then show "i \<notin> set (ht_queue s)" "i < length (ht_requests s)" using assms(1) unfolding books_ok_def by blast+
qed

text \<open>What is said of one request does not depend on the state of the others.\<close>

lemma request_ok_cong:
  "ht_queue t = ht_queue s \<Longrightarrow> ht_live t = ht_live s \<Longrightarrow> ht_acked t = ht_acked s \<Longrightarrow> ht_received t = ht_received s \<Longrightarrow>
   request_ok timing t i r = request_ok timing s i r"
  by (cases r) simp_all

lemma http_inv_set:
  assumes "http_inv timing s" "request_ok timing s i r"
  shows "http_inv timing (s\<lparr>ht_requests := (ht_requests s)[i := r]\<rparr>)"
proof -
  let ?t = "s\<lparr>ht_requests := (ht_requests s)[i := r]\<rparr>"
  have "request_ok timing ?t j (ht_requests ?t ! j)" if "j < length (ht_requests s)" for j
  proof -
    have "request_ok timing s j ((ht_requests s)[i := r] ! j)"
      using assms that by (cases "i = j") (simp_all add: http_inv_def)
    then show ?thesis by (simp add: request_ok_cong [of ?t s])
  qed
  with assms(1) show ?thesis by (simp add: http_inv_def books_ok_def)
qed

text \<open>A change of the books that concerns one request.\<close>

lemma http_inv_books:
  assumes inv: "http_inv timing s" and books: "books_ok timing t"
    and req: "ht_requests t = (ht_requests s)[i := r]" "request_ok timing t i r"
    and other: "\<And>j x. j \<noteq> i \<Longrightarrow> request_ok timing s j x \<Longrightarrow> request_ok timing t j x"
  shows "http_inv timing t"
proof -
  have "request_ok timing t j (ht_requests t ! j)" if "j < length (ht_requests s)" for j
    using that inv req other by (cases "j = i") (simp_all add: http_inv_def)
  with books req(1) show ?thesis by (simp add: http_inv_def)
qed

lemma http_inv_answer:
  assumes "http_inv timing s" "request_ok timing s i (HrAnswered code)"
  shows "http_inv timing (answer i code s)"
  using http_inv_set [OF assms] assms(1) by (simp add: answer_def)

lemma http_inv_request:
  assumes inv: "http_inv timing s" and new: "new = HrSending \<or> (\<exists>code. new = HrAnswered code \<and> code \<in> refusals)"
  shows "http_inv timing (s\<lparr>ht_requests := ht_requests s @ [new]\<rparr>)"
proof -
  let ?t = "s\<lparr>ht_requests := ht_requests s @ [new]\<rparr>" and ?n = "length (ht_requests s)"
  have fresh: "?n \<notin> set (ht_queue s)" "?n \<notin> set (ht_received s)" "(?n, True) \<notin> set (ht_live s)"
    using inv by (force simp: http_inv_def books_ok_def)+
  have "request_ok timing ?t ?n new" using new fresh by (elim disjE exE conjE) simp_all
  moreover have "request_ok timing ?t j (ht_requests s ! j)" if "j < ?n" for j
    using inv that by (simp add: http_inv_def request_ok_cong [of ?t s])
  moreover have "books_ok timing ?t" using inv by (simp add: http_inv_def books_ok_def) (meson less_SucI lessThan_iff subset_iff)
  ultimately show ?thesis by (simp add: http_inv_def nth_append less_Suc_eq)
qed

lemma http_inv_enqueue:
  assumes inv: "http_inv timing s" and i: "i < length (ht_requests s)" "ht_requests s ! i = HrSending"
    and q: "ht_open s" "ht_queue s = []"
  shows "http_inv timing (s\<lparr>ht_queue := [i], ht_requests := (ht_requests s)[i := HrQueued]\<rparr>)" (is "http_inv _ ?t")
proof (rule http_inv_books [OF inv])
  have "i \<notin> set (ht_received s)" using inv i by (metis http_inv_def request_ok.simps(1))
  then show "books_ok timing ?t" using inv i q by (simp add: http_inv_def books_ok_def)
  show "ht_requests ?t = (ht_requests s)[i := HrQueued]" by simp
  show "request_ok timing ?t i HrQueued" by simp
  show "request_ok timing ?t j x" if "j \<noteq> i" "request_ok timing s j x" for j x
    using that q by (cases x) simp_all
qed

lemma http_inv_receive:
  assumes inv: "http_inv timing s" and r: "http_receive c s = Some t" and c: "hc_response c = timing"
  shows "http_inv timing t"
proof -
  obtain i where q: "ht_queue s = [i]"
    using inv r by (cases "ht_queue s") (simp_all add: http_inv_def books_ok_def http_receive_def)
  have i: "i < length (ht_requests s)" "i \<notin> set (ht_received s)" "i \<notin> fst ` set (ht_live s)" "i \<notin> set (ht_acked s)"
    using inv q by (auto simp: http_inv_def books_ok_def)
  let ?r = "if ht_requests s ! i = HrGone then HrGone else if timing = AnswerOnAck then HrHeld else HrAnswered 202"
  have gone: "(ht_requests s)[i := HrGone] = ht_requests s" if "ht_requests s ! i = HrGone"
    using list_update_id [of "ht_requests s" i] that by simp
  have t: "t = s\<lparr>ht_queue := [], ht_received := ht_received s @ [i], ht_live := ht_live s @ [(i, timing = AnswerOnAck)],
      ht_requests := (ht_requests s)[i := ?r]\<rparr>"
    using r q c gone by (cases timing) (simp_all add: http_receive_def Let_def answer_def split: if_splits)
  show ?thesis
  proof (rule http_inv_books [OF inv])
    show "books_ok timing t"
      using inv q i unfolding t by (simp add: http_inv_def books_ok_def) blast
    show "ht_requests t = (ht_requests s)[i := ?r]" by (simp add: t)
    show "request_ok timing t i ?r"
      using i(3,4) by (cases timing) (force simp: t final_status_def)+
    show "request_ok timing t j x" if "j \<noteq> i" "request_ok timing s j x" for j x
      using that q by (cases x) (simp_all add: t)
  qed
qed

lemma http_inv_end:
  assumes inv: "http_inv timing s" and j: "j < length (ht_live s)"
  shows "http_inv timing (http_end acked j s)"
proof -
  obtain i d where e: "ht_live s ! j = (i, d)" by (cases "ht_live s ! j")
  have mem: "(i, d) \<in> set (ht_live s)" using j e by (metis nth_mem)
  have books: "books_ok timing s" using inv by (simp add: http_inv_def)
  note i = books_entry [OF books mem]
  have dist: "distinct (map fst (ht_live s))" using inv by (simp add: http_inv_def books_ok_def)
  have split: "ht_live s = take j (ht_live s) @ (i, d) # drop (Suc j) (ht_live s)"
    using remove_nth_split [OF j] e by simp
  have fst_gone: "i \<notin> fst ` set (remove_nth j (ht_live s))"
    using dist unfolding remove_nth_def by (subst (asm) split) auto
  have keep: "e \<in> set (remove_nth j (ht_live s)) \<longleftrightarrow> e \<in> set (ht_live s)" if "fst e \<noteq> i" for e
    using that unfolding remove_nth_def by (subst (3) split) auto
  have dist': "distinct (map fst (remove_nth j (ht_live s)))"
    using dist unfolding remove_nth_def by (subst (asm) split) auto
  have ok: "request_ok timing s i (ht_requests s ! i)" using inv i by (simp add: http_inv_def)
  let ?code = "if acked then 200 else 503"
  let ?r = "if d \<and> ht_requests s ! i \<noteq> HrGone then HrAnswered ?code else ht_requests s ! i"
  let ?t = "s\<lparr>ht_live := remove_nth j (ht_live s), ht_acked := (if acked then ht_acked s @ [i] else ht_acked s),
      ht_requests := (ht_requests s)[i := ?r]\<rparr>"
  have t: "http_end acked j s = ?t" by (simp add: http_end_def e answer_def Let_def)
  have live: "(i, b) \<notin> set (remove_nth j (ht_live s))" for b using fst_gone by force
  have "http_inv timing ?t"
  proof (rule http_inv_books [OF inv])
    have "fst e \<in> set (ht_received s) - set (ht_acked s) \<and> snd e = (timing = AnswerOnAck) \<and> fst e \<noteq> i"
      if "e \<in> set (remove_nth j (ht_live s))" for e
      using that fst_gone inv set_remove_nth [of j "ht_live s"] by (auto simp: http_inv_def books_ok_def)
    then show "books_ok timing ?t"
      using inv i dist' by (simp add: http_inv_def books_ok_def)
    show "ht_requests ?t = (ht_requests s)[i := ?r]" by simp
    show "request_ok timing ?t i ?r"
    proof (cases "d \<and> ht_requests s ! i \<noteq> HrGone")
      case True
      then show ?thesis using i live by (simp add: final_status_def)
    next
      case False
      have "(i, True) \<notin> set (ht_live s)" if "\<not> d" using that i books_entry(3) [OF books, of i True] by blast
      then show ?thesis using False i live ok
        by (cases timing; cases "ht_requests s ! i") (simp_all add: final_status_def)
    qed
    show "request_ok timing ?t k x" if "k \<noteq> i" "request_ok timing s k x" for k x
      using that keep [of "(k, True)"] by (cases x) simp_all
  qed
  then show ?thesis by (simp add: t)
qed

lemma http_inv_stop:
  assumes inv: "http_inv timing s"
  shows "http_inv timing (http_stop s)"
proof (cases "ht_phase s = HtServing \<and> ht_queue s \<noteq> []")
  case True
  then obtain i where q: "ht_queue s = [i]"
    using inv by (cases "ht_queue s") (simp_all add: http_inv_def books_ok_def)
  have i: "i \<notin> set (ht_received s)" "i \<notin> fst ` set (ht_live s)"
    using inv q by (auto simp: http_inv_def books_ok_def)
  let ?r = "if ht_requests s ! i = HrGone then HrGone else HrAnswered 503"
  have gone: "(ht_requests s)[i := HrGone] = ht_requests s" if "ht_requests s ! i = HrGone"
    using list_update_id [of "ht_requests s" i] that by simp
  have t: "http_stop s = s\<lparr>ht_queue := [], ht_open := False, ht_shutdown := True, ht_requests := (ht_requests s)[i := ?r]\<rparr>"
    using True q gone by (simp add: http_stop_def answer_def)
  show ?thesis
  proof (rule http_inv_books [OF inv])
    show "books_ok timing (http_stop s)" using inv by (simp add: t http_inv_def books_ok_def)
    show "ht_requests (http_stop s) = (ht_requests s)[i := ?r]" by (simp add: t)
    show "request_ok timing (http_stop s) i ?r" using i by (force simp: t refusals_def)
    show "request_ok timing (http_stop s) j x" if "j \<noteq> i" "request_ok timing s j x" for j x
      using that q by (cases x) (simp_all add: t)
  qed
next
  case False
  then have t: "http_stop s = (if ht_phase s = HtServing then s\<lparr>ht_queue := [], ht_open := False, ht_shutdown := True\<rparr>
      else s\<lparr>ht_shutdown := True\<rparr>)" "ht_phase s = HtServing \<longrightarrow> ht_queue s = []"
    by (auto simp: http_stop_def)
  have "books_ok timing (http_stop s)" using inv t by (simp add: http_inv_def books_ok_def)
  moreover have "request_ok timing (http_stop s) i r = request_ok timing s i r" for i r
    using t(2) by (intro request_ok_cong) (simp_all add: t(1))
  ultimately show ?thesis using inv by (simp add: http_inv_def t(1))
qed

lemma http_inv_close:
  assumes "http_inv timing s" shows "http_inv timing (http_close s)"
proof -
  have "\<not> ht_open (http_stop s)"
    using assms by (simp add: http_stop_def http_inv_def books_ok_def) blast
  moreover have "request_ok timing (http_close s) i r = request_ok timing (http_stop s) i r" for i r
    by (intro request_ok_cong) (simp_all add: http_close_def)
  ultimately show ?thesis using http_inv_stop [OF assms] by (simp add: http_inv_def http_close_def books_ok_def)
qed

lemma http_inv_start:
  assumes "http_inv timing s" shows "http_inv timing (http_start c listens s)"
proof -
  have "request_ok timing (http_start c listens s) i r = request_ok timing s i r" for i r
    by (intro request_ok_cong) (simp_all add: http_start_def)
  moreover have "books_ok timing (http_start c listens s)"
    using assms by (auto simp: http_start_def http_inv_def books_ok_def)
  ultimately show ?thesis using assms by (simp add: http_inv_def http_start_def)
qed

lemma admit_refusals: "http_admit decode verb body = Inl r \<Longrightarrow> hr_status r \<in> refusals"
  by (auto simp: http_admit_def status_only_def refusals_def split: if_splits body_read.splits sum.splits)

lemma http_inv_step:
  assumes inv: "http_inv (hc_response c) s" and step: "http_step c s e = Some t"
  shows "http_inv (hc_response c) t"
proof (cases e)
  case (HtRequest verb body decoded)
  then show ?thesis
    using step inv by (auto split: if_splits sum.splits intro!: http_inv_request dest: admit_refusals)
next
  case (HtEnqueue i)
  with step have i: "i < length (ht_requests s)" "ht_requests s ! i = HrSending" by (simp_all split: if_splits)
  have refused: "request_ok (hc_response c) s i (HrAnswered 503)"
  proof -
    have "i \<notin> set (ht_queue s)" "i \<notin> set (ht_received s)"
      using inv i by (metis http_inv_def request_ok.simps(1))+
    moreover have "(i, True) \<notin> set (ht_live s)"
      using inv \<open>i \<notin> set (ht_received s)\<close> by (force simp: http_inv_def books_ok_def)
    ultimately show ?thesis by (simp add: refusals_def)
  qed
  show ?thesis
  proof (cases "ht_open s")
    case True
    then have "ht_queue s = []" "t = s\<lparr>ht_queue := [i], ht_requests := (ht_requests s)[i := HrQueued]\<rparr>"
      using HtEnqueue step i by (simp_all split: if_splits)
    then show ?thesis using http_inv_enqueue [OF inv i True] by simp
  next
    case False
    then have "t = answer i 503 s" using HtEnqueue step i by simp
    then show ?thesis using http_inv_answer [OF inv refused] by simp
  qed
next
  case (HtGone i)
  then show ?thesis using step http_inv_set [OF inv, of i HrGone] by (simp split: if_splits)
next
  case HtReceive
  then show ?thesis using step http_inv_receive [OF inv] by (simp split: if_splits)
qed (use step inv in \<open>auto intro: http_inv_end http_inv_stop http_inv_close http_inv_start split: if_splits\<close>)

interpretation http_requests: invariant_system "\<lambda>s. s = http_new" "http_step c" "http_inv (hc_response c)"
proof
  show "http_inv (hc_response c) s" if "s = http_new" for s
    using that by (simp add: http_new_def http_inv_def books_ok_def)
qed (rule http_inv_step)

text \<open>
  C24. Every HTTP request is answered by what became of it. A request that was received as a delivery is
  answered 202 on receive or, with answers on acknowledgement, 200 exactly if its delivery was
  acknowledged and 503 if it was dropped; one that never became a delivery is refused. Until then it
  waits for room, is in the channel, or belongs to a delivery that decides its answer, and once receiving
  has stopped, a waiting request that no delivery holds is answered 503 in its next step.
\<close>

theorem http_answers:
  assumes "http_reach c s" "i < length (ht_requests s)"
  shows "(\<forall>code. ht_requests s ! i = HrAnswered code \<longrightarrow>
      (if i \<in> set (ht_received s) then code = final_status (hc_response c) (i \<in> set (ht_acked s)) else code \<in> refusals))
    \<and> (ht_requests s ! i = HrQueued \<longrightarrow> ht_queue s = [i] \<and> ht_open s)
    \<and> (ht_requests s ! i = HrHeld \<longrightarrow> hc_response c = AnswerOnAck \<and> i \<notin> set (ht_acked s)
         \<and> (\<exists>j < length (ht_live s). ht_live s ! j = (i, True)
              \<and> (\<forall>acked. ht_requests (http_end acked j s) ! i = HrAnswered (if acked then 200 else 503))))
    \<and> (ht_requests s ! i = HrSending \<and> \<not> ht_open s \<longrightarrow>
         (\<exists>t. http_step c s (HtEnqueue i) = Some t \<and> ht_requests t ! i = HrAnswered 503))"
proof -
  have inv: "http_inv (hc_response c) s" by (rule http_requests.reach_inv [OF assms(1)])
  then have ok: "request_ok (hc_response c) s i (ht_requests s ! i)" and books: "books_ok (hc_response c) s"
    using assms(2) by (simp_all add: http_inv_def)
  have queued: "ht_queue s = [i] \<and> ht_open s" if "ht_requests s ! i = HrQueued"
    using ok books that by (cases "ht_queue s") (auto simp: books_ok_def)
  have held: "hc_response c = AnswerOnAck \<and> i \<notin> set (ht_acked s)
      \<and> (\<exists>j < length (ht_live s). ht_live s ! j = (i, True)
           \<and> (\<forall>acked. ht_requests (http_end acked j s) ! i = HrAnswered (if acked then 200 else 503)))"
    if h: "ht_requests s ! i = HrHeld"
  proof -
    have mem: "(i, True) \<in> set (ht_live s)" using ok h by simp
    then obtain j where j: "j < length (ht_live s)" "ht_live s ! j = (i, True)" by (auto simp: in_set_conv_nth)
    have "ht_requests (http_end acked j s) ! i = HrAnswered (if acked then 200 else 503)" for acked
      using j h assms(2) by (simp add: http_end_def answer_def)
    then show ?thesis using j books_entry [OF books mem] by blast
  qed
  have sending: "\<exists>t. http_step c s (HtEnqueue i) = Some t \<and> ht_requests t ! i = HrAnswered 503"
    if "ht_requests s ! i = HrSending" "\<not> ht_open s"
    using that assms(2) by (simp add: answer_def)
  have answered: "if i \<in> set (ht_received s) then code = final_status (hc_response c) (i \<in> set (ht_acked s)) else code \<in> refusals"
    if "ht_requests s ! i = HrAnswered code" for code
    using ok that by simp
  show ?thesis using answered queued held sending by blast
qed

definition ex_http_config :: http_source_config where
  "ex_http_config = \<lparr>hc_max_body_bytes = 16, hc_response = AnswerOnAck\<rparr>"

definition ex_http_events :: "http_event list" where
  "ex_http_events =
     [HtStart True, HtRequest ''POST'' (BodyRead []) (Inr ()), HtRequest ''GET'' (BodyRead []) (Inr ()),
      HtRequest ''POST'' (BodyRead []) (Inr ()), HtRequest ''POST'' (BodyRead []) (Inr ()), HtEnqueue 0, HtReceive,
      HtEnqueue 2, HtReceive, HtEnqueue 3, HtAck 0, HtStop, HtDrop 0]"

lemma ex_http_run:
  "run_ok (\<lambda>s. ht_requests s = [HrAnswered 200, HrAnswered 405, HrAnswered 503, HrAnswered 503] \<and> ht_received s = [0, 2])
     (run (http_step ex_http_config) http_new ex_http_events)"
  by code_simp

theorem http_answers_witness:
  "\<exists>s. http_reach ex_http_config s \<and> ht_received s = [0, 2]
    \<and> 200 = final_status (hc_response ex_http_config) (0 \<in> set (ht_acked s))"
proof -
  obtain s where s: "http_reach ex_http_config s"
    "ht_requests s = [HrAnswered 200, HrAnswered 405, HrAnswered 503, HrAnswered 503] \<and> ht_received s = [0, 2]"
    by (rule run_ok_obtain [OF ex_http_run refl])
  from http_answers [OF s(1), of 0] s show ?thesis by (intro exI [of _ s]) simp
qed

section \<open>What a sink sends and makes of an answer\<close>

lemma header_values_simps [simp]:
  "header_values n [] = []" "header_values n (xs @ ys) = header_values n xs @ header_values n ys"
  "header_values n ((m, v) # hs) = (if m = n then [v] else []) @ header_values n hs"
  by (simp_all add: header_values_def)

lemma header_values_remove [simp]:
  "header_values n (header_remove m hs) = (if n = m then [] else header_values n hs)"
  by (induction hs) (auto simp: header_remove_def)

lemma header_values_remove_all:
  "header_values n (fold (\<lambda>(m, v). header_remove m) own hs) =
     (if n \<in> fst ` set own then [] else header_values n hs)"
  by (induction own arbitrary: hs) auto

text \<open>The values a list of headers sets under a name, as the \<^verbatim>\<open>http\<close> crate reads names and values.\<close>

definition values_set ::
  "(string \<Rightarrow> string option) \<Rightarrow> ('v \<Rightarrow> bytes option) \<Rightarrow> string \<Rightarrow> (string \<times> 'v) list \<Rightarrow> bytes list" where
  "values_set name_of value_of n hs =
     List.map_filter (\<lambda>(name, v). if name_of name = Some n then value_of v else None) hs"

lemma values_set_simps [simp]:
  "values_set name_of value_of n [] = []"
  "values_set name_of value_of n ((name, v) # hs) =
     (if name_of name = Some n then case value_of v of None \<Rightarrow> [] | Some b \<Rightarrow> [b] else [])
     @ values_set name_of value_of n hs"
  by (auto simp: values_set_def map_filter_def split: option.splits)

lemma prepare_headers_values:
  "prepare_headers x replaced hs out = Inr result \<Longrightarrow>
   header_values n result =
     (if values_set (hx_name x) (hx_value x) n out \<noteq> [] \<and> n \<notin> replaced then [] else header_values n hs)
     @ values_set (hx_name x) (hx_value x) n out"
proof (induction x replaced hs out rule: prepare_headers.induct)
  case (2 x replaced hs name v rest)
  then obtain m b where m: "hx_name x name = Some m" "hx_value x v = Some b" by (auto split: option.splits)
  have "prepare_headers x (insert m replaced) ((if m \<in> replaced then hs else header_remove m hs) @ [(m, b)]) rest = Inr result"
    using "2.prems" m by simp
  from "2.IH" [OF m this] m show ?case
    by (cases "n = m"; cases "m \<in> replaced") simp_all
qed simp

lemma prepare_headers_valid:
  "prepare_headers x replaced hs out = Inr result \<Longrightarrow> (name, v) \<in> set out \<Longrightarrow>
   hx_name x name \<noteq> None \<and> hx_value x v \<noteq> None"
  by (induction x replaced hs out rule: prepare_headers.induct) (auto split: option.splits)

lemma http_headers_values:
  "http_headers_from x hs cs = Inr result \<Longrightarrow>
   header_values n result = header_values n hs @ values_set (hx_name x) (hx_value_str x) n cs"
  by (induction x hs cs rule: http_headers_from.induct) (auto split: option.splits)

lemma header_named: "n \<in> fst ` set hs \<longleftrightarrow> header_values n hs \<noteq> []"
  by (induction hs) auto

text \<open>
  C37. A request of an HTTP sink carries, under every header name, exactly the values its output sets, in
  their order; if it sets none, those the sink is configured with; and if there are none either, those
  of the handle. Its body is the encoded value, and an output with a header that HTTP does not allow is
  not sent.
\<close>

theorem http_header_precedence:
  assumes "http_prepare x encode g c p = Inr r"
  shows "header_values n (hp_headers r) =
      (let out = values_set (hx_name x) (hx_value x) n (hu_headers p);
           own = values_set (hx_name x) (hx_value_str x) n (hk_headers c);
           handle = values_set (hx_name x) (hx_value_str x) n (hg_headers g)
       in if out \<noteq> [] then out else if own \<noteq> [] then own else handle)
    \<and> encode (hu_body p) = Inr (hp_body r)
    \<and> list_all (\<lambda>(name, v). hx_name x name \<noteq> None \<and> hx_value x v \<noteq> None) (hu_headers p)"
proof -
  obtain body target where t: "encode (hu_body p) = Inr body" "http_target_of x g c = Inr target" "hp_body r = body"
    and h: "prepare_headers x {} (hz_headers target) (hu_headers p) = Inr (hp_headers r)"
    using assms by (auto simp: http_prepare_def split: sum.splits)
  obtain handle own where cs: "http_headers x (hg_headers g) = Inr handle" "http_headers x (hk_headers c) = Inr own"
    "hz_headers target = target_headers handle own"
    using t(2) by (auto simp: http_target_of_def Let_def split: sum.splits)
  note handle = http_headers_values [OF cs(1) [unfolded http_headers_def], of n]
    and own = http_headers_values [OF cs(2) [unfolded http_headers_def], of n]
  have "header_values n (hz_headers target) = (if header_values n own \<noteq> [] then header_values n own else header_values n handle)"
    by (simp add: cs(3) target_headers_def header_values_remove_all header_named)
  then have "header_values n (hp_headers r) =
      (let out = values_set (hx_name x) (hx_value x) n (hu_headers p);
           own = values_set (hx_name x) (hx_value_str x) n (hk_headers c);
           handle = values_set (hx_name x) (hx_value_str x) n (hg_headers g)
       in if out \<noteq> [] then out else if own \<noteq> [] then own else handle)"
    using prepare_headers_values [OF h, of n] handle own by (simp add: Let_def)
  with t prepare_headers_valid [OF h] show ?thesis by (auto simp: list_all_iff)
qed

text \<open>The data of a response body up to its end or its first error.\<close>

fun body_data :: "body_frame list \<Rightarrow> bytes" where
  "body_data (FrameData d # frames) = d @ body_data frames"
| "body_data (FrameOther # frames) = body_data frames"
| "body_data _ = []"

lemma read_body_kept:
  "length kept \<le> keep \<Longrightarrow> read_body keep kept frames = kept @ take (keep - length kept) (body_data frames)"
proof (induction keep kept frames rule: read_body.induct)
  case (4 keep kept d frames)
  then show ?case
    by (cases "length d \<le> keep - length kept") (simp_all add: min_def)
qed simp_all

text \<open>
  Reading a body frame by frame keeps the first bytes of what arrived before its end or an error.
\<close>

theorem read_body_prefix: "read_body keep [] frames = take keep (body_data frames)"
  by (simp add: read_body_kept)

text \<open>
  Sending an output succeeds exactly when the destination answers with a 2xx status. An answer is
  marked as rejected, and so not retried, exactly if it is neither a success nor a 408, a 429 or a 5xx;
  a failed connection or a timeout is never so marked.
\<close>

theorem http_send_outcome:
  assumes "\<And>e. r = HttpError e \<Longrightarrow> \<not> rejected e"
  shows "(http_send status_text show_duration target r = Inr () \<longleftrightarrow> (\<exists>status frames. r = HttpAnswer status frames \<and> is_success status))
    \<and> (\<forall>e. http_send status_text show_duration target r = Inl e \<longrightarrow>
         (rejected e \<longleftrightarrow> (\<exists>status frames. r = HttpAnswer status frames \<and> \<not> retryable status)))"
proof -
  have plain: "\<not> rejected (Crate (error_msg m))" for m
    by (simp add: rejected_def error_msg_def causes_Crate)
  have wrapped: "rejected (publish_rejected_wrap e)" for e
    by (simp add: rejected_def publish_rejected_wrap_def causes_PublishRejected)
  have chained: "rejected (Crate (error_wrap m e)) \<longleftrightarrow> rejected e" for m e
    by (simp add: rejected_def error_wrap_def causes_Crate)
  show ?thesis
    using assms by (cases r) (auto simp: http_send_def Let_def plain wrapped chained retryable_def is_success_def is_server_error_def)
qed

definition ex_http_syntax :: http_syntax where
  "ex_http_syntax =
     \<lparr>hx_uri = \<lambda>_. Inr \<lparr>ui_scheme = Some ''https'', ui_authority = Some ''h'', ui_path = ''/''\<rparr>,
      hx_name = \<lambda>n. Some (to_ascii_lowercase n), hx_value_str = \<lambda>v. Some (map (\<lambda>c. of_nat (of_char c)) v), hx_value = Some\<rparr>"

definition ex_http_settings :: http_settings where
  "ex_http_settings = \<lparr>hg_headers = [(''A'', ''x''), (''B'', ''x'')], hg_timeout = 1\<rparr>"

definition ex_http_sink :: http_sink_config where
  "ex_http_sink = (http_sink_config_new ''https://h/'')\<lparr>hk_headers := [(''b'', ''y''), (''c'', ''y'')]\<rparr>"

definition ex_http_output :: "bytes http_publish" where
  "ex_http_output = \<lparr>hu_headers = [(''C'', [1]), (''c'', [2])], hu_body = []\<rparr>"

theorem http_header_precedence_witness:
  "\<exists>r. http_prepare ex_http_syntax Inr ex_http_settings ex_http_sink ex_http_output = Inr r
    \<and> header_values ''c'' (hp_headers r) = [[1], [2]] \<and> hp_body r = []"
proof -
  obtain r where r: "http_prepare ex_http_syntax Inr ex_http_settings ex_http_sink ex_http_output = Inr r"
    by (simp add: http_prepare_def ex_http_syntax_def ex_http_settings_def ex_http_sink_def ex_http_output_def http_target_of_def
        http_settings_validate_def http_sink_validate_def http_headers_def http_uri_def validate_timeout_def and_then_def
        ensure_config_def http_sink_config_new_def Let_def)
  have "values_set (hx_name ex_http_syntax) (hx_value ex_http_syntax) ''c'' (hu_headers ex_http_output) = [[1], [2]]"
    by code_simp
  moreover have "hu_body ex_http_output = []" by (simp add: ex_http_output_def)
  ultimately show ?thesis using http_header_precedence [OF r, of "''c''"] r by simp
qed

definition ex_http_target :: http_target where
  "ex_http_target =
     \<lparr>hz_uri = \<lparr>ui_scheme = Some ''https'', ui_authority = Some ''h'', ui_path = ''/''\<rparr>, hz_method = ''POST'', hz_headers = [],
      hz_timeout = 1, hz_display = ''POST https://h/''\<rparr>"

theorem http_send_outcome_witness:
  "\<exists>e. http_send (\<lambda>_. []) (\<lambda>_. []) ex_http_target (HttpAnswer 404 [FrameData [1]]) = Inl e \<and> rejected e"
proof -
  have "http_send (\<lambda>_. []) (\<lambda>_. []) ex_http_target (HttpAnswer 404 [FrameData [1]]) \<noteq> Inr ()" "\<not> retryable 404"
    by (simp_all add: http_send_def is_success_def retryable_def is_server_error_def Let_def)
  with http_send_outcome [of "HttpAnswer 404 [FrameData [1]]" "\<lambda>_. []" "\<lambda>_. []" ex_http_target] show ?thesis
    by (cases "http_send (\<lambda>_. []) (\<lambda>_. []) ex_http_target (HttpAnswer 404 [FrameData [1]])") auto
qed

end
