(* ===== verification/Spec2Isabelle.thy ===== *)
theory Spec2Isabelle
  imports Errors Retry Error_Policy Dead_Letters Messages Scheduler Kafka_Progress Processing Batching
    Config Runtime State_Store Handlers Health App Channel Pulsar_Resend Sqs Brokers
    Kafka_Transaction Rabbitmq Servicebus_Locks Servicebus
    Submissions Kafka_Source Pulsar_Source Rabbitmq_Source Pubsub
    Blocking Http
begin

text \<open>
  \<^bold>\<open>Verification of beavers, a message-processing runtime.\<close>

  A subscription connects a source, a handler and a sink. The runtime receives deliveries, decodes
  them, orders them into lanes, runs the handler with retries, publishes the outputs, routes
  failures and acknowledges a delivery only when its outputs are safe. An application runs several
  subscriptions and stops them together. Adapters connect brokers. The development models these
  parts from the source under \<^verbatim>\<open>src/src\<close> and proves what each promises.

  \<^bold>\<open>How the program is modelled.\<close> A struct is a record, an enum a datatype, an error a value of a sum.
  Code that other code calls (handlers, brokers, clocks, random numbers, codecs) is a parameter or
  an input. Concurrent components are step functions over events (\<open>step s e = Some s'\<close>), where each
  event is one critical section or one answer from outside; \<open>reach\<close> and the locale \<open>invariant_system\<close> of
  \<open>Prelude\<close> give the reachable states, runs, and invariants by rule induction, and every such component
  interprets it. So the theorems about them speak of every interleaving.

  \<^bold>\<open>The core.\<close>

  \<^item> \<open>Prelude\<close>, \<open>Ordered_Map\<close>, \<open>Texts\<close>: machine types, ordered maps, and the standard library on text.
  \<^item> \<open>Errors\<close> (\<^verbatim>\<open>error.rs\<close>, \<^verbatim>\<open>sink.rs\<close>), \<open>Retry\<close> (\<^verbatim>\<open>retry.rs\<close>), \<open>Error_Policy\<close> (\<^verbatim>\<open>error_policy.rs\<close>),
    \<open>Dead_Letters\<close> (\<^verbatim>\<open>dead_letter.rs\<close>), \<open>Messages\<close> (\<^verbatim>\<open>message.rs\<close>, \<^verbatim>\<open>distribution.rs\<close>), \<open>Tokens\<close>
    (\<^verbatim>\<open>shutdown.rs\<close>): errors with their cause chains, delays, routing by failure kind, the details of a
    dead letter and their parsing, ordering keys and lanes, cancellation.
  \<^item> \<open>Scheduler\<close> (\<^verbatim>\<open>subscription/scheduler.rs\<close>): admission, lanes and flow control. Shown: order and
    exclusion within a lane, exact counts, pausing exactly at the limit and resuming at half of it.
  \<^item> \<open>Effects\<close>, \<open>Completions\<close>, \<open>Processing\<close> (\<^verbatim>\<open>subscription/processing.rs\<close>, \<^verbatim>\<open>completion.rs\<close>,
    \<^verbatim>\<open>handler.rs\<close>, \<^verbatim>\<open>middleware.rs\<close>, \<^verbatim>\<open>tombstone.rs\<close>): one delivery from its decoding to its
    acknowledgement, as a program over a world of any type that records what it did. Shown:
    acknowledgement after the outputs, no acknowledgement after a failure, bounded attempts.
  \<^item> \<open>Batching\<close> (\<^verbatim>\<open>subscription/transaction.rs\<close>): batches of transactional subscriptions. Shown: what
    commits is a prefix in batches within the limit, and every delivery is settled once.
  \<^item> \<open>Config\<close>, \<open>Handlers\<close> (\<^verbatim>\<open>subscription/config.rs\<close>, \<^verbatim>\<open>builder.rs\<close>, \<^verbatim>\<open>handler.rs\<close>): settings,
    validation, and the eight handler shapes.
  \<^item> \<open>Runtime\<close> (\<^verbatim>\<open>subscription/runtime.rs\<close>, \<^verbatim>\<open>decoding.rs\<close>): the receive loop, the drain loop and
    cleanup over the scheduler and processing. Shown: lane order, bounds, the first failure, that
    receiving never stalls, that draining ends, and what a clean end means. \<open>start_rounds\<close> has the
    number of outstanding deliveries as fuel; every round takes one out of the queues, so it is
    enough (\<open>drain_terminates\<close> bounds the loop by the work that is left).
  \<^item> \<open>Blocking\<close> (\<^verbatim>\<open>blocking.rs\<close>): synchronous handlers on a bounded pool of threads. Shown: bounds, order,
    at most one run, and that no call is stuck.
  \<^item> \<open>State_Store\<close> (\<^verbatim>\<open>state/\<close>): keyed state. Shown: it refines a machine of plain cells,
    one per key (\<open>cells_step\<close>), in every run in which no commit drops a token that was already
    cancelled, and state of a revoked partition is not seen again but for that case.
  \<^item> \<open>Health\<close> (\<^verbatim>\<open>health/\<close>), \<open>App\<close> (\<^verbatim>\<open>app.rs\<close>): probes, and the application over the runtimes of its
    subscriptions, which share one token store.

  \<^bold>\<open>The adapters.\<close>

  \<^item> \<open>Channel\<close> (\<^verbatim>\<open>adapters/channel\<close>): both ends of an in-process channel.
  \<^item> \<open>Carriers\<close>, the \<open>Records\<close> theories and \<open>Brokers\<close> (\<^verbatim>\<open>record.rs\<close>, \<^verbatim>\<open>dead_letter.rs\<close>, \<^verbatim>\<open>inherit.rs\<close>,
    \<^verbatim>\<open>distribution.rs\<close>, \<^verbatim>\<open>tombstone.rs\<close> of six brokers): the locale \<open>dead_letter_carrier\<close> states what writing and
    reading a dead letter promise and is interpreted on every broker's functions.
  \<^item> \<open>Kafka_Progress\<close>, \<open>Kafka_Transaction\<close> (\<^verbatim>\<open>adapters/kafka/progress.rs\<close>, \<^verbatim>\<open>transaction.rs\<close>): which
    offsets are committed, and transactions with the broker's answers as inputs.
  \<^item> \<open>Pulsar_Resend\<close> (\<^verbatim>\<open>adapters/pulsar/resend.rs\<close>): sending again in order.
  \<^item> \<open>Leases\<close>, \<open>Sqs\<close>, \<open>Servicebus_Locks\<close> (\<^verbatim>\<open>adapters/sqs/lease.rs\<close>, \<^verbatim>\<open>source.rs\<close>,
    \<^verbatim>\<open>adapters/servicebus/lock.rs\<close>, \<^verbatim>\<open>source.rs\<close>): deliveries are revoked before another consumer may
    get them. The bounds have a second of slack for SQS, whose whole seconds the code rounds down,
    and a millisecond for Service Bus, whose times are in milliseconds; a Service Bus message without
    a lock time is bounded by the five seconds the code assumes.
  \<^item> \<open>Rabbitmq\<close>, \<open>Servicebus\<close> (\<^verbatim>\<open>convert.rs\<close>, \<^verbatim>\<open>config.rs\<close>, parts of \<^verbatim>\<open>source.rs\<close> and \<^verbatim>\<open>sink.rs\<close>): messages
    to and from AMQP, settings, connection strings.
  \<^item> \<open>Submissions\<close> (\<^verbatim>\<open>adapters/pending.rs\<close> and the four \<^verbatim>\<open>sink.rs\<close> that use it): the limit on unconfirmed
    outputs. The locale \<open>permit_sink\<close> states what a sink must keep of its permits and is interpreted on the
    Kafka, RabbitMQ, Service Bus and Pulsar sinks.
  \<^item> \<open>Kafka_Source\<close> (\<^verbatim>\<open>adapters/kafka/source.rs\<close>, \<^verbatim>\<open>poller.rs\<close>, \<^verbatim>\<open>probe.rs\<close>, \<^verbatim>\<open>config.rs\<close>, \<^verbatim>\<open>client.rs\<close>): the
    source with its polling thread refines the protocol of \<open>Kafka_Progress\<close>, and every record is accounted for.
  \<^item> \<open>Pulsar_Source\<close> (\<^verbatim>\<open>adapters/pulsar/source.rs\<close>, \<^verbatim>\<open>producer.rs\<close>, \<^verbatim>\<open>config.rs\<close>, \<^verbatim>\<open>client.rs\<close>): no consumer
    starves, messages round trip alone and in batches, keyed messages go to one partition and others
    rotate (with the 64-bit counter of the code), acknowledgements are bounded.
  \<^item> \<open>Rabbitmq_Source\<close> (\<^verbatim>\<open>adapters/rabbitmq/source.rs\<close>, \<^verbatim>\<open>connection.rs\<close>), \<open>Pubsub\<close>
    (\<^verbatim>\<open>adapters/pubsub/source.rs\<close>, \<^verbatim>\<open>sink.rs\<close>, \<^verbatim>\<open>config.rs\<close>, \<^verbatim>\<open>client.rs\<close>): sessions and streams, and which
    deliveries are revoked when.
  \<^item> \<open>Http\<close> (\<^verbatim>\<open>adapters/http\<close>): every request is answered by what became of it; headers of a request and
    what an answer means.

  \<^bold>\<open>Bounds.\<close> A word of the source has its width where it wraps (generations of Kafka assignments, AMQP
  integers, probe counters); a \<^verbatim>\<open>usize\<close> that counts what is in memory is a \<open>nat\<close>. Loops of the code are
  recursive functions with termination proofs or lists of events; a commit is tried at most three
  times. Time is a number of nanoseconds that events advance.

  \<^bold>\<open>Not modelled.\<close> Network and process I/O: connecting, authentication and the client libraries behind
  the adapters, signal handling, the health server's sockets, standard input and output. Metrics, log
  lines, spans and trace propagation, which no decision of the program reads. Codecs that only call
  a library. Test support under \<^verbatim>\<open>testing\<close> and fabricated records. Fairness of the executor: liveness
  is stated as the absence of stuck states and as bounds on a component's own steps.
\<close>

end
